(* ===== verification/PF_Prelude.thy ===== *)
theory PF_Prelude
  imports Main "HOL-Library.Word"
begin

unbundle bit_operations_syntax

text \<open>
  Shared vocabulary of the development: the machine types of the C++ code, byte strings,
  writes into a byte buffer (the model of \<open>std::memcpy\<close> and of stores through a
  \<open>uint8_t *\<close>), and generic lemmas on lists and words that the components use.

  Unsigned integers are words of their width, so \<open>+\<close> and \<open>-\<close> wrap as in C++. Signed 64-bit
  values (\<open>int64_t\<close>) are \<open>int\<close>: the predicate \<open>int64_range\<close> says when a value is representable. Signed
  overflow is undefined behaviour in C++; where an operation can leave the range, the model writes
  \<open>s64\<close> around it (the two's complement result the machine instruction gives), and the theorems
  that speak of exact values have the absence of overflow as a hypothesis. \<open>size_t\<close> values that only
  count bytes or index arrays are \<open>nat\<close>. \<open>char\<close> data on the wire is a byte.
\<close>

type_synonym u8 = "8 word"
type_synonym u16 = "16 word"
type_synonym u32 = "32 word"
type_synonym u64 = "64 word"
type_synonym bytes = "8 word list"

named_theorems codec_simps \<open>rewrite rules that evaluate encoders and decoders\<close>
named_theorems inv_intros \<open>operations that keep a component's invariant\<close>

definition int64_range :: "int \<Rightarrow> bool" where
  "int64_range x \<longleftrightarrow> - (2 ^ 63) \<le> x \<and> x < 2 ^ 63"

definition s64 :: "int \<Rightarrow> int" where
  "s64 x = signed_take_bit 63 x"

lemma s64_id [simp]: "int64_range x \<Longrightarrow> s64 x = x"
  by (simp add: s64_def int64_range_def signed_take_bit_int_eq_self)

lemma s64_range [simp]: "int64_range (s64 x)"
  unfolding int64_range_def s64_def
  using signed_take_bit_int_greater_eq_minus_exp [of 63 x] signed_take_bit_int_less_exp [of 63 x] by simp

abbreviation chr :: "char \<Rightarrow> u8" where
  "chr c \<equiv> of_char c"

definition str :: "string \<Rightarrow> bytes" where
  "str s = map of_char s"

lemma length_str [simp]: "length (str s) = length s"
  by (simp add: str_def)

subsection \<open>Stores into a buffer\<close>

text \<open>\<open>blit buf off bs\<close>: the buffer after the bytes \<open>bs\<close> were stored at offset \<open>off\<close>.\<close>

definition blit :: "'a list \<Rightarrow> nat \<Rightarrow> 'a list \<Rightarrow> 'a list" where
  "blit buf off bs = take off buf @ bs @ drop (off + length bs) buf"

definition bslice :: "'a list \<Rightarrow> nat \<Rightarrow> nat \<Rightarrow> 'a list" where
  "bslice buf off n = take n (drop off buf)"

lemma length_blit [simp]:
  "off + length bs \<le> length buf \<Longrightarrow> length (blit buf off bs) = length buf"
  by (simp add: blit_def)

lemma take_blit_prefix:
  "off + length bs \<le> length buf \<Longrightarrow>
     take (off + length bs) (blit buf off bs) = take off buf @ bs"
  by (simp add: blit_def min_absorb2)

lemma drop_blit_beyond:
  "off + length bs \<le> length buf \<Longrightarrow> off + length bs \<le> n \<Longrightarrow>
     drop n (blit buf off bs) = drop n buf"
  by (simp add: blit_def min_def)

lemma take_blit_before:
  "off + length bs \<le> length buf \<Longrightarrow> n \<le> off \<Longrightarrow> take n (blit buf off bs) = take n buf"
  by (simp add: blit_def min_def)

lemma length_bslice [simp]: "off + n \<le> length buf \<Longrightarrow> length (bslice buf off n) = n"
  by (simp add: bslice_def)

lemma bslice_append_left:
  "length xs = off \<Longrightarrow> bslice (xs @ ys) off n = take n ys"
  by (simp add: bslice_def)

lemma bslice_all [simp]: "bslice xs 0 (length xs) = xs"
  by (simp add: bslice_def)

lemma blit_blit_adjacent:
  "off + length as + length bs \<le> length buf \<Longrightarrow>
     blit (blit buf off as) (off + length as) bs = blit buf off (as @ bs)"
  by (cases "length as") (simp_all add: blit_def min_def ac_simps)

subsection \<open>Lists\<close>

lemma take_append_exact: "length xs = n \<Longrightarrow> take n (xs @ ys) = xs"
  by simp

lemma drop_append_exact: "length xs = n \<Longrightarrow> drop n (xs @ ys) = ys"
  by simp

lemma distinct_update_nth_ne:
  "distinct xs \<Longrightarrow> i < length xs \<Longrightarrow> j < length xs \<Longrightarrow> i \<noteq> j \<Longrightarrow> xs ! i \<noteq> xs ! j"
  by (simp add: nth_eq_iff_index_eq)

lemma nth_update_total: "(xs[i := v]) ! j = (if j = i \<and> i < length xs then v else xs ! j)"
  by (cases "i < length xs") (auto simp: nth_list_update list_update_beyond)

lemma find_split: "\<forall>y\<in>set us. \<not> P y \<Longrightarrow> P x \<Longrightarrow> find P (us @ x # vs) = Some x"
  by (induction us) auto

subsection \<open>Words\<close>

lemma unat_sub_if_le: "b \<le> a \<Longrightarrow> unat (a - b :: 'a::len word) = unat a - unat b"
  by (rule unat_sub)

lemma unat_of_nat_id: "n < 2 ^ LENGTH('a) \<Longrightarrow> unat (of_nat n :: 'a::len word) = n"
  by (simp add: unsigned_of_nat take_bit_nat_eq_self)

lemma word_sub_less:
  assumes "a \<noteq> (0 :: 'a::len word)" "a < b"
  shows "b - a \<noteq> 0" "b - a < b"
proof -
  have "unat (b - a) = unat b - unat a" using assms(2) by (simp add: unat_sub less_imp_le)
  moreover have "0 < unat a" using assms(1) by (simp add: unat_gt_0)
  moreover have "unat a < unat b" using assms(2) by (simp add: word_less_nat_alt)
  ultimately have "unat (b - a) < unat b" "0 < unat (b - a)" by linarith+
  then show "b - a \<noteq> 0" "b - a < b" unfolding word_less_nat_alt by auto
qed

lemma unat_add_no_wrap:
  "unat a + unat b < 2 ^ LENGTH('a) \<Longrightarrow> unat (a + b :: 'a::len word) = unat a + unat b"
  by (simp add: unat_word_ariths)

lemma sint_small: "unat w < 2 ^ (LENGTH('a) - 1) \<Longrightarrow> sint (w :: 'a::len word) = int (unat w)"
proof -
  assume "unat w < 2 ^ (LENGTH('a) - 1)"
  then have "int (unat w) < 2 ^ (LENGTH('a) - 1)" by (metis of_nat_less_iff of_nat_numeral of_nat_power)
  then show ?thesis by (simp add: sint_uint signed_take_bit_int_eq_self order_trans [of _ 0])
qed

lemma nat_and_mask: "(x::nat) AND (2 ^ b - 1) = x mod 2 ^ b"
  by (metis take_bit_eq_mod mask_eq_exp_minus_1 take_bit_eq_mask)

lemma map_upt_add: "map f [0..<a + b] = map f [0..<a] @ map (\<lambda>i. f (a + i)) [0..<b]"
  by (induction b) auto

end
