(* ===== verification/Wire.thy ===== *)
theory Wire
  imports PF_Prelude
begin

unbundle bit_operations_syntax

text \<open>
  Big-endian serialization (\<open>include/wire.hpp\<close>): the raw put/get functions, space-padded
  alpha fields, and the bounds-checked cursors \<open>Writer\<close> and \<open>Reader\<close>, which latch
  \<open>ok = false\<close> instead of touching memory past the buffer. The lemmas give the put/get
  round trips, and two small calculi in which the codecs of the other theories are proved:
  a sequence of writer calls is one store of the concatenated bytes, and a reader that is
  positioned before the bytes of a field returns that field.
\<close>

section \<open>Raw put and get\<close>

definition u8_be :: "u8 \<Rightarrow> bytes" where
  "u8_be v = [v]"

definition u16_be :: "u16 \<Rightarrow> bytes" where
  "u16_be v = [ucast (drop_bit 8 v), ucast v]"

definition u32_be :: "u32 \<Rightarrow> bytes" where
  "u32_be v = [ucast (drop_bit 24 v), ucast (drop_bit 16 v), ucast (drop_bit 8 v), ucast v]"

text \<open>The loop \<open>for (i = n - 1; i >= 0; i--) { p[i] = (uint8_t) v; v >>= 8; }\<close>.\<close>

fun be_loop :: "nat \<Rightarrow> u64 \<Rightarrow> bytes" where
  "be_loop 0 v = []"
| "be_loop (Suc n) v = be_loop n (drop_bit 8 v) @ [ucast v]"

definition u48_be :: "u64 \<Rightarrow> bytes" where
  "u48_be v = be_loop 6 v"

definition u64_be :: "u64 \<Rightarrow> bytes" where
  "u64_be v = be_loop 8 v"

definition put_u8 :: "bytes \<Rightarrow> nat \<Rightarrow> u8 \<Rightarrow> bytes" where
  "put_u8 buf p v = blit buf p (u8_be v)"

definition put_u16 :: "bytes \<Rightarrow> nat \<Rightarrow> u16 \<Rightarrow> bytes" where
  "put_u16 buf p v = blit buf p (u16_be v)"

definition put_u32 :: "bytes \<Rightarrow> nat \<Rightarrow> u32 \<Rightarrow> bytes" where
  "put_u32 buf p v = blit buf p (u32_be v)"

definition put_u48 :: "bytes \<Rightarrow> nat \<Rightarrow> u64 \<Rightarrow> bytes" where
  "put_u48 buf p v = blit buf p (u48_be v)"

definition put_u64 :: "bytes \<Rightarrow> nat \<Rightarrow> u64 \<Rightarrow> bytes" where
  "put_u64 buf p v = blit buf p (u64_be v)"

definition get_u16 :: "bytes \<Rightarrow> nat \<Rightarrow> u16" where
  "get_u16 b p = (push_bit 8 (ucast (b ! p)) OR ucast (b ! (p + 1)))"

definition get_u32 :: "bytes \<Rightarrow> nat \<Rightarrow> u32" where
  "get_u32 b p =
     (push_bit 24 (ucast (b ! p)) OR push_bit 16 (ucast (b ! (p + 1)))
      OR push_bit 8 (ucast (b ! (p + 2))) OR ucast (b ! (p + 3)))"

text \<open>The loop \<open>for (i = 0; i < n; i++) v = (v << 8) | p[i];\<close>.\<close>

fun get_loop :: "u64 \<Rightarrow> bytes \<Rightarrow> u64" where
  "get_loop v [] = v"
| "get_loop v (b # bs) = get_loop (push_bit 8 v OR ucast b) bs"

definition get_u48 :: "bytes \<Rightarrow> nat \<Rightarrow> u64" where
  "get_u48 b p = get_loop 0 (bslice b p 6)"

definition get_u64 :: "bytes \<Rightarrow> nat \<Rightarrow> u64" where
  "get_u64 b p = get_loop 0 (bslice b p 8)"

text \<open>Alpha fields: left-justified, padded with spaces on the right.\<close>

definition space :: u8 where
  "space = 32"

definition alpha_bytes :: "nat \<Rightarrow> bytes \<Rightarrow> bytes" where
  "alpha_bytes width s =
     (let n = (if length s < width then length s else width)
      in take n s @ replicate (width - n) space)"

definition put_alpha :: "bytes \<Rightarrow> nat \<Rightarrow> nat \<Rightarrow> bytes \<Rightarrow> bytes" where
  "put_alpha buf p width s = blit buf p (alpha_bytes width s)"

fun trim_len :: "bytes \<Rightarrow> nat \<Rightarrow> nat" where
  "trim_len b 0 = 0"
| "trim_len b (Suc n) = (if b ! n = space then trim_len b n else Suc n)"

definition get_alpha :: "bytes \<Rightarrow> nat \<Rightarrow> nat \<Rightarrow> bytes" where
  "get_alpha b p width = take (trim_len (bslice b p width) width) (bslice b p width)"

section \<open>Bounds-checked cursors\<close>

record writer =
  w_buf :: bytes
  w_cap :: nat
  w_len :: nat
  w_ok :: bool

definition Writer :: "bytes \<Rightarrow> nat \<Rightarrow> writer" where
  "Writer buf cap = \<lparr>w_buf = buf, w_cap = cap, w_len = 0, w_ok = True\<rparr>"

definition w_take :: "nat \<Rightarrow> writer \<Rightarrow> nat option \<times> writer" where
  "w_take n w =
     (if \<not> w_ok w \<or> w_cap w - w_len w < n then (None, w\<lparr>w_ok := False\<rparr>)
      else (Some (w_len w), w\<lparr>w_len := w_len w + n\<rparr>))"

definition w_u8 :: "u8 \<Rightarrow> writer \<Rightarrow> writer" where
  "w_u8 v w = (case w_take 1 w of (None, w') \<Rightarrow> w'
     | (Some p, w') \<Rightarrow> w'\<lparr>w_buf := put_u8 (w_buf w') p v\<rparr>)"

definition w_ch :: "u8 \<Rightarrow> writer \<Rightarrow> writer" where
  "w_ch c w = w_u8 c w"

definition w_u16 :: "u16 \<Rightarrow> writer \<Rightarrow> writer" where
  "w_u16 v w = (case w_take 2 w of (None, w') \<Rightarrow> w'
     | (Some p, w') \<Rightarrow> w'\<lparr>w_buf := put_u16 (w_buf w') p v\<rparr>)"

definition w_u32 :: "u32 \<Rightarrow> writer \<Rightarrow> writer" where
  "w_u32 v w = (case w_take 4 w of (None, w') \<Rightarrow> w'
     | (Some p, w') \<Rightarrow> w'\<lparr>w_buf := put_u32 (w_buf w') p v\<rparr>)"

definition w_u48 :: "u64 \<Rightarrow> writer \<Rightarrow> writer" where
  "w_u48 v w = (case w_take 6 w of (None, w') \<Rightarrow> w'
     | (Some p, w') \<Rightarrow> w'\<lparr>w_buf := put_u48 (w_buf w') p v\<rparr>)"

definition w_u64 :: "u64 \<Rightarrow> writer \<Rightarrow> writer" where
  "w_u64 v w = (case w_take 8 w of (None, w') \<Rightarrow> w'
     | (Some p, w') \<Rightarrow> w'\<lparr>w_buf := put_u64 (w_buf w') p v\<rparr>)"

definition w_i64 :: "int \<Rightarrow> writer \<Rightarrow> writer" where
  "w_i64 v w = w_u64 (word_of_int v) w"

definition w_alpha :: "bytes \<Rightarrow> nat \<Rightarrow> writer \<Rightarrow> writer" where
  "w_alpha s width w = (case w_take width w of (None, w') \<Rightarrow> w'
     | (Some p, w') \<Rightarrow> w'\<lparr>w_buf := put_alpha (w_buf w') p width s\<rparr>)"

definition w_bytes :: "bytes \<Rightarrow> writer \<Rightarrow> writer" where
  "w_bytes src w = (case w_take (length src) w of (None, w') \<Rightarrow> w'
     | (Some p, w') \<Rightarrow> w'\<lparr>w_buf := blit (w_buf w') p src\<rparr>)"

text \<open>\<open>return w.ok() ? w.size() : 0\<close>, together with the buffer the encoder leaves behind.\<close>

definition w_done :: "writer \<Rightarrow> bytes \<times> nat" where
  "w_done w = (w_buf w, if w_ok w then w_len w else 0)"

record reader =
  r_buf :: bytes
  r_len :: nat
  r_pos :: nat
  r_ok :: bool

definition Reader :: "bytes \<Rightarrow> reader" where
  "Reader bs = \<lparr>r_buf = bs, r_len = length bs, r_pos = 0, r_ok = True\<rparr>"

definition r_take :: "nat \<Rightarrow> reader \<Rightarrow> nat option \<times> reader" where
  "r_take n r =
     (if \<not> r_ok r \<or> r_len r - r_pos r < n then (None, r\<lparr>r_ok := False\<rparr>)
      else (Some (r_pos r), r\<lparr>r_pos := r_pos r + n\<rparr>))"

definition r_u8 :: "reader \<Rightarrow> u8 \<times> reader" where
  "r_u8 r = (case r_take 1 r of (None, r') \<Rightarrow> (0, r') | (Some p, r') \<Rightarrow> (r_buf r ! p, r'))"

definition r_ch :: "reader \<Rightarrow> u8 \<times> reader" where
  "r_ch r = r_u8 r"

definition r_u16 :: "reader \<Rightarrow> u16 \<times> reader" where
  "r_u16 r = (case r_take 2 r of (None, r') \<Rightarrow> (0, r') | (Some p, r') \<Rightarrow> (get_u16 (r_buf r) p, r'))"

definition r_u32 :: "reader \<Rightarrow> u32 \<times> reader" where
  "r_u32 r = (case r_take 4 r of (None, r') \<Rightarrow> (0, r') | (Some p, r') \<Rightarrow> (get_u32 (r_buf r) p, r'))"

definition r_u48 :: "reader \<Rightarrow> u64 \<times> reader" where
  "r_u48 r = (case r_take 6 r of (None, r') \<Rightarrow> (0, r') | (Some p, r') \<Rightarrow> (get_u48 (r_buf r) p, r'))"

definition r_u64 :: "reader \<Rightarrow> u64 \<times> reader" where
  "r_u64 r = (case r_take 8 r of (None, r') \<Rightarrow> (0, r') | (Some p, r') \<Rightarrow> (get_u64 (r_buf r) p, r'))"

definition r_i64 :: "reader \<Rightarrow> int \<times> reader" where
  "r_i64 r = (case r_u64 r of (v, r') \<Rightarrow> (sint v, r'))"

definition r_alpha :: "nat \<Rightarrow> reader \<Rightarrow> bytes \<times> reader" where
  "r_alpha width r = (case r_take width r of (None, r') \<Rightarrow> ([], r')
     | (Some p, r') \<Rightarrow> (get_alpha (r_buf r) p width, r'))"

text \<open>\<open>bytes(dst, n)\<close>: \<open>dst\<close> keeps its old content when the read fails.\<close>

definition r_bytes :: "bytes \<Rightarrow> nat \<Rightarrow> reader \<Rightarrow> bytes \<times> reader" where
  "r_bytes dst n r = (case r_take n r of (None, r') \<Rightarrow> (dst, r')
     | (Some p, r') \<Rightarrow> (bslice (r_buf r) p n, r'))"

definition r_skip :: "nat \<Rightarrow> reader \<Rightarrow> reader" where
  "r_skip n r = snd (r_take n r)"

definition r_remaining :: "reader \<Rightarrow> nat" where
  "r_remaining r = (if r_ok r then r_len r - r_pos r else 0)"

section \<open>Round trips of the raw functions\<close>

lemma length_u8_be [simp]: "length (u8_be v) = 1"
  by (simp add: u8_be_def)

lemma length_u16_be [simp]: "length (u16_be v) = 2"
  by (simp add: u16_be_def)

lemma length_u32_be [simp]: "length (u32_be v) = 4"
  by (simp add: u32_be_def)

lemma length_be_loop [simp]: "length (be_loop n v) = n"
  by (induction n arbitrary: v) auto

lemma length_u48_be [simp]: "length (u48_be v) = 6"
  by (simp add: u48_be_def)

lemma length_u64_be [simp]: "length (u64_be v) = 8"
  by (simp add: u64_be_def)

lemma length_alpha_bytes [simp]: "length (alpha_bytes width s) = width"
  by (simp add: alpha_bytes_def Let_def)

lemma bit_u8_high [simp]: "8 \<le> n \<Longrightarrow> \<not> bit (x :: u8) n"
  by (auto dest: bit_imp_le_length)

lemma get_loop_append: "get_loop v (as @ bs) = get_loop (get_loop v as) bs"
  by (induction as arbitrary: v) auto

lemma get_loop_be_loop:
  "get_loop a (be_loop n v) = (push_bit (8 * n) a OR take_bit (8 * n) v)"
proof (induction n arbitrary: v)
  case 0
  then show ?case by simp
next
  case (Suc n)
  have "get_loop a (be_loop (Suc n) v) =
      (push_bit 8 (push_bit (8 * n) a OR take_bit (8 * n) (drop_bit 8 v)) OR ucast (ucast v :: u8))"
    by (simp add: get_loop_append Suc.IH)
  also have "\<dots> = (push_bit (8 * Suc n) a OR take_bit (8 * Suc n) v)"
    by (rule bit_word_eqI)
      (auto simp: bit_simps not_le dest: bit_imp_le_length)
  finally show ?case .
qed

lemma get_u64_be: "get_loop 0 (u64_be v) = v"
  by (simp add: u64_be_def get_loop_be_loop take_bit_word_eq_self)

lemma get_u48_be: "get_loop 0 (u48_be v) = take_bit 48 v"
  by (simp add: u48_be_def get_loop_be_loop)

lemma nth_after: "length pre = n \<Longrightarrow> (pre @ xs) ! (n + k) = xs ! k"
  by (simp add: nth_append)

lemma get_u16_at: "get_u16 (pre @ u16_be v @ post) (length pre) = v"
proof -
  have "get_u16 (pre @ u16_be v @ post) (length pre) =
      (push_bit 8 (ucast (ucast (drop_bit 8 v) :: u8)) OR ucast (ucast v :: u8))"
    by (simp add: get_u16_def u16_be_def nth_append)
  also have "\<dots> = v"
    by (rule bit_word_eqI) (auto simp: bit_simps)
  finally show ?thesis .
qed

lemma get_u32_at: "get_u32 (pre @ u32_be v @ post) (length pre) = v"
proof -
  have "get_u32 (pre @ u32_be v @ post) (length pre) =
      (push_bit 24 (ucast (ucast (drop_bit 24 v) :: u8)) OR
       push_bit 16 (ucast (ucast (drop_bit 16 v) :: u8)) OR
       push_bit 8 (ucast (ucast (drop_bit 8 v) :: u8)) OR ucast (ucast v :: u8))"
    by (simp add: get_u32_def u32_be_def nth_append)
  also have "\<dots> = v"
  proof (rule bit_word_eqI)
    fix n assume "n < LENGTH(32)"
    then consider "n < 8" | "8 \<le> n" "n < 16" | "16 \<le> n" "n < 24" | "24 \<le> n" "n < 32"
      by fastforce
    then show "bit (push_bit 24 (ucast (ucast (drop_bit 24 v) :: u8)) OR
       push_bit 16 (ucast (ucast (drop_bit 16 v) :: u8)) OR
       push_bit 8 (ucast (ucast (drop_bit 8 v) :: u8)) OR (ucast (ucast v :: u8) :: u32)) n = bit v n"
      by cases (auto simp: bit_simps)
  qed
  finally show ?thesis .
qed

lemma get_u48_at: "get_u48 (pre @ u48_be v @ post) (length pre) = take_bit 48 v"
  by (simp add: get_u48_def bslice_def get_u48_be)

lemma get_u64_at: "get_u64 (pre @ u64_be v @ post) (length pre) = v"
  by (simp add: get_u64_def bslice_def get_u64_be)

text \<open>Every byte string of a field's width is the encoding of a value.\<close>

lemma u16_be_surj: "length xs = 2 \<Longrightarrow> \<exists>v. xs = u16_be v"
proof -
  assume "length xs = 2"
  then obtain a b where xs: "xs = [a, b]"
    by (auto simp: numeral_2_eq_2 length_Suc_conv)
  have "xs = u16_be (push_bit 8 (ucast a) OR ucast b)"
    unfolding xs u16_be_def by (auto intro!: bit_word_eqI simp: bit_simps dest: bit_imp_le_length)
  then show ?thesis ..
qed

lemma u32_be_surj: "length xs = 4 \<Longrightarrow> \<exists>v. xs = u32_be v"
proof -
  assume "length xs = 4"
  then obtain a b c d where xs: "xs = [a, b, c, d]"
    by (auto simp: numeral_eq_Suc length_Suc_conv)
  have "xs = u32_be (push_bit 24 (ucast a) OR push_bit 16 (ucast b) OR push_bit 8 (ucast c) OR ucast d)"
    unfolding xs u32_be_def by (auto intro!: bit_word_eqI simp: bit_simps dest: bit_imp_le_length)
  then show ?thesis ..
qed

lemma be_loop_surj: "length xs = n \<Longrightarrow> n \<le> 8 \<Longrightarrow> \<exists>v. xs = be_loop n v \<and> take_bit (8 * n) v = v"
proof (induction xs arbitrary: n rule: rev_induct)
  case Nil
  then show ?case by (auto intro: exI [of _ 0])
next
  case (snoc x xs)
  then obtain m where n: "n = Suc m" and m: "length xs = m" "m \<le> 8" "m < 8"
    by (cases n) auto
  from snoc.IH [OF m(1,2)] obtain v where v: "xs = be_loop m v" "take_bit (8 * m) v = v"
    by auto
  let ?v = "push_bit 8 v OR ucast x"
  have nb: "\<not> bit v k" if "8 * m \<le> k" for k
    using v(2) that by (metis bit_take_bit_iff not_le)
  have nb2: "k < 8 * m" if "bit v k" for k
    using nb [of k] that by (cases "8 * m \<le> k") auto
  have nb': "k < 56" if "bit v k" for k
    using nb [of k] that m(3) by (cases "8 * m \<le> k") auto
  have "drop_bit 8 ?v = v"
    using nb' by (auto intro!: bit_word_eqI simp: bit_simps dest: bit_imp_le_length)
  moreover have "(ucast ?v :: u8) = x"
    by (auto intro!: bit_word_eqI simp: bit_simps)
  ultimately have 1: "xs @ [x] = be_loop n ?v"
    by (simp add: n v(1))
  have 2: "take_bit (8 * n) ?v = ?v"
  proof (rule bit_word_eqI)
    fix k
    show "bit (take_bit (8 * n) ?v) k = bit ?v k"
      using nb2 [of "k - 8"] by (cases "k < 8") (auto simp: bit_simps n)
  qed
  from 1 2 show ?case by blast
qed

lemma u48_be_surj: "length xs = 6 \<Longrightarrow> \<exists>v. xs = u48_be v \<and> take_bit 48 v = v"
  using be_loop_surj [of xs 6] by (simp add: u48_be_def)

lemma u64_be_surj: "length xs = 8 \<Longrightarrow> \<exists>v. xs = u64_be v"
  using be_loop_surj [of xs 8] by (auto simp: u64_be_def)

text \<open>Splitting a byte string field by field.\<close>

lemma field_bytes: "length p = n + k \<Longrightarrow> \<exists>xs ys. p = xs @ ys \<and> length xs = n \<and> length ys = k"
  by (metis append_take_drop_id length_append length_drop add_diff_cancel_left' add_right_cancel)

lemma field_u8: "length p = 1 + k \<Longrightarrow> \<exists>v ys. p = u8_be v @ ys \<and> length ys = k"
  by (cases p) (auto simp: u8_be_def)

lemma field_u32: "length p = 4 + k \<Longrightarrow> \<exists>v ys. p = u32_be v @ ys \<and> length ys = k"
  using field_bytes [of p 4 k] u32_be_surj by fastforce

lemma field_u64: "length p = 8 + k \<Longrightarrow> \<exists>v ys. p = u64_be v @ ys \<and> length ys = k"
  using field_bytes [of p 8 k] u64_be_surj by fastforce

lemma sint_word_of_int_id: "int64_range x \<Longrightarrow> sint (word_of_int x :: u64) = x"
  by (simp add: int64_range_def sint_sbintrunc' signed_take_bit_int_eq_self)

lemma int64_range_sint [simp]: "int64_range (sint (w :: u64))"
  using sint_ge [of w] sint_lt [of w] by (simp add: int64_range_def)

section \<open>The writer calculus\<close>

text \<open>Every \<open>Writer\<close> method is a store of some bytes at the cursor.\<close>

definition w_emit :: "bytes \<Rightarrow> writer \<Rightarrow> writer" where
  "w_emit bs w = w_bytes bs w"

lemma w_methods_emit:
  "w_u8 b = w_emit (u8_be b)" "w_ch b = w_emit (u8_be b)" "w_u16 h = w_emit (u16_be h)"
  "w_u32 d = w_emit (u32_be d)" "w_u48 q = w_emit (u48_be q)" "w_u64 q = w_emit (u64_be q)"
  "w_i64 i = w_emit (u64_be (word_of_int i))" "w_alpha s n = w_emit (alpha_bytes n s)"
  "w_bytes bs = w_emit bs"
  by (auto simp: fun_eq_iff w_emit_def w_bytes_def w_u8_def w_ch_def w_u16_def w_u32_def w_u48_def
      w_u64_def w_i64_def w_alpha_def put_u8_def put_u16_def put_u32_def put_u48_def put_u64_def
      put_alpha_def split: prod.splits option.splits)

definition w_inv :: "writer \<Rightarrow> bool" where
  "w_inv w \<longleftrightarrow> w_len w \<le> w_cap w \<and> w_cap w \<le> length (w_buf w)"

lemma w_inv_Writer: "cap \<le> length buf \<Longrightarrow> w_inv (Writer buf cap)"
  by (simp add: w_inv_def Writer_def)

lemma w_emit_inv [inv_intros]: "w_inv w \<Longrightarrow> w_inv (w_emit bs w)"
  by (auto simp: w_inv_def w_emit_def w_bytes_def w_take_def)

lemma w_emit_fail: "\<not> w_ok w \<Longrightarrow> w_emit bs w = w"
  by (simp add: w_emit_def w_bytes_def w_take_def)

text \<open>Two stores in a row are one store of the concatenation, when both fit.\<close>

lemma w_emit_emit:
  "w_inv w \<Longrightarrow> w_ok (w_emit bs (w_emit as w)) = w_ok (w_emit (as @ bs) w) \<and>
     (w_ok (w_emit (as @ bs) w) \<longrightarrow> w_emit bs (w_emit as w) = w_emit (as @ bs) w)"
  by (auto simp: w_inv_def w_emit_def w_bytes_def w_take_def blit_blit_adjacent add.assoc)

definition w_emits :: "bytes list \<Rightarrow> writer \<Rightarrow> writer" where
  "w_emits bss w = fold w_emit bss w"

lemma w_emits_inv: "w_inv w \<Longrightarrow> w_inv (w_emits bss w)"
  unfolding w_emits_def by (induction bss arbitrary: w) (auto intro: w_emit_inv)

lemma w_emits_concat:
  "w_inv w \<Longrightarrow> w_ok (w_emits bss w) = (w_ok (w_emit (concat bss) w)) \<and>
     (w_ok (w_emit (concat bss) w) \<longrightarrow> w_emits bss w = w_emit (concat bss) w)"
proof (induction bss arbitrary: w rule: rev_induct)
  case Nil
  then show ?case
    by (auto simp: w_emits_def w_emit_def w_bytes_def w_take_def blit_def)
next
  case (snoc bs bss)
  have 1: "w_emits (bss @ [bs]) w = w_emit bs (w_emits bss w)"
    by (simp add: w_emits_def)
  have 2: "w_ok (w_emit bs w') \<Longrightarrow> w_ok w'" for w'
    by (auto simp: w_emit_def w_bytes_def w_take_def split: if_splits)
  from snoc.IH [OF snoc.prems] w_emit_emit [OF snoc.prems, of bs "concat bss"] show ?case
    unfolding 1 by (auto dest: 2)
qed

text \<open>An encoder that emits \<open>bss\<close> returns the total length and leaves exactly those bytes at the
  front of the buffer, or returns 0 when they do not fit; nothing past the capacity is written.\<close>

lemma w_done_emits:
  assumes "cap \<le> length buf"
  shows "snd (w_done (w_emits bss (Writer buf cap))) =
           (if length (concat bss) \<le> cap then length (concat bss) else 0)"
    and "length (concat bss) \<le> cap \<Longrightarrow>
           fst (w_done (w_emits bss (Writer buf cap))) = blit buf 0 (concat bss)"
  using w_emits_concat [OF w_inv_Writer [OF assms], of bss]
  by (auto simp: w_done_def w_emit_def w_bytes_def w_take_def Writer_def split: if_splits)

lemma w_emit_frame:
  "w_inv w \<Longrightarrow> drop (w_cap w) (w_buf (w_emit bs w)) = drop (w_cap w) (w_buf w)"
  by (auto simp: w_inv_def w_emit_def w_bytes_def w_take_def drop_blit_beyond)

lemma w_emit_cap [simp]: "w_cap (w_emit bs w) = w_cap w"
  by (auto simp: w_emit_def w_bytes_def w_take_def)

lemma w_emits_frame:
  "w_inv w \<Longrightarrow> drop (w_cap w) (w_buf (w_emits bss w)) = drop (w_cap w) (w_buf w)"
  unfolding w_emits_def
  by (induction bss arbitrary: w) (simp_all, metis w_emit_cap w_emit_frame w_emit_inv)

section \<open>The reader calculus\<close>

text \<open>A reader in good state that has consumed \<open>pre\<close> and has \<open>rest\<close> in front of it.\<close>

definition rd :: "bytes \<Rightarrow> bytes \<Rightarrow> reader" where
  "rd pre rest = \<lparr>r_buf = pre @ rest, r_len = length pre + length rest,
                  r_pos = length pre, r_ok = True\<rparr>"

definition r_inv :: "reader \<Rightarrow> bool" where
  "r_inv r \<longleftrightarrow> r_pos r \<le> r_len r \<and> r_len r = length (r_buf r)"

lemma r_inv_Reader: "r_inv (Reader bs)"
  by (simp add: r_inv_def Reader_def)

lemma r_take_inv: "r_take n r = (x, r') \<Longrightarrow> r_inv r \<Longrightarrow> r_inv r'"
  by (auto simp: r_take_def r_inv_def split: if_splits)

lemma r_inv_dests:
  "r_u8 r = (b, r') \<Longrightarrow> r_inv r \<Longrightarrow> r_inv r'"
  "r_ch r = (b, r') \<Longrightarrow> r_inv r \<Longrightarrow> r_inv r'"
  "r_u16 r = (h, r') \<Longrightarrow> r_inv r \<Longrightarrow> r_inv r'"
  "r_u32 r = (d, r') \<Longrightarrow> r_inv r \<Longrightarrow> r_inv r'"
  "r_u48 r = (q, r') \<Longrightarrow> r_inv r \<Longrightarrow> r_inv r'"
  "r_u64 r = (q, r') \<Longrightarrow> r_inv r \<Longrightarrow> r_inv r'"
  "r_bytes dst n r = (bs, r') \<Longrightarrow> r_inv r \<Longrightarrow> r_inv r'"
  by (auto simp: r_u8_def r_ch_def r_u16_def r_u32_def r_u48_def r_u64_def r_bytes_def
      split: prod.splits option.splits dest: r_take_inv)

lemma r_skip_inv [inv_intros]: "r_inv r \<Longrightarrow> r_inv (r_skip n r)"
  by (cases "r_take n r") (auto simp: r_skip_def dest: r_take_inv)

lemma r_bytes_length:
  "r_bytes dst n r = (bs, r') \<Longrightarrow> r_inv r \<Longrightarrow> length dst = n \<Longrightarrow> length bs = n"
  by (auto simp: r_bytes_def r_take_def r_inv_def bslice_def split: if_splits)

lemma get_loop_range: "length bs = n \<Longrightarrow> n \<le> 8 \<Longrightarrow> take_bit (8 * n) (get_loop 0 bs) = get_loop 0 bs"
proof -
  assume "length bs = n" "n \<le> 8"
  then obtain v where v: "bs = be_loop n v" "take_bit (8 * n) v = v"
    using be_loop_surj by blast
  have "get_loop 0 bs = v" unfolding v(1) by (simp add: get_loop_be_loop v(2))
  with v(2) show ?thesis by simp
qed

lemma r_u48_range: "r_u48 r = (t, r') \<Longrightarrow> r_inv r \<Longrightarrow> take_bit 48 t = t"
  using get_loop_range [of "bslice (r_buf r) (r_pos r) 6" 6]
  by (auto simp: r_u48_def r_take_def r_inv_def get_u48_def split: if_splits)

lemma Reader_rd: "Reader bs = rd [] bs"
  by (simp add: Reader_def rd_def)

lemma r_ok_rd [simp]: "r_ok (rd pre rest)"
  by (simp add: rd_def)

lemma r_take_rd:
  "length xs = n \<Longrightarrow> r_take n (rd pre (xs @ ys)) = (Some (length pre), rd (pre @ xs) ys)"
  by (simp add: r_take_def rd_def)

lemma r_u8_rd [codec_simps]: "r_u8 (rd pre (u8_be v @ ys)) = (v, rd (pre @ u8_be v) ys)"
  unfolding r_u8_def r_take_rd [OF length_u8_be] by (simp add: rd_def u8_be_def)

lemma r_ch_rd [codec_simps]: "r_ch (rd pre (u8_be v @ ys)) = (v, rd (pre @ u8_be v) ys)"
  unfolding r_ch_def by (rule r_u8_rd)

lemma r_ch_Reader_type [codec_simps]: "r_ch (Reader (u8_be t @ ys)) = (t, rd (u8_be t) ys)"
  by (simp add: Reader_rd r_ch_rd [of "[]", simplified])

lemma r_u16_rd [codec_simps]: "r_u16 (rd pre (u16_be v @ ys)) = (v, rd (pre @ u16_be v) ys)"
  unfolding r_u16_def r_take_rd [OF length_u16_be] by (simp add: rd_def get_u16_at)

lemma r_u32_rd [codec_simps]: "r_u32 (rd pre (u32_be v @ ys)) = (v, rd (pre @ u32_be v) ys)"
  unfolding r_u32_def r_take_rd [OF length_u32_be] by (simp add: rd_def get_u32_at)

lemma r_u48_rd [codec_simps]:
  "r_u48 (rd pre (u48_be v @ ys)) = (take_bit 48 v, rd (pre @ u48_be v) ys)"
  unfolding r_u48_def r_take_rd [OF length_u48_be] by (simp add: rd_def get_u48_at)

lemma r_u64_rd [codec_simps]: "r_u64 (rd pre (u64_be v @ ys)) = (v, rd (pre @ u64_be v) ys)"
  unfolding r_u64_def r_take_rd [OF length_u64_be] by (simp add: rd_def get_u64_at)

lemma r_i64_rd [codec_simps]: "r_i64 (rd pre (u64_be v @ ys)) = (sint v, rd (pre @ u64_be v) ys)"
  unfolding r_i64_def r_u64_rd by simp

lemma r_bytes_rd [codec_simps]:
  "length xs = n \<Longrightarrow> r_bytes dst n (rd pre (xs @ ys)) = (xs, rd (pre @ xs) ys)"
  by (simp add: r_bytes_def r_take_rd) (simp add: rd_def bslice_def)

lemma r_skip_rd [codec_simps]:
  "length xs = n \<Longrightarrow> r_skip n (rd pre (xs @ ys)) = rd (pre @ xs) ys"
  by (simp add: r_skip_def r_take_rd)

lemma r_skip_rd2 [codec_simps]:
  "length xs + length ys = n \<Longrightarrow> r_skip n (rd pre (xs @ ys @ zs)) = rd (pre @ xs @ ys) zs"
  using r_skip_rd [of "xs @ ys" n pre zs] by simp

lemmas rd_nil_simps [codec_simps] =
  r_u8_rd [where ys = "[]", simplified] r_ch_rd [where ys = "[]", simplified]
  r_u16_rd [where ys = "[]", simplified] r_u32_rd [where ys = "[]", simplified]
  r_u48_rd [where ys = "[]", simplified] r_u64_rd [where ys = "[]", simplified]
  r_i64_rd [where ys = "[]", simplified] r_bytes_rd [where ys = "[]", simplified]
  r_skip_rd [where ys = "[]", simplified]

section \<open>Alpha fields\<close>

lemma trim_len_le: "trim_len b n \<le> n"
  by (induction n) auto

lemma trim_len_append: "n \<le> length s \<Longrightarrow> trim_len (s @ r) n = trim_len s n"
  by (induction n) (auto simp: nth_append)

lemma trim_len_pad: "trim_len (s @ replicate k space) (length s + k) = trim_len s (length s)"
proof (induction k)
  case 0
  then show ?case by simp
next
  case (Suc k)
  have "trim_len (s @ replicate (Suc k) space) (length s + Suc k) =
      trim_len ((s @ replicate k space) @ [space]) (length s + k)"
    by (simp add: nth_append nth_Cons' replicate_append_same)
  also have "\<dots> = trim_len (s @ replicate k space) (length s + k)"
    by (rule trim_len_append) simp
  finally show ?case using Suc.IH by simp
qed

definition no_trailing_space :: "bytes \<Rightarrow> bool" where
  "no_trailing_space s \<longleftrightarrow> s = [] \<or> last s \<noteq> space"

lemma trim_len_full: "no_trailing_space s \<Longrightarrow> trim_len s (length s) = length s"
  by (cases s rule: rev_cases) (auto simp: no_trailing_space_def)

text \<open>An alpha field gives back the string it was made from, when that fits and does not itself
  end in a space.\<close>

lemma get_alpha_at [codec_simps]:
  assumes "length s \<le> width" "no_trailing_space s"
  shows "get_alpha (pre @ alpha_bytes width s @ post) (length pre) width = s"
proof -
  have "alpha_bytes width s = s @ replicate (width - length s) space"
    using assms(1) by (auto simp: alpha_bytes_def Let_def)
  then show ?thesis
    using assms(1) trim_len_pad [of s "width - length s"] trim_len_full [OF assms(2)]
    by (simp add: get_alpha_def bslice_def)
qed

lemma r_alpha_rd [codec_simps]:
  assumes "length s \<le> width" "no_trailing_space s"
  shows "r_alpha width (rd pre (alpha_bytes width s @ ys)) = (s, rd (pre @ alpha_bytes width s) ys)"
  unfolding r_alpha_def r_take_rd [OF length_alpha_bytes]
  using get_alpha_at [OF assms] by (simp add: rd_def)

end
