(* ===== verification/Char_Conv.thy ===== *)
theory Char_Conv
  imports PF_Prelude
begin

text \<open>
  The part of the C++17 library that the text codecs call: \<open>std::to_chars\<close> and
  \<open>std::from_chars\<close> for unsigned integers in base 10. \<open>to_chars\<close> writes the shortest
  decimal representation or fails when it does not fit; \<open>from_chars\<close> reads the longest
  prefix of digits, reports \<open>invalid_argument\<close> when there is none and
  \<open>result_out_of_range\<close> when the value exceeds the type.
\<close>

fun dec_digits :: "nat \<Rightarrow> bytes" where
  "dec_digits n = (if n < 10 then [of_nat (48 + n)] else dec_digits (n div 10) @ [of_nat (48 + n mod 10)])"

declare dec_digits.simps [simp del]

definition to_chars :: "nat \<Rightarrow> nat \<Rightarrow> bytes option" where
  "to_chars cap v = (if length (dec_digits v) \<le> cap then Some (dec_digits v) else None)"

definition is_digit :: "u8 \<Rightarrow> bool" where
  "is_digit b \<longleftrightarrow> 48 \<le> b \<and> b \<le> 57"

definition digit_val :: "u8 \<Rightarrow> nat" where
  "digit_val b = unat b - 48"

fun digits_val :: "nat \<Rightarrow> bytes \<Rightarrow> nat" where
  "digits_val v [] = v"
| "digits_val v (b # bs) = digits_val (10 * v + digit_val b) bs"

text \<open>\<open>FcOk v k\<close>: value \<open>v\<close>, and \<open>k\<close> characters consumed (\<open>res.ptr - first\<close>).\<close>

datatype from_chars_result = FcInvalid | FcOutOfRange nat | FcOk nat nat

definition from_chars :: "nat \<Rightarrow> bytes \<Rightarrow> from_chars_result" where
  "from_chars limit bs =
     (let ds = takeWhile is_digit bs
      in if ds = [] then FcInvalid
         else if digits_val 0 ds < limit then FcOk (digits_val 0 ds) (length ds)
         else FcOutOfRange (length ds))"

lemma digit_of_nat:
  "d < 10 \<Longrightarrow> is_digit (of_nat (48 + d)) \<and> digit_val (of_nat (48 + d)) = d"
proof -
  assume "d < 10"
  then have "unat (of_nat (48 + d) :: u8) = 48 + d"
    by (subst unat_of_nat) simp
  then show ?thesis
    using \<open>d < 10\<close> by (simp add: is_digit_def digit_val_def word_le_nat_alt del: of_nat_add)
qed

lemma dec_digits_not_nil [simp]: "dec_digits n \<noteq> []"
  by (subst dec_digits.simps) simp

lemma dec_digits_all_digits: "\<forall>b \<in> set (dec_digits n). is_digit b"
proof (induction n rule: dec_digits.induct)
  case (1 n)
  then show ?case
    using digit_of_nat [of n] digit_of_nat [of "n mod 10"]
    by (subst dec_digits.simps) (auto simp del: of_nat_add)
qed

lemma digits_val_append: "digits_val v (as @ bs) = digits_val (digits_val v as) bs"
  by (induction as arbitrary: v) auto

lemma digits_val_dec_digits: "digits_val 0 (dec_digits n) = n"
proof (induction n rule: dec_digits.induct)
  case (1 n)
  then show ?case
    using digit_of_nat [of n] digit_of_nat [of "n mod 10"]
    by (subst dec_digits.simps) (auto simp: digits_val_append simp del: of_nat_add)
qed

lemma length_dec_digits: "n < 10 ^ k \<Longrightarrow> 0 < k \<Longrightarrow> length (dec_digits n) \<le> k"
proof (induction n arbitrary: k rule: dec_digits.induct)
  case (1 n)
  show ?case
  proof (cases "n < 10")
    case True
    then show ?thesis using 1 by (subst dec_digits.simps) simp
  next
    case False
    then obtain j where k: "k = Suc j" and j: "0 < j"
      using 1 by (cases k; cases "k - 1") auto
    have "n div 10 < 10 ^ j"
      using 1 k by (simp add: less_mult_imp_div_less mult.commute)
    then have "length (dec_digits (n div 10)) \<le> j"
      using 1 False j by blast
    then show ?thesis using False k by (subst dec_digits.simps) simp
  qed
qed

lemma length_dec_digits_u64: "length (dec_digits (unat (v :: u64))) \<le> 20"
proof (rule length_dec_digits)
  have "unat v < 2 ^ LENGTH(64)" by (rule unsigned_less)
  also have "(2 :: nat) ^ LENGTH(64) < 10 ^ 20" by simp
  finally show "unat v < 10 ^ 20" .
qed simp

lemma takeWhile_digits:
  "\<forall>b \<in> set ds. is_digit b \<Longrightarrow> rest = [] \<or> \<not> is_digit (hd rest) \<Longrightarrow>
     takeWhile is_digit (ds @ rest) = ds"
  by (cases rest) (auto simp: takeWhile_append)

text \<open>Reading back what \<open>to_chars\<close> wrote.\<close>

lemma from_chars_dec_digits:
  assumes "rest = [] \<or> \<not> is_digit (hd rest)" "n < limit"
  shows "from_chars limit (dec_digits n @ rest) = FcOk n (length (dec_digits n))"
  using takeWhile_digits [OF dec_digits_all_digits assms(1)] assms(2)
  by (simp add: from_chars_def Let_def digits_val_dec_digits)

lemmas from_chars_dec_digits_nil = from_chars_dec_digits [of "[]", simplified]

end
