(* ===== verification/Trading_Types.thy ===== *)
theory Trading_Types
  imports Wire Char_Conv
begin

unbundle bit_operations_syntax

text \<open>
  The vocabulary of the trading loop (\<open>include/trading_types.hpp\<close>): order ids, fixed-point
  prices, quantities, sides and times in force with their wire characters, the
  ns-since-midnight clock with its wrap, 8-byte symbols, and price formatting.
\<close>

type_synonym order_id = u64
type_synonym price = int
type_synonym qty = u32

definition kPriceScale :: price where
  "kPriceScale = 10000"

definition kCent :: price where
  "kCent = kPriceScale div 100"

datatype side = Buy | Sell

definition side_char :: "side \<Rightarrow> u8" where
  "side_char s = (case s of Buy \<Rightarrow> chr (CHR ''B'') | Sell \<Rightarrow> chr (CHR ''S''))"

definition opposite :: "side \<Rightarrow> side" where
  "opposite s = (if s = Buy then Sell else Buy)"

definition is_valid_side :: "u8 \<Rightarrow> bool" where
  "is_valid_side c \<longleftrightarrow> c = chr (CHR ''B'') \<or> c = chr (CHR ''S'')"

text \<open>\<open>static_cast<Side>(c)\<close>; used only after \<open>is_valid_side\<close>.\<close>

definition side_of_char :: "u8 \<Rightarrow> side" where
  "side_of_char c = (if c = chr (CHR ''B'') then Buy else Sell)"

datatype time_in_force = Day | IOC

definition tif_char :: "time_in_force \<Rightarrow> u8" where
  "tif_char t = (case t of Day \<Rightarrow> chr (CHR ''0'') | IOC \<Rightarrow> chr (CHR ''3''))"

definition is_valid_tif :: "u8 \<Rightarrow> bool" where
  "is_valid_tif c \<longleftrightarrow> c = chr (CHR ''0'') \<or> c = chr (CHR ''3'')"

definition tif_of_char :: "u8 \<Rightarrow> time_in_force" where
  "tif_of_char c = (if c = chr (CHR ''0'') then Day else IOC)"

section \<open>Time\<close>

definition kNanosPerDay :: u64 where
  "kNanosPerDay = 86400 * 1000000000"

definition ns_since_midnight :: "u64 \<Rightarrow> u64" where
  "ns_since_midnight realtime_ns = realtime_ns mod kNanosPerDay"

text \<open>C++ integer division truncates towards zero, hence \<open>- (day div 2)\<close> for \<open>-day / 2\<close>.\<close>

definition mid_diff :: "u64 \<Rightarrow> u64 \<Rightarrow> int" where
  "mid_diff later earlier =
     (let d = sint later - sint earlier; day = sint kNanosPerDay
      in if d > day div 2 then d - day
         else if d < - (day div 2) then d + day
         else d)"

section \<open>Symbols and price text\<close>

type_synonym symbol = bytes

definition make_symbol :: "bytes \<Rightarrow> symbol" where
  "make_symbol s = fold (\<lambda>i out. out[i := s ! i]) [0..<min (length s) 8] (replicate 8 space)"

definition symbol_str :: "symbol \<Rightarrow> bytes" where
  "symbol_str s = take (trim_len s (length s)) s"

text \<open>\<open>"%s%llu.%04llu"\<close> of sign, whole dollars and the four decimals.\<close>

definition pad4 :: "nat \<Rightarrow> bytes" where
  "pad4 n = (let ds = dec_digits n in replicate (4 - length ds) (chr (CHR ''0'')) @ ds)"

definition format_price :: "price \<Rightarrow> bytes" where
  "format_price p =
     (let a = nat \<bar>p\<bar>
      in (if p < 0 then [chr (CHR ''-'')] else []) @ dec_digits (a div nat kPriceScale)
         @ [chr (CHR ''.'')] @ pad4 (a mod nat kPriceScale))"

text \<open>A 64-bit number as 20 ASCII digits, right-justified: \<open>to_chars\<close> into a 20-byte array
  always fits a 64-bit value.\<close>

definition numeric20 :: "u64 \<Rightarrow> bytes" where
  "numeric20 v =
     (case to_chars 20 (unat v) of
        None \<Rightarrow> replicate 20 space
      | Some digits \<Rightarrow> replicate (20 - length digits) space @ digits)"

section \<open>Lemmas\<close>

lemma opposite_opposite [simp]: "opposite (opposite s) = s"
  by (cases s) (simp_all add: opposite_def)

lemma opposite_ne [simp]: "opposite s \<noteq> s" "s \<noteq> opposite s"
  by (cases s; simp add: opposite_def)+

lemma side_char_simps [simp]: "is_valid_side (side_char s)" "side_of_char (side_char s) = s"
  by (cases s; simp add: side_char_def is_valid_side_def side_of_char_def)+

lemma tif_char_simps [simp]: "is_valid_tif (tif_char t)" "tif_of_char (tif_char t) = t"
  by (cases t; simp add: tif_char_def is_valid_tif_def tif_of_char_def)+

lemma side_char_of_char [simp]: "is_valid_side c \<Longrightarrow> side_char (side_of_char c) = c"
  by (auto simp: side_char_def is_valid_side_def side_of_char_def)

lemma tif_char_of_char [simp]: "is_valid_tif c \<Longrightarrow> tif_char (tif_of_char c) = c"
  by (auto simp: tif_char_def is_valid_tif_def tif_of_char_def)

lemma make_symbol_alpha: "make_symbol s = alpha_bytes 8 s"
proof -
  have step: "k \<le> length s \<Longrightarrow> k \<le> 8 \<Longrightarrow>
      fold (\<lambda>i out. out[i := s ! i]) [0..<k] (replicate 8 space) = take k s @ replicate (8 - k) space"
    for k
  proof (induction k)
    case 0
    then show ?case by simp
  next
    case (Suc k)
    then have "replicate (8 - k) space = space # replicate (8 - Suc k) space"
      by (metis Suc_diff_Suc Suc_le_lessD replicate_Suc)
    with Suc show ?case
      by (simp add: list_update_append take_Suc_conv_app_nth)
  qed
  show ?thesis
    unfolding make_symbol_def using step [of "min (length s) 8"]
    by (auto simp: alpha_bytes_def Let_def min_def)
qed

lemma length_make_symbol [simp]: "length (make_symbol s) = 8"
  by (simp add: make_symbol_alpha)

lemma symbol_str_make_symbol:
  "length s \<le> 8 \<Longrightarrow> no_trailing_space s \<Longrightarrow> symbol_str (make_symbol s) = s"
  using get_alpha_at [of s 8 "[]" "[]"]
  by (simp add: make_symbol_alpha symbol_str_def get_alpha_def bslice_def)

lemma numeric20_eq:
  "numeric20 v = replicate (20 - length (dec_digits (unat v))) space @ dec_digits (unat v)"
  using length_dec_digits_u64 [of v] by (simp add: numeric20_def to_chars_def)

lemma length_numeric20 [simp]: "length (numeric20 v) = 20"
  using length_dec_digits_u64 [of v] by (simp add: numeric20_eq)

lemma dropWhile_numeric20:
  "dropWhile (\<lambda>b. b = space) (numeric20 v) = dec_digits (unat v)"
proof -
  obtain d ds where eq: "dec_digits (unat v) = d # ds"
    by (cases "dec_digits (unat v)") auto
  with dec_digits_all_digits [of "unat v"] have "is_digit d" by simp
  then have "d \<noteq> space" by (auto simp: is_digit_def space_def)
  with eq show ?thesis by (simp add: numeric20_eq dropWhile_append)
qed

end
