(* ===== verification/Itch.thy ===== *)
theory Itch
  imports Trading_Types
begin

unbundle bit_operations_syntax

text \<open>
  The public market-data messages (\<open>include/itch.hpp\<close>, namespace \<open>itch\<close>): one record per
  message struct, the variant \<open>Message\<close> as a datatype, the encoders over \<open>wire::Writer\<close> and
  the decoder over \<open>wire::Reader\<close>. Shown: an encoder writes exactly the message's bytes or
  reports 0; decoding what was encoded gives the message back; a decoded message is well formed
  and had exactly the length of its type.
\<close>

section \<open>Messages\<close>

record system_event =
  se_locate :: u16
  se_timestamp :: u64
  se_event_code :: u8

record stock_directory =
  sd_locate :: u16
  sd_timestamp :: u64
  sd_stock :: symbol
  sd_round_lot_size :: u32

record add_order =
  ao_locate :: u16
  ao_timestamp :: u64
  ao_order_ref :: u64
  ao_side :: side
  ao_shares :: u32
  ao_stock :: symbol
  ao_price :: u32

record order_executed =
  oe_locate :: u16
  oe_timestamp :: u64
  oe_order_ref :: u64
  oe_executed_shares :: u32
  oe_match_number :: u64

record order_cancel =
  oc_locate :: u16
  oc_timestamp :: u64
  oc_order_ref :: u64
  oc_cancelled_shares :: u32

record order_delete =
  od_locate :: u16
  od_timestamp :: u64
  od_order_ref :: u64

record end_of_snapshot =
  eos_next_sequence :: u64

datatype itch_message =
    SystemEvent system_event
  | StockDirectory stock_directory
  | AddOrder add_order
  | OrderExecuted order_executed
  | OrderCancel order_cancel
  | OrderDelete order_delete
  | EndOfSnapshot end_of_snapshot

definition itch_len :: "itch_message \<Rightarrow> nat" where
  "itch_len m = (case m of SystemEvent _ \<Rightarrow> 12 | StockDirectory _ \<Rightarrow> 39 | AddOrder _ \<Rightarrow> 36
     | OrderExecuted _ \<Rightarrow> 31 | OrderCancel _ \<Rightarrow> 23 | OrderDelete _ \<Rightarrow> 19 | EndOfSnapshot _ \<Rightarrow> 21)"

definition itch_kMaxMessageLen :: nat where
  "itch_kMaxMessageLen = 39"

definition kStartOfMessages :: u8 where
  "kStartOfMessages = chr (CHR ''O'')"

definition kStartOfMarketHours :: u8 where
  "kStartOfMarketHours = chr (CHR ''Q'')"

definition kEndOfMarketHours :: u8 where
  "kEndOfMarketHours = chr (CHR ''M'')"

definition kEndOfMessages :: u8 where
  "kEndOfMessages = chr (CHR ''C'')"

section \<open>Encoders\<close>

definition itch_header :: "u8 \<Rightarrow> u16 \<Rightarrow> u64 \<Rightarrow> writer \<Rightarrow> writer" where
  "itch_header type locate ts w = w_u48 ts (w_u16 0 (w_u16 locate (w_ch type w)))"

definition encode_system_event :: "system_event \<Rightarrow> bytes \<Rightarrow> nat \<Rightarrow> bytes \<times> nat" where
  "encode_system_event m out cap =
     (let w = Writer out cap;
          w = itch_header (chr (CHR ''S'')) (se_locate m) (se_timestamp m) w;
          w = w_ch (se_event_code m) w
      in w_done w)"

definition encode_stock_directory :: "stock_directory \<Rightarrow> bytes \<Rightarrow> nat \<Rightarrow> bytes \<times> nat" where
  "encode_stock_directory m out cap =
     (let w = Writer out cap;
          w = itch_header (chr (CHR ''R'')) (sd_locate m) (sd_timestamp m) w;
          w = w_bytes (sd_stock m) w;
          w = w_ch (chr (CHR ''Q'')) w;
          w = w_ch (chr (CHR ''N'')) w;
          w = w_u32 (sd_round_lot_size m) w;
          w = w_ch (chr (CHR ''N'')) w;
          w = w_ch (chr (CHR ''C'')) w;
          w = w_alpha (str ''Z'') 2 w;
          w = w_ch (chr (CHR ''P'')) w;
          w = w_ch space w;
          w = w_ch space w;
          w = w_ch (chr (CHR ''1'')) w;
          w = w_ch (chr (CHR ''N'')) w;
          w = w_u32 0 w;
          w = w_ch (chr (CHR ''N'')) w
      in w_done w)"

definition encode_add_order :: "add_order \<Rightarrow> bytes \<Rightarrow> nat \<Rightarrow> bytes \<times> nat" where
  "encode_add_order m out cap =
     (let w = Writer out cap;
          w = itch_header (chr (CHR ''A'')) (ao_locate m) (ao_timestamp m) w;
          w = w_u64 (ao_order_ref m) w;
          w = w_ch (side_char (ao_side m)) w;
          w = w_u32 (ao_shares m) w;
          w = w_bytes (ao_stock m) w;
          w = w_u32 (ao_price m) w
      in w_done w)"

definition encode_order_executed :: "order_executed \<Rightarrow> bytes \<Rightarrow> nat \<Rightarrow> bytes \<times> nat" where
  "encode_order_executed m out cap =
     (let w = Writer out cap;
          w = itch_header (chr (CHR ''E'')) (oe_locate m) (oe_timestamp m) w;
          w = w_u64 (oe_order_ref m) w;
          w = w_u32 (oe_executed_shares m) w;
          w = w_u64 (oe_match_number m) w
      in w_done w)"

definition encode_order_cancel :: "order_cancel \<Rightarrow> bytes \<Rightarrow> nat \<Rightarrow> bytes \<times> nat" where
  "encode_order_cancel m out cap =
     (let w = Writer out cap;
          w = itch_header (chr (CHR ''X'')) (oc_locate m) (oc_timestamp m) w;
          w = w_u64 (oc_order_ref m) w;
          w = w_u32 (oc_cancelled_shares m) w
      in w_done w)"

definition encode_order_delete :: "order_delete \<Rightarrow> bytes \<Rightarrow> nat \<Rightarrow> bytes \<times> nat" where
  "encode_order_delete m out cap =
     (let w = Writer out cap;
          w = itch_header (chr (CHR ''D'')) (od_locate m) (od_timestamp m) w;
          w = w_u64 (od_order_ref m) w
      in w_done w)"

definition encode_end_of_snapshot :: "end_of_snapshot \<Rightarrow> bytes \<Rightarrow> nat \<Rightarrow> bytes \<times> nat" where
  "encode_end_of_snapshot m out cap =
     (if cap < 21 then (out, 0)
      else (blit (put_u8 out 0 (chr (CHR ''G''))) 1 (numeric20 (eos_next_sequence m)), 21))"

definition itch_encode :: "itch_message \<Rightarrow> bytes \<Rightarrow> nat \<Rightarrow> bytes \<times> nat" where
  "itch_encode m out cap = (case m of
      SystemEvent x \<Rightarrow> encode_system_event x out cap
    | StockDirectory x \<Rightarrow> encode_stock_directory x out cap
    | AddOrder x \<Rightarrow> encode_add_order x out cap
    | OrderExecuted x \<Rightarrow> encode_order_executed x out cap
    | OrderCancel x \<Rightarrow> encode_order_cancel x out cap
    | OrderDelete x \<Rightarrow> encode_order_delete x out cap
    | EndOfSnapshot x \<Rightarrow> encode_end_of_snapshot x out cap)"

section \<open>Decoder\<close>

definition itch_common :: "reader \<Rightarrow> u16 \<times> u64 \<times> reader" where
  "itch_common r =
     (let (locate, r) = r_u16 r; r = r_skip 2 r; (ts, r) = r_u48 r in (locate, ts, r))"

definition zero_symbol :: symbol where
  "zero_symbol = replicate 8 0"

definition decode_system_event :: "reader \<Rightarrow> itch_message option" where
  "decode_system_event r =
     (let (locate, ts, r) = itch_common r; (code, r) = r_ch r
      in if r_ok r
         then Some (SystemEvent \<lparr>se_locate = locate, se_timestamp = ts, se_event_code = code\<rparr>)
         else None)"

definition decode_stock_directory :: "reader \<Rightarrow> itch_message option" where
  "decode_stock_directory r =
     (let (locate, ts, r) = itch_common r;
          (stock, r) = r_bytes zero_symbol 8 r;
          r = r_skip 2 r;
          (lot, r) = r_u32 r
      in if r_ok r
         then Some (StockDirectory \<lparr>sd_locate = locate, sd_timestamp = ts, sd_stock = stock,
                                   sd_round_lot_size = lot\<rparr>)
         else None)"

definition decode_add_order :: "reader \<Rightarrow> itch_message option" where
  "decode_add_order r =
     (let (locate, ts, r) = itch_common r;
          (ref, r) = r_u64 r;
          (side, r) = r_ch r
      in if \<not> is_valid_side side then None
         else let (shares, r) = r_u32 r;
                  (stock, r) = r_bytes zero_symbol 8 r;
                  (price, r) = r_u32 r
              in if r_ok r
                 then Some (AddOrder \<lparr>ao_locate = locate, ao_timestamp = ts, ao_order_ref = ref,
                     ao_side = side_of_char side, ao_shares = shares, ao_stock = stock,
                     ao_price = price\<rparr>)
                 else None)"

definition decode_order_executed :: "reader \<Rightarrow> itch_message option" where
  "decode_order_executed r =
     (let (locate, ts, r) = itch_common r;
          (ref, r) = r_u64 r;
          (shares, r) = r_u32 r;
          (match, r) = r_u64 r
      in if r_ok r
         then Some (OrderExecuted \<lparr>oe_locate = locate, oe_timestamp = ts, oe_order_ref = ref,
             oe_executed_shares = shares, oe_match_number = match\<rparr>)
         else None)"

definition decode_order_cancel :: "reader \<Rightarrow> itch_message option" where
  "decode_order_cancel r =
     (let (locate, ts, r) = itch_common r;
          (ref, r) = r_u64 r;
          (shares, r) = r_u32 r
      in if r_ok r
         then Some (OrderCancel \<lparr>oc_locate = locate, oc_timestamp = ts, oc_order_ref = ref,
             oc_cancelled_shares = shares\<rparr>)
         else None)"

definition decode_order_delete :: "reader \<Rightarrow> itch_message option" where
  "decode_order_delete r =
     (let (locate, ts, r) = itch_common r;
          (ref, r) = r_u64 r
      in if r_ok r
         then Some (OrderDelete \<lparr>od_locate = locate, od_timestamp = ts, od_order_ref = ref\<rparr>)
         else None)"

definition decode_end_of_snapshot :: "bytes \<Rightarrow> itch_message option" where
  "decode_end_of_snapshot p =
     (let s = dropWhile (\<lambda>b. b = space) (bslice p 1 20)
      in case from_chars (2 ^ 64) s of
           FcOk v k \<Rightarrow> if k = length s
             then Some (EndOfSnapshot \<lparr>eos_next_sequence = of_nat v\<rparr>) else None
         | _ \<Rightarrow> None)"

definition itch_decode :: "bytes \<Rightarrow> itch_message option" where
  "itch_decode p =
     (let n = length p
      in if n = 0 then None
         else let (type, r) = r_ch (Reader p)
              in if type = chr (CHR ''S'') then if n \<noteq> 12 then None else decode_system_event r
                 else if type = chr (CHR ''R'') then if n \<noteq> 39 then None else decode_stock_directory r
                 else if type = chr (CHR ''A'') then if n \<noteq> 36 then None else decode_add_order r
                 else if type = chr (CHR ''E'') then if n \<noteq> 31 then None else decode_order_executed r
                 else if type = chr (CHR ''X'') then if n \<noteq> 23 then None else decode_order_cancel r
                 else if type = chr (CHR ''D'') then if n \<noteq> 19 then None else decode_order_delete r
                 else if type = chr (CHR ''G'') then if n \<noteq> 21 then None else decode_end_of_snapshot p
                 else None)"

section \<open>The bytes of a message\<close>

text \<open>What the wire format prescribes, independently of cursors and capacities.\<close>

definition itch_hdr_bytes :: "u8 \<Rightarrow> u16 \<Rightarrow> u64 \<Rightarrow> bytes list" where
  "itch_hdr_bytes type locate ts = [u8_be type, u16_be locate, u16_be 0, u48_be ts]"

fun itch_fields :: "itch_message \<Rightarrow> bytes list" where
  "itch_fields (SystemEvent m) =
     itch_hdr_bytes (chr (CHR ''S'')) (se_locate m) (se_timestamp m) @ [u8_be (se_event_code m)]"
| "itch_fields (StockDirectory m) =
     itch_hdr_bytes (chr (CHR ''R'')) (sd_locate m) (sd_timestamp m) @
     [sd_stock m, u8_be (chr (CHR ''Q'')), u8_be (chr (CHR ''N'')), u32_be (sd_round_lot_size m),
      u8_be (chr (CHR ''N'')), u8_be (chr (CHR ''C'')), alpha_bytes 2 (str ''Z''),
      u8_be (chr (CHR ''P'')), u8_be space, u8_be space, u8_be (chr (CHR ''1'')),
      u8_be (chr (CHR ''N'')), u32_be 0, u8_be (chr (CHR ''N''))]"
| "itch_fields (AddOrder m) =
     itch_hdr_bytes (chr (CHR ''A'')) (ao_locate m) (ao_timestamp m) @
     [u64_be (ao_order_ref m), u8_be (side_char (ao_side m)), u32_be (ao_shares m), ao_stock m,
      u32_be (ao_price m)]"
| "itch_fields (OrderExecuted m) =
     itch_hdr_bytes (chr (CHR ''E'')) (oe_locate m) (oe_timestamp m) @
     [u64_be (oe_order_ref m), u32_be (oe_executed_shares m), u64_be (oe_match_number m)]"
| "itch_fields (OrderCancel m) =
     itch_hdr_bytes (chr (CHR ''X'')) (oc_locate m) (oc_timestamp m) @
     [u64_be (oc_order_ref m), u32_be (oc_cancelled_shares m)]"
| "itch_fields (OrderDelete m) =
     itch_hdr_bytes (chr (CHR ''D'')) (od_locate m) (od_timestamp m) @ [u64_be (od_order_ref m)]"
| "itch_fields (EndOfSnapshot m) = [u8_be (chr (CHR ''G'')), numeric20 (eos_next_sequence m)]"

definition itch_bytes :: "itch_message \<Rightarrow> bytes" where
  "itch_bytes m = concat (itch_fields m)"

text \<open>Well-formedness: symbols are 8 bytes (their C++ type), timestamps fit 48 bits.\<close>

definition ts48 :: "u64 \<Rightarrow> bool" where
  "ts48 t \<longleftrightarrow> take_bit 48 t = t"

fun itch_wf :: "itch_message \<Rightarrow> bool" where
  "itch_wf (SystemEvent m) = ts48 (se_timestamp m)"
| "itch_wf (StockDirectory m) = (ts48 (sd_timestamp m) \<and> length (sd_stock m) = 8)"
| "itch_wf (AddOrder m) = (ts48 (ao_timestamp m) \<and> length (ao_stock m) = 8)"
| "itch_wf (OrderExecuted m) = ts48 (oe_timestamp m)"
| "itch_wf (OrderCancel m) = ts48 (oc_timestamp m)"
| "itch_wf (OrderDelete m) = ts48 (od_timestamp m)"
| "itch_wf (EndOfSnapshot m) = True"

section \<open>Correctness of the codec\<close>

lemma length_zero_symbol [simp]: "length zero_symbol = 8"
  by (simp add: zero_symbol_def)

lemmas itch_encode_defs = encode_system_event_def encode_stock_directory_def encode_add_order_def
  encode_order_executed_def encode_order_cancel_def encode_order_delete_def

lemmas itch_decode_defs = decode_system_event_def decode_stock_directory_def decode_add_order_def
  decode_order_executed_def decode_order_cancel_def decode_order_delete_def itch_common_def

lemma itch_encode_emits:
  "itch_encode m out cap =
     (case m of EndOfSnapshot x \<Rightarrow> encode_end_of_snapshot x out cap
      | _ \<Rightarrow> w_done (w_emits (itch_fields m) (Writer out cap)))"
  by (cases m) (simp_all add: itch_encode_def itch_encode_defs itch_header_def itch_hdr_bytes_def
      w_methods_emit w_emits_def Let_def)

lemma length_itch_bytes [simp]: "itch_wf m \<Longrightarrow> length (itch_bytes m) = itch_len m"
  by (cases m) (simp_all add: itch_bytes_def itch_len_def itch_hdr_bytes_def)

lemma itch_len_bounds: "0 < itch_len m" "itch_len m \<le> itch_kMaxMessageLen"
  by (cases m; simp add: itch_len_def itch_kMaxMessageLen_def)+

lemma itch_encode_size:
  assumes "itch_wf m" "cap \<le> length out"
  shows "snd (itch_encode m out cap) = (if itch_len m \<le> cap then itch_len m else 0)"
proof (cases m)
  case (EndOfSnapshot x)
  then show ?thesis
    by (simp add: itch_encode_def encode_end_of_snapshot_def itch_len_def)
qed (use assms w_done_emits(1) [OF assms(2), of "itch_fields m"] length_itch_bytes [OF assms(1)] in
    \<open>simp_all add: itch_encode_emits itch_bytes_def\<close>)

lemma itch_encode_bytes:
  assumes "itch_wf m" "cap \<le> length out" "itch_len m \<le> cap"
  shows "fst (itch_encode m out cap) = blit out 0 (itch_bytes m)"
proof (cases m)
  case (EndOfSnapshot x)
  then show ?thesis
    using assms blit_blit_adjacent [of 0 "u8_be (chr (CHR ''G''))" "numeric20 (eos_next_sequence x)" out]
    by (simp add: itch_encode_def encode_end_of_snapshot_def itch_len_def itch_bytes_def put_u8_def)
qed (use assms w_done_emits(2) [OF assms(2), of "itch_fields m"] length_itch_bytes [OF assms(1)] in
    \<open>simp_all add: itch_encode_emits itch_bytes_def\<close>)

lemma itch_common_rd [codec_simps]:
  "length tr = 2 \<Longrightarrow> itch_common (rd pre (u16_be l @ tr @ u48_be t @ ys)) =
     (l, take_bit 48 t, rd (pre @ u16_be l @ tr @ u48_be t) ys)"
  by (simp add: itch_common_def codec_simps)

lemma decode_numeric20: "from_chars (2 ^ 64) (dropWhile (\<lambda>b. b = space) (numeric20 v)) =
    FcOk (unat v) (length (dropWhile (\<lambda>b. b = space) (numeric20 v)))"
proof -
  have "unat v < 2 ^ 64" using unsigned_less [of v] by simp
  then show ?thesis
    by (simp add: dropWhile_numeric20 from_chars_dec_digits_nil)
qed

lemma itch_decode_bytes: "itch_wf m \<Longrightarrow> itch_decode (itch_bytes m) = Some m"
proof (cases m)
  case (EndOfSnapshot x)
  moreover have "bslice (u8_be (chr (CHR ''G'')) @ numeric20 (eos_next_sequence x)) 1 20
      = numeric20 (eos_next_sequence x)"
    by (simp add: bslice_def)
  ultimately show ?thesis
    by (simp add: itch_bytes_def itch_decode_def Let_def r_ch_Reader_type decode_end_of_snapshot_def
        decode_numeric20 [simplified])
qed (simp_all add: itch_bytes_def itch_hdr_bytes_def itch_decode_def itch_decode_defs Let_def
    codec_simps ts48_def)

lemma itch_bytes_inj:
  assumes "map itch_bytes ms = map itch_bytes ms'" "\<forall>m\<in>set ms. itch_wf m" "\<forall>m\<in>set ms'. itch_wf m"
  shows "ms = ms'"
proof -
  have "map (itch_decode \<circ> itch_bytes) ms = map (itch_decode \<circ> itch_bytes) ms'" using assms(1) by (metis map_map)
  moreover have "map (itch_decode \<circ> itch_bytes) xs = map Some xs" if "\<forall>m\<in>set xs. itch_wf m" for xs
    using that by (simp add: itch_decode_bytes)
  ultimately have "map Some ms = map Some ms'" using assms(2,3) by simp
  then show ?thesis by (simp add: inj_map_eq_map)
qed

lemma itch_common_wf:
  "itch_common r = (l, t, r') \<Longrightarrow> r_inv r \<Longrightarrow> ts48 t \<and> r_inv r'"
  by (auto simp: itch_common_def Let_def ts48_def split: prod.splits
      intro: inv_intros dest: r_inv_dests r_u48_range)

lemma itch_decode_wf:
  assumes "itch_decode p = Some m"
  shows "itch_wf m \<and> length p = itch_len m"
proof -
  obtain t r where r: "r_ch (Reader p) = (t, r)" by fastforce
  have inv: "r_inv r" using r r_inv_Reader [of p] by (auto dest: r_inv_dests)
  show ?thesis
    using assms r inv
    by (auto simp: itch_decode_def Let_def itch_len_def decode_system_event_def
        decode_stock_directory_def decode_add_order_def decode_order_executed_def
        decode_order_cancel_def decode_order_delete_def decode_end_of_snapshot_def
        split: prod.splits if_splits from_chars_result.splits
        dest!: itch_common_wf)
      (metis length_zero_symbol r_bytes_length r_inv_dests)+
qed

end
