(* ===== verification/Mold.thy ===== *)
theory Mold
  imports Itch
begin

unbundle bit_operations_syntax

text \<open>
  MoldUDP64 packet framing (\<open>include/itch.hpp\<close>, namespace \<open>mold\<close>): the header, the walk over
  the message blocks of a packet, and the packet builder. Shown: the builder never leaves its
  1400-byte buffer and its 16-bit count never wraps or reaches the end-of-session marker, and
  parsing a finished packet gives back the session, the sequence number and every appended
  message under its own sequence number.
\<close>

definition kSessionLen :: nat where
  "kSessionLen = 10"

definition kHeaderLen :: nat where
  "kHeaderLen = 20"

definition kMaxPacketLen :: nat where
  "kMaxPacketLen = 1400"

definition mold_kEndOfSession :: u16 where
  "mold_kEndOfSession = 0xFFFF"

record mold_header =
  mh_session :: bytes
  mh_sequence :: u64
  mh_count :: u16

definition parse_header :: "bytes \<Rightarrow> mold_header option" where
  "parse_header p =
     (if length p < kHeaderLen then None
      else Some \<lparr>mh_session = bslice p 0 kSessionLen, mh_sequence = get_u64 p 10,
                 mh_count = get_u16 p 18\<rparr>)"

text \<open>The loop of \<open>for_each_message\<close>: the calls \<open>f(sequence, message)\<close> it makes, in order, and
  the boolean it returns. \<open>k\<close> counts the blocks still to visit.\<close>

fun mold_loop :: "bytes \<Rightarrow> u64 \<Rightarrow> nat \<Rightarrow> nat \<Rightarrow> nat \<Rightarrow> (u64 \<times> bytes) list \<times> bool" where
  "mold_loop pkt sq i 0 pos = ([], True)"
| "mold_loop pkt sq i (Suc k) pos =
     (if length pkt - pos < 2 then ([], False)
      else let mlen = unat (get_u16 pkt pos); pos = pos + 2
           in if length pkt - pos < mlen then ([], False)
              else let (calls, ok) = mold_loop pkt sq (Suc i) k (pos + mlen)
                   in ((sq + of_nat i, bslice pkt pos mlen) # calls, ok))"

definition for_each_message :: "bytes \<Rightarrow> mold_header \<Rightarrow> (u64 \<times> bytes) list \<times> bool" where
  "for_each_message pkt h =
     (if mh_count h = mold_kEndOfSession then ([], True)
      else mold_loop pkt (mh_sequence h) 0 (unat (mh_count h)) kHeaderLen)"

section \<open>PacketBuilder\<close>

record packet_builder =
  pb_buf :: bytes
  pb_len :: nat
  pb_count :: u16
  pb_first_seq :: u64

definition pb_begin :: "u64 \<Rightarrow> packet_builder \<Rightarrow> packet_builder" where
  "pb_begin first_seq pb =
     pb\<lparr>pb_first_seq := first_seq, pb_count := 0, pb_len := kHeaderLen,
        pb_buf := put_u64 (pb_buf pb) 10 first_seq\<rparr>"

text \<open>The constructor; \<open>raw\<close> is the uninitialised content of the in-object buffer.\<close>

definition PacketBuilder :: "bytes \<Rightarrow> bytes \<Rightarrow> packet_builder" where
  "PacketBuilder raw session =
     pb_begin 1 \<lparr>pb_buf = put_alpha raw 0 kSessionLen session, pb_len = kHeaderLen,
                 pb_count = 0, pb_first_seq = 1\<rparr>"

definition pb_append :: "bytes \<Rightarrow> packet_builder \<Rightarrow> bool \<times> packet_builder" where
  "pb_append msg pb =
     (let n = length msg
      in if n > 0xFFFF \<or> kMaxPacketLen - pb_len pb < n + 2 then (False, pb)
         else (True, pb\<lparr>pb_buf := blit (put_u16 (pb_buf pb) (pb_len pb) (of_nat n)) (pb_len pb + 2) msg,
                        pb_len := pb_len pb + (n + 2), pb_count := pb_count pb + 1\<rparr>))"

definition pb_finish :: "packet_builder \<Rightarrow> packet_builder" where
  "pb_finish pb = pb\<lparr>pb_buf := put_u16 (pb_buf pb) 18 (pb_count pb)\<rparr>"

definition pb_data :: "packet_builder \<Rightarrow> bytes" where
  "pb_data pb = take (pb_len pb) (pb_buf pb)"

section \<open>Invariant and abstract content\<close>

definition block_bytes :: "bytes \<Rightarrow> bytes" where
  "block_bytes m = u16_be (of_nat (length m)) @ m"

text \<open>The builder holds session \<open>sess\<close>, first sequence \<open>sq\<close> and the messages \<open>ms\<close>; the two count
  bytes are arbitrary until \<open>finish\<close>.\<close>

definition pb_holds :: "packet_builder \<Rightarrow> bytes \<Rightarrow> u64 \<Rightarrow> bytes list \<Rightarrow> bool" where
  "pb_holds pb sess sq ms \<longleftrightarrow>
     length (pb_buf pb) = kMaxPacketLen \<and> length sess = kSessionLen \<and>
     pb_len pb = kHeaderLen + length (concat (map block_bytes ms)) \<and> pb_len pb \<le> kMaxPacketLen \<and>
     pb_count pb = of_nat (length ms) \<and> pb_first_seq pb = sq \<and>
     (\<forall>m \<in> set ms. length m \<le> 0xFFFF) \<and>
     (\<exists>c. length c = 2 \<and>
          pb_data pb = sess @ u64_be sq @ c @ concat (map block_bytes ms))"

lemma length_block_bytes [simp]: "length (block_bytes m) = length m + 2"
  by (simp add: block_bytes_def)

lemma blocks_count_bound: "2 * length ms \<le> length (concat (map block_bytes ms))"
  by (induction ms) auto

lemma pb_holds_count:
  assumes "pb_holds pb sess sq ms"
  shows "length ms \<le> 690" "unat (pb_count pb) = length ms" "pb_count pb \<noteq> mold_kEndOfSession"
proof -
  show 1: "length ms \<le> 690"
    using assms blocks_count_bound [of ms]
    by (simp add: pb_holds_def kHeaderLen_def kMaxPacketLen_def)
  show 2: "unat (pb_count pb) = length ms"
    using assms 1 by (simp add: pb_holds_def unat_of_nat)
  show "pb_count pb \<noteq> mold_kEndOfSession"
    using 1 2 by (auto simp: mold_kEndOfSession_def)
qed

lemma pb_begin_holds:
  assumes "length buf = kMaxPacketLen" "pb_buf pb = buf"
  shows "pb_holds (pb_begin sq pb) (take 10 buf) sq []"
proof -
  have "take 20 (blit buf 10 (u64_be sq)) = take 10 buf @ u64_be sq @ take 2 (drop 18 buf)"
    using assms by (simp add: blit_def kMaxPacketLen_def)
  then show ?thesis
    using assms by (auto simp: pb_holds_def pb_begin_def put_u64_def pb_data_def kHeaderLen_def
        kMaxPacketLen_def kSessionLen_def intro: exI [of _ "take 2 (drop 18 buf)"])
qed

lemma PacketBuilder_holds:
  assumes "length raw = kMaxPacketLen"
  shows "pb_holds (PacketBuilder raw session) (alpha_bytes kSessionLen session) 1 []"
proof -
  let ?buf = "put_alpha raw 0 kSessionLen session"
  have "length ?buf = kMaxPacketLen"
    using assms by (simp add: put_alpha_def kMaxPacketLen_def kSessionLen_def)
  moreover have "take 10 ?buf = alpha_bytes kSessionLen session"
    by (simp add: put_alpha_def blit_def kSessionLen_def)
  ultimately show ?thesis
    unfolding PacketBuilder_def using pb_begin_holds [of ?buf] by (simp add: kSessionLen_def)
qed

lemma pb_append_holds:
  assumes "pb_holds pb sess sq ms" "pb_append m pb = (True, pb')"
  shows "pb_holds pb' sess sq (ms @ [m])"
proof -
  from assms obtain c where c: "length c = 2"
      "take (pb_len pb) (pb_buf pb) = sess @ u64_be sq @ c @ concat (map block_bytes ms)"
    by (auto simp: pb_holds_def pb_data_def)
  from assms have g: "length m \<le> 0xFFFF" "pb_len pb + 2 + length m \<le> kMaxPacketLen"
    "length (pb_buf pb) = kMaxPacketLen"
    "pb' = pb\<lparr>pb_buf := blit (put_u16 (pb_buf pb) (pb_len pb) (of_nat (length m))) (pb_len pb + 2) m,
              pb_len := pb_len pb + (length m + 2), pb_count := pb_count pb + 1\<rparr>"
    by (auto simp: pb_append_def Let_def pb_holds_def split: if_splits)
  have buf: "pb_buf pb' = blit (pb_buf pb) (pb_len pb) (block_bytes m)"
    using g blit_blit_adjacent [of "pb_len pb" "u16_be (of_nat (length m))" m "pb_buf pb"]
    by (simp add: put_u16_def block_bytes_def)
  have "pb_data pb' = take (pb_len pb) (pb_buf pb) @ block_bytes m"
    using g buf take_blit_prefix [of "pb_len pb" "block_bytes m" "pb_buf pb"]
    by (simp add: pb_data_def add.commute)
  with assms(1) c g buf show ?thesis
    by (auto simp: pb_holds_def intro!: exI [of _ c])
qed

lemma pb_append_fail: "pb_append m pb = (False, pb') \<Longrightarrow> pb' = pb"
  by (auto simp: pb_append_def Let_def split: if_splits)

section \<open>Round trip\<close>

definition packet_bytes :: "bytes \<Rightarrow> u64 \<Rightarrow> bytes list \<Rightarrow> bytes" where
  "packet_bytes sess sq ms =
     sess @ u64_be sq @ u16_be (of_nat (length ms)) @ concat (map block_bytes ms)"

lemma pb_finish_data:
  assumes "pb_holds pb sess sq ms"
  shows "pb_data (pb_finish pb) = packet_bytes sess sq ms"
proof -
  from assms obtain c where c: "length c = 2"
      "take (pb_len pb) (pb_buf pb) = (sess @ u64_be sq) @ c @ concat (map block_bytes ms)"
    and len: "length sess = 10" "pb_len pb = 20 + length (concat (map block_bytes ms))"
      "pb_len pb \<le> length (pb_buf pb)" "pb_count pb = of_nat (length ms)"
    by (auto simp: pb_holds_def pb_data_def kSessionLen_def kHeaderLen_def)
  define rest where "rest = drop (pb_len pb) (pb_buf pb)"
  have buf: "pb_buf pb = (sess @ u64_be sq) @ c @ concat (map block_bytes ms) @ rest"
    using c(2) append_take_drop_id [of "pb_len pb" "pb_buf pb"] by (simp add: rest_def)
  have "put_u16 (pb_buf pb) 18 (pb_count pb) =
      (sess @ u64_be sq) @ u16_be (of_nat (length ms)) @ concat (map block_bytes ms) @ rest"
    unfolding buf put_u16_def blit_def using len c by simp
  then show ?thesis
    using len by (simp add: pb_data_def pb_finish_def packet_bytes_def)
qed

lemma mold_loop_blocks:
  assumes "\<forall>m \<in> set ms. length m \<le> 0xFFFF"
  shows "mold_loop (pre @ concat (map block_bytes ms)) sq i (length ms) (length pre) =
    (map (\<lambda>k. (sq + of_nat (i + k), ms ! k)) [0..<length ms], True)"
  using assms
proof (induction ms arbitrary: pre i)
  case Nil
  then show ?case by simp
next
  case (Cons m ms)
  let ?rest = "concat (map block_bytes ms)"
  have len: "unat (of_nat (length m) :: u16) = length m"
    using Cons.prems by (simp add: unat_of_nat)
  have get: "get_u16 (pre @ block_bytes m @ ?rest) (length pre) = of_nat (length m)"
    using get_u16_at [of pre "of_nat (length m)" "m @ ?rest"] by (simp add: block_bytes_def)
  have IH: "mold_loop ((pre @ block_bytes m) @ ?rest) sq (Suc i) (length ms) (length (pre @ block_bytes m))
      = (map (\<lambda>k. (sq + of_nat (Suc i + k), ms ! k)) [0..<length ms], True)"
    by (rule Cons.IH) (use Cons.prems in simp)
  have slc: "bslice (pre @ block_bytes m @ ?rest) (length pre + 2) (length m) = m"
    by (simp add: bslice_def block_bytes_def)
  have "mold_loop (pre @ block_bytes m @ ?rest) sq i (Suc (length ms)) (length pre) =
      (let (calls, ok) = mold_loop ((pre @ block_bytes m) @ ?rest) sq (Suc i) (length ms)
             (length (pre @ block_bytes m))
       in ((sq + of_nat i, m) # calls, ok))"
    by (simp add: get len slc [simplified] Let_def ac_simps)
  also have "\<dots> = ((sq + of_nat i, m) # map (\<lambda>k. (sq + of_nat (Suc i + k), ms ! k)) [0..<length ms], True)"
    unfolding IH by simp
  finally show ?case
    by (simp add: map_upt_Suc ac_simps del: upt_Suc)
qed

lemma parse_packet:
  assumes "length sess = kSessionLen" "length ms \<le> 690" "\<forall>m \<in> set ms. length m \<le> 0xFFFF"
  shows "parse_header (packet_bytes sess sq ms) =
           Some \<lparr>mh_session = sess, mh_sequence = sq, mh_count = of_nat (length ms)\<rparr>"
    and "for_each_message (packet_bytes sess sq ms)
           \<lparr>mh_session = sess, mh_sequence = sq, mh_count = of_nat (length ms)\<rparr> =
         (map (\<lambda>k. (sq + of_nat k, ms ! k)) [0..<length ms], True)"
proof -
  let ?b = "concat (map block_bytes ms)"
  have g64: "get_u64 (packet_bytes sess sq ms) 10 = sq"
    using get_u64_at [of sess sq "u16_be (of_nat (length ms)) @ ?b"] assms(1)
    by (simp add: packet_bytes_def kSessionLen_def)
  have g16: "get_u16 (packet_bytes sess sq ms) 18 = of_nat (length ms)"
    using get_u16_at [of "sess @ u64_be sq" "of_nat (length ms)" ?b] assms(1)
    by (simp add: packet_bytes_def kSessionLen_def)
  show "parse_header (packet_bytes sess sq ms) =
      Some \<lparr>mh_session = sess, mh_sequence = sq, mh_count = of_nat (length ms)\<rparr>"
    using assms(1) g64 g16
    by (simp add: parse_header_def packet_bytes_def kHeaderLen_def kSessionLen_def bslice_def)
  have cnt: "unat (of_nat (length ms) :: u16) = length ms"
    using assms(2) by (simp add: unat_of_nat)
  then have "(of_nat (length ms) :: u16) \<noteq> mold_kEndOfSession"
    using assms(2) by (auto simp: mold_kEndOfSession_def)
  then show "for_each_message (packet_bytes sess sq ms)
      \<lparr>mh_session = sess, mh_sequence = sq, mh_count = of_nat (length ms)\<rparr> =
      (map (\<lambda>k. (sq + of_nat k, ms ! k)) [0..<length ms], True)"
    using mold_loop_blocks [OF assms(3), of "sess @ u64_be sq @ u16_be (of_nat (length ms))" sq 0] assms(1)
    by (simp add: for_each_message_def cnt packet_bytes_def kHeaderLen_def kSessionLen_def)
qed

end
