(* ===== verification/Bitmap.thy ===== *)
theory Bitmap
  imports PF_Prelude
begin

unbundle bit_operations_syntax

text \<open>
  The occupancy bitmap of the price ladder (\<open>bitmap_find_prev\<close> and \<open>bitmap_find_next\<close> of
  \<open>src/order_book.cpp\<close>): 64 levels per word, scanned with the compiler's count-leading/trailing-zeros
  builtins. Shown: the scans return exactly the nearest set bit at or below (above) an index.
\<close>

text \<open>\<open>__builtin_clzll\<close> and \<open>__builtin_ctzll\<close> (undefined in C++ on 0; the callers test for 0).\<close>

definition clzll :: "u64 \<Rightarrow> nat" where
  "clzll w = length (takeWhile (\<lambda>i. \<not> bit w (63 - i)) [0..<64])"

definition ctzll :: "u64 \<Rightarrow> nat" where
  "ctzll w = length (takeWhile (\<lambda>i. \<not> bit w i) [0..<64])"

fun find_prev_loop :: "u64 list \<Rightarrow> nat \<Rightarrow> u64 \<Rightarrow> int" where
  "find_prev_loop bits w word =
     (if word \<noteq> 0 then int (64 * w + (63 - clzll word))
      else case w of 0 \<Rightarrow> -1 | Suc w' \<Rightarrow> find_prev_loop bits w' (bits ! w'))"

definition bitmap_find_prev :: "u64 list \<Rightarrow> int \<Rightarrow> int" where
  "bitmap_find_prev bits idx =
     (if idx < 0 then -1
      else let w = nat idx div 64; b = nat idx mod 64;
               mask = (if b = 63 then NOT 0 else push_bit (b + 1) 1 - 1 :: u64)
           in find_prev_loop bits w (bits ! w AND mask))"

function find_next_loop :: "u64 list \<Rightarrow> nat \<Rightarrow> u64 \<Rightarrow> int" where
  "find_next_loop bits w word =
     (if word \<noteq> 0 then int (64 * w + ctzll word)
      else if w + 1 \<ge> length bits then -1
      else find_next_loop bits (w + 1) (bits ! (w + 1)))"
  by pat_completeness auto
termination
  by (relation "measure (\<lambda>(bits, w, word). length bits - w)") auto

definition bitmap_find_next :: "u64 list \<Rightarrow> int \<Rightarrow> int" where
  "bitmap_find_next bits idx =
     (let idx = (if idx < 0 then 0 else idx); w = nat idx div 64
      in if w \<ge> length bits then -1
         else let b = nat idx mod 64
              in find_next_loop bits w (bits ! w AND push_bit b (NOT 0)))"

declare find_prev_loop.simps [simp del] find_next_loop.simps [simp del]

definition bitmap_set :: "u64 list \<Rightarrow> nat \<Rightarrow> u64 list" where
  "bitmap_set bits idx = bits[idx div 64 := bits ! (idx div 64) OR push_bit (idx mod 64) 1]"

definition bitmap_clear :: "u64 list \<Rightarrow> nat \<Rightarrow> u64 list" where
  "bitmap_clear bits idx = bits[idx div 64 := bits ! (idx div 64) AND NOT (push_bit (idx mod 64) 1)]"

section \<open>Specification\<close>

definition bset :: "u64 list \<Rightarrow> nat \<Rightarrow> bool" where
  "bset bits i \<longleftrightarrow> i < 64 * length bits \<and> bit (bits ! (i div 64)) (i mod 64)"

lemma bset_word: "w < length bits \<Longrightarrow> k < 64 \<Longrightarrow> bset bits (64 * w + k) \<longleftrightarrow> bit (bits ! w) k"
  by (auto simp: bset_def)

lemma bit_set_exists: "(x :: u64) \<noteq> 0 \<Longrightarrow> \<exists>k<64. bit x k"
proof (rule ccontr)
  assume "x \<noteq> 0" "\<not> (\<exists>k<64. bit x k)"
  then have "x = 0" by (intro bit_word_eqI) auto
  with \<open>x \<noteq> 0\<close> show False by simp
qed

lemma first_true:
  fixes P :: "nat \<Rightarrow> bool" and n :: nat
  defines "m \<equiv> length (takeWhile (\<lambda>i. \<not> P i) [0..<n])"
  assumes "k < n" "P k"
  shows "m \<le> k" "P m" "\<And>j. j < m \<Longrightarrow> \<not> P j"
proof -
  have below: "\<not> P j" if "j < m" for j
  proof -
    have "m \<le> n" using length_takeWhile_le [of "\<lambda>i. \<not> P i" "[0..<n]"] by (simp add: m_def)
    then have "takeWhile (\<lambda>i. \<not> P i) [0..<n] ! j = j"
      using that takeWhile_nth [of j "\<lambda>i. \<not> P i" "[0..<n]"] by (simp add: m_def)
    then show ?thesis
      using nth_mem [of j "takeWhile (\<lambda>i. \<not> P i) [0..<n]"] that set_takeWhileD
      unfolding m_def by metis
  qed
  then show "\<And>j. j < m \<Longrightarrow> \<not> P j" .
  show le: "m \<le> k" using below [of k] assms(3) by (cases "k < m") auto
  show "P m"
    using nth_length_takeWhile [of "\<lambda>i. \<not> P i" "[0..<n]"] le assms(2) unfolding m_def by simp
qed

lemma ctzll_spec:
  assumes "w \<noteq> 0"
  shows "bit w (ctzll w)" "ctzll w < 64" "k < ctzll w \<Longrightarrow> \<not> bit w k"
proof -
  obtain i where "i < 64" "bit w i" using bit_set_exists [OF assms] by blast
  note f = first_true [of i 64 "bit w", OF this]
  from f \<open>i < 64\<close> show "bit w (ctzll w)" "ctzll w < 64" "k < ctzll w \<Longrightarrow> \<not> bit w k"
    unfolding ctzll_def by auto
qed

lemma clzll_spec:
  assumes "w \<noteq> 0"
  shows "bit w (63 - clzll w)" "clzll w < 64" "63 - clzll w < k \<Longrightarrow> \<not> bit w k"
proof -
  obtain i where i: "i < 64" "bit w i" using bit_set_exists [OF assms] by blast
  then have "63 - i < 64" "bit w (63 - (63 - i))" by auto
  note f = first_true [of "63 - i" 64 "\<lambda>j. bit w (63 - j)", OF this]
  from f(1,2) show 1: "bit w (63 - clzll w)" "clzll w < 64" unfolding clzll_def by auto
  show "\<not> bit w k" if "63 - clzll w < k"
  proof (cases "k < 64")
    case True
    with that have "63 - k < clzll w" using 1(2) by linarith
    then show ?thesis using f(3) [of "63 - k"] True unfolding clzll_def by (simp add: less_Suc_eq_le)
  next
    case False
    then show ?thesis by (auto dest: bit_imp_le_length)
  qed
qed

section \<open>The scans\<close>

text \<open>\<open>r\<close> is the nearest set bit at or above (below) \<open>i\<close>, or -1 when there is none.\<close>

definition is_next :: "u64 list \<Rightarrow> nat \<Rightarrow> int \<Rightarrow> bool" where
  "is_next bits i r \<longleftrightarrow>
     (r = -1 \<and> (\<forall>j\<ge>i. \<not> bset bits j)) \<or>
     (\<exists>k. r = int k \<and> i \<le> k \<and> bset bits k \<and> (\<forall>j. i \<le> j \<and> j < k \<longrightarrow> \<not> bset bits j))"

definition is_prev :: "u64 list \<Rightarrow> nat \<Rightarrow> int \<Rightarrow> bool" where
  "is_prev bits i r \<longleftrightarrow>
     (r = -1 \<and> (\<forall>j\<le>i. \<not> bset bits j)) \<or>
     (\<exists>k. r = int k \<and> k \<le> i \<and> bset bits k \<and> (\<forall>j. k < j \<and> j \<le> i \<longrightarrow> \<not> bset bits j))"

lemma is_next_extend:
  assumes "is_next bits i r" "i' \<le> i" "\<And>j. i' \<le> j \<Longrightarrow> j < i \<Longrightarrow> \<not> bset bits j"
  shows "is_next bits i' r"
  using assms(1) unfolding is_next_def
proof (elim disjE conjE exE)
  assume "r = -1" "\<forall>j\<ge>i. \<not> bset bits j"
  then have "\<forall>j\<ge>i'. \<not> bset bits j" using assms(3) by (meson not_le)
  with \<open>r = -1\<close> show "(r = -1 \<and> (\<forall>j\<ge>i'. \<not> bset bits j)) \<or>
     (\<exists>k. r = int k \<and> i' \<le> k \<and> bset bits k \<and> (\<forall>j. i' \<le> j \<and> j < k \<longrightarrow> \<not> bset bits j))" by blast
next
  fix k
  assume k: "r = int k" "i \<le> k" "bset bits k" "\<forall>j. i \<le> j \<and> j < k \<longrightarrow> \<not> bset bits j"
  then have "\<forall>j. i' \<le> j \<and> j < k \<longrightarrow> \<not> bset bits j" using assms(3) by (meson not_le)
  with k assms(2) show "(r = -1 \<and> (\<forall>j\<ge>i'. \<not> bset bits j)) \<or>
     (\<exists>k. r = int k \<and> i' \<le> k \<and> bset bits k \<and> (\<forall>j. i' \<le> j \<and> j < k \<longrightarrow> \<not> bset bits j))"
    by (intro disjI2 exI [of _ k]) auto
qed

lemma is_prev_extend:
  assumes "is_prev bits i r" "i \<le> i'" "\<And>j. i < j \<Longrightarrow> j \<le> i' \<Longrightarrow> \<not> bset bits j"
  shows "is_prev bits i' r"
  using assms(1) unfolding is_prev_def
proof (elim disjE conjE exE)
  assume "r = -1" "\<forall>j\<le>i. \<not> bset bits j"
  then have "\<forall>j\<le>i'. \<not> bset bits j" using assms(3) by (meson not_le)
  with \<open>r = -1\<close> show "(r = -1 \<and> (\<forall>j\<le>i'. \<not> bset bits j)) \<or>
     (\<exists>k. r = int k \<and> k \<le> i' \<and> bset bits k \<and> (\<forall>j. k < j \<and> j \<le> i' \<longrightarrow> \<not> bset bits j))" by blast
next
  fix k
  assume k: "r = int k" "k \<le> i" "bset bits k" "\<forall>j. k < j \<and> j \<le> i \<longrightarrow> \<not> bset bits j"
  then have "\<forall>j. k < j \<and> j \<le> i' \<longrightarrow> \<not> bset bits j" using assms(3) by (meson not_le)
  with k assms(2) show "(r = -1 \<and> (\<forall>j\<le>i'. \<not> bset bits j)) \<or>
     (\<exists>k. r = int k \<and> k \<le> i' \<and> bset bits k \<and> (\<forall>j. k < j \<and> j \<le> i' \<longrightarrow> \<not> bset bits j))"
    by (intro disjI2 exI [of _ k]) auto
qed

lemma find_next_loop_spec:
  assumes "w < length bits" "b < 64" "\<And>k. bit word k \<longleftrightarrow> b \<le> k \<and> bit (bits ! w) k"
  shows "is_next bits (64 * w + b) (find_next_loop bits w word)"
  using assms
proof (induction bits w word arbitrary: b rule: find_next_loop.induct)
  case (1 bits w word)
  have inword: "\<not> bset bits j" if "64 * w + b \<le> j" "j < 64 * w + c" "c \<le> 64" "\<And>k. k < c \<Longrightarrow> \<not> bit word k" for j c
  proof -
    define k where "k = j - 64 * w"
    have j: "j = 64 * w + k" "b \<le> k" "k < c" using that by (auto simp: k_def)
    then have "\<not> bit (bits ! w) k" using that(4) "1.prems"(3) by blast
    then show ?thesis using bset_word [OF "1.prems"(1), of k] j that(3) by simp
  qed
  show ?case
  proof (cases "word = 0")
    case False
    note c = ctzll_spec [OF False]
    have "bset bits (64 * w + ctzll word)" "b \<le> ctzll word"
      using c(1,2) "1.prems"(3) bset_word [OF "1.prems"(1) c(2)] by auto
    then show ?thesis
      using False inword [of _ "ctzll word"] c
      by (subst find_next_loop.simps)
        (auto simp: is_next_def intro!: exI [of _ "64 * w + ctzll word"])
  next
    case True
    have none: "\<not> bset bits j" if "64 * w + b \<le> j" "j < 64 * Suc w" for j
      using inword [of j 64] that True by simp
    show ?thesis
    proof (cases "w + 1 \<ge> length bits")
      case last: True
      then have "\<not> bset bits j" if "64 * w + b \<le> j" for j
        using none [of j] that "1.prems"(1) by (cases "j < 64 * Suc w") (auto simp: bset_def)
      then show ?thesis using True last by (subst find_next_loop.simps) (simp add: is_next_def)
    next
      case more: False
      have IH: "is_next bits (64 * (w + 1) + 0) (find_next_loop bits (w + 1) (bits ! (w + 1)))"
        by (rule "1.IH") (use True more in auto)
      have "is_next bits (64 * w + b) (find_next_loop bits (w + 1) (bits ! (w + 1)))"
        by (rule is_next_extend [OF IH]) (use none "1.prems"(2) in auto)
      then show ?thesis using True more by (subst find_next_loop.simps) simp
    qed
  qed
qed

lemma find_prev_loop_spec:
  assumes "w < length bits" "b < 64" "\<And>k. bit word k \<longleftrightarrow> k \<le> b \<and> bit (bits ! w) k"
  shows "is_prev bits (64 * w + b) (find_prev_loop bits w word)"
  using assms
proof (induction w arbitrary: word b)
  case 0
  show ?case
  proof (cases "word = 0")
    case True
    then have "\<not> bset bits j" if "j \<le> b" for j
      using 0 bset_word [OF 0(1), of j] that by auto
    then show ?thesis using True by (subst find_prev_loop.simps) (simp add: is_prev_def)
  next
    case False
    note c = clzll_spec [OF False]
    have "\<not> bset bits j" if "63 - clzll word < j" "j \<le> b" for j
      using 0 c(3) [OF that(1)] bset_word [OF 0(1), of j] that(2) by auto
    moreover have "bset bits (63 - clzll word)" "63 - clzll word \<le> b"
      using c(1) 0 bset_word [OF 0(1), of "63 - clzll word"] by auto
    ultimately show ?thesis
      using False by (subst find_prev_loop.simps)
        (auto simp: is_prev_def intro!: exI [of _ "63 - clzll word"])
  qed
next
  case (Suc w)
  have inword: "bset bits j \<longleftrightarrow> bit word (j - 64 * Suc w)" if "64 * Suc w \<le> j" "j \<le> 64 * Suc w + b" for j
  proof -
    define k where "k = j - 64 * Suc w"
    have "j = 64 * Suc w + k" "k \<le> b" using that by (auto simp: k_def)
    then show ?thesis using bset_word [OF Suc.prems(1), of k] Suc.prems(2,3) k_def by auto
  qed
  show ?case
  proof (cases "word = 0")
    case True
    have IH: "is_prev bits (64 * w + 63) (find_prev_loop bits w (bits ! w))"
      by (rule Suc.IH) (use Suc.prems(1) in \<open>auto dest: bit_imp_le_length\<close>)
    have "is_prev bits (64 * Suc w + b) (find_prev_loop bits w (bits ! w))"
      by (rule is_prev_extend [OF IH]) (use inword True in auto)
    then show ?thesis using True by (subst find_prev_loop.simps) simp
  next
    case False
    note c = clzll_spec [OF False]
    let ?k = "64 * Suc w + (63 - clzll word)"
    have le: "63 - clzll word \<le> b" using c(1) Suc.prems(3) by blast
    have "bset bits ?k" using inword [of ?k] c(1) le by simp
    moreover have "\<not> bset bits j" if "?k < j" "j \<le> 64 * Suc w + b" for j
      using inword [of j] c(3) [of "j - 64 * Suc w"] that by auto
    ultimately show ?thesis
      using False le by (subst find_prev_loop.simps) (auto simp: is_prev_def intro!: exI [of _ ?k])
  qed
qed

lemma bitmap_find_next_spec: "is_next bits (nat idx) (bitmap_find_next bits idx)"
proof -
  define i where "i = nat idx"
  have i: "nat (if idx < 0 then 0 else idx) = i" by (simp add: i_def)
  show ?thesis
  proof (cases "i div 64 \<ge> length bits")
    case True
    then have "\<not> bset bits j" if "i \<le> j" for j
      using that by (auto simp: bset_def not_less)
    then show ?thesis
      using True i by (simp add: bitmap_find_next_def Let_def is_next_def i_def)
  next
    case False
    have m: "bit (bits ! (i div 64) AND push_bit (i mod 64) (NOT 0)) k \<longleftrightarrow>
        i mod 64 \<le> k \<and> bit (bits ! (i div 64)) k" for k
      by (auto simp: bit_simps dest: bit_imp_le_length)
    from find_next_loop_spec [OF _ _ m] False
    have "is_next bits (64 * (i div 64) + i mod 64)
        (find_next_loop bits (i div 64) (bits ! (i div 64) AND push_bit (i mod 64) (NOT 0)))"
      by simp
    then show ?thesis
      using False i by (simp add: bitmap_find_next_def Let_def i_def)
  qed
qed

lemma bitmap_find_prev_spec:
  assumes "0 \<le> idx" "nat idx < 64 * length bits"
  shows "is_prev bits (nat idx) (bitmap_find_prev bits idx)"
proof -
  define i where "i = nat idx"
  let ?b = "i mod 64"
  let ?m = "if ?b = 63 then NOT 0 else push_bit (?b + 1) 1 - 1 :: u64"
  have w: "i div 64 < length bits" using assms(2) by (simp add: i_def div_less_iff_less_mult mult.commute)
  have mb: "bit ?m k \<longleftrightarrow> k \<le> ?b" if "k < 64" for k
  proof -
    have "?m = mask (?b + 1)"
      by (auto simp: mask_eq_exp_minus_1 push_bit_eq_mult)
    then show ?thesis using that by (auto simp: bit_simps)
  qed
  then have m: "bit (bits ! (i div 64) AND ?m) k \<longleftrightarrow> k \<le> ?b \<and> bit (bits ! (i div 64)) k" for k
    by (cases "k < 64") (auto simp: bit_simps dest: bit_imp_le_length)
  from find_prev_loop_spec [OF w _ m]
  have "is_prev bits (64 * (i div 64) + ?b) (find_prev_loop bits (i div 64) (bits ! (i div 64) AND ?m))"
    by simp
  moreover have "bitmap_find_prev bits idx = find_prev_loop bits (i div 64) (bits ! (i div 64) AND ?m)"
    unfolding bitmap_find_prev_def Let_def i_def using assms(1) by (simp only: not_less [symmetric] if_False)
  ultimately show ?thesis by (simp add: i_def)
qed

lemma bitmap_find_prev_neg: "idx < 0 \<Longrightarrow> bitmap_find_prev bits idx = -1"
  by (simp add: bitmap_find_prev_def)

lemma length_bitmap_set [simp]: "length (bitmap_set bits i) = length bits"
  by (simp add: bitmap_set_def)

lemma length_bitmap_clear [simp]: "length (bitmap_clear bits i) = length bits"
  by (simp add: bitmap_clear_def)

lemma bset_set: "i < 64 * length bits \<Longrightarrow> bset (bitmap_set bits i) j \<longleftrightarrow> j = i \<or> bset bits j"
proof -
  assume i: "i < 64 * length bits"
  have "j div 64 = i div 64 \<and> j mod 64 = i mod 64 \<longleftrightarrow> j = i"
    by (metis div_mult_mod_eq)
  with i show ?thesis
    by (auto simp: bset_def bitmap_set_def nth_list_update bit_simps)
qed

lemma bset_clear: "i < 64 * length bits \<Longrightarrow> bset (bitmap_clear bits i) j \<longleftrightarrow> j \<noteq> i \<and> bset bits j"
proof -
  assume i: "i < 64 * length bits"
  have "j div 64 = i div 64 \<and> j mod 64 = i mod 64 \<longleftrightarrow> j = i"
    by (metis div_mult_mod_eq)
  with i show ?thesis
    by (auto simp: bset_def bitmap_clear_def nth_list_update bit_simps)
qed

lemma is_next_range: "is_next bits i r \<Longrightarrow> 0 \<le> r \<Longrightarrow> i \<le> nat r \<and> nat r < 64 * length bits \<and> bset bits (nat r)"
  by (auto simp: is_next_def bset_def)

text \<open>The scans as linear searches.\<close>

lemma bset_range: "bset bits i \<Longrightarrow> i < 64 * length bits"
  by (simp add: bset_def)

lemma is_next_find:
  assumes "is_next bits i r"
  shows "r = (case find (bset bits) [i..<64 * length bits] of None \<Rightarrow> -1 | Some k \<Rightarrow> int k)"
proof (cases "find (bset bits) [i..<64 * length bits]")
  case None
  then have "\<not> bset bits j" if "i \<le> j" for j
    using that bset_range [of bits j] by (auto simp: find_None_iff)
  with assms None show ?thesis by (auto simp: is_next_def)
next
  case (Some k)
  then obtain n where n: "n < 64 * length bits - i" "k = i + n" "bset bits k" "\<And>j. j < n \<Longrightarrow> \<not> bset bits (i + j)"
    by (fastforce simp: find_Some_iff)
  from assms n(3) n(2) obtain k' where k': "r = int k'" "i \<le> k'" "bset bits k'" "\<And>j. i \<le> j \<Longrightarrow> j < k' \<Longrightarrow> \<not> bset bits j"
    by (auto simp: is_next_def)
  have "\<not> k' < k"
  proof
    assume "k' < k"
    with n(2) k'(2) have "k' - i < n" by arith
    with n(4) k'(2,3) show False by fastforce
  qed
  moreover have "\<not> k < k'" using n(2,3) k'(4) [of k] by auto
  ultimately have "k' = k" by simp
  with k' Some show ?thesis by (simp del: upt_Suc)
qed

lemma is_prev_find:
  assumes "is_prev bits i r"
  shows "r = (case find (bset bits) (rev [0..<Suc i]) of None \<Rightarrow> -1 | Some k \<Rightarrow> int k)"
proof (cases "find (bset bits) (rev [0..<Suc i])")
  case None
  then have "\<not> bset bits j" if "j \<le> i" for j using that by (auto simp: find_None_iff simp del: upt_Suc)
  with assms None show ?thesis by (auto simp: is_prev_def simp del: upt_Suc)
next
  case (Some k)
  then obtain n where n: "n < Suc i" "k = i - n" "bset bits k" "\<And>j. j < n \<Longrightarrow> \<not> bset bits (i - j)"
    by (auto simp: find_Some_iff rev_nth simp del: upt_Suc)
  from assms n(2,3) obtain k' where k': "r = int k'" "k' \<le> i" "bset bits k'" "\<And>j. k' < j \<Longrightarrow> j \<le> i \<Longrightarrow> \<not> bset bits j"
    by (auto simp: is_prev_def)
  have "\<not> k < k'"
  proof
    assume "k < k'"
    with n(1,2) k'(2) have "i - k' < n" by arith
    with n(4) k'(2,3) show False by fastforce
  qed
  moreover have "\<not> k' < k" using n(2,3) k'(4) [of k] by auto
  ultimately have "k' = k" by simp
  with k' Some show ?thesis by (simp del: upt_Suc)
qed

end
