(* ===== verification/Flat_Id_Map.thy ===== *)
theory Flat_Id_Map
  imports PF_Prelude
begin

unbundle bit_operations_syntax

text \<open>
  The open-addressing hash map from 64-bit ids (\<open>include/flat_id_map.hpp\<close>): linear probing from
  a Fibonacci-hash home slot, key 0 as the empty marker, backward-shift deletion, fixed capacity.

  The interface the clients rely on is the locale \<open>id_map\<close>; the correctness of the probing scheme
  is proved once in the locale \<open>probing\<close>, for any home function into the table, and interpreted on
  the code's \<open>home\<close>. The unbounded loops of the source carry fuel equal to the number of slots;
  the invariant (a free slot always exists) shows that this is enough.
\<close>

section \<open>Model\<close>

definition kEmpty :: u64 where
  "kEmpty = 0"

record 'v slot =
  s_key :: u64
  s_val :: 'v

record 'v flat_map =
  fm_slots :: "'v slot list"
  fm_mask :: nat
  fm_shift :: nat
  fm_size :: nat
  fm_max_entries :: nat

text \<open>The sizing loop \<open>while (cap < max_entries * 2) { cap <<= 1; ++bits; }\<close>; \<open>cap\<close> is \<open>2 ^ bits\<close>.\<close>

function fm_bits :: "nat \<Rightarrow> nat \<Rightarrow> nat" where
  "fm_bits max_entries bits =
     (if 2 ^ bits < max_entries * 2 then fm_bits max_entries (Suc bits) else bits)"
  by pat_completeness auto
termination
proof (relation "measure (\<lambda>(n, k). n * 2 - 2 ^ k)")
  fix n k :: nat
  assume "2 ^ k < n * 2"
  moreover have "(2::nat) ^ k < 2 ^ Suc k" by simp
  ultimately have "n * 2 - 2 ^ Suc k < n * 2 - 2 ^ k" by linarith
  then show "((n, Suc k), (n, k)) \<in> measure (\<lambda>(n, k). n * 2 - 2 ^ k)" by simp
qed simp

declare fm_bits.simps [simp del]

definition FlatIdMap :: "'v \<Rightarrow> nat \<Rightarrow> 'v flat_map" where
  "FlatIdMap dflt max_entries =
     (let bits = fm_bits max_entries 4; cap = 2 ^ bits
      in \<lparr>fm_slots = replicate cap \<lparr>s_key = kEmpty, s_val = dflt\<rparr>, fm_mask = cap - 1,
          fm_shift = 64 - bits, fm_size = 0, fm_max_entries = max_entries\<rparr>)"

definition fm_home :: "'v flat_map \<Rightarrow> u64 \<Rightarrow> nat" where
  "fm_home m key = unat (drop_bit (fm_shift m) (key * 0x9E3779B97F4A7C15))"

abbreviation fm_key :: "'v flat_map \<Rightarrow> nat \<Rightarrow> u64" where
  "fm_key m i \<equiv> s_key (fm_slots m ! i)"

definition fm_succ :: "'v flat_map \<Rightarrow> nat \<Rightarrow> nat" where
  "fm_succ m i = (i + 1) AND fm_mask m"

text \<open>\<open>(b - a) & mask_\<close> on \<open>size_t\<close>.\<close>

definition fm_dist :: "'v flat_map \<Rightarrow> nat \<Rightarrow> nat \<Rightarrow> nat" where
  "fm_dist m a b = unat ((of_nat b - of_nat a :: u64) AND of_nat (fm_mask m))"

text \<open>The probe loops of \<open>insert\<close>, \<open>find\<close> and \<open>erase\<close>: the first slot from \<open>i\<close> on that is empty or
  holds the key. \<open>None\<close> when the fuel runs out.\<close>

fun fm_probe :: "nat \<Rightarrow> 'v flat_map \<Rightarrow> u64 \<Rightarrow> nat \<Rightarrow> nat option" where
  "fm_probe 0 m key i = None"
| "fm_probe (Suc fuel) m key i =
     (if fm_key m i = kEmpty \<or> fm_key m i = key then Some i
      else fm_probe fuel m key (fm_succ m i))"

definition fm_insert :: "u64 \<Rightarrow> 'v \<Rightarrow> 'v flat_map \<Rightarrow> bool \<times> 'v flat_map" where
  "fm_insert key v m =
     (if key = kEmpty \<or> fm_size m \<ge> fm_max_entries m then (False, m)
      else case fm_probe (length (fm_slots m)) m key (fm_home m key) of
             None \<Rightarrow> (False, m)
           | Some i \<Rightarrow>
               if fm_key m i \<noteq> kEmpty then (False, m)
               else (True, m\<lparr>fm_slots := (fm_slots m)[i := \<lparr>s_key = key, s_val = v\<rparr>],
                             fm_size := fm_size m + 1\<rparr>))"

definition fm_find :: "'v flat_map \<Rightarrow> u64 \<Rightarrow> 'v option" where
  "fm_find m key =
     (if key = kEmpty then None
      else case fm_probe (length (fm_slots m)) m key (fm_home m key) of
             None \<Rightarrow> None
           | Some i \<Rightarrow> if fm_key m i \<noteq> kEmpty then Some (s_val (fm_slots m ! i)) else None)"

text \<open>An assignment through the pointer that \<open>find\<close> returned.\<close>

definition fm_store :: "u64 \<Rightarrow> 'v \<Rightarrow> 'v flat_map \<Rightarrow> 'v flat_map" where
  "fm_store key v m =
     (if key = kEmpty then m
      else case fm_probe (length (fm_slots m)) m key (fm_home m key) of
             None \<Rightarrow> m
           | Some i \<Rightarrow> if fm_key m i \<noteq> kEmpty then m\<lparr>fm_slots := (fm_slots m)[i := (fm_slots m ! i)\<lparr>s_val := v\<rparr>]\<rparr> else m)"

text \<open>The backward-shift loop: hole \<open>i\<close>, cursor \<open>j\<close>; ends by emptying the hole.\<close>

fun fm_shift_back :: "nat \<Rightarrow> 'v flat_map \<Rightarrow> nat \<Rightarrow> nat \<Rightarrow> 'v flat_map option" where
  "fm_shift_back 0 m i j = None"
| "fm_shift_back (Suc fuel) m i j =
     (let j = fm_succ m j
      in if fm_key m j = kEmpty
         then Some (m\<lparr>fm_slots := (fm_slots m)[i := (fm_slots m ! i)\<lparr>s_key := kEmpty\<rparr>]\<rparr>)
         else let h = fm_home m (fm_key m j)
              in if fm_dist m h j \<ge> fm_dist m i j
                 then fm_shift_back fuel (m\<lparr>fm_slots := (fm_slots m)[i := fm_slots m ! j]\<rparr>) j j
                 else fm_shift_back fuel m i j)"

definition fm_erase :: "u64 \<Rightarrow> 'v flat_map \<Rightarrow> bool \<times> 'v flat_map" where
  "fm_erase key m =
     (if key = kEmpty then (False, m)
      else case fm_probe (length (fm_slots m)) m key (fm_home m key) of
             None \<Rightarrow> (False, m)
           | Some i \<Rightarrow>
               if fm_key m i = kEmpty then (False, m)
               else case fm_shift_back (length (fm_slots m)) m i i of
                      None \<Rightarrow> (False, m)
                    | Some m' \<Rightarrow> (True, m'\<lparr>fm_size := fm_size m' - 1\<rparr>))"

definition fm_clear :: "'v flat_map \<Rightarrow> 'v flat_map" where
  "fm_clear m = m\<lparr>fm_slots := map (\<lambda>s. s\<lparr>s_key := kEmpty\<rparr>) (fm_slots m), fm_size := 0\<rparr>"

text \<open>The calls \<open>f(key, value)\<close> that \<open>for_each\<close> makes, in order.\<close>

definition fm_entries :: "'v flat_map \<Rightarrow> (u64 \<times> 'v) list" where
  "fm_entries m = map (\<lambda>s. (s_key s, s_val s)) (filter (\<lambda>s. s_key s \<noteq> kEmpty) (fm_slots m))"

section \<open>The interface the clients rely on\<close>

text \<open>A bounded finite map with a distinguished key 0 that is never stored.\<close>

locale id_map =
  fixes insert :: "u64 \<Rightarrow> 'v \<Rightarrow> 'm \<Rightarrow> bool \<times> 'm"
    and find :: "'m \<Rightarrow> u64 \<Rightarrow> 'v option"
    and erase :: "u64 \<Rightarrow> 'm \<Rightarrow> bool \<times> 'm"
    and clear :: "'m \<Rightarrow> 'm"
    and limit :: "'m \<Rightarrow> nat"
    and inv :: "'m \<Rightarrow> bool"
  assumes find_zero: "find m 0 = None"
    and find_finite: "inv m \<Longrightarrow> finite (dom (find m)) \<and> card (dom (find m)) \<le> limit m"
    and insert_ok: "inv m \<Longrightarrow> k \<noteq> 0 \<Longrightarrow> find m k = None \<Longrightarrow> card (dom (find m)) < limit m \<Longrightarrow>
      \<exists>m'. insert k v m = (True, m') \<and> inv m' \<and> find m' = (find m)(k \<mapsto> v) \<and> limit m' = limit m"
    and insert_refused: "inv m \<Longrightarrow>
      k = 0 \<or> find m k \<noteq> None \<or> card (dom (find m)) \<ge> limit m \<Longrightarrow> insert k v m = (False, m)"
    and erase_ok: "inv m \<Longrightarrow> find m k \<noteq> None \<Longrightarrow>
      \<exists>m'. erase k m = (True, m') \<and> inv m' \<and> find m' = (find m)(k := None) \<and> limit m' = limit m"
    and erase_absent: "inv m \<Longrightarrow> find m k = None \<Longrightarrow> erase k m = (False, m)"
    and clear_ok: "inv m \<Longrightarrow> inv (clear m) \<and> find (clear m) = Map.empty \<and> limit (clear m) = limit m"
begin

text \<open>What a client may conclude, whatever the table looks like inside.\<close>

lemma insert_find_other:
  "inv m \<Longrightarrow> insert k v m = (True, m') \<Longrightarrow> find m' = (find m)(k \<mapsto> v) \<and> inv m'"
  by (metis insert_ok insert_refused not_le prod.inject)

lemma erase_insert:
  assumes "inv m" "insert k v m = (True, m')"
  shows "\<exists>m''. erase k m' = (True, m'') \<and> find m'' = find m \<and> inv m''"
proof -
  have new: "find m k = None"
    using insert_refused [OF assms(1), of k v] assms(2) by (cases "find m k") auto
  have m': "find m' = (find m)(k \<mapsto> v)" "inv m'"
    using insert_find_other [OF assms] by auto
  then obtain m'' where "erase k m' = (True, m'')" "inv m''" "find m'' = (find m')(k := None)"
    using erase_ok [of m' k] by auto
  with m' new show ?thesis by (auto simp: fun_upd_idem)
qed

end

section \<open>Linear probing, for any home function\<close>

text \<open>Forward distance from \<open>a\<close> to \<open>b\<close> on a ring of \<open>cap\<close> slots, and the successor.\<close>

definition cdist :: "nat \<Rightarrow> nat \<Rightarrow> nat \<Rightarrow> nat" where
  "cdist cap a b = (if a \<le> b then b - a else b + cap - a)"

definition cnext :: "nat \<Rightarrow> nat \<Rightarrow> nat" where
  "cnext cap i = (if Suc i = cap then 0 else Suc i)"

text \<open>Every stored key can be reached from its home slot without crossing an empty slot.\<close>

definition reach :: "nat \<Rightarrow> (u64 \<Rightarrow> nat) \<Rightarrow> (nat \<Rightarrow> u64) \<Rightarrow> bool" where
  "reach cap home K \<longleftrightarrow> (\<forall>p<cap. K p \<noteq> 0 \<longrightarrow>
     (\<forall>q<cap. 0 < cdist cap q p \<and> cdist cap q p \<le> cdist cap (home (K p)) p \<longrightarrow> K q \<noteq> 0))"

definition uniq :: "nat \<Rightarrow> (nat \<Rightarrow> u64) \<Rightarrow> bool" where
  "uniq cap K \<longleftrightarrow> (\<forall>p<cap. \<forall>q<cap. K p = K q \<and> K p \<noteq> 0 \<longrightarrow> p = q)"

text \<open>The loop invariant of the backward shift with hole \<open>i\<close> and cursor \<open>j\<close>: with the hole counted as
  occupied every key is reachable; the keys whose probe path crosses the hole lie beyond the cursor;
  the slots between hole and cursor are occupied.\<close>

definition shifting :: "nat \<Rightarrow> (u64 \<Rightarrow> nat) \<Rightarrow> (nat \<Rightarrow> u64) \<Rightarrow> nat \<Rightarrow> nat \<Rightarrow> bool" where
  "shifting cap home K i j \<longleftrightarrow> i < cap \<and> j < cap \<and> K i \<noteq> 0 \<and>
     (\<forall>p<cap. p \<noteq> i \<and> K p \<noteq> 0 \<longrightarrow>
        (\<forall>q<cap. 0 < cdist cap q p \<and> cdist cap q p \<le> cdist cap (home (K p)) p \<longrightarrow> K q \<noteq> 0)) \<and>
     (\<forall>p<cap. p \<noteq> i \<and> K p \<noteq> 0 \<and> cdist cap i p \<le> cdist cap (home (K p)) p \<longrightarrow>
        cdist cap i j < cdist cap i p) \<and>
     (\<forall>q<cap. 0 < cdist cap i q \<and> cdist cap i q \<le> cdist cap i j \<longrightarrow> K q \<noteq> 0)"

lemma reachD:
  "reach cap home K \<Longrightarrow> p < cap \<Longrightarrow> K p \<noteq> 0 \<Longrightarrow> q < cap \<Longrightarrow> 0 < cdist cap q p \<Longrightarrow>
     cdist cap q p \<le> cdist cap (home (K p)) p \<Longrightarrow> K q \<noteq> 0"
  unfolding reach_def by blast

lemma shifting_bounds: "shifting cap home K i j \<Longrightarrow> i < cap \<and> j < cap \<and> K i \<noteq> 0"
  unfolding shifting_def by blast

lemma shifting_occ:
  "shifting cap home K i j \<Longrightarrow> p < cap \<Longrightarrow> p \<noteq> i \<Longrightarrow> K p \<noteq> 0 \<Longrightarrow> q < cap \<Longrightarrow> 0 < cdist cap q p \<Longrightarrow>
     cdist cap q p \<le> cdist cap (home (K p)) p \<Longrightarrow> K q \<noteq> 0"
  unfolding shifting_def by blast

lemma shifting_beyond:
  "shifting cap home K i j \<Longrightarrow> p < cap \<Longrightarrow> p \<noteq> i \<Longrightarrow> K p \<noteq> 0 \<Longrightarrow>
     cdist cap i p \<le> cdist cap (home (K p)) p \<Longrightarrow> cdist cap i j < cdist cap i p"
  unfolding shifting_def by blast

lemma shifting_between:
  "shifting cap home K i j \<Longrightarrow> q < cap \<Longrightarrow> 0 < cdist cap i q \<Longrightarrow> cdist cap i q \<le> cdist cap i j \<Longrightarrow> K q \<noteq> 0"
  unfolding shifting_def by blast

lemma shiftingI:
  assumes "i < cap" "j < cap" "K i \<noteq> 0"
    and "\<And>p q. p < cap \<Longrightarrow> p \<noteq> i \<Longrightarrow> K p \<noteq> 0 \<Longrightarrow> q < cap \<Longrightarrow> 0 < cdist cap q p \<Longrightarrow>
           cdist cap q p \<le> cdist cap (home (K p)) p \<Longrightarrow> K q \<noteq> 0"
    and "\<And>p. p < cap \<Longrightarrow> p \<noteq> i \<Longrightarrow> K p \<noteq> 0 \<Longrightarrow> cdist cap i p \<le> cdist cap (home (K p)) p \<Longrightarrow>
           cdist cap i j < cdist cap i p"
    and "\<And>q. q < cap \<Longrightarrow> 0 < cdist cap i q \<Longrightarrow> cdist cap i q \<le> cdist cap i j \<Longrightarrow> K q \<noteq> 0"
  shows "shifting cap home K i j"
  unfolding shifting_def using assms by blast

lemma cdist_self [simp]: "cdist cap a a = 0"
  by (simp add: cdist_def)

lemma cdist_less: "a < cap \<Longrightarrow> b < cap \<Longrightarrow> cdist cap a b < cap"
  by (auto simp: cdist_def)

lemma cdist_0_iff: "a < cap \<Longrightarrow> b < cap \<Longrightarrow> cdist cap a b = 0 \<longleftrightarrow> a = b"
  by (auto simp: cdist_def)

lemma cnext_less: "i < cap \<Longrightarrow> cnext cap i < cap"
  by (auto simp: cnext_def)

lemma cdist_cnext:
  "a < cap \<Longrightarrow> j < cap \<Longrightarrow> cnext cap j \<noteq> a \<Longrightarrow> cdist cap a (cnext cap j) = Suc (cdist cap a j)"
  by (auto simp: cdist_def cnext_def)

lemma cdist_from_cnext:
  "e < cap \<Longrightarrow> j < cap \<Longrightarrow> j \<noteq> e \<Longrightarrow> Suc (cdist cap (cnext cap j) e) = cdist cap j e"
  by (auto simp: cdist_def cnext_def)

text \<open>The ring triangle: \<open>b\<close> lies on the way from \<open>a\<close> to \<open>c\<close>.\<close>

lemma cdist_split:
  "a < cap \<Longrightarrow> b < cap \<Longrightarrow> c < cap \<Longrightarrow> cdist cap b c \<le> cdist cap a c \<Longrightarrow>
     cdist cap a c = cdist cap a b + cdist cap b c"
  by (auto simp: cdist_def split: if_splits)

lemma cdist_split_left:
  "a < cap \<Longrightarrow> b < cap \<Longrightarrow> c < cap \<Longrightarrow> cdist cap a b \<le> cdist cap a c \<Longrightarrow>
     cdist cap a c = cdist cap a b + cdist cap b c"
  by (auto simp: cdist_def split: if_splits)

lemma cdist_full:
  "j < cap \<Longrightarrow> cnext cap j = i \<Longrightarrow> e < cap \<Longrightarrow> cdist cap i e \<le> cdist cap i j"
  by (auto simp: cdist_def cnext_def split: if_splits)

lemma cdist_add:
  "a < cap \<Longrightarrow> b < cap \<Longrightarrow> c < cap \<Longrightarrow> cdist cap a b + cdist cap b c < cap \<Longrightarrow>
     cdist cap a c = cdist cap a b + cdist cap b c"
  by (auto simp: cdist_def split: if_splits)

lemma cdist_cancel:
  "a < cap \<Longrightarrow> b < cap \<Longrightarrow> c < cap \<Longrightarrow> cdist cap a b = cdist cap a c \<Longrightarrow> b = c"
  by (auto simp: cdist_def split: if_splits)

locale probing =
  fixes cap :: nat and home :: "u64 \<Rightarrow> nat"
  assumes home_less: "home k < cap"
begin

text \<open>Storing a new key in the slot where its probe ended keeps every key reachable.\<close>

lemma reach_insert:
  assumes R: "reach cap home K" and i: "i < cap" "K i = 0" "k \<noteq> 0"
    and path: "\<And>q. q < cap \<Longrightarrow> cdist cap (home k) q < cdist cap (home k) i \<Longrightarrow> K q \<noteq> 0"
  shows "reach cap home (K(i := k))"
  unfolding reach_def
proof (intro allI impI)
  fix p q
  assume p: "p < cap" "(K(i := k)) p \<noteq> 0" and q: "q < cap"
    and d: "0 < cdist cap q p \<and> cdist cap q p \<le> cdist cap (home ((K(i := k)) p)) p"
  have "K q \<noteq> 0 \<or> q = i"
  proof (cases "p = i")
    case True
    with d have "cdist cap q i \<le> cdist cap (home k) i" "0 < cdist cap q i" by simp_all
    then have "cdist cap (home k) q < cdist cap (home k) i"
      using cdist_split [OF home_less q i(1), of k] by simp
    with path q show ?thesis by blast
  next
    case False
    with p d have "K p \<noteq> 0" "0 < cdist cap q p" "cdist cap q p \<le> cdist cap (home (K p)) p"
      by simp_all
    with reachD [OF R p(1)] q show ?thesis by blast
  qed
  then show "(K(i := k)) q \<noteq> 0" using i(3) by (cases "q = i") simp_all
qed

lemma shifting_start:
  assumes R: "reach cap home K" and i: "i < cap" "K i \<noteq> 0"
  shows "shifting cap home K i i"
proof (rule shiftingI)
  fix p assume p: "p < cap" "p \<noteq> i"
  then have "cdist cap i p \<noteq> 0" using i cdist_0_iff by blast
  then show "cdist cap i i < cdist cap i p" by simp
next
  fix p q
  assume "p < cap" "K p \<noteq> 0" "q < cap" "0 < cdist cap q p" "cdist cap q p \<le> cdist cap (home (K p)) p"
  then show "K q \<noteq> 0" by (rule reachD [OF R])
qed (use i in simp_all)

text \<open>The cursor meets an empty slot: emptying the hole now leaves every key reachable.\<close>

lemma shifting_done:
  assumes S: "shifting cap home K i j" and e: "K (cnext cap j) = 0"
  shows "reach cap home (K(i := 0))"
  unfolding reach_def
proof (intro allI impI)
  fix p q
  assume p: "p < cap" "(K(i := 0)) p \<noteq> 0" and q: "q < cap"
    and d: "0 < cdist cap q p \<and> cdist cap q p \<le> cdist cap (home ((K(i := 0)) p)) p"
  let ?j = "cnext cap j"
  have pi: "p \<noteq> i" "K p \<noteq> 0" using p(2) by (cases "p = i"; simp)+
  then have dq: "0 < cdist cap q p" "cdist cap q p \<le> cdist cap (home (K p)) p" using d by simp_all
  have ij: "i < cap" "j < cap" "K i \<noteq> 0" using shifting_bounds [OF S] by simp_all
  have j': "?j < cap" "?j \<noteq> i" using ij e cnext_less by auto
  note occ = shifting_occ [OF S p(1) pi]
  have "q \<noteq> i"
  proof
    assume qi: "q = i"
    have "cdist cap i j < cdist cap i p"
      using shifting_beyond [OF S p(1) pi] dq qi by simp
    then have le: "cdist cap i ?j \<le> cdist cap i p"
      using cdist_cnext [OF ij(1,2) j'(2)] by simp
    have "p \<noteq> ?j" using pi e by auto
    then have pos: "0 < cdist cap ?j p" using cdist_0_iff [OF j'(1) p(1)] by auto
    have "cdist cap i p = cdist cap i ?j + cdist cap ?j p"
      using cdist_split_left [OF ij(1) j'(1) p(1) le] .
    then have "cdist cap ?j p \<le> cdist cap (home (K p)) p" using dq(2) qi by simp
    with occ [OF j'(1) pos] e show False by blast
  qed
  with occ [OF q dq] show "(K(i := 0)) q \<noteq> 0" by simp
qed

text \<open>The entry at the cursor moves into the hole.\<close>

lemma shifting_move:
  assumes S: "shifting cap home K i j" and j': "j' = cnext cap j" "j' \<noteq> i" "K j' \<noteq> 0"
    and far: "cdist cap i j' \<le> cdist cap (home (K j')) j'"
  shows "shifting cap home (K(i := K j')) j' j'"
proof -
  have b: "i < cap" "j < cap" "K i \<noteq> 0" using shifting_bounds [OF S] by simp_all
  have j'cap: "j' < cap" using b j'(1) cnext_less by simp
  have new: "K q \<noteq> 0" if q: "q < cap" "0 < cdist cap q i" "cdist cap q i \<le> cdist cap (home (K j')) i" for q
  proof -
    have 1: "cdist cap (home (K j')) j' = cdist cap (home (K j')) i + cdist cap i j'"
      using cdist_split [OF home_less b(1) j'cap far] .
    then have lt: "cdist cap q i + cdist cap i j' < cap"
      using q(3) cdist_less [OF home_less [of "K j'"] j'cap] by simp
    have 2: "cdist cap q j' = cdist cap q i + cdist cap i j'"
      using cdist_add [OF q(1) b(1) j'cap lt] .
    show ?thesis using shifting_occ [OF S j'cap j'(2,3) q(1)] 1 2 q by simp
  qed
  show ?thesis
  proof (rule shiftingI)
    fix p q
    assume p: "p < cap" "p \<noteq> j'" "(K(i := K j')) p \<noteq> 0" and q: "q < cap"
      and d: "0 < cdist cap q p" "cdist cap q p \<le> cdist cap (home ((K(i := K j')) p)) p"
    have "K q \<noteq> 0"
    proof (cases "p = i")
      case True
      with new [OF q] d show ?thesis by simp
    next
      case False
      with shifting_occ [OF S p(1) False _ q d(1)] p(3) d(2) show ?thesis by simp
    qed
    then show "(K(i := K j')) q \<noteq> 0" using j'(3) by (cases "q = i") simp_all
  next
    fix p assume "p < cap" "p \<noteq> j'"
    then have "cdist cap j' p \<noteq> 0" using j'cap cdist_0_iff by blast
    then show "cdist cap j' j' < cdist cap j' p" by simp
  qed (use j' j'cap in simp_all)
qed

text \<open>The entry at the cursor stays: its probe path does not cross the hole.\<close>

lemma shifting_stay:
  assumes S: "shifting cap home K i j" and j': "j' = cnext cap j" "j' \<noteq> i" "K j' \<noteq> 0"
    and near: "cdist cap (home (K j')) j' < cdist cap i j'"
  shows "shifting cap home K i j'"
proof -
  have b: "i < cap" "j < cap" "K i \<noteq> 0" using shifting_bounds [OF S] by simp_all
  have j'cap: "j' < cap" using b j'(1) cnext_less by simp
  have dj: "cdist cap i j' = Suc (cdist cap i j)" using cdist_cnext [OF b(1,2)] j' by simp
  show ?thesis
  proof (rule shiftingI)
    fix p assume p: "p < cap" "p \<noteq> i" "K p \<noteq> 0" and d: "cdist cap i p \<le> cdist cap (home (K p)) p"
    have 1: "cdist cap i j < cdist cap i p" using shifting_beyond [OF S p d] .
    have "p \<noteq> j'" using d near by auto
    then have "cdist cap i p \<noteq> cdist cap i j'" using cdist_cancel [OF b(1) p(1) j'cap] by blast
    with 1 dj show "cdist cap i j' < cdist cap i p" by simp
  next
    fix q assume q: "q < cap" "0 < cdist cap i q" "cdist cap i q \<le> cdist cap i j'"
    show "K q \<noteq> 0"
    proof (cases "cdist cap i q = cdist cap i j'")
      case True
      then show ?thesis using cdist_cancel [OF b(1) q(1) j'cap] j'(3) by blast
    next
      case False
      then show ?thesis using q dj shifting_between [OF S q(1,2)] by simp
    qed
  next
    fix p q
    assume "p < cap" "p \<noteq> i" "K p \<noteq> 0" "q < cap" "0 < cdist cap q p"
      "cdist cap q p \<le> cdist cap (home (K p)) p"
    then show "K q \<noteq> 0" by (rule shifting_occ [OF S])
  qed (use b j'cap in simp_all)
qed

end

section \<open>The code's table\<close>

text \<open>Fibonacci hashing stays inside the table, for every table size.\<close>

definition fib_home :: "nat \<Rightarrow> u64 \<Rightarrow> nat" where
  "fib_home b k = unat (drop_bit (64 - b) (k * 0x9E3779B97F4A7C15))"

lemma fib_home_less: "fib_home b k < 2 ^ b"
proof -
  let ?w = "k * 0x9E3779B97F4A7C15 :: u64"
  have "unat ?w < 2 ^ 64" using unsigned_less [of ?w] by simp
  then have "unat ?w div 2 ^ (64 - b) < 2 ^ b"
  proof (cases "b \<le> 64")
    case True
    then have "(2::nat) ^ 64 = 2 ^ b * 2 ^ (64 - b)" by (simp flip: power_add)
    with \<open>unat ?w < 2 ^ 64\<close> show ?thesis by (simp add: less_mult_imp_div_less)
  next
    case False
    then have "(2::nat) ^ 64 \<le> 2 ^ b" by (intro power_increasing) auto
    with \<open>unat ?w < 2 ^ 64\<close> False show ?thesis by simp
  qed
  then show ?thesis by (simp add: fib_home_def unat_drop_bit_eq flip: drop_bit_eq_div)
qed

interpretation fib: probing "2 ^ b" "fib_home b" for b
  by unfold_locales (rule fib_home_less)

definition fm_entry_set :: "'v flat_map \<Rightarrow> (u64 \<times> 'v) set" where
  "fm_entry_set m =
     (\<lambda>p. (fm_key m p, s_val (fm_slots m ! p))) ` {p. p < length (fm_slots m) \<and> fm_key m p \<noteq> 0}"

text \<open>The entries outside slot \<open>h\<close>.\<close>

definition fm_entries_but :: "'v flat_map \<Rightarrow> nat \<Rightarrow> (u64 \<times> 'v) set" where
  "fm_entries_but m h =
     (\<lambda>p. (fm_key m p, s_val (fm_slots m ! p))) ` {p. p < length (fm_slots m) \<and> p \<noteq> h \<and> fm_key m p \<noteq> 0}"

definition fm_shape :: "'v flat_map \<Rightarrow> nat \<Rightarrow> bool" where
  "fm_shape m b \<longleftrightarrow> 4 \<le> b \<and> b \<le> 63 \<and> length (fm_slots m) = 2 ^ b \<and> fm_mask m = 2 ^ b - 1 \<and>
     fm_shift m = 64 - b \<and> 2 * fm_max_entries m \<le> 2 ^ b"

definition fm_inv :: "'v flat_map \<Rightarrow> bool" where
  "fm_inv m \<longleftrightarrow> (\<exists>b. fm_shape m b \<and> reach (2 ^ b) (fib_home b) (fm_key m) \<and> uniq (2 ^ b) (fm_key m)) \<and>
     fm_size m = card (fst ` fm_entry_set m) \<and> fm_size m \<le> fm_max_entries m"

lemma fm_entry_setI:
  "p < length (fm_slots m) \<Longrightarrow> fm_key m p \<noteq> 0 \<Longrightarrow> (fm_key m p, s_val (fm_slots m ! p)) \<in> fm_entry_set m"
  by (simp add: fm_entry_set_def)

lemma fm_entry_setE:
  assumes "(k, v) \<in> fm_entry_set m"
  obtains p where "p < length (fm_slots m)" "fm_key m p = k" "k \<noteq> 0" "s_val (fm_slots m ! p) = v"
  using assms by (auto simp: fm_entry_set_def)

lemma fm_entry_set_split:
  assumes "h < length (fm_slots m)"
  shows "fm_entry_set m = (if fm_key m h \<noteq> 0 then {(fm_key m h, s_val (fm_slots m ! h))} else {}) \<union>
     fm_entries_but m h"
proof -
  have "{p. p < length (fm_slots m) \<and> fm_key m p \<noteq> 0} =
      (if fm_key m h \<noteq> 0 then {h} else {}) \<union> {p. p < length (fm_slots m) \<and> p \<noteq> h \<and> fm_key m p \<noteq> 0}"
    using assms by auto
  then show ?thesis unfolding fm_entry_set_def fm_entries_but_def by (simp only: image_Un) simp
qed

lemma fm_entries_but_update:
  "fm_entries_but (m\<lparr>fm_slots := (fm_slots m)[h := s]\<rparr>) h = fm_entries_but m h"
proof -
  have "{p. p < length (fm_slots m) \<and> p \<noteq> h \<and> s_key ((fm_slots m)[h := s] ! p) \<noteq> 0} =
      {p. p < length (fm_slots m) \<and> p \<noteq> h \<and> fm_key m p \<noteq> 0}"
    by (intro Collect_cong) (auto simp: nth_list_update_neq)
  then show ?thesis
    unfolding fm_entries_but_def by (simp add: nth_list_update_neq cong: image_cong_simp)
qed

lemma fm_entry_set_update:
  "h < length (fm_slots m) \<Longrightarrow>
   fm_entry_set (m\<lparr>fm_slots := (fm_slots m)[h := s]\<rparr>) =
     (if s_key s \<noteq> 0 then {(s_key s, s_val s)} else {}) \<union> fm_entries_but m h"
  using fm_entry_set_split [of h "m\<lparr>fm_slots := (fm_slots m)[h := s]\<rparr>"]
  by (simp add: fm_entries_but_update)

lemma fm_entry_set_size [simp]: "fm_entry_set (m\<lparr>fm_size := n\<rparr>) = fm_entry_set m"
  by (simp add: fm_entry_set_def)

lemma fm_home_fib: "fm_shape m b \<Longrightarrow> fm_home m k = fib_home b k"
  by (simp add: fm_shape_def fm_home_def fib_home_def)

lemma fm_succ_cnext: "fm_shape m b \<Longrightarrow> i < 2 ^ b \<Longrightarrow> fm_succ m i = cnext (2 ^ b) i"
proof -
  assume a: "fm_shape m b" "i < 2 ^ b"
  have "fm_succ m i = (i + 1) mod 2 ^ b"
    using a by (simp only: fm_shape_def fm_succ_def nat_and_mask)
  with a(2) show ?thesis by (auto simp: cnext_def)
qed

lemma fm_dist_cdist:
  assumes "fm_shape m b" "i < 2 ^ b" "j < 2 ^ b"
  shows "fm_dist m i j = cdist (2 ^ b) i j"
proof -
  have b: "b \<le> 63" "fm_mask m = 2 ^ b - 1" using assms(1) by (auto simp: fm_shape_def)
  have "(of_nat (2 ^ b - 1) :: u64) = mask b"
    by (simp add: mask_eq_exp_minus_1 of_nat_diff)
  then have "fm_dist m i j = unat (take_bit b (of_nat j - of_nat i :: u64))"
    by (simp add: fm_dist_def b take_bit_eq_mask)
  also have "\<dots> = nat ((int j - int i) mod 2 ^ b)"
  proof -
    have "uint (of_nat j - of_nat i :: u64) = (int j - int i) mod 2 ^ 64"
      by (simp add: uint_word_ariths mod_diff_eq unsigned_of_nat take_bit_eq_mod of_nat_mod)
    then have "uint (take_bit b (of_nat j - of_nat i :: u64)) = (int j - int i) mod 2 ^ 64 mod 2 ^ b"
      unfolding unsigned_take_bit_eq by (simp only: take_bit_eq_mod)
    also have "\<dots> = (int j - int i) mod 2 ^ b"
      using b(1) by (intro mod_mod_cancel le_imp_power_dvd) simp
    finally show ?thesis by (metis unat_eq_nat_uint)
  qed
  also have "\<dots> = cdist (2 ^ b) i j"
  proof (cases "i \<le> j")
    case True
    have "int j < 2 ^ b" using assms(3) by simp
    with True have "(int j - int i) mod 2 ^ b = int j - int i"
      by (intro mod_pos_pos_trivial) linarith+
    with True show ?thesis by (simp add: cdist_def)
  next
    case False
    have "(int j - int i) mod 2 ^ b = (int j - int i + 2 ^ b) mod 2 ^ b" by simp
    also have "\<dots> = int j - int i + 2 ^ b"
    proof (rule mod_pos_pos_trivial)
      have "int i < 2 ^ b" using assms(2) by simp
      then show "0 \<le> int j - int i + 2 ^ b" by linarith
      show "int j - int i + 2 ^ b < 2 ^ b" using False by simp
    qed
    finally have "nat ((int j - int i) mod 2 ^ b) = nat (int (j + 2 ^ b) - int i)" by simp
    also have "\<dots> = j + 2 ^ b - i" by (metis nat_minus_as_int)
    finally show ?thesis using False by (simp add: cdist_def)
  qed
  finally show ?thesis .
qed

subsection \<open>Probing\<close>

lemma fm_probe_stop:
  assumes "fm_shape m b" "e < 2 ^ b" "fm_key m e = 0 \<or> fm_key m e = key"
    and "i < 2 ^ b" "cdist (2 ^ b) i e < fuel"
  shows "\<exists>p. fm_probe fuel m key i = Some p \<and> p < 2 ^ b \<and> (fm_key m p = 0 \<or> fm_key m p = key) \<and>
    (\<forall>q<2 ^ b. cdist (2 ^ b) i q < cdist (2 ^ b) i p \<longrightarrow> fm_key m q \<noteq> 0 \<and> fm_key m q \<noteq> key)"
  using assms(4,5)
proof (induction fuel arbitrary: i)
  case 0
  then show ?case by simp
next
  case (Suc fuel)
  show ?case
  proof (cases "fm_key m i = 0 \<or> fm_key m i = key")
    case True
    then show ?thesis using Suc.prems by (auto simp: kEmpty_def)
  next
    case False
    let ?i = "cnext (2 ^ b) i"
    have i': "?i < 2 ^ b" using Suc.prems(1) by (rule cnext_less)
    have ne: "i \<noteq> e" using False assms(3) by auto
    have "cdist (2 ^ b) ?i e < fuel"
      using cdist_from_cnext [OF assms(2) Suc.prems(1) ne] Suc.prems(2) by simp
    from Suc.IH [OF i' this] obtain p where p: "fm_probe fuel m key ?i = Some p" "p < 2 ^ b"
      "fm_key m p = 0 \<or> fm_key m p = key"
      "\<And>q. q < 2 ^ b \<Longrightarrow> cdist (2 ^ b) ?i q < cdist (2 ^ b) ?i p \<Longrightarrow> fm_key m q \<noteq> 0 \<and> fm_key m q \<noteq> key"
      by blast
    have "p \<noteq> i" using p(3) False by auto
    then have dp: "Suc (cdist (2 ^ b) ?i p) = cdist (2 ^ b) i p"
      using cdist_from_cnext [OF p(2) Suc.prems(1)] by simp
    have path: "fm_key m q \<noteq> 0 \<and> fm_key m q \<noteq> key"
      if "q < 2 ^ b" "cdist (2 ^ b) i q < cdist (2 ^ b) i p" for q
      using that p(4) [of q] dp False cdist_from_cnext [OF that(1) Suc.prems(1)]
      by (cases "i = q") auto
    show ?thesis
      using p(1,2,3) path False fm_succ_cnext [OF assms(1) Suc.prems(1)] by (auto simp: kEmpty_def)
  qed
qed

lemma fm_free_slot:
  assumes "fm_inv m" "fm_shape m b"
  shows "\<exists>e<2 ^ b. fm_key m e = 0"
proof (rule ccontr)
  assume "\<not> ?thesis"
  then have occ: "fm_key m p \<noteq> 0" if "p < 2 ^ b" for p using that by auto
  have len: "length (fm_slots m) = 2 ^ b" using assms(2) by (simp add: fm_shape_def)
  obtain b' where "uniq (2 ^ b') (fm_key m)" "fm_shape m b'" using assms(1) by (auto simp: fm_inv_def)
  then have u: "uniq (2 ^ b) (fm_key m)" using len by (simp add: fm_shape_def)
  have "fst ` fm_entry_set m = fm_key m ` {..<2 ^ b}"
    using occ len by (auto simp: fm_entry_set_def image_image)
  moreover have "inj_on (fm_key m) {..<2 ^ b}"
    using u occ by (auto simp: inj_on_def uniq_def)
  ultimately have "card (fst ` fm_entry_set m) = 2 ^ b" by (simp add: card_image)
  moreover have "2 * card (fst ` fm_entry_set m) \<le> 2 ^ b"
    using assms by (auto simp: fm_inv_def fm_shape_def)
  ultimately show False by simp
qed

text \<open>The probe loops end within the fuel, at the key's slot or at the empty slot that closes its
  cluster.\<close>

lemma fm_probe_home:
  assumes "fm_inv m" "fm_shape m b" "key \<noteq> 0"
  obtains p where "fm_probe (length (fm_slots m)) m key (fm_home m key) = Some p" "p < 2 ^ b"
    "fm_key m p = 0 \<or> fm_key m p = key"
    "\<forall>q<2 ^ b. cdist (2 ^ b) (fib_home b key) q < cdist (2 ^ b) (fib_home b key) p \<longrightarrow>
       fm_key m q \<noteq> 0 \<and> fm_key m q \<noteq> key"
    "fm_key m p = 0 \<longrightarrow> (\<forall>q<2 ^ b. fm_key m q \<noteq> key)"
proof -
  obtain e where e: "e < 2 ^ b" "fm_key m e = 0" using fm_free_slot [OF assms(1,2)] by blast
  have len: "length (fm_slots m) = 2 ^ b" using assms(2) by (simp add: fm_shape_def)
  have R: "reach (2 ^ b) (fib_home b) (fm_key m)"
    using assms(1,2) by (auto simp: fm_inv_def fm_shape_def)
  let ?h = "fib_home b key"
  from fm_probe_stop [OF assms(2) e(1), of key ?h "2 ^ b"] e(2) cdist_less [OF fib_home_less e(1)]
  obtain p where p: "fm_probe (2 ^ b) m key ?h = Some p" "p < 2 ^ b"
    "fm_key m p = 0 \<or> fm_key m p = key"
    "\<And>q. q < 2 ^ b \<Longrightarrow> cdist (2 ^ b) ?h q < cdist (2 ^ b) ?h p \<Longrightarrow> fm_key m q \<noteq> 0 \<and> fm_key m q \<noteq> key"
    using fib_home_less [of b key] by blast
  have absent: "fm_key m q \<noteq> key" if z: "fm_key m p = 0" and q: "q < 2 ^ b" for q
  proof
    assume k: "fm_key m q = key"
    have "\<not> cdist (2 ^ b) ?h q < cdist (2 ^ b) ?h p" using p(4) [OF q] k by blast
    then have le: "cdist (2 ^ b) ?h p \<le> cdist (2 ^ b) ?h q" by simp
    have "p \<noteq> q" using z k assms(3) by auto
    then have "0 < cdist (2 ^ b) p q" using cdist_0_iff [OF p(2) q] by auto
    moreover have "cdist (2 ^ b) p q \<le> cdist (2 ^ b) ?h q"
      using cdist_split_left [OF fib_home_less p(2) q le] by simp
    ultimately show False using reachD [OF R q _ p(2)] k assms(3) z by auto
  qed
  show ?thesis
    using that [of p] p absent by (simp add: len fm_home_fib [OF assms(2)])
qed

subsection \<open>Operations against the set of entries\<close>

lemma fm_inv_shape:
  assumes "fm_inv m"
  obtains b where "fm_shape m b" "length (fm_slots m) = 2 ^ b" "reach (2 ^ b) (fib_home b) (fm_key m)"
    "uniq (2 ^ b) (fm_key m)"
  using assms by (auto simp: fm_inv_def fm_shape_def)

lemma fm_entry_functional:
  "fm_inv m \<Longrightarrow> (k, v) \<in> fm_entry_set m \<Longrightarrow> (k, w) \<in> fm_entry_set m \<Longrightarrow> v = w"
  by (elim fm_inv_shape fm_entry_setE) (auto simp: uniq_def)

lemma fm_find_iff:
  assumes "fm_inv m"
  shows "fm_find m k = Some v \<longleftrightarrow> (k, v) \<in> fm_entry_set m"
proof (cases "k = 0")
  case True
  then show ?thesis by (auto simp: fm_find_def kEmpty_def fm_entry_set_def)
next
  case False
  obtain b where b: "fm_shape m b" "length (fm_slots m) = 2 ^ b" "uniq (2 ^ b) (fm_key m)"
    using assms by (rule fm_inv_shape)
  obtain p where p: "fm_probe (length (fm_slots m)) m k (fm_home m k) = Some p" "p < 2 ^ b"
    "fm_key m p = 0 \<or> fm_key m p = k"
    "\<forall>q<2 ^ b. cdist (2 ^ b) (fib_home b k) q < cdist (2 ^ b) (fib_home b k) p \<longrightarrow>
       fm_key m q \<noteq> 0 \<and> fm_key m q \<noteq> k"
    "fm_key m p = 0 \<longrightarrow> (\<forall>q<2 ^ b. fm_key m q \<noteq> k)"
    by (rule fm_probe_home [OF assms b(1) False])
  have here: "q = p" if "q < 2 ^ b" "fm_key m q = k" "fm_key m p = k" for q
    using b(3) that p(2) False by (auto simp: uniq_def)
  show ?thesis
  proof
    assume "fm_find m k = Some v"
    then show "(k, v) \<in> fm_entry_set m"
      using False p(1,2,3) b(2) fm_entry_setI [of p m]
      by (auto simp: fm_find_def kEmpty_def split: if_splits)
  next
    assume "(k, v) \<in> fm_entry_set m"
    then obtain q where q: "q < 2 ^ b" "fm_key m q = k" "s_val (fm_slots m ! q) = v"
      using b(2) by (auto elim!: fm_entry_setE)
    then have "fm_key m p = k" using p(3,5) by auto
    with here [OF q(1,2)] q p(1) False show "fm_find m k = Some v"
      by (simp add: fm_find_def kEmpty_def)
  qed
qed

lemma fm_dom_find: "fm_inv m \<Longrightarrow> dom (fm_find m) = fst ` fm_entry_set m"
  by (force simp: dom_def fm_find_iff image_def)

lemma finite_fm_entry_set [simp]: "finite (fm_entry_set m)"
  by (simp add: fm_entry_set_def)

lemma fm_find_eqI:
  assumes "fm_inv m" "\<And>k v. (k, v) \<in> fm_entry_set m \<longleftrightarrow> f k = Some v"
  shows "fm_find m = f"
proof
  fix k
  show "fm_find m k = f k"
    using fm_find_iff [OF assms(1), of k] assms(2) [of k] by (cases "f k"; cases "fm_find m k") auto
qed

lemma fm_insert_new:
  assumes inv: "fm_inv m" and k: "k \<noteq> 0" "fm_find m k = None" and room: "fm_size m < fm_max_entries m"
  shows "\<exists>m'. fm_insert k v m = (True, m') \<and> fm_inv m' \<and> fm_find m' = (fm_find m)(k \<mapsto> v) \<and>
    fm_max_entries m' = fm_max_entries m"
proof -
  obtain b where b: "fm_shape m b" "length (fm_slots m) = 2 ^ b"
    "reach (2 ^ b) (fib_home b) (fm_key m)" "uniq (2 ^ b) (fm_key m)"
    using inv by (rule fm_inv_shape)
  obtain p where p: "fm_probe (length (fm_slots m)) m k (fm_home m k) = Some p" "p < 2 ^ b"
    "fm_key m p = 0 \<or> fm_key m p = k"
    "\<forall>q<2 ^ b. cdist (2 ^ b) (fib_home b k) q < cdist (2 ^ b) (fib_home b k) p \<longrightarrow>
       fm_key m q \<noteq> 0 \<and> fm_key m q \<noteq> k"
    "fm_key m p = 0 \<longrightarrow> (\<forall>q<2 ^ b. fm_key m q \<noteq> k)"
    by (rule fm_probe_home [OF inv b(1) k(1)])
  have notin: "(k, w) \<notin> fm_entry_set m" for w using fm_find_iff [OF inv, of k w] k(2) by simp
  have nokey: "fm_key m q \<noteq> k" if "q < 2 ^ b" for q
    using notin fm_entry_setI [of q m] that b(2) k(1) by metis
  then have free: "fm_key m p = 0" using p(2,3) by blast
  define m' where "m' = m\<lparr>fm_slots := (fm_slots m)[p := \<lparr>s_key = k, s_val = v\<rparr>], fm_size := fm_size m + 1\<rparr>"
  have ins: "fm_insert k v m = (True, m')"
    using k room p(1) free by (simp add: fm_insert_def kEmpty_def m'_def)
  have shape: "fm_shape m' b" using b(1) by (simp add: m'_def fm_shape_def)
  have keys: "fm_key m' q = ((fm_key m)(p := k)) q" if "q < 2 ^ b" for q
    using that p(2) b(2) by (simp add: m'_def nth_list_update)
  have R: "reach (2 ^ b) (fib_home b) ((fm_key m)(p := k))"
    using fib.reach_insert [OF b(3) p(2) free k(1)] p(4) by blast
  then have R': "reach (2 ^ b) (fib_home b) (fm_key m')"
    unfolding reach_def by (simp add: keys)
  have U': "uniq (2 ^ b) (fm_key m')"
    using b(4) nokey unfolding uniq_def by (simp add: keys) (metis)
  have E: "fm_entry_set m' = insert (k, v) (fm_entry_set m)"
    using fm_entry_set_update [of p m "\<lparr>s_key = k, s_val = v\<rparr>"] fm_entry_set_split [of p m] b(2) p(2) free k(1)
    by (simp add: m'_def)
  have "fst ` fm_entry_set m' = insert k (fst ` fm_entry_set m)" "k \<notin> fst ` fm_entry_set m"
    using notin by (auto simp: E)
  then have "fm_size m' = card (fst ` fm_entry_set m')"
    using inv by (simp add: m'_def fm_inv_def)
  then have inv': "fm_inv m'"
    using shape R' U' room by (auto simp: fm_inv_def m'_def)
  have "fm_find m' = (fm_find m)(k \<mapsto> v)"
    by (rule fm_find_eqI [OF inv']) (use notin in \<open>auto simp: E fm_find_iff [OF inv]\<close>)
  with ins inv' show ?thesis by (auto simp: m'_def)
qed

lemma fm_insert_refused:
  assumes inv: "fm_inv m" and "k = 0 \<or> fm_find m k \<noteq> None \<or> fm_max_entries m \<le> fm_size m"
  shows "fm_insert k v m = (False, m)"
proof (cases "k = 0 \<or> fm_max_entries m \<le> fm_size m")
  case True
  then show ?thesis by (simp add: fm_insert_def kEmpty_def)
next
  case False
  obtain b where b: "fm_shape m b" using inv by (rule fm_inv_shape)
  from False assms(2) have "fm_find m k \<noteq> None" by simp
  then show ?thesis
    using fm_probe_home [OF inv b, of k] False
    by (auto simp: fm_insert_def fm_find_def kEmpty_def split: option.splits if_splits)
qed

subsection \<open>Backward-shift deletion\<close>

text \<open>Keys outside the hole are distinct.\<close>

definition uniq_but :: "nat \<Rightarrow> (nat \<Rightarrow> u64) \<Rightarrow> nat \<Rightarrow> bool" where
  "uniq_but cap K h \<longleftrightarrow> (\<forall>p<cap. \<forall>q<cap. p \<noteq> h \<and> q \<noteq> h \<and> K p = K q \<and> K p \<noteq> 0 \<longrightarrow> p = q)"

lemma uniq_butD:
  "uniq_but cap K h \<Longrightarrow> p < cap \<Longrightarrow> q < cap \<Longrightarrow> p \<noteq> h \<Longrightarrow> q \<noteq> h \<Longrightarrow> K p = K q \<Longrightarrow> K p \<noteq> 0 \<Longrightarrow> p = q"
  unfolding uniq_but_def by blast

lemma table_cong:
  assumes "\<And>q. q < cap \<Longrightarrow> K' q = K q"
  shows "reach cap home K \<Longrightarrow> reach cap home K'" "uniq cap K \<Longrightarrow> uniq cap K'"
    "uniq_but cap K h \<Longrightarrow> uniq_but cap K' h" "shifting cap home K i j \<Longrightarrow> shifting cap home K' i j"
  using assms by (simp_all add: reach_def uniq_def uniq_but_def shifting_def)

lemma uniq_but_move:
  assumes "uniq_but cap K i" "j < cap" "j \<noteq> i"
  shows "uniq_but cap (K(i := K j)) j"
  unfolding uniq_but_def
proof (intro allI impI)
  fix p q
  assume "p < cap" "q < cap" "p \<noteq> j \<and> q \<noteq> j \<and> (K(i := K j)) p = (K(i := K j)) q \<and> (K(i := K j)) p \<noteq> 0"
  then have *: "p < cap" "q < cap" "p \<noteq> j" "q \<noteq> j" "(K(i := K j)) p = (K(i := K j)) q" "(K(i := K j)) p \<noteq> 0"
    by blast+
  show "p = q"
  proof (rule ccontr)
    assume "p \<noteq> q"
    then consider "p = i" "q \<noteq> i" | "q = i" "p \<noteq> i" | "p \<noteq> i" "q \<noteq> i" by blast
    then show False
    proof cases
      case 1 with * uniq_butD [OF assms(1) *(2) assms(2) _ assms(3)] show False by auto
    next
      case 2 with * uniq_butD [OF assms(1) *(1) assms(2) _ assms(3)] show False by auto
    next
      case 3 with * uniq_butD [OF assms(1) *(1,2)] \<open>p \<noteq> q\<close> show False by auto
    qed
  qed
qed

lemma uniq_but_done: "uniq_but cap K i \<Longrightarrow> uniq cap (K(i := 0))"
  unfolding uniq_but_def uniq_def by (auto split: if_splits)

lemma fm_entries_but_move:
  assumes "i < length (fm_slots m)" "j < length (fm_slots m)" "i \<noteq> j" "fm_key m j \<noteq> 0"
  shows "fm_entries_but (m\<lparr>fm_slots := (fm_slots m)[i := fm_slots m ! j]\<rparr>) j = fm_entries_but m i"
proof -
  let ?n = "length (fm_slots m)" and ?f = "\<lambda>p. (fm_key m p, s_val (fm_slots m ! p))"
  let ?R = "{p. p < ?n \<and> p \<noteq> i \<and> p \<noteq> j \<and> fm_key m p \<noteq> 0}"
  have "{p. p < ?n \<and> p \<noteq> i \<and> fm_key m p \<noteq> 0} = insert j ?R" using assms by auto
  then have 1: "fm_entries_but m i = insert (?f j) (?f ` ?R)"
    unfolding fm_entries_but_def by simp
  let ?m = "m\<lparr>fm_slots := (fm_slots m)[i := fm_slots m ! j]\<rparr>"
  let ?g = "\<lambda>p. (fm_key ?m p, s_val (fm_slots ?m ! p))"
  have "{p. p < ?n \<and> p \<noteq> j \<and> fm_key ?m p \<noteq> 0} = insert i ?R"
  proof (rule set_eqI)
    fix p show "p \<in> {p. p < ?n \<and> p \<noteq> j \<and> fm_key ?m p \<noteq> 0} \<longleftrightarrow> p \<in> insert i ?R"
      using assms by (cases "p = i") (auto simp: nth_list_update_neq)
  qed
  then have 2: "fm_entries_but ?m j = insert (?g i) (?g ` ?R)"
    unfolding fm_entries_but_def by simp
  have "?g ` ?R = ?f ` ?R" by (rule image_cong) (auto simp: nth_list_update_neq)
  moreover have "?g i = ?f j" using assms by simp
  ultimately show ?thesis using 1 2 by (simp only:)
qed

lemma fm_shift_back_ok:
  assumes "fm_shape m b" "shifting (2 ^ b) (fib_home b) (fm_key m) i j" "uniq_but (2 ^ b) (fm_key m) i"
    and "e < 2 ^ b" "fm_key m e = 0" "cdist (2 ^ b) j e \<le> fuel" "0 < fuel"
  shows "\<exists>m'. fm_shift_back fuel m i j = Some m' \<and> fm_shape m' b \<and>
    reach (2 ^ b) (fib_home b) (fm_key m') \<and> uniq (2 ^ b) (fm_key m') \<and>
    fm_entry_set m' = fm_entries_but m i \<and> fm_size m' = fm_size m \<and>
    fm_max_entries m' = fm_max_entries m"
  using assms
proof (induction fuel arbitrary: m i j)
  case 0
  then show ?case by simp
next
  case (Suc fuel)
  let ?j = "cnext (2 ^ b) j"
  note S = Suc.prems(2)
  have bd: "i < 2 ^ b" "j < 2 ^ b" "fm_key m i \<noteq> 0" using shifting_bounds [OF S] by simp_all
  have len: "length (fm_slots m) = 2 ^ b" using Suc.prems(1) by (simp add: fm_shape_def)
  have j': "?j < 2 ^ b" using bd(2) by (rule cnext_less)
  have succ: "fm_succ m j = ?j" using fm_succ_cnext [OF Suc.prems(1) bd(2)] .
  show ?case
  proof (cases "fm_key m ?j = 0")
    case True
    let ?m = "m\<lparr>fm_slots := (fm_slots m)[i := (fm_slots m ! i)\<lparr>s_key := kEmpty\<rparr>]\<rparr>"
    have run: "fm_shift_back (Suc fuel) m i j = Some ?m"
      by (simp add: Let_def succ kEmpty_def True)
    have keys: "fm_key ?m q = ((fm_key m)(i := 0)) q" if "q < 2 ^ b" for q
      using that bd(1) len by (simp add: nth_list_update kEmpty_def)
    have "reach (2 ^ b) (fib_home b) (fm_key ?m)"
      by (rule table_cong(1) [OF _ fib.shifting_done [OF S True]]) (rule keys)
    moreover have "uniq (2 ^ b) (fm_key ?m)"
      by (rule table_cong(2) [OF _ uniq_but_done [OF Suc.prems(3)]]) (rule keys)
    moreover have "fm_entry_set ?m = fm_entries_but m i"
      using fm_entry_set_update [of i m] bd(1) len by (simp add: kEmpty_def)
    ultimately show ?thesis using run Suc.prems(1) by (auto simp: fm_shape_def)
  next
    case False
    have ne: "?j \<noteq> i"
    proof
      assume "?j = i"
      \<comment> \<open>the cursor went all the way round: then no slot is empty\<close>
      have "e \<noteq> i" using Suc.prems(5) bd(3) by auto
      then have "0 < cdist (2 ^ b) i e" using cdist_0_iff [OF bd(1) Suc.prems(4)] by auto
      moreover have "cdist (2 ^ b) i e \<le> cdist (2 ^ b) i j"
        using cdist_full [OF bd(2) \<open>?j = i\<close> Suc.prems(4)] .
      ultimately show False using shifting_between [OF S Suc.prems(4)] Suc.prems(5) by blast
    qed
    have nje: "j \<noteq> e" using shifting_between [OF S bd(2)] Suc.prems(5) bd cdist_0_iff [OF bd(1,2)]
      by (cases "i = j") auto
    have de: "cdist (2 ^ b) ?j e \<le> fuel"
      using cdist_from_cnext [OF Suc.prems(4) bd(2) nje] Suc.prems(6) by simp
    have je: "?j \<noteq> e" using False Suc.prems(5) by auto
    then have fuel: "0 < fuel" using de cdist_0_iff [OF j' Suc.prems(4)] by auto
    let ?h = "fib_home b (fm_key m ?j)"
    show ?thesis
    proof (cases "cdist (2 ^ b) i ?j \<le> cdist (2 ^ b) ?h ?j")
      case True
      let ?m = "m\<lparr>fm_slots := (fm_slots m)[i := fm_slots m ! ?j]\<rparr>"
      have run: "fm_shift_back (Suc fuel) m i j = fm_shift_back fuel ?m ?j ?j"
        using True False by (simp add: Let_def succ kEmpty_def fm_home_fib [OF Suc.prems(1)]
            fm_dist_cdist [OF Suc.prems(1) _ j'] bd(1) fib_home_less)
      have keys: "fm_key ?m q = ((fm_key m)(i := fm_key m ?j)) q" if "q < 2 ^ b" for q
        using that bd(1) len by (simp add: nth_list_update)
      have S': "shifting (2 ^ b) (fib_home b) (fm_key ?m) ?j ?j"
        by (rule table_cong(4) [OF _ fib.shifting_move [OF S refl ne False True]]) (rule keys)
      have U': "uniq_but (2 ^ b) (fm_key ?m) ?j"
        by (rule table_cong(3) [OF _ uniq_but_move [OF Suc.prems(3) j' ne]]) (rule keys)
      have sh: "fm_shape ?m b" using Suc.prems(1) by (simp add: fm_shape_def)
      have ee: "fm_key ?m e = 0"
        using keys [OF Suc.prems(4)] Suc.prems(5) bd(3) by auto
      from Suc.IH [OF sh S' U' Suc.prems(4) ee de fuel] run
        fm_entries_but_move [of i m ?j] bd(1) j' ne False len
      show ?thesis by auto
    next
      case nf: False
      have run: "fm_shift_back (Suc fuel) m i j = fm_shift_back fuel m i ?j"
        using nf False by (simp add: Let_def succ kEmpty_def fm_home_fib [OF Suc.prems(1)]
            fm_dist_cdist [OF Suc.prems(1) _ j'] bd(1) fib_home_less)
      have S': "shifting (2 ^ b) (fib_home b) (fm_key m) i ?j"
        using fib.shifting_stay [OF S refl ne False] nf by simp
      from Suc.IH [OF Suc.prems(1) S' Suc.prems(3,4,5) de fuel] run show ?thesis by simp
    qed
  qed
qed

lemma fm_erase_present:
  assumes inv: "fm_inv m" and k: "fm_find m k = Some v"
  shows "\<exists>m'. fm_erase k m = (True, m') \<and> fm_inv m' \<and> fm_find m' = (fm_find m)(k := None) \<and>
    fm_max_entries m' = fm_max_entries m"
proof -
  obtain b where b: "fm_shape m b" "length (fm_slots m) = 2 ^ b"
    "reach (2 ^ b) (fib_home b) (fm_key m)" "uniq (2 ^ b) (fm_key m)"
    using inv by (rule fm_inv_shape)
  have kv: "(k, v) \<in> fm_entry_set m" "k \<noteq> 0"
    using fm_find_iff [OF inv, of k v] k by (simp, cases "k = 0") (simp_all add: fm_find_def kEmpty_def)
  obtain p where p: "fm_probe (length (fm_slots m)) m k (fm_home m k) = Some p" "p < 2 ^ b"
    "fm_key m p = 0 \<or> fm_key m p = k"
    "\<forall>q<2 ^ b. cdist (2 ^ b) (fib_home b k) q < cdist (2 ^ b) (fib_home b k) p \<longrightarrow>
       fm_key m q \<noteq> 0 \<and> fm_key m q \<noteq> k"
    "fm_key m p = 0 \<longrightarrow> (\<forall>q<2 ^ b. fm_key m q \<noteq> k)"
    by (rule fm_probe_home [OF inv b(1) kv(2)])
  have kp: "fm_key m p = k"
    using kv(1) p(3,5) b(2) by (auto elim!: fm_entry_setE)
  have np: "fm_key m p \<noteq> 0" using kp kv(2) by simp
  obtain e where e: "e < 2 ^ b" "fm_key m e = 0" using fm_free_slot [OF inv b(1)] by blast
  have S: "shifting (2 ^ b) (fib_home b) (fm_key m) p p"
    using fib.shifting_start [OF b(3) p(2) np] .
  have U: "uniq_but (2 ^ b) (fm_key m) p" using b(4) by (auto simp: uniq_def uniq_but_def)
  have "cdist (2 ^ b) p e \<le> 2 ^ b" using cdist_less [OF p(2) e(1)] by simp
  from fm_shift_back_ok [OF b(1) S U e this] obtain m' where
    m': "fm_shift_back (2 ^ b) m p p = Some m'" "fm_shape m' b" "reach (2 ^ b) (fib_home b) (fm_key m')"
    "uniq (2 ^ b) (fm_key m')" "fm_entry_set m' = fm_entries_but m p" "fm_size m' = fm_size m"
    "fm_max_entries m' = fm_max_entries m"
    by auto
  let ?m = "m'\<lparr>fm_size := fm_size m' - 1\<rparr>"
  have run: "fm_erase k m = (True, ?m)"
    using kv(2) p(1) np m'(1) b(2) by (simp add: fm_erase_def kEmpty_def)
  have vp: "s_val (fm_slots m ! p) = v"
    using fm_entry_functional [OF inv kv(1)] fm_entry_setI [of p m] p(2) b(2) kp kv(2) by auto
  have split: "fm_entry_set m = insert (k, v) (fm_entries_but m p)"
    using fm_entry_set_split [of p m] b(2) p(2) kp kv(2) vp by simp
  have out: "(k, w) \<notin> fm_entries_but m p" for w
    using b(2,4) p(2) kp kv(2) by (auto simp: fm_entries_but_def uniq_def)
  have E: "fm_entry_set ?m = fm_entries_but m p" by (simp add: m'(5))
  have "k \<notin> fst ` fm_entries_but m p" using out by force
  moreover have "fst ` fm_entry_set m = insert k (fst ` fm_entries_but m p)" by (simp add: split)
  moreover have "finite (fm_entries_but m p)" by (simp add: fm_entries_but_def)
  ultimately have "card (fst ` fm_entry_set m) = Suc (card (fst ` fm_entries_but m p))" by simp
  then have sz: "fm_size ?m = card (fst ` fm_entry_set ?m)" "fm_size ?m \<le> fm_max_entries ?m"
    using inv m'(6,7) unfolding E by (auto simp: fm_inv_def)
  have inv': "fm_inv ?m"
    unfolding fm_inv_def using m'(2,3,4) sz by (auto simp: fm_shape_def)
  have "fm_find ?m = (fm_find m)(k := None)"
    by (rule fm_find_eqI [OF inv']) (use out in \<open>auto simp: m'(5) fm_find_iff [OF inv] split\<close>)
  with run inv' m'(7) show ?thesis by auto
qed

lemma fm_erase_absent:
  assumes inv: "fm_inv m" and "fm_find m k = None"
  shows "fm_erase k m = (False, m)"
proof (cases "k = 0")
  case True
  then show ?thesis by (simp add: fm_erase_def kEmpty_def)
next
  case False
  obtain b where b: "fm_shape m b" using inv by (rule fm_inv_shape)
  from fm_probe_home [OF inv b False] assms(2) False show ?thesis
    by (auto simp: fm_erase_def fm_find_def kEmpty_def split: option.splits if_splits)
qed

subsection \<open>Construction and clearing\<close>

lemma fm_bits_props:
  "2 * n \<le> 2 ^ fm_bits n k" "k \<le> fm_bits n k" "2 * n \<le> 2 ^ u \<Longrightarrow> k \<le> u \<Longrightarrow> fm_bits n k \<le> u"
proof (induction n k rule: fm_bits.induct)
  case (1 n k)
  { case 1 then show ?case using "1.IH"(1) by (subst fm_bits.simps) auto }
  { case 2 then show ?case using "1.IH"(2) by (subst fm_bits.simps) (auto intro: Suc_leD) }
  { case 3
    have "Suc k \<le> u" if "2 ^ k < n * 2"
    proof (rule ccontr)
      assume "\<not> ?thesis"
      then have "(2::nat) ^ u \<le> 2 ^ k" using 3(2) by (intro power_increasing) auto
      with that 3(1) show False by simp
    qed
    with 3 "1.IH"(3) show ?case by (subst fm_bits.simps) auto }
qed

lemma FlatIdMap_inv:
  assumes "n \<le> 2 ^ 62"
  shows "fm_inv (FlatIdMap d n)" "fm_find (FlatIdMap d n) = Map.empty" "fm_max_entries (FlatIdMap d n) = n"
proof -
  let ?b = "fm_bits n 4" and ?m = "FlatIdMap d n"
  have b: "4 \<le> ?b" "?b \<le> 63" "2 * n \<le> 2 ^ ?b"
    using fm_bits_props(1,2) [where n = n and k = 4] fm_bits_props(3) [of n 63 4] assms by simp_all
  have k: "fm_key ?m p = 0" if "p < 2 ^ ?b" for p
    using that by (simp add: FlatIdMap_def Let_def kEmpty_def)
  have sh: "fm_shape ?m ?b" using b by (simp add: fm_shape_def FlatIdMap_def Let_def)
  then have E: "fm_entry_set ?m = {}" using k by (auto simp: fm_entry_set_def fm_shape_def)
  have "reach (2 ^ ?b) (fib_home ?b) (fm_key ?m)" "uniq (2 ^ ?b) (fm_key ?m)"
    using k by (auto simp: reach_def uniq_def)
  with sh E show inv: "fm_inv ?m"
    by (auto simp: fm_inv_def) (simp_all add: FlatIdMap_def Let_def)
  show "fm_find ?m = Map.empty" by (rule fm_find_eqI [OF inv]) (simp add: E)
  show "fm_max_entries ?m = n" by (simp add: FlatIdMap_def Let_def)
qed

lemma fm_clear_ok:
  assumes "fm_inv m"
  shows "fm_inv (fm_clear m) \<and> fm_find (fm_clear m) = Map.empty \<and>
    fm_max_entries (fm_clear m) = fm_max_entries m"
proof -
  obtain b where b: "fm_shape m b" "length (fm_slots m) = 2 ^ b" using assms by (rule fm_inv_shape)
  have k: "fm_key (fm_clear m) p = 0" if "p < 2 ^ b" for p
    using that b(2) by (simp add: fm_clear_def kEmpty_def)
  have sh: "fm_shape (fm_clear m) b" using b(1) by (simp add: fm_shape_def fm_clear_def)
  then have E: "fm_entry_set (fm_clear m) = {}" using k by (auto simp: fm_entry_set_def fm_shape_def)
  have "reach (2 ^ b) (fib_home b) (fm_key (fm_clear m))" "uniq (2 ^ b) (fm_key (fm_clear m))"
    using k by (auto simp: reach_def uniq_def)
  with sh E have inv: "fm_inv (fm_clear m)"
    by (auto simp: fm_inv_def) (simp_all add: fm_clear_def)
  have "fm_find (fm_clear m) = Map.empty" by (rule fm_find_eqI [OF inv]) (simp add: E)
  with inv show ?thesis by (simp add: fm_clear_def)
qed

lemma fm_store_ok:
  assumes inv: "fm_inv m" and k: "fm_find m k = Some w"
  shows "fm_inv (fm_store k v m) \<and> fm_find (fm_store k v m) = (fm_find m)(k \<mapsto> v) \<and>
    fm_max_entries (fm_store k v m) = fm_max_entries m"
proof -
  obtain b where b: "fm_shape m b" "length (fm_slots m) = 2 ^ b"
    "reach (2 ^ b) (fib_home b) (fm_key m)" "uniq (2 ^ b) (fm_key m)"
    using inv by (rule fm_inv_shape)
  have k0: "k \<noteq> 0" using k by (auto simp: fm_find_def kEmpty_def)
  obtain p where p: "fm_probe (length (fm_slots m)) m k (fm_home m k) = Some p" "p < 2 ^ b" "fm_key m p = 0 \<or> fm_key m p = k"
    by (rule fm_probe_home [OF inv b(1) k0])
  then have pk: "fm_key m p = k" using k by (auto simp: fm_find_def kEmpty_def split: if_splits)
  define m' where "m' = m\<lparr>fm_slots := (fm_slots m)[p := (fm_slots m ! p)\<lparr>s_val := v\<rparr>]\<rparr>"
  have st: "fm_store k v m = m'" using k0 p(1) pk by (simp add: fm_store_def kEmpty_def m'_def)
  have keys: "fm_key m' q = fm_key m q" if "q < 2 ^ b" for q
    using that p(2) b(2) by (simp add: m'_def nth_list_update)
  have sh: "fm_shape m' b" using b(1) by (simp add: m'_def fm_shape_def)
  have RU: "reach (2 ^ b) (fib_home b) (fm_key m')" "uniq (2 ^ b) (fm_key m')"
    using table_cong [of "2 ^ b" "fm_key m'" "fm_key m"] keys b(3,4) by auto
  have E: "fm_entry_set m' = insert (k, v) (fm_entries_but m p)" "fm_entry_set m = insert (k, s_val (fm_slots m ! p)) (fm_entries_but m p)"
    using fm_entry_set_update [of p m] fm_entry_set_split [of p m] b(2) p(2) pk k0 by (simp_all add: m'_def)
  have inv': "fm_inv m'"
    using inv sh RU by (auto simp: fm_inv_def E) (simp_all add: m'_def)
  have other: "(k, u) \<notin> fm_entries_but m p" for u
    using b(4) p(2) pk k0 b(2) by (auto simp: fm_entries_but_def uniq_def)
  have "fm_find m' = (fm_find m)(k \<mapsto> v)"
    by (rule fm_find_eqI [OF inv']) (use other in \<open>auto simp: E fm_find_iff [OF inv]\<close>)
  with inv' show ?thesis by (simp add: st) (simp add: m'_def)
qed

lemma fm_size_card: "fm_inv m \<Longrightarrow> fm_size m = card (dom (fm_find m))"
  by (simp add: fm_inv_def fm_dom_find)

lemma fm_entries_set: "set (fm_entries m) = fm_entry_set m"
  by (auto simp: fm_entries_def fm_entry_set_def kEmpty_def in_set_conv_nth image_iff)

interpretation fm: id_map fm_insert fm_find fm_erase fm_clear fm_max_entries fm_inv
proof unfold_locales
  fix m :: "'v flat_map" and k v
  show "fm_find m 0 = None" by (simp add: fm_find_def kEmpty_def)
  show "finite (dom (fm_find m)) \<and> card (dom (fm_find m)) \<le> fm_max_entries m" if i: "fm_inv m"
  proof
    show "finite (dom (fm_find m))" by (simp add: fm_dom_find [OF i])
    show "card (dom (fm_find m)) \<le> fm_max_entries m"
      using fm_size_card [OF i] i by (simp add: fm_inv_def)
  qed
  show "fm_inv m \<Longrightarrow> k \<noteq> 0 \<Longrightarrow> fm_find m k = None \<Longrightarrow> card (dom (fm_find m)) < fm_max_entries m \<Longrightarrow>
      \<exists>m'. fm_insert k v m = (True, m') \<and> fm_inv m' \<and> fm_find m' = (fm_find m)(k \<mapsto> v) \<and>
        fm_max_entries m' = fm_max_entries m"
    using fm_insert_new [of m k v] fm_size_card [of m] by simp
  show "fm_inv m \<Longrightarrow> k = 0 \<or> fm_find m k \<noteq> None \<or> fm_max_entries m \<le> card (dom (fm_find m)) \<Longrightarrow>
      fm_insert k v m = (False, m)"
    using fm_insert_refused [of m k v] fm_size_card [of m] by simp
  show "fm_inv m \<Longrightarrow> fm_find m k \<noteq> None \<Longrightarrow>
      \<exists>m'. fm_erase k m = (True, m') \<and> fm_inv m' \<and> fm_find m' = (fm_find m)(k := None) \<and>
        fm_max_entries m' = fm_max_entries m"
    using fm_erase_present by fastforce
qed (simp_all add: fm_erase_absent fm_clear_ok)

end
