(* ===== verification/Order_Book.thy ===== *)
theory Order_Book
  imports Bitmap Flat_Id_Map Trading_Types
begin

unbundle bit_operations_syntax

text \<open>
  The limit order book of one symbol (\<open>include/order_book.hpp\<close>, \<open>src/order_book.cpp\<close>): a price
  ladder per side, an occupancy bitmap, a cached best level, a pool of order nodes linked into one
  FIFO per level and one free list, and an id index. This theory holds the model; the representation
  invariant is in \<open>Book_Rep\<close> and the refinement of an abstract priority list in \<open>Book_Spec\<close>.

  Pool indices (\<open>uint32_t\<close>) are \<open>nat\<close> with the sentinel \<open>kNil\<close>; ladder indices (\<open>int32_t\<close>) are \<open>int\<close>
  with -1 for none, and the narrowing cast of \<open>index_of\<close> is written out. References into
  \<open>nodes_\<close> and \<open>levels\<close> become reads and list updates in the order of the C++ statements.
\<close>

definition kNil :: nat where
  "kNil = 0xFFFFFFFF"

record book_config =
  bc_min_price :: price
  bc_max_price :: price
  bc_tick_size :: price
  bc_max_orders :: u32

definition default_config :: book_config where
  "default_config = \<lparr>bc_min_price = 50 * kPriceScale, bc_max_price = 150 * kPriceScale,
     bc_tick_size = kCent, bc_max_orders = push_bit 16 1\<rparr>"

record book_order =
  bo_id :: order_id
  bo_price :: price
  bo_qty :: qty
  bo_owner :: u32
  bo_user_ref :: u32
  bo_prev :: nat
  bo_next :: nat
  bo_side :: side

record level_view =
  lw_price :: price
  lw_qty :: u64
  lw_orders :: u32

datatype add_result = AddOk | BadPrice | BadQty | DuplicateId | Full

record level =
  lv_qty :: u64
  lv_head :: nat
  lv_tail :: nat
  lv_count :: u32

record ladder =
  ld_levels :: "level list"
  ld_bits :: "u64 list"
  ld_best :: int

record order_book =
  ob_cfg :: book_config
  ob_levels_per_side :: nat
  ob_bids :: ladder
  ob_asks :: ladder
  ob_nodes :: "book_order list"
  ob_free_head :: nat
  ob_live :: nat
  ob_ids :: "nat flat_map"

definition ladder_of :: "side \<Rightarrow> order_book \<Rightarrow> ladder" where
  "ladder_of s b = (if s = Buy then ob_bids b else ob_asks b)"

definition set_ladder :: "side \<Rightarrow> ladder \<Rightarrow> order_book \<Rightarrow> order_book" where
  "set_ladder s l b = (if s = Buy then b\<lparr>ob_bids := l\<rparr> else b\<lparr>ob_asks := l\<rparr>)"

text \<open>\<open>index_of\<close> casts an \<open>int64_t\<close> to \<open>int32_t\<close>. The dividend is non-negative and the divisor
  positive wherever it is called, so truncating division is \<open>div\<close>.\<close>

definition index_of :: "book_config \<Rightarrow> price \<Rightarrow> int" where
  "index_of cfg p = sint (word_of_int ((p - bc_min_price cfg) div bc_tick_size cfg) :: u32)"

definition price_of :: "book_config \<Rightarrow> int \<Rightarrow> price" where
  "price_of cfg idx = bc_min_price cfg + idx * bc_tick_size cfg"

definition empty_level :: level where
  "empty_level = \<lparr>lv_qty = 0, lv_head = kNil, lv_tail = kNil, lv_count = 0\<rparr>"

subsection \<open>Construction and clearing\<close>

text \<open>The loop over the non-empty levels of one side.\<close>

function clear_levels :: "u64 list \<Rightarrow> level list \<Rightarrow> int \<Rightarrow> level list" where
  "clear_levels bits lvs i =
     (if i < 0 then lvs
      else clear_levels bits (lvs[nat i := empty_level]) (bitmap_find_next bits (i + 1)))"
  by pat_completeness auto
termination
proof (relation "measure (\<lambda>(bits, lvs, i). if i < 0 then 0 else Suc (64 * length bits - nat i))")
  fix bits :: "u64 list" and lvs :: "level list" and i :: int
  assume i: "\<not> i < 0"
  let ?r = "bitmap_find_next bits (i + 1)"
  show "((bits, lvs[nat i := empty_level], ?r), bits, lvs, i)
      \<in> measure (\<lambda>(bits, lvs, i). if i < 0 then 0 else Suc (64 * length bits - nat i))"
    using i is_next_range [OF bitmap_find_next_spec [of bits "i + 1"]] by (cases "?r < 0") auto
qed simp

declare clear_levels.simps [simp del]

definition clear_ladder :: "ladder \<Rightarrow> ladder" where
  "clear_ladder l =
     \<lparr>ld_levels = clear_levels (ld_bits l) (ld_levels l) (bitmap_find_next (ld_bits l) 0),
      ld_bits = map (\<lambda>w. 0) (ld_bits l), ld_best = -1\<rparr>"

text \<open>The loop that rebuilds the free list: node i to i + 1, the last to \<open>kNil\<close>.\<close>

definition chain_free :: "book_order list \<Rightarrow> book_order list" where
  "chain_free ns =
     map (\<lambda>i. (ns ! i)\<lparr>bo_next := if i + 1 < length ns then i + 1 else kNil\<rparr>) [0..<length ns]"

definition ob_clear :: "order_book \<Rightarrow> order_book" where
  "ob_clear b =
     b\<lparr>ob_bids := clear_ladder (ob_bids b), ob_asks := clear_ladder (ob_asks b),
       ob_nodes := chain_free (ob_nodes b), ob_free_head := (if ob_nodes b = [] then kNil else 0),
       ob_live := 0, ob_ids := fm_clear (ob_ids b)\<rparr>"

text \<open>Nodes are value-initialised by \<open>resize\<close>; their fields are not read before \<open>add\<close> sets them.\<close>

definition blank_order :: book_order where
  "blank_order = \<lparr>bo_id = 0, bo_price = 0, bo_qty = 0, bo_owner = 0, bo_user_ref = 0,
     bo_prev = 0, bo_next = 0, bo_side = Buy\<rparr>"

text \<open>\<open>None\<close> is the \<open>std::invalid_argument\<close> of the constructor.\<close>

definition OrderBook :: "book_config \<Rightarrow> order_book option" where
  "OrderBook cfg =
     (if bc_tick_size cfg \<le> 0 \<or> bc_max_price cfg < bc_min_price cfg \<or>
         (bc_max_price cfg - bc_min_price cfg) mod bc_tick_size cfg \<noteq> 0 \<or>
         bc_max_orders cfg = 0 \<or> unat (bc_max_orders cfg) \<ge> kNil
      then None
      else let n = nat ((bc_max_price cfg - bc_min_price cfg) div bc_tick_size cfg) + 1;
               words = (n + 63) div 64;
               l = \<lparr>ld_levels = replicate n empty_level, ld_bits = replicate words 0, ld_best = -1\<rparr>
           in Some (ob_clear
                \<lparr>ob_cfg = cfg, ob_levels_per_side = n, ob_bids = l, ob_asks = l,
                 ob_nodes = replicate (unat (bc_max_orders cfg)) blank_order,
                 ob_free_head = kNil, ob_live = 0,
                 ob_ids = FlatIdMap 0 (unat (bc_max_orders cfg))\<rparr>))"

definition valid_price :: "order_book \<Rightarrow> price \<Rightarrow> bool" where
  "valid_price b p \<longleftrightarrow> p \<ge> bc_min_price (ob_cfg b) \<and> p \<le> bc_max_price (ob_cfg b) \<and>
     (p - bc_min_price (ob_cfg b)) mod bc_tick_size (ob_cfg b) = 0"

subsection \<open>Adding\<close>

text \<open>Append node \<open>n\<close> at the tail of a level; the flag says that the level was empty.\<close>

definition link_tail :: "nat \<Rightarrow> book_order list \<Rightarrow> level \<Rightarrow> book_order list \<times> level \<times> bool" where
  "link_tail n ns lv =
     (let ns = ns[n := (ns ! n)\<lparr>bo_prev := lv_tail lv\<rparr>];
          (ns, lv, was_empty) =
            (if lv_tail lv \<noteq> kNil
             then (ns[lv_tail lv := (ns ! lv_tail lv)\<lparr>bo_next := n\<rparr>], lv, False)
             else (ns, lv\<lparr>lv_head := n\<rparr>, True))
      in (ns, lv\<lparr>lv_tail := n\<rparr>, was_empty))"

definition ob_add :: "order_id \<Rightarrow> side \<Rightarrow> price \<Rightarrow> qty \<Rightarrow> u32 \<Rightarrow> u32 \<Rightarrow> order_book \<Rightarrow> add_result \<times> order_book"
where
  "ob_add oid side price qty owner user_ref b =
     (if \<not> valid_price b price then (BadPrice, b)
      else if qty = 0 then (BadQty, b)
      else if ob_free_head b = kNil then (Full, b)
      else let n = ob_free_head b; (inserted, ids) = fm_insert oid n (ob_ids b)
           in if \<not> inserted then (DuplicateId, b)
              else let free_head = bo_next (ob_nodes b ! n);
                       o1 = (ob_nodes b ! n)\<lparr>bo_id := oid, bo_price := price, bo_qty := qty,
                              bo_owner := owner, bo_user_ref := user_ref, bo_side := side,
                              bo_next := kNil\<rparr>;
                       l = ladder_of side b;
                       idx = index_of (ob_cfg b) price;
                       (ns, lv, was_empty) =
                         link_tail n ((ob_nodes b)[n := o1]) (ld_levels l ! nat idx);
                       bits = (if was_empty then bitmap_set (ld_bits l) (nat idx) else ld_bits l);
                       lv = lv\<lparr>lv_qty := lv_qty lv + ucast qty, lv_count := lv_count lv + 1\<rparr>;
                       best = (if ld_best l < 0 \<or>
                                 (if side = Buy then idx > ld_best l else idx < ld_best l)
                               then idx else ld_best l);
                       l = \<lparr>ld_levels = (ld_levels l)[nat idx := lv], ld_bits = bits, ld_best = best\<rparr>
                   in (AddOk, (set_ladder side l b)\<lparr>ob_nodes := ns, ob_free_head := free_head,
                               ob_live := ob_live b + 1, ob_ids := ids\<rparr>))"

subsection \<open>Removing and reducing\<close>

definition next_worse :: "side \<Rightarrow> ladder \<Rightarrow> int \<Rightarrow> int" where
  "next_worse s l idx =
     (if s = Buy then bitmap_find_prev (ld_bits l) (idx - 1) else bitmap_find_next (ld_bits l) (idx + 1))"

text \<open>The O(1) unlink from the middle of a FIFO.\<close>

definition unlink_node :: "nat \<Rightarrow> book_order list \<Rightarrow> level \<Rightarrow> book_order list \<times> level" where
  "unlink_node n ns lv =
     (let (ns, lv) =
            (if bo_prev (ns ! n) \<noteq> kNil
             then (ns[bo_prev (ns ! n) := (ns ! bo_prev (ns ! n))\<lparr>bo_next := bo_next (ns ! n)\<rparr>], lv)
             else (ns, lv\<lparr>lv_head := bo_next (ns ! n)\<rparr>))
      in if bo_next (ns ! n) \<noteq> kNil
         then (ns[bo_next (ns ! n) := (ns ! bo_next (ns ! n))\<lparr>bo_prev := bo_prev (ns ! n)\<rparr>], lv)
         else (ns, lv\<lparr>lv_tail := bo_prev (ns ! n)\<rparr>))"

text \<open>Store a level back; when it became empty, reset it, clear its bit and rescan the best level.\<close>

definition settle_level :: "side \<Rightarrow> int \<Rightarrow> level \<Rightarrow> ladder \<Rightarrow> ladder" where
  "settle_level s idx lv l =
     (if lv_count lv = 0
      then let l = l\<lparr>ld_levels := (ld_levels l)[nat idx :=
                       lv\<lparr>lv_head := kNil, lv_tail := kNil, lv_qty := 0\<rparr>],
                     ld_bits := bitmap_clear (ld_bits l) (nat idx)\<rparr>
           in if idx = ld_best l then l\<lparr>ld_best := next_worse s l idx\<rparr> else l
      else l\<lparr>ld_levels := (ld_levels l)[nat idx := lv]\<rparr>)"

definition unlink_and_free :: "nat \<Rightarrow> order_book \<Rightarrow> order_book" where
  "unlink_and_free n b =
     (let s = bo_side (ob_nodes b ! n);
          l = ladder_of s b;
          idx = index_of (ob_cfg b) (bo_price (ob_nodes b ! n));
          (ns, lv) = unlink_node n (ob_nodes b) (ld_levels l ! nat idx);
          lv = lv\<lparr>lv_qty := lv_qty lv - ucast (bo_qty (ns ! n)), lv_count := lv_count lv - 1\<rparr>
      in (set_ladder s (settle_level s idx lv l) b)
           \<lparr>ob_ids := snd (fm_erase (bo_id (ns ! n)) (ob_ids b)),
            ob_nodes := ns[n := (ns ! n)\<lparr>bo_next := ob_free_head b\<rparr>],
            ob_free_head := n, ob_live := ob_live b - 1\<rparr>)"

text \<open>The in-place case of \<open>reduce\<close> and \<open>reduce_front\<close>: \<open>by\<close> (here \<open>amt\<close>) fewer shares on the node and its level.\<close>

definition shrink_node :: "nat \<Rightarrow> qty \<Rightarrow> side \<Rightarrow> int \<Rightarrow> order_book \<Rightarrow> order_book" where
  "shrink_node n amt s idx b =
     (let l = ladder_of s b; lv = ld_levels l ! nat idx
      in (set_ladder s (l\<lparr>ld_levels := (ld_levels l)[nat idx := lv\<lparr>lv_qty := lv_qty lv - ucast amt\<rparr>]\<rparr>) b)
           \<lparr>ob_nodes := (ob_nodes b)[n := (ob_nodes b ! n)\<lparr>bo_qty := bo_qty (ob_nodes b ! n) - amt\<rparr>]\<rparr>)"

definition ob_reduce :: "order_id \<Rightarrow> qty \<Rightarrow> order_book \<Rightarrow> bool \<times> order_book" where
  "ob_reduce oid amt b =
     (case fm_find (ob_ids b) oid of
        None \<Rightarrow> (False, b)
      | Some n \<Rightarrow>
          let ord = ob_nodes b ! n
          in if amt > bo_qty ord then (False, b)
             else if amt = bo_qty ord then (True, unlink_and_free n b)
             else (True, shrink_node n amt (bo_side ord) (index_of (ob_cfg b) (bo_price ord)) b))"

definition ob_remove :: "order_id \<Rightarrow> order_book \<Rightarrow> bool \<times> order_book" where
  "ob_remove oid b =
     (case fm_find (ob_ids b) oid of None \<Rightarrow> (False, b) | Some n \<Rightarrow> (True, unlink_and_free n b))"

definition ob_front :: "side \<Rightarrow> order_book \<Rightarrow> book_order option" where
  "ob_front s b =
     (let l = ladder_of s b
      in if ld_best l < 0 then None else Some (ob_nodes b ! lv_head (ld_levels l ! nat (ld_best l))))"

text \<open>Precondition of the source: \<open>front(side)\<close> exists and \<open>by\<close> is at most its quantity.\<close>

definition ob_reduce_front :: "side \<Rightarrow> qty \<Rightarrow> order_book \<Rightarrow> order_book" where
  "ob_reduce_front s amt b =
     (let l = ladder_of s b;
          n = lv_head (ld_levels l ! nat (ld_best l));
          ord = ob_nodes b ! n
      in if amt \<ge> bo_qty ord then unlink_and_free n b else shrink_node n amt s (ld_best l) b)"

subsection \<open>Queries\<close>

definition ob_find :: "order_id \<Rightarrow> order_book \<Rightarrow> book_order option" where
  "ob_find oid b = (case fm_find (ob_ids b) oid of None \<Rightarrow> None | Some n \<Rightarrow> Some (ob_nodes b ! n))"

definition ob_empty :: "side \<Rightarrow> order_book \<Rightarrow> bool" where
  "ob_empty s b \<longleftrightarrow> ld_best (ladder_of s b) < 0"

definition best_price :: "side \<Rightarrow> order_book \<Rightarrow> price" where
  "best_price s b = price_of (ob_cfg b) (ld_best (ladder_of s b))"

definition best_qty :: "side \<Rightarrow> order_book \<Rightarrow> u64" where
  "best_qty s b =
     (let l = ladder_of s b in if ld_best l < 0 then 0 else lv_qty (ld_levels l ! nat (ld_best l)))"

definition best_count :: "side \<Rightarrow> order_book \<Rightarrow> u32" where
  "best_count s b =
     (let l = ladder_of s b in if ld_best l < 0 then 0 else lv_count (ld_levels l ! nat (ld_best l)))"

definition level_at :: "side \<Rightarrow> price \<Rightarrow> order_book \<Rightarrow> level_view" where
  "level_at s p b =
     (if \<not> valid_price b p then \<lparr>lw_price = p, lw_qty = 0, lw_orders = 0\<rparr>
      else let lv = ld_levels (ladder_of s b) ! nat (index_of (ob_cfg b) p)
           in \<lparr>lw_price = p, lw_qty = lv_qty lv, lw_orders = lv_count lv\<rparr>)"

text \<open>The calls \<open>f(...)\<close> of \<open>for_each_level\<close> and \<open>for_each_order\<close>, in order. The walk over levels
  takes the number of levels as fuel and the walk along a FIFO the size of the pool.\<close>

fun level_walk :: "side \<Rightarrow> order_book \<Rightarrow> nat \<Rightarrow> int \<Rightarrow> level_view list" where
  "level_walk s b 0 idx = []"
| "level_walk s b (Suc n) idx =
     (if idx \<ge> 0
      then let lv = ld_levels (ladder_of s b) ! nat idx
           in \<lparr>lw_price = price_of (ob_cfg b) idx, lw_qty = lv_qty lv, lw_orders = lv_count lv\<rparr>
              # level_walk s b n (next_worse s (ladder_of s b) idx)
      else [])"

definition for_each_level :: "side \<Rightarrow> nat \<Rightarrow> order_book \<Rightarrow> level_view list" where
  "for_each_level s max_levels b = level_walk s b max_levels (ld_best (ladder_of s b))"

fun fifo_walk :: "nat \<Rightarrow> book_order list \<Rightarrow> nat \<Rightarrow> book_order list" where
  "fifo_walk 0 ns n = []"
| "fifo_walk (Suc fuel) ns n = (if n = kNil then [] else ns ! n # fifo_walk fuel ns (bo_next (ns ! n)))"

fun order_walk :: "nat \<Rightarrow> side \<Rightarrow> order_book \<Rightarrow> int \<Rightarrow> book_order list" where
  "order_walk 0 s b idx = []"
| "order_walk (Suc fuel) s b idx =
     (if idx \<ge> 0
      then fifo_walk (length (ob_nodes b)) (ob_nodes b) (lv_head (ld_levels (ladder_of s b) ! nat idx))
           @ order_walk fuel s b (next_worse s (ladder_of s b) idx)
      else [])"

definition side_walk :: "side \<Rightarrow> order_book \<Rightarrow> book_order list" where
  "side_walk s b = order_walk (ob_levels_per_side b) s b (ld_best (ladder_of s b))"

definition for_each_order :: "order_book \<Rightarrow> book_order list" where
  "for_each_order b = concat (map (\<lambda>s. side_walk s b) [Buy, Sell])"

end
