(* ===== verification/Book_Rep.thy ===== *)
theory Book_Rep
  imports Order_Book
begin

text \<open>
  The representation invariant of the order book. Ghost state: for each side and level index the
  list of pool indices queued there, oldest first, and the list of free pool indices. The
  invariant says that the doubly linked FIFOs, the level summaries, the bitmap, the cached best
  level, the free list and the id index all describe these lists. Each operation is shown to
  transform the ghost state the obvious way.
\<close>

section \<open>Linked segments in the node pool\<close>

definition hd_or :: "'a \<Rightarrow> 'a list \<Rightarrow> 'a" where
  "hd_or q xs = (case xs of [] \<Rightarrow> q | x # _ \<Rightarrow> x)"

definition last_or :: "'a \<Rightarrow> 'a list \<Rightarrow> 'a" where
  "last_or p xs = (if xs = [] then p else last xs)"

lemma hd_or_simps [simp]: "hd_or q [] = q" "hd_or q (x # xs) = x" "hd_or q (xs @ ys) = hd_or (hd_or q ys) xs"
  by (auto simp: hd_or_def split: list.splits)

lemma last_or_simps [simp]:
  "last_or p [] = p" "last_or p (x # xs) = last_or x xs" "last_or p (xs @ ys) = last_or (last_or p xs) ys"
  by (auto simp: last_or_def)

lemma hd_or_in: "xs \<noteq> [] \<Longrightarrow> hd_or q xs \<in> set xs"
  by (cases xs) auto

lemma last_or_in: "xs \<noteq> [] \<Longrightarrow> last_or q xs \<in> set xs"
  by (auto simp: last_or_def)

lemma hd_or_eq_iff: "q \<notin> set xs \<Longrightarrow> hd_or q xs = q \<longleftrightarrow> xs = []"
  by (cases xs) auto

lemma last_or_eq_iff: "q \<notin> set xs \<Longrightarrow> last_or q xs = q \<longleftrightarrow> xs = []"
  by (metis last_or_def last_in_set)

fun dll :: "book_order list \<Rightarrow> nat \<Rightarrow> nat list \<Rightarrow> nat \<Rightarrow> bool" where
  "dll ns p [] q \<longleftrightarrow> True"
| "dll ns p (x # xs) q \<longleftrightarrow> bo_prev (ns ! x) = p \<and> bo_next (ns ! x) = hd_or q xs \<and> dll ns x xs q"

fun chain :: "book_order list \<Rightarrow> nat list \<Rightarrow> bool" where
  "chain ns [] \<longleftrightarrow> True"
| "chain ns (x # xs) \<longleftrightarrow> bo_next (ns ! x) = hd_or kNil xs \<and> chain ns xs"

lemma dll_append: "dll ns p (xs @ ys) q \<longleftrightarrow> dll ns p xs (hd_or q ys) \<and> dll ns (last_or p xs) ys q"
  by (induction xs arbitrary: p) auto

lemma dll_frame:
  "(\<And>x. x \<in> set xs \<Longrightarrow> bo_prev (ns' ! x) = bo_prev (ns ! x) \<and> bo_next (ns' ! x) = bo_next (ns ! x)) \<Longrightarrow>
     dll ns' p xs q \<longleftrightarrow> dll ns p xs q"
  by (induction xs arbitrary: p) auto

lemma chain_frame:
  "(\<And>x. x \<in> set xs \<Longrightarrow> bo_next (ns' ! x) = bo_next (ns ! x)) \<Longrightarrow> chain ns' xs \<longleftrightarrow> chain ns xs"
  by (induction xs) auto

text \<open>Changing the successor of the last node of a segment.\<close>

lemma dll_set_end:
  assumes "dll ns p xs q" "distinct xs" "set xs \<subseteq> {..<length ns}" "xs \<noteq> []"
  shows "dll (ns[last xs := (ns ! last xs)\<lparr>bo_next := r\<rparr>]) p xs r"
  using assms
proof (induction xs arbitrary: p)
  case (Cons x xs)
  show ?case
  proof (cases "xs = []")
    case True
    with Cons.prems show ?thesis by auto
  next
    case False
    then have "last xs \<noteq> x" using Cons.prems(2) last_in_set [OF False] by auto
    with False Cons show ?thesis by (cases xs) auto
  qed
qed simp

text \<open>Changing the predecessor of the first node of a segment.\<close>

lemma dll_set_start:
  assumes "dll ns p xs q" "distinct xs" "set xs \<subseteq> {..<length ns}" "xs \<noteq> []"
  shows "dll (ns[hd xs := (ns ! hd xs)\<lparr>bo_prev := r\<rparr>]) r xs q"
proof (cases xs)
  case (Cons x ys)
  have "dll (ns[x := (ns ! x)\<lparr>bo_prev := r\<rparr>]) x ys q \<longleftrightarrow> dll ns x ys q"
  proof (rule dll_frame)
    fix y assume "y \<in> set ys"
    then have "x \<noteq> y" using assms(2) Cons by auto
    then show "bo_prev (ns[x := (ns ! x)\<lparr>bo_prev := r\<rparr>] ! y) = bo_prev (ns ! y) \<and>
        bo_next (ns[x := (ns ! x)\<lparr>bo_prev := r\<rparr>] ! y) = bo_next (ns ! y)" by simp
  qed
  with assms Cons show ?thesis by auto
qed (use assms in simp)

section \<open>The content of a node\<close>

record resting =
  ro_id :: order_id
  ro_price :: price
  ro_qty :: qty
  ro_owner :: u32
  ro_user_ref :: u32
  ro_side :: side

definition rest_of :: "book_order \<Rightarrow> resting" where
  "rest_of n = \<lparr>ro_id = bo_id n, ro_price = bo_price n, ro_qty = bo_qty n, ro_owner = bo_owner n,
     ro_user_ref = bo_user_ref n, ro_side = bo_side n\<rparr>"

lemma rest_of_sel [simp]:
  "ro_id (rest_of n) = bo_id n" "ro_price (rest_of n) = bo_price n" "ro_qty (rest_of n) = bo_qty n"
  "ro_owner (rest_of n) = bo_owner n" "ro_user_ref (rest_of n) = bo_user_ref n"
  "ro_side (rest_of n) = bo_side n"
  by (simp_all add: rest_of_def)

lemma rest_of_links [simp]: "rest_of (n\<lparr>bo_prev := i\<rparr>) = rest_of n" "rest_of (n\<lparr>bo_next := i\<rparr>) = rest_of n"
  by (simp_all add: rest_of_def)

lemma rest_of_eqD:
  "rest_of m = rest_of n \<Longrightarrow> bo_id m = bo_id n \<and> bo_price m = bo_price n \<and> bo_qty m = bo_qty n \<and>
     bo_owner m = bo_owner n \<and> bo_user_ref m = bo_user_ref n \<and> bo_side m = bo_side n"
  by (simp add: rest_of_def)

section \<open>Levels and ladders\<close>

definition level_qty :: "book_order list \<Rightarrow> nat list \<Rightarrow> u64" where
  "level_qty ns xs = (\<Sum>x\<leftarrow>xs. ucast (bo_qty (ns ! x)))"

lemma level_qty_simps [simp]:
  "level_qty ns [] = 0" "level_qty ns (x # xs) = ucast (bo_qty (ns ! x)) + level_qty ns xs"
  "level_qty ns (xs @ ys) = level_qty ns xs + level_qty ns ys"
  by (simp_all add: level_qty_def)

lemma level_qty_cong:
  "(\<And>x. x \<in> set xs \<Longrightarrow> bo_qty (ns' ! x) = bo_qty (ns ! x)) \<Longrightarrow> level_qty ns' xs = level_qty ns xs"
  by (induction xs) auto

definition level_rep :: "book_order list \<Rightarrow> level \<Rightarrow> nat list \<Rightarrow> bool" where
  "level_rep ns lv xs \<longleftrightarrow> dll ns kNil xs kNil \<and> distinct xs \<and>
     lv_head lv = hd_or kNil xs \<and> lv_tail lv = last_or kNil xs \<and>
     lv_count lv = of_nat (length xs) \<and> lv_qty lv = level_qty ns xs"

definition better :: "side \<Rightarrow> nat \<Rightarrow> nat \<Rightarrow> bool" where
  "better s i j \<longleftrightarrow> (if s = Buy then j < i else i < j)"

definition is_best :: "side \<Rightarrow> (nat \<Rightarrow> bool) \<Rightarrow> int \<Rightarrow> bool" where
  "is_best s P r \<longleftrightarrow> (r = -1 \<and> (\<forall>j. \<not> P j)) \<or> (\<exists>k. r = int k \<and> P k \<and> (\<forall>j. P j \<longrightarrow> \<not> better s j k))"

definition ladder_rep :: "book_order list \<Rightarrow> nat \<Rightarrow> side \<Rightarrow> ladder \<Rightarrow> (nat \<Rightarrow> nat list) \<Rightarrow> bool" where
  "ladder_rep ns L s l Q \<longleftrightarrow> length (ld_levels l) = L \<and> L \<le> 64 * length (ld_bits l) \<and>
     (\<forall>i<L. level_rep ns (ld_levels l ! i) (Q i)) \<and> (\<forall>i\<ge>L. Q i = []) \<and>
     (\<forall>i. bset (ld_bits l) i \<longleftrightarrow> Q i \<noteq> []) \<and> is_best s (\<lambda>i. Q i \<noteq> []) (ld_best l)"

lemma better_irrefl [simp]: "\<not> better s i i"
  by (simp add: better_def)

lemma better_total: "better s i j \<or> i = j \<or> better s j i"
  by (auto simp: better_def)

lemma better_trans: "better s i j \<Longrightarrow> better s j k \<Longrightarrow> better s i k"
  by (auto simp: better_def split: if_splits)

lemma better_asym: "better s i j \<Longrightarrow> \<not> better s j i"
  by (auto simp: better_def split: if_splits)

lemma level_rep_frame:
  assumes "level_rep ns lv xs" and eq: "\<And>x. x \<in> set xs \<Longrightarrow> ns' ! x = ns ! x"
  shows "level_rep ns' lv xs"
proof -
  have "dll ns' kNil xs kNil \<longleftrightarrow> dll ns kNil xs kNil" by (rule dll_frame) (simp add: eq)
  moreover have "level_qty ns' xs = level_qty ns xs" by (rule level_qty_cong) (simp add: eq)
  ultimately show ?thesis using assms(1) unfolding level_rep_def by simp
qed

lemma ladder_rep_frame:
  assumes "ladder_rep ns L s l Q" "\<And>j x. x \<in> set (Q j) \<Longrightarrow> ns' ! x = ns ! x"
  shows "ladder_rep ns' L s l Q"
proof -
  have "level_rep ns' (ld_levels l ! i) (Q i)" if "i < L" for i
    using assms that level_rep_frame [of ns "ld_levels l ! i" "Q i" ns'] by (simp add: ladder_rep_def)
  with assms(1) show ?thesis by (simp add: ladder_rep_def)
qed

lemma ladder_rep_update:
  assumes "ladder_rep ns L s l Q" "i < L" "level_rep ns' lv xs"
    and "\<And>j x. j \<noteq> i \<Longrightarrow> x \<in> set (Q j) \<Longrightarrow> ns' ! x = ns ! x"
    and "length bits = length (ld_bits l)" "\<And>j. bset bits j \<longleftrightarrow> (if j = i then xs \<noteq> [] else bset (ld_bits l) j)"
    and "is_best s (\<lambda>j. (Q(i := xs)) j \<noteq> []) r"
  shows "ladder_rep ns' L s \<lparr>ld_levels = (ld_levels l)[i := lv], ld_bits = bits, ld_best = r\<rparr> (Q(i := xs))"
proof -
  have "level_rep ns' (ld_levels l ! j) (Q j)" if "j < L" "j \<noteq> i" for j
    using assms(1) assms(4) [OF that(2)] that level_rep_frame [of ns "ld_levels l ! j" "Q j" ns']
    by (simp add: ladder_rep_def)
  with assms show ?thesis by (simp add: ladder_rep_def nth_list_update)
qed

lemma is_best_add:
  assumes "is_best s (\<lambda>j. Q j \<noteq> []) r" "xs \<noteq> []"
  shows "is_best s (\<lambda>j. (Q(i := xs)) j \<noteq> [])
    (if r < 0 \<or> (if s = Buy then int i > r else int i < r) then int i else r)"
  using assms unfolding is_best_def better_def by (cases s) (auto split: if_splits)

lemma is_best_keep:
  assumes "is_best s (\<lambda>j. Q j \<noteq> []) r" "Q i \<noteq> []" "xs \<noteq> []"
  shows "is_best s (\<lambda>j. (Q(i := xs)) j \<noteq> []) r"
  using assms unfolding is_best_def by auto

lemma is_best_other:
  assumes "is_best s (\<lambda>j. Q j \<noteq> []) r" "r \<noteq> int i" "Q i \<noteq> []"
  shows "is_best s (\<lambda>j. (Q(i := [])) j \<noteq> []) r"
  using assms unfolding is_best_def by auto

text \<open>The scan for the nearest non-empty level strictly worse than a given one.\<close>

lemma next_worse_spec:
  assumes "i < 64 * length (ld_bits l)"
  shows "is_best s (\<lambda>j. bset (ld_bits l) j \<and> better s i j) (next_worse s l (int i))"
proof (cases s)
  case Buy
  show ?thesis
  proof (cases i)
    case 0
    then show ?thesis using Buy
      by (auto simp: next_worse_def bitmap_find_prev_neg is_best_def better_def)
  next
    case (Suc k)
    have "is_prev (ld_bits l) k (bitmap_find_prev (ld_bits l) (int k))"
      using bitmap_find_prev_spec [of "int k" "ld_bits l"] assms Suc by simp
    then have "is_best Buy (\<lambda>j. bset (ld_bits l) j \<and> better Buy i j) (bitmap_find_prev (ld_bits l) (int k))"
      unfolding is_best_def better_def is_prev_def Suc less_Suc_eq_le by (metis not_le)
    then show ?thesis using Buy Suc by (simp add: next_worse_def)
  qed
next
  case Sell
  have "is_next (ld_bits l) (Suc i) (bitmap_find_next (ld_bits l) (int i + 1))"
    using bitmap_find_next_spec [of "ld_bits l" "int i + 1"] by (simp add: nat_add_distrib)
  then have "is_best Sell (\<lambda>j. bset (ld_bits l) j \<and> better Sell i j) (bitmap_find_next (ld_bits l) (int i + 1))"
    unfolding is_best_def better_def is_next_def Suc_le_eq by (metis not_le side.distinct(1))
  then show ?thesis using Sell by (simp add: next_worse_def)
qed

lemma is_best_cong: "is_best s P r \<Longrightarrow> (\<And>j. P j \<longleftrightarrow> P' j) \<Longrightarrow> is_best s P' r"
  by (simp add: is_best_def)

lemma is_best_unique: "is_best s P r \<Longrightarrow> is_best s P r' \<Longrightarrow> r = r'"
  unfolding is_best_def by (metis better_total)

lemma next_worse_best:
  assumes "\<And>j. bset (ld_bits l) j \<longleftrightarrow> P j" "\<And>j. P j \<Longrightarrow> better s i j" "i < 64 * length (ld_bits l)"
  shows "is_best s P (next_worse s l (int i))"
  by (rule is_best_cong [OF next_worse_spec [OF assms(3)]]) (use assms(1,2) in auto)

section \<open>The pool operations\<close>

text \<open>Two pools agree outside a set of indices, and everywhere on the content of the nodes.\<close>

definition same_pool :: "nat set \<Rightarrow> book_order list \<Rightarrow> book_order list \<Rightarrow> bool" where
  "same_pool A ns ns' \<longleftrightarrow> length ns' = length ns \<and> (\<forall>i. rest_of (ns' ! i) = rest_of (ns ! i)) \<and>
     (\<forall>i. i \<notin> A \<longrightarrow> ns' ! i = ns ! i)"

lemma same_pool_refl [simp]: "same_pool A ns ns"
  by (simp add: same_pool_def)

lemma same_pool_trans: "same_pool A ns ns' \<Longrightarrow> same_pool B ns' ns'' \<Longrightarrow> same_pool (A \<union> B) ns ns''"
  by (simp add: same_pool_def)

lemma same_pool_update: "rest_of v = rest_of (ns ! i) \<Longrightarrow> i \<in> A \<Longrightarrow> same_pool A ns (ns[i := v])"
  by (auto simp: same_pool_def nth_update_total)

lemma same_pool_qty: "same_pool A ns ns' \<Longrightarrow> level_qty ns' xs = level_qty ns xs"
  by (rule level_qty_cong) (simp add: same_pool_def rest_of_def)

lemma link_tail_rep:
  assumes L: "dll ns kNil xs kNil" "distinct xs" "set xs \<subseteq> {..<length ns}" "kNil \<notin> set xs"
    and n: "n < length ns" "n \<notin> set xs" "bo_next (ns ! n) = kNil"
    and lv: "lv_head lv = hd_or kNil xs" "lv_tail lv = last_or kNil xs"
  shows "\<exists>ns'. link_tail n ns lv = (ns', lv\<lparr>lv_head := hd_or n xs, lv_tail := n\<rparr>, xs = []) \<and>
    dll ns' kNil (xs @ [n]) kNil \<and> same_pool (set xs \<union> {n}) ns ns'"
proof (cases "xs = []")
  case True
  with n lv show ?thesis by (auto simp: link_tail_def Let_def intro!: same_pool_update)
next
  case False
  let ?t = "last xs" and ?ns1 = "ns[n := (ns ! n)\<lparr>bo_prev := last xs\<rparr>]"
  let ?ns2 = "?ns1[?t := (?ns1 ! ?t)\<lparr>bo_next := n\<rparr>]"
  have t: "?t \<in> set xs" "?t \<noteq> kNil" "?t \<noteq> n" "lv_tail lv = ?t"
    using False lv L(4) n(2) last_in_set [OF False] by (auto simp only: last_or_def if_False)
  have "dll ?ns1 kNil xs kNil \<longleftrightarrow> dll ns kNil xs kNil"
  proof (rule dll_frame)
    fix x assume "x \<in> set xs"
    with n(2) have "n \<noteq> x" by auto
    then show "bo_prev (?ns1 ! x) = bo_prev (ns ! x) \<and> bo_next (?ns1 ! x) = bo_next (ns ! x)" by simp
  qed
  with L dll_set_end [of ?ns1 kNil xs kNil n] False have "dll ?ns2 kNil xs n" by simp
  moreover have "bo_prev (?ns2 ! n) = last_or kNil xs" "bo_next (?ns2 ! n) = kNil"
    using t n False by (auto simp: last_or_def)
  ultimately have "dll ?ns2 kNil (xs @ [n]) kNil" by (simp add: dll_append)
  moreover have "same_pool ({n} \<union> set xs) ns ?ns2"
    by (rule same_pool_trans [of "{n}" ns ?ns1 "set xs" ?ns2])
       (use t(1) in \<open>auto simp del: last_in_set intro!: same_pool_update\<close>)
  moreover have "hd_or n xs = lv_head lv" using False lv by (cases xs) auto
  ultimately show ?thesis
    using t False by (auto simp: link_tail_def Let_def Un_commute)
qed

lemma unlink_node_rep:
  assumes L: "dll ns kNil (as @ n # bs) kNil" "distinct (as @ n # bs)"
      "set (as @ n # bs) \<subseteq> {..<length ns}" "kNil \<notin> set (as @ n # bs)"
    and lv: "lv_head lv = hd_or kNil (as @ n # bs)" "lv_tail lv = last_or kNil (as @ n # bs)"
  shows "\<exists>ns'. unlink_node n ns lv =
      (ns', lv\<lparr>lv_head := hd_or kNil (as @ bs), lv_tail := last_or kNil (as @ bs)\<rparr>) \<and>
    dll ns' kNil (as @ bs) kNil \<and> same_pool (set as \<union> set bs) ns ns'"
proof -
  have n: "bo_prev (ns ! n) = last_or kNil as" "bo_next (ns ! n) = hd_or kNil bs"
    and A: "dll ns kNil as n" and B: "dll ns n bs kNil"
    using L(1) by (auto simp: dll_append)
  have d: "n \<notin> set as" "n \<notin> set bs" "distinct as" "distinct bs" "set as \<inter> set bs = {}"
    "kNil \<notin> set as" "kNil \<notin> set bs" "n \<noteq> kNil"
    using L(2,4) by auto
  define ns1 where "ns1 = (if as = [] then ns else ns[last as := (ns ! last as)\<lparr>bo_next := hd_or kNil bs\<rparr>])"
  define ns2 where "ns2 = (if bs = [] then ns1 else ns1[hd bs := (ns1 ! hd bs)\<lparr>bo_prev := last_or kNil as\<rparr>])"
  have A1: "dll ns1 kNil as (hd_or kNil bs)"
    using dll_set_end [OF A d(3)] L(3) by (auto simp: ns1_def)
  have off1: "ns1 ! x = ns ! x" if "x \<notin> set as" for x
    using that by (metis last_in_set ns1_def nth_list_update_neq)
  have off2: "ns2 ! x = ns1 ! x" if "x \<notin> set bs" for x
    using that by (metis hd_in_set ns2_def nth_list_update_neq)
  have "dll ns1 n bs kNil"
    using B dll_frame [of bs ns1 ns] off1 d(5) by (metis disjoint_iff)
  then have B2: "dll ns2 (last_or kNil as) bs kNil"
    using dll_set_start [of ns1 n bs kNil "last_or kNil as"] d(4) L(3) by (auto simp: ns2_def ns1_def)
  have "dll ns2 kNil as (hd_or kNil bs)"
    using A1 dll_frame [of as ns2 ns1] off2 d(5) by (metis disjoint_iff)
  with B2 have D: "dll ns2 kNil (as @ bs) kNil" by (simp add: dll_append)
  have "same_pool (set as) ns ns1" "same_pool (set bs) ns1 ns2"
    by (auto simp: ns1_def ns2_def intro!: same_pool_update)
  then have S: "same_pool (set as \<union> set bs) ns ns2" by (rule same_pool_trans)
  have nn: "ns1 ! n = ns ! n" using off1 d(1) .
  have "unlink_node n ns lv =
      (ns2, lv\<lparr>lv_head := hd_or kNil (as @ bs), lv_tail := last_or kNil (as @ bs)\<rparr>)"
  proof (cases as)
    case Nil
    then show ?thesis using n nn lv d
      by (cases bs) (auto simp: unlink_node_def Let_def ns1_def ns2_def)
  next
    case (Cons a as')
    then have "last_or kNil as = last as" "last as \<noteq> kNil" "last_or kNil as \<noteq> kNil"
      using d(6) last_in_set [of as] by (auto simp: last_or_def)
    with Cons show ?thesis using n nn lv d
      by (cases bs) (auto simp: unlink_node_def Let_def ns1_def ns2_def)
  qed
  with D S show ?thesis by blast
qed

section \<open>The price grid\<close>

definition cfg_levels :: "book_config \<Rightarrow> nat" where
  "cfg_levels cfg = nat ((bc_max_price cfg - bc_min_price cfg) div bc_tick_size cfg) + 1"

text \<open>The checks of the constructor, and that ladder indices fit \<open>int32_t\<close> (which it does not check).\<close>

definition cfg_ok :: "book_config \<Rightarrow> bool" where
  "cfg_ok cfg \<longleftrightarrow> bc_tick_size cfg > 0 \<and> bc_min_price cfg \<le> bc_max_price cfg \<and>
     (bc_max_price cfg - bc_min_price cfg) mod bc_tick_size cfg = 0 \<and>
     bc_max_orders cfg \<noteq> 0 \<and> unat (bc_max_orders cfg) < kNil \<and> cfg_levels cfg < 2 ^ 31"

lemma index_of_price_of:
  assumes "cfg_ok cfg" "i < cfg_levels cfg"
  shows "index_of cfg (price_of cfg (int i)) = int i"
proof -
  have "int i < 2 ^ 31" using assms by (simp add: cfg_ok_def)
  then have "sint (word_of_int (int i) :: u32) = int i"
    by (subst sint_sbintrunc') (simp add: signed_take_bit_int_eq_self)
  with assms show ?thesis by (simp add: index_of_def price_of_def cfg_ok_def)
qed

lemma price_of_inj: "cfg_ok cfg \<Longrightarrow> price_of cfg i = price_of cfg j \<longleftrightarrow> i = j"
  by (simp add: price_of_def cfg_ok_def)

lemma price_of_less: "cfg_ok cfg \<Longrightarrow> price_of cfg i < price_of cfg j \<longleftrightarrow> i < j"
  by (simp add: price_of_def cfg_ok_def)

lemma valid_price_iff:
  assumes ok: "cfg_ok (ob_cfg b)"
  shows "valid_price b p \<longleftrightarrow> (\<exists>i<cfg_levels (ob_cfg b). p = price_of (ob_cfg b) (int i))"
proof
  let ?t = "bc_tick_size (ob_cfg b)" and ?lo = "bc_min_price (ob_cfg b)" and ?hi = "bc_max_price (ob_cfg b)"
  have t: "?t > 0" "?lo \<le> ?hi" "(?hi - ?lo) mod ?t = 0" using ok by (auto simp: cfg_ok_def)
  { assume v: "valid_price b p"
    then have p: "?lo \<le> p" "p \<le> ?hi" "(p - ?lo) mod ?t = 0" by (auto simp: valid_price_def)
    let ?k = "(p - ?lo) div ?t"
    have "?k \<le> (?hi - ?lo) div ?t" "0 \<le> ?k"
      using p t by (auto intro: zdiv_mono1 simp: pos_imp_zdiv_nonneg_iff)
    then have "nat ?k < cfg_levels (ob_cfg b)" by (simp add: cfg_levels_def less_Suc_eq_le nat_le_eq_zle)
    moreover have "p = ?lo + ?k * ?t" using p(3) div_mult_mod_eq [of "p - ?lo" ?t] by simp
    ultimately show "\<exists>i<cfg_levels (ob_cfg b). p = price_of (ob_cfg b) (int i)"
      using \<open>0 \<le> ?k\<close> by (intro exI [of _ "nat ?k"]) (simp add: price_of_def) }
  { assume "\<exists>i<cfg_levels (ob_cfg b). p = price_of (ob_cfg b) (int i)"
    then obtain i where i: "i < cfg_levels (ob_cfg b)" "p = ?lo + int i * ?t" by (auto simp: price_of_def)
    have "0 \<le> (?hi - ?lo) div ?t" using t by (simp add: pos_imp_zdiv_nonneg_iff)
    then have "int i \<le> (?hi - ?lo) div ?t" using i(1) by (simp add: cfg_levels_def)
    then have "int i * ?t \<le> (?hi - ?lo) div ?t * ?t" using t by simp
    also have "\<dots> = ?hi - ?lo" using t(3) div_mult_mod_eq [of "?hi - ?lo" ?t] by simp
    finally show "valid_price b p" using i(2) t by (simp add: valid_price_def) }
qed

section \<open>The invariant\<close>

type_synonym queues = "side \<Rightarrow> nat \<Rightarrow> nat list"

definition queued :: "queues \<Rightarrow> nat \<Rightarrow> bool" where
  "queued Q x \<longleftrightarrow> (\<exists>s i. x \<in> set (Q s i))"

definition node_ok :: "order_book \<Rightarrow> side \<Rightarrow> nat \<Rightarrow> nat \<Rightarrow> bool" where
  "node_ok b s i x \<longleftrightarrow> x < length (ob_nodes b) \<and> bo_side (ob_nodes b ! x) = s \<and>
     bo_price (ob_nodes b ! x) = price_of (ob_cfg b) (int i) \<and> bo_qty (ob_nodes b ! x) \<noteq> 0 \<and>
     fm_find (ob_ids b) (bo_id (ob_nodes b ! x)) = Some x"

definition ids_rep :: "order_book \<Rightarrow> queues \<Rightarrow> bool" where
  "ids_rep b Q \<longleftrightarrow> fm_inv (ob_ids b) \<and> fm_max_entries (ob_ids b) = length (ob_nodes b) \<and>
     (\<forall>k x. fm_find (ob_ids b) k = Some x \<longrightarrow> bo_id (ob_nodes b ! x) = k \<and> queued Q x)"

definition free_rep :: "order_book \<Rightarrow> queues \<Rightarrow> nat list \<Rightarrow> bool" where
  "free_rep b Q F \<longleftrightarrow> ob_free_head b = hd_or kNil F \<and> chain (ob_nodes b) F \<and> distinct F \<and>
     (\<forall>x. x \<in> set F \<longleftrightarrow> x < length (ob_nodes b) \<and> \<not> queued Q x) \<and>
     ob_live b + length F = length (ob_nodes b)"

definition book_rep :: "order_book \<Rightarrow> queues \<Rightarrow> nat list \<Rightarrow> bool" where
  "book_rep b Q F \<longleftrightarrow> cfg_ok (ob_cfg b) \<and> ob_levels_per_side b = cfg_levels (ob_cfg b) \<and>
     length (ob_nodes b) = unat (bc_max_orders (ob_cfg b)) \<and>
     (\<forall>s. ladder_rep (ob_nodes b) (ob_levels_per_side b) s (ladder_of s b) (Q s)) \<and>
     (\<forall>s i x. x \<in> set (Q s i) \<longrightarrow> node_ok b s i x) \<and> ids_rep b Q \<and> free_rep b Q F"

definition book_inv :: "order_book \<Rightarrow> bool" where
  "book_inv b \<longleftrightarrow> (\<exists>Q F. book_rep b Q F)"

lemma book_repD:
  assumes "book_rep b Q F"
  shows "cfg_ok (ob_cfg b)" "ob_levels_per_side b = cfg_levels (ob_cfg b)"
    "length (ob_nodes b) = unat (bc_max_orders (ob_cfg b))" "length (ob_nodes b) < kNil"
    "ladder_rep (ob_nodes b) (ob_levels_per_side b) s (ladder_of s b) (Q s)"
    "x \<in> set (Q s i) \<Longrightarrow> node_ok b s i x" "ids_rep b Q" "free_rep b Q F"
  using assms unfolding book_rep_def cfg_ok_def by metis+

lemma queued_unique:
  assumes "book_rep b Q F" "x \<in> set (Q s i)" "x \<in> set (Q t j)"
  shows "s = t \<and> i = j"
  using book_repD(6) [OF assms(1,2)] book_repD(6) [OF assms(1,3)] price_of_inj [OF book_repD(1) [OF assms(1)]]
  by (auto simp: node_ok_def)

lemma queue_level:
  assumes "book_rep b Q F" "x \<in> set (Q s i)"
  shows "i < ob_levels_per_side b"
  using book_repD(5) [OF assms(1), of s] assms(2) by (cases "i < ob_levels_per_side b") (auto simp: ladder_rep_def)

lemma queue_bounds:
  assumes "book_rep b Q F"
  shows "set (Q s i) \<subseteq> {..<length (ob_nodes b)}" "kNil \<notin> set (Q s i)"
  using book_repD(4) [OF assms] book_repD(6) [OF assms, of _ s i]
  by (auto simp: node_ok_def subset_iff dest: less_not_sym)

lemma queue_level_rep:
  assumes "book_rep b Q F" "i < ob_levels_per_side b"
  shows "level_rep (ob_nodes b) (ld_levels (ladder_of s b) ! i) (Q s i)"
  using book_repD(5) [OF assms(1), of s] assms(2) by (simp add: ladder_rep_def)

lemma set_ladder_sel [simp]:
  "ladder_of t (set_ladder s l b) = (if t = s then l else ladder_of t b)"
  "ob_cfg (set_ladder s l b) = ob_cfg b" "ob_levels_per_side (set_ladder s l b) = ob_levels_per_side b"
  "ob_nodes (set_ladder s l b) = ob_nodes b" "ob_free_head (set_ladder s l b) = ob_free_head b"
  "ob_live (set_ladder s l b) = ob_live b" "ob_ids (set_ladder s l b) = ob_ids b"
  by (cases s; cases t; simp add: ladder_of_def set_ladder_def)+

lemma ladder_of_upd [simp]:
  "ladder_of s (b\<lparr>ob_nodes := ns\<rparr>) = ladder_of s b" "ladder_of s (b\<lparr>ob_free_head := f\<rparr>) = ladder_of s b"
  "ladder_of s (b\<lparr>ob_live := n\<rparr>) = ladder_of s b" "ladder_of s (b\<lparr>ob_ids := m\<rparr>) = ladder_of s b"
  by (simp_all add: ladder_of_def)

section \<open>Operations on the ghost state\<close>

definition upd :: "queues \<Rightarrow> side \<Rightarrow> nat \<Rightarrow> nat list \<Rightarrow> queues" where
  "upd Q s i xs = Q(s := (Q s)(i := xs))"

lemma upd_apply: "upd Q s i xs t j = (if t = s \<and> j = i then xs else Q t j)"
  by (simp add: upd_def)

lemma upd_same [simp]: "upd Q s i (Q s i) = Q"
  by (simp add: upd_def)

lemma queued_upd: "queued (upd Q s i xs) x \<longleftrightarrow> x \<in> set xs \<or> (\<exists>t j. (t \<noteq> s \<or> j \<noteq> i) \<and> x \<in> set (Q t j))"
proof
  assume "queued (upd Q s i xs) x"
  then obtain t j where "x \<in> set (upd Q s i xs t j)" by (auto simp: queued_def)
  then show "x \<in> set xs \<or> (\<exists>t j. (t \<noteq> s \<or> j \<noteq> i) \<and> x \<in> set (Q t j))"
    by (cases "t = s \<and> j = i") (auto simp: upd_apply)
next
  assume "x \<in> set xs \<or> (\<exists>t j. (t \<noteq> s \<or> j \<noteq> i) \<and> x \<in> set (Q t j))"
  then have "\<exists>t j. x \<in> set (upd Q s i xs t j)" by (metis upd_apply)
  then show "queued (upd Q s i xs) x" by (simp add: queued_def)
qed

lemma book_rep_update:
  assumes R: "book_rep b Q F"
    and b': "ob_cfg b' = ob_cfg b" "ob_levels_per_side b' = ob_levels_per_side b"
      "\<And>t. t \<noteq> s \<Longrightarrow> ladder_of t b' = ladder_of t b" "length (ob_nodes b') = length (ob_nodes b)"
    and s: "ladder_rep (ob_nodes b') (ob_levels_per_side b) s (ladder_of s b') ((Q s)(i := xs))"
    and other: "\<And>t j x. t \<noteq> s \<or> j \<noteq> i \<Longrightarrow> x \<in> set (Q t j) \<Longrightarrow> ob_nodes b' ! x = ob_nodes b ! x"
    and ids: "\<And>t j x. t \<noteq> s \<or> j \<noteq> i \<Longrightarrow> x \<in> set (Q t j) \<Longrightarrow>
      fm_find (ob_ids b') (bo_id (ob_nodes b ! x)) = Some x"
    and new: "\<And>x. x \<in> set xs \<Longrightarrow> node_ok b' s i x"
    and rest: "ids_rep b' (upd Q s i xs)" "free_rep b' (upd Q s i xs) F'"
  shows "book_rep b' (upd Q s i xs) F'"
proof -
  note R = book_repD [OF R]
  have "ladder_rep (ob_nodes b') (ob_levels_per_side b) t (ladder_of t b') (upd Q s i xs t)" for t
  proof (cases "t = s")
    case False
    then have "ladder_rep (ob_nodes b') (ob_levels_per_side b) t (ladder_of t b) (Q t)"
      using other by (intro ladder_rep_frame [OF R(5)]) blast
    with False b'(3) show ?thesis by (simp add: upd_def)
  qed (use s in \<open>simp add: upd_def\<close>)
  moreover have "node_ok b' t j x" if "x \<in> set (upd Q s i xs t j)" for t j x
  proof (cases "t = s \<and> j = i")
    case False
    then have "x \<in> set (Q t j)" using that by (auto simp: upd_apply split: if_splits)
    with R(6) [OF this] other ids False b' show ?thesis by (simp add: node_ok_def)
  qed (use that new in \<open>auto simp: upd_apply\<close>)
  ultimately show ?thesis
    unfolding book_rep_def using R(1,2,3) b' rest by auto
qed

lemma ids_card:
  assumes "book_rep b Q F"
  shows "card (dom (fm_find (ob_ids b))) + length F \<le> length (ob_nodes b)"
proof -
  let ?N = "length (ob_nodes b)" and ?f = "\<lambda>k. the (fm_find (ob_ids b) k)"
  note I = book_repD(7) [OF assms] and G = book_repD(8) [OF assms]
  have "inj_on ?f (dom (fm_find (ob_ids b)))"
    using I by (intro inj_onI) (auto simp: ids_rep_def, metis)
  moreover have "?f ` dom (fm_find (ob_ids b)) \<subseteq> {..<?N} - set F"
  proof
    fix x assume "x \<in> ?f ` dom (fm_find (ob_ids b))"
    then have q: "queued Q x" using I by (auto simp: ids_rep_def)
    then have "x < ?N" using book_repD(6) [OF assms] by (auto simp: queued_def node_ok_def)
    with q G show "x \<in> {..<?N} - set F" by (simp add: free_rep_def)
  qed
  ultimately have "card (dom (fm_find (ob_ids b))) \<le> card ({..<?N} - set F)"
    by (simp add: card_inj_on_le)
  also have "\<dots> = ?N - length F"
    using G by (subst card_Diff_subset) (auto simp: free_rep_def distinct_card)
  finally show ?thesis using G unfolding free_rep_def by linarith
qed

text \<open>A successful \<open>add\<close> appends the first free node to its queue.\<close>

lemma add_rep:
  assumes R: "book_rep b Q (n # F)" and i: "i < ob_levels_per_side b" and q: "q \<noteq> 0"
    and k: "k \<noteq> 0" "fm_find (ob_ids b) k = None"
  shows "\<exists>b'. ob_add k s (price_of (ob_cfg b) (int i)) q ow ur b = (AddOk, b') \<and>
    book_rep b' (upd Q s i (Q s i @ [n])) F \<and>
    rest_of (ob_nodes b' ! n) = \<lparr>ro_id = k, ro_price = price_of (ob_cfg b) (int i), ro_qty = q,
      ro_owner = ow, ro_user_ref = ur, ro_side = s\<rparr> \<and>
    (\<forall>x. x \<noteq> n \<longrightarrow> rest_of (ob_nodes b' ! x) = rest_of (ob_nodes b ! x)) \<and>
    ob_cfg b' = ob_cfg b \<and> ob_levels_per_side b' = ob_levels_per_side b"
proof -
  let ?p = "price_of (ob_cfg b) (int i)" and ?xs = "Q s i" and ?l = "ladder_of s b"
  let ?lv = "ld_levels ?l ! i"
  note D = book_repD [OF R]
  have fr: "ob_free_head b = n" "bo_next (ob_nodes b ! n) = hd_or kNil F" "chain (ob_nodes b) F"
    "n \<notin> set F" "distinct F" "n < length (ob_nodes b)" "\<not> queued Q n"
    "ob_live b + Suc (length F) = length (ob_nodes b)"
    using D(8) by (auto simp: free_rep_def)
  have nx: "n \<notin> set (Q t j)" for t j using fr(7) by (auto simp: queued_def)
  define o1 where "o1 = (ob_nodes b ! n)\<lparr>bo_id := k, bo_price := ?p, bo_qty := q, bo_owner := ow,
    bo_user_ref := ur, bo_side := s, bo_next := kNil\<rparr>"
  define ns1 where "ns1 = (ob_nodes b)[n := o1]"
  have ns1: "length ns1 = length (ob_nodes b)" "ns1 ! n = o1" "x \<noteq> n \<Longrightarrow> ns1 ! x = ob_nodes b ! x" for x
    using fr(6) by (auto simp: ns1_def)
  have lv: "level_rep (ob_nodes b) ?lv ?xs" using queue_level_rep [OF R i] .
  then have lv1: "level_rep ns1 ?lv ?xs" by (rule level_rep_frame) (metis ns1(3) nx)
  obtain ns2 where ns2: "link_tail n ns1 ?lv = (ns2, ?lv\<lparr>lv_head := hd_or n ?xs, lv_tail := n\<rparr>, ?xs = [])"
    "dll ns2 kNil (?xs @ [n]) kNil" "same_pool (set ?xs \<union> {n}) ns1 ns2"
    using link_tail_rep [of ns1 ?xs n ?lv] lv1 queue_bounds [OF R, of s i] nx [of s i] fr(6) ns1(1,2)
    by (auto simp: level_rep_def o1_def)
  obtain ids where ids: "fm_insert k n (ob_ids b) = (True, ids)" "fm_inv ids"
    "fm_find ids = (fm_find (ob_ids b))(k \<mapsto> n)" "fm_max_entries ids = fm_max_entries (ob_ids b)"
    using fm_insert_new [of "ob_ids b" k n] D(7) k ids_card [OF R] fm_size_card [of "ob_ids b"]
    by (auto simp: ids_rep_def)
  define lv' where "lv' = ?lv\<lparr>lv_head := hd_or n ?xs, lv_tail := n, lv_qty := lv_qty ?lv + ucast q,
    lv_count := lv_count ?lv + 1\<rparr>"
  define l' where "l' = \<lparr>ld_levels = (ld_levels ?l)[i := lv'],
    ld_bits = (if ?xs = [] then bitmap_set (ld_bits ?l) i else ld_bits ?l),
    ld_best = (if ld_best ?l < 0 \<or> (if s = Buy then int i > ld_best ?l else int i < ld_best ?l)
               then int i else ld_best ?l)\<rparr>"
  define b' where "b' = (set_ladder s l' b)\<lparr>ob_nodes := ns2, ob_free_head := hd_or kNil F,
    ob_live := ob_live b + 1, ob_ids := ids\<rparr>"
  have idx: "index_of (ob_cfg b) ?p = int i" using index_of_price_of [OF D(1)] i D(2) by simp
  have "valid_price b ?p" using valid_price_iff [OF D(1)] i D(2) by auto
  moreover have "n \<noteq> kNil" using fr(6) D(4) by simp
  ultimately have run: "ob_add k s ?p q ow ur b = (AddOk, b')"
    using q fr(1,2) ids(1) idx ns2(1)
    by (simp add: ob_add_def Let_def b'_def l'_def lv'_def ns1_def o1_def)
  have sp: "length ns2 = length (ob_nodes b)" "x \<notin> set ?xs \<Longrightarrow> x \<noteq> n \<Longrightarrow> ns2 ! x = ob_nodes b ! x"
    "rest_of (ns2 ! x) = rest_of (ns1 ! x)" for x
    using ns2(3) ns1 by (auto simp: same_pool_def)
  have n2: "bo_id (ns2 ! n) = k" "bo_price (ns2 ! n) = ?p" "bo_qty (ns2 ! n) = q" "bo_side (ns2 ! n) = s"
    "rest_of (ns2 ! n) = \<lparr>ro_id = k, ro_price = ?p, ro_qty = q, ro_owner = ow, ro_user_ref = ur, ro_side = s\<rparr>"
    using rest_of_eqD [OF sp(3) [of n]] sp(3) [of n] ns1(2) by (auto simp: o1_def rest_of_def)
  have keep: "x \<noteq> n \<Longrightarrow> rest_of (ns2 ! x) = rest_of (ob_nodes b ! x)" for x
    using sp(3) ns1(3) by simp
  have "level_qty ns2 ?xs = level_qty (ob_nodes b) ?xs"
    by (rule level_qty_cong) (metis keep nx rest_of_eqD)
  then have level': "level_rep ns2 lv' (?xs @ [n])"
    using lv ns2(2) nx n2(3) by (simp add: level_rep_def lv'_def)
  have lad: "ladder_rep ns2 (ob_levels_per_side b) s l' ((Q s)(i := ?xs @ [n]))"
    unfolding l'_def
  proof (rule ladder_rep_update [OF D(5) i level'])
    show "ns2 ! x = ob_nodes b ! x" if "j \<noteq> i" "x \<in> set (Q s j)" for j x
      using queued_unique [OF R that(2), of s i] that nx by (intro sp(2)) auto
    have "i < 64 * length (ld_bits ?l)" using D(5) [of s] i by (simp add: ladder_rep_def)
    then show "bset (if ?xs = [] then bitmap_set (ld_bits ?l) i else ld_bits ?l) j \<longleftrightarrow>
        (if j = i then ?xs @ [n] \<noteq> [] else bset (ld_bits ?l) j)" for j
      using D(5) [of s] by (auto simp: bset_set ladder_rep_def)
    show "is_best s (\<lambda>j. ((Q s)(i := ?xs @ [n])) j \<noteq> [])
      (if ld_best ?l < 0 \<or> (if s = Buy then int i > ld_best ?l else int i < ld_best ?l)
       then int i else ld_best ?l)"
      using D(5) [of s] by (intro is_best_add) (auto simp: ladder_rep_def)
  qed simp
  have q': "queued (upd Q s i (?xs @ [n])) x \<longleftrightarrow> x = n \<or> queued Q x" for x
    unfolding queued_upd by (auto simp: queued_def)
  have idk: "bo_id (ob_nodes b ! x) \<noteq> k" if "x \<in> set (Q t j)" for t j x
    using D(6) [OF that] k(2) by (auto simp: node_ok_def)
  have rep: "book_rep b' (upd Q s i (?xs @ [n])) F"
  proof (rule book_rep_update [OF R])
    show "ob_nodes b' ! x = ob_nodes b ! x" if "t \<noteq> s \<or> j \<noteq> i" "x \<in> set (Q t j)" for t j x
      using queued_unique [OF R that(2), of s i] that nx sp(2) [of x] by (auto simp: b'_def)
    show "fm_find (ob_ids b') (bo_id (ob_nodes b ! x)) = Some x" if "x \<in> set (Q t j)" for t j x
      using D(6) [OF that] idk [OF that] by (simp add: b'_def ids node_ok_def)
    show "node_ok b' s i x" if "x \<in> set (?xs @ [n])" for x
    proof (cases "x = n")
      case True
      then show ?thesis using n2 q fr(6) sp(1) ids by (simp add: node_ok_def b'_def)
    next
      case False
      then have "x \<in> set ?xs" using that by simp
      from D(6) [OF this] idk [OF this] rest_of_eqD [OF keep [OF False]] show ?thesis
        by (simp add: node_ok_def b'_def sp(1) ids)
    qed
    have "bo_id (ob_nodes b' ! x) = c \<and> queued (upd Q s i (?xs @ [n])) x"
      if f: "fm_find (ob_ids b') c = Some x" for c x
    proof (cases "c = k")
      case False
      then have "bo_id (ob_nodes b ! x) = c" "queued Q x" using f D(7) by (auto simp: b'_def ids ids_rep_def)
      moreover from this have "x \<noteq> n" using fr(7) by auto
      ultimately show ?thesis using q' rest_of_eqD [OF keep] by (simp add: b'_def)
    qed (use f n2 q' in \<open>auto simp: b'_def ids\<close>)
    then show "ids_rep b' (upd Q s i (?xs @ [n]))"
      using ids D(7) sp(1) by (simp add: b'_def ids_rep_def)
    have "chain ns2 F \<longleftrightarrow> chain (ob_nodes b) F"
      by (rule chain_frame) (metis D(8) fr(4) free_rep_def list.set_intros(2) queued_def sp(2))
    then show "free_rep b' (upd Q s i (?xs @ [n])) F"
      using fr D(8) by (auto simp: free_rep_def b'_def sp(1) q')
  qed (use sp(1) lad in \<open>auto simp: b'_def\<close>)
  show ?thesis using run rep n2(5) keep by (auto simp: b'_def)
qed

lemma settle_level_rep:
  assumes L: "ladder_rep ns L s l Q" "i < L" "Q i \<noteq> []"
    and lv: "lv_count lv = of_nat (length xs)" "length xs < 2 ^ 32" "xs \<noteq> [] \<Longrightarrow> level_rep ns' lv xs"
    and frame: "\<And>j x. j \<noteq> i \<Longrightarrow> x \<in> set (Q j) \<Longrightarrow> ns' ! x = ns ! x"
  shows "ladder_rep ns' L s (settle_level s (int i) lv l) (Q(i := xs))"
proof -
  have c0: "lv_count lv = 0 \<longleftrightarrow> xs = []"
    using lv(1,2) by (simp add: word_of_nat_eq_0_iff) (auto dest: nat_dvd_not_less)
  have bits: "i < 64 * length (ld_bits l)" "bset (ld_bits l) j \<longleftrightarrow> Q j \<noteq> []"
    and best: "is_best s (\<lambda>j. Q j \<noteq> []) (ld_best l)" for j
    using L by (auto simp: ladder_rep_def)
  show ?thesis
  proof (cases "xs = []")
    case False
    have "ladder_rep ns' L s \<lparr>ld_levels = (ld_levels l)[i := lv], ld_bits = ld_bits l, ld_best = ld_best l\<rparr>
        (Q(i := xs))"
      by (rule ladder_rep_update [OF L(1,2) lv(3) [OF False] frame _ _ is_best_keep [OF best L(3) False]])
        (use False L(3) bits in auto)
    with False c0 show ?thesis by (cases l) (simp add: settle_level_def)
  next
    case True
    let ?lv = "lv\<lparr>lv_head := kNil, lv_tail := kNil, lv_qty := 0\<rparr>" and ?bits = "bitmap_clear (ld_bits l) i"
    let ?l = "l\<lparr>ld_levels := (ld_levels l)[i := ?lv], ld_bits := ?bits\<rparr>"
    let ?best = "if int i = ld_best l then next_worse s ?l (int i) else ld_best l"
    have bb: "bset ?bits j \<longleftrightarrow> (Q(i := [])) j \<noteq> []" for j using bits by (simp add: bset_clear)
    have nb: "is_best s (\<lambda>j. (Q(i := [])) j \<noteq> []) ?best"
    proof (cases "int i = ld_best l")
      case True
      have "better s i j" if "(Q(i := [])) j \<noteq> []" for j
        using that best True better_total [of s i j] unfolding is_best_def by (auto split: if_splits)
      then have "is_best s (\<lambda>j. (Q(i := [])) j \<noteq> []) (next_worse s ?l (int i))"
        by (intro next_worse_best) (use bits(1) bb in auto)
      with True show ?thesis by simp
    next
      case False
      then have "is_best s (\<lambda>j. (Q(i := [])) j \<noteq> []) (ld_best l)"
        by (intro is_best_other [OF best]) (use L(3) in auto)
      with False show ?thesis by simp
    qed
    have "level_rep ns' ?lv []" using lv(1) True by (simp add: level_rep_def)
    then have "ladder_rep ns' L s \<lparr>ld_levels = (ld_levels l)[i := ?lv], ld_bits = ?bits, ld_best = ?best\<rparr>
        (Q(i := []))"
      by (rule ladder_rep_update [OF L(1,2) _ frame]) (use bits bb nb in auto)
    with True c0 show ?thesis by (cases l) (simp add: settle_level_def Let_def split: if_splits)
  qed
qed

lemma queue_length:
  assumes "book_rep b Q F"
  shows "length (Q s i) < 2 ^ 32"
proof (cases "i < ob_levels_per_side b")
  case True
  then have "distinct (Q s i)" using queue_level_rep [OF assms] by (simp add: level_rep_def)
  then have "length (Q s i) = card (set (Q s i))" by (simp add: distinct_card)
  also have "\<dots> \<le> card {..<length (ob_nodes b)}" by (rule card_mono) (use queue_bounds [OF assms] in auto)
  finally show ?thesis using book_repD(4) [OF assms] by (simp add: kNil_def)
next
  case False
  then show ?thesis using book_repD(5) [OF assms, of s] by (simp add: ladder_rep_def)
qed

text \<open>\<open>unlink_and_free\<close> takes a node out of its queue and makes it the first free node.\<close>

lemma unlink_rep:
  assumes R: "book_rep b Q F" and x: "Q s i = as @ n # bs"
  shows "book_rep (unlink_and_free n b) (upd Q s i (as @ bs)) (n # F) \<and>
    (\<forall>x. rest_of (ob_nodes (unlink_and_free n b) ! x) = rest_of (ob_nodes b ! x)) \<and>
    ob_cfg (unlink_and_free n b) = ob_cfg b \<and>
    ob_levels_per_side (unlink_and_free n b) = ob_levels_per_side b"
proof -
  let ?l = "ladder_of s b" and ?b' = "unlink_and_free n b"
  let ?lv = "ld_levels ?l ! i"
  note D = book_repD [OF R]
  have nq: "n \<in> set (Q s i)" using x by simp
  have i: "i < ob_levels_per_side b" using queue_level [OF R nq] .
  have ok: "bo_side (ob_nodes b ! n) = s" "bo_price (ob_nodes b ! n) = price_of (ob_cfg b) (int i)"
    "n < length (ob_nodes b)" "fm_find (ob_ids b) (bo_id (ob_nodes b ! n)) = Some n"
    using D(6) [OF nq] by (auto simp: node_ok_def)
  have idx: "index_of (ob_cfg b) (bo_price (ob_nodes b ! n)) = int i"
    using index_of_price_of [OF D(1)] i D(2) ok(2) by simp
  have lv: "level_rep (ob_nodes b) ?lv (as @ n # bs)" using queue_level_rep [OF R i] x by metis
  obtain ns where ns: "unlink_node n (ob_nodes b) ?lv =
      (ns, ?lv\<lparr>lv_head := hd_or kNil (as @ bs), lv_tail := last_or kNil (as @ bs)\<rparr>)"
    "dll ns kNil (as @ bs) kNil" "same_pool (set as \<union> set bs) (ob_nodes b) ns"
    using unlink_node_rep [of "ob_nodes b" as n bs ?lv] lv queue_bounds [OF R, of s i] x
    by (auto simp: level_rep_def)
  have d: "n \<notin> set as" "n \<notin> set bs" "distinct (as @ bs)" using lv by (auto simp: level_rep_def)
  have nn: "ns ! n = ob_nodes b ! n" using ns(3) d by (simp add: same_pool_def)
  define ns2 where "ns2 = ns[n := (ns ! n)\<lparr>bo_next := ob_free_head b\<rparr>]"
  have ns2: "length ns2 = length (ob_nodes b)" "\<And>x. x \<noteq> n \<Longrightarrow> ns2 ! x = ns ! x"
    "bo_next (ns2 ! n) = ob_free_head b" "rest_of (ns2 ! x) = rest_of (ob_nodes b ! x)" for x
    using ns(3) ok(3) by (auto simp: ns2_def same_pool_def nth_update_total)
  have off: "ns2 ! y = ob_nodes b ! y" if "y \<notin> set (Q s i)" for y
    using that ns(3) ns2(2) [of y] x by (auto simp: same_pool_def)
  define lv' where "lv' = ?lv\<lparr>lv_head := hd_or kNil (as @ bs), lv_tail := last_or kNil (as @ bs),
    lv_qty := lv_qty ?lv - ucast (bo_qty (ob_nodes b ! n)), lv_count := lv_count ?lv - 1\<rparr>"
  obtain ids where ids: "fm_erase (bo_id (ob_nodes b ! n)) (ob_ids b) = (True, ids)" "fm_inv ids"
    "fm_find ids = (fm_find (ob_ids b))(bo_id (ob_nodes b ! n) := None)"
    "fm_max_entries ids = fm_max_entries (ob_ids b)"
    using fm_erase_present [OF _ ok(4)] D(7) unfolding ids_rep_def by blast
  have run: "?b' = (set_ladder s (settle_level s (int i) lv' ?l) b)\<lparr>ob_ids := ids, ob_nodes := ns2,
      ob_free_head := n, ob_live := ob_live b - 1\<rparr>"
    using ns(1) nn ids(1) by (simp add: unlink_and_free_def Let_def ok(1) idx lv'_def ns2_def)
  have "dll ns2 kNil (as @ bs) kNil \<longleftrightarrow> dll ns kNil (as @ bs) kNil"
    by (rule dll_frame) (metis Un_iff d(1,2) ns2(2) set_append)
  moreover have "level_qty ns2 xs = level_qty (ob_nodes b) xs" for xs
    by (rule level_qty_cong) (metis ns2(4) rest_of_eqD)
  ultimately have level': "level_rep ns2 lv' (as @ bs)"
    using lv ns(2) d by (simp add: level_rep_def lv'_def)
  have lad: "ladder_rep ns2 (ob_levels_per_side b) s (settle_level s (int i) lv' ?l) ((Q s)(i := as @ bs))"
  proof (rule settle_level_rep [OF D(5) i])
    show "lv_count lv' = of_nat (length (as @ bs))" using level' by (simp add: level_rep_def)
    show "length (as @ bs) < 2 ^ 32" using queue_length [OF R, of s i] x by simp
    show "ns2 ! y = ob_nodes b ! y" if "j \<noteq> i" "y \<in> set (Q s j)" for j y
      using queued_unique [OF R that(2), of s i] that by (intro off) auto
  qed (use x level' in auto)
  have uq: "y \<in> set (Q t j) \<Longrightarrow> t \<noteq> s \<or> j \<noteq> i \<Longrightarrow> y \<noteq> n" for y t j
    using queued_unique [OF R nq] by blast
  have q': "queued (upd Q s i (as @ bs)) y \<longleftrightarrow> queued Q y \<and> y \<noteq> n" for y
  proof
    assume "queued (upd Q s i (as @ bs)) y"
    then consider "y \<in> set (as @ bs)" | t j where "t \<noteq> s \<or> j \<noteq> i" "y \<in> set (Q t j)"
      unfolding queued_upd by blast
    then show "queued Q y \<and> y \<noteq> n"
    proof cases
      case 1
      then have "y \<in> set (Q s i)" "y \<noteq> n" using x d by auto
      then show ?thesis by (auto simp: queued_def)
    next
      case 2
      then show ?thesis using uq by (auto simp: queued_def)
    qed
  next
    assume y: "queued Q y \<and> y \<noteq> n"
    then obtain t j where "y \<in> set (Q t j)" by (auto simp: queued_def)
    then show "queued (upd Q s i (as @ bs)) y"
      using y x by (cases "t = s \<and> j = i") (auto simp: queued_upd)
  qed
  have idk: "bo_id (ob_nodes b ! y) \<noteq> bo_id (ob_nodes b ! n)" if "y \<in> set (Q t j)" "y \<noteq> n" for y t j
    using D(6) [OF that(1)] ok(4) that(2) by (auto simp: node_ok_def)
  have "book_rep ?b' (upd Q s i (as @ bs)) (n # F)"
  proof (rule book_rep_update [OF R])
    show "ob_nodes ?b' ! y = ob_nodes b ! y" if "t \<noteq> s \<or> j \<noteq> i" "y \<in> set (Q t j)" for t j y
      using queued_unique [OF R that(2), of s i] that off [of y] by (auto simp: run)
    show "fm_find (ob_ids ?b') (bo_id (ob_nodes b ! y)) = Some y" if "t \<noteq> s \<or> j \<noteq> i" "y \<in> set (Q t j)" for t j y
      using D(6) [OF that(2)] idk [OF that(2) uq [OF that(2,1)]] by (simp add: run ids node_ok_def)
    show "node_ok ?b' s i y" if "y \<in> set (as @ bs)" for y
    proof -
      have y: "y \<in> set (Q s i)" "y \<noteq> n" using that x d by auto
      from D(6) [OF y(1)] idk [OF y] rest_of_eqD [OF ns2(4) [of y]] show ?thesis
        by (simp add: node_ok_def run ns2(1) ids)
    qed
    have "bo_id (ns2 ! y) = c \<and> queued (upd Q s i (as @ bs)) y" if "fm_find ids c = Some y" for c y
    proof -
      have "fm_find (ob_ids b) c = Some y" "c \<noteq> bo_id (ob_nodes b ! n)"
        using that by (auto simp: ids split: if_splits)
      then show ?thesis using D(7) q' rest_of_eqD [OF ns2(4) [of y]] by (auto simp: ids_rep_def)
    qed
    then show "ids_rep ?b' (upd Q s i (as @ bs))"
      using ids D(7) ns2(1) by (simp add: run ids_rep_def)
    have nF: "n \<notin> set F" "y \<in> set F \<Longrightarrow> y \<notin> set (Q s i)" for y
      using D(8) nq by (auto simp: free_rep_def queued_def)
    have "chain ns2 F \<longleftrightarrow> chain (ob_nodes b) F" by (rule chain_frame) (use nF off in simp)
    moreover have "length F < length (ob_nodes b)"
    proof -
      have "set F \<subseteq> {..<length (ob_nodes b)} - {n}" using D(8) nF by (auto simp: free_rep_def)
      then have "card (set F) \<le> card ({..<length (ob_nodes b)} - {n})" by (intro card_mono) auto
      then show ?thesis using ok(3) D(8) by (simp add: free_rep_def distinct_card)
    qed
    moreover have "queued Q n" using nq by (auto simp: queued_def)
    moreover have fr: "ob_free_head b = hd_or kNil F" "chain (ob_nodes b) F" "distinct F"
      "y \<in> set F \<longleftrightarrow> y < length (ob_nodes b) \<and> \<not> queued Q y"
      "ob_live b + length F = length (ob_nodes b)" for y
      using D(8) by (auto simp: free_rep_def)
    moreover have "y \<in> set (n # F) \<longleftrightarrow> y < length (ob_nodes b) \<and> \<not> (queued Q y \<and> y \<noteq> n)" for y
      using ok(3) fr(4) [of y] by (cases "y = n") simp_all
    ultimately show "free_rep ?b' (upd Q s i (as @ bs)) (n # F)"
      unfolding free_rep_def run q' using ns2(1,3) nF(1) by simp
  qed (use ns2(1) lad in \<open>auto simp: run\<close>)
  moreover have "ob_nodes ?b' = ns2" "ob_cfg ?b' = ob_cfg b" "ob_levels_per_side ?b' = ob_levels_per_side b"
    by (simp_all add: run)
  ultimately show ?thesis using ns2(4) by simp
qed

text \<open>Fewer shares on a node that stays.\<close>

lemma ucast_sub_le: "(a :: u32) \<le> q \<Longrightarrow> (ucast (q - a) :: u64) = ucast q - ucast a"
proof -
  assume a: "a \<le> q"
  have u: "(ucast w :: u64) = of_nat (unat w)" for w :: u32 by (simp add: word_eq_iff_unsigned)
  from a show ?thesis unfolding u by (simp add: unat_sub word_le_nat_alt of_nat_diff)
qed

lemma shrink_rep:
  assumes R: "book_rep b Q F" and x: "x \<in> set (Q s i)" and a: "amt < bo_qty (ob_nodes b ! x)"
  defines "b' \<equiv> shrink_node x amt s (int i) b"
  shows "book_rep b' Q F"
    "rest_of (ob_nodes b' ! x) = (rest_of (ob_nodes b ! x))\<lparr>ro_qty := bo_qty (ob_nodes b ! x) - amt\<rparr>"
    "y \<noteq> x \<Longrightarrow> ob_nodes b' ! y = ob_nodes b ! y"
    "ob_cfg b' = ob_cfg b" "ob_levels_per_side b' = ob_levels_per_side b"
proof -
  let ?ns = "ob_nodes b" and ?l = "ladder_of s b"
  let ?ns' = "?ns[x := (?ns ! x)\<lparr>bo_qty := bo_qty (?ns ! x) - amt\<rparr>]"
  let ?lv = "(ld_levels ?l ! i)\<lparr>lv_qty := lv_qty (ld_levels ?l ! i) - ucast amt\<rparr>"
  note D = book_repD [OF R]
  have xN: "x < length ?ns" using D(6) [OF x] by (simp add: node_ok_def)
  have i: "i < ob_levels_per_side b" using queue_level [OF R x] .
  have b': "ob_nodes b' = ?ns'" "ob_cfg b' = ob_cfg b" "ob_levels_per_side b' = ob_levels_per_side b"
    "ob_ids b' = ob_ids b" "ob_free_head b' = ob_free_head b" "ob_live b' = ob_live b"
    "ladder_of t b' = (if t = s then ?l\<lparr>ld_levels := (ld_levels ?l)[i := ?lv]\<rparr> else ladder_of t b)" for t
    by (simp_all add: b'_def shrink_node_def Let_def)
  show "ob_cfg b' = ob_cfg b" "ob_levels_per_side b' = ob_levels_per_side b"
    "rest_of (ob_nodes b' ! x) = (rest_of (?ns ! x))\<lparr>ro_qty := bo_qty (?ns ! x) - amt\<rparr>"
    using b' xN by (simp_all add: rest_of_def)
  show "y \<noteq> x \<Longrightarrow> ob_nodes b' ! y = ?ns ! y" by (simp add: b')
  have lv: "level_rep ?ns (ld_levels ?l ! i) (Q s i)" using queue_level_rep [OF R i] .
  obtain as bs where ab: "Q s i = as @ x # bs" using split_list [OF x] by blast
  have dab: "x \<notin> set as" "x \<notin> set bs" using lv ab by (auto simp: level_rep_def)
  have "level_qty ?ns' xs = level_qty ?ns xs" if "x \<notin> set xs" for xs
    by (rule level_qty_cong) (metis that nth_list_update_neq)
  then have "level_qty ?ns' (Q s i) = level_qty ?ns (Q s i) - ucast amt"
    using dab a xN by (simp add: ab ucast_sub_le)
  moreover have "dll ?ns' kNil (Q s i) kNil \<longleftrightarrow> dll ?ns kNil (Q s i) kNil"
    by (rule dll_frame) (simp add: nth_update_total)
  ultimately have lv': "level_rep ?ns' ?lv (Q s i)" using lv by (simp add: level_rep_def)
  have "ladder_rep ?ns' (ob_levels_per_side b) s
      \<lparr>ld_levels = (ld_levels ?l)[i := ?lv], ld_bits = ld_bits ?l, ld_best = ld_best ?l\<rparr> ((Q s)(i := Q s i))"
  proof (rule ladder_rep_update [OF D(5) i lv'])
    show "?ns' ! y = ?ns ! y" if "j \<noteq> i" "y \<in> set (Q s j)" for j y
      using queued_unique [OF R that(2) ] x that(1) by (metis nth_list_update_neq that(2))
  qed (use D(5) [of s] in \<open>auto simp: ladder_rep_def\<close>)
  then have lad: "ladder_rep ?ns' (ob_levels_per_side b) s (ladder_of s b') ((Q s)(i := Q s i))"
    using b'(7) [of s] by (cases ?l) simp
  have id': "bo_id (?ns' ! y) = bo_id (?ns ! y)" for y by (simp add: nth_update_total)
  have "book_rep b' (upd Q s i (Q s i)) F"
  proof (rule book_rep_update [OF R])
    show "ob_nodes b' ! y = ?ns ! y" if "t \<noteq> s \<or> j \<noteq> i" "y \<in> set (Q t j)" for t j y
      using queued_unique [OF R that(2)] x that(1) unfolding b' by (metis nth_list_update_neq)
    show "fm_find (ob_ids b') (bo_id (?ns ! y)) = Some y" if "y \<in> set (Q t j)" for t j y
      using D(6) [OF that] by (simp add: b' node_ok_def)
    show "node_ok b' s i y" if "y \<in> set (Q s i)" for y
      using D(6) [OF that] a by (auto simp: node_ok_def b' nth_update_total)
    show "ids_rep b' (upd Q s i (Q s i))" using D(7) by (simp add: ids_rep_def b' id')
    have "chain ?ns' F \<longleftrightarrow> chain ?ns F" by (rule chain_frame) (simp add: nth_update_total)
    then show "free_rep b' (upd Q s i (Q s i)) F" using D(8) by (simp add: free_rep_def b')
  qed (use lad b' in auto)
  then show "book_rep b' Q F" by simp
qed

section \<open>Clearing and construction\<close>

lemma clear_levels_nth:
  assumes "0 \<le> i \<Longrightarrow> bset bits (nat i)"
  shows "length (clear_levels bits lvs i) = length lvs \<and> (\<forall>j<length lvs. clear_levels bits lvs i ! j =
    (if 0 \<le> i \<and> nat i \<le> j \<and> bset bits j then empty_level else lvs ! j))"
  using assms
proof (induction bits lvs i rule: clear_levels.induct)
  case (1 bits lvs i)
  show ?case
  proof (cases "i < 0")
    case True
    then show ?thesis by (subst (1 2) clear_levels.simps) simp
  next
    case False
    let ?r = "bitmap_find_next bits (i + 1)" and ?lvs = "lvs[nat i := empty_level]"
    have nx: "is_next bits (Suc (nat i)) ?r"
      using bitmap_find_next_spec [of bits "i + 1"] False by (simp add: nat_add_distrib)
    have IH: "length (clear_levels bits ?lvs ?r) = length ?lvs \<and> (\<forall>j<length ?lvs. clear_levels bits ?lvs ?r ! j =
        (if 0 \<le> ?r \<and> nat ?r \<le> j \<and> bset bits j then empty_level else ?lvs ! j))"
      by (rule "1.IH") (use False is_next_range [OF nx] in auto)
    have upto: "bset bits j \<and> nat i \<le> j \<longleftrightarrow> j = nat i \<or> (0 \<le> ?r \<and> nat ?r \<le> j \<and> bset bits j)" for j
      using nx "1.prems" False unfolding is_next_def by (auto simp: not_le Suc_le_eq) (metis le_neq_implies_less not_le)+
    have run: "clear_levels bits lvs i = clear_levels bits ?lvs ?r"
      using False by (subst clear_levels.simps) simp
    have "clear_levels bits ?lvs ?r ! j = (if 0 \<le> i \<and> nat i \<le> j \<and> bset bits j then empty_level else lvs ! j)"
      if "j < length lvs" for j
      using IH that upto [of j] False by (auto simp: nth_list_update)
    with IH show ?thesis unfolding run by simp
  qed
qed

definition clearable :: "nat \<Rightarrow> ladder \<Rightarrow> bool" where
  "clearable L l \<longleftrightarrow> length (ld_levels l) = L \<and> L \<le> 64 * length (ld_bits l) \<and>
     (\<forall>i<L. \<not> bset (ld_bits l) i \<longrightarrow> ld_levels l ! i = empty_level)"

lemma level_rep_Nil: "level_rep ns lv [] \<longleftrightarrow> lv = empty_level"
  by (cases lv) (auto simp: level_rep_def empty_level_def)

lemma ladder_rep_clearable: "ladder_rep ns L s l Q \<Longrightarrow> clearable L l"
  unfolding ladder_rep_def clearable_def by (metis level_rep_Nil)

lemma bset_zero [simp]: "\<not> bset (map (\<lambda>w. 0) bits) j" "\<not> bset (replicate k 0) j"
  by (auto simp: bset_def div_less_iff_less_mult mult.commute)

lemma clear_ladder_rep:
  assumes "clearable L l"
  shows "ladder_rep ns L s (clear_ladder l) (\<lambda>_. [])"
proof -
  have nx: "is_next (ld_bits l) 0 (bitmap_find_next (ld_bits l) 0)"
    using bitmap_find_next_spec [of "ld_bits l" 0] by simp
  let ?i = "bitmap_find_next (ld_bits l) 0" and ?lvs = "ld_levels (clear_ladder l)"
  have "length ?lvs = L \<and> (\<forall>j<L. ?lvs ! j = (if 0 \<le> ?i \<and> nat ?i \<le> j \<and> bset (ld_bits l) j
      then empty_level else ld_levels l ! j))"
    using clear_levels_nth [of ?i "ld_bits l" "ld_levels l"] is_next_range [OF nx] assms
    by (simp add: clear_ladder_def clearable_def)
  moreover have "bset (ld_bits l) j \<Longrightarrow> 0 \<le> ?i \<and> nat ?i \<le> j" for j
    using nx unfolding is_next_def by (auto simp: not_le) (metis not_le)+
  ultimately have "length ?lvs = L" "j < L \<Longrightarrow> ?lvs ! j = empty_level" for j
    using assms by (auto simp: clearable_def)
  then show ?thesis using assms
    by (simp add: ladder_rep_def level_rep_Nil is_best_def) (simp add: clear_ladder_def clearable_def)
qed

lemma chain_free_rep:
  "k \<le> length ns \<Longrightarrow> chain (chain_free ns) [k..<length ns]"
proof (induction "length ns - k" arbitrary: k)
  case (Suc d)
  then have "chain (chain_free ns) [Suc k..<length ns]" by simp
  with Suc show ?case by (auto simp: upt_conv_Cons chain_free_def)
qed simp

lemma clear_rep:
  assumes "cfg_ok (ob_cfg b)" "ob_levels_per_side b = cfg_levels (ob_cfg b)"
    "length (ob_nodes b) = unat (bc_max_orders (ob_cfg b))"
    "\<And>s. clearable (ob_levels_per_side b) (ladder_of s b)"
    "fm_inv (ob_ids b)" "fm_max_entries (ob_ids b) = length (ob_nodes b)"
  shows "book_rep (ob_clear b) (\<lambda>_ _. []) [0..<length (ob_nodes b)]"
proof -
  let ?c = "ob_clear b"
  have len: "length (chain_free (ob_nodes b)) = length (ob_nodes b)" by (simp add: chain_free_def)
  have sel: "ob_cfg ?c = ob_cfg b" "ob_levels_per_side ?c = ob_levels_per_side b"
    "ob_nodes ?c = chain_free (ob_nodes b)" "ladder_of s ?c = clear_ladder (ladder_of s b)"
    "ob_live ?c = 0" "ob_ids ?c = fm_clear (ob_ids b)" for s
    by (cases s; simp add: ob_clear_def ladder_of_def)+
  have "ladder_rep (ob_nodes ?c) (ob_levels_per_side ?c) s (ladder_of s ?c) (\<lambda>_. [])" for s
    using clear_ladder_rep [OF assms(4)] by (simp add: sel)
  moreover have "ids_rep ?c (\<lambda>_ _. [])"
    using fm_clear_ok [OF assms(5)] assms(6) by (simp add: ids_rep_def sel len)
  moreover have "ob_free_head ?c = hd_or kNil [0..<length (ob_nodes b)]"
    by (cases "ob_nodes b") (simp_all add: ob_clear_def upt_conv_Cons del: upt_Suc)
  then have "free_rep ?c (\<lambda>_ _. []) [0..<length (ob_nodes b)]"
    using chain_free_rep [of 0 "ob_nodes b"] by (simp add: free_rep_def sel len queued_def)
  ultimately show ?thesis using assms(1-3) by (simp add: book_rep_def sel len)
qed

lemma OrderBook_rep:
  assumes "cfg_ok cfg"
  shows "\<exists>b. OrderBook cfg = Some b \<and> ob_cfg b = cfg \<and>
    book_rep b (\<lambda>_ _. []) [0..<unat (bc_max_orders cfg)]"
proof -
  let ?n = "cfg_levels cfg" and ?N = "unat (bc_max_orders cfg)"
  let ?l = "\<lparr>ld_levels = replicate ?n empty_level, ld_bits = replicate ((?n + 63) div 64) 0, ld_best = -1\<rparr>"
  let ?b = "\<lparr>ob_cfg = cfg, ob_levels_per_side = ?n, ob_bids = ?l, ob_asks = ?l,
    ob_nodes = replicate ?N blank_order, ob_free_head = kNil, ob_live = 0, ob_ids = FlatIdMap 0 ?N\<rparr>"
  have "?N < 2 ^ 32" using assms by (simp add: cfg_ok_def kNil_def)
  then have "?N \<le> 2 ^ 62" by simp
  note m = FlatIdMap_inv [OF this, of 0]
  have "clearable ?n (ladder_of s ?b)" for s
    by (auto simp: clearable_def ladder_of_def)
  then have "book_rep (ob_clear ?b) (\<lambda>_ _. []) [0..<?N]"
    using clear_rep [of ?b] assms m by simp
  moreover have "OrderBook cfg = Some (ob_clear ?b)"
    using assms by (simp add: OrderBook_def cfg_ok_def cfg_levels_def Let_def not_le)
  ultimately show ?thesis by (simp add: ob_clear_def)
qed

end
