(* ===== verification/Book_Spec.thy ===== *)
theory Book_Spec
  imports Book_Rep
begin

text \<open>
  What the order book promises, and that it keeps the promise. Abstractly a side of the book is
  one list of resting orders, best price first and oldest first within a price: the list that
  \<open>for_each_order\<close> delivers. \<open>add\<close> inserts behind every order whose price is at least as good,
  \<open>remove\<close> deletes by id, \<open>reduce\<close> changes one quantity, \<open>front\<close> is the head.
\<close>

section \<open>The walks of the source deliver the queues in priority order\<close>

definition prio_levels :: "side \<Rightarrow> nat \<Rightarrow> nat list" where
  "prio_levels s L = (if s = Buy then rev [0..<L] else [0..<L])"

lemma set_prio_levels [simp]: "set (prio_levels s L) = {..<L}"
  by (auto simp: prio_levels_def)

lemma length_prio_levels [simp]: "length (prio_levels s L) = L"
  by (simp add: prio_levels_def)

lemma distinct_prio_levels [simp]: "distinct (prio_levels s L)"
  by (simp add: prio_levels_def)

lemma sorted_prio_levels: "sorted_wrt (better s) (prio_levels s L)"
proof (cases s)
  case Buy
  then have "better s = (\<lambda>i j. j < i)" by (simp add: fun_eq_iff better_def)
  with Buy show ?thesis by (simp add: prio_levels_def sorted_wrt_rev)
next
  case Sell
  then have "better s = (<)" by (simp add: fun_eq_iff better_def)
  with Sell show ?thesis by (simp add: prio_levels_def)
qed

definition open_levels :: "queues \<Rightarrow> side \<Rightarrow> nat \<Rightarrow> nat list" where
  "open_levels Q s L = filter (\<lambda>i. Q s i \<noteq> []) (prio_levels s L)"

lemma concat_open_levels:
  "concat (map (\<lambda>i. map f (Q s i)) (open_levels Q s L)) = map f (concat (map (Q s) (prio_levels s L)))"
proof -
  have "concat (map (\<lambda>i. map f (Q s i)) (filter (\<lambda>i. Q s i \<noteq> []) js)) = map f (concat (map (Q s) js))" for js
    by (induction js) auto
  then show ?thesis by (simp add: open_levels_def)
qed

lemma is_best_hd:
  "sorted_wrt (better s) A \<Longrightarrow> is_best s (\<lambda>j. j \<in> set A) (case A of [] \<Rightarrow> -1 | a # _ \<Rightarrow> int a)"
  by (cases A) (auto simp: is_best_def dest: better_asym)

text \<open>From the best of a suffix \<open>A\<close> of the open levels, \<open>next_worse\<close> steps through \<open>A\<close>.\<close>

lemma next_worse_step:
  assumes R: "book_rep b Q F" and A: "sorted_wrt (better s) (a # A)"
    and open_a: "Q s a \<noteq> []" and A_eq: "\<And>j. j \<in> set A \<longleftrightarrow> Q s j \<noteq> [] \<and> better s a j"
  shows "next_worse s (ladder_of s b) (int a) = (case A of [] \<Rightarrow> -1 | j # _ \<Rightarrow> int j)"
proof -
  note L = book_repD(5) [OF R, of s]
  have "a < 64 * length (ld_bits (ladder_of s b))"
    using L open_a unfolding ladder_rep_def by (metis bset_def)
  from next_worse_spec [OF this, of s]
  have "is_best s (\<lambda>j. j \<in> set A) (next_worse s (ladder_of s b) (int a))"
    by (rule is_best_cong) (use A_eq L in \<open>auto simp: ladder_rep_def\<close>)
  then show ?thesis by (rule is_best_unique) (use is_best_hd [of s A] A in simp)
qed

lemma fifo_walk_rep:
  "dll ns p xs kNil \<Longrightarrow> kNil \<notin> set xs \<Longrightarrow> length xs \<le> fuel \<Longrightarrow>
     fifo_walk fuel ns (hd_or kNil xs) = map ((!) ns) xs"
proof (induction xs arbitrary: p fuel)
  case Nil
  then show ?case by (cases fuel) auto
next
  case (Cons x xs)
  then show ?case by (cases fuel) auto
qed

lemma queue_walk:
  assumes R: "book_rep b Q F" and i: "i < ob_levels_per_side b"
  shows "fifo_walk (length (ob_nodes b)) (ob_nodes b) (lv_head (ld_levels (ladder_of s b) ! i)) =
    map ((!) (ob_nodes b)) (Q s i)"
proof -
  note lv = queue_level_rep [OF R i, of s]
  have "length (Q s i) = card (set (Q s i))" using lv by (simp add: level_rep_def distinct_card)
  also have "\<dots> \<le> card {..<length (ob_nodes b)}" by (rule card_mono) (use queue_bounds [OF R] in auto)
  finally have "length (Q s i) \<le> length (ob_nodes b)" by simp
  then show ?thesis
    using fifo_walk_rep [of "ob_nodes b" kNil "Q s i"] lv queue_bounds(2) [OF R] by (simp add: level_rep_def)
qed

text \<open>The suffixes of the open levels that the loops walk over.\<close>

definition walkable :: "queues \<Rightarrow> side \<Rightarrow> nat list \<Rightarrow> bool" where
  "walkable Q s A \<longleftrightarrow> sorted_wrt (better s) A \<and> (\<forall>a\<in>set A. Q s a \<noteq> []) \<and>
     (\<forall>a\<in>set A. \<forall>j. Q s j \<noteq> [] \<longrightarrow> better s a j \<longrightarrow> j \<in> set A)"

lemma walkable_tl: "walkable Q s (a # A) \<Longrightarrow> walkable Q s A"
  unfolding walkable_def by (auto dest: better_asym) (metis better_asym better_irrefl)

lemma walkable_Cons:
  "walkable Q s (a # A) \<Longrightarrow> j \<in> set A \<longleftrightarrow> Q s j \<noteq> [] \<and> better s a j"
  unfolding walkable_def by auto

lemma walkable_open: "book_rep b Q F \<Longrightarrow> walkable Q s (open_levels Q s (ob_levels_per_side b))"
  unfolding walkable_def open_levels_def
  using sorted_prio_levels [of s] book_repD(5) [of b Q F s]
  by (auto simp: sorted_wrt_filter ladder_rep_def not_less [symmetric])

lemma order_walk_rep:
  assumes R: "book_rep b Q F"
  shows "walkable Q s A \<Longrightarrow> length A \<le> fuel \<Longrightarrow>
    order_walk fuel s b (case A of [] \<Rightarrow> -1 | a # _ \<Rightarrow> int a) =
      concat (map (\<lambda>i. map ((!) (ob_nodes b)) (Q s i)) A)"
proof (induction A arbitrary: fuel)
  case Nil
  then show ?case by (cases fuel) auto
next
  case (Cons a A)
  obtain f where f: "fuel = Suc f" using Cons.prems(2) by (cases fuel) auto
  have a: "Q s a \<noteq> []" "sorted_wrt (better s) (a # A)" using Cons.prems(1) by (auto simp: walkable_def)
  then obtain x where "x \<in> set (Q s a)" by (cases "Q s a") auto
  from queue_level [OF R this] have i: "a < ob_levels_per_side b" .
  have "next_worse s (ladder_of s b) (int a) = (case A of [] \<Rightarrow> -1 | j # _ \<Rightarrow> int j)"
    by (rule next_worse_step [OF R a(2,1)]) (rule walkable_Cons [OF Cons.prems(1)])
  with Cons.IH [OF walkable_tl [OF Cons.prems(1)], of f] Cons.prems(2) show ?case
    by (simp add: f queue_walk [OF R i])
qed

lemma best_hd:
  assumes R: "book_rep b Q F"
  shows "ld_best (ladder_of s b) =
    (case open_levels Q s (ob_levels_per_side b) of [] \<Rightarrow> -1 | a # _ \<Rightarrow> int a)"
proof (rule is_best_unique [of s "\<lambda>j. Q s j \<noteq> []"])
  let ?A = "open_levels Q s (ob_levels_per_side b)"
  show "is_best s (\<lambda>j. Q s j \<noteq> []) (ld_best (ladder_of s b))"
    using book_repD(5) [OF R, of s] by (simp add: ladder_rep_def)
  have "sorted_wrt (better s) ?A" using walkable_open [OF R, of s] by (simp add: walkable_def)
  from is_best_hd [OF this] show "is_best s (\<lambda>j. Q s j \<noteq> []) (case ?A of [] \<Rightarrow> -1 | a # _ \<Rightarrow> int a)"
    by (rule is_best_cong)
      (use book_repD(5) [OF R, of s] in \<open>auto simp: open_levels_def ladder_rep_def not_less [symmetric]\<close>)
qed

definition queue_nodes :: "order_book \<Rightarrow> queues \<Rightarrow> side \<Rightarrow> nat list" where
  "queue_nodes b Q s = concat (map (Q s) (prio_levels s (ob_levels_per_side b)))"

lemma side_walk_rep:
  assumes R: "book_rep b Q F"
  shows "side_walk s b = map ((!) (ob_nodes b)) (queue_nodes b Q s)"
  using order_walk_rep [OF R walkable_open [OF R], of s "ob_levels_per_side b"]
    length_filter_le [of "\<lambda>i. Q s i \<noteq> []" "prio_levels s (ob_levels_per_side b)"]
  by (simp add: side_walk_def best_hd [OF R] concat_open_levels queue_nodes_def open_levels_def [symmetric])

lemma level_walk_rep:
  assumes R: "book_rep b Q F"
  shows "walkable Q s A \<Longrightarrow>
    level_walk s b n (case A of [] \<Rightarrow> -1 | a # _ \<Rightarrow> int a) =
      map (\<lambda>i. \<lparr>lw_price = price_of (ob_cfg b) (int i), lw_qty = level_qty (ob_nodes b) (Q s i),
                lw_orders = of_nat (length (Q s i))\<rparr>) (take n A)"
proof (induction n arbitrary: A)
  case (Suc n)
  show ?case
  proof (cases A)
    case (Cons a A')
    have a: "Q s a \<noteq> []" "sorted_wrt (better s) (a # A')" using Suc.prems Cons by (auto simp: walkable_def)
    then obtain x where "x \<in> set (Q s a)" by (cases "Q s a") auto
    from queue_level [OF R this] have i: "a < ob_levels_per_side b" .
    have "next_worse s (ladder_of s b) (int a) = (case A' of [] \<Rightarrow> -1 | j # _ \<Rightarrow> int j)"
      by (rule next_worse_step [OF R a(2,1)]) (use walkable_Cons Suc.prems Cons in blast)
    with Suc.IH [of A'] walkable_tl [of Q s a A'] Suc.prems Cons queue_level_rep [OF R i, of s]
    show ?thesis by (simp add: level_rep_def Let_def)
  qed simp
qed simp

section \<open>The abstract book\<close>

definition resting_orders :: "side \<Rightarrow> order_book \<Rightarrow> resting list" where
  "resting_orders s b = map rest_of (side_walk s b)"

text \<open>Price \<open>p\<close> is at least as good as \<open>q\<close> on side \<open>s\<close>.\<close>

definition at_least :: "side \<Rightarrow> price \<Rightarrow> price \<Rightarrow> bool" where
  "at_least s p q \<longleftrightarrow> (if s = Buy then q \<le> p else p \<le> q)"

definition insert_prio :: "side \<Rightarrow> resting \<Rightarrow> resting list \<Rightarrow> resting list" where
  "insert_prio s r xs =
     takeWhile (\<lambda>y. at_least s (ro_price y) (ro_price r)) xs @ r #
     dropWhile (\<lambda>y. at_least s (ro_price y) (ro_price r)) xs"

definition remove_list :: "order_id \<Rightarrow> resting list \<Rightarrow> resting list" where
  "remove_list k xs = filter (\<lambda>r. ro_id r \<noteq> k) xs"

fun reduce_list :: "order_id \<Rightarrow> qty \<Rightarrow> resting list \<Rightarrow> resting list" where
  "reduce_list k amt [] = []"
| "reduce_list k amt (r # rs) =
     (if ro_id r \<noteq> k then r # reduce_list k amt rs
      else if ro_qty r = amt then rs else r\<lparr>ro_qty := ro_qty r - amt\<rparr> # rs)"

lemma at_least_refl [simp]: "at_least s p p"
  by (simp add: at_least_def)

lemma at_least_trans: "at_least s p q \<Longrightarrow> at_least s q r \<Longrightarrow> at_least s p r"
  by (auto simp: at_least_def split: if_splits)

lemma at_least_total: "at_least s p q \<or> at_least s q p"
  by (auto simp: at_least_def)

lemma at_least_price_of:
  "cfg_ok cfg \<Longrightarrow> at_least s (price_of cfg (int i)) (price_of cfg (int j)) \<longleftrightarrow> \<not> better s j i"
  using price_of_less [of cfg] by (auto simp: at_least_def better_def not_less [symmetric])

lemma insert_prio_split:
  assumes "\<And>y. y \<in> set us \<Longrightarrow> at_least s (ro_price y) (ro_price r)"
    and "\<And>y. y \<in> set vs \<Longrightarrow> \<not> at_least s (ro_price y) (ro_price r)"
  shows "insert_prio s r (us @ vs) = us @ r # vs"
  using assms by (cases vs) (simp_all add: insert_prio_def takeWhile_append dropWhile_append)

lemma reduce_list_split:
  "ro_id r \<notin> ro_id ` set us \<Longrightarrow>
     reduce_list (ro_id r) amt (us @ r # vs) =
       us @ (if ro_qty r = amt then vs else r\<lparr>ro_qty := ro_qty r - amt\<rparr> # vs)"
  by (induction us) auto

lemma reduce_list_absent: "k \<notin> ro_id ` set xs \<Longrightarrow> reduce_list k amt xs = xs"
  by (induction xs) auto

lemma remove_list_absent: "k \<notin> ro_id ` set xs \<Longrightarrow> remove_list k xs = xs"
  by (auto simp: remove_list_def image_iff intro!: filter_True)

lemma remove_list_split:
  "ro_id r \<notin> ro_id ` set us \<Longrightarrow> ro_id r \<notin> ro_id ` set vs \<Longrightarrow> remove_list (ro_id r) (us @ r # vs) = us @ vs"
  using remove_list_absent [of "ro_id r"] by (simp add: remove_list_def)

section \<open>The abstraction of a represented book\<close>

lemma resting_rep:
  "book_rep b Q F \<Longrightarrow> resting_orders s b = map (\<lambda>x. rest_of (ob_nodes b ! x)) (queue_nodes b Q s)"
  by (simp add: resting_orders_def side_walk_rep)

lemma set_queue_nodes: "book_rep b Q F \<Longrightarrow> x \<in> set (queue_nodes b Q s) \<longleftrightarrow> (\<exists>i. x \<in> set (Q s i))"
  using queue_level by (fastforce simp: queue_nodes_def)

lemma prio_split:
  assumes "i < L"
  obtains A B where "prio_levels s L = A @ i # B" "\<forall>j\<in>set A. better s j i" "\<forall>j\<in>set B. better s i j"
proof -
  obtain A B where "prio_levels s L = A @ i # B" using assms split_list [of i "prio_levels s L"] by auto
  moreover from this sorted_prio_levels [of s L]
  have "\<forall>j\<in>set A. better s j i" "\<forall>j\<in>set B. better s i j" by (auto simp: sorted_wrt_append)
  ultimately show thesis using that by blast
qed

lemma resting_upd:
  assumes R: "book_rep b Q F" and R': "book_rep b' (upd Q s i xs) F'" and i: "i < ob_levels_per_side b"
    and same: "ob_cfg b' = ob_cfg b" "ob_levels_per_side b' = ob_levels_per_side b"
    and keep: "\<And>t j x. t \<noteq> s \<or> j \<noteq> i \<Longrightarrow> x \<in> set (Q t j) \<Longrightarrow> rest_of (ob_nodes b' ! x) = rest_of (ob_nodes b ! x)"
  obtains pre post where
    "resting_orders s b = pre @ map (\<lambda>x. rest_of (ob_nodes b ! x)) (Q s i) @ post"
    "resting_orders s b' = pre @ map (\<lambda>x. rest_of (ob_nodes b' ! x)) xs @ post"
    "\<And>r. r \<in> set pre \<Longrightarrow> at_least s (ro_price r) (price_of (ob_cfg b) (int i))"
    "\<And>r. r \<in> set post \<Longrightarrow> \<not> at_least s (ro_price r) (price_of (ob_cfg b) (int i))"
    "\<And>t. t \<noteq> s \<Longrightarrow> resting_orders t b' = resting_orders t b"
proof -
  let ?L = "ob_levels_per_side b"
  let ?f = "\<lambda>x. rest_of (ob_nodes b ! x)" and ?g = "\<lambda>x. rest_of (ob_nodes b' ! x)"
  obtain A B where AB: "prio_levels s ?L = A @ i # B" "\<forall>j\<in>set A. better s j i" "\<forall>j\<in>set B. better s i j"
    using prio_split [OF i] .
  have out: "map ?g (concat (map (upd Q s i xs t) js)) = map ?f (concat (map (Q t) js))"
    if "t \<noteq> s \<or> i \<notin> set js" for t js
    using that keep [of t] by (induction js) (auto simp: upd_apply)
  have iAB: "i \<notin> set A" "i \<notin> set B" using AB(2,3) by auto
  define pre where "pre = map ?f (concat (map (Q s) A))"
  define post where "post = map ?f (concat (map (Q s) B))"
  have pr: "\<exists>j\<in>set js. ro_price r = price_of (ob_cfg b) (int j)"
    if "r \<in> set (map ?f (concat (map (Q s) js)))" for r js
    using that book_repD(6) [OF R] by (fastforce simp: node_ok_def)
  show thesis
  proof (rule that [of pre post])
    show "resting_orders s b = pre @ map ?f (Q s i) @ post"
      by (simp add: resting_rep [OF R] queue_nodes_def AB(1) pre_def post_def)
    show "resting_orders s b' = pre @ map ?g xs @ post"
      using out [of s A] out [of s B] iAB
      by (simp add: resting_rep [OF R'] queue_nodes_def same AB(1) pre_def post_def upd_apply)
    show "at_least s (ro_price r) (price_of (ob_cfg b) (int i))" if "r \<in> set pre" for r
      using pr [of r A] that AB(2) at_least_price_of [OF book_repD(1) [OF R], of s] better_asym
      by (auto simp: pre_def)
    show "\<not> at_least s (ro_price r) (price_of (ob_cfg b) (int i))" if "r \<in> set post" for r
      using pr [of r B] that AB(3) at_least_price_of [OF book_repD(1) [OF R], of s]
      by (auto simp: post_def)
    show "resting_orders t b' = resting_orders t b" if "t \<noteq> s" for t
      using out [of t "prio_levels t ?L"] that
      by (simp add: resting_rep [OF R] resting_rep [OF R'] queue_nodes_def same)
  qed
qed

lemma queued_id_inj:
  assumes "book_rep b Q F" "x \<in> set (Q s i)" "y \<in> set (Q t j)" "bo_id (ob_nodes b ! x) = bo_id (ob_nodes b ! y)"
  shows "x = y"
  using book_repD(6) [OF assms(1,2)] book_repD(6) [OF assms(1,3)] assms(4) by (simp add: node_ok_def)

lemma resting_ids_other:
  assumes "book_rep b Q F" "x \<in> set (Q s i)" "t \<noteq> s"
  shows "bo_id (ob_nodes b ! x) \<notin> ro_id ` set (resting_orders t b)"
  using queued_id_inj [OF assms(1,2)] queued_unique [OF assms(1,2)] assms(3)
  by (auto simp: resting_rep [OF assms(1)] set_queue_nodes [OF assms(1)])

lemma resting_distinct:
  assumes "book_rep b Q F"
  shows "distinct (map ro_id (resting_orders s b))"
proof -
  have "distinct (concat (map (Q s) js))" if "distinct js" "set js \<subseteq> {..<ob_levels_per_side b}" for js
    using that
  proof (induction js)
    case (Cons j js)
    then have "distinct (Q s j)" using queue_level_rep [OF assms, of j s] by (simp add: level_rep_def)
    moreover have "set (Q s j) \<inter> set (concat (map (Q s) js)) = {}"
    proof -
      have "x \<notin> set (Q s k)" if "x \<in> set (Q s j)" "k \<in> set js" for x k
        using queued_unique [OF assms that(1), of s k] that(2) Cons.prems(1) by auto
      then show ?thesis by auto
    qed
    ultimately show ?case using Cons by auto
  qed simp
  then have "distinct (queue_nodes b Q s)"
    unfolding queue_nodes_def by simp
  moreover have "inj_on (\<lambda>x. bo_id (ob_nodes b ! x)) (set (queue_nodes b Q s))"
    using queued_id_inj [OF assms] by (intro inj_onI) (auto simp: set_queue_nodes [OF assms])
  ultimately show ?thesis by (simp add: resting_rep [OF assms] distinct_map o_def)
qed

lemma find_resting:
  assumes R: "book_rep b Q F"
  shows "fm_find (ob_ids b) k = Some x \<longleftrightarrow> queued Q x \<and> bo_id (ob_nodes b ! x) = k"
proof
  assume "fm_find (ob_ids b) k = Some x"
  then show "queued Q x \<and> bo_id (ob_nodes b ! x) = k" using book_repD(7) [OF R] by (simp add: ids_rep_def)
next
  assume "queued Q x \<and> bo_id (ob_nodes b ! x) = k"
  then show "fm_find (ob_ids b) k = Some x" using book_repD(6) [OF R, of x] by (auto simp: queued_def node_ok_def)
qed

section \<open>Refinement of the operations\<close>

definition book_orders :: "order_book \<Rightarrow> resting list" where
  "book_orders b = resting_orders Buy b @ resting_orders Sell b"

definition book_ids :: "order_book \<Rightarrow> order_id set" where
  "book_ids b = ro_id ` set (book_orders b)"

lemma set_book_orders: "set (book_orders b) = (\<Union>s. set (resting_orders s b))"
  by (auto simp: book_orders_def) (metis side.exhaust)

lemma book_orders_for_each: "map rest_of (for_each_order b) = book_orders b"
  by (simp add: for_each_order_def book_orders_def resting_orders_def)

lemma book_orders_rep:
  "book_rep b Q F \<Longrightarrow> r \<in> set (book_orders b) \<longleftrightarrow> (\<exists>x. queued Q x \<and> r = rest_of (ob_nodes b ! x))"
  unfolding set_book_orders by (fastforce simp: resting_rep set_queue_nodes queued_def)

lemma find_ids: "book_rep b Q F \<Longrightarrow> fm_find (ob_ids b) k = None \<longleftrightarrow> k \<notin> book_ids b"
  using find_resting [of b Q F k] book_orders_rep [of b Q F]
  by (auto simp: book_ids_def image_iff) (metis not_None_eq rest_of_sel(1))+

lemma book_distinct:
  assumes "book_rep b Q F"
  shows "distinct (map ro_id (book_orders b))"
proof -
  have "ro_id r \<noteq> ro_id r'" if "r \<in> set (resting_orders Buy b)" "r' \<in> set (resting_orders Sell b)" for r r'
  proof -
    obtain x i where "x \<in> set (Q Buy i)" "r = rest_of (ob_nodes b ! x)"
      using \<open>r \<in> _\<close> by (auto simp: resting_rep [OF assms] set_queue_nodes [OF assms])
    with resting_ids_other [OF assms, of x Buy i Sell] that(2) show ?thesis by auto
  qed
  then show ?thesis
    using resting_distinct [OF assms] by (auto simp: book_orders_def)
qed

lemma live_count:
  assumes "book_rep b Q F"
  shows "ob_live b = length (book_orders b)" "length F = length (ob_nodes b) - length (book_orders b)"
    "length (book_orders b) \<le> length (ob_nodes b)"
proof -
  let ?X = "queue_nodes b Q Buy @ queue_nodes b Q Sell"
  have eq: "map ro_id (book_orders b) = map (\<lambda>x. bo_id (ob_nodes b ! x)) ?X"
    by (simp add: book_orders_def resting_rep [OF assms])
  then have "distinct ?X" using book_distinct [OF assms] by (metis distinct_map)
  then have "length ?X = card (set ?X)" by (simp only: distinct_card)
  also have "set ?X = {x. queued Q x}"
    by (auto simp: set_queue_nodes [OF assms] queued_def) (metis side.exhaust)
  also have "\<dots> = {..<length (ob_nodes b)} - set F"
    using book_repD(6,8) [OF assms] by (auto simp: free_rep_def queued_def node_ok_def)
  also have "card \<dots> = length (ob_nodes b) - length F"
    using book_repD(8) [OF assms] by (subst card_Diff_subset) (auto simp: free_rep_def distinct_card)
  finally have "length (book_orders b) = length (ob_nodes b) - length F"
    by (simp add: book_orders_def resting_rep [OF assms])
  moreover have "ob_live b + length F = length (ob_nodes b)"
    using book_repD(8) [OF assms] by (simp add: free_rep_def)
  ultimately show "ob_live b = length (book_orders b)" "length F = length (ob_nodes b) - length (book_orders b)"
    "length (book_orders b) \<le> length (ob_nodes b)"
    by simp_all
qed

definition add_verdict :: "order_id \<Rightarrow> price \<Rightarrow> qty \<Rightarrow> order_book \<Rightarrow> add_result" where
  "add_verdict k p q b =
     (if \<not> valid_price b p then BadPrice else if q = 0 then BadQty
      else if length (book_orders b) = unat (bc_max_orders (ob_cfg b)) then Full
      else if k = 0 \<or> k \<in> book_ids b then DuplicateId else AddOk)"

lemma book_add:
  fixes k p q ow ur s
  assumes "book_inv b"
  defines "r \<equiv> \<lparr>ro_id = k, ro_price = p, ro_qty = q, ro_owner = ow, ro_user_ref = ur, ro_side = s\<rparr>"
  shows "\<exists>b'. ob_add k s p q ow ur b = (add_verdict k p q b, b') \<and> book_inv b' \<and> ob_cfg b' = ob_cfg b \<and>
    (if add_verdict k p q b = AddOk
     then \<forall>t. resting_orders t b' = (if t = s then insert_prio s r (resting_orders s b) else resting_orders t b)
     else b' = b)"
proof -
  obtain Q F where R: "book_rep b Q F" using assms by (auto simp: book_inv_def)
  note D = book_repD [OF R]
  have full: "ob_free_head b = kNil \<longleftrightarrow> length (book_orders b) = unat (bc_max_orders (ob_cfg b))"
  proof -
    have "kNil \<notin> set F" using D(4,8) by (auto simp: free_rep_def)
    then have "ob_free_head b = kNil \<longleftrightarrow> F = []" using D(8) hd_or_eq_iff [of kNil F] by (simp add: free_rep_def)
    also have "\<dots> \<longleftrightarrow> length (ob_nodes b) - length (book_orders b) = 0" using live_count(2) [OF R] by (metis length_0_conv)
    finally show ?thesis using live_count(3) [OF R] unfolding D(3) by linarith
  qed
  show ?thesis
  proof (cases "add_verdict k p q b = AddOk")
    case True
    then have v: "valid_price b p" "q \<noteq> 0" "ob_free_head b \<noteq> kNil" "k \<noteq> 0" "k \<notin> book_ids b"
      using full by (auto simp: add_verdict_def split: if_splits)
    obtain i where i: "i < ob_levels_per_side b" "p = price_of (ob_cfg b) (int i)"
      using v(1) valid_price_iff [OF D(1)] D(2) by auto
    obtain n F' where F: "F = n # F'" using v(3) D(8) by (cases F) (auto simp: free_rep_def)
    obtain b' where b': "ob_add k s p q ow ur b = (AddOk, b')" "book_rep b' (upd Q s i (Q s i @ [n])) F'"
      "rest_of (ob_nodes b' ! n) = r" "\<And>x. x \<noteq> n \<Longrightarrow> rest_of (ob_nodes b' ! x) = rest_of (ob_nodes b ! x)"
      "ob_cfg b' = ob_cfg b" "ob_levels_per_side b' = ob_levels_per_side b"
      using add_rep [OF R [unfolded F] i(1) v(2,4) iffD2 [OF find_ids [OF R] v(5)], of s ow ur, folded i(2)]
      unfolding r_def by blast
    have nq: "x \<noteq> n" if "x \<in> set (Q t j)" for t j x
      using D(8) that by (auto simp: free_rep_def F queued_def)
    then have keep: "rest_of (ob_nodes b' ! x) = rest_of (ob_nodes b ! x)" if "x \<in> set (Q t j)" for t j x
      using b'(4) that by blast
    obtain pre post where pp:
      "resting_orders s b = pre @ map (\<lambda>x. rest_of (ob_nodes b ! x)) (Q s i) @ post"
      "resting_orders s b' = pre @ map (\<lambda>x. rest_of (ob_nodes b' ! x)) (Q s i @ [n]) @ post"
      "\<And>r. r \<in> set pre \<Longrightarrow> at_least s (ro_price r) (price_of (ob_cfg b) (int i))"
      "\<And>r. r \<in> set post \<Longrightarrow> \<not> at_least s (ro_price r) (price_of (ob_cfg b) (int i))"
      "\<And>t. t \<noteq> s \<Longrightarrow> resting_orders t b' = resting_orders t b"
      by (rule resting_upd [OF R b'(2) i(1) b'(5,6) keep]) blast+
    let ?us = "pre @ map (\<lambda>x. rest_of (ob_nodes b ! x)) (Q s i)"
    have "insert_prio s r (?us @ post) = ?us @ r # post"
    proof (rule insert_prio_split)
      show "at_least s (ro_price y) (ro_price r)" if "y \<in> set ?us" for y
        using that pp(3) D(6) by (auto simp: r_def i(2) node_ok_def)
    qed (use pp(4) i(2) in \<open>simp add: r_def\<close>)
    then have "resting_orders s b' = insert_prio s r (resting_orders s b)"
      using pp(1,2) b'(3) keep by (simp cong: map_cong)
    then show ?thesis using True b' pp(5) by (auto simp: book_inv_def)
  next
    case False
    then have "ob_add k s p q ow ur b = (add_verdict k p q b, b)"
      using full find_ids [OF R, of k] D(7) fm_insert_refused [of "ob_ids b" k]
      by (auto simp: add_verdict_def ob_add_def Let_def ids_rep_def split: if_splits)
    with False assms(1) show ?thesis by simp
  qed
qed

text \<open>Replacing one node of a queue, in the list of its side.\<close>

lemma resting_node:
  assumes R: "book_rep b Q F" and x: "Q s i = as @ x # bs"
    and R': "book_rep b' (upd Q s i (as @ ys @ bs)) F'"
    and same: "ob_cfg b' = ob_cfg b" "ob_levels_per_side b' = ob_levels_per_side b"
    and keep: "\<And>y. y \<noteq> x \<Longrightarrow> rest_of (ob_nodes b' ! y) = rest_of (ob_nodes b ! y)"
  obtains us vs where "resting_orders s b = us @ rest_of (ob_nodes b ! x) # vs"
    "resting_orders s b' = us @ map (\<lambda>y. rest_of (ob_nodes b' ! y)) ys @ vs"
    "\<And>t. t \<noteq> s \<Longrightarrow> resting_orders t b' = resting_orders t b"
    "bo_id (ob_nodes b ! x) \<notin> ro_id ` set us" "bo_id (ob_nodes b ! x) \<notin> ro_id ` set vs"
    "\<And>t. t \<noteq> s \<Longrightarrow> bo_id (ob_nodes b ! x) \<notin> ro_id ` set (resting_orders t b)"
proof -
  have xi: "x \<in> set (Q s i)" using x by simp
  have i: "i < ob_levels_per_side b" using queue_level [OF R xi] .
  have "distinct (as @ x # bs)" using queue_level_rep [OF R i, of s] x by (simp add: level_rep_def)
  then have xab: "x \<notin> set as" "x \<notin> set bs" by auto
  have keep': "rest_of (ob_nodes b' ! y) = rest_of (ob_nodes b ! y)" if "t \<noteq> s \<or> j \<noteq> i" "y \<in> set (Q t j)" for t j y
    using queued_unique [OF R xi, of t j] that by (intro keep) auto
  obtain pre post where pp:
    "resting_orders s b = pre @ map (\<lambda>x. rest_of (ob_nodes b ! x)) (Q s i) @ post"
    "resting_orders s b' = pre @ map (\<lambda>x. rest_of (ob_nodes b' ! x)) (as @ ys @ bs) @ post"
    "\<And>t. t \<noteq> s \<Longrightarrow> resting_orders t b' = resting_orders t b"
    by (rule resting_upd [OF R R' i same keep']) blast+
  let ?f = "\<lambda>x. rest_of (ob_nodes b ! x)"
  let ?us = "pre @ map ?f as" and ?vs = "map ?f bs @ post"
  have "map (\<lambda>y. rest_of (ob_nodes b' ! y)) zs = map ?f zs" if "x \<notin> set zs" for zs
    by (rule map_cong) (use that keep in metis)+
  then have eqs: "resting_orders s b = ?us @ ?f x # ?vs"
    "resting_orders s b' = ?us @ map (\<lambda>y. rest_of (ob_nodes b' ! y)) ys @ ?vs"
    using pp(1,2) x xab by simp_all
  have "distinct (map ro_id (?us @ ?f x # ?vs))" using resting_distinct [OF R, of s] eqs(1) by metis
  then have "bo_id (ob_nodes b ! x) \<notin> ro_id ` set ?us" "bo_id (ob_nodes b ! x) \<notin> ro_id ` set ?vs" by auto
  then show thesis using that [OF eqs pp(3)] resting_ids_other [OF R xi] by blast
qed

lemma unlink_resting:
  assumes R: "book_rep b Q F" and x: "x \<in> set (Q s i)"
  shows "book_inv (unlink_and_free x b)" "ob_cfg (unlink_and_free x b) = ob_cfg b"
    "resting_orders t (unlink_and_free x b) = remove_list (bo_id (ob_nodes b ! x)) (resting_orders t b)"
    "resting_orders t (unlink_and_free x b) =
       reduce_list (bo_id (ob_nodes b ! x)) (bo_qty (ob_nodes b ! x)) (resting_orders t b)"
proof -
  let ?b = "unlink_and_free x b" and ?k = "bo_id (ob_nodes b ! x)"
  obtain as bs where ab: "Q s i = as @ x # bs" using split_list [OF x] by blast
  have U: "book_rep ?b (upd Q s i (as @ bs)) (x # F)" "\<And>y. rest_of (ob_nodes ?b ! y) = rest_of (ob_nodes b ! y)"
    "ob_cfg ?b = ob_cfg b" "ob_levels_per_side ?b = ob_levels_per_side b"
    using unlink_rep [OF R ab] by auto
  then have U1: "book_rep ?b (upd Q s i (as @ [] @ bs)) (x # F)" by simp
  obtain us vs where uv: "resting_orders s b = us @ rest_of (ob_nodes b ! x) # vs"
    "resting_orders s ?b = us @ vs" "\<And>t. t \<noteq> s \<Longrightarrow> resting_orders t ?b = resting_orders t b"
    "?k \<notin> ro_id ` set us" "?k \<notin> ro_id ` set vs"
    "\<And>t. t \<noteq> s \<Longrightarrow> ?k \<notin> ro_id ` set (resting_orders t b)"
    by (rule resting_node [OF R ab U1 U(3,4,2)]) auto
  show "resting_orders t ?b = remove_list ?k (resting_orders t b)"
    "resting_orders t ?b = reduce_list ?k (bo_qty (ob_nodes b ! x)) (resting_orders t b)"
    using uv remove_list_split [of "rest_of (ob_nodes b ! x)" us vs]
      reduce_list_split [of "rest_of (ob_nodes b ! x)" us "bo_qty (ob_nodes b ! x)" vs]
      remove_list_absent [of ?k "resting_orders t b"] reduce_list_absent [of ?k "resting_orders t b"]
    by (cases "t = s"; simp)+
  show "book_inv ?b" "ob_cfg ?b = ob_cfg b" using U(1,3) by (auto simp: book_inv_def)
qed

lemma shrink_resting:
  assumes R: "book_rep b Q F" and x: "x \<in> set (Q s i)" and a: "amt < bo_qty (ob_nodes b ! x)"
  shows "book_inv (shrink_node x amt s (int i) b) \<and> ob_cfg (shrink_node x amt s (int i) b) = ob_cfg b \<and>
    (\<forall>t. resting_orders t (shrink_node x amt s (int i) b) =
       reduce_list (bo_id (ob_nodes b ! x)) amt (resting_orders t b))"
proof -
  let ?b = "shrink_node x amt s (int i) b" and ?k = "bo_id (ob_nodes b ! x)"
  note S = shrink_rep [OF R x a]
  obtain as bs where ab: "Q s i = as @ x # bs" using split_list [OF x] by blast
  have S1: "book_rep ?b (upd Q s i (as @ [x] @ bs)) F" using S(1) ab upd_same [of Q s i] by simp
  have keep: "rest_of (ob_nodes ?b ! y) = rest_of (ob_nodes b ! y)" if "y \<noteq> x" for y using S(3) [OF that] by simp
  obtain us vs where uv: "resting_orders s b = us @ rest_of (ob_nodes b ! x) # vs"
    "resting_orders s ?b = us @ map (\<lambda>y. rest_of (ob_nodes ?b ! y)) [x] @ vs"
    "\<And>t. t \<noteq> s \<Longrightarrow> resting_orders t ?b = resting_orders t b"
    "?k \<notin> ro_id ` set us" "\<And>t. t \<noteq> s \<Longrightarrow> ?k \<notin> ro_id ` set (resting_orders t b)"
    by (rule resting_node [OF R ab S1 S(4,5) keep]) auto
  have "resting_orders t ?b = reduce_list ?k amt (resting_orders t b)" for t
    using uv a S(2) reduce_list_split [of "rest_of (ob_nodes b ! x)" us amt vs]
      reduce_list_absent [of ?k "resting_orders t b" amt]
    by (cases "t = s") auto
  with S(1,4) show ?thesis by (auto simp: book_inv_def)
qed

lemma book_find:
  assumes "book_inv b"
  shows "map_option rest_of (ob_find k b) = find (\<lambda>r. ro_id r = k) (book_orders b)"
proof -
  obtain Q F where R: "book_rep b Q F" using assms by (auto simp: book_inv_def)
  show ?thesis
  proof (cases "fm_find (ob_ids b) k")
    case None
    then have "k \<notin> book_ids b" using find_ids [OF R] by simp
    then have "find (\<lambda>r. ro_id r = k) (book_orders b) = None" by (auto simp: book_ids_def find_None_iff)
    then show ?thesis using None by (simp add: ob_find_def)
  next
    case (Some x)
    then have x: "queued Q x" "bo_id (ob_nodes b ! x) = k" using find_resting [OF R] by auto
    then have mem: "rest_of (ob_nodes b ! x) \<in> set (book_orders b)" using book_orders_rep [OF R] by blast
    then obtain us vs where uv: "book_orders b = us @ rest_of (ob_nodes b ! x) # vs" by (meson split_list)
    then have "\<forall>r\<in>set us. ro_id r \<noteq> k" using book_distinct [OF R] x(2) by (auto simp: image_iff)
    then have "find (\<lambda>r. ro_id r = k) (book_orders b) = Some (rest_of (ob_nodes b ! x))"
      unfolding uv by (rule find_split) (simp add: x(2))
    then show ?thesis using Some by (simp add: ob_find_def)
  qed
qed

lemma book_remove:
  assumes "book_inv b"
  shows "\<exists>b'. ob_remove k b = (k \<in> book_ids b, b') \<and> book_inv b' \<and> ob_cfg b' = ob_cfg b \<and>
    (\<forall>t. resting_orders t b' = remove_list k (resting_orders t b)) \<and> (k \<notin> book_ids b \<longrightarrow> b' = b)"
proof -
  obtain Q F where R: "book_rep b Q F" using assms by (auto simp: book_inv_def)
  show ?thesis
  proof (cases "fm_find (ob_ids b) k")
    case None
    then have "k \<notin> book_ids b" using find_ids [OF R] by simp
    moreover from this have "k \<notin> ro_id ` set (resting_orders t b)" for t
      unfolding book_ids_def set_book_orders by blast
    ultimately show ?thesis using None assms by (simp add: ob_remove_def remove_list_absent)
  next
    case (Some x)
    then obtain s i where x: "x \<in> set (Q s i)" "bo_id (ob_nodes b ! x) = k"
      using find_resting [OF R] by (auto simp: queued_def)
    have "k \<in> book_ids b" using find_ids [OF R, of k] Some by auto
    with unlink_resting(1-3) [OF R x(1)] x(2) Some show ?thesis by (simp add: ob_remove_def)
  qed
qed

lemma book_reduce:
  assumes "book_inv b"
  shows "\<exists>b'. ob_reduce k amt b = (\<exists>r\<in>set (book_orders b). ro_id r = k \<and> amt \<le> ro_qty r, b') \<and>
    book_inv b' \<and> ob_cfg b' = ob_cfg b \<and>
    (if \<exists>r\<in>set (book_orders b). ro_id r = k \<and> amt \<le> ro_qty r
     then \<forall>t. resting_orders t b' = reduce_list k amt (resting_orders t b) else b' = b)"
proof -
  obtain Q F where R: "book_rep b Q F" using assms by (auto simp: book_inv_def)
  show ?thesis
  proof (cases "fm_find (ob_ids b) k")
    case None
    then have "\<not> (\<exists>r\<in>set (book_orders b). ro_id r = k \<and> amt \<le> ro_qty r)"
      using find_ids [OF R] by (auto simp: book_ids_def)
    then show ?thesis using None assms by (auto simp: ob_reduce_def)
  next
    case (Some x)
    then obtain s i where x: "x \<in> set (Q s i)" "bo_id (ob_nodes b ! x) = k"
      using find_resting [OF R] by (auto simp: queued_def)
    let ?q = "bo_qty (ob_nodes b ! x)"
    have "rest_of (ob_nodes b ! x) \<in> set (book_orders b)"
      using book_orders_rep [OF R] x(1) by (auto simp: queued_def)
    moreover have "r = rest_of (ob_nodes b ! x)" if m: "r \<in> set (book_orders b)" "ro_id r = k" for r
    proof -
      obtain y t j where y: "y \<in> set (Q t j)" "r = rest_of (ob_nodes b ! y)"
        using book_orders_rep [OF R, of r] m(1) by (auto simp: queued_def)
      then have "y = x" using queued_id_inj [OF R y(1) x(1)] m(2) x(2) by simp
      with y(2) show ?thesis by simp
    qed
    ultimately have ex: "(\<exists>r\<in>set (book_orders b). ro_id r = k \<and> amt \<le> ro_qty r) \<longleftrightarrow> amt \<le> ?q"
      using x(2) by (metis rest_of_sel(1,3))
    have n: "bo_side (ob_nodes b ! x) = s" "index_of (ob_cfg b) (bo_price (ob_nodes b ! x)) = int i"
      using book_repD(6) [OF R x(1)] index_of_price_of [OF book_repD(1) [OF R], of i] queue_level [OF R x(1)]
        book_repD(2) [OF R] by (auto simp: node_ok_def)
    consider "amt > ?q" | "amt = ?q" | "amt < ?q" by force
    then show ?thesis
    proof cases
      case 1
      then show ?thesis using Some assms ex by (simp add: ob_reduce_def)
    next
      case 2
      then show ?thesis using Some ex unlink_resting(1,2,4) [OF R x(1)] x(2) by (simp add: ob_reduce_def)
    next
      case 3
      then have "\<not> ?q < amt" "amt \<noteq> ?q" "amt \<le> ?q" by auto
      then show ?thesis using Some ex shrink_resting [OF R x(1) 3] x(2) n by (simp add: ob_reduce_def Let_def)
    qed
  qed
qed

text \<open>The front of a side is the head of its first open level.\<close>

lemma front_rep:
  assumes R: "book_rep b Q F" and ne: "resting_orders s b \<noteq> []"
  obtains i x where "ld_best (ladder_of s b) = int i" "i < ob_levels_per_side b" "hd (Q s i) = x"
    "x \<in> set (Q s i)" "lv_head (ld_levels (ladder_of s b) ! i) = x"
    "hd (resting_orders s b) = rest_of (ob_nodes b ! x)" "open_levels Q s (ob_levels_per_side b) \<noteq> []"
    "i = hd (open_levels Q s (ob_levels_per_side b))"
proof -
  let ?A = "open_levels Q s (ob_levels_per_side b)"
  have rest: "resting_orders s b = concat (map (\<lambda>i. map (\<lambda>x. rest_of (ob_nodes b ! x)) (Q s i)) ?A)"
    by (simp add: resting_rep [OF R] concat_open_levels queue_nodes_def)
  then obtain i A where A: "?A = i # A" using ne by (cases ?A) auto
  then have "i \<in> set ?A" by simp
  then have i: "Q s i \<noteq> []" "i < ob_levels_per_side b" by (auto simp: open_levels_def)
  then obtain x xs where x: "Q s i = x # xs" by (cases "Q s i") auto
  show thesis
  proof (rule that [of i x])
    show "ld_best (ladder_of s b) = int i" using best_hd [OF R, of s] A by simp
    show "lv_head (ld_levels (ladder_of s b) ! i) = x"
      using queue_level_rep [OF R i(2), of s] x by (simp add: level_rep_def)
    show "hd (resting_orders s b) = rest_of (ob_nodes b ! x)" using rest A x by simp
  qed (use A i x in auto)
qed

lemma book_empty:
  assumes "book_inv b"
  shows "ob_empty s b \<longleftrightarrow> resting_orders s b = []"
proof -
  obtain Q F where R: "book_rep b Q F" using assms by (auto simp: book_inv_def)
  let ?A = "open_levels Q s (ob_levels_per_side b)"
  have "resting_orders s b = concat (map (\<lambda>i. map (\<lambda>x. rest_of (ob_nodes b ! x)) (Q s i)) ?A)"
    by (simp add: resting_rep [OF R] concat_open_levels queue_nodes_def)
  moreover have "\<forall>i\<in>set ?A. Q s i \<noteq> []" by (auto simp: open_levels_def)
  ultimately show ?thesis by (cases ?A) (auto simp: ob_empty_def best_hd [OF R])
qed

lemma book_front:
  assumes "book_inv b"
  shows "map_option rest_of (ob_front s b) =
    (case resting_orders s b of [] \<Rightarrow> None | r # _ \<Rightarrow> Some r)"
proof (cases "resting_orders s b")
  case Nil
  then show ?thesis using book_empty [OF assms, of s] by (simp add: ob_front_def ob_empty_def)
next
  case (Cons r rs)
  obtain Q F where R: "book_rep b Q F" using assms by (auto simp: book_inv_def)
  show ?thesis by (rule front_rep [OF R, of s]) (use Cons in \<open>auto simp: ob_front_def Let_def\<close>)
qed

lemma book_best_price:
  assumes "book_inv b" "resting_orders s b \<noteq> []"
  shows "best_price s b = ro_price (hd (resting_orders s b))"
proof -
  obtain Q F where R: "book_rep b Q F" using assms by (auto simp: book_inv_def)
  obtain i x where x: "ld_best (ladder_of s b) = int i" "x \<in> set (Q s i)"
    "hd (resting_orders s b) = rest_of (ob_nodes b ! x)"
    by (rule front_rep [OF R assms(2)])
  then show ?thesis using book_repD(6) [OF R x(2)] by (simp add: best_price_def node_ok_def)
qed

lemma reduce_list_hd:
  "reduce_list (ro_id r) amt (r # rs) = (if ro_qty r = amt then rs else r\<lparr>ro_qty := ro_qty r - amt\<rparr> # rs)"
  by simp

lemma book_reduce_front:
  assumes inv: "book_inv b" and front: "resting_orders s b = r # rs" and amt: "amt \<le> ro_qty r"
  shows "book_inv (ob_reduce_front s amt b) \<and> ob_cfg (ob_reduce_front s amt b) = ob_cfg b \<and>
    (\<forall>t. resting_orders t (ob_reduce_front s amt b) = (if t = s
      then if ro_qty r = amt then rs else r\<lparr>ro_qty := ro_qty r - amt\<rparr> # rs else resting_orders t b))"
proof -
  obtain Q F where R: "book_rep b Q F" using inv by (auto simp: book_inv_def)
  obtain i x where x: "ld_best (ladder_of s b) = int i" "x \<in> set (Q s i)"
    "lv_head (ld_levels (ladder_of s b) ! i) = x" "r = rest_of (ob_nodes b ! x)"
    using front_rep [OF R, of s] front by (metis list.distinct(1) list.sel(1))
  have other: "t \<noteq> s \<Longrightarrow> reduce_list (bo_id (ob_nodes b ! x)) a (resting_orders t b) = resting_orders t b" for a t
    using resting_ids_other [OF R x(2), of t] by (simp add: reduce_list_absent)
  show ?thesis
  proof (cases "amt = ro_qty r")
    case True
    then have "ob_reduce_front s amt b = unlink_and_free x b"
      using x by (simp add: ob_reduce_front_def Let_def)
    with True x(4) show ?thesis using unlink_resting(1,2,4) [OF R x(2)] other front by simp
  next
    case False
    then have lt: "amt < bo_qty (ob_nodes b ! x)" using amt x(4) by simp
    then have "ob_reduce_front s amt b = shrink_node x amt s (int i) b"
      using x by (simp add: ob_reduce_front_def Let_def)
    with False x(4) show ?thesis using shrink_resting [OF R x(2) lt] other front by auto
  qed
qed

lemma book_sorted:
  assumes "book_inv b"
  shows "sorted_wrt (\<lambda>r r'. at_least s (ro_price r) (ro_price r')) (resting_orders s b)"
proof -
  obtain Q F where R: "book_rep b Q F" using assms by (auto simp: book_inv_def)
  let ?P = "\<lambda>x y. at_least s (bo_price (ob_nodes b ! x)) (bo_price (ob_nodes b ! y))"
  have pr: "bo_price (ob_nodes b ! x) = price_of (ob_cfg b) (int i)" if "x \<in> set (Q s i)" for x i
    using book_repD(6) [OF R that] by (simp add: node_ok_def)
  have "sorted_wrt ?P (concat (map (Q s) js))" if "sorted_wrt (better s) js" for js
    using that
  proof (induction js)
    case (Cons j js)
    have "sorted_wrt ?P (Q s j)" using pr [of _ j] by (auto simp: sorted_wrt_iff_nth_less)
    moreover have "?P x y" if "x \<in> set (Q s j)" "y \<in> set (Q s j')" "j' \<in> set js" for x y j'
      using that pr Cons.prems at_least_price_of [OF book_repD(1) [OF R], of s j j'] better_asym [of s j j'] by simp
    ultimately show ?case using Cons by (auto simp: sorted_wrt_append)
  qed simp
  from this [OF sorted_prio_levels] show ?thesis
    by (simp add: resting_rep [OF R] queue_nodes_def sorted_wrt_map)
qed

lemma book_node_facts:
  assumes "book_inv b" "r \<in> set (resting_orders s b)"
  shows "ro_side r = s" "ro_qty r \<noteq> 0" "valid_price b (ro_price r)" "ro_id r \<noteq> 0"
proof -
  obtain Q F where R: "book_rep b Q F" using assms by (auto simp: book_inv_def)
  obtain x i where x: "x \<in> set (Q s i)" "r = rest_of (ob_nodes b ! x)"
    using assms(2) by (auto simp: resting_rep [OF R] set_queue_nodes [OF R])
  note n = book_repD(6) [OF R x(1)]
  show "ro_side r = s" "ro_qty r \<noteq> 0" using n x(2) by (auto simp: node_ok_def)
  show "valid_price b (ro_price r)"
    using n x(2) valid_price_iff [OF book_repD(1) [OF R]] queue_level [OF R x(1)] book_repD(2) [OF R]
    by (auto simp: node_ok_def)
  show "ro_id r \<noteq> 0" using n x(2) by (auto simp: node_ok_def fm_find_def kEmpty_def)
qed

lemma book_inv_distinct: "book_inv b \<Longrightarrow> distinct (map ro_id (book_orders b))"
  using book_distinct by (auto simp: book_inv_def)

lemma book_order_count:
  assumes "book_inv b"
  shows "ob_live b = length (book_orders b)" "length (book_orders b) \<le> unat (bc_max_orders (ob_cfg b))"
  using assms live_count(1,3) book_repD(3) unfolding book_inv_def by metis+

lemma book_clear:
  assumes "book_inv b"
  shows "book_inv (ob_clear b)" "resting_orders s (ob_clear b) = []" "ob_cfg (ob_clear b) = ob_cfg b"
proof -
  obtain Q F where R: "book_rep b Q F" using assms by (auto simp: book_inv_def)
  have "book_rep (ob_clear b) (\<lambda>_ _. []) [0..<length (ob_nodes b)]"
    using book_repD(1-3,7) [OF R] ladder_rep_clearable [OF book_repD(5) [OF R]]
    by (intro clear_rep) (auto simp: ids_rep_def)
  note C = this
  show "book_inv (ob_clear b)" using C by (auto simp: book_inv_def)
  show "resting_orders s (ob_clear b) = []" by (simp add: resting_rep [OF C] queue_nodes_def)
  show "ob_cfg (ob_clear b) = ob_cfg b" by (simp add: ob_clear_def)
qed

lemma book_new:
  assumes "cfg_ok cfg"
  shows "\<exists>b. OrderBook cfg = Some b \<and> book_inv b \<and> ob_cfg b = cfg \<and> (\<forall>s. resting_orders s b = [])"
proof -
  obtain b where b: "OrderBook cfg = Some b" "ob_cfg b = cfg"
    "book_rep b (\<lambda>_ _. []) [0..<unat (bc_max_orders cfg)]"
    using OrderBook_rep [OF assms] by auto
  have "resting_orders s b = []" for s by (simp add: resting_rep [OF b(3)] queue_nodes_def)
  with b show ?thesis by (auto simp: book_inv_def)
qed

lemma book_inv_cfg: "book_inv b \<Longrightarrow> cfg_ok (ob_cfg b)"
  using book_repD(1) by (auto simp: book_inv_def)

section \<open>Level summaries\<close>

definition total_qty :: "resting list \<Rightarrow> nat" where
  "total_qty rs = (\<Sum>r\<leftarrow>rs. unat (ro_qty r))"

definition at_price :: "price \<Rightarrow> resting list \<Rightarrow> resting list" where
  "at_price p rs = filter (\<lambda>r. ro_price r = p) rs"

lemma total_qty_simps [simp]:
  "total_qty [] = 0" "total_qty (r # rs) = unat (ro_qty r) + total_qty rs"
  "total_qty (xs @ ys) = total_qty xs + total_qty ys"
  by (simp_all add: total_qty_def)

text \<open>The 64-bit sum of a level's 32-bit quantities does not wrap: a level holds fewer than 2^32 orders.\<close>

lemma level_qty_exact:
  assumes "length xs < 2 ^ 32"
  shows "unat (level_qty ns xs) = total_qty (map (\<lambda>x. rest_of (ns ! x)) xs)"
proof -
  have q: "unat (q :: u32) < 2 ^ 32" for q using unsigned_less [of q] by simp
  have "unat (level_qty ns xs) = total_qty (map (\<lambda>x. rest_of (ns ! x)) xs) \<and>
      total_qty (map (\<lambda>x. rest_of (ns ! x)) xs) \<le> length xs * 2 ^ 32"
    using assms
  proof (induction xs)
    case (Cons x xs)
    let ?q = "bo_qty (ns ! x)"
    have u: "unat (ucast ?q :: u64) = unat ?q" using q [of ?q] by (simp add: unsigned_ucast_eq take_bit_nat_eq_self)
    have "unat ?q + total_qty (map (\<lambda>x. rest_of (ns ! x)) xs) \<le> Suc (length xs) * 2 ^ 32"
      using Cons q [of ?q] by simp
    moreover have "Suc (length xs) * 2 ^ 32 < 2 ^ 64" using Cons.prems by simp
    ultimately have "unat (ucast ?q + level_qty ns xs :: u64) = unat ?q + unat (level_qty ns xs)"
      using Cons u by (subst unat_add_no_wrap) auto
    with Cons q [of ?q] show ?case by simp
  qed simp
  then show ?thesis by simp
qed

lemma at_price_rep:
  assumes R: "book_rep b Q F" and i: "i < ob_levels_per_side b"
  shows "at_price (price_of (ob_cfg b) (int i)) (resting_orders s b) = map (\<lambda>x. rest_of (ob_nodes b ! x)) (Q s i)"
proof -
  let ?p = "price_of (ob_cfg b) (int i)" and ?f = "\<lambda>x. rest_of (ob_nodes b ! x)"
  have pr: "bo_price (ob_nodes b ! x) = price_of (ob_cfg b) (int j)" if "x \<in> set (Q s j)" for x j
    using book_repD(6) [OF R that] by (simp add: node_ok_def)
  have one: "at_price ?p (map ?f (Q s j)) = (if j = i then map ?f (Q s i) else [])" for j
    using pr [of _ j] price_of_inj [OF book_repD(1) [OF R]]
    by (auto simp: at_price_def filter_empty_conv intro!: filter_True)
  have "at_price ?p (map ?f (concat (map (Q s) js))) = (if i \<in> set js then map ?f (Q s i) else [])" if "distinct js" for js
    using that
  proof (induction js)
    case (Cons j js)
    then show ?case using one [of j] by (auto simp: at_price_def)
  qed (simp add: at_price_def)
  from this [of "prio_levels s (ob_levels_per_side b)"] i show ?thesis
    by (simp add: resting_rep [OF R] queue_nodes_def)
qed

lemma level_rep_view:
  assumes R: "book_rep b Q F" and i: "i < ob_levels_per_side b"
  shows "level_at s (price_of (ob_cfg b) (int i)) b =
    \<lparr>lw_price = price_of (ob_cfg b) (int i), lw_qty = level_qty (ob_nodes b) (Q s i),
     lw_orders = of_nat (length (Q s i))\<rparr>"
  using queue_level_rep [OF R i, of s] valid_price_iff [OF book_repD(1) [OF R]] i book_repD(2) [OF R]
    index_of_price_of [OF book_repD(1) [OF R], of i]
  by (auto simp: level_at_def level_rep_def)

lemma book_level_at:
  assumes "book_inv b"
  shows "lw_price (level_at s p b) = p"
    "unat (lw_qty (level_at s p b)) = total_qty (at_price p (resting_orders s b))"
    "unat (lw_orders (level_at s p b)) = length (at_price p (resting_orders s b))"
proof -
  obtain Q F where R: "book_rep b Q F" using assms by (auto simp: book_inv_def)
  have "lw_price (level_at s p b) = p \<and>
    unat (lw_qty (level_at s p b)) = total_qty (at_price p (resting_orders s b)) \<and>
    unat (lw_orders (level_at s p b)) = length (at_price p (resting_orders s b))"
  proof (cases "valid_price b p")
    case True
    then obtain i where i: "i < ob_levels_per_side b" "p = price_of (ob_cfg b) (int i)"
      using valid_price_iff [OF book_repD(1) [OF R]] book_repD(2) [OF R] by auto
    then show ?thesis
      using level_rep_view [OF R i(1), of s] at_price_rep [OF R i(1), of s] level_qty_exact [OF queue_length [OF R]]
        queue_length [OF R, of s i] by (simp add: unsigned_of_nat take_bit_nat_eq_self)
  next
    case False
    then have "at_price p (resting_orders s b) = []"
      using book_node_facts(3) [OF assms] by (auto simp: at_price_def filter_empty_conv)
    then show ?thesis using False by (simp add: level_at_def)
  qed
  then show "lw_price (level_at s p b) = p"
    "unat (lw_qty (level_at s p b)) = total_qty (at_price p (resting_orders s b))"
    "unat (lw_orders (level_at s p b)) = length (at_price p (resting_orders s b))" by auto
qed

lemma book_best_level:
  assumes "book_inv b"
  shows "unat (best_qty s b) = (case resting_orders s b of [] \<Rightarrow> 0
      | r # _ \<Rightarrow> total_qty (at_price (ro_price r) (resting_orders s b)))"
    "unat (best_count s b) = (case resting_orders s b of [] \<Rightarrow> 0
      | r # _ \<Rightarrow> length (at_price (ro_price r) (resting_orders s b)))"
proof -
  obtain Q F where R: "book_rep b Q F" using assms by (auto simp: book_inv_def)
  have "best_qty s b = lw_qty (level_at s (best_price s b) b) \<and>
      best_count s b = lw_orders (level_at s (best_price s b) b)" if ne: "resting_orders s b \<noteq> []"
  proof -
    obtain i where i: "ld_best (ladder_of s b) = int i" "i < ob_levels_per_side b"
      by (rule front_rep [OF R ne])
    then show ?thesis
      using level_rep_view [OF R i(2), of s] queue_level_rep [OF R i(2), of s]
      by (simp add: best_qty_def best_count_def best_price_def level_rep_def)
  qed
  then show "unat (best_qty s b) = (case resting_orders s b of [] \<Rightarrow> 0
      | r # _ \<Rightarrow> total_qty (at_price (ro_price r) (resting_orders s b)))"
    "unat (best_count s b) = (case resting_orders s b of [] \<Rightarrow> 0
      | r # _ \<Rightarrow> length (at_price (ro_price r) (resting_orders s b)))"
    using book_empty [OF assms, of s] book_best_price [OF assms, of s] book_level_at [OF assms]
    by (auto simp: best_qty_def best_count_def ob_empty_def split: list.splits)
qed

lemma remdups_adj_block: "remdups_adj (replicate (Suc n) p @ ys) = remdups_adj (p # ys)"
  by (induction n) auto

lemma remdups_adj_fresh: "p \<notin> set ys \<Longrightarrow> remdups_adj (p # ys) = p # remdups_adj ys"
  by (cases ys) auto

lemma remdups_adj_blocks:
  assumes "\<And>i. i \<in> set A \<Longrightarrow> n i > 0" "distinct (map p A)"
  shows "remdups_adj (concat (map (\<lambda>i. replicate (n i) (p i)) A)) = map p A"
  using assms
proof (induction A)
  case (Cons a A)
  let ?ys = "concat (map (\<lambda>i. replicate (n i) (p i)) A)"
  obtain m where m: "n a = Suc m" using Cons.prems(1) [of a] by (cases "n a") auto
  have IH: "remdups_adj ?ys = map p A" using Cons by simp
  have "set ?ys \<subseteq> p ` set A" by auto
  then have "p a \<notin> set ?ys" using Cons.prems(2) by auto
  then have "remdups_adj (p a # ?ys) = p a # remdups_adj ?ys" by (rule remdups_adj_fresh)
  then show ?case using remdups_adj_block [of m "p a" ?ys] IH by (simp add: m)
qed simp

lemma book_for_each_level:
  assumes "book_inv b"
  shows "for_each_level s n b =
    map (\<lambda>p. level_at s p b) (take n (remdups_adj (map ro_price (resting_orders s b))))"
proof -
  obtain Q F where R: "book_rep b Q F" using assms by (auto simp: book_inv_def)
  let ?A = "open_levels Q s (ob_levels_per_side b)" and ?p = "\<lambda>i. price_of (ob_cfg b) (int i)"
  have A: "Q s i \<noteq> [] \<and> i < ob_levels_per_side b" if "i \<in> set ?A" for i using that by (auto simp: open_levels_def)
  have "map ro_price (resting_orders s b) = concat (map (\<lambda>i. map (\<lambda>x. bo_price (ob_nodes b ! x)) (Q s i)) ?A)"
    by (simp add: resting_rep [OF R] concat_open_levels queue_nodes_def)
  also have "\<dots> = concat (map (\<lambda>i. replicate (length (Q s i)) (?p i)) ?A)"
  proof -
    have "map (\<lambda>x. bo_price (ob_nodes b ! x)) (Q s i) = replicate (length (Q s i)) (?p i)" for i
      using book_repD(6) [OF R, of _ s i] by (intro replicate_eqI) (auto simp: node_ok_def)
    then show ?thesis by simp
  qed
  also have "remdups_adj \<dots> = map ?p ?A"
  proof (rule remdups_adj_blocks)
    have "distinct ?A" by (simp add: open_levels_def)
    moreover have "inj ?p" by (intro injI) (simp add: price_of_inj [OF book_repD(1) [OF R]])
    ultimately show "distinct (map ?p ?A)" by (auto simp: distinct_map intro: inj_on_subset)
  qed (use A in auto)
  finally have "remdups_adj (map ro_price (resting_orders s b)) = map ?p ?A" .
  moreover have "for_each_level s n b = map (\<lambda>i. level_at s (?p i) b) (take n ?A)"
    using level_walk_rep [OF R walkable_open [OF R], of s n] level_rep_view [OF R, of _ s] A
    by (auto simp: for_each_level_def best_hd [OF R] dest: in_set_takeD)
  ultimately show ?thesis by (simp add: take_map)
qed

end
