(* ===== verification/Book_Interface.thy ===== *)
theory Book_Interface
  imports Book_Spec
begin

text \<open>
  The contract of the order book as its two clients see it: the matching engine and the feed
  handler's replica. The locale states the laws over the abstract lists; the lemmas inside it are
  what the clients need (reducing the front order is reducing it by id; equal books stay equal
  under equal updates). It is interpreted on the operations of \<open>Order_Book\<close>.
\<close>

text \<open>What the market data feed carries of a resting order: no owner, no client reference.\<close>

definition public :: "resting \<Rightarrow> resting" where
  "public r = r\<lparr>ro_owner := 0, ro_user_ref := 0\<rparr>"

lemma public_sel [simp]:
  "ro_id (public r) = ro_id r" "ro_price (public r) = ro_price r" "ro_qty (public r) = ro_qty r"
  "ro_side (public r) = ro_side r"
  by (simp_all add: public_def)

lemma public_update [simp]: "public (r\<lparr>ro_qty := q\<rparr>) = (public r)\<lparr>ro_qty := q\<rparr>"
  by (simp add: public_def)

lemma public_idem [simp]: "public (public r) = public r"
  by (simp add: public_def)

lemma map_public_insert: "map public (insert_prio s r xs) = insert_prio s (public r) (map public xs)"
  by (simp add: insert_prio_def takeWhile_map dropWhile_map o_def)

lemma map_public_remove: "map public (remove_list k xs) = remove_list k (map public xs)"
  by (simp add: remove_list_def filter_map o_def)

lemma map_public_reduce: "map public (reduce_list k a xs) = reduce_list k a (map public xs)"
  by (induction xs) auto

lemma insert_prio_ids: "set (insert_prio s r xs) = insert r (set xs)"
proof -
  let ?P = "\<lambda>y. at_least s (ro_price y) (ro_price r)"
  have "set (takeWhile ?P xs) \<union> set (dropWhile ?P xs) = set xs"
    by (metis set_append takeWhile_dropWhile_id)
  then show ?thesis by (auto simp: insert_prio_def)
qed

lemma length_insert_prio [simp]: "length (insert_prio s r xs) = Suc (length xs)"
proof -
  have "length (takeWhile P xs) + length (dropWhile P xs) = length xs" for P :: "resting \<Rightarrow> bool"
    by (metis length_append takeWhile_dropWhile_id)
  then show ?thesis by (simp add: insert_prio_def)
qed

locale price_time_book =
  fixes add :: "order_id \<Rightarrow> side \<Rightarrow> price \<Rightarrow> qty \<Rightarrow> u32 \<Rightarrow> u32 \<Rightarrow> 'b \<Rightarrow> add_result \<times> 'b"
    and remove :: "order_id \<Rightarrow> 'b \<Rightarrow> bool \<times> 'b"
    and reduce :: "order_id \<Rightarrow> qty \<Rightarrow> 'b \<Rightarrow> bool \<times> 'b"
    and front :: "side \<Rightarrow> 'b \<Rightarrow> resting option"
    and reduce_front :: "side \<Rightarrow> qty \<Rightarrow> 'b \<Rightarrow> 'b"
    and clear :: "'b \<Rightarrow> 'b"
    and orders :: "side \<Rightarrow> 'b \<Rightarrow> resting list"
    and grid :: "'b \<Rightarrow> price \<Rightarrow> bool"
    and capacity :: "'b \<Rightarrow> nat"
    and inv :: "'b \<Rightarrow> bool"
  assumes sides: "inv b \<Longrightarrow> r \<in> set (orders s b) \<Longrightarrow> ro_side r = s \<and> ro_qty r \<noteq> 0 \<and> grid b (ro_price r)"
    and ids: "inv b \<Longrightarrow> distinct (map ro_id (orders Buy b @ orders Sell b))"
    and prio: "inv b \<Longrightarrow> sorted_wrt (\<lambda>r r'. at_least s (ro_price r) (ro_price r')) (orders s b)"
    and front_law: "inv b \<Longrightarrow> front s b = (case orders s b of [] \<Rightarrow> None | r # _ \<Rightarrow> Some r)"
    and add_law: "inv b \<Longrightarrow> grid b p \<Longrightarrow> q \<noteq> 0 \<Longrightarrow> k \<noteq> 0 \<Longrightarrow> k \<notin> ro_id ` (\<Union>t. set (orders t b)) \<Longrightarrow>
      length (orders Buy b) + length (orders Sell b) < capacity b \<Longrightarrow>
      \<exists>b'. add k s p q ow ur b = (AddOk, b') \<and> inv b' \<and> grid b' = grid b \<and> capacity b' = capacity b \<and>
        (\<forall>t. orders t b' = (if t = s then insert_prio s \<lparr>ro_id = k, ro_price = p, ro_qty = q, ro_owner = ow,
           ro_user_ref = ur, ro_side = s\<rparr> (orders s b) else orders t b))"
    and remove_law: "inv b \<Longrightarrow>
      \<exists>b'. remove k b = (k \<in> ro_id ` (\<Union>t. set (orders t b)), b') \<and> inv b' \<and> grid b' = grid b \<and>
        capacity b' = capacity b \<and> (\<forall>t. orders t b' = remove_list k (orders t b))"
    and reduce_law: "inv b \<Longrightarrow> r \<in> set (orders s b) \<Longrightarrow> a \<le> ro_qty r \<Longrightarrow>
      \<exists>b'. reduce (ro_id r) a b = (True, b') \<and> inv b' \<and> grid b' = grid b \<and> capacity b' = capacity b \<and>
        (\<forall>t. orders t b' = reduce_list (ro_id r) a (orders t b))"
    and reduce_front_law: "inv b \<Longrightarrow> orders s b = r # rs \<Longrightarrow> a \<le> ro_qty r \<Longrightarrow>
      inv (reduce_front s a b) \<and> grid (reduce_front s a b) = grid b \<and> capacity (reduce_front s a b) = capacity b \<and>
      (\<forall>t. orders t (reduce_front s a b) =
        (if t = s then if ro_qty r = a then rs else r\<lparr>ro_qty := ro_qty r - a\<rparr> # rs else orders t b))"
    and clear_law: "inv b \<Longrightarrow> inv (clear b) \<and> orders s (clear b) = [] \<and> grid (clear b) = grid b \<and>
      capacity (clear b) = capacity b"
begin

definition mirrors :: "'b \<Rightarrow> 'b \<Rightarrow> bool" where
  "mirrors b c \<longleftrightarrow> inv b \<and> inv c \<and> grid b = grid c \<and> capacity b = capacity c \<and>
     (\<forall>s. map public (orders s b) = orders s c)"

lemma id_set: "ro_id ` (\<Union>t. set (orders t b)) = set (map ro_id (orders Buy b @ orders Sell b))"
  by (auto simp: image_iff) (metis side.exhaust)

lemma ids_other_side:
  assumes "inv b" "r \<in> set (orders s b)" "t \<noteq> s"
  shows "ro_id r \<notin> ro_id ` set (orders t b)"
  using ids [OF assms(1)] assms(2,3) by (cases s; cases t) (auto simp: image_iff)

text \<open>Reducing the front order is reducing it by its id.\<close>

lemma reduce_front_by_id:
  assumes "inv b" "orders s b = r # rs" "a \<le> ro_qty r"
  shows "orders t (reduce_front s a b) = reduce_list (ro_id r) a (orders t b)"
  using reduce_front_law [OF assms] ids_other_side [OF assms(1), of r s t] assms(2)
  by (auto simp: reduce_list_absent)

text \<open>Removing the front order by its id drops the head of the list.\<close>

lemma remove_front:
  assumes "inv b" "orders s b = r # rs"
  shows "inv (snd (remove (ro_id r) b))" "orders s (snd (remove (ro_id r) b)) = rs"
    "t \<noteq> s \<Longrightarrow> orders t (snd (remove (ro_id r) b)) = orders t b"
    "grid (snd (remove (ro_id r) b)) = grid b" "capacity (snd (remove (ro_id r) b)) = capacity b"
proof -
  obtain b' where b': "remove (ro_id r) b = (ro_id r \<in> ro_id ` (\<Union>t. set (orders t b)), b')" "inv b'"
    "grid b' = grid b" "capacity b' = capacity b" "\<And>t. orders t b' = remove_list (ro_id r) (orders t b)"
    using remove_law [OF assms(1), of "ro_id r"] by auto
  have "distinct (map ro_id (orders s b))" using ids [OF assms(1)] by (cases s) auto
  then have "ro_id r \<notin> ro_id ` set rs" using assms(2) by auto
  then have "remove_list (ro_id r) (r # rs) = rs" using remove_list_split [of r "[]" rs] by simp
  then show "inv (snd (remove (ro_id r) b))" "orders s (snd (remove (ro_id r) b)) = rs"
    "grid (snd (remove (ro_id r) b)) = grid b" "capacity (snd (remove (ro_id r) b)) = capacity b"
    using b' assms(2) by simp_all
  show "orders t (snd (remove (ro_id r) b)) = orders t b" if "t \<noteq> s"
    using b'(1,5) ids_other_side [OF assms(1) _ that, of r] assms(2) by (simp add: remove_list_absent)
qed

lemma mirrorsD:
  assumes "mirrors b c"
  shows "inv b" "inv c" "grid b = grid c" "capacity b = capacity c" "orders s c = map public (orders s b)"
  using assms by (auto simp: mirrors_def)

lemma mirror_ids: "mirrors b c \<Longrightarrow> ro_id ` set (orders s c) = ro_id ` set (orders s b)"
  by (simp add: mirrorsD(5) image_image)

lemma mirror_add:
  assumes M: "mirrors b c" and g: "grid b p" "q \<noteq> 0" "k \<noteq> 0" "k \<notin> ro_id ` (\<Union>t. set (orders t b))"
    "length (orders Buy b) + length (orders Sell b) < capacity b"
  shows "\<exists>b' c'. add k s p q ow ur b = (AddOk, b') \<and> add k s p q 0 0 c = (AddOk, c') \<and> mirrors b' c'"
proof -
  note D = mirrorsD [OF M]
  have "k \<notin> ro_id ` (\<Union>t. set (orders t c))" using g(4) mirror_ids [OF M] by (simp add: image_UN)
  moreover have "length (orders Buy c) + length (orders Sell c) < capacity c" using g(5) D(4,5) by simp
  ultimately obtain c' where c': "add k s p q 0 0 c = (AddOk, c')" "inv c'" "grid c' = grid c"
    "capacity c' = capacity c" "\<And>t. orders t c' = (if t = s then insert_prio s \<lparr>ro_id = k, ro_price = p,
       ro_qty = q, ro_owner = 0, ro_user_ref = 0, ro_side = s\<rparr> (orders s c) else orders t c)"
    using add_law [OF D(2) _ g(2,3), of p s 0 0] g(1) D(3) by auto
  obtain b' where b': "add k s p q ow ur b = (AddOk, b')" "inv b'" "grid b' = grid b" "capacity b' = capacity b"
    "\<And>t. orders t b' = (if t = s then insert_prio s \<lparr>ro_id = k, ro_price = p, ro_qty = q, ro_owner = ow,
       ro_user_ref = ur, ro_side = s\<rparr> (orders s b) else orders t b)"
    using add_law [OF D(1) g, of s ow ur] by auto
  have "mirrors b' c'"
    unfolding mirrors_def using b' c' D by (auto simp: map_public_insert) (simp_all add: public_def)
  with b'(1) c'(1) show ?thesis by blast
qed

lemma mirror_remove:
  assumes M: "mirrors b c" and k: "k \<in> ro_id ` (\<Union>t. set (orders t b))"
  shows "\<exists>b' c'. remove k b = (True, b') \<and> remove k c = (True, c') \<and> mirrors b' c'"
proof -
  note D = mirrorsD [OF M]
  have kc: "k \<in> ro_id ` (\<Union>t. set (orders t c))" using k mirror_ids [OF M] by (simp add: image_UN)
  obtain b' where "remove k b = (True, b')" "inv b'" "grid b' = grid b" "capacity b' = capacity b"
    "\<And>t. orders t b' = remove_list k (orders t b)" using remove_law [OF D(1), of k] k by auto
  moreover obtain c' where "remove k c = (True, c')" "inv c'" "grid c' = grid c" "capacity c' = capacity c"
    "\<And>t. orders t c' = remove_list k (orders t c)" using remove_law [OF D(2), of k] kc by auto
  ultimately show ?thesis using D by (auto simp: mirrors_def map_public_remove)
qed

lemma mirror_reduce:
  assumes M: "mirrors b c" and r: "r \<in> set (orders s b)" "a \<le> ro_qty r"
  shows "\<exists>b' c'. reduce (ro_id r) a b = (True, b') \<and> reduce (ro_id r) a c = (True, c') \<and> mirrors b' c'"
proof -
  note D = mirrorsD [OF M]
  have rc: "public r \<in> set (orders s c)" using r(1) D(5) by simp
  obtain b' where "reduce (ro_id r) a b = (True, b')" "inv b'" "grid b' = grid b" "capacity b' = capacity b"
    "\<And>t. orders t b' = reduce_list (ro_id r) a (orders t b)" using reduce_law [OF D(1) r] by auto
  moreover obtain c' where "reduce (ro_id r) a c = (True, c')" "inv c'" "grid c' = grid c"
    "capacity c' = capacity c" "\<And>t. orders t c' = reduce_list (ro_id r) a (orders t c)"
    using reduce_law [OF D(2) rc, of a] r(2) by auto
  ultimately show ?thesis using D by (auto simp: mirrors_def map_public_reduce)
qed

text \<open>The exchange reduces its front order; the replica reduces by id.\<close>

lemma mirror_reduce_front:
  assumes M: "mirrors b c" and f: "orders s b = r # rs" "a \<le> ro_qty r"
  shows "\<exists>c'. reduce (ro_id r) a c = (True, c') \<and> mirrors (reduce_front s a b) c'"
proof -
  note D = mirrorsD [OF M]
  have rc: "public r \<in> set (orders s c)" using f(1) D(5) [of s] by simp
  obtain c' where "reduce (ro_id r) a c = (True, c')" "inv c'" "grid c' = grid c" "capacity c' = capacity c"
    "\<And>t. orders t c' = reduce_list (ro_id r) a (orders t c)"
    using reduce_law [OF D(2) rc, of a] f(2) by auto
  moreover have "inv (reduce_front s a b) \<and> grid (reduce_front s a b) = grid b \<and>
      capacity (reduce_front s a b) = capacity b"
    using reduce_front_law [OF D(1) f] by simp
  ultimately show ?thesis
    using D reduce_front_by_id [OF D(1) f] by (simp add: mirrors_def map_public_reduce)
qed

end

definition ob_front_view :: "side \<Rightarrow> order_book \<Rightarrow> resting option" where
  "ob_front_view s b = map_option rest_of (ob_front s b)"

definition ob_capacity :: "order_book \<Rightarrow> nat" where
  "ob_capacity b = unat (bc_max_orders (ob_cfg b))"

lemma valid_price_cfg: "ob_cfg b' = ob_cfg b \<Longrightarrow> valid_price b' = valid_price b"
  by (simp add: valid_price_def fun_eq_iff)

lemma book_ids_union: "book_ids b = ro_id ` (\<Union>t. set (resting_orders t b))"
  by (simp add: book_ids_def set_book_orders)

interpretation ob: price_time_book ob_add ob_remove ob_reduce ob_front_view ob_reduce_front ob_clear
  resting_orders valid_price ob_capacity book_inv
proof unfold_locales
  fix b r s k p q ow ur a rs
  show "book_inv b \<Longrightarrow> r \<in> set (resting_orders s b) \<Longrightarrow> ro_side r = s \<and> ro_qty r \<noteq> 0 \<and> valid_price b (ro_price r)"
    using book_node_facts [of b r s] by simp
  show "book_inv b \<Longrightarrow> distinct (map ro_id (resting_orders Buy b @ resting_orders Sell b))"
    using book_inv_distinct [of b] by (simp add: book_orders_def)
  show "book_inv b \<Longrightarrow> sorted_wrt (\<lambda>r r'. at_least s (ro_price r) (ro_price r')) (resting_orders s b)"
    by (rule book_sorted)
  show "book_inv b \<Longrightarrow> ob_front_view s b = (case resting_orders s b of [] \<Rightarrow> None | r # _ \<Rightarrow> Some r)"
    by (simp add: ob_front_view_def book_front)
  show "\<exists>b'. ob_add k s p q ow ur b = (AddOk, b') \<and> book_inv b' \<and> valid_price b' = valid_price b \<and>
      ob_capacity b' = ob_capacity b \<and> (\<forall>t. resting_orders t b' = (if t = s then insert_prio s
        \<lparr>ro_id = k, ro_price = p, ro_qty = q, ro_owner = ow, ro_user_ref = ur, ro_side = s\<rparr> (resting_orders s b)
        else resting_orders t b))"
    if "book_inv b" "valid_price b p" "q \<noteq> 0" "k \<noteq> 0" "k \<notin> ro_id ` (\<Union>t. set (resting_orders t b))"
      "length (resting_orders Buy b) + length (resting_orders Sell b) < ob_capacity b"
  proof -
    have "add_verdict k p q b = AddOk"
      using that by (auto simp: add_verdict_def book_ids_union book_orders_def ob_capacity_def)
    with book_add [OF that(1), of k s p q ow ur] obtain b' where
      "ob_add k s p q ow ur b = (AddOk, b')" "book_inv b'" and cfg: "ob_cfg b' = ob_cfg b" and
      "\<forall>t. resting_orders t b' = (if t = s then insert_prio s \<lparr>ro_id = k, ro_price = p, ro_qty = q,
         ro_owner = ow, ro_user_ref = ur, ro_side = s\<rparr> (resting_orders s b) else resting_orders t b)"
      by auto
    then show ?thesis using valid_price_cfg [OF cfg] cfg by (simp add: ob_capacity_def)
  qed
  show "book_inv b \<Longrightarrow> \<exists>b'. ob_remove k b = (k \<in> ro_id ` (\<Union>t. set (resting_orders t b)), b') \<and> book_inv b' \<and>
      valid_price b' = valid_price b \<and> ob_capacity b' = ob_capacity b \<and>
      (\<forall>t. resting_orders t b' = remove_list k (resting_orders t b))"
    using book_remove [of b k] unfolding book_ids_union ob_capacity_def by (metis valid_price_cfg)
  show "\<exists>b'. ob_reduce (ro_id r) a b = (True, b') \<and> book_inv b' \<and> valid_price b' = valid_price b \<and>
      ob_capacity b' = ob_capacity b \<and> (\<forall>t. resting_orders t b' = reduce_list (ro_id r) a (resting_orders t b))"
    if "book_inv b" "r \<in> set (resting_orders s b)" "a \<le> ro_qty r"
  proof -
    have "\<exists>r'\<in>set (book_orders b). ro_id r' = ro_id r \<and> a \<le> ro_qty r'"
      using that(2,3) by (auto simp: set_book_orders)
    with book_reduce [OF that(1), of "ro_id r" a] obtain b' where
      "ob_reduce (ro_id r) a b = (True, b')" "book_inv b'" and cfg: "ob_cfg b' = ob_cfg b" and
      "\<forall>t. resting_orders t b' = reduce_list (ro_id r) a (resting_orders t b)"
      by auto
    then show ?thesis using valid_price_cfg [OF cfg] cfg by (simp add: ob_capacity_def)
  qed
  show "book_inv b \<Longrightarrow> resting_orders s b = r # rs \<Longrightarrow> a \<le> ro_qty r \<Longrightarrow>
      book_inv (ob_reduce_front s a b) \<and> valid_price (ob_reduce_front s a b) = valid_price b \<and>
      ob_capacity (ob_reduce_front s a b) = ob_capacity b \<and>
      (\<forall>t. resting_orders t (ob_reduce_front s a b) =
        (if t = s then if ro_qty r = a then rs else r\<lparr>ro_qty := ro_qty r - a\<rparr> # rs else resting_orders t b))"
    using book_reduce_front [of b s r rs a] valid_price_cfg [of "ob_reduce_front s a b" b]
    by (simp add: ob_capacity_def)
  show "book_inv b \<Longrightarrow> book_inv (ob_clear b) \<and> resting_orders s (ob_clear b) = [] \<and>
      valid_price (ob_clear b) = valid_price b \<and> ob_capacity (ob_clear b) = ob_capacity b"
    using book_clear [of b] valid_price_cfg [of "ob_clear b" b] by (simp add: ob_capacity_def)
qed

end
