(* ===== verification/Matching_Engine.thy ===== *)
theory Matching_Engine
  imports Book_Interface
begin

text \<open>
  Price-time priority matching (\<open>include/matching_engine.hpp\<close>, \<open>src/matching_engine.cpp\<close>). The
  listener's callbacks are a list of events in the order the engine makes them; a callback that
  receives a \<open>BookOrder\<close> carries its content without the pool links. The matching loop takes fuel
  (one more than the number of resting orders) and yields \<open>None\<close> when it runs out, which the
  invariant excludes. Shown: the loop is a walk down the list of the opposite side, with what
  that implies about fills, priority, self-matches, quantities and the state of the book.
\<close>

section \<open>Model\<close>

record order_request =
  rq_id :: order_id
  rq_side :: side
  rq_price :: price
  rq_qty :: qty
  rq_tif :: time_in_force
  rq_owner :: u32
  rq_user_ref :: u32

datatype reject_reason = RejBadPrice | RejBadQty | RejDuplicateId | RejBookFull | RejUnknownSymbol

datatype cancel_reason = UserRequested | ImmediateOrCancel | SelfMatch | Supervisory

datatype self_match_policy = CancelResting | CancelIncoming

record fill =
  fl_match_number :: u64
  fl_price :: price
  fl_qty :: qty
  fl_maker_id :: order_id
  fl_maker_owner :: u32
  fl_maker_user_ref :: u32
  fl_maker_side :: side
  fl_maker_remaining :: qty
  fl_taker_id :: order_id
  fl_taker_owner :: u32
  fl_taker_user_ref :: u32
  fl_taker_remaining :: qty

datatype engine_event =
    OnAccepted u16 order_request
  | OnRejected u16 order_request reject_reason
  | OnFill u16 fill
  | OnRested u16 resting
  | OnRestingCancelled u16 resting qty cancel_reason
  | OnTakerCancelled u16 order_request qty cancel_reason

datatype cancel_result = CancelOk | NoChange | UnknownOrder | UnknownSymbol | NotOwner

record matching_engine =
  me_stp :: self_match_policy
  me_max_order_qty :: qty
  me_books :: "order_book list"
  me_symbols :: "symbol list"
  me_next_match :: u64

definition MatchingEngine :: "self_match_policy \<Rightarrow> qty \<Rightarrow> matching_engine" where
  "MatchingEngine stp max_qty =
     \<lparr>me_stp = stp, me_max_order_qty = max_qty, me_books = [], me_symbols = [], me_next_match = 1\<rparr>"

text \<open>\<open>None\<close>: the \<open>OrderBook\<close> constructor threw.\<close>

definition add_symbol :: "symbol \<Rightarrow> book_config \<Rightarrow> matching_engine \<Rightarrow> (u16 \<times> matching_engine) option" where
  "add_symbol symb cfg e =
     (case OrderBook cfg of
        None \<Rightarrow> None
      | Some b \<Rightarrow> Some (of_nat (length (me_books e @ [b])),
                       e\<lparr>me_books := me_books e @ [b], me_symbols := me_symbols e @ [symb]\<rparr>))"

fun find_symbol_loop :: "symbol \<Rightarrow> symbol list \<Rightarrow> nat \<Rightarrow> u16" where
  "find_symbol_loop symb [] i = 0"
| "find_symbol_loop symb (x # xs) i = (if x = symb then of_nat (i + 1) else find_symbol_loop symb xs (i + 1))"

definition find_symbol :: "symbol \<Rightarrow> matching_engine \<Rightarrow> u16" where
  "find_symbol symb e = find_symbol_loop symb (me_symbols e) 0"

definition valid_locate :: "u16 \<Rightarrow> matching_engine \<Rightarrow> bool" where
  "valid_locate loc e \<longleftrightarrow> 1 \<le> unat loc \<and> unat loc \<le> length (me_books e)"

definition book_at :: "u16 \<Rightarrow> matching_engine \<Rightarrow> order_book" where
  "book_at loc e = me_books e ! (unat loc - 1)"

definition set_book :: "u16 \<Rightarrow> order_book \<Rightarrow> matching_engine \<Rightarrow> matching_engine" where
  "set_book loc b e = e\<lparr>me_books := (me_books e)[unat loc - 1 := b]\<rparr>"

definition trade_count :: "matching_engine \<Rightarrow> u64" where
  "trade_count e = me_next_match e - 1"

definition crosses :: "order_request \<Rightarrow> price \<Rightarrow> bool" where
  "crosses req maker_price \<longleftrightarrow>
     (if rq_side req = Buy then maker_price \<le> rq_price req else maker_price \<ge> rq_price req)"

definition mk_fill :: "order_request \<Rightarrow> u64 \<Rightarrow> resting \<Rightarrow> qty \<Rightarrow> qty \<Rightarrow> fill" where
  "mk_fill req match_number maker q remaining =
     \<lparr>fl_match_number = match_number, fl_price = ro_price maker, fl_qty = q,
      fl_maker_id = ro_id maker, fl_maker_owner = ro_owner maker, fl_maker_user_ref = ro_user_ref maker,
      fl_maker_side = ro_side maker, fl_maker_remaining = ro_qty maker - q,
      fl_taker_id = rq_id req, fl_taker_owner = rq_owner req, fl_taker_user_ref = rq_user_ref req,
      fl_taker_remaining = remaining - q\<rparr>"

text \<open>State of the loop: the book, the next match number and the remaining quantity. The result
  also says whether the function returned from inside the loop.\<close>

fun match_loop :: "nat \<Rightarrow> self_match_policy \<Rightarrow> u16 \<Rightarrow> order_request \<Rightarrow> order_book \<Rightarrow> u64 \<Rightarrow> qty \<Rightarrow>
    (bool \<times> order_book \<times> u64 \<times> qty \<times> engine_event list) option" where
  "match_loop 0 stp loc req b next_match remaining = None"
| "match_loop (Suc fuel) stp loc req b next_match remaining =
     (if remaining = 0 then Some (False, b, next_match, remaining, [])
      else case ob_front (opposite (rq_side req)) b of
        None \<Rightarrow> Some (False, b, next_match, remaining, [])
      | Some maker \<Rightarrow>
          if \<not> crosses req (bo_price maker) then Some (False, b, next_match, remaining, [])
          else if rq_owner req \<noteq> 0 \<and> bo_owner maker = rq_owner req
          then if stp = CancelResting
               then map_option (\<lambda>(ret, b, m, rem, evs).
                      (ret, b, m, rem, OnRestingCancelled loc (rest_of maker) (bo_qty maker) SelfMatch # evs))
                    (match_loop fuel stp loc req (snd (ob_remove (bo_id maker) b)) next_match remaining)
               else Some (True, b, next_match, remaining, [OnTakerCancelled loc req remaining SelfMatch])
          else let q = min remaining (bo_qty maker)
               in map_option (\<lambda>(ret, b, m, rem, evs).
                    (ret, b, m, rem, OnFill loc (mk_fill req next_match (rest_of maker) q remaining) # evs))
                  (match_loop fuel stp loc req (ob_reduce_front (opposite (rq_side req)) q b)
                     (next_match + 1) (remaining - q)))"

definition submit :: "u16 \<Rightarrow> order_request \<Rightarrow> matching_engine \<Rightarrow> (matching_engine \<times> engine_event list) option"
where
  "submit loc req e =
     (if \<not> valid_locate loc e then Some (e, [OnRejected loc req RejUnknownSymbol])
      else let book = book_at loc e
      in if rq_qty req = 0 \<or> rq_qty req > me_max_order_qty e then Some (e, [OnRejected loc req RejBadQty])
      else if \<not> valid_price book (rq_price req) then Some (e, [OnRejected loc req RejBadPrice])
      else if ob_find (rq_id req) book \<noteq> None then Some (e, [OnRejected loc req RejDuplicateId])
      else case match_loop (Suc (ob_live book)) (me_stp e) loc req book (me_next_match e) (rq_qty req) of
        None \<Rightarrow> None
      | Some (ret, book, next_match, remaining, evs) \<Rightarrow>
          let e = (set_book loc book e)\<lparr>me_next_match := next_match\<rparr>;
              evs = OnAccepted loc req # evs
          in if ret \<or> remaining = 0 then Some (e, evs)
          else if rq_tif req = IOC then Some (e, evs @ [OnTakerCancelled loc req remaining ImmediateOrCancel])
          else let (r, book) = ob_add (rq_id req) (rq_side req) (rq_price req) remaining
                                 (rq_owner req) (rq_user_ref req) book;
                   e = set_book loc book e
               in if r = AddOk
                  then Some (e, evs @ [OnRested loc (rest_of (the (ob_find (rq_id req) book)))])
                  else Some (e, evs @ [OnTakerCancelled loc req remaining Supervisory]))"

definition cancel :: "u16 \<Rightarrow> order_id \<Rightarrow> qty \<Rightarrow> u32 \<Rightarrow> cancel_reason \<Rightarrow> matching_engine \<Rightarrow>
    cancel_result \<times> matching_engine \<times> engine_event list" where
  "cancel loc oid new_qty owner why e =
     (if \<not> valid_locate loc e then (UnknownSymbol, e, [])
      else let book = book_at loc e
      in case ob_find oid book of
        None \<Rightarrow> (UnknownOrder, e, [])
      | Some ord \<Rightarrow>
          if bo_owner ord \<noteq> owner then (NotOwner, e, [])
          else if new_qty \<ge> bo_qty ord then (NoChange, e, [])
          else let cancelled = bo_qty ord - new_qty;
                   book = (if new_qty = 0 then snd (ob_remove oid book) else snd (ob_reduce oid cancelled book))
               in (CancelOk, set_book loc book e, [OnRestingCancelled loc (rest_of ord) cancelled why]))"

section \<open>The loop as a walk down the opposite side\<close>

text \<open>The specification: consume makers from the head of the list while they cross.\<close>

fun walk :: "self_match_policy \<Rightarrow> u16 \<Rightarrow> order_request \<Rightarrow> u64 \<Rightarrow> resting list \<Rightarrow> qty \<Rightarrow>
    bool \<times> resting list \<times> u64 \<times> qty \<times> engine_event list" where
  "walk stp loc req mn [] rem = (False, [], mn, rem, [])"
| "walk stp loc req mn (m # ms) rem =
     (if rem = 0 \<or> \<not> crosses req (ro_price m) then (False, m # ms, mn, rem, [])
      else if rq_owner req \<noteq> 0 \<and> ro_owner m = rq_owner req
      then if stp = CancelResting
           then case walk stp loc req mn ms rem of (ret, ms', mn', rem', evs) \<Rightarrow>
                  (ret, ms', mn', rem', OnRestingCancelled loc m (ro_qty m) SelfMatch # evs)
           else (True, m # ms, mn, rem, [OnTakerCancelled loc req rem SelfMatch])
      else if rem < ro_qty m
      then (False, m\<lparr>ro_qty := ro_qty m - rem\<rparr> # ms, mn + 1, 0, [OnFill loc (mk_fill req mn m rem rem)])
      else case walk stp loc req (mn + 1) ms (rem - ro_qty m) of (ret, ms', mn', rem', evs) \<Rightarrow>
             (ret, ms', mn', rem', OnFill loc (mk_fill req mn m (ro_qty m) rem) # evs))"

lemma walk_zero [simp]: "walk stp loc req mn ms 0 = (False, ms, mn, 0, [])"
  by (cases ms) simp_all

lemma front_view:
  assumes "book_inv b"
  shows "resting_orders s b = [] \<Longrightarrow> ob_front s b = None"
    "resting_orders s b = r # rs \<Longrightarrow> \<exists>m. ob_front s b = Some m \<and> rest_of m = r"
  using book_front [OF assms, of s] by auto

text \<open>A book after an operation of the loop: the opposite side is \<open>ms\<close>, the rest is unchanged.\<close>

definition contra_is :: "order_request \<Rightarrow> order_book \<Rightarrow> resting list \<Rightarrow> order_book \<Rightarrow> bool" where
  "contra_is req b ms b' \<longleftrightarrow> book_inv b' \<and> valid_price b' = valid_price b \<and> ob_capacity b' = ob_capacity b \<and>
     resting_orders (opposite (rq_side req)) b' = ms \<and>
     resting_orders (rq_side req) b' = resting_orders (rq_side req) b"

lemma contra_is_trans:
  "contra_is req b ms b' \<Longrightarrow> contra_is req b' ms' b'' \<Longrightarrow> contra_is req b ms' b''"
  by (simp add: contra_is_def)

lemma contra_is_refl: "book_inv b \<Longrightarrow> contra_is req b (resting_orders (opposite (rq_side req)) b) b"
  by (simp add: contra_is_def)

lemma contra_remove:
  assumes "book_inv b" "resting_orders (opposite (rq_side req)) b = m # ms"
  shows "contra_is req b ms (snd (ob_remove (ro_id m) b))"
  unfolding contra_is_def using ob.remove_front [OF assms] ob.remove_front(3) [OF assms, of "rq_side req"] by simp

lemma contra_reduce:
  assumes "book_inv b" "resting_orders (opposite (rq_side req)) b = m # ms" "q \<le> ro_qty m"
  shows "contra_is req b (if ro_qty m = q then ms else m\<lparr>ro_qty := ro_qty m - q\<rparr> # ms)
    (ob_reduce_front (opposite (rq_side req)) q b)"
  unfolding contra_is_def using ob.reduce_front_law [OF assms] by simp

text \<open>The loop of the source computes \<open>walk\<close>, and the fuel is enough.\<close>

lemma match_loop_walk:
  assumes "book_inv b" "length (resting_orders (opposite (rq_side req)) b) < fuel"
  shows "\<exists>ret b' mn' rem' evs.
    match_loop fuel stp loc req b mn rem = Some (ret, b', mn', rem', evs) \<and>
    walk stp loc req mn (resting_orders (opposite (rq_side req)) b) rem =
      (ret, resting_orders (opposite (rq_side req)) b', mn', rem', evs) \<and>
    contra_is req b (resting_orders (opposite (rq_side req)) b') b'"
  using assms
proof (induction fuel arbitrary: b mn rem)
  case (Suc fuel)
  let ?c = "opposite (rq_side req)"
  note inv = Suc.prems(1)
  have stay: "contra_is req b (resting_orders ?c b) b" using contra_is_refl [OF inv] .
  have step: "\<exists>ret b'' mn'' rem'' evs.
      match_loop fuel stp loc req b' mn' rem' = Some (ret, b'', mn'', rem'', evs) \<and>
      walk stp loc req mn' ms rem' = (ret, resting_orders ?c b'', mn'', rem'', evs) \<and>
      contra_is req b (resting_orders ?c b'') b''"
    if "contra_is req b ms b'" "length ms < fuel" for ms b' mn' rem'
  proof -
    have "book_inv b'" "resting_orders ?c b' = ms" using that(1) by (auto simp: contra_is_def)
    with Suc.IH [of b' mn' rem'] that(2) obtain ret b'' mn'' rem'' evs where
      "match_loop fuel stp loc req b' mn' rem' = Some (ret, b'', mn'', rem'', evs)"
      "walk stp loc req mn' ms rem' = (ret, resting_orders ?c b'', mn'', rem'', evs)"
      "contra_is req b' (resting_orders ?c b'') b''" by auto
    with contra_is_trans [OF that(1)] show ?thesis by blast
  qed
  show ?case
  proof (cases "rem = 0")
    case True
    with stay show ?thesis by auto
  next
    case rem: False
    show ?thesis
    proof (cases "resting_orders ?c b")
      case Nil
      with front_view(1) [OF inv] stay rem show ?thesis by auto
    next
      case (Cons m ms)
      obtain mk where mk: "ob_front ?c b = Some mk" "rest_of mk = m" using front_view(2) [OF inv Cons] by blast
      note mf = mk(2) [symmetric]
      have sz: "length ms < fuel" using Suc.prems(2) Cons by simp
      consider "\<not> crosses req (ro_price m)"
        | "crosses req (ro_price m)" "rq_owner req \<noteq> 0 \<and> ro_owner m = rq_owner req" "stp = CancelResting"
        | "crosses req (ro_price m)" "rq_owner req \<noteq> 0 \<and> ro_owner m = rq_owner req" "stp \<noteq> CancelResting"
        | "crosses req (ro_price m)" "\<not> (rq_owner req \<noteq> 0 \<and> ro_owner m = rq_owner req)" "rem < ro_qty m"
        | "crosses req (ro_price m)" "\<not> (rq_owner req \<noteq> 0 \<and> ro_owner m = rq_owner req)" "\<not> rem < ro_qty m"
        by blast
      then show ?thesis
      proof cases
        case 1
        with rem Cons mk(1) mf stay show ?thesis by auto
      next
        case 2
        from step [OF contra_remove [OF inv Cons] sz, of mn rem] rem Cons mk(1) mf 2 show ?thesis by auto
      next
        case 3
        with rem Cons mk(1) mf stay show ?thesis by auto
      next
        case 4
        obtain f where f: "fuel = Suc f" using sz by (cases fuel) auto
        have "contra_is req b (m\<lparr>ro_qty := ro_qty m - rem\<rparr> # ms) (ob_reduce_front ?c rem b)"
          using contra_reduce [OF inv Cons less_imp_le [OF 4(3)]] 4(3) by (simp split: if_splits)
        moreover have "min rem (bo_qty mk) = rem" using 4(3) mf by (simp add: min_def less_imp_le)
        ultimately show ?thesis using rem Cons mk(1) mf 4 f by (auto simp: contra_is_def)
      next
        case 5
        then have q: "min rem (bo_qty mk) = ro_qty m" using mf by (auto simp: min_def not_less)
        have "contra_is req b ms (ob_reduce_front ?c (ro_qty m) b)"
          using contra_reduce [OF inv Cons, of "ro_qty m"] by simp
        from step [OF this sz, of "mn + 1" "rem - ro_qty m"] rem Cons mk(1) mf 5 q show ?thesis by auto
      qed
    qed
  qed
qed simp

section \<open>What the walk does\<close>

fun fills_of :: "engine_event list \<Rightarrow> fill list" where
  "fills_of [] = []"
| "fills_of (OnFill loc f # es) = f # fills_of es"
| "fills_of (ev # es) = fills_of es"

text \<open>The makers the events touch, in order: filled, or cancelled to prevent a self-match.\<close>

fun touched :: "engine_event list \<Rightarrow> order_id list" where
  "touched [] = []"
| "touched (OnFill loc f # es) = fl_maker_id f # touched es"
| "touched (OnRestingCancelled loc r q why # es) = ro_id r # touched es"
| "touched (ev # es) = touched es"

definition traded :: "engine_event list \<Rightarrow> nat" where
  "traded es = (\<Sum>f\<leftarrow>fills_of es. unat (fl_qty f))"

lemma fills_of_append [simp]: "fills_of (xs @ ys) = fills_of xs @ fills_of ys"
  by (induction xs rule: fills_of.induct) auto

lemma touched_append [simp]: "touched (xs @ ys) = touched xs @ touched ys"
  by (induction xs rule: touched.induct) auto

lemma traded_simps [simp]:
  "traded [] = 0" "traded (OnFill loc f # es) = unat (fl_qty f) + traded es"
  "traded (OnRestingCancelled loc r q why # es) = traded es" "traded (OnTakerCancelled loc req q why # es) = traded es"
  "traded (OnAccepted loc req # es) = traded es" "traded (OnRested loc r # es) = traded es"
  "traded (xs @ ys) = traded xs + traded ys"
  by (simp_all add: traded_def)

text \<open>Case analysis of one step of the walk.\<close>

lemma walk_cases:
  assumes "walk stp loc req mn (m # ms) rem = (ret, ms', mn', rem', evs)"
  obtains
    (stop) "rem = 0 \<or> \<not> crosses req (ro_price m)" "ret = False" "ms' = m # ms" "mn' = mn" "rem' = rem" "evs = []"
  | (self_resting) evs' where "rem \<noteq> 0" "crosses req (ro_price m)" "rq_owner req \<noteq> 0" "ro_owner m = rq_owner req"
      "stp = CancelResting" "walk stp loc req mn ms rem = (ret, ms', mn', rem', evs')"
      "evs = OnRestingCancelled loc m (ro_qty m) SelfMatch # evs'"
  | (self_taker) "rem \<noteq> 0" "stp = CancelIncoming" "ret = True" "ms' = m # ms" "mn' = mn" "rem' = rem"
      "evs = [OnTakerCancelled loc req rem SelfMatch]" "crosses req (ro_price m)"
      "rq_owner req \<noteq> 0" "ro_owner m = rq_owner req"
  | (partial) "rem \<noteq> 0" "crosses req (ro_price m)" "rq_owner req = 0 \<or> ro_owner m \<noteq> rq_owner req" "rem < ro_qty m"
      "ret = False" "ms' = m\<lparr>ro_qty := ro_qty m - rem\<rparr> # ms" "mn' = mn + 1" "rem' = 0"
      "evs = [OnFill loc (mk_fill req mn m rem rem)]"
  | (full) evs' where "rem \<noteq> 0" "crosses req (ro_price m)" "rq_owner req = 0 \<or> ro_owner m \<noteq> rq_owner req"
      "ro_qty m \<le> rem" "walk stp loc req (mn + 1) ms (rem - ro_qty m) = (ret, ms', mn', rem', evs')"
      "evs = OnFill loc (mk_fill req mn m (ro_qty m) rem) # evs'"
proof -
  let ?self = "rq_owner req \<noteq> 0 \<and> ro_owner m = rq_owner req"
  consider (1) "rem = 0 \<or> \<not> crosses req (ro_price m)"
    | (2) "rem \<noteq> 0" "crosses req (ro_price m)" ?self "stp = CancelResting"
    | (3) "rem \<noteq> 0" "crosses req (ro_price m)" ?self "stp = CancelIncoming"
    | (4) "rem \<noteq> 0" "crosses req (ro_price m)" "\<not> ?self" "rem < ro_qty m"
    | (5) "rem \<noteq> 0" "crosses req (ro_price m)" "\<not> ?self" "\<not> rem < ro_qty m"
    by (cases stp) blast+
  then show thesis
  proof cases
    case 1
    then show ?thesis using assms by (intro stop) auto
  next
    case 2
    obtain r1 m1 n1 q1 e1 where "walk stp loc req mn ms rem = (r1, m1, n1, q1, e1)" by (metis prod_cases5)
    then show ?thesis using assms 2 by (intro self_resting [of e1]) auto
  next
    case 3
    then show ?thesis using assms by (intro self_taker) auto
  next
    case 4
    then show ?thesis using assms by (intro partial) auto
  next
    case 5
    obtain r1 m1 n1 q1 e1 where "walk stp loc req (mn + 1) ms (rem - ro_qty m) = (r1, m1, n1, q1, e1)"
      by (metis prod_cases5)
    then show ?thesis using assms 5 by (intro full [of e1]) (auto simp: not_less)
  qed
qed

lemma mk_fill_sel [simp]:
  "fl_match_number (mk_fill req mn m q rem) = mn" "fl_price (mk_fill req mn m q rem) = ro_price m"
  "fl_qty (mk_fill req mn m q rem) = q" "fl_maker_id (mk_fill req mn m q rem) = ro_id m"
  "fl_maker_owner (mk_fill req mn m q rem) = ro_owner m" "fl_maker_side (mk_fill req mn m q rem) = ro_side m"
  "fl_taker_id (mk_fill req mn m q rem) = rq_id req" "fl_taker_owner (mk_fill req mn m q rem) = rq_owner req"
  "fl_taker_user_ref (mk_fill req mn m q rem) = rq_user_ref req"
  "fl_maker_user_ref (mk_fill req mn m q rem) = ro_user_ref m"
  by (simp_all add: mk_fill_def)

lemma walk_conserves:
  "walk stp loc req mn ms rem = (ret, ms', mn', rem', evs) \<Longrightarrow> unat rem' + traded evs = unat rem"
proof (induction ms arbitrary: mn rem ret ms' mn' rem' evs)
  case (Cons m ms)
  from Cons.prems show ?case
  proof (cases rule: walk_cases)
    case (full evs')
    then show ?thesis using Cons.IH [of "mn + 1" "rem - ro_qty m"] by (simp add: unat_sub word_le_nat_alt)
  qed (use Cons.IH in auto)
qed auto

lemma walk_fills:
  assumes "walk stp loc req mn ms rem = (ret, ms', mn', rem', evs)" "f \<in> set (fills_of evs)"
    "\<forall>m\<in>set ms. ro_qty m \<noteq> 0"
  shows "\<exists>m\<in>set ms. fl_maker_id f = ro_id m \<and> fl_price f = ro_price m \<and> fl_maker_owner f = ro_owner m \<and>
      fl_maker_side f = ro_side m \<and> fl_qty f \<noteq> 0 \<and> fl_qty f \<le> ro_qty m \<and> crosses req (fl_price f) \<and>
      (rq_owner req = 0 \<or> fl_maker_owner f \<noteq> rq_owner req) \<and>
      fl_taker_id f = rq_id req \<and> fl_taker_owner f = rq_owner req"
  using assms
proof (induction ms arbitrary: mn rem ret ms' mn' rem' evs)
  case (Cons m ms)
  have nz: "\<forall>m\<in>set ms. ro_qty m \<noteq> 0" "ro_qty m \<noteq> 0" using Cons.prems(3) by auto
  from Cons.prems(1) show ?case
  proof (cases rule: walk_cases)
    case (self_resting evs')
    then show ?thesis using Cons.IH [OF self_resting(6) _ nz(1)] Cons.prems(2) by auto
  next
    case (full evs')
    then show ?thesis using Cons.IH [OF full(5) _ nz(1)] Cons.prems(2) nz(2) by auto
  next
    case partial
    then show ?thesis using Cons.prems(2) by (auto simp: less_imp_le)
  qed (use Cons.prems(2) in auto)
qed auto

text \<open>Price-time priority: the makers touched are a prefix of the list, in its order; only the last
  one may survive, with a smaller quantity.\<close>

lemma walk_prefix:
  assumes "walk stp loc req mn ms rem = (ret, ms', mn', rem', evs)"
  shows "\<exists>n\<le>length ms. touched evs = map ro_id (take n ms) \<and>
    (ms' = drop n ms \<or>
     (0 < n \<and> rem' = 0 \<and> (\<exists>q. q \<noteq> 0 \<and> q < ro_qty (ms ! (n - 1)) \<and> ms' = (ms ! (n - 1))\<lparr>ro_qty := q\<rparr> # drop n ms)))"
  using assms
proof (induction ms arbitrary: mn rem ret ms' mn' rem' evs)
  case (Cons m ms)
  have lift: ?case if "touched evs = ro_id m # touched evs'"
      "\<exists>n\<le>length ms. touched evs' = map ro_id (take n ms) \<and> (ms' = drop n ms \<or>
         (0 < n \<and> rem' = 0 \<and> (\<exists>q. q \<noteq> 0 \<and> q < ro_qty (ms ! (n - 1)) \<and> ms' = (ms ! (n - 1))\<lparr>ro_qty := q\<rparr> # drop n ms)))"
    for evs'
  proof -
    from that(2) obtain n where "n \<le> length ms" "touched evs' = map ro_id (take n ms)"
      "ms' = drop n ms \<or> (0 < n \<and> rem' = 0 \<and>
         (\<exists>q. q \<noteq> 0 \<and> q < ro_qty (ms ! (n - 1)) \<and> ms' = (ms ! (n - 1))\<lparr>ro_qty := q\<rparr> # drop n ms))" by auto
    then show ?thesis using that(1) by (intro exI [of _ "Suc n"]) (auto simp: nth_Cons')
  qed
  from Cons.prems show ?case
  proof (cases rule: walk_cases)
    case (self_resting evs')
    then show ?thesis using Cons.IH by (intro lift [of evs']) auto
  next
    case (full evs')
    then show ?thesis using Cons.IH by (intro lift [of evs']) auto
  next
    case partial
    then show ?thesis using word_sub_less [OF partial(1,4)] by (intro exI [of _ 1]) (auto intro!: exI [of _ "ro_qty m - rem"])
  qed (auto intro!: exI [of _ 0])
qed auto

text \<open>Why the walk stops, and the numbering of the trades.\<close>

lemma walk_stop:
  "walk stp loc req mn ms rem = (ret, ms', mn', rem', evs) \<Longrightarrow> \<not> ret \<Longrightarrow>
     rem' = 0 \<or> ms' = [] \<or> \<not> crosses req (ro_price (hd ms'))"
proof (induction ms arbitrary: mn rem ret ms' mn' rem' evs)
  case (Cons m ms)
  from Cons.prems(1) show ?case
    by (cases rule: walk_cases) (use Cons.IH Cons.prems(2) in auto)
qed auto

lemma walk_numbers:
  "walk stp loc req mn ms rem = (ret, ms', mn', rem', evs) \<Longrightarrow>
     map fl_match_number (fills_of evs) = map (\<lambda>i. mn + of_nat i) [0..<length (fills_of evs)] \<and>
     mn' = mn + of_nat (length (fills_of evs))"
proof (induction ms arbitrary: mn rem ret ms' mn' rem' evs)
  case (Cons m ms)
  from Cons.prems show ?case
  proof (cases rule: walk_cases)
    case (full evs')
    from Cons.IH [OF full(5)] have IH: "map fl_match_number (fills_of evs') =
        map (\<lambda>i. (mn + 1) + of_nat i) [0..<length (fills_of evs')]"
      "mn' = (mn + 1) + of_nat (length (fills_of evs'))" by auto
    have "map (\<lambda>i. mn + of_nat i) [0..<Suc k] = mn # map (\<lambda>i. (mn + 1) + of_nat i) [0..<k]" for k
      by (subst upt_conv_Cons) (simp_all add: map_Suc_upt [symmetric] o_def add.assoc del: upt_Suc)
    then show ?thesis using full IH by (simp del: upt_Suc)
  qed (use Cons.IH in auto)
qed auto

lemma walk_returned:
  assumes "walk stp loc req mn ms rem = (True, ms', mn', rem', evs)"
  shows "\<exists>evs'. evs = evs' @ [OnTakerCancelled loc req rem' SelfMatch] \<and> rem' \<noteq> 0 \<and> stp = CancelIncoming"
  using assms
proof (induction ms arbitrary: mn rem ms' mn' rem' evs)
  case (Cons m ms)
  from Cons.prems show ?case
  proof (cases rule: walk_cases)
    case (self_resting evs')
    with Cons.IH [of mn rem] show ?thesis by fastforce
  next
    case (full evs')
    with Cons.IH [of "mn + 1"] show ?thesis by fastforce
  qed auto
qed auto

section \<open>The engine\<close>

text \<open>A price on side \<open>s\<close> does not cross a price on the other side.\<close>

definition apart :: "side \<Rightarrow> price \<Rightarrow> price \<Rightarrow> bool" where
  "apart s p q \<longleftrightarrow> (if s = Buy then p < q else q < p)"

definition uncrossed :: "order_book \<Rightarrow> bool" where
  "uncrossed b \<longleftrightarrow> (\<forall>r\<in>set (resting_orders Buy b). \<forall>r'\<in>set (resting_orders Sell b). ro_price r < ro_price r')"

lemma crosses_apart: "crosses req q \<longleftrightarrow> \<not> apart (rq_side req) (rq_price req) q"
  by (cases "rq_side req") (auto simp: crosses_def apart_def)

lemma uncrossed_side:
  "uncrossed b \<longleftrightarrow> (\<forall>r\<in>set (resting_orders s b). \<forall>r'\<in>set (resting_orders (opposite s) b). apart s (ro_price r) (ro_price r'))"
  by (cases s) (auto simp: uncrossed_def apart_def opposite_def)

definition engine_inv :: "matching_engine \<Rightarrow> bool" where
  "engine_inv e \<longleftrightarrow> (\<forall>b\<in>set (me_books e). book_inv b \<and> uncrossed b) \<and> length (me_symbols e) = length (me_books e)"

definition req_rest :: "order_request \<Rightarrow> qty \<Rightarrow> resting" where
  "req_rest req q = \<lparr>ro_id = rq_id req, ro_price = rq_price req, ro_qty = q, ro_owner = rq_owner req,
     ro_user_ref = rq_user_ref req, ro_side = rq_side req\<rparr>"

text \<open>The specification of an accepted submission on the two lists of the symbol's book.\<close>

definition spec_submit :: "self_match_policy \<Rightarrow> u16 \<Rightarrow> order_request \<Rightarrow> u64 \<Rightarrow> nat \<Rightarrow> resting list \<Rightarrow> resting list \<Rightarrow>
    resting list \<times> resting list \<times> u64 \<times> engine_event list" where
  "spec_submit stp loc req mn room own contra =
     (case walk stp loc req mn contra (rq_qty req) of (ret, contra', mn', rem, evs) \<Rightarrow>
        let evs = OnAccepted loc req # evs
        in if ret \<or> rem = 0 then (own, contra', mn', evs)
           else if rq_tif req = IOC then (own, contra', mn', evs @ [OnTakerCancelled loc req rem ImmediateOrCancel])
           else if rq_id req \<noteq> 0 \<and> length own + length contra' < room
           then (insert_prio (rq_side req) (req_rest req rem) own, contra', mn', evs @ [OnRested loc (req_rest req rem)])
           else (own, contra', mn', evs @ [OnTakerCancelled loc req rem Supervisory]))"

lemma walk_leaves:
  assumes "walk stp loc req mn ms rem = (ret, ms', mn', rem', evs)" "r' \<in> set ms'"
  shows "\<exists>r\<in>set ms. ro_id r' = ro_id r \<and> ro_price r' = ro_price r"
proof -
  from walk_prefix [OF assms(1)]
  obtain n where n: "n \<le> length ms" and "touched evs = map ro_id (take n ms)" and
    cases: "ms' = drop n ms \<or> (0 < n \<and> rem' = 0 \<and> (\<exists>q. q \<noteq> 0 \<and> q < ro_qty (ms ! (n - 1)) \<and>
      ms' = (ms ! (n - 1))\<lparr>ro_qty := q\<rparr> # drop n ms))"
    by (elim exE conjE)
  show ?thesis
  proof (cases "r' \<in> set (drop n ms)")
    case True
    then have "r' \<in> set ms" by (rule in_set_dropD)
    then show ?thesis by auto
  next
    case False
    then obtain q where "0 < n" "r' = (ms ! (n - 1))\<lparr>ro_qty := q\<rparr>" using cases assms(2) by auto
    then show ?thesis using n by (intro bexI [of _ "ms ! (n - 1)"]) auto
  qed
qed

lemma book_at_set [simp]:
  assumes "valid_locate loc e"
  shows "book_at loc (set_book loc b e) = b"
    "valid_locate loc' (set_book loc b e) = valid_locate loc' e"
    "loc' \<noteq> loc \<Longrightarrow> valid_locate loc' e \<Longrightarrow> book_at loc' (set_book loc b e) = book_at loc' e"
proof -
  show "book_at loc (set_book loc b e) = b" "valid_locate loc' (set_book loc b e) = valid_locate loc' e"
    using assms by (auto simp: valid_locate_def book_at_def set_book_def)
  show "book_at loc' (set_book loc b e) = book_at loc' e" if ne: "loc' \<noteq> loc" and v: "valid_locate loc' e"
  proof -
    have "unat loc' \<noteq> unat loc" using ne by (simp add: unsigned_word_eqI word_unat_eq_iff)
    then have "unat loc' - 1 \<noteq> unat loc - 1" using assms v by (auto simp: valid_locate_def)
    then show ?thesis by (simp add: book_at_def set_book_def)
  qed
qed

lemma set_book_sel [simp]:
  "me_stp (set_book loc b e) = me_stp e" "me_max_order_qty (set_book loc b e) = me_max_order_qty e"
  "me_symbols (set_book loc b e) = me_symbols e" "me_next_match (set_book loc b e) = me_next_match e"
  "length (me_books (set_book loc b e)) = length (me_books e)"
  "set_book loc b (e\<lparr>me_next_match := n\<rparr>) = (set_book loc b e)\<lparr>me_next_match := n\<rparr>"
  "set_book loc b' (set_book loc b e) = set_book loc b' e"
  by (simp_all add: set_book_def)

lemma me_next_match_sel [simp]:
  "book_at loc (e\<lparr>me_next_match := n\<rparr>) = book_at loc e" "valid_locate loc (e\<lparr>me_next_match := n\<rparr>) = valid_locate loc e"
  "engine_inv (e\<lparr>me_next_match := n\<rparr>) = engine_inv e"
  by (simp_all add: book_at_def valid_locate_def engine_inv_def)

lemma engine_inv_book:
  assumes "engine_inv e" "valid_locate loc e"
  shows "book_inv (book_at loc e)" "uncrossed (book_at loc e)"
  using assms by (auto simp: engine_inv_def valid_locate_def book_at_def)

lemma engine_inv_set:
  assumes "engine_inv e" "valid_locate loc e" "book_inv b" "uncrossed b"
  shows "engine_inv (set_book loc b e)"
  using assms set_update_subset_insert [of "me_books e" "unat loc - 1" b]
  by (auto simp: engine_inv_def set_book_def)

text \<open>The book stays uncrossed.\<close>

lemma walk_uncrossed:
  assumes U: "uncrossed b" and c: "contra_is req b ms' b'"
    and w: "walk stp loc req mn (resting_orders (opposite (rq_side req)) b) rem = (ret, ms', mn', rem', evs)"
  shows "uncrossed b'"
  unfolding uncrossed_side [of b' "rq_side req"]
proof (intro ballI)
  fix r r' assume r: "r \<in> set (resting_orders (rq_side req) b')" "r' \<in> set (resting_orders (opposite (rq_side req)) b')"
  obtain m where "m \<in> set (resting_orders (opposite (rq_side req)) b)" "ro_price r' = ro_price m"
    using walk_leaves [OF w, of r'] r(2) c by (auto simp: contra_is_def)
  then show "apart (rq_side req) (ro_price r) (ro_price r')"
    using U [unfolded uncrossed_side [of b "rq_side req"]] r(1) c by (auto simp: contra_is_def)
qed

lemma not_crosses_all:
  assumes "book_inv b" "ms = resting_orders (opposite (rq_side req)) b" "ms = [] \<or> \<not> crosses req (ro_price (hd ms))"
    and "m \<in> set ms"
  shows "apart (rq_side req) (rq_price req) (ro_price m)"
proof -
  obtain h t where ht: "ms = h # t" using assms(4) by (cases ms) auto
  then have h: "apart (rq_side req) (rq_price req) (ro_price h)" using assms(3) by (simp add: crosses_apart)
  have "at_least (opposite (rq_side req)) (ro_price h) (ro_price m)"
    using ob.prio [OF assms(1), of "opposite (rq_side req)"] assms(4) ht unfolding assms(2) [symmetric] by auto
  with h show ?thesis by (cases "rq_side req") (auto simp: apart_def at_least_def opposite_def)
qed

section \<open>Refinement of submit and cancel\<close>

definition accepts :: "u16 \<Rightarrow> order_request \<Rightarrow> matching_engine \<Rightarrow> bool" where
  "accepts loc req e \<longleftrightarrow> valid_locate loc e \<and> rq_qty req \<noteq> 0 \<and> rq_qty req \<le> me_max_order_qty e \<and>
     valid_price (book_at loc e) (rq_price req) \<and> rq_id req \<notin> book_ids (book_at loc e)"

text \<open>The engine state after an operation on the book at \<open>loc\<close>: the grid and the capacity of that
  book stay, and nothing else changes.\<close>

definition same_grid :: "order_book \<Rightarrow> order_book \<Rightarrow> bool" where
  "same_grid b b' \<longleftrightarrow> valid_price b' = valid_price b \<and> ob_capacity b' = ob_capacity b"

definition only_book :: "u16 \<Rightarrow> matching_engine \<Rightarrow> matching_engine \<Rightarrow> bool" where
  "only_book loc e e' \<longleftrightarrow> me_stp e' = me_stp e \<and> me_max_order_qty e' = me_max_order_qty e \<and>
     me_symbols e' = me_symbols e \<and> length (me_books e') = length (me_books e) \<and>
     same_grid (book_at loc e) (book_at loc e') \<and>
     (\<forall>l. l \<noteq> loc \<longrightarrow> valid_locate l e \<longrightarrow> book_at l e' = book_at l e)"

lemma only_book_set: "valid_locate loc e \<Longrightarrow> same_grid (book_at loc e) b \<Longrightarrow> only_book loc e ((set_book loc b e)\<lparr>me_next_match := n\<rparr>)"
  by (simp add: only_book_def)

lemma find_none:
  assumes "book_inv b"
  shows "ob_find k b = None \<longleftrightarrow> k \<notin> book_ids b"
proof -
  have "ob_find k b = None \<longleftrightarrow> find (\<lambda>r. ro_id r = k) (book_orders b) = None"
    using book_find [OF assms, of k] by (metis map_option_is_None)
  then show ?thesis by (auto simp: find_None_iff book_ids_def)
qed

lemma find_known:
  assumes "book_inv b" "r \<in> set (book_orders b)" "ro_id r = k"
  shows "map_option rest_of (ob_find k b) = Some r"
proof -
  obtain us vs where uv: "book_orders b = us @ r # vs" using assms(2) by (meson split_list)
  then have "\<forall>y\<in>set us. ro_id y \<noteq> k" using book_inv_distinct [OF assms(1)] assms(3) by (auto simp: image_iff)
  then show ?thesis using book_find [OF assms(1), of k] uv assms(3) find_split [of us "\<lambda>r. ro_id r = k" r vs] by simp
qed

text \<open>The last part of \<open>submit\<close>: the remainder of a Day order is added to the book.\<close>

lemma rest_remainder:
  assumes inv: "book_inv b" and v: "valid_price b (rq_price req)" "rem \<noteq> 0" "rq_id req \<notin> book_ids b"
    and add: "ob_add (rq_id req) (rq_side req) (rq_price req) rem (rq_owner req) (rq_user_ref req) b = (r, b')"
  shows "if rq_id req \<noteq> 0 \<and> length (book_orders b) < ob_capacity b
    then r = AddOk \<and> book_inv b' \<and> same_grid b b' \<and>
      resting_orders (rq_side req) b' = insert_prio (rq_side req) (req_rest req rem) (resting_orders (rq_side req) b) \<and>
      resting_orders (opposite (rq_side req)) b' = resting_orders (opposite (rq_side req)) b \<and>
      rest_of (the (ob_find (rq_id req) b')) = req_rest req rem
    else r \<noteq> AddOk \<and> b' = b"
proof -
  let ?s = "rq_side req" and ?R = "req_rest req rem"
  have verdict: "add_verdict (rq_id req) (rq_price req) rem b = AddOk \<longleftrightarrow>
      rq_id req \<noteq> 0 \<and> length (book_orders b) < ob_capacity b"
    using v book_order_count(2) [OF inv] by (auto simp: add_verdict_def ob_capacity_def)
  obtain b1 where b1: "ob_add (rq_id req) ?s (rq_price req) rem (rq_owner req) (rq_user_ref req) b =
      (add_verdict (rq_id req) (rq_price req) rem b, b1)" "book_inv b1" "ob_cfg b1 = ob_cfg b"
    "if add_verdict (rq_id req) (rq_price req) rem b = AddOk
     then \<forall>t. resting_orders t b1 = (if t = ?s then insert_prio ?s ?R (resting_orders ?s b) else resting_orders t b)
     else b1 = b"
    using book_add [OF inv, of "rq_id req" ?s "rq_price req" rem "rq_owner req" "rq_user_ref req"]
    unfolding req_rest_def by blast
  have eq: "r = add_verdict (rq_id req) (rq_price req) rem b" "b' = b1" using add b1(1) by auto
  show ?thesis
  proof (cases "add_verdict (rq_id req) (rq_price req) rem b = AddOk")
    case True
    then have R: "resting_orders t b' = (if t = ?s then insert_prio ?s ?R (resting_orders ?s b) else resting_orders t b)" for t
      using b1(4) eq(2) by auto
    have G: "same_grid b b'" using valid_price_cfg [OF b1(3)] b1(3) eq(2) by (simp add: same_grid_def ob_capacity_def)
    from R have "?R \<in> set (resting_orders ?s b')" by (simp add: insert_prio_ids)
    then have "?R \<in> set (book_orders b')" by (auto simp: set_book_orders)
    then have "map_option rest_of (ob_find (rq_id req) b') = Some ?R"
      using find_known [of b' ?R "rq_id req"] b1(2) eq(2) by (simp add: req_rest_def)
    then have "rest_of (the (ob_find (rq_id req) b')) = ?R" by auto
    then show ?thesis using True R G verdict eq b1(2) by simp
  next
    case False
    then show ?thesis using b1(4) verdict eq by auto
  qed
qed

lemma submit_refines_accepted:
  assumes E: "engine_inv e" and A: "accepts loc req e"
  shows "\<exists>e' evs. submit loc req e = Some (e', evs) \<and> engine_inv e' \<and> only_book loc e e' \<and>
    spec_submit (me_stp e) loc req (me_next_match e) (ob_capacity (book_at loc e))
      (resting_orders (rq_side req) (book_at loc e)) (resting_orders (opposite (rq_side req)) (book_at loc e)) =
      (resting_orders (rq_side req) (book_at loc e'), resting_orders (opposite (rq_side req)) (book_at loc e'),
       me_next_match e', evs)"
proof -
  let ?b = "book_at loc e" and ?s = "rq_side req" and ?c = "opposite (rq_side req)"
  have v: "valid_locate loc e" "rq_qty req \<noteq> 0" "\<not> rq_qty req > me_max_order_qty e"
    "valid_price ?b (rq_price req)" "rq_id req \<notin> book_ids ?b" using A by (auto simp: accepts_def)
  note I = engine_inv_book [OF E v(1)]
  have fuel: "length (resting_orders ?c ?b) < Suc (ob_live ?b)"
    using book_order_count(1) [OF I(1)] by (cases ?s) (simp_all add: book_orders_def opposite_def)
  obtain ret b1 mn1 rem evs where L: "match_loop (Suc (ob_live ?b)) (me_stp e) loc req ?b (me_next_match e) (rq_qty req) =
      Some (ret, b1, mn1, rem, evs)"
    and W: "walk (me_stp e) loc req (me_next_match e) (resting_orders ?c ?b) (rq_qty req) =
      (ret, resting_orders ?c b1, mn1, rem, evs)"
    and C: "contra_is req ?b (resting_orders ?c b1) b1"
    using match_loop_walk [where b = ?b and fuel = "Suc (ob_live ?b)", OF I(1) fuel] by blast
  have b1: "book_inv b1" "valid_price b1 = valid_price ?b" "ob_capacity b1 = ob_capacity ?b"
    "resting_orders ?s b1 = resting_orders ?s ?b" using C by (auto simp: contra_is_def)
  have U1: "uncrossed b1" using walk_uncrossed [OF I(2) C W] .
  have G1: "same_grid ?b b1" using b1(2,3) by (simp add: same_grid_def)
  let ?e1 = "(set_book loc b1 e)\<lparr>me_next_match := mn1\<rparr>"
  have E1: "engine_inv ?e1" using engine_inv_set [OF E v(1) b1(1) U1] by simp
  have head: "submit loc req e = (let evs = OnAccepted loc req # evs
      in if ret \<or> rem = 0 then Some (?e1, evs)
         else if rq_tif req = IOC then Some (?e1, evs @ [OnTakerCancelled loc req rem ImmediateOrCancel])
         else let (r, book) = ob_add (rq_id req) ?s (rq_price req) rem (rq_owner req) (rq_user_ref req) b1;
                  e = set_book loc book ?e1
              in if r = AddOk then Some (e, evs @ [OnRested loc (rest_of (the (ob_find (rq_id req) book)))])
                 else Some (e, evs @ [OnTakerCancelled loc req rem Supervisory]))"
    using v L find_none [OF I(1), of "rq_id req"] unfolding submit_def by (simp add: Let_def)
  consider (done_) "ret \<or> rem = 0" | (ioc) "\<not> ret" "rem \<noteq> 0" "rq_tif req = IOC" | (day) "\<not> ret" "rem \<noteq> 0" "rq_tif req \<noteq> IOC"
    by blast
  then show ?thesis
  proof cases
    case done_
    then show ?thesis using head E1 W v(1) b1(4) G1 by (auto simp: spec_submit_def only_book_set)
  next
    case ioc
    then show ?thesis using head E1 W v(1) b1(4) G1 by (auto simp: spec_submit_def only_book_set)
  next
    case day
    obtain r b2 where add: "ob_add (rq_id req) ?s (rq_price req) rem (rq_owner req) (rq_user_ref req) b1 = (r, b2)"
      by (metis surj_pair)
    have "ro_id ` set (resting_orders ?c b1) \<subseteq> ro_id ` set (resting_orders ?c ?b)"
      using walk_leaves [OF W] by blast
    then have fresh: "rq_id req \<notin> book_ids b1"
      using v(5) b1(4) unfolding book_ids_def book_orders_def by (cases ?s) (auto simp: opposite_def)
    have len: "length (book_orders b1) = length (resting_orders ?s ?b) + length (resting_orders ?c b1)"
      using b1(4) by (cases ?s) (simp_all add: book_orders_def opposite_def)
    note RR = rest_remainder [OF b1(1) _ day(2) fresh add]
    have vp: "valid_price b1 (rq_price req)" using v(4) b1(2) by simp
    show ?thesis
    proof (cases "rq_id req \<noteq> 0 \<and> length (book_orders b1) < ob_capacity b1")
      case True
      then have R: "r = AddOk" "book_inv b2" "rest_of (the (ob_find (rq_id req) b2)) = req_rest req rem"
        "resting_orders ?s b2 = insert_prio ?s (req_rest req rem) (resting_orders ?s b1)"
        "resting_orders ?c b2 = resting_orders ?c b1" "same_grid b1 b2" using RR [OF vp] by auto
      have G2: "same_grid ?b b2" using G1 R(6) by (simp add: same_grid_def)
      have "resting_orders ?c b1 = [] \<or> \<not> crosses req (ro_price (hd (resting_orders ?c b1)))"
        using walk_stop [OF W] day by blast
      then have "uncrossed b2"
        using U1 R(4,5) not_crosses_all [OF b1(1) refl] unfolding uncrossed_side [of _ ?s]
        by (auto simp: insert_prio_ids req_rest_def)
      then have "engine_inv (set_book loc b2 ?e1)"
        using engine_inv_set [OF E v(1) R(2)] by simp
      then show ?thesis
        using head day add R True W v(1) b1(3,4) len G2 by (auto simp: spec_submit_def only_book_set)
    next
      case False
      then have "r \<noteq> AddOk" "b2 = b1" using RR [OF vp] by auto
      then show ?thesis
        using head day add False W v(1) b1(3,4) len E1 G1 by (auto simp: spec_submit_def only_book_set)
    qed
  qed
qed

lemma submit_rejects:
  assumes "engine_inv e" "\<not> accepts loc req e"
  shows "\<exists>why. submit loc req e = Some (e, [OnRejected loc req why]) \<and>
    why = (if \<not> valid_locate loc e then RejUnknownSymbol
           else if rq_qty req = 0 \<or> rq_qty req > me_max_order_qty e then RejBadQty
           else if \<not> valid_price (book_at loc e) (rq_price req) then RejBadPrice else RejDuplicateId)"
  using assms find_none [OF engine_inv_book(1) [OF assms(1)], of loc "rq_id req"]
  by (auto simp: submit_def accepts_def Let_def not_le not_less)

text \<open>\<open>cancel\<close>: the verdict, and a reduction that keeps the place in the queue.\<close>

definition cancel_verdict :: "u16 \<Rightarrow> order_id \<Rightarrow> qty \<Rightarrow> u32 \<Rightarrow> matching_engine \<Rightarrow> cancel_result" where
  "cancel_verdict loc k nq owner e =
     (if \<not> valid_locate loc e then UnknownSymbol
      else case find (\<lambda>r. ro_id r = k) (book_orders (book_at loc e)) of
             None \<Rightarrow> UnknownOrder
           | Some r \<Rightarrow> if ro_owner r \<noteq> owner then NotOwner else if ro_qty r \<le> nq then NoChange else CancelOk)"

lemma reduce_all_is_remove:
  "distinct (map ro_id xs) \<Longrightarrow> r \<in> set xs \<Longrightarrow> reduce_list (ro_id r) (ro_qty r) xs = remove_list (ro_id r) xs"
proof (induction xs)
  case (Cons x xs)
  show ?case
  proof (cases "ro_id x = ro_id r")
    case True
    then have "x = r" using Cons.prems by (auto simp: image_iff)
    then show ?thesis using Cons.prems(1) remove_list_absent [of "ro_id r" xs] by (simp add: remove_list_def)
  next
    case False
    then have "r \<in> set xs" using Cons.prems(2) by auto
    with Cons False show ?thesis by (simp add: remove_list_def)
  qed
qed simp

lemma reduce_list_leaves:
  "r' \<in> set (reduce_list k a xs) \<Longrightarrow> \<exists>r\<in>set xs. ro_id r' = ro_id r \<and> ro_price r' = ro_price r"
  by (induction xs) (auto split: if_splits)

lemma uncrossed_reduce:
  assumes "uncrossed b" "\<And>t. resting_orders t b' = reduce_list k a (resting_orders t b)"
  shows "uncrossed b'"
  unfolding uncrossed_def
proof (intro ballI)
  fix r r' assume rr: "r \<in> set (resting_orders Buy b')" "r' \<in> set (resting_orders Sell b')"
  obtain x where "x \<in> set (resting_orders Buy b)" "ro_price r = ro_price x"
    using reduce_list_leaves rr(1) unfolding assms(2) by blast
  moreover obtain y where "y \<in> set (resting_orders Sell b)" "ro_price r' = ro_price y"
    using reduce_list_leaves rr(2) unfolding assms(2) by blast
  ultimately show "ro_price r < ro_price r'" using assms(1) by (simp add: uncrossed_def)
qed

lemma cancel_reduces:
  assumes inv: "book_inv b" and r: "r \<in> set (book_orders b)" "nq < ro_qty r"
  defines "b' \<equiv> if nq = 0 then snd (ob_remove (ro_id r) b) else snd (ob_reduce (ro_id r) (ro_qty r - nq) b)"
  shows "book_inv b' \<and> same_grid b b' \<and> (\<forall>t. resting_orders t b' = reduce_list (ro_id r) (ro_qty r - nq) (resting_orders t b))"
proof -
  obtain s where s: "r \<in> set (resting_orders s b)" using r(1) by (auto simp: set_book_orders)
  show ?thesis
  proof (cases "nq = 0")
    case True
    obtain b1 where b1: "ob_remove (ro_id r) b = (ro_id r \<in> book_ids b, b1)" "book_inv b1" "same_grid b b1"
      "\<And>t. resting_orders t b1 = remove_list (ro_id r) (resting_orders t b)"
      using ob.remove_law [OF inv, of "ro_id r"] by (auto simp: same_grid_def book_ids_union)
    have d: "distinct (map ro_id (resting_orders t b))" for t
      using book_inv_distinct [OF inv] by (cases t) (auto simp: book_orders_def)
    have "reduce_list (ro_id r) (ro_qty r) (resting_orders t b) = remove_list (ro_id r) (resting_orders t b)" for t
      using reduce_all_is_remove [OF d s] ob.ids_other_side [OF inv s, of t]
        reduce_list_absent [of "ro_id r" "resting_orders t b"] remove_list_absent [of "ro_id r" "resting_orders t b"]
      by (cases "t = s") simp_all
    with b1 True show ?thesis by (simp add: b'_def)
  next
    case False
    have "ro_qty r - nq \<le> ro_qty r" using word_sub_less(2) [OF False r(2)] by simp
    from ob.reduce_law [OF inv s this] False show ?thesis by (auto simp: b'_def same_grid_def)
  qed
qed

lemma cancel_refines:
  assumes E: "engine_inv e"
  shows "\<exists>e' evs. cancel loc k nq owner why e = (cancel_verdict loc k nq owner e, e', evs) \<and> engine_inv e' \<and>
    (if cancel_verdict loc k nq owner e = CancelOk
     then \<exists>r\<in>set (book_orders (book_at loc e)). ro_id r = k \<and> ro_owner r = owner \<and> nq < ro_qty r \<and>
       evs = [OnRestingCancelled loc r (ro_qty r - nq) why] \<and> only_book loc e e' \<and> me_next_match e' = me_next_match e \<and>
       (\<forall>t. resting_orders t (book_at loc e') =
          reduce_list k (ro_qty r - nq) (resting_orders t (book_at loc e)))
     else e' = e \<and> evs = [])"
proof (cases "valid_locate loc e")
  case False
  then show ?thesis using E by (simp add: cancel_def cancel_verdict_def)
next
  case v: True
  let ?b = "book_at loc e"
  note I = engine_inv_book [OF E v]
  show ?thesis
  proof (cases "ob_find k ?b")
    case None
    then have "find (\<lambda>r. ro_id r = k) (book_orders ?b) = None" using book_find [OF I(1), of k] by simp
    then show ?thesis using E v None by (simp add: cancel_def cancel_verdict_def Let_def)
  next
    case (Some x)
    let ?r = "rest_of x"
    have f: "find (\<lambda>r. ro_id r = k) (book_orders ?b) = Some ?r" using book_find [OF I(1), of k] Some by simp
    then have r: "?r \<in> set (book_orders ?b)" "ro_id ?r = k"
      unfolding find_Some_iff by (metis nth_mem)+
    show ?thesis
    proof (cases "bo_owner x = owner \<and> nq < bo_qty x")
      case False
      then show ?thesis using E v Some f by (auto simp: cancel_def cancel_verdict_def Let_def not_less)
    next
      case True
      then have lt: "nq < ro_qty ?r" by simp
      let ?b' = "if nq = 0 then snd (ob_remove k ?b) else snd (ob_reduce k (bo_qty x - nq) ?b)"
      have C: "book_inv ?b'" "same_grid ?b ?b'" "\<And>t. resting_orders t ?b' = reduce_list k (bo_qty x - nq) (resting_orders t ?b)"
        using cancel_reduces [OF I(1) r(1) lt] unfolding r(2) by auto
      have ov: "only_book loc e (set_book loc ?b' e)"
        using only_book_set [OF v C(2), where n = "me_next_match e"] by (simp add: only_book_def)
      have "cancel loc k nq owner why e = (CancelOk, set_book loc ?b' e, [OnRestingCancelled loc ?r (bo_qty x - nq) why])"
        using v Some True by (simp add: cancel_def Let_def not_le)
      moreover have "cancel_verdict loc k nq owner e = CancelOk" using v f True by (simp add: cancel_verdict_def not_le)
      moreover have "engine_inv (set_book loc ?b' e)"
        using engine_inv_set [OF E v C(1) uncrossed_reduce [OF I(2) C(3)]] .
      moreover have "\<forall>t. resting_orders t (book_at loc (set_book loc ?b' e)) = reduce_list k (bo_qty x - nq) (resting_orders t ?b)"
        using C(3) v by simp
      ultimately show ?thesis using r True ov by (auto intro!: bexI [of _ ?r])
    qed
  qed
qed

text \<open>Listing symbols.\<close>

lemma find_symbol_loop_bound:
  "length xs + i < 2 ^ 16 \<Longrightarrow> find_symbol_loop symb xs i = 
     (if symb \<in> set xs then of_nat (Suc (i + length (takeWhile (\<lambda>x. x \<noteq> symb) xs))) else 0)"
  by (induction xs arbitrary: i) auto

lemma add_symbol_inv:
  assumes "engine_inv e" "cfg_ok cfg" "length (me_books e) < 2 ^ 16 - 1"
  shows "\<exists>loc e'. add_symbol symb cfg e = Some (loc, e') \<and> engine_inv e' \<and> valid_locate loc e' \<and>
    unat loc = Suc (length (me_books e)) \<and> (\<forall>s. resting_orders s (book_at loc e') = []) \<and>
    (\<forall>l. valid_locate l e \<longrightarrow> valid_locate l e' \<and> book_at l e' = book_at l e)"
proof -
  obtain b where b: "OrderBook cfg = Some b" "book_inv b" "ob_cfg b = cfg" "\<And>s. resting_orders s b = []"
    using book_new [OF assms(2)] by auto
  let ?n = "length (me_books e @ [b])"
  have "?n < 2 ^ 16" using assms(3) by simp
  then have u: "unat (of_nat ?n :: u16) = ?n" by (intro unat_of_nat_id) simp
  have "uncrossed b" using b(4) by (simp add: uncrossed_def)
  then show ?thesis
    using b assms(1) u by (auto simp: add_symbol_def engine_inv_def valid_locate_def book_at_def nth_append)
qed

section \<open>What the events of one submission account for\<close>

fun rested_qty :: "engine_event list \<Rightarrow> nat" where
  "rested_qty [] = 0"
| "rested_qty (OnRested loc r # es) = unat (ro_qty r) + rested_qty es"
| "rested_qty (ev # es) = rested_qty es"

fun returned_qty :: "engine_event list \<Rightarrow> nat" where
  "returned_qty [] = 0"
| "returned_qty (OnTakerCancelled loc req q why # es) = unat q + returned_qty es"
| "returned_qty (ev # es) = returned_qty es"

lemma rested_qty_append [simp]: "rested_qty (xs @ ys) = rested_qty xs + rested_qty ys"
  by (induction xs rule: rested_qty.induct) auto

lemma returned_qty_append [simp]: "returned_qty (xs @ ys) = returned_qty xs + returned_qty ys"
  by (induction xs rule: returned_qty.induct) auto

lemma walk_events:
  "walk stp loc req mn ms rem = (ret, ms', mn', rem', evs) \<Longrightarrow>
     rested_qty evs = 0 \<and> returned_qty evs = (if ret then unat rem' else 0)"
proof (induction ms arbitrary: mn rem ret ms' mn' rem' evs)
  case (Cons m ms)
  from Cons.prems show ?case
    by (cases rule: walk_cases) (use Cons.IH in \<open>fastforce\<close>)+
qed simp

lemma spec_submit_conserves:
  assumes "spec_submit stp loc req mn room own contra = (own', contra', mn', evs)"
  shows "traded evs + rested_qty evs + returned_qty evs = unat (rq_qty req)"
proof -
  obtain ret ms' n' rem' ws where w: "walk stp loc req mn contra (rq_qty req) = (ret, ms', n', rem', ws)"
    by (metis prod_cases5)
  show ?thesis
    using assms walk_conserves [OF w] walk_events [OF w]
    by (auto simp: spec_submit_def w Let_def req_rest_def split: if_splits)
qed

text \<open>The fills and self-match cancellations of a submission, as those of its walk.\<close>

lemma spec_submit_walk:
  assumes "spec_submit stp loc req mn room own contra = (own', contra', mn', evs)"
  obtains ret rem ws where "walk stp loc req mn contra (rq_qty req) = (ret, contra', mn', rem, ws)"
    "fills_of evs = fills_of ws" "touched evs = touched ws"
proof -
  obtain ret ms' n' rem' ws where w: "walk stp loc req mn contra (rq_qty req) = (ret, ms', n', rem', ws)"
    by (metis prod_cases5)
  show thesis
    using assms by (intro that [of ret rem' ws]) (auto simp: spec_submit_def w Let_def split: if_splits)
qed

lemma submit_cases:
  assumes E: "engine_inv e" and S: "submit loc req e = Some (e', evs)"
  obtains (accepted) "accepts loc req e" "engine_inv e'" "only_book loc e e'"
      "spec_submit (me_stp e) loc req (me_next_match e) (ob_capacity (book_at loc e))
        (resting_orders (rq_side req) (book_at loc e)) (resting_orders (opposite (rq_side req)) (book_at loc e)) =
        (resting_orders (rq_side req) (book_at loc e'), resting_orders (opposite (rq_side req)) (book_at loc e'),
         me_next_match e', evs)"
  | (rejected) why where "\<not> accepts loc req e" "e' = e" "evs = [OnRejected loc req why]"
proof (cases "accepts loc req e")
  case True
  from submit_refines_accepted [OF E this] S that(1) [OF True] show thesis by auto
next
  case False
  from submit_rejects [OF E this] S that(2) [OF False] show thesis by auto
qed

lemma submit_numbers:
  assumes "engine_inv e" "submit loc req e = Some (e', evs)"
  shows "map fl_match_number (fills_of evs) = map (\<lambda>i. me_next_match e + of_nat i) [0..<length (fills_of evs)] \<and>
    me_next_match e' = me_next_match e + of_nat (length (fills_of evs))"
  using assms
proof (cases rule: submit_cases)
  case accepted
  from accepted(4) show ?thesis by (rule spec_submit_walk) (metis walk_numbers)
qed simp

end
