(* ===== verification/Feed_Handler.thy ===== *)
theory Feed_Handler
  imports Matching_Engine Itch "HOL-Library.Sublist"
begin

text \<open>
  The feed handler (\<open>include/feed_handler.hpp\<close>): the sequence tracker and the application of
  ITCH messages to a replica book; together with the messages that the exchange's listener
  (\<open>on_fill\<close>, \<open>on_rested\<close>, \<open>on_resting_cancelled\<close> and \<open>send_snapshot\<close> in \<open>src/exchange.cpp\<close>)
  derives from engine events. Shown: a replica that applies the messages of every event stays a
  mirror of the engine's book, and a snapshot rebuilds it with the same time priority.
\<close>

section \<open>Sequence tracking\<close>

record sequence_tracker =
  st_expected :: u64

definition SequenceTracker :: sequence_tracker where
  "SequenceTracker = \<lparr>st_expected = 1\<rparr>"

datatype verdict = Apply | Duplicate | Gap

definition st_reset :: "u64 \<Rightarrow> sequence_tracker \<Rightarrow> sequence_tracker" where
  "st_reset next_expected t = t\<lparr>st_expected := next_expected\<rparr>"

definition on_message :: "u64 \<Rightarrow> sequence_tracker \<Rightarrow> verdict \<times> sequence_tracker" where
  "on_message sq t =
     (if sq = st_expected t then (Apply, t\<lparr>st_expected := st_expected t + 1\<rparr>)
      else (if sq < st_expected t then Duplicate else Gap, t))"

definition on_heartbeat :: "u64 \<Rightarrow> sequence_tracker \<Rightarrow> verdict" where
  "on_heartbeat next_seq t = (if next_seq > st_expected t then Gap else Apply)"

section \<open>Applying messages to a replica\<close>

datatype apply_result = Applied | Ignored | Inconsistent

definition apply_itch :: "u16 \<Rightarrow> itch_message \<Rightarrow> order_book \<Rightarrow> apply_result \<times> order_book" where
  "apply_itch loc msg book =
     (case msg of
        AddOrder m \<Rightarrow>
          if ao_locate m \<noteq> loc then (Ignored, book)
          else let (r, book) = ob_add (ao_order_ref m) (ao_side m) (uint (ao_price m)) (ao_shares m) 0 0 book
               in (if r = AddOk then Applied else Inconsistent, book)
      | OrderExecuted m \<Rightarrow>
          if oe_locate m \<noteq> loc then (Ignored, book)
          else let (ok, book) = ob_reduce (oe_order_ref m) (oe_executed_shares m) book
               in (if ok then Applied else Inconsistent, book)
      | OrderCancel m \<Rightarrow>
          if oc_locate m \<noteq> loc then (Ignored, book)
          else let (ok, book) = ob_reduce (oc_order_ref m) (oc_cancelled_shares m) book
               in (if ok then Applied else Inconsistent, book)
      | OrderDelete m \<Rightarrow>
          if od_locate m \<noteq> loc then (Ignored, book)
          else let (ok, book) = ob_remove (od_order_ref m) book
               in (if ok then Applied else Inconsistent, book)
      | SystemEvent _ \<Rightarrow> (Ignored, book)
      | StockDirectory _ \<Rightarrow> (Ignored, book)
      | EndOfSnapshot _ \<Rightarrow> (Ignored, book))"

definition itch_timestamp :: "itch_message \<Rightarrow> u64" where
  "itch_timestamp msg =
     (case msg of SystemEvent m \<Rightarrow> se_timestamp m | StockDirectory m \<Rightarrow> sd_timestamp m
      | AddOrder m \<Rightarrow> ao_timestamp m | OrderExecuted m \<Rightarrow> oe_timestamp m | OrderCancel m \<Rightarrow> oc_timestamp m
      | OrderDelete m \<Rightarrow> od_timestamp m | EndOfSnapshot _ \<Rightarrow> 0)"

section \<open>The messages the exchange publishes\<close>

text \<open>\<open>static_cast<uint32_t>(o.price)\<close> on the way out, \<open>static_cast<Price>(m.price)\<close> on the way in.\<close>

definition add_msg :: "u16 \<Rightarrow> u64 \<Rightarrow> symbol \<Rightarrow> resting \<Rightarrow> itch_message" where
  "add_msg loc ts stock r =
     AddOrder \<lparr>ao_locate = loc, ao_timestamp = ts, ao_order_ref = ro_id r, ao_side = ro_side r,
       ao_shares = ro_qty r, ao_stock = stock, ao_price = word_of_int (ro_price r)\<rparr>"

definition exec_msg :: "u16 \<Rightarrow> u64 \<Rightarrow> fill \<Rightarrow> itch_message" where
  "exec_msg loc ts f =
     OrderExecuted \<lparr>oe_locate = loc, oe_timestamp = ts, oe_order_ref = fl_maker_id f,
       oe_executed_shares = fl_qty f, oe_match_number = fl_match_number f\<rparr>"

definition cancel_msg :: "u16 \<Rightarrow> u64 \<Rightarrow> resting \<Rightarrow> qty \<Rightarrow> itch_message" where
  "cancel_msg loc ts before cancelled =
     (if cancelled = ro_qty before
      then OrderDelete \<lparr>od_locate = loc, od_timestamp = ts, od_order_ref = ro_id before\<rparr>
      else OrderCancel \<lparr>oc_locate = loc, oc_timestamp = ts, oc_order_ref = ro_id before,
             oc_cancelled_shares = cancelled\<rparr>)"

fun event_msgs :: "(u16 \<Rightarrow> symbol) \<Rightarrow> u64 \<Rightarrow> engine_event \<Rightarrow> itch_message list" where
  "event_msgs stock ts (OnFill loc f) = [exec_msg loc ts f]"
| "event_msgs stock ts (OnRested loc r) = [add_msg loc ts (stock loc) r]"
| "event_msgs stock ts (OnRestingCancelled loc r q why) = [cancel_msg loc ts r q]"
| "event_msgs stock ts ev = []"

text \<open>The messages of a list of events, with the clock reading of each callback.\<close>

fun events_msgs :: "(u16 \<Rightarrow> symbol) \<Rightarrow> (nat \<Rightarrow> u64) \<Rightarrow> nat \<Rightarrow> engine_event list \<Rightarrow> itch_message list" where
  "events_msgs stock clock i [] = []"
| "events_msgs stock clock i (ev # evs) =
     event_msgs stock (clock i) ev @ events_msgs stock clock (Suc i) evs"

definition snapshot_msgs :: "u16 \<Rightarrow> u64 \<Rightarrow> symbol \<Rightarrow> order_book \<Rightarrow> itch_message list" where
  "snapshot_msgs loc ts stock b = map (\<lambda>n. add_msg loc ts stock (rest_of n)) (for_each_order b)"

text \<open>A replica that applies messages one after the other; the flag says that none was inconsistent.\<close>

fun apply_all :: "u16 \<Rightarrow> itch_message list \<Rightarrow> order_book \<Rightarrow> bool \<times> order_book" where
  "apply_all loc [] b = (True, b)"
| "apply_all loc (m # ms) b =
     (case apply_itch loc m b of
        (Inconsistent, b) \<Rightarrow> (False, b)
      | (_, b) \<Rightarrow> apply_all loc ms b)"

lemma apply_all_append:
  "apply_all loc (ms @ ms') b =
     (case apply_all loc ms b of (ok, b') \<Rightarrow> if ok then apply_all loc ms' b' else (False, b'))"
  by (induction ms arbitrary: b) (auto split: prod.split apply_result.split)

lemma events_msgs_append:
  "events_msgs stock clock i (xs @ ys) = events_msgs stock clock i xs @ events_msgs stock clock (i + length xs) ys"
  by (induction xs arbitrary: i) auto

section \<open>The tracker delivers each message once and in order\<close>

text \<open>Feeding numbered messages to the tracker; the messages it lets through.\<close>

fun track :: "sequence_tracker \<Rightarrow> (u64 \<times> 'm) list \<Rightarrow> 'm list \<times> sequence_tracker" where
  "track t [] = ([], t)"
| "track t ((sq, m) # arrivals) =
     (case on_message sq t of (v, t) \<Rightarrow>
        (case track t arrivals of (ms, t) \<Rightarrow> (if v = Apply then m # ms else ms, t)))"

lemma track_step:
  "track t ((sq, m) # arrivals) = (ms, t') \<Longrightarrow>
     (if sq = st_expected t then \<exists>ms'. track (t\<lparr>st_expected := st_expected t + 1\<rparr>) arrivals = (ms', t') \<and> ms = m # ms'
      else track t arrivals = (ms, t'))"
  by (auto simp: on_message_def split: prod.splits if_splits)

lemma track_in_order:
  assumes "track t arrivals = (ms, t')" "\<forall>(sq, m)\<in>set arrivals. m = stream (unat sq)"
    and "unat (st_expected t) + length arrivals < 2 ^ 64"
  shows "unat (st_expected t) \<le> unat (st_expected t') \<and> unat (st_expected t') \<le> unat (st_expected t) + length arrivals \<and>
    ms = map stream [unat (st_expected t) ..< unat (st_expected t')]"
  using assms
proof (induction arrivals arbitrary: t ms)
  case (Cons a arrivals)
  obtain sq m where a: "a = (sq, m)" by (cases a)
  let ?e = "st_expected t"
  note step = track_step [OF Cons.prems(1) [unfolded a]]
  show ?case
  proof (cases "sq = ?e")
    case True
    let ?t = "t\<lparr>st_expected := ?e + 1\<rparr>"
    obtain ms' where T: "track ?t arrivals = (ms', t')" "ms = m # ms'" using step True by auto
    have u: "unat (?e + 1) = Suc (unat ?e)"
      using Cons.prems(3) unat_add_no_wrap [of ?e 1] by simp
    have IH: "Suc (unat ?e) \<le> unat (st_expected t')" "unat (st_expected t') \<le> Suc (unat ?e) + length arrivals"
      "ms' = map stream [Suc (unat ?e) ..< unat (st_expected t')]"
      using Cons.IH [OF T(1)] Cons.prems(2,3) u by auto
    have "[unat ?e ..< unat (st_expected t')] = unat ?e # [Suc (unat ?e) ..< unat (st_expected t')]"
      using IH(1) by (simp add: upt_conv_Cons)
    then show ?thesis using T(2) IH Cons.prems(2) True a by auto
  next
    case False
    then have "track t arrivals = (ms, t')" using step by simp
    from Cons.IH [OF this] Cons.prems(2,3) show ?thesis by auto
  qed
qed auto

lemma track_bound:
  assumes "track t arrivals = (ms, t')" "\<forall>(sq, m)\<in>set arrivals. unat sq < n" "unat (st_expected t) \<le> n"
    and "unat (st_expected t) + length arrivals < 2 ^ 64"
  shows "unat (st_expected t') \<le> n"
  using assms
proof (induction arrivals arbitrary: t ms)
  case (Cons a arrivals)
  obtain sq m where a: "a = (sq, m)" by (cases a)
  note step = track_step [OF Cons.prems(1) [unfolded a]]
  show ?case
  proof (cases "sq = st_expected t")
    case True
    have u: "unat (st_expected t + 1) = Suc (unat (st_expected t))"
      using Cons.prems(4) unat_add_no_wrap [of "st_expected t" 1] by simp
    obtain ms' where "track (t\<lparr>st_expected := st_expected t + 1\<rparr>) arrivals = (ms', t')" using step True by auto
    from Cons.IH [OF this] Cons.prems(2,4) True a u show ?thesis by auto
  next
    case False
    with step have "track t arrivals = (ms, t')" by simp
    from Cons.IH [OF this] Cons.prems show ?thesis by auto
  qed
qed auto

text \<open>When every number of a range arrives at least once in increasing order, whatever is interleaved,
  the whole range is delivered.\<close>

lemma track_complete:
  assumes "track t arrivals = (ms, t')" "subseq (map word_of_nat [unat (st_expected t) ..< n]) (map fst arrivals)"
    and "unat (st_expected t) + length arrivals < 2 ^ 64"
  shows "n \<le> unat (st_expected t')"
  using assms
proof (induction arrivals arbitrary: t ms)
  case Nil
  then show ?case by (cases "unat (st_expected t) < n") (auto simp: upt_conv_Cons)
next
  case (Cons a arrivals)
  obtain sq m where a: "a = (sq, m)" by (cases a)
  let ?e = "st_expected t"
  note step = track_step [OF Cons.prems(1) [unfolded a]]
  have range: "unat ?e < n \<Longrightarrow> [unat ?e ..< n] = unat ?e # [Suc (unat ?e) ..< n]" by (simp add: upt_conv_Cons)
  show ?case
  proof (cases "sq = ?e")
    case True
    have u: "unat (?e + 1) = Suc (unat ?e)" using Cons.prems(3) unat_add_no_wrap [of ?e 1] by simp
    have "subseq (map word_of_nat [Suc (unat ?e) ..< n]) (map fst arrivals)"
      using Cons.prems(2) True a range by (cases "unat ?e < n") simp_all
    then show ?thesis using Cons.IH step True u Cons.prems(3) by fastforce
  next
    case False
    then have "subseq (map word_of_nat [unat ?e ..< n]) (map fst arrivals)"
      using Cons.prems(2) a range by (cases "unat ?e < n") simp_all
    then show ?thesis using Cons.IH step False Cons.prems(3) by fastforce
  qed
qed

section \<open>A replica follows the engine\<close>

definition wire_band :: "order_book \<Rightarrow> bool" where
  "wire_band b \<longleftrightarrow> (\<forall>p. valid_price b p \<longrightarrow> 0 \<le> p \<and> p < 2 ^ 32)"

lemma wire_price: "0 \<le> p \<Longrightarrow> p < 2 ^ 32 \<Longrightarrow> uint (word_of_int p :: u32) = p"
  by (simp add: unsigned_of_int take_bit_int_eq_self)

text \<open>The replica's book \<open>c\<close> after messages that consume the head of side \<open>s\<close>.\<close>

definition side_is :: "side \<Rightarrow> order_book \<Rightarrow> resting list \<Rightarrow> order_book \<Rightarrow> bool" where
  "side_is s c ms c' \<longleftrightarrow> book_inv c' \<and> same_grid c c' \<and>
     (\<forall>t. resting_orders t c' = (if t = s then ms else resting_orders t c))"

lemma side_is_trans: "side_is s c ms c' \<Longrightarrow> side_is s c' ms' c'' \<Longrightarrow> side_is s c ms' c''"
  by (simp add: side_is_def same_grid_def)

lemma replica_reduce_head:
  assumes "book_inv c" "resting_orders s c = r # rs" "a \<le> ro_qty r"
  shows "\<exists>c'. ob_reduce (ro_id r) a c = (True, c') \<and>
    side_is s c (if ro_qty r = a then rs else r\<lparr>ro_qty := ro_qty r - a\<rparr> # rs) c'"
proof -
  have r: "r \<in> set (resting_orders s c)" using assms(2) by simp
  obtain c' where c': "ob_reduce (ro_id r) a c = (True, c')" "book_inv c'" "same_grid c c'"
    "\<And>t. resting_orders t c' = reduce_list (ro_id r) a (resting_orders t c)"
    using ob.reduce_law [OF assms(1) r assms(3)] by (auto simp: same_grid_def)
  have "resting_orders t c' = (if t = s then if ro_qty r = a then rs else r\<lparr>ro_qty := ro_qty r - a\<rparr> # rs
      else resting_orders t c)" for t
    using c'(4) assms(2) ob.ids_other_side [OF assms(1) r, of t] by (simp add: reduce_list_absent)
  with c' show ?thesis by (auto simp: side_is_def)
qed

lemma replica_remove_head:
  assumes "book_inv c" "resting_orders s c = r # rs"
  shows "\<exists>c'. ob_remove (ro_id r) c = (True, c') \<and> side_is s c rs c'"
proof -
  have "ro_id r \<in> ro_id ` (\<Union>t. set (resting_orders t c))" using assms(2) by (auto intro!: imageI exI [of _ s])
  then obtain c' where c': "ob_remove (ro_id r) c = (True, c')"
    using ob.remove_law [OF assms(1), of "ro_id r"] by auto
  with ob.remove_front [OF assms] show ?thesis by (auto simp: side_is_def same_grid_def)
qed

lemma apply_exec [simp]:
  "apply_itch loc (exec_msg loc ts f) c =
     (case ob_reduce (fl_maker_id f) (fl_qty f) c of (ok, c') \<Rightarrow> (if ok then Applied else Inconsistent, c'))"
  by (simp add: apply_itch_def exec_msg_def)

lemma apply_cancel [simp]:
  "apply_itch loc (cancel_msg loc ts r q) c =
     (case if q = ro_qty r then ob_remove (ro_id r) c else ob_reduce (ro_id r) q c of
        (ok, c') \<Rightarrow> (if ok then Applied else Inconsistent, c'))"
  by (simp add: apply_itch_def cancel_msg_def)

text \<open>The messages of a matching run applied to a replica consume the same makers.\<close>

lemma replica_walk:
  assumes "walk stp loc req mn ms rem = (ret, ms', mn', rem', evs)"
    and "book_inv c" "resting_orders s c = map public ms"
  shows "\<exists>c'. apply_all loc (events_msgs stock clock i evs) c = (True, c') \<and> side_is s c (map public ms') c'"
  using assms
proof (induction ms arbitrary: mn rem ret ms' mn' rem' evs c i)
  case Nil
  then show ?case by (auto simp: side_is_def same_grid_def)
next
  case (Cons m ms)
  have head: "resting_orders s c = public m # map public ms" using Cons.prems(3) by simp
  have step: "\<exists>c''. apply_all loc (events_msgs stock clock (Suc i) evs') c' = (True, c'') \<and>
      side_is s c (map public ms') c''"
    if "side_is s c (map public ms) c'" "walk stp loc req k ms q = (ret, ms', mn', rem', evs')" for c' k q evs'
  proof -
    have "book_inv c'" "resting_orders s c' = map public ms" using that(1) by (simp_all add: side_is_def)
    with Cons.IH [OF that(2)] side_is_trans [OF that(1)] show ?thesis by blast
  qed
  from Cons.prems(1) show ?case
  proof (cases rule: walk_cases)
    case (self_resting evs')
    obtain c1 where "ob_remove (ro_id m) c = (True, c1)" "side_is s c (map public ms) c1"
      using replica_remove_head [OF Cons.prems(2) head] by auto
    then show ?thesis using self_resting step [OF _ self_resting(6), of c1] by simp
  next
    case partial
    then have "ro_qty m \<noteq> rem" "rem \<le> ro_qty m" by auto
    then show ?thesis
      using replica_reduce_head [OF Cons.prems(2) head, of rem] partial by auto
  next
    case (full evs')
    obtain c1 where "ob_reduce (ro_id m) (ro_qty m) c = (True, c1)" "side_is s c (map public ms) c1"
      using replica_reduce_head [OF Cons.prems(2) head, of "ro_qty m"] by auto
    then show ?thesis using full step [OF _ full(5), of c1] by simp
  qed (use Cons.prems in \<open>auto simp: side_is_def same_grid_def\<close>)
qed

lemma apply_add:
  assumes "0 \<le> ro_price r" "ro_price r < 2 ^ 32"
  shows "apply_itch loc (add_msg loc ts stock r) c =
     (case ob_add (ro_id r) (ro_side r) (ro_price r) (ro_qty r) 0 0 c of
        (res, c') \<Rightarrow> (if res = AddOk then Applied else Inconsistent, c'))"
  by (simp add: apply_itch_def add_msg_def wire_price [OF assms])

text \<open>Messages of other symbols leave a replica alone.\<close>

fun ev_locate :: "engine_event \<Rightarrow> u16" where
  "ev_locate (OnAccepted loc req) = loc"
| "ev_locate (OnRejected loc req why) = loc"
| "ev_locate (OnFill loc f) = loc"
| "ev_locate (OnRested loc r) = loc"
| "ev_locate (OnRestingCancelled loc r q why) = loc"
| "ev_locate (OnTakerCancelled loc req q why) = loc"

lemma event_other_symbol:
  "ev_locate ev \<noteq> l \<Longrightarrow> apply_all l (event_msgs stock ts ev) c = (True, c)"
  by (cases ev) (auto simp: apply_itch_def exec_msg_def add_msg_def cancel_msg_def)

lemma events_other_symbol:
  "\<forall>ev\<in>set evs. ev_locate ev \<noteq> l \<Longrightarrow> apply_all l (events_msgs stock clock i evs) c = (True, c)"
  by (induction evs arbitrary: i) (auto simp: apply_all_append event_other_symbol)

lemma walk_locates:
  "walk stp loc req mn ms rem = (ret, ms', mn', rem', evs) \<Longrightarrow> ev \<in> set evs \<Longrightarrow> ev_locate ev = loc"
proof (induction ms arbitrary: mn rem ret ms' mn' rem' evs)
  case (Cons m ms)
  from Cons.prems(1) show ?case
    by (cases rule: walk_cases) (use Cons in auto)
qed auto

lemma spec_submit_locates:
  assumes "spec_submit stp loc req mn room own contra = (own', contra', mn', evs)" "ev \<in> set evs"
  shows "ev_locate ev = loc"
proof -
  obtain ret c1 n1 rem es where W: "walk stp loc req mn contra (rq_qty req) = (ret, c1, n1, rem, es)"
    by (metis prod_cases5)
  show ?thesis using assms walk_locates [OF W] by (auto simp: spec_submit_def W Let_def split: if_splits)
qed

text \<open>An accepted submission: the replica of the same symbol.\<close>

lemma replica_submit:
  assumes M: "ob.mirrors b c" and B: "wire_band b"
    and v: "valid_price b (rq_price req)" "rq_id req \<notin> book_ids b"
    and S: "spec_submit stp loc req mn (ob_capacity b) (resting_orders (rq_side req) b)
      (resting_orders (opposite (rq_side req)) b) =
      (resting_orders (rq_side req) b', resting_orders (opposite (rq_side req)) b', mn', evs)"
    and b': "book_inv b'" "same_grid b b'"
  shows "\<exists>c'. apply_all loc (events_msgs stock clock i evs) c = (True, c') \<and> ob.mirrors b' c'"
proof -
  let ?s = "rq_side req" and ?o = "opposite (rq_side req)"
  note D = ob.mirrorsD [OF M]
  obtain ret ms1 n1 rem es where W: "walk stp loc req mn (resting_orders ?o b) (rq_qty req) = (ret, ms1, n1, rem, es)"
    by (metis prod_cases5)
  obtain c1 where c1: "apply_all loc (events_msgs stock clock (Suc i) es) c = (True, c1)"
    "side_is ?o c (map public ms1) c1"
    using replica_walk [OF W D(2) D(5)] by blast
  have lists: "resting_orders t c1 = (if t = ?o then map public ms1 else map public (resting_orders t b))" for t
    using c1(2) D(5) by (simp add: side_is_def)
  have g1: "book_inv c1" "valid_price c1 = valid_price b" "ob_capacity c1 = ob_capacity b"
    using c1(2) D(3,4) by (simp_all add: side_is_def same_grid_def)
  have sides: "t = ?s \<or> t = ?o" for t by (cases t; cases ?s) (simp_all add: opposite_def)
  have mir: "ob.mirrors b' c'" if "book_inv c'" "same_grid c1 c'"
    "resting_orders ?s c' = map public (resting_orders ?s b')" "resting_orders ?o c' = map public (resting_orders ?o b')" for c'
    using that b' g1(2,3) sides unfolding ob.mirrors_def same_grid_def by metis
  show ?thesis
  proof (cases "ret \<or> rem = 0 \<or> rq_tif req = IOC \<or> \<not> (rq_id req \<noteq> 0 \<and> length (resting_orders ?s b) + length ms1 < ob_capacity b)")
    case True
    then have "resting_orders ?s b' = resting_orders ?s b" "resting_orders ?o b' = ms1"
      "apply_all loc (events_msgs stock clock i evs) c = (True, c1)"
      using S W c1(1) by (auto simp: spec_submit_def Let_def events_msgs_append apply_all_append split: if_splits)
    then show ?thesis using mir [OF g1(1)] lists by (auto simp: same_grid_def)
  next
    case False
    then have R: "resting_orders ?s b' = insert_prio ?s (req_rest req rem) (resting_orders ?s b)"
      "resting_orders ?o b' = ms1" "evs = OnAccepted loc req # es @ [OnRested loc (req_rest req rem)]"
      using S W by (auto simp: spec_submit_def Let_def split: if_splits)
    have ids: "rq_id req \<notin> ro_id ` (\<Union>t. set (resting_orders t c1))"
    proof -
      have "ro_id ` set ms1 \<subseteq> ro_id ` set (resting_orders ?o b)" using walk_leaves [OF W] by blast
      then show ?thesis using v(2) unfolding book_ids_union by (auto simp: lists image_iff split: if_splits)
    qed
    have len: "length (resting_orders Buy c1) + length (resting_orders Sell c1) < ob_capacity c1"
      using False g1(3) lists by (cases ?s) (auto simp: opposite_def)
    have band: "0 \<le> rq_price req" "rq_price req < 2 ^ 32" using B v(1) by (auto simp: wire_band_def)
    obtain c2 where c2: "ob_add (rq_id req) ?s (rq_price req) rem 0 0 c1 = (AddOk, c2)" "book_inv c2" "same_grid c1 c2"
      "\<And>t. resting_orders t c2 = (if t = ?s then insert_prio ?s (public (req_rest req rem)) (resting_orders ?s c1)
         else resting_orders t c1)"
      using ob.add_law [OF g1(1) _ _ _ ids len, of "rq_price req" rem ?s 0 0] False v(1) g1(2)
      by (auto simp: same_grid_def public_def req_rest_def)
    have "apply_all loc (events_msgs stock clock i evs) c = (True, c2)"
      using c1(1) c2(1) band by (simp add: R(3) events_msgs_append apply_all_append apply_add req_rest_def)
    moreover have "ob.mirrors b' c2"
      by (intro mir c2) (simp_all add: c2(4) lists R map_public_insert)
    ultimately show ?thesis by blast
  qed
qed

lemma submit_mirrors:
  assumes E: "engine_inv e" and l: "valid_locate l e" and M: "ob.mirrors (book_at l e) c" and B: "wire_band (book_at l e)"
    and S: "submit loc req e = Some (e', evs)"
  shows "\<exists>c'. apply_all l (events_msgs stock clock i evs) c = (True, c') \<and> ob.mirrors (book_at l e') c'"
proof (cases "accepts loc req e")
  case False
  then have "e' = e" "\<exists>why. evs = [OnRejected loc req why]" using submit_rejects [OF E False] S by auto
  then show ?thesis using M by auto
next
  case True
  from submit_refines_accepted [OF E True] S
  have e': "engine_inv e'" "only_book loc e e'"
    and sp: "spec_submit (me_stp e) loc req (me_next_match e) (ob_capacity (book_at loc e))
      (resting_orders (rq_side req) (book_at loc e)) (resting_orders (opposite (rq_side req)) (book_at loc e)) =
      (resting_orders (rq_side req) (book_at loc e'), resting_orders (opposite (rq_side req)) (book_at loc e'),
       me_next_match e', evs)"
    by auto
  show ?thesis
  proof (cases "l = loc")
    case True
    have "valid_locate loc e'" using l e'(2) True by (simp add: valid_locate_def only_book_def)
    with e' have "book_inv (book_at loc e')" "same_grid (book_at loc e) (book_at loc e')"
      by (auto dest: engine_inv_book simp: only_book_def)
    moreover have "valid_price (book_at loc e) (rq_price req)" "rq_id req \<notin> book_ids (book_at loc e)"
      using \<open>accepts loc req e\<close> by (simp_all add: accepts_def)
    ultimately show ?thesis using replica_submit [OF _ _ _ _ sp] M B unfolding True by blast
  next
    case False
    then have "book_at l e' = book_at l e" using e'(2) l by (simp add: only_book_def)
    moreover have "apply_all l (events_msgs stock clock i evs) c = (True, c)"
      using spec_submit_locates [OF sp] False by (intro events_other_symbol) auto
    ultimately show ?thesis using M by auto
  qed
qed

lemma cancel_mirrors:
  assumes E: "engine_inv e" and l: "valid_locate l e" and M: "ob.mirrors (book_at l e) c"
    and S: "cancel loc k nq owner why e = (res, e', evs)"
  shows "\<exists>c'. apply_all l (events_msgs stock clock i evs) c = (True, c') \<and> ob.mirrors (book_at l e') c'"
proof (cases "cancel_verdict loc k nq owner e = CancelOk")
  case False
  then have "e' = e" "evs = []" using cancel_refines [OF E, of loc k nq owner why] S by auto
  then show ?thesis using M by auto
next
  case True
  then obtain r where r: "r \<in> set (book_orders (book_at loc e))" "ro_id r = k" "nq < ro_qty r"
    "evs = [OnRestingCancelled loc r (ro_qty r - nq) why]" "only_book loc e e'" "engine_inv e'"
    "\<And>t. resting_orders t (book_at loc e') = reduce_list k (ro_qty r - nq) (resting_orders t (book_at loc e))"
    using cancel_refines [OF E, of loc k nq owner why] S by auto
  show ?thesis
  proof (cases "l = loc")
    case False
    then have "book_at l e' = book_at l e" using r(5) l by (simp add: only_book_def)
    moreover have "apply_all l (events_msgs stock clock i evs) c = (True, c)"
      using False r(4) by (intro events_other_symbol) auto
    ultimately show ?thesis using M by auto
  next
    case True
    note D = ob.mirrorsD [OF M [unfolded True]]
    have inv': "book_inv (book_at loc e')" "same_grid (book_at loc e) (book_at loc e')"
      using r(5,6) l True engine_inv_book [of e' loc] by (auto simp: only_book_def valid_locate_def)
    have pr: "public r \<in> set (book_orders c)" using r(1) D(5) by (auto simp: set_book_orders)
    let ?c = "if nq = 0 then snd (ob_remove k c) else snd (ob_reduce k (ro_qty r - nq) c)"
    have C: "book_inv ?c" "same_grid c ?c"
      "\<And>t. resting_orders t ?c = reduce_list k (ro_qty r - nq) (resting_orders t c)"
      using cancel_reduces [OF D(2) pr, of nq] r(2,3) by auto
    have mir: "ob.mirrors (book_at loc e') ?c"
      using C inv' D r(7) unfolding ob.mirrors_def same_grid_def by (metis map_public_reduce)
    have "\<exists>c'. (if nq = 0 then ob_remove k c else ob_reduce k (ro_qty r - nq) c) = (True, c')"
    proof (cases "nq = 0")
      case True
      have "k \<in> ro_id ` (\<Union>t. set (resting_orders t (book_at loc e)))" using r(1,2) by (auto simp: set_book_orders)
      then show ?thesis using ob.mirror_remove [OF M [unfolded \<open>l = loc\<close>]] True by auto
    next
      case False
      obtain s where "r \<in> set (resting_orders s (book_at loc e))" using r(1) by (auto simp: set_book_orders)
      moreover have "ro_qty r - nq \<le> ro_qty r" using word_sub_less(2) [OF False r(3)] by simp
      ultimately show ?thesis using ob.mirror_reduce [OF M [unfolded \<open>l = loc\<close>]] False r(2) by fastforce
    qed
    then obtain c2 where app: "(if nq = 0 then ob_remove k c else ob_reduce k (ro_qty r - nq) c) = (True, c2)" "?c = c2"
      by (auto split: if_splits)
    have "ro_qty r - nq = ro_qty r \<longleftrightarrow> nq = 0" by auto
    then have "apply_all l (events_msgs stock clock i evs) c = (True, c2)"
      using app(1) r(2,4) True by (auto split: if_splits)
    then show ?thesis using mir True app(2) by auto
  qed
qed

text \<open>Runs of the engine: any sequence of submissions and cancels on any symbol.\<close>

inductive venue_run :: "matching_engine \<Rightarrow> engine_event list \<Rightarrow> matching_engine \<Rightarrow> bool" where
  start: "venue_run e [] e"
| submitted: "venue_run e evs e1 \<Longrightarrow> submit loc req e1 = Some (e2, new) \<Longrightarrow> venue_run e (evs @ new) e2"
| cancelled: "venue_run e evs e1 \<Longrightarrow> cancel loc k nq owner why e1 = (res, e2, new) \<Longrightarrow> venue_run e (evs @ new) e2"

lemma submit_keeps:
  assumes "engine_inv e" "submit loc req e = Some (e', evs)"
  shows "engine_inv e' \<and> length (me_books e') = length (me_books e) \<and> me_symbols e' = me_symbols e \<and>
    (\<forall>l. valid_locate l e \<longrightarrow> same_grid (book_at l e) (book_at l e'))"
proof (cases "accepts loc req e")
  case True
  have "engine_inv e' \<and> only_book loc e e'" using submit_refines_accepted [OF assms(1) True] assms(2) by auto
  then show ?thesis unfolding only_book_def same_grid_def by metis
next
  case False
  then show ?thesis using submit_rejects [OF assms(1) False] assms by (auto simp: same_grid_def)
qed

lemma cancel_keeps:
  assumes "engine_inv e" "cancel loc k nq owner why e = (res, e', evs)"
  shows "engine_inv e' \<and> length (me_books e') = length (me_books e) \<and> me_symbols e' = me_symbols e \<and>
    (\<forall>l. valid_locate l e \<longrightarrow> same_grid (book_at l e) (book_at l e'))"
proof (cases "cancel_verdict loc k nq owner e = CancelOk")
  case True
  have "engine_inv e' \<and> only_book loc e e'" using cancel_refines [OF assms(1), of loc k nq owner why] assms(2) True by auto
  then show ?thesis unfolding only_book_def same_grid_def by metis
next
  case False
  then show ?thesis using cancel_refines [OF assms(1), of loc k nq owner why] assms by (auto simp: same_grid_def)
qed

lemma venue_run_keeps:
  assumes "venue_run e evs e'" "engine_inv e"
  shows "engine_inv e' \<and> length (me_books e') = length (me_books e) \<and> me_symbols e' = me_symbols e \<and>
    (\<forall>l. valid_locate l e \<longrightarrow> same_grid (book_at l e) (book_at l e'))"
  using assms
proof (induction rule: venue_run.induct)
  case (submitted e evs e1 loc req e2 new)
  then show ?case using submit_keeps [of e1 loc req e2 new] by (auto simp: same_grid_def valid_locate_def)
next
  case (cancelled e evs e1 loc k nq owner why res e2 new)
  then show ?case using cancel_keeps [of e1 loc k nq owner why res e2 new] by (auto simp: same_grid_def valid_locate_def)
qed (simp add: same_grid_def)

text \<open>Trades are numbered consecutively over a run.\<close>

lemma venue_run_numbers:
  assumes "venue_run e evs e'" "engine_inv e"
  shows "map fl_match_number (fills_of evs) = map (\<lambda>i. me_next_match e + of_nat i) [0..<length (fills_of evs)] \<and>
    me_next_match e' = me_next_match e + of_nat (length (fills_of evs))"
  using assms
proof (induction rule: venue_run.induct)
  case (submitted e evs e1 loc req e2 new)
  have E: "engine_inv e1" using venue_run_keeps [OF submitted.hyps(1) submitted.prems] by blast
  note n = submit_numbers [OF E submitted.hyps(2)]
  note m = submitted.IH [OF submitted.prems]
  from n m show ?case by (simp add: map_upt_add add.assoc)
next
  case (cancelled e evs e1 loc k nq owner why res e2 new)
  have E: "engine_inv e1" using venue_run_keeps [OF cancelled.hyps(1) cancelled.prems] by blast
  have "fills_of new = [] \<and> me_next_match e2 = me_next_match e1"
    using cancel_refines [OF E, of loc k nq owner why] cancelled.hyps(2) by (auto split: if_splits)
  with cancelled show ?case by simp
qed simp

lemma venue_run_mirrors:
  assumes "venue_run e evs e'" "engine_inv e" "valid_locate l e" "ob.mirrors (book_at l e) c" "wire_band (book_at l e)"
  shows "\<exists>c'. apply_all l (events_msgs stock clock i evs) c = (True, c') \<and> ob.mirrors (book_at l e') c'"
  using assms
proof (induction rule: venue_run.induct)
  case (submitted e evs e1 loc req e2 new)
  note K = venue_run_keeps [OF submitted.hyps(1) submitted.prems(1)]
  obtain c1 where c1: "apply_all l (events_msgs stock clock i evs) c = (True, c1)" "ob.mirrors (book_at l e1) c1"
    using submitted.IH submitted.prems by blast
  have "valid_locate l e1" "wire_band (book_at l e1)"
    using K submitted.prems by (auto simp: same_grid_def wire_band_def valid_locate_def)
  then obtain c2 where "apply_all l (events_msgs stock clock (i + length evs) new) c1 = (True, c2)" "ob.mirrors (book_at l e2) c2"
    using submit_mirrors [OF _ _ c1(2) _ submitted.hyps(2)] K by blast
  then show ?case using c1(1) by (auto simp: events_msgs_append apply_all_append)
next
  case (cancelled e evs e1 loc k nq owner why res e2 new)
  note K = venue_run_keeps [OF cancelled.hyps(1) cancelled.prems(1)]
  obtain c1 where c1: "apply_all l (events_msgs stock clock i evs) c = (True, c1)" "ob.mirrors (book_at l e1) c1"
    using cancelled.IH cancelled.prems by blast
  have "valid_locate l e1" using K cancelled.prems by (auto simp: valid_locate_def)
  then obtain c2 where "apply_all l (events_msgs stock clock (i + length evs) new) c1 = (True, c2)" "ob.mirrors (book_at l e2) c2"
    using cancel_mirrors [OF _ _ c1(2) cancelled.hyps(2)] K by blast
  then show ?case using c1(1) by (auto simp: events_msgs_append apply_all_append)
qed auto

section \<open>A snapshot rebuilds the book\<close>

lemma insert_prio_last:
  "\<forall>y\<in>set xs. at_least s (ro_price y) (ro_price r) \<Longrightarrow> insert_prio s r xs = xs @ [r]"
  by (simp add: insert_prio_def takeWhile_eq_all_conv [THEN iffD2] dropWhile_eq_Nil_conv [THEN iffD2])

text \<open>Orders that could be added one after the other behind what side \<open>s\<close> of the book holds.\<close>

definition addable :: "side \<Rightarrow> resting list \<Rightarrow> order_book \<Rightarrow> bool" where
  "addable s rs c \<longleftrightarrow> (\<forall>r\<in>set rs. ro_side r = s \<and> ro_qty r \<noteq> 0 \<and> ro_id r \<noteq> 0 \<and> valid_price c (ro_price r)) \<and>
     distinct (map ro_id rs) \<and> ro_id ` set rs \<inter> ro_id ` (\<Union>t. set (resting_orders t c)) = {} \<and>
     sorted_wrt (\<lambda>r r'. at_least s (ro_price r) (ro_price r')) (resting_orders s c @ rs) \<and>
     length (resting_orders Buy c) + length (resting_orders Sell c) + length rs \<le> ob_capacity c"

lemma snapshot_side:
  assumes "book_inv c" "wire_band c" "addable s rs c"
  shows "\<exists>c'. apply_all loc (map (add_msg loc ts stock) rs) c = (True, c') \<and>
    side_is s c (resting_orders s c @ map public rs) c'"
  using assms
proof (induction rs arbitrary: c)
  case Nil
  then show ?case by (simp add: side_is_def same_grid_def)
next
  case (Cons r rs)
  have r: "ro_side r = s" "ro_qty r \<noteq> 0" "ro_id r \<noteq> 0" "valid_price c (ro_price r)"
    "ro_id r \<notin> ro_id ` (\<Union>t. set (resting_orders t c))"
    "length (resting_orders Buy c) + length (resting_orders Sell c) < ob_capacity c"
    "\<forall>y\<in>set (resting_orders s c). at_least s (ro_price y) (ro_price r)"
    using Cons.prems(3) by (auto simp: addable_def sorted_wrt_append)
  have band: "0 \<le> ro_price r" "ro_price r < 2 ^ 32" using Cons.prems(2) r(4) by (auto simp: wire_band_def)
  have pub: "\<lparr>ro_id = ro_id r, ro_price = ro_price r, ro_qty = ro_qty r, ro_owner = 0, ro_user_ref = 0, ro_side = s\<rparr> = public r"
    using r(1) by (simp add: public_def)
  have last: "insert_prio s (public r) (resting_orders s c) = resting_orders s c @ [public r]"
    using insert_prio_last [of "resting_orders s c" s "public r"] r(7) by simp
  obtain c1 where c1: "ob_add (ro_id r) s (ro_price r) (ro_qty r) 0 0 c = (AddOk, c1)" "book_inv c1" "same_grid c c1"
    "\<And>t. resting_orders t c1 = (if t = s then resting_orders s c @ [public r] else resting_orders t c)"
    using ob.add_law [OF Cons.prems(1) r(4,2,3,5,6), of s 0 0] unfolding pub last same_grid_def by blast
  have step: "side_is s c (resting_orders s c @ [public r]) c1" using c1 by (simp add: side_is_def)
  have "addable s rs c1"
    unfolding addable_def
  proof (intro conjI)
    show "\<forall>r\<in>set rs. ro_side r = s \<and> ro_qty r \<noteq> 0 \<and> ro_id r \<noteq> 0 \<and> valid_price c1 (ro_price r)"
      "distinct (map ro_id rs)"
      using Cons.prems(3) c1(3) by (simp_all add: addable_def same_grid_def)
    show "ro_id ` set rs \<inter> ro_id ` (\<Union>t. set (resting_orders t c1)) = {}"
    proof -
      have "(\<Union>t. set (resting_orders t c1)) \<subseteq> insert (public r) (\<Union>t. set (resting_orders t c))"
        by (auto simp: c1(4) split: if_splits)
      then have "ro_id ` (\<Union>t. set (resting_orders t c1)) \<subseteq> insert (ro_id r) (ro_id ` (\<Union>t. set (resting_orders t c)))"
        by (metis image_insert image_mono public_sel(1))
      moreover have "ro_id ` set rs \<inter> insert (ro_id r) (ro_id ` (\<Union>t. set (resting_orders t c))) = {}"
        using Cons.prems(3) unfolding addable_def by (simp add: disjoint_iff)
      ultimately show ?thesis by blast
    qed
    show "sorted_wrt (\<lambda>r r'. at_least s (ro_price r) (ro_price r')) (resting_orders s c1 @ rs)"
      using Cons.prems(3) by (auto simp: addable_def c1(4) sorted_wrt_append)
    show "length (resting_orders Buy c1) + length (resting_orders Sell c1) + length rs \<le> ob_capacity c1"
      using Cons.prems(3) c1(3) by (cases s) (simp_all add: addable_def c1(4) same_grid_def)
  qed
  moreover have "wire_band c1" using Cons.prems(2) c1(3) by (simp add: wire_band_def same_grid_def)
  ultimately obtain c2 where "apply_all loc (map (add_msg loc ts stock) rs) c1 = (True, c2)"
    "side_is s c1 (resting_orders s c1 @ map public rs) c2"
    using Cons.IH [OF c1(2)] by blast
  then show ?case using side_is_trans [OF step] c1(1,4) r(1) band by (simp add: apply_add)
qed

lemma snapshot_mirrors:
  assumes inv: "book_inv b" "wire_band b" and c: "book_inv c" "same_grid b c" "\<And>s. resting_orders s c = []"
  shows "\<exists>c'. apply_all loc (snapshot_msgs loc ts stock b) c = (True, c') \<and> ob.mirrors b c'"
proof -
  have msgs: "snapshot_msgs loc ts stock b =
      map (add_msg loc ts stock) (resting_orders Buy b) @ map (add_msg loc ts stock) (resting_orders Sell b)"
    unfolding snapshot_msgs_def using book_orders_for_each [of b]
    by (metis (no_types, lifting) book_orders_def map_append map_map comp_apply map_eq_conv)
  have cap: "length (resting_orders Buy b) + length (resting_orders Sell b) \<le> ob_capacity b"
    using book_order_count(2) [OF inv(1)] by (simp add: book_orders_def ob_capacity_def)
  have can: "addable s (resting_orders s b) c1"
    if "same_grid b c1" "resting_orders s c1 = []" "\<And>t. t \<noteq> s \<Longrightarrow> ro_id ` set (resting_orders t c1) \<subseteq> ro_id ` set (resting_orders t b)"
      "length (resting_orders (opposite s) c1) \<le> length (resting_orders (opposite s) b)" for s c1
    unfolding addable_def
  proof (intro conjI)
    show "\<forall>r\<in>set (resting_orders s b). ro_side r = s \<and> ro_qty r \<noteq> 0 \<and> ro_id r \<noteq> 0 \<and> valid_price c1 (ro_price r)"
      using book_node_facts [OF inv(1)] that(1) by (simp add: same_grid_def)
    show "distinct (map ro_id (resting_orders s b))" using ob.ids [OF inv(1)] by (cases s) auto
    show "sorted_wrt (\<lambda>r r'. at_least s (ro_price r) (ro_price r')) (resting_orders s c1 @ resting_orders s b)"
      using ob.prio [OF inv(1)] that(2) by simp
    show "length (resting_orders Buy c1) + length (resting_orders Sell c1) + length (resting_orders s b) \<le> ob_capacity c1"
      using cap that(1,2,4) by (cases s) (simp_all add: same_grid_def opposite_def)
    show "ro_id ` set (resting_orders s b) \<inter> ro_id ` (\<Union>t. set (resting_orders t c1)) = {}"
    proof -
      have "ro_id ` set (resting_orders s b) \<inter> ro_id ` set (resting_orders t c1) = {}" for t
        using ob.ids_other_side [OF inv(1), of _ s t] that(2,3) by (cases "t = s") fastforce+
      then show ?thesis by (auto simp: image_UN)
    qed
  qed
  obtain c1 where c1: "apply_all loc (map (add_msg loc ts stock) (resting_orders Buy b)) c = (True, c1)"
    "side_is Buy c (map public (resting_orders Buy b)) c1"
    using snapshot_side [OF c(1) _ can] inv(2) c(2,3) by (fastforce simp: wire_band_def same_grid_def)
  have g: "book_inv c1" "same_grid b c1" "resting_orders Sell c1 = []"
    "resting_orders Buy c1 = map public (resting_orders Buy b)"
    using c1(2) c by (simp_all add: side_is_def same_grid_def)
  have "addable Sell (resting_orders Sell b) c1"
  proof (rule can [OF g(2,3)])
    show "ro_id ` set (resting_orders t c1) \<subseteq> ro_id ` set (resting_orders t b)" if "t \<noteq> Sell" for t
      using that g(4) by (cases t) (auto simp: image_iff)
  qed (simp add: opposite_def g(4))
  then obtain c2 where c2: "apply_all loc (map (add_msg loc ts stock) (resting_orders Sell b)) c1 = (True, c2)"
    "side_is Sell c1 (map public (resting_orders Sell b)) c2"
    using snapshot_side [OF g(1), of Sell] inv(2) g(2,3) by (fastforce simp: wire_band_def same_grid_def)
  have "ob.mirrors b c2"
    unfolding ob.mirrors_def using c2(2) g inv(1) by (auto simp: side_is_def same_grid_def) (metis side.exhaust)
  then show ?thesis using c1(1) c2(1) by (simp add: msgs apply_all_append)
qed

end
