(* ===== verification/Market_Data.thy ===== *)
theory Market_Data
  imports Mold Feed_Handler
begin

text \<open>
  The public feed of the exchange (class \<open>MarketDataFeed\<close> in \<open>src/exchange.cpp\<close>): batching of
  ITCH messages into MoldUDP64 packets, assignment of sequence numbers, simulated loss and
  heartbeats. The datagrams handed to \<open>sendto\<close> are outputs; the value \<open>sendto\<close> returns and the
  monotonic clock reading are arguments. \<open>md_log\<close> is the history of the messages published, for the
  theorems to speak of; no operation reads it. Shown: the k-th published message has sequence number k,
  every datagram carries messages under their own numbers whatever was dropped, and without drops
  the datagrams carry all flushed messages in order.
\<close>

section \<open>Model\<close>

record market_data_feed =
  md_pkt :: packet_builder
  md_next_seq :: u64
  md_drop_every :: u64
  md_messages :: u64
  md_packets :: u64
  md_dropped :: u64
  md_heartbeats :: u64
  md_send_errors :: u64
  md_last_send_ns :: u64
  md_log :: "itch_message list"

definition kHeartbeatNs :: u64 where
  "kHeartbeatNs = 1000000000"

definition kSessionName :: bytes where
  "kSessionName = str ''PFX0000001''"

definition MarketDataFeed :: "bytes \<Rightarrow> u64 \<Rightarrow> market_data_feed" where
  "MarketDataFeed raw drop_every =
     \<lparr>md_pkt = pb_begin 1 (PacketBuilder raw kSessionName), md_next_seq = 1, md_drop_every = drop_every,
      md_messages = 0, md_packets = 0, md_dropped = 0, md_heartbeats = 0, md_send_errors = 0,
      md_last_send_ns = 0, md_log = []\<rparr>"

text \<open>\<open>n\<close> is what \<open>sendto\<close> returns, \<open>now\<close> the clock after it.\<close>

definition send_current :: "int \<Rightarrow> u64 \<Rightarrow> market_data_feed \<Rightarrow> bytes list \<times> market_data_feed" where
  "send_current n now md =
     (let pkt = pb_data (md_pkt md);
          md = (if n \<noteq> int (length pkt) then md\<lparr>md_send_errors := md_send_errors md + 1\<rparr> else md)
      in ([pkt], md\<lparr>md_last_send_ns := now\<rparr>))"

definition md_flush :: "int \<Rightarrow> u64 \<Rightarrow> market_data_feed \<Rightarrow> bytes list \<times> market_data_feed" where
  "md_flush n now md =
     (if pb_count (md_pkt md) = 0 then ([], md)
      else let md = md\<lparr>md_pkt := pb_finish (md_pkt md), md_packets := md_packets md + 1\<rparr>;
               (out, md) = (if md_drop_every md > 0 \<and> md_packets md mod md_drop_every md = 0
                            then ([], md\<lparr>md_dropped := md_dropped md + 1\<rparr>)
                            else send_current n now md);
               md = md\<lparr>md_next_seq := md_next_seq md + ucast (pb_count (md_pkt md))\<rparr>;
               md = md\<lparr>md_pkt := pb_begin (md_next_seq md) (md_pkt md)\<rparr>
           in (out, md))"

definition publish_bytes :: "int \<Rightarrow> u64 \<Rightarrow> bytes \<Rightarrow> market_data_feed \<Rightarrow> bytes list \<times> market_data_feed" where
  "publish_bytes n now msg md =
     (let (ok, pkt) = pb_append msg (md_pkt md);
          (out, md) = (if ok then ([], md\<lparr>md_pkt := pkt\<rparr>)
                       else let (out, md) = md_flush n now md
                            in (out, md\<lparr>md_pkt := snd (pb_append msg (md_pkt md))\<rparr>))
      in (out, md\<lparr>md_messages := md_messages md + 1\<rparr>))"

text \<open>The local buffer is uninitialised in the source; only the bytes the encoder wrote are used.\<close>

definition publish :: "int \<Rightarrow> u64 \<Rightarrow> itch_message \<Rightarrow> market_data_feed \<Rightarrow> bytes list \<times> market_data_feed" where
  "publish n now m md =
     (case itch_encode m (replicate itch_kMaxMessageLen 0) itch_kMaxMessageLen of
        (buf, len) \<Rightarrow> if len > 0 then publish_bytes n now (take len buf) (md\<lparr>md_log := md_log md @ [m]\<rparr>)
          else ([], md))"

definition heartbeat_if_idle :: "int \<Rightarrow> u64 \<Rightarrow> u64 \<Rightarrow> market_data_feed \<Rightarrow> bytes list \<times> market_data_feed" where
  "heartbeat_if_idle n now now_mono md =
     (if pb_count (md_pkt md) \<noteq> 0 \<or> now_mono - md_last_send_ns md < kHeartbeatNs then ([], md)
      else let (out, md) = send_current n now (md\<lparr>md_pkt := pb_finish (md_pkt md)\<rparr>)
           in (out, md\<lparr>md_heartbeats := md_heartbeats md + 1\<rparr>))"

section \<open>Invariant\<close>

text \<open>\<open>sent\<close>: the messages of closed packets; \<open>cur\<close>: those of the packet being built.\<close>

definition md_holds :: "bytes list \<Rightarrow> bytes list \<Rightarrow> market_data_feed \<Rightarrow> bool" where
  "md_holds sent cur md \<longleftrightarrow>
     pb_holds (md_pkt md) (alpha_bytes kSessionLen kSessionName) (md_next_seq md) cur \<and>
     md_next_seq md = of_nat (Suc (length sent)) \<and> md_messages md = of_nat (length sent + length cur)"

abbreviation feed_session :: bytes where
  "feed_session \<equiv> alpha_bytes kSessionLen kSessionName"

lemma pb_holds_session: "pb_holds pb sess sq ms \<Longrightarrow> take 10 (pb_buf pb) = sess \<and> length (pb_buf pb) = kMaxPacketLen"
proof -
  assume h: "pb_holds pb sess sq ms"
  then have "take 10 (pb_data pb) = sess" "10 \<le> pb_len pb"
    by (auto simp: pb_holds_def kSessionLen_def kHeaderLen_def)
  then show ?thesis using h by (simp add: pb_data_def pb_holds_def)
qed

lemma pb_finish_holds: 
  assumes "pb_holds pb sess sq ms"
  shows "pb_holds (pb_finish pb) sess sq ms"
  using assms pb_finish_data [OF assms]
  by (auto simp: pb_holds_def pb_finish_def packet_bytes_def put_u16_def kHeaderLen_def kMaxPacketLen_def
      intro!: exI [of _ "u16_be (of_nat (length ms))"])

lemma pb_begin_next: "pb_holds pb sess sq ms \<Longrightarrow> pb_holds (pb_begin sq' pb) sess sq' []"
  using pb_begin_holds [of "pb_buf pb" pb sq'] pb_holds_session [of pb sess sq ms] by simp

lemma pb_append_empty:
  assumes "pb_holds pb sess sq []" "length m \<le> kMaxPacketLen - kHeaderLen - 2"
  shows "fst (pb_append m pb)"
  using assms by (auto simp: pb_append_def pb_holds_def kMaxPacketLen_def kHeaderLen_def Let_def)

lemma md_new: "length raw = kMaxPacketLen \<Longrightarrow> md_holds [] [] (MarketDataFeed raw d)"
  using pb_begin_next [OF PacketBuilder_holds] by (simp add: md_holds_def MarketDataFeed_def)

lemma send_current_simps:
  "send_current n now md = (out, md') \<Longrightarrow> out = [pb_data (md_pkt md)] \<and> md_pkt md' = md_pkt md \<and>
     md_next_seq md' = md_next_seq md \<and> md_messages md' = md_messages md \<and> md_drop_every md' = md_drop_every md"
  by (auto simp: send_current_def Let_def)

lemma md_flush_holds:
  assumes H: "md_holds sent cur md" and F: "md_flush n now md = (out, md')"
  shows "md_holds (sent @ cur) [] md' \<and> md_drop_every md' = md_drop_every md \<and>
    (cur = [] \<longrightarrow> out = []) \<and>
    (out = [packet_bytes feed_session (of_nat (Suc (length sent))) cur] \<or> out = [] \<and> (cur = [] \<or> 0 < md_drop_every md))"
proof (cases "pb_count (md_pkt md) = 0")
  case True
  have "cur = []" using pb_holds_count(2) H True by (fastforce simp: md_holds_def)
  then show ?thesis using H F True by (simp add: md_flush_def)
next
  case False
  let ?s = feed_session and ?p = "pb_finish (md_pkt md)"
  have P: "pb_holds ?p ?s (md_next_seq md) cur" "pb_data ?p = packet_bytes ?s (md_next_seq md) cur"
    using H pb_finish_holds pb_finish_data by (auto simp: md_holds_def)
  have c: "pb_count ?p = of_nat (length cur)" using P(1) by (simp add: pb_holds_def)
  have u: "ucast (of_nat (length cur) :: u16) = (of_nat (length cur) :: u64)"
    using pb_holds_count(1) [OF P(1)] by (simp add: unsigned_of_nat take_bit_nat_eq_self)
  have ne: "cur \<noteq> []" using False H by (auto simp: md_holds_def pb_holds_def)
  have B: "pb_holds (pb_begin sq ?p) ?s sq []" for sq using pb_begin_next [OF P(1)] .
  show ?thesis
    using F False H P(2) ne B unfolding md_flush_def md_holds_def
    by (auto simp: Let_def c u send_current_def split: if_splits)
qed

definition small :: "bytes \<Rightarrow> bool" where
  "small m \<longleftrightarrow> length m \<le> kMaxPacketLen - kHeaderLen - 2"

lemma publish_bytes_holds:
  assumes H: "md_holds sent cur md" and m: "small m" and F: "publish_bytes n now m md = (out, md')"
  shows "md_drop_every md' = md_drop_every md \<and>
    (md_holds sent (cur @ [m]) md' \<and> out = [] \<or>
     md_holds (sent @ cur) [m] md' \<and>
     (out = [packet_bytes feed_session (of_nat (Suc (length sent))) cur] \<or> out = [] \<and> (cur = [] \<or> 0 < md_drop_every md)))"
proof (cases "fst (pb_append m (md_pkt md))")
  case True
  then obtain pkt where "pb_append m (md_pkt md) = (True, pkt)" by (cases "pb_append m (md_pkt md)") auto
  moreover from this have "pb_holds pkt feed_session (md_next_seq md) (cur @ [m])"
    using H pb_append_holds by (auto simp: md_holds_def)
  ultimately show ?thesis using F H by (auto simp: publish_bytes_def md_holds_def)
next
  case False
  obtain out1 md1 where fl: "md_flush n now md = (out1, md1)" by (metis surj_pair)
  note L = md_flush_holds [OF H fl]
  then have "fst (pb_append m (md_pkt md1))" using m pb_append_empty by (auto simp: md_holds_def small_def)
  then obtain pkt where ap: "pb_append m (md_pkt md1) = (True, pkt)" by (cases "pb_append m (md_pkt md1)") auto
  then have "pb_holds pkt feed_session (md_next_seq md1) [m]"
    using L pb_append_holds [of "md_pkt md1" feed_session "md_next_seq md1" "[]" m pkt] by (auto simp: md_holds_def)
  then have "md_holds (sent @ cur) [m] (md1\<lparr>md_pkt := pkt, md_messages := md_messages md1 + 1\<rparr>)"
    using L by (simp add: md_holds_def)
  then show ?thesis using F False fl ap L by (cases "pb_append m (md_pkt md)") (auto simp: publish_bytes_def)
qed

lemma publish_encodes:
  assumes "itch_wf m"
  shows "publish n now m md = publish_bytes n now (itch_bytes m) (md\<lparr>md_log := md_log md @ [m]\<rparr>)"
proof -
  let ?b = "replicate itch_kMaxMessageLen (0 :: u8)"
  have e: "itch_encode m ?b itch_kMaxMessageLen = (blit ?b 0 (itch_bytes m), itch_len m)"
    using itch_encode_size [OF assms, of itch_kMaxMessageLen ?b] itch_len_bounds [of m]
      itch_encode_bytes [OF assms, of itch_kMaxMessageLen ?b]
    by (simp add: prod_eq_iff)
  then show ?thesis using itch_len_bounds(1) [of m] length_itch_bytes [OF assms]
    by (simp add: publish_def blit_def)
qed

lemma itch_small: "itch_wf m \<Longrightarrow> small (itch_bytes m)"
  using itch_len_bounds(2) [of m] by (simp add: small_def itch_kMaxMessageLen_def kMaxPacketLen_def kHeaderLen_def)

lemma heartbeat_holds:
  assumes H: "md_holds sent cur md" and F: "heartbeat_if_idle n now now_mono md = (out, md')"
  shows "md_holds sent cur md' \<and> md_drop_every md' = md_drop_every md \<and>
    (out = [] \<or> cur = [] \<and> out = [packet_bytes feed_session (of_nat (Suc (length sent))) []])"
proof (cases "pb_count (md_pkt md) \<noteq> 0 \<or> now_mono - md_last_send_ns md < kHeartbeatNs")
  case True
  then show ?thesis using H F by (auto simp: heartbeat_if_idle_def)
next
  case False
  then have "cur = []" using pb_holds_count(2) H by (fastforce simp: md_holds_def)
  moreover have "pb_holds (pb_finish (md_pkt md)) feed_session (md_next_seq md) cur"
    "pb_data (pb_finish (md_pkt md)) = packet_bytes feed_session (md_next_seq md) cur"
    using H pb_finish_holds pb_finish_data by (auto simp: md_holds_def)
  ultimately show ?thesis
    using F False H by (auto simp: heartbeat_if_idle_def Let_def send_current_def md_holds_def split: if_splits)
qed

section \<open>What goes over the wire\<close>

text \<open>Runs of the feed: the messages published so far, the datagrams handed to the kernel so far, and
  the state.\<close>

inductive feed_run :: "u64 \<Rightarrow> bytes list \<Rightarrow> bytes list \<Rightarrow> market_data_feed \<Rightarrow> bool" for d where
  opened: "length raw = kMaxPacketLen \<Longrightarrow> feed_run d [] [] (MarketDataFeed raw d)"
| published: "feed_run d P wire md \<Longrightarrow> itch_wf m \<Longrightarrow> publish n now m md = (out, md') \<Longrightarrow>
    feed_run d (P @ [itch_bytes m]) (wire @ out) md'"
| flushed: "feed_run d P wire md \<Longrightarrow> md_flush n now md = (out, md') \<Longrightarrow> feed_run d P (wire @ out) md'"
| beat: "feed_run d P wire md \<Longrightarrow> heartbeat_if_idle n now now_mono md = (out, md') \<Longrightarrow>
    feed_run d P (wire @ out) md'"

text \<open>The history is what was published.\<close>

lemma md_flush_log [simp]: "md_log (snd (md_flush n now md)) = md_log md"
  by (simp add: md_flush_def send_current_def Let_def)

lemma publish_bytes_log [simp]: "md_log (snd (publish_bytes n now msg md)) = md_log md"
  using md_flush_log [of n now md] by (cases "md_flush n now md") (auto simp: publish_bytes_def Let_def split: prod.split)

lemma heartbeat_log [simp]: "md_log (snd (heartbeat_if_idle n now now_mono md)) = md_log md"
  by (simp add: heartbeat_if_idle_def send_current_def Let_def)

lemma feed_run_log: "feed_run d P wire md \<Longrightarrow> P = map itch_bytes (md_log md) \<and> (\<forall>m\<in>set (md_log md). itch_wf m)"
proof (induction rule: feed_run.induct)
  case (opened raw)
  then show ?case by (simp add: MarketDataFeed_def)
next
  case (published P wire md m n now out md')
  then show ?case using publish_bytes_log [of n now "itch_bytes m" "md\<lparr>md_log := md_log md @ [m]\<rparr>"]
    by (simp add: publish_encodes)
next
  case (flushed P wire md n now out md')
  then show ?case using md_flush_log [of n now md] by simp
next
  case (beat P wire md n now now_mono out md')
  then show ?case using heartbeat_log [of n now now_mono md] by simp
qed

text \<open>What a receiver reads from a datagram, and the messages under their numbers.\<close>

definition datagram_msgs :: "bytes \<Rightarrow> (u64 \<times> bytes) list" where
  "datagram_msgs d = (case parse_header d of None \<Rightarrow> [] | Some h \<Rightarrow> fst (for_each_message d h))"

definition numbered_from :: "nat \<Rightarrow> bytes list \<Rightarrow> (u64 \<times> bytes) list" where
  "numbered_from k ms = map (\<lambda>i. (of_nat (Suc k + i), ms ! i)) [0..<length ms]"

definition carries :: "bytes list \<Rightarrow> bytes \<Rightarrow> bool" where
  "carries P d \<longleftrightarrow> (\<exists>k ms. k + length ms \<le> length P \<and> ms = take (length ms) (drop k P) \<and>
     datagram_msgs d = numbered_from k ms)"

lemma packet_read:
  assumes "pb_holds pb feed_session sq ms"
  shows "datagram_msgs (packet_bytes feed_session sq ms) = map (\<lambda>i. (sq + of_nat i, ms ! i)) [0..<length ms]"
proof -
  have "length feed_session = kSessionLen" "\<forall>m\<in>set ms. length m \<le> 0xFFFF" using assms by (auto simp: pb_holds_def)
  then show ?thesis using parse_packet [of feed_session ms sq] pb_holds_count(1) [OF assms] by (simp add: datagram_msgs_def)
qed

lemma packet_carries:
  assumes "md_holds sent cur md"
  shows "datagram_msgs (packet_bytes feed_session (of_nat (Suc (length sent))) cur) = numbered_from (length sent) cur"
    "carries (sent @ cur @ rest) (packet_bytes feed_session (of_nat (Suc (length sent))) cur)"
proof -
  show N: "datagram_msgs (packet_bytes feed_session (of_nat (Suc (length sent))) cur) = numbered_from (length sent) cur"
    using packet_read [of "md_pkt md" "of_nat (Suc (length sent))" cur] assms
    by (auto simp: md_holds_def numbered_from_def add.assoc)
  show "carries (sent @ cur @ rest) (packet_bytes feed_session (of_nat (Suc (length sent))) cur)"
    unfolding carries_def N by (intro exI [of _ "length sent"] exI [of _ cur]) simp
qed

lemma heartbeat_carries:
  "md_holds sent [] md \<Longrightarrow> datagram_msgs (packet_bytes feed_session (of_nat (Suc (length sent))) []) = []"
  by (subst packet_carries(1)) (simp_all add: numbered_from_def)

lemma carries_more: "carries P d \<Longrightarrow> carries (P @ Q) d"
  unfolding carries_def by (elim exE conjE, intro exI conjI) auto

lemma numbered_nil: "numbered_from k [] = []"
  by (simp add: numbered_from_def)

lemma numbered_append: "numbered_from k (xs @ ys) = numbered_from k xs @ numbered_from (k + length xs) ys"
proof -
  have "[0..<length xs + length ys] = [0..<length xs] @ map (\<lambda>i. i + length xs) [0..<length ys]"
    by (simp add: map_add_upt upt_add_eq_append [of 0, simplified] add.commute)
  then show ?thesis by (simp add: numbered_from_def nth_append ac_simps)
qed

lemma feed_run_wire:
  assumes "feed_run d P wire md"
  shows "\<exists>sent cur. P = sent @ cur \<and> md_holds sent cur md \<and> md_drop_every md = d \<and>
    (\<forall>x\<in>set wire. carries P x) \<and>
    (d = 0 \<longrightarrow> concat (map datagram_msgs wire) = numbered_from 0 sent)"
  using assms
proof (induction rule: feed_run.induct)
  case (opened raw)
  have "md_drop_every (MarketDataFeed raw d) = d" by (simp add: MarketDataFeed_def)
  with md_new [OF opened] show ?case by (intro exI [of _ "[]"]) (simp add: numbered_from_def)
next
  case (published P wire md m n now out md')
  then obtain sent cur where H: "P = sent @ cur" "md_holds sent cur md" "md_drop_every md = d"
    "\<forall>x\<in>set wire. carries P x" "d = 0 \<longrightarrow> concat (map datagram_msgs wire) = numbered_from 0 sent" by blast
  let ?md = "md\<lparr>md_log := md_log md @ [m]\<rparr>"
  have pb: "publish_bytes n now (itch_bytes m) ?md = (out, md')"
    using published.hyps(2,3) by (simp add: publish_encodes)
  have logged: "md_holds sent cur ?md" and drop: "md_drop_every ?md = md_drop_every md" using H(2) by (auto simp: md_holds_def)
  note L = publish_bytes_holds [OF logged itch_small [OF published.hyps(2)] pb, unfolded drop]
  note C = packet_carries [OF H(2)]
  have old: "\<forall>x\<in>set wire. carries (P @ [itch_bytes m]) x" using H(4) carries_more by blast
  from L show ?case
  proof (elim conjE disjE)
    assume "md_holds sent (cur @ [itch_bytes m]) md'" "out = []" "md_drop_every md' = md_drop_every md"
    then show ?thesis using H old by (intro exI [of _ sent] exI [of _ "cur @ [itch_bytes m]"]) simp
  next
    assume "md_holds (sent @ cur) [itch_bytes m] md'" "md_drop_every md' = md_drop_every md"
      "out = [packet_bytes feed_session (of_nat (Suc (length sent))) cur]"
    then show ?thesis using H old C(1) C(2) [of "[itch_bytes m]"]
      by (intro exI [of _ "sent @ cur"] exI [of _ "[itch_bytes m]"]) (simp add: numbered_append)
  next
    assume "md_holds (sent @ cur) [itch_bytes m] md'" "md_drop_every md' = md_drop_every md" "out = []" "cur = []"
    then show ?thesis using H old by (intro exI [of _ "sent @ cur"] exI [of _ "[itch_bytes m]"]) simp
  next
    assume "md_holds (sent @ cur) [itch_bytes m] md'" "md_drop_every md' = md_drop_every md" "out = []"
      "0 < md_drop_every md"
    then show ?thesis using H old by (intro exI [of _ "sent @ cur"] exI [of _ "[itch_bytes m]"]) auto
  qed
next
  case (flushed P wire md n now out md')
  then obtain sent cur where H: "P = sent @ cur" "md_holds sent cur md" "md_drop_every md = d"
    "\<forall>x\<in>set wire. carries P x" "d = 0 \<longrightarrow> concat (map datagram_msgs wire) = numbered_from 0 sent" by blast
  note L = md_flush_holds [OF H(2) flushed.hyps(2)] and C = packet_carries [OF H(2)]
  have "d = 0 \<longrightarrow> concat (map datagram_msgs (wire @ out)) = numbered_from 0 P"
    using L H(1,3,5) C(1) by (auto simp: numbered_append numbered_nil)
  moreover have "\<forall>x\<in>set (wire @ out). carries P x" using L H(1,4) C(2) [of "[]"] by auto
  ultimately show ?case using L H by (intro exI [of _ P] exI [of _ "[]"]) simp
next
  case (beat P wire md n now now_mono out md')
  then obtain sent cur where H: "P = sent @ cur" "md_holds sent cur md" "md_drop_every md = d"
    "\<forall>x\<in>set wire. carries P x" "d = 0 \<longrightarrow> concat (map datagram_msgs wire) = numbered_from 0 sent" by blast
  note L = heartbeat_holds [OF H(2) beat.hyps(2)] and C = packet_carries [OF H(2)]
  have "d = 0 \<longrightarrow> concat (map datagram_msgs (wire @ out)) = numbered_from 0 sent"
    using L H(2,5) heartbeat_carries by auto
  moreover have "\<forall>x\<in>set (wire @ out). carries P x" using L H(1,4) C(2) [of "[]"] by auto
  ultimately show ?case using L H by (intro exI [of _ sent] exI [of _ cur]) simp
qed

text \<open>After a flush, \<open>next_seq\<close> is the number the next published message will get.\<close>

lemma flush_next_seq:
  assumes "feed_run d P wire md" "md_flush n now md = (out, md')"
  shows "md_next_seq md' = of_nat (Suc (length P)) \<and> pb_count (md_pkt md') = 0"
proof -
  obtain sent cur where "P = sent @ cur" "md_holds sent cur md" using feed_run_wire [OF assms(1)] by blast
  then have "md_holds P [] md'" using md_flush_holds [of sent cur md n now out md'] assms(2) by simp
  then show ?thesis by (simp add: md_holds_def pb_holds_def)
qed

lemma feed_run_flushed:
  assumes "feed_run d P wire md" "md_flush n now md = (out, md')" "d = 0"
  shows "concat (map datagram_msgs (wire @ out)) = numbered_from 0 P"
proof -
  obtain sent cur where "P = sent @ cur" "md_holds sent cur md'"
    "concat (map datagram_msgs (wire @ out)) = numbered_from 0 sent"
    using feed_run_wire [OF feed_run.flushed [OF assms(1,2)]] assms(3) by blast
  moreover have "cur = []"
    using flush_next_seq [OF assms(1,2)] calculation(2) pb_holds_count by (fastforce simp: md_holds_def)
  ultimately show ?thesis by simp
qed

section \<open>Any delivery of the datagrams yields a prefix of the feed\<close>

text \<open>A receiver gets datagrams in any order, any number of times, or not at all, and runs their
  messages through a fresh tracker.\<close>

lemma numbered_lookup:
  assumes "carries P d" "(sq, m) \<in> set (datagram_msgs d)" "length P < 2 ^ 64"
  shows "0 < unat sq \<and> unat sq \<le> length P \<and> m = P ! (unat sq - 1)"
proof -
  obtain k ms where k: "k + length ms \<le> length P" "ms = take (length ms) (drop k P)" "datagram_msgs d = numbered_from k ms"
    using assms(1) by (auto simp: carries_def)
  obtain i where i: "i < length ms" "sq = of_nat (Suc k + i)" "m = ms ! i"
    using assms(2) k(3) by (auto simp: numbered_from_def)
  have "unat sq = Suc k + i" using unat_of_nat_id [of "Suc k + i", where 'a = 64] i k(1) assms(3) by simp
  moreover have "ms ! i = P ! (k + i)" using i(1) k(1,2) by (metis add_leD1 nth_drop nth_take)
  ultimately show ?thesis using i k(1) by simp
qed

lemma deliveries_prefix:
  assumes R: "feed_run d P wire md" and D: "set ds \<subseteq> set wire"
    and T: "track SequenceTracker (concat (map datagram_msgs ds)) = (ms, t)"
    and L: "length P < 2 ^ 64" "Suc (length (concat (map datagram_msgs ds))) < 2 ^ 64"
  shows "\<exists>n. ms = take n P \<and> n \<le> length P \<and> st_expected t = of_nat (Suc n)"
proof -
  let ?arr = "concat (map datagram_msgs ds)" and ?stream = "\<lambda>k. P ! (k - 1)"
  have C: "\<forall>x\<in>set ds. carries P x" using feed_run_wire [OF R] D by blast
  have in_P: "0 < unat sq \<and> unat sq \<le> length P \<and> m = P ! (unat sq - 1)" if "(sq, m) \<in> set ?arr" for sq m
    using that C numbered_lookup [OF _ _ L(1)] by auto
  have e1: "unat (st_expected SequenceTracker) = 1" by (simp add: SequenceTracker_def)
  have str: "\<forall>(sq, m)\<in>set ?arr. m = ?stream (unat sq)" using in_P by auto
  have O: "1 \<le> unat (st_expected t)" "ms = map ?stream [1..<unat (st_expected t)]"
    using track_in_order [OF T str] L(2) unfolding e1 by auto
  have hi: "unat (st_expected t) \<le> Suc (length P)"
  proof (rule track_bound [OF T])
    show "\<forall>(sq, m)\<in>set ?arr. unat sq < Suc (length P)" using in_P by (auto simp: less_Suc_eq_le)
  qed (use L(2) e1 in simp_all)
  let ?n = "unat (st_expected t) - 1"
  have "ms = take ?n P"
    using O hi by (intro nth_equalityI) auto
  moreover have "st_expected t = of_nat (Suc ?n)" using O(1) by (simp add: word_unat_eq_iff unat_of_nat_id)
  ultimately show ?thesis using hi by (intro exI [of _ ?n]) auto
qed

text \<open>The receiver decodes and applies what it gets: a prefix, and all of it when nothing is missing.\<close>

lemma deliveries_applied:
  assumes feed: "feed_run d (map itch_bytes msgs) wire md" "\<forall>m\<in>set msgs. itch_wf m"
    and net: "set ds \<subseteq> set wire" "track SequenceTracker (concat (map datagram_msgs ds)) = (bs, t)"
    and small: "length msgs < 2 ^ 64" "Suc (length (concat (map datagram_msgs ds))) < 2 ^ 64"
    and all: "apply_all loc msgs c = (True, c2)"
  shows "\<exists>n c'. map itch_decode bs = map Some (take n msgs) \<and> st_expected t = of_nat (Suc n) \<and>
    apply_all loc (take n msgs) c = (True, c') \<and> (length msgs \<le> n \<longrightarrow> c' = c2)"
proof -
  obtain n where n: "bs = take n (map itch_bytes msgs)" "st_expected t = of_nat (Suc n)"
    using deliveries_prefix [OF feed(1) net] small by auto
  have dec: "map itch_decode bs = map Some (take n msgs)"
    using feed(2) by (auto simp: n(1) take_map dest!: in_set_takeD intro: itch_decode_bytes)
  obtain c1 where c1: "apply_all loc (take n msgs) c = (True, c1)"
    using all apply_all_append [of loc "take n msgs" "drop n msgs" c]
    by (cases "apply_all loc (take n msgs) c") (auto split: bool.splits if_splits)
  have "c1 = c2" if "length msgs \<le> n" using that c1 all by simp
  with n(2) dec c1 show ?thesis by blast
qed

end
