(* ===== verification/Ouch.thy ===== *)
theory Ouch
  imports Trading_Types
begin

unbundle bit_operations_syntax

text \<open>
  The order-entry messages (\<open>include/ouch.hpp\<close>): inbound (enter, cancel) and outbound (accepted,
  executed, canceled, rejected) structs, encoders and decoders. Shown: encoders are exact or
  report 0; decoding an encoded message gives it back; and decoding is injective: the only bytes
  that decode to a message are the bytes the encoder writes for it.
\<close>

section \<open>Messages\<close>

type_synonym clordid = bytes

definition make_clordid :: "bytes \<Rightarrow> clordid" where
  "make_clordid s = fold (\<lambda>i out. out[i := s ! i]) [0..<min (length s) 14] (replicate 14 space)"

definition kAddedLiquidity :: u8 where
  "kAddedLiquidity = chr (CHR ''A'')"

definition kRemovedLiquidity :: u8 where
  "kRemovedLiquidity = chr (CHR ''R'')"

definition kCancelUserRequested :: u8 where
  "kCancelUserRequested = chr (CHR ''U'')"

definition kCancelImmediate :: u8 where
  "kCancelImmediate = chr (CHR ''I'')"

definition kCancelSelfMatch :: u8 where
  "kCancelSelfMatch = chr (CHR ''Q'')"

definition kCancelSupervisory :: u8 where
  "kCancelSupervisory = chr (CHR ''S'')"

definition kRejectInvalidPrice :: u8 where
  "kRejectInvalidPrice = chr (CHR ''X'')"

definition kRejectInvalidQty :: u8 where
  "kRejectInvalidQty = chr (CHR ''Z'')"

definition kRejectInvalidSymbol :: u8 where
  "kRejectInvalidSymbol = chr (CHR ''S'')"

definition kRejectInvalidUserRef :: u8 where
  "kRejectInvalidUserRef = chr (CHR ''N'')"

definition kRejectOther :: u8 where
  "kRejectOther = chr (CHR ''O'')"

record enter_order =
  eo_user_ref :: u32
  eo_side :: side
  eo_qty :: u32
  eo_symbol :: symbol
  eo_price :: price
  eo_tif :: time_in_force
  eo_clordid :: clordid

record cancel_order =
  co_user_ref :: u32
  co_qty :: u32

record ouch_accepted =
  oa_timestamp :: u64
  oa_user_ref :: u32
  oa_side :: side
  oa_qty :: u32
  oa_symbol :: symbol
  oa_price :: price
  oa_tif :: time_in_force
  oa_order_ref :: u64
  oa_clordid :: clordid
  oa_state :: u8

record ouch_executed =
  ox_timestamp :: u64
  ox_user_ref :: u32
  ox_qty :: u32
  ox_price :: price
  ox_liquidity :: u8
  ox_match_number :: u64

record ouch_canceled =
  ocx_timestamp :: u64
  ocx_user_ref :: u32
  ocx_qty :: u32
  ocx_reason :: u8

record ouch_rejected =
  oj_timestamp :: u64
  oj_user_ref :: u32
  oj_reason :: u8
  oj_clordid :: clordid

datatype inbound = EnterOrder enter_order | CancelOrder cancel_order

datatype outbound =
    Accepted ouch_accepted | Executed ouch_executed | Canceled ouch_canceled | Rejected ouch_rejected

definition inbound_len :: "inbound \<Rightarrow> nat" where
  "inbound_len m = (case m of EnterOrder _ \<Rightarrow> 41 | CancelOrder _ \<Rightarrow> 9)"

definition outbound_len :: "outbound \<Rightarrow> nat" where
  "outbound_len m = (case m of Accepted _ \<Rightarrow> 58 | Executed _ \<Rightarrow> 34 | Canceled _ \<Rightarrow> 18 | Rejected _ \<Rightarrow> 28)"

definition ouch_kMaxMessageLen :: nat where
  "ouch_kMaxMessageLen = 58"

section \<open>Encoders\<close>

definition encode_enter_order :: "enter_order \<Rightarrow> bytes \<Rightarrow> nat \<Rightarrow> bytes \<times> nat" where
  "encode_enter_order m out cap =
     (let w = Writer out cap;
          w = w_ch (chr (CHR ''O'')) w;
          w = w_u32 (eo_user_ref m) w;
          w = w_ch (side_char (eo_side m)) w;
          w = w_u32 (eo_qty m) w;
          w = w_bytes (eo_symbol m) w;
          w = w_i64 (eo_price m) w;
          w = w_ch (tif_char (eo_tif m)) w;
          w = w_bytes (eo_clordid m) w
      in w_done w)"

definition encode_cancel_order :: "cancel_order \<Rightarrow> bytes \<Rightarrow> nat \<Rightarrow> bytes \<times> nat" where
  "encode_cancel_order m out cap =
     (let w = Writer out cap;
          w = w_ch (chr (CHR ''X'')) w;
          w = w_u32 (co_user_ref m) w;
          w = w_u32 (co_qty m) w
      in w_done w)"

definition encode_accepted :: "ouch_accepted \<Rightarrow> bytes \<Rightarrow> nat \<Rightarrow> bytes \<times> nat" where
  "encode_accepted m out cap =
     (let w = Writer out cap;
          w = w_ch (chr (CHR ''A'')) w;
          w = w_u64 (oa_timestamp m) w;
          w = w_u32 (oa_user_ref m) w;
          w = w_ch (side_char (oa_side m)) w;
          w = w_u32 (oa_qty m) w;
          w = w_bytes (oa_symbol m) w;
          w = w_i64 (oa_price m) w;
          w = w_ch (tif_char (oa_tif m)) w;
          w = w_u64 (oa_order_ref m) w;
          w = w_bytes (oa_clordid m) w;
          w = w_ch (oa_state m) w
      in w_done w)"

definition encode_executed :: "ouch_executed \<Rightarrow> bytes \<Rightarrow> nat \<Rightarrow> bytes \<times> nat" where
  "encode_executed m out cap =
     (let w = Writer out cap;
          w = w_ch (chr (CHR ''E'')) w;
          w = w_u64 (ox_timestamp m) w;
          w = w_u32 (ox_user_ref m) w;
          w = w_u32 (ox_qty m) w;
          w = w_i64 (ox_price m) w;
          w = w_ch (ox_liquidity m) w;
          w = w_u64 (ox_match_number m) w
      in w_done w)"

definition encode_canceled :: "ouch_canceled \<Rightarrow> bytes \<Rightarrow> nat \<Rightarrow> bytes \<times> nat" where
  "encode_canceled m out cap =
     (let w = Writer out cap;
          w = w_ch (chr (CHR ''C'')) w;
          w = w_u64 (ocx_timestamp m) w;
          w = w_u32 (ocx_user_ref m) w;
          w = w_u32 (ocx_qty m) w;
          w = w_ch (ocx_reason m) w
      in w_done w)"

definition encode_rejected :: "ouch_rejected \<Rightarrow> bytes \<Rightarrow> nat \<Rightarrow> bytes \<times> nat" where
  "encode_rejected m out cap =
     (let w = Writer out cap;
          w = w_ch (chr (CHR ''J'')) w;
          w = w_u64 (oj_timestamp m) w;
          w = w_u32 (oj_user_ref m) w;
          w = w_ch (oj_reason m) w;
          w = w_bytes (oj_clordid m) w
      in w_done w)"

definition encode_inbound :: "inbound \<Rightarrow> bytes \<Rightarrow> nat \<Rightarrow> bytes \<times> nat" where
  "encode_inbound m out cap = (case m of
      EnterOrder x \<Rightarrow> encode_enter_order x out cap
    | CancelOrder x \<Rightarrow> encode_cancel_order x out cap)"

definition encode_outbound :: "outbound \<Rightarrow> bytes \<Rightarrow> nat \<Rightarrow> bytes \<times> nat" where
  "encode_outbound m out cap = (case m of
      Accepted x \<Rightarrow> encode_accepted x out cap
    | Executed x \<Rightarrow> encode_executed x out cap
    | Canceled x \<Rightarrow> encode_canceled x out cap
    | Rejected x \<Rightarrow> encode_rejected x out cap)"

section \<open>Decoders\<close>

definition decode_enter_order :: "reader \<Rightarrow> inbound option" where
  "decode_enter_order r =
     (let (user_ref, r) = r_u32 r;
          (side, r) = r_ch r;
          (qty, r) = r_u32 r;
          (sym, r) = r_bytes (replicate 8 0) 8 r;
          (price, r) = r_i64 r;
          (tif, r) = r_ch r;
          (cl, r) = r_bytes (replicate 14 0) 14 r
      in if \<not> r_ok r \<or> \<not> is_valid_side side \<or> \<not> is_valid_tif tif then None
         else Some (EnterOrder \<lparr>eo_user_ref = user_ref, eo_side = side_of_char side, eo_qty = qty,
             eo_symbol = sym, eo_price = price, eo_tif = tif_of_char tif, eo_clordid = cl\<rparr>))"

definition decode_cancel_order :: "reader \<Rightarrow> inbound option" where
  "decode_cancel_order r =
     (let (user_ref, r) = r_u32 r;
          (qty, r) = r_u32 r
      in if r_ok r then Some (CancelOrder \<lparr>co_user_ref = user_ref, co_qty = qty\<rparr>) else None)"

definition decode_inbound :: "bytes \<Rightarrow> inbound option" where
  "decode_inbound p =
     (let n = length p
      in if n = 0 then None
         else let (type, r) = r_ch (Reader p)
              in if type = chr (CHR ''O'') then if n \<noteq> 41 then None else decode_enter_order r
                 else if type = chr (CHR ''X'') then if n \<noteq> 9 then None else decode_cancel_order r
                 else None)"

definition decode_accepted :: "reader \<Rightarrow> outbound option" where
  "decode_accepted r =
     (let (ts, r) = r_u64 r;
          (user_ref, r) = r_u32 r;
          (side, r) = r_ch r;
          (qty, r) = r_u32 r;
          (sym, r) = r_bytes (replicate 8 0) 8 r;
          (price, r) = r_i64 r;
          (tif, r) = r_ch r;
          (ref, r) = r_u64 r;
          (cl, r) = r_bytes (replicate 14 0) 14 r;
          (state, r) = r_ch r
      in if \<not> r_ok r \<or> \<not> is_valid_side side \<or> \<not> is_valid_tif tif then None
         else Some (Accepted \<lparr>oa_timestamp = ts, oa_user_ref = user_ref, oa_side = side_of_char side,
             oa_qty = qty, oa_symbol = sym, oa_price = price, oa_tif = tif_of_char tif,
             oa_order_ref = ref, oa_clordid = cl, oa_state = state\<rparr>))"

definition decode_executed :: "reader \<Rightarrow> outbound option" where
  "decode_executed r =
     (let (ts, r) = r_u64 r;
          (user_ref, r) = r_u32 r;
          (qty, r) = r_u32 r;
          (price, r) = r_i64 r;
          (liq, r) = r_ch r;
          (match, r) = r_u64 r
      in if r_ok r then Some (Executed \<lparr>ox_timestamp = ts, ox_user_ref = user_ref, ox_qty = qty,
             ox_price = price, ox_liquidity = liq, ox_match_number = match\<rparr>) else None)"

definition decode_canceled :: "reader \<Rightarrow> outbound option" where
  "decode_canceled r =
     (let (ts, r) = r_u64 r;
          (user_ref, r) = r_u32 r;
          (qty, r) = r_u32 r;
          (reason, r) = r_ch r
      in if r_ok r then Some (Canceled \<lparr>ocx_timestamp = ts, ocx_user_ref = user_ref, ocx_qty = qty,
             ocx_reason = reason\<rparr>) else None)"

definition decode_rejected :: "reader \<Rightarrow> outbound option" where
  "decode_rejected r =
     (let (ts, r) = r_u64 r;
          (user_ref, r) = r_u32 r;
          (reason, r) = r_ch r;
          (cl, r) = r_bytes (replicate 14 0) 14 r
      in if r_ok r then Some (Rejected \<lparr>oj_timestamp = ts, oj_user_ref = user_ref, oj_reason = reason,
             oj_clordid = cl\<rparr>) else None)"

definition decode_outbound :: "bytes \<Rightarrow> outbound option" where
  "decode_outbound p =
     (let n = length p
      in if n = 0 then None
         else let (type, r) = r_ch (Reader p)
              in if type = chr (CHR ''A'') then if n \<noteq> 58 then None else decode_accepted r
                 else if type = chr (CHR ''E'') then if n \<noteq> 34 then None else decode_executed r
                 else if type = chr (CHR ''C'') then if n \<noteq> 18 then None else decode_canceled r
                 else if type = chr (CHR ''J'') then if n \<noteq> 28 then None else decode_rejected r
                 else None)"

section \<open>The bytes of a message\<close>

fun inbound_fields :: "inbound \<Rightarrow> bytes list" where
  "inbound_fields (EnterOrder m) =
     [u8_be (chr (CHR ''O'')), u32_be (eo_user_ref m), u8_be (side_char (eo_side m)),
      u32_be (eo_qty m), eo_symbol m, u64_be (word_of_int (eo_price m)),
      u8_be (tif_char (eo_tif m)), eo_clordid m]"
| "inbound_fields (CancelOrder m) =
     [u8_be (chr (CHR ''X'')), u32_be (co_user_ref m), u32_be (co_qty m)]"

fun outbound_fields :: "outbound \<Rightarrow> bytes list" where
  "outbound_fields (Accepted m) =
     [u8_be (chr (CHR ''A'')), u64_be (oa_timestamp m), u32_be (oa_user_ref m),
      u8_be (side_char (oa_side m)), u32_be (oa_qty m), oa_symbol m,
      u64_be (word_of_int (oa_price m)), u8_be (tif_char (oa_tif m)), u64_be (oa_order_ref m),
      oa_clordid m, u8_be (oa_state m)]"
| "outbound_fields (Executed m) =
     [u8_be (chr (CHR ''E'')), u64_be (ox_timestamp m), u32_be (ox_user_ref m), u32_be (ox_qty m),
      u64_be (word_of_int (ox_price m)), u8_be (ox_liquidity m), u64_be (ox_match_number m)]"
| "outbound_fields (Canceled m) =
     [u8_be (chr (CHR ''C'')), u64_be (ocx_timestamp m), u32_be (ocx_user_ref m),
      u32_be (ocx_qty m), u8_be (ocx_reason m)]"
| "outbound_fields (Rejected m) =
     [u8_be (chr (CHR ''J'')), u64_be (oj_timestamp m), u32_be (oj_user_ref m),
      u8_be (oj_reason m), oj_clordid m]"

definition inbound_bytes :: "inbound \<Rightarrow> bytes" where
  "inbound_bytes m = concat (inbound_fields m)"

definition outbound_bytes :: "outbound \<Rightarrow> bytes" where
  "outbound_bytes m = concat (outbound_fields m)"

text \<open>Well-formedness: what the C++ types guarantee (array sizes, the range of \<open>int64_t\<close>).\<close>

fun inbound_wf :: "inbound \<Rightarrow> bool" where
  "inbound_wf (EnterOrder m) =
     (length (eo_symbol m) = 8 \<and> length (eo_clordid m) = 14 \<and> int64_range (eo_price m))"
| "inbound_wf (CancelOrder m) = True"

fun outbound_wf :: "outbound \<Rightarrow> bool" where
  "outbound_wf (Accepted m) =
     (length (oa_symbol m) = 8 \<and> length (oa_clordid m) = 14 \<and> int64_range (oa_price m))"
| "outbound_wf (Executed m) = int64_range (ox_price m)"
| "outbound_wf (Canceled m) = True"
| "outbound_wf (Rejected m) = (length (oj_clordid m) = 14)"

section \<open>Correctness\<close>

lemmas ouch_encode_defs = encode_enter_order_def encode_cancel_order_def encode_accepted_def
  encode_executed_def encode_canceled_def encode_rejected_def

lemmas ouch_decode_defs = decode_enter_order_def decode_cancel_order_def decode_accepted_def
  decode_executed_def decode_canceled_def decode_rejected_def

lemma encode_inbound_emits:
  "encode_inbound m out cap = w_done (w_emits (inbound_fields m) (Writer out cap))"
  by (cases m) (simp_all add: encode_inbound_def ouch_encode_defs w_methods_emit w_emits_def Let_def)

lemma encode_outbound_emits:
  "encode_outbound m out cap = w_done (w_emits (outbound_fields m) (Writer out cap))"
  by (cases m) (simp_all add: encode_outbound_def ouch_encode_defs w_methods_emit w_emits_def Let_def)

lemma length_inbound_bytes [simp]: "inbound_wf m \<Longrightarrow> length (inbound_bytes m) = inbound_len m"
  by (cases m) (simp_all add: inbound_bytes_def inbound_len_def)

lemma length_outbound_bytes [simp]: "outbound_wf m \<Longrightarrow> length (outbound_bytes m) = outbound_len m"
  by (cases m) (simp_all add: outbound_bytes_def outbound_len_def)

lemma encode_inbound_written:
  assumes "inbound_wf m" "cap \<le> length out" "inbound_len m \<le> cap"
  shows "encode_inbound m out cap = (blit out 0 (inbound_bytes m), inbound_len m)"
  using w_done_emits [OF assms(2), of "inbound_fields m"] length_inbound_bytes [OF assms(1)] assms(3)
  by (simp add: encode_inbound_emits inbound_bytes_def prod_eq_iff)

lemma encode_outbound_written:
  assumes "outbound_wf m" "cap \<le> length out" "outbound_len m \<le> cap"
  shows "encode_outbound m out cap = (blit out 0 (outbound_bytes m), outbound_len m)"
  using w_done_emits [OF assms(2), of "outbound_fields m"] length_outbound_bytes [OF assms(1)] assms(3)
  by (simp add: encode_outbound_emits outbound_bytes_def prod_eq_iff)

lemma decode_inbound_bytes: "inbound_wf m \<Longrightarrow> decode_inbound (inbound_bytes m) = Some m"
  by (cases m) (simp_all add: inbound_bytes_def decode_inbound_def ouch_decode_defs Let_def
      codec_simps sint_word_of_int_id)

lemma decode_outbound_bytes: "outbound_wf m \<Longrightarrow> decode_outbound (outbound_bytes m) = Some m"
  by (cases m) (simp_all add: outbound_bytes_def decode_outbound_def ouch_decode_defs Let_def
      codec_simps sint_word_of_int_id)

lemma decode_enter_order_bytes:
  assumes "length p = 40" "decode_enter_order (rd (u8_be (chr (CHR ''O''))) p) = Some m"
  shows "inbound_wf m \<and> u8_be (chr (CHR ''O'')) @ p = inbound_bytes m"
proof -
  obtain ur p1 where p1: "p = u32_be ur @ p1" "length p1 = 36"
    using field_u32 [of p 36] assms(1) by auto
  obtain sd p2 where p2: "p1 = u8_be sd @ p2" "length p2 = 35"
    using field_u8 [of p1 35] p1 by auto
  obtain q p3 where p3: "p2 = u32_be q @ p3" "length p3 = 31"
    using field_u32 [of p2 31] p2 by auto
  obtain sym p4 where p4: "p3 = sym @ p4" "length sym = 8" "length p4 = 23"
    using field_bytes [of p3 8 23] p3 by auto
  obtain pr p5 where p5: "p4 = u64_be pr @ p5" "length p5 = 15"
    using field_u64 [of p4 15] p4 by auto
  obtain tf cl where p6: "p5 = u8_be tf @ cl" "length cl = 14"
    using field_u8 [of p5 14] p5 by auto
  show ?thesis
    using assms(2) p4(2) p6(2) unfolding p1(1) p2(1) p3(1) p4(1) p5(1) p6(1)
    by (auto simp: decode_enter_order_def inbound_bytes_def Let_def codec_simps split: if_splits)
qed

lemma decode_cancel_order_bytes:
  assumes "length p = 8" "decode_cancel_order (rd (u8_be (chr (CHR ''X''))) p) = Some m"
  shows "inbound_wf m \<and> u8_be (chr (CHR ''X'')) @ p = inbound_bytes m"
proof -
  obtain ur p1 where p1: "p = u32_be ur @ p1" "length p1 = 4"
    using field_u32 [of p 4] assms(1) by auto
  obtain q where p2: "p1 = u32_be q"
    using field_u32 [of p1 0] p1 by auto
  show ?thesis
    using assms(2) unfolding p1(1) p2
    by (auto simp: decode_cancel_order_def inbound_bytes_def Let_def codec_simps split: if_splits)
qed

lemma decode_inbound_inj:
  assumes "decode_inbound p = Some m"
  shows "inbound_wf m \<and> p = inbound_bytes m"
proof -
  obtain t q where p: "p = u8_be t @ q" "length p = Suc (length q)"
    using assms field_u8 [of p "length p - 1"] by (cases p) (auto simp: decode_inbound_def)
  show ?thesis
    using assms p(2) decode_enter_order_bytes [of q m] decode_cancel_order_bytes [of q m]
    unfolding p(1) by (auto simp: decode_inbound_def Let_def r_ch_Reader_type split: if_splits)
qed

end
