(* ===== verification/Soupbin.thy ===== *)
theory Soupbin
  imports Trading_Types
begin

unbundle bit_operations_syntax

text \<open>
  SoupBinTCP framing (\<open>include/soupbin.hpp\<close>): frame writing, numeric and login fields, and the
  \<open>FrameReader\<close> that reassembles frames from an arbitrary chunking of a byte stream in a fixed
  64 KiB buffer. Shown: login round trips, the reader's buffer invariant, that extracting frames
  terminates, that the reader always has room for a maximum-size frame after draining, and that
  any chunking of a stream of frames yields exactly those frames in order.
\<close>

section \<open>Frames\<close>

definition kLoginRequest :: u8 where
  "kLoginRequest = chr (CHR ''L'')"

definition kLoginAccepted :: u8 where
  "kLoginAccepted = chr (CHR ''A'')"

definition kLoginRejected :: u8 where
  "kLoginRejected = chr (CHR ''J'')"

definition kSequencedData :: u8 where
  "kSequencedData = chr (CHR ''S'')"

definition kUnsequencedData :: u8 where
  "kUnsequencedData = chr (CHR ''U'')"

definition kServerHeartbeat :: u8 where
  "kServerHeartbeat = chr (CHR ''H'')"

definition kClientHeartbeat :: u8 where
  "kClientHeartbeat = chr (CHR ''R'')"

definition kEndOfSession :: u8 where
  "kEndOfSession = chr (CHR ''Z'')"

definition kLogoutRequest :: u8 where
  "kLogoutRequest = chr (CHR ''O'')"

definition kMaxFrame :: nat where
  "kMaxFrame = 1024"

definition kFrameHeaderLen :: nat where
  "kFrameHeaderLen = 3"

definition kLoginRequestLen :: nat where
  "kLoginRequestLen = 46"

definition kLoginAcceptedLen :: nat where
  "kLoginAcceptedLen = 30"

text \<open>Writes one frame at offset \<open>off\<close> of \<open>out\<close> (the pointer argument), with room for \<open>cap\<close> bytes.\<close>

definition write_frame :: "bytes \<Rightarrow> nat \<Rightarrow> nat \<Rightarrow> u8 \<Rightarrow> bytes \<Rightarrow> bytes \<times> nat" where
  "write_frame out off cap type payload =
     (let n = length payload
      in if n + 1 > kMaxFrame \<or> cap < n + kFrameHeaderLen then (out, 0)
         else let out = put_u16 out off (of_nat (n + 1));
                  out = put_u8 out (off + 2) type;
                  out = (if n > 0 then blit out (off + 3) payload else out)
              in (out, n + kFrameHeaderLen))"

text \<open>\<open>out.resize\<close> fills with zero bytes; the result of \<open>write_frame\<close> is discarded.\<close>

definition append_frame :: "bytes \<Rightarrow> u8 \<Rightarrow> bytes \<Rightarrow> bytes" where
  "append_frame out type payload =
     (let old = length out; n = length payload;
          out = out @ replicate (n + kFrameHeaderLen) 0
      in fst (write_frame out old (n + kFrameHeaderLen) type payload))"

section \<open>Numeric and login fields\<close>

definition put_numeric20 :: "bytes \<Rightarrow> nat \<Rightarrow> u64 \<Rightarrow> bytes" where
  "put_numeric20 buf p v = blit buf p (numeric20 v)"

text \<open>\<open>None\<close> is the return value false; a blank field is 0.\<close>

definition get_numeric20 :: "bytes \<Rightarrow> nat \<Rightarrow> u64 option" where
  "get_numeric20 b p =
     (let s = dropWhile (\<lambda>c. c = space) (bslice b p 20)
      in if s = [] then Some 0
         else case from_chars (2 ^ 64) s of
                FcOk v k \<Rightarrow> if k = length s then Some (of_nat v) else None
              | _ \<Rightarrow> None)"

record login_request =
  lr_username :: bytes
  lr_password :: bytes
  lr_requested_session :: bytes
  lr_requested_sequence :: u64

definition encode_login_request :: "login_request \<Rightarrow> bytes \<Rightarrow> nat \<Rightarrow> bytes \<times> nat" where
  "encode_login_request m out cap =
     (if cap < kLoginRequestLen then (out, 0)
      else let out = put_alpha out 0 6 (lr_username m);
               out = put_alpha out 6 10 (lr_password m);
               out = put_alpha out 16 10 (lr_requested_session m);
               out = put_numeric20 out 26 (lr_requested_sequence m)
           in (out, kLoginRequestLen))"

definition decode_login_request :: "bytes \<Rightarrow> login_request option" where
  "decode_login_request p =
     (if length p \<noteq> kLoginRequestLen then None
      else case get_numeric20 p 26 of
             None \<Rightarrow> None
           | Some sq \<Rightarrow> Some \<lparr>lr_username = get_alpha p 0 6, lr_password = get_alpha p 6 10,
               lr_requested_session = get_alpha p 16 10, lr_requested_sequence = sq\<rparr>)"

record login_accepted =
  la_session :: bytes
  la_sequence :: u64

definition encode_login_accepted :: "login_accepted \<Rightarrow> bytes \<Rightarrow> nat \<Rightarrow> bytes \<times> nat" where
  "encode_login_accepted m out cap =
     (if cap < kLoginAcceptedLen then (out, 0)
      else let out = put_alpha out 0 10 (la_session m);
               out = put_numeric20 out 10 (la_sequence m)
           in (out, kLoginAcceptedLen))"

definition decode_login_accepted :: "bytes \<Rightarrow> login_accepted option" where
  "decode_login_accepted p =
     (if length p \<noteq> kLoginAcceptedLen then None
      else case get_numeric20 p 10 of
             None \<Rightarrow> None
           | Some sq \<Rightarrow> Some \<lparr>la_session = get_alpha p 0 10, la_sequence = sq\<rparr>)"

section \<open>FrameReader\<close>

definition kBufSize :: nat where
  "kBufSize = 64 * 1024"

record frame_reader =
  fr_buf :: bytes
  fr_rd :: nat
  fr_wr :: nat

definition FrameReader :: frame_reader where
  "FrameReader = \<lparr>fr_buf = replicate kBufSize 0, fr_rd = 0, fr_wr = 0\<rparr>"

text \<open>\<open>write_ptr()\<close>: compacts when needed; the returned pointer is offset \<open>fr_wr\<close> of the result.\<close>

definition fr_write_ptr :: "frame_reader \<Rightarrow> frame_reader" where
  "fr_write_ptr r =
     (if kBufSize - fr_wr r < kMaxFrame + kFrameHeaderLen \<and> fr_rd r > 0
      then r\<lparr>fr_buf := blit (fr_buf r) 0 (bslice (fr_buf r) (fr_rd r) (fr_wr r - fr_rd r)),
             fr_wr := fr_wr r - fr_rd r, fr_rd := 0\<rparr>
      else r)"

definition fr_write_space :: "frame_reader \<Rightarrow> nat" where
  "fr_write_space r = kBufSize - fr_wr r"

definition fr_commit :: "nat \<Rightarrow> frame_reader \<Rightarrow> frame_reader" where
  "fr_commit n r = r\<lparr>fr_wr := fr_wr r + n\<rparr>"

datatype status = Frame u8 bytes | NeedMore | Error

definition fr_next :: "frame_reader \<Rightarrow> status \<times> frame_reader" where
  "fr_next r =
     (let avail = fr_wr r - fr_rd r
      in if avail < 2 then (NeedMore, r)
         else let flen = unat (get_u16 (fr_buf r) (fr_rd r))
              in if flen = 0 \<or> flen > kMaxFrame then (Error, r)
                 else if avail < 2 + flen then (NeedMore, r)
                 else let type = fr_buf r ! (fr_rd r + 2);
                          payload = bslice (fr_buf r) (fr_rd r + 3) (flen - 1);
                          r = r\<lparr>fr_rd := fr_rd r + (2 + flen)\<rparr>;
                          r = (if fr_rd r = fr_wr r then r\<lparr>fr_rd := 0, fr_wr := 0\<rparr> else r)
                      in (Frame type payload, r))"

definition fr_buffered :: "frame_reader \<Rightarrow> nat" where
  "fr_buffered r = fr_wr r - fr_rd r"

text \<open>One \<open>recv\<close> of the chunk \<open>c\<close> into the reader: \<open>write_ptr\<close>, the kernel's store, \<open>commit\<close>.\<close>

definition fr_recv :: "bytes \<Rightarrow> frame_reader \<Rightarrow> frame_reader" where
  "fr_recv c r =
     (let r = fr_write_ptr r
      in fr_commit (length c) (r\<lparr>fr_buf := blit (fr_buf r) (fr_wr r) c\<rparr>))"

lemma fr_next_measure:
  "fr_next r = (Frame t p, r') \<Longrightarrow> fr_buffered r' < fr_buffered r"
  by (auto simp: fr_next_def fr_buffered_def Let_def split: if_splits)

text \<open>The loop \<open>while ((st = r.next(...)) == Status::Frame) handle(...)\<close> of the readers' clients: the
  frames handed out and the final status.\<close>

function fr_drain :: "frame_reader \<Rightarrow> (u8 \<times> bytes) list \<times> status \<times> frame_reader" where
  "fr_drain r = (case fr_next r of
      (Frame t p, r') \<Rightarrow> (let (fs, st, r'') = fr_drain r' in ((t, p) # fs, st, r''))
    | (st, r') \<Rightarrow> ([], st, r'))"
  by pat_completeness auto
termination
  by (relation "measure fr_buffered") (auto dest: fr_next_measure sym)

declare fr_drain.simps [simp del]

text \<open>The receive loop over a sequence of chunks. \<open>None\<close>: the connection is dropped (a framing error,
  or a chunk larger than the room that was offered to the kernel).\<close>

fun fr_feed :: "bytes list \<Rightarrow> frame_reader \<Rightarrow> ((u8 \<times> bytes) list \<times> frame_reader) option" where
  "fr_feed [] r = Some ([], r)"
| "fr_feed (c # cs) r =
     (if length c > fr_write_space (fr_write_ptr r) then None
      else case fr_drain (fr_recv c r) of
             (fs, NeedMore, r') \<Rightarrow>
               (case fr_feed cs r' of None \<Rightarrow> None | Some (gs, r'') \<Rightarrow> Some (fs @ gs, r''))
           | _ \<Rightarrow> None)"

section \<open>Writing frames\<close>

definition frame_bytes :: "u8 \<Rightarrow> bytes \<Rightarrow> bytes" where
  "frame_bytes t p = u16_be (of_nat (length p + 1)) @ u8_be t @ p"

definition frame_ok :: "bytes \<Rightarrow> bool" where
  "frame_ok p \<longleftrightarrow> length p + 1 \<le> kMaxFrame"

lemma length_frame_bytes [simp]: "length (frame_bytes t p) = length p + 3"
  by (simp add: frame_bytes_def)

lemma write_frame_bytes:
  assumes "frame_ok p" "length p + 3 \<le> cap" "off + cap \<le> length out"
  shows "write_frame out off cap t p = (blit out off (frame_bytes t p), length p + 3)"
proof -
  have 1: "put_u8 (put_u16 out off (of_nat (length p + 1))) (off + 2) t =
      blit out off (u16_be (of_nat (length p + 1)) @ u8_be t)"
    using assms blit_blit_adjacent [of off "u16_be (of_nat (length p + 1))" "u8_be t" out]
    by (simp add: put_u8_def put_u16_def)
  have 2: "blit (blit out off (u16_be (of_nat (length p + 1)) @ u8_be t)) (off + 3) p =
      blit out off (frame_bytes t p)"
    using assms blit_blit_adjacent [of off "u16_be (of_nat (length p + 1)) @ u8_be t" p out]
    by (simp add: frame_bytes_def)
  have "write_frame out off cap t p =
     ((if length p > 0 then blit (blit out off (u16_be (of_nat (length p + 1)) @ u8_be t)) (off + 3) p
       else blit out off (u16_be (of_nat (length p + 1)) @ u8_be t)), length p + 3)"
    using assms unfolding write_frame_def Let_def 1 [symmetric]
    by (simp add: frame_ok_def kFrameHeaderLen_def)
  then show ?thesis
    using 2 by (cases "p = []") (simp_all add: frame_bytes_def)
qed

lemma append_frame_bytes: "frame_ok p \<Longrightarrow> append_frame out t p = out @ frame_bytes t p"
  using write_frame_bytes [of p "length p + 3" "length out" "out @ replicate (length p + 3) 0" t]
  by (simp add: append_frame_def Let_def kFrameHeaderLen_def blit_def)

lemma append_frame_oversize:
  "\<not> frame_ok p \<Longrightarrow> append_frame out t p = out @ replicate (length p + 3) 0"
  by (simp add: append_frame_def Let_def kFrameHeaderLen_def write_frame_def frame_ok_def)

section \<open>Login round trips\<close>

lemma get_numeric20_at: "get_numeric20 (pre @ numeric20 v @ post) (length pre) = Some v"
proof -
  have "unat v < 2 ^ 64" using unsigned_less [of v] by simp
  then show ?thesis
    by (simp add: get_numeric20_def Let_def bslice_def dropWhile_numeric20 from_chars_dec_digits_nil)
qed

definition alpha_ok :: "nat \<Rightarrow> bytes \<Rightarrow> bool" where
  "alpha_ok width s \<longleftrightarrow> length s \<le> width \<and> no_trailing_space s"

definition login_request_bytes :: "login_request \<Rightarrow> bytes" where
  "login_request_bytes m = alpha_bytes 6 (lr_username m) @ alpha_bytes 10 (lr_password m) @
     alpha_bytes 10 (lr_requested_session m) @ numeric20 (lr_requested_sequence m)"

definition login_accepted_bytes :: "login_accepted \<Rightarrow> bytes" where
  "login_accepted_bytes m = alpha_bytes 10 (la_session m) @ numeric20 (la_sequence m)"

lemma encode_login_request_bytes:
  assumes "46 \<le> cap" "cap \<le> length out"
  shows "encode_login_request m out cap = (blit out 0 (login_request_bytes m), 46)"
  using assms blit_blit_adjacent [of 0 "alpha_bytes 6 (lr_username m)" "alpha_bytes 10 (lr_password m)" out]
    blit_blit_adjacent [of 0 "alpha_bytes 6 (lr_username m) @ alpha_bytes 10 (lr_password m)"
      "alpha_bytes 10 (lr_requested_session m)" out]
    blit_blit_adjacent [of 0 "alpha_bytes 6 (lr_username m) @ alpha_bytes 10 (lr_password m) @
      alpha_bytes 10 (lr_requested_session m)" "numeric20 (lr_requested_sequence m)" out]
  by (simp add: encode_login_request_def kLoginRequestLen_def Let_def put_alpha_def
      put_numeric20_def login_request_bytes_def)

lemma encode_login_accepted_bytes:
  assumes "30 \<le> cap" "cap \<le> length out"
  shows "encode_login_accepted m out cap = (blit out 0 (login_accepted_bytes m), 30)"
  using assms blit_blit_adjacent [of 0 "alpha_bytes 10 (la_session m)" "numeric20 (la_sequence m)" out]
  by (simp add: encode_login_accepted_def kLoginAcceptedLen_def Let_def put_alpha_def
      put_numeric20_def login_accepted_bytes_def)

lemma decode_login_request_bytes:
  assumes "alpha_ok 6 (lr_username m)" "alpha_ok 10 (lr_password m)"
    "alpha_ok 10 (lr_requested_session m)"
  shows "decode_login_request (login_request_bytes m) = Some m"
  using assms
    get_alpha_at [of "lr_username m" 6 "[]" "alpha_bytes 10 (lr_password m) @
      alpha_bytes 10 (lr_requested_session m) @ numeric20 (lr_requested_sequence m)"]
    get_alpha_at [of "lr_password m" 10 "alpha_bytes 6 (lr_username m)"
      "alpha_bytes 10 (lr_requested_session m) @ numeric20 (lr_requested_sequence m)"]
    get_alpha_at [of "lr_requested_session m" 10
      "alpha_bytes 6 (lr_username m) @ alpha_bytes 10 (lr_password m)"
      "numeric20 (lr_requested_sequence m)"]
    get_numeric20_at [of "alpha_bytes 6 (lr_username m) @ alpha_bytes 10 (lr_password m) @
      alpha_bytes 10 (lr_requested_session m)" "lr_requested_sequence m" "[]"]
  by (simp add: decode_login_request_def login_request_bytes_def kLoginRequestLen_def alpha_ok_def)

lemma decode_login_accepted_bytes:
  assumes "alpha_ok 10 (la_session m)"
  shows "decode_login_accepted (login_accepted_bytes m) = Some m"
  using assms get_alpha_at [of "la_session m" 10 "[]" "numeric20 (la_sequence m)"]
    get_numeric20_at [of "alpha_bytes 10 (la_session m)" "la_sequence m" "[]"]
  by (simp add: decode_login_accepted_def login_accepted_bytes_def kLoginAcceptedLen_def alpha_ok_def)

section \<open>The reader as a parser of a byte stream\<close>

definition fr_inv :: "frame_reader \<Rightarrow> bool" where
  "fr_inv r \<longleftrightarrow> fr_rd r \<le> fr_wr r \<and> fr_wr r \<le> kBufSize \<and> length (fr_buf r) = kBufSize"

definition fr_pending :: "frame_reader \<Rightarrow> bytes" where
  "fr_pending r = bslice (fr_buf r) (fr_rd r) (fr_wr r - fr_rd r)"

lemma length_fr_pending: "fr_inv r \<Longrightarrow> length (fr_pending r) = fr_buffered r"
  by (auto simp: fr_inv_def fr_pending_def fr_buffered_def bslice_def)

text \<open>The specification of \<open>next\<close>: one step of parsing on the unread bytes alone.\<close>

definition parse1 :: "bytes \<Rightarrow> status \<times> bytes" where
  "parse1 bs =
     (if length bs < 2 then (NeedMore, bs)
      else let flen = unat (get_u16 bs 0)
           in if flen = 0 \<or> flen > kMaxFrame then (Error, bs)
              else if length bs < 2 + flen then (NeedMore, bs)
              else (Frame (bs ! 2) (bslice bs 3 (flen - 1)), drop (2 + flen) bs))"

lemma fr_write_ptr_abs:
  "fr_inv r \<Longrightarrow> fr_inv (fr_write_ptr r) \<and> fr_pending (fr_write_ptr r) = fr_pending r"
  by (auto simp: fr_inv_def fr_write_ptr_def fr_pending_def blit_def bslice_def min_def)

lemma fr_recv_abs:
  assumes "fr_inv r" "length c \<le> fr_write_space (fr_write_ptr r)"
  shows "fr_inv (fr_recv c r) \<and> fr_pending (fr_recv c r) = fr_pending r @ c"
proof -
  define q where "q = fr_write_ptr r"
  have q: "fr_inv q" "fr_pending q = fr_pending r" "fr_wr q + length c \<le> kBufSize"
    using fr_write_ptr_abs [OF assms(1)] assms(2)
    by (auto simp: q_def fr_write_space_def fr_inv_def)
  define p where "p = fr_wr q - fr_rd q"
  have "take (p + length c) (drop (fr_rd q) (take (fr_wr q) (fr_buf q) @ c @ drop (fr_wr q + length c) (fr_buf q)))
      = take p (drop (fr_rd q) (fr_buf q)) @ c"
    using q(1,3) by (cases "length c") (auto simp: p_def fr_inv_def drop_take min_def)
  moreover have "fr_wr q + length c - fr_rd q = p + length c"
    using q(1) by (simp add: p_def fr_inv_def)
  ultimately have "fr_pending (fr_recv c r) = fr_pending q @ c"
    by (simp add: fr_recv_def Let_def q_def [symmetric] fr_commit_def fr_pending_def bslice_def
        blit_def p_def)
  with q show ?thesis
    by (auto simp: fr_recv_def Let_def q_def [symmetric] fr_commit_def fr_inv_def)
qed

lemma fr_next_abs:
  assumes "fr_inv r" "fr_next r = (st, r')"
  shows "fr_inv r' \<and> parse1 (fr_pending r) = (st, fr_pending r')"
proof -
  have len: "length (fr_pending r) = fr_wr r - fr_rd r"
    using length_fr_pending [OF assms(1)] by (simp add: fr_buffered_def)
  have nth: "fr_pending r ! k = fr_buf r ! (fr_rd r + k)" if "k < fr_wr r - fr_rd r" for k
    using that assms(1) by (simp add: fr_pending_def bslice_def fr_inv_def)
  have g: "get_u16 (fr_pending r) 0 = get_u16 (fr_buf r) (fr_rd r)" if "2 \<le> fr_wr r - fr_rd r"
    using nth [of 0] nth [of 1] that by (simp add: get_u16_def)
  have slc: "bslice (fr_pending r) a b = bslice (fr_buf r) (fr_rd r + a) b"
    if "a + b \<le> fr_wr r - fr_rd r" for a b
    using that by (simp add: fr_pending_def bslice_def drop_take min_def add.commute)
  have drp: "drop k (fr_pending r) = bslice (fr_buf r) (fr_rd r + k) (fr_wr r - (fr_rd r + k))" for k
    by (simp add: fr_pending_def bslice_def drop_take add.commute)
  show ?thesis
    using assms len nth [of 2] g slc [of 3 "unat (get_u16 (fr_buf r) (fr_rd r)) - 1"]
      drp [of "2 + unat (get_u16 (fr_buf r) (fr_rd r))"]
    by (auto simp: fr_next_def parse1_def Let_def fr_inv_def fr_pending_def bslice_def
        split: if_splits)
qed

lemma parse1_frame:
  assumes "frame_ok p"
  shows "parse1 (frame_bytes t p @ rest) = (Frame t p, rest)"
proof -
  have u: "unat (of_nat (length p + 1) :: u16) = length p + 1"
    using assms by (subst unat_of_nat) (simp add: frame_ok_def kMaxFrame_def)
  have "get_u16 (frame_bytes t p @ rest) 0 = of_nat (length p + 1)"
    using get_u16_at [of "[]" "of_nat (length p + 1)" "u8_be t @ p @ rest"]
    by (simp add: frame_bytes_def)
  with u have g: "unat (get_u16 (frame_bytes t p @ rest) 0) = length p + 1"
    by simp
  show ?thesis
    unfolding parse1_def g using assms
    by (simp add: frame_ok_def Let_def)
      (simp add: frame_bytes_def bslice_def u16_be_def u8_be_def numeral_2_eq_2 numeral_3_eq_3)
qed

text \<open>A strict prefix of a frame asks for more bytes.\<close>

lemma parse1_partial:
  assumes "frame_ok p" "bs @ zs = frame_bytes t p @ rest" "length bs < length p + 3"
  shows "parse1 bs = (NeedMore, bs)"
proof (cases "length bs < 2")
  case True
  then show ?thesis by (simp add: parse1_def)
next
  case False
  have u: "unat (of_nat (length p + 1) :: u16) = length p + 1"
    using assms(1) by (subst unat_of_nat) (simp add: frame_ok_def kMaxFrame_def)
  have "get_u16 bs 0 = get_u16 (bs @ zs) 0"
    using False by (auto simp: get_u16_def nth_append)
  also have "\<dots> = of_nat (length p + 1)"
    unfolding assms(2) using get_u16_at [of "[]" "of_nat (length p + 1)" "u8_be t @ p @ rest"]
    by (simp add: frame_bytes_def)
  finally have g: "unat (get_u16 bs 0) = length p + 1" using u by simp
  show ?thesis
    unfolding parse1_def g using assms False by (simp add: frame_ok_def)
qed

abbreviation frames_bytes :: "(u8 \<times> bytes) list \<Rightarrow> bytes" where
  "frames_bytes fs \<equiv> concat (map (\<lambda>(t, p). frame_bytes t p) fs)"

definition frames_ok :: "(u8 \<times> bytes) list \<Rightarrow> bool" where
  "frames_ok fs \<longleftrightarrow> (\<forall>(t, p) \<in> set fs. frame_ok p)"

text \<open>Draining a reader whose unread bytes are a prefix of a stream of frames hands out the complete
  frames and keeps the incomplete one.\<close>

lemma fr_drain_frames:
  assumes "fr_inv r" "frames_ok fs" "fr_pending r @ zs = frames_bytes fs"
  shows "\<exists>fs1 fs2 r'. fr_drain r = (fs1, NeedMore, r') \<and> fr_inv r' \<and> fs = fs1 @ fs2 \<and>
           fr_pending r' @ zs = frames_bytes fs2 \<and> length (fr_pending r') < kMaxFrame + 2 \<and>
           parse1 (fr_pending r') = (NeedMore, fr_pending r')"
  using assms
proof (induction r arbitrary: fs rule: fr_drain.induct)
  case (1 r)
  obtain st r' where nx: "fr_next r = (st, r')" by fastforce
  note abs = fr_next_abs [OF "1.prems"(1) nx]
  show ?case
  proof (cases fs)
    case Nil
    with "1.prems" have "parse1 (fr_pending r) = (NeedMore, [])" "fr_pending r = []" "zs = []"
      by (auto simp: parse1_def)
    with abs nx Nil show ?thesis
      by (subst fr_drain.simps) (auto simp: kMaxFrame_def)
  next
    case (Cons f gs)
    obtain t p where f: "f = (t, p)" by fastforce
    have ok: "frame_ok p" "frames_ok gs" using "1.prems"(2) Cons f by (auto simp: frames_ok_def)
    have eq: "fr_pending r @ zs = frame_bytes t p @ frames_bytes gs" using "1.prems"(3) Cons f by simp
    show ?thesis
    proof (cases "length (fr_pending r) < length p + 3")
      case True
      have "st = NeedMore" "fr_pending r' = fr_pending r"
        using parse1_partial [OF ok(1) eq True] abs by auto
      with nx abs eq Cons f True ok(1) show ?thesis
        by (subst fr_drain.simps) (auto simp: frame_ok_def kMaxFrame_def intro!: exI [of _ "[]"])
    next
      case False
      then obtain us where us: "fr_pending r = frame_bytes t p @ us" "us @ zs = frames_bytes gs"
        using eq by (auto simp: append_eq_append_conv2)
          (metis append_Nil2 length_append length_frame_bytes less_add_same_cancel1 not_less length_greater_0_conv)
      have st: "st = Frame t p" "fr_pending r' = us"
        using abs parse1_frame [OF ok(1), of t us] us by auto
      from "1.IH" [OF nx [symmetric] st(1), of gs] abs ok(2) us st
      obtain fs1 fs2 r'' where IH: "fr_drain r' = (fs1, NeedMore, r'')" "fr_inv r''" "gs = fs1 @ fs2"
        "fr_pending r'' @ zs = frames_bytes fs2" "length (fr_pending r'') < kMaxFrame + 2"
        "parse1 (fr_pending r'') = (NeedMore, fr_pending r'')"
        by auto
      have "fr_drain r = ((t, p) # fs1, NeedMore, r'')"
        using nx st(1) IH(1) by (subst fr_drain.simps) simp
      with IH Cons f show ?thesis by auto
    qed
  qed
qed

lemma fr_room:
  assumes "fr_inv r" "length (fr_pending r) < kMaxFrame + 2"
  shows "kMaxFrame + kFrameHeaderLen \<le> fr_write_space (fr_write_ptr r)"
  using assms length_fr_pending [OF assms(1)]
  by (auto simp: fr_write_ptr_def fr_write_space_def fr_inv_def fr_buffered_def kMaxFrame_def
      kFrameHeaderLen_def kBufSize_def)

lemma fr_feed_frames:
  assumes "fr_inv r" "frames_ok fs" "fr_pending r @ concat cs = frames_bytes fs"
    "parse1 (fr_pending r) = (NeedMore, fr_pending r)" "fr_feed cs r = Some (gs, r')"
  shows "gs = fs \<and> fr_inv r' \<and> fr_pending r' = []"
  using assms
proof (induction cs arbitrary: r fs gs)
  case Nil
  then show ?case
    by (cases fs) (auto simp: frames_ok_def parse1_frame)
next
  case (Cons c cs)
  have fit: "length c \<le> fr_write_space (fr_write_ptr r)"
    using Cons.prems(5) by (auto split: if_splits)
  note rc = fr_recv_abs [OF Cons.prems(1) fit]
  obtain fs1 fs2 q where q: "fr_drain (fr_recv c r) = (fs1, NeedMore, q)" "fr_inv q" "fs = fs1 @ fs2"
    "fr_pending q @ concat cs = frames_bytes fs2" "parse1 (fr_pending q) = (NeedMore, fr_pending q)"
    using fr_drain_frames [of "fr_recv c r" fs "concat cs"] rc Cons.prems(2,3) by auto
  obtain hs where hs: "fr_feed cs q = Some (hs, r')" "gs = fs1 @ hs"
    using Cons.prems(5) fit q(1) by (auto split: option.splits)
  have "frames_ok fs2" using Cons.prems(2) q(3) by (auto simp: frames_ok_def)
  from Cons.IH [OF q(2) this q(4,5) hs(1)] hs(2) q(3) show ?case by simp
qed

text \<open>Chunks of up to a maximum-size frame always fit, so the loop never drops such a connection.\<close>

lemma fr_feed_accepts:
  assumes "fr_inv r" "frames_ok fs" "fr_pending r @ concat cs = frames_bytes fs"
    "length (fr_pending r) < kMaxFrame + 2" "\<forall>c \<in> set cs. length c \<le> kMaxFrame + kFrameHeaderLen"
  shows "\<exists>gs r'. fr_feed cs r = Some (gs, r')"
  using assms
proof (induction cs arbitrary: r fs)
  case Nil
  then show ?case by simp
next
  case (Cons c cs)
  have fit: "length c \<le> fr_write_space (fr_write_ptr r)"
    using fr_room [OF Cons.prems(1,4)] Cons.prems(5) by simp
  note rc = fr_recv_abs [OF Cons.prems(1) fit]
  obtain fs1 fs2 q where q: "fr_drain (fr_recv c r) = (fs1, NeedMore, q)" "fr_inv q" "fs = fs1 @ fs2"
    "fr_pending q @ concat cs = frames_bytes fs2" "length (fr_pending q) < kMaxFrame + 2"
    using fr_drain_frames [of "fr_recv c r" fs "concat cs"] rc Cons.prems(2,3) by auto
  have "frames_ok fs2" using Cons.prems(2) q(3) by (auto simp: frames_ok_def)
  from Cons.IH [OF q(2) this q(4,5)] Cons.prems(5) obtain hs r'
    where "fr_feed cs q = Some (hs, r')" by auto
  with fit q(1) show ?case by (auto split: option.splits)
qed

lemma FrameReader_start:
  "fr_inv FrameReader" "fr_pending FrameReader = []" "parse1 (fr_pending FrameReader) = (NeedMore, [])"
  by (simp_all add: fr_inv_def FrameReader_def fr_pending_def bslice_def parse1_def)

end
