(* ===== verification/Latency.thy ===== *)
theory Latency
  imports PF_Prelude
begin

text \<open>
  Latency statistics: the log-scale histogram (\<open>include/latency_histogram.hpp\<close>) and the sample
  recorder (\<open>include/latency_sampler.hpp\<close>). Any number of threads record into one histogram: the unit of
  interleaving is one access to an atomic (the two \<open>fetch_add\<close>, the load of the maximum, one attempt of
  \<open>compare_exchange_weak\<close>, which fails when another thread has raised the maximum since and may fail
  spuriously). Merging and reading the percentiles happen after the recording threads have finished, as the
  source requires; there \<open>cas_max\<close> is the loop with no other writer. The double
  arithmetic that turns a percentile into an index of the sorted samples is a parameter. Shown:
  whatever the interleaving, recording counts every sample in its bucket and leaves the true maximum,
  merging refines concatenation, and a percentile estimate is the least power of two, from 128 on, above
  the exact percentile of the samples.
\<close>

section \<open>Histogram\<close>

definition kLatencyHistogramBuckets :: nat where
  "kLatencyHistogramBuckets = 48"

definition kLatencyHistogramMinNs :: u64 where
  "kLatencyHistogramMinNs = 128"

fun bounds_loop :: "nat \<Rightarrow> u64 \<Rightarrow> u64 list" where
  "bounds_loop 0 v = []"
| "bounds_loop (Suc k) v = v # bounds_loop k (v * 2)"

definition kLatencyBucketBounds :: "u64 list" where
  "kLatencyBucketBounds = 0 # bounds_loop kLatencyHistogramBuckets kLatencyHistogramMinNs"

record latency_histogram =
  lh_buckets :: "u64 list"
  lh_overflow :: u64
  lh_count :: u64
  lh_max_ns :: u64

definition latency_histogram_reset :: latency_histogram where
  "latency_histogram_reset =
     \<lparr>lh_buckets = replicate kLatencyHistogramBuckets 0, lh_overflow = 0, lh_count = 0, lh_max_ns = 0\<rparr>"

fun bucket_scan :: "nat \<Rightarrow> nat \<Rightarrow> u64 \<Rightarrow> nat" where
  "bucket_scan i 0 ns = i"
| "bucket_scan i (Suc k) ns = (if ns < kLatencyBucketBounds ! (i + 1) then i else bucket_scan (i + 1) k ns)"

definition latency_bucket_index :: "u64 \<Rightarrow> nat" where
  "latency_bucket_index ns = bucket_scan 0 kLatencyHistogramBuckets ns"

text \<open>A thread that has samples left to record, the first of them in progress, and its next access; \<open>AtCas cur\<close>
  holds the local variable \<open>cur\<close> of the compare-and-swap loop. One access, where \<open>spurious\<close> says whether a
  \<open>compare_exchange_weak\<close> fails although the value is the expected one.\<close>

datatype record_pc = AtBucket | AtCount | AtLoad | AtCas u64

type_synonym recorder = "u64 list \<times> record_pc"

definition bump_bucket :: "u64 \<Rightarrow> latency_histogram \<Rightarrow> latency_histogram" where
  "bump_bucket ns h =
     (let idx = latency_bucket_index ns
      in if idx = kLatencyHistogramBuckets then h\<lparr>lh_overflow := lh_overflow h + 1\<rparr>
         else h\<lparr>lh_buckets := (lh_buckets h)[idx := lh_buckets h ! idx + 1]\<rparr>)"

fun latency_histogram_record :: "bool \<Rightarrow> recorder \<Rightarrow> latency_histogram \<Rightarrow> recorder \<times> latency_histogram" where
  "latency_histogram_record spurious ([], pc) h = (([], pc), h)"
| "latency_histogram_record spurious (ns # rest, AtBucket) h = ((ns # rest, AtCount), bump_bucket ns h)"
| "latency_histogram_record spurious (ns # rest, AtCount) h = ((ns # rest, AtLoad), h\<lparr>lh_count := lh_count h + 1\<rparr>)"
| "latency_histogram_record spurious (ns # rest, AtLoad) h = ((ns # rest, AtCas (lh_max_ns h)), h)"
| "latency_histogram_record spurious (ns # rest, AtCas cur) h =
     (if ns > cur
      then if lh_max_ns h = cur \<and> \<not> spurious then ((rest, AtBucket), h\<lparr>lh_max_ns := ns\<rparr>)
           else ((ns # rest, AtCas (lh_max_ns h)), h)
      else ((rest, AtBucket), h))"

text \<open>A schedule says which thread makes the next access.\<close>

fun record_run :: "(nat \<times> bool) list \<Rightarrow> recorder list \<times> latency_histogram \<Rightarrow> recorder list \<times> latency_histogram" where
  "record_run [] s = s"
| "record_run ((i, spurious) # sched) (ts, h) =
     (if i < length ts
      then let (t, h) = latency_histogram_record spurious (ts ! i) h in record_run sched (ts[i := t], h)
      else record_run sched (ts, h))"

definition recorders :: "u64 list list \<Rightarrow> recorder list" where
  "recorders xss = map (\<lambda>xs. (xs, AtBucket)) xss"

definition finished :: "recorder list \<Rightarrow> bool" where
  "finished ts \<longleftrightarrow> (\<forall>t\<in>set ts. fst t = [])"

text \<open>The compare-and-swap loop of a thread that nobody interferes with; \<open>fails\<close> says which attempts
  fail spuriously.\<close>

fun cas_max :: "bool list \<Rightarrow> u64 \<Rightarrow> u64 \<Rightarrow> u64 \<Rightarrow> u64" where
  "cas_max fails stored cur v =
     (if v > cur
      then case fails of True # fs \<Rightarrow> cas_max fs stored stored v | _ \<Rightarrow> v
      else stored)"

declare cas_max.simps [simp del]

definition latency_histogram_merge ::
    "bool list \<Rightarrow> latency_histogram \<Rightarrow> latency_histogram \<Rightarrow> latency_histogram" where
  "latency_histogram_merge fails into from_h =
     \<lparr>lh_buckets = map (\<lambda>i. lh_buckets into ! i + lh_buckets from_h ! i) [0..<kLatencyHistogramBuckets],
      lh_overflow = lh_overflow into + lh_overflow from_h,
      lh_count = lh_count into + lh_count from_h,
      lh_max_ns = cas_max fails (lh_max_ns into) (lh_max_ns into) (lh_max_ns from_h)\<rparr>"

record latency_percentiles =
  lp_p50 :: u64
  lp_p99 :: u64
  lp_p999 :: u64
  lp_max_ns :: u64
  lp_count :: u64

text \<open>One percentile of the loop: the flag \<open>have\<close> and the value become \<open>Some bound\<close> once.\<close>

definition pct_update :: "u64 \<Rightarrow> u64 \<Rightarrow> u64 \<Rightarrow> u64 option \<Rightarrow> u64 option" where
  "pct_update target running bound have = (if have = None \<and> running \<ge> target then Some bound else have)"

fun pct_loop :: "u64 \<Rightarrow> u64 \<Rightarrow> u64 \<Rightarrow> (u64 \<times> u64) list \<Rightarrow> u64 \<Rightarrow>
    u64 option \<times> u64 option \<times> u64 option \<Rightarrow> u64 option \<times> u64 option \<times> u64 option" where
  "pct_loop t50 t99 t999 [] running acc = acc"
| "pct_loop t50 t99 t999 ((c, bound) # rest) running (h50, h99, h999) =
     (let running = running + c
      in pct_loop t50 t99 t999 rest running
           (pct_update t50 running bound h50, pct_update t99 running bound h99, pct_update t999 running bound h999))"

definition latency_histogram_percentiles :: "latency_histogram \<Rightarrow> latency_percentiles" where
  "latency_histogram_percentiles h =
     (let mx = lh_max_ns h; total = lh_count h
      in if total = 0 then \<lparr>lp_p50 = 0, lp_p99 = 0, lp_p999 = 0, lp_max_ns = mx, lp_count = total\<rparr>
         else let t50 = (total * 50 + 99) div 100;
                  t99 = (total * 99 + 99) div 100;
                  t999 = (total * 999 + 999) div 1000;
                  (h50, h99, h999) = pct_loop t50 t99 t999 (zip (lh_buckets h) (tl kLatencyBucketBounds)) 0 (None, None, None);
                  value = (\<lambda>h. case h of None \<Rightarrow> mx | Some b \<Rightarrow> b)
              in \<lparr>lp_p50 = value h50, lp_p99 = value h99, lp_p999 = value h999, lp_max_ns = mx, lp_count = total\<rparr>)"

section \<open>Sampler\<close>

record latency_sampler =
  ls_samples :: "u64 list"
  ls_capacity :: nat
  ls_dropped :: nat

definition LatencySampler :: "nat \<Rightarrow> latency_sampler" where
  "LatencySampler capacity = \<lparr>ls_samples = [], ls_capacity = capacity, ls_dropped = 0\<rparr>"

definition ls_record :: "u64 \<Rightarrow> latency_sampler \<Rightarrow> latency_sampler" where
  "ls_record ns s =
     (if length (ls_samples s) < ls_capacity s then s\<lparr>ls_samples := ls_samples s @ [ns]\<rparr>
      else s\<lparr>ls_dropped := ls_dropped s + 1\<rparr>)"

definition ls_clear :: "latency_sampler \<Rightarrow> latency_sampler" where
  "ls_clear s = s\<lparr>ls_samples := [], ls_dropped := 0\<rparr>"

record sampler_summary =
  sm_count :: nat
  sm_dropped :: nat
  sm_min :: u64
  sm_p50 :: u64
  sm_p90 :: u64
  sm_p99 :: u64
  sm_p999 :: u64
  sm_max :: u64

text \<open>\<open>pct p n\<close> is \<open>static_cast<size_t>((p / 1000.0) * double(n - 1) + 0.5)\<close>.\<close>

definition summarize :: "(nat \<Rightarrow> nat \<Rightarrow> nat) \<Rightarrow> latency_sampler \<Rightarrow> sampler_summary" where
  "summarize pct s =
     (if ls_samples s = []
      then \<lparr>sm_count = 0, sm_dropped = ls_dropped s, sm_min = 0, sm_p50 = 0, sm_p90 = 0, sm_p99 = 0,
            sm_p999 = 0, sm_max = 0\<rparr>
      else let v = sort (ls_samples s)
           in \<lparr>sm_count = length (ls_samples s), sm_dropped = ls_dropped s, sm_min = hd v,
               sm_p50 = v ! pct 500 (length v), sm_p90 = v ! pct 900 (length v),
               sm_p99 = v ! pct 990 (length v), sm_p999 = v ! pct 999 (length v), sm_max = last v\<rparr>)"

section \<open>Bucket bounds\<close>

lemma bounds_loop_nth: "i < k \<Longrightarrow> bounds_loop k v ! i = v * 2 ^ i"
  by (induction k arbitrary: i v) (auto simp: nth_Cons split: nat.split)

lemma length_bounds_loop [simp]: "length (bounds_loop k v) = k"
  by (induction k arbitrary: v) auto

lemma length_bounds: "length kLatencyBucketBounds = 49"
  by (simp add: kLatencyBucketBounds_def kLatencyHistogramBuckets_def)

lemma bounds_nth:
  assumes "i < 48"
  shows "kLatencyBucketBounds ! Suc i = 2 ^ (i + 7)" "unat (kLatencyBucketBounds ! Suc i) = 2 ^ (i + 7)"
proof -
  show v: "kLatencyBucketBounds ! Suc i = 2 ^ (i + 7)"
    using assms by (simp add: kLatencyBucketBounds_def kLatencyHistogramBuckets_def bounds_loop_nth
        kLatencyHistogramMinNs_def power_add)
  have "(2 :: nat) ^ (i + 7) < 2 ^ 64" using assms by (intro power_strict_increasing) simp_all
  then show "unat (kLatencyBucketBounds ! Suc i) = 2 ^ (i + 7)"
    using unat_of_nat_id [of "2 ^ (i + 7)", where 'a = 64] by (simp add: v)
qed

lemma bucket_scan_spec:
  assumes "i + k = 48"
  shows "i \<le> bucket_scan i k ns \<and> bucket_scan i k ns \<le> 48 \<and>
    (bucket_scan i k ns < 48 \<longrightarrow> ns < kLatencyBucketBounds ! Suc (bucket_scan i k ns)) \<and>
    (\<forall>j. i \<le> j \<and> j < bucket_scan i k ns \<longrightarrow> kLatencyBucketBounds ! Suc j \<le> ns)"
  using assms
proof (induction k arbitrary: i)
  case (Suc k)
  show ?case
  proof (cases "ns < kLatencyBucketBounds ! Suc i")
    case True
    then show ?thesis using Suc.prems by auto
  next
    case False
    moreover have "\<forall>j. i \<le> j \<longleftrightarrow> j = i \<or> Suc i \<le> j" by auto
    ultimately show ?thesis using Suc.IH [of "Suc i"] Suc.prems by (auto simp: not_less)
  qed
qed auto

text \<open>The index of a bucket is monotone in the sample: bucket \<open>j\<close> or below means below bound \<open>j + 1\<close>.\<close>

lemma bucket_index_le: "latency_bucket_index ns \<le> 48"
  using bucket_scan_spec [of 0 48 ns] by (simp add: latency_bucket_index_def kLatencyHistogramBuckets_def)

lemma bucket_le_iff:
  assumes "j < 48"
  shows "latency_bucket_index ns \<le> j \<longleftrightarrow> ns < kLatencyBucketBounds ! Suc j"
proof -
  let ?r = "latency_bucket_index ns"
  have S: "?r < 48 \<longrightarrow> ns < kLatencyBucketBounds ! Suc ?r" "j < ?r \<longrightarrow> kLatencyBucketBounds ! Suc j \<le> ns"
    using bucket_scan_spec [of 0 48 ns] by (simp_all add: latency_bucket_index_def kLatencyHistogramBuckets_def)
  have "kLatencyBucketBounds ! Suc ?r \<le> kLatencyBucketBounds ! Suc j" if "?r \<le> j"
    using that assms by (simp add: word_le_nat_alt bounds_nth(2))
  then show ?thesis using S assms by (meson leD le_less_trans less_le_trans not_less)
qed

lemma bucket_overflow: "latency_bucket_index ns = 48 \<longleftrightarrow> 2 ^ 54 \<le> ns"
  using bucket_le_iff [of 47 ns] bucket_index_le [of ns] bounds_nth(1) [of 47] by auto

section \<open>Recording, interleaved, and merging count samples\<close>

definition hist_of :: "u64 list \<Rightarrow> latency_histogram" where
  "hist_of xs =
     \<lparr>lh_buckets = map (\<lambda>i. of_nat (count_list (map latency_bucket_index xs) i)) [0..<48],
      lh_overflow = of_nat (count_list (map latency_bucket_index xs) 48),
      lh_count = of_nat (length xs), lh_max_ns = fold max xs 0\<rparr>"

lemma cas_max: "cas_max fails stored stored v = max stored v"
  by (induction fails) (subst cas_max.simps, auto simp: max_def split: bool.splits)+

lemma fold_max: "fold max xs (a :: u64) = max a (fold max xs 0)"
proof (induction xs arbitrary: a)
  case (Cons x xs)
  show ?case using Cons [of "max x a"] Cons [of "max x 0"] by (simp add: max.assoc max.commute)
qed simp

lemma hist_reset: "latency_histogram_reset = hist_of []"
  by (simp add: latency_histogram_reset_def hist_of_def kLatencyHistogramBuckets_def map_replicate_const)

text \<open>What the threads still owe: the samples whose bucket, whose count and whose maximum is outstanding. A
  step moves a sample from the debt into the histogram, so that the histogram with the debt paid never changes.\<close>

fun owe_bucket :: "recorder \<Rightarrow> u64 list" where
  "owe_bucket (xs, AtBucket) = xs"
| "owe_bucket (xs, _) = tl xs"

fun owe_count :: "recorder \<Rightarrow> u64 list" where
  "owe_count (xs, AtBucket) = xs"
| "owe_count (xs, AtCount) = xs"
| "owe_count (xs, _) = tl xs"

definition paid :: "recorder list \<Rightarrow> latency_histogram \<Rightarrow> latency_histogram" where
  "paid ts h =
     (let owed = map latency_bucket_index (concat (map owe_bucket ts))
      in \<lparr>lh_buckets = map (\<lambda>i. lh_buckets h ! i + of_nat (count_list owed i)) [0..<48],
          lh_overflow = lh_overflow h + of_nat (count_list owed 48),
          lh_count = lh_count h + of_nat (length (concat (map owe_count ts))),
          lh_max_ns = fold max (concat (map fst ts)) (lh_max_ns h)\<rparr>)"

text \<open>The local copy of the maximum is never above it.\<close>

definition cas_behind :: "u64 \<Rightarrow> recorder \<Rightarrow> bool" where
  "cas_behind m t \<longleftrightarrow> (case snd t of AtCas cur \<Rightarrow> cur \<le> m | _ \<Rightarrow> True)"

lemma cas_behind_mono: "cas_behind m t \<Longrightarrow> m \<le> m' \<Longrightarrow> cas_behind m' t"
  by (auto simp: cas_behind_def split: record_pc.splits)

lemma record_behind:
  assumes "latency_histogram_record spurious t h = (t', h')" "cas_behind (lh_max_ns h) t"
  shows "lh_max_ns h \<le> lh_max_ns h'" "cas_behind (lh_max_ns h') t'" "length (lh_buckets h') = length (lh_buckets h)"
  using assms by (cases "(spurious, t, h)" rule: latency_histogram_record.cases;
      auto simp: cas_behind_def bump_bucket_def Let_def split: if_splits)+

lemma fold_max_swap: "fold max (us @ x # vs) m = fold max (us @ vs) (max x (m :: u64))"
proof -
  have "fold max vs (max x (fold max us m)) = max (max x (max m (fold max us 0))) (fold max vs 0)"
    by (subst fold_max) (simp only: fold_max [of us m])
  moreover have "fold max vs (fold max us (max x m)) = max (max (max x m) (fold max us 0)) (fold max vs 0)"
    by (subst fold_max) (simp only: fold_max [of us "max x m"])
  ultimately show ?thesis by (simp add: max.assoc)
qed

lemma bump_bucket_rest [simp]: "lh_count (bump_bucket x h) = lh_count h" "lh_max_ns (bump_bucket x h) = lh_max_ns h"
  by (simp_all add: bump_bucket_def Let_def)

lemma bump_paid:
  assumes "length (lh_buckets h) = 48" "i < 48"
  shows "lh_buckets (bump_bucket x h) ! i = lh_buckets h ! i + of_nat (count_list [latency_bucket_index x] i)"
  using assms bucket_index_le [of x] by (auto simp: bump_bucket_def Let_def kLatencyHistogramBuckets_def nth_list_update)

lemma record_paid:
  assumes "latency_histogram_record spurious t h = (t', h')" "cas_behind (lh_max_ns h) t" "length (lh_buckets h) = 48"
  shows "paid (us @ t' # vs) h' = paid (us @ t # vs) h"
proof (cases "(spurious, t, h)" rule: latency_histogram_record.cases)
  case (2 sp x rest h0)
  have "t' = (x # rest, AtCount)" "h' = bump_bucket x h" "t = (x # rest, AtBucket)" using assms(1) 2 by auto
  moreover have "lh_overflow (bump_bucket x h) = lh_overflow h + of_nat (count_list [latency_bucket_index x] 48)"
    by (auto simp: bump_bucket_def Let_def kLatencyHistogramBuckets_def)
  ultimately show ?thesis using bump_paid [OF assms(3), of _ x] by (auto simp: paid_def Let_def)
next
  case (5 sp x rest cur h0)
  then have t: "t = (x # rest, AtCas cur)" by simp
  have m: "fold max (concat (map fst (us @ t # vs))) (lh_max_ns h) =
      fold max (concat (map fst us) @ rest @ concat (map fst vs)) (max x (lh_max_ns h))"
    using fold_max_swap [of "concat (map fst us)" x "rest @ concat (map fst vs)" "lh_max_ns h"] by (simp add: t)
  show ?thesis
  proof (cases "x > cur")
    case gt: True
    show ?thesis
    proof (cases "lh_max_ns h = cur \<and> \<not> spurious")
      case True
      then have e: "t' = (rest, AtBucket)" "h' = h\<lparr>lh_max_ns := x\<rparr>" using assms(1) gt by (simp_all add: t)
      have "max x (lh_max_ns h) = x" using True gt by simp
      then show ?thesis unfolding paid_def m e by (simp add: t Let_def)
    next
      case False
      then have "t' = (x # rest, AtCas (lh_max_ns h))" "h' = h" using assms(1) gt by (auto simp: t)
      then show ?thesis by (simp add: paid_def t)
    qed
  next
    case False
    then have e: "t' = (rest, AtBucket)" "h' = h" using assms(1) by (simp_all add: t)
    have "x \<le> lh_max_ns h" using False assms(2) by (simp add: t cas_behind_def)
    then have "max x (lh_max_ns h) = lh_max_ns h" by (rule max_absorb2)
    then show ?thesis unfolding paid_def m e by (simp add: t Let_def)
  qed
qed (use assms(1) in \<open>auto simp: paid_def Let_def\<close>)

lemma record_run_paid:
  assumes "record_run sched (ts, h) = (ts', h')" "\<forall>t\<in>set ts. cas_behind (lh_max_ns h) t" "length (lh_buckets h) = 48"
  shows "paid ts' h' = paid ts h \<and> length (lh_buckets h') = 48"
  using assms
proof (induction sched arbitrary: ts h)
  case (Cons a sched)
  obtain i sp where a: "a = (i, sp)" by fastforce
  show ?case
  proof (cases "i < length ts")
    case True
    obtain t h1 where r: "latency_histogram_record sp (ts ! i) h = (t, h1)" by fastforce
    have c: "cas_behind (lh_max_ns h) (ts ! i)" using Cons.prems(2) True by simp
    note B = record_behind [OF r c]
    have "\<forall>u\<in>set (ts[i := t]). cas_behind (lh_max_ns h1) u"
      using Cons.prems(2) B(1,2) cas_behind_mono set_update_subset_insert [of ts i t] by blast
    then have "paid ts' h' = paid (ts[i := t]) h1 \<and> length (lh_buckets h') = 48"
      using Cons.IH [of "ts[i := t]" h1] Cons.prems(1,3) B(3) True r by (simp add: a)
    moreover have "paid (ts[i := t]) h1 = paid ts h"
      using record_paid [OF r c Cons.prems(3), of "take i ts" "drop (Suc i) ts"] True
      by (simp add: upd_conv_take_nth_drop id_take_nth_drop [symmetric])
    ultimately show ?thesis by simp
  qed (use Cons in \<open>simp add: a\<close>)
qed simp

text \<open>Every interleaving of finished threads leaves the histogram of all the samples.\<close>

lemma record_concurrent:
  assumes "record_run sched (recorders xss, latency_histogram_reset) = (ts, h)" "finished ts"
  shows "h = hist_of (concat xss)"
proof -
  have "paid ts h = paid (recorders xss) latency_histogram_reset \<and> length (lh_buckets h) = 48"
    using record_run_paid [OF assms(1)]
    by (simp add: recorders_def cas_behind_def latency_histogram_reset_def kLatencyHistogramBuckets_def)
  moreover have "paid (recorders xss) latency_histogram_reset = hist_of (concat xss)"
  proof -
    have "concat (map owe_bucket (recorders xss)) = concat xss" "concat (map owe_count (recorders xss)) = concat xss"
      "concat (map fst (recorders xss)) = concat xss" by (simp_all add: recorders_def comp_def)
    moreover have "map (\<lambda>i. lh_buckets latency_histogram_reset ! i + f i) [0..<48] = map f [0..<48]" for f :: "nat \<Rightarrow> u64"
      by (intro map_cong) (auto simp: latency_histogram_reset_def kLatencyHistogramBuckets_def)
    ultimately show ?thesis by (simp only: paid_def hist_of_def Let_def) (simp add: latency_histogram_reset_def)
  qed
  moreover have "paid ts h = h" if "length (lh_buckets h) = 48"
  proof -
    have "owe_bucket t = [] \<and> owe_count t = [] \<and> fst t = []" if t: "t \<in> set ts" for t
    proof -
      have "t = ([], snd t)" using t assms(2) by (simp add: finished_def prod_eq_iff)
      then obtain pc where "t = ([], pc)" by blast
      then show ?thesis by (cases pc) simp_all
    qed
    then have "concat (map owe_bucket ts) = []" "concat (map owe_count ts) = []" "concat (map fst ts) = []" by simp_all
    moreover have "map (\<lambda>i. lh_buckets h ! i) [0..<48] = lh_buckets h" using that by (intro nth_equalityI) simp_all
    ultimately show ?thesis unfolding paid_def by (simp del: concat_eq_Nil_conv)
  qed
  ultimately show ?thesis by simp
qed

text \<open>A thread that is left alone finishes: four accesses per sample are enough, wherever the others stopped.\<close>

lemma record_run_append: "record_run (s1 @ s2) st = record_run s2 (record_run s1 st)"
  by (induction s1 st rule: record_run.induct) (auto split: prod.split)

definition solo :: "nat \<Rightarrow> nat \<Rightarrow> recorder list \<times> latency_histogram \<Rightarrow> recorder list \<times> latency_histogram" where
  "solo i n st = record_run (replicate n (i, False)) st"

lemma solo_Suc:
  "i < length ts \<Longrightarrow> solo i (Suc n) (ts, h) =
     solo i n (ts[i := fst (latency_histogram_record False (ts ! i) h)], snd (latency_histogram_record False (ts ! i) h))"
  by (simp add: solo_def split: prod.split)

lemma solo_done: "i < length ts \<Longrightarrow> ts ! i = ([], pc) \<Longrightarrow> solo i n (ts, h) = (ts, h)"
  by (induction n) (simp_all add: solo_Suc, simp add: solo_def, metis list_update_id)

lemma solo_sample:
  assumes "i < length ts" "ts ! i = (x # xs, pc)"
  shows "\<exists>k h'. k \<le> 4 \<and> (\<forall>n. solo i (k + n) (ts, h) = solo i n (ts[i := (xs, AtBucket)], h'))"
proof -
  have cas: "\<exists>k h'. k \<le> 1 \<and> (\<forall>n. solo i (k + n) (ts[i := (x # xs, AtCas (lh_max_ns g))], g) = solo i n (ts[i := (xs, AtBucket)], h'))"
    for g using assms(1) by (intro exI [of _ 1]) (auto simp: solo_Suc)
  show ?thesis
  proof (cases pc)
    case AtBucket
    obtain k h' where k: "k \<le> 1" "\<And>n. solo i (k + n) (ts[i := (x # xs, AtCas (lh_max_ns (bump_bucket x h)))], (bump_bucket x h)\<lparr>lh_count := lh_count (bump_bucket x h) + 1\<rparr>) =
      solo i n (ts[i := (xs, AtBucket)], h')" using cas [of "(bump_bucket x h)\<lparr>lh_count := lh_count (bump_bucket x h) + 1\<rparr>"] by auto
    then show ?thesis using assms AtBucket by (intro exI [of _ "Suc (Suc (Suc k))"] exI [of _ h']) (simp add: solo_Suc)
  next
    case AtCount
    obtain k h' where k: "k \<le> 1" "\<And>n. solo i (k + n) (ts[i := (x # xs, AtCas (lh_max_ns h))], h\<lparr>lh_count := lh_count h + 1\<rparr>) =
      solo i n (ts[i := (xs, AtBucket)], h')" using cas [of "h\<lparr>lh_count := lh_count h + 1\<rparr>"] by auto
    then show ?thesis using assms AtCount by (intro exI [of _ "Suc (Suc k)"] exI [of _ h']) (simp add: solo_Suc)
  next
    case AtLoad
    obtain k h' where k: "k \<le> 1" "\<And>n. solo i (k + n) (ts[i := (x # xs, AtCas (lh_max_ns h))], h) =
      solo i n (ts[i := (xs, AtBucket)], h')" using cas [of h] by auto
    then show ?thesis using assms AtLoad by (intro exI [of _ "Suc k"] exI [of _ h']) (simp add: solo_Suc)
  next
    case (AtCas cur)
    obtain k h' where k: "k \<le> 1" "\<And>n. solo i (k + n) (ts[i := (x # xs, AtCas (lh_max_ns h))], h) =
      solo i n (ts[i := (xs, AtBucket)], h')" using cas [of h] by auto
    show ?thesis
    proof (cases "x > cur \<and> lh_max_ns h \<noteq> cur")
      case True
      then show ?thesis using assms AtCas k by (intro exI [of _ "Suc k"] exI [of _ h']) (simp add: solo_Suc)
    next
      case False
      then show ?thesis using assms AtCas by (intro exI [of _ 1]) (auto simp: solo_Suc)
    qed
  qed
qed

lemma solo_finishes:
  assumes "i < length ts" "4 * length (fst (ts ! i)) \<le> n"
  shows "\<exists>pc h'. solo i n (ts, h) = (ts[i := ([], pc)], h')"
  using assms
proof (induction "length (fst (ts ! i))" arbitrary: ts h n)
  case 0
  then show ?case using solo_done [of i ts "snd (ts ! i)" n h] by (cases "ts ! i") (auto, metis list_update_id)
next
  case (Suc m)
  then obtain x xs pc where t: "ts ! i = (x # xs, pc)" by (cases "ts ! i") (auto simp: Suc_length_conv)
  obtain k h' where k: "k \<le> 4" "\<And>n. solo i (k + n) (ts, h) = solo i n (ts[i := (xs, AtBucket)], h')"
    using solo_sample [OF Suc.prems(1) t, of h] by blast
  have "\<exists>pc h''. solo i (n - k) (ts[i := (xs, AtBucket)], h') = ((ts[i := (xs, AtBucket)])[i := ([], pc)], h'')"
    using Suc.hyps(2) Suc.prems t k(1) by (intro Suc.hyps(1)) auto
  then show ?case using k(2) [of "n - k"] k(1) Suc.prems(2) t by simp
qed

lemma all_finish:
  "\<exists>sched ts' h'. record_run sched (ts, h) = (ts', h') \<and> finished ts' \<and> length sched = 4 * length (concat (map fst ts))"
proof -
  have "\<exists>sched us' h'. record_run sched (us @ vs, h) = (us' @ vs, h') \<and> finished us' \<and> length us' = length us \<and>
      length sched = 4 * length (concat (map fst us))" for us vs :: "recorder list"
  proof (induction us arbitrary: vs rule: rev_induct)
    case Nil
    then show ?case by (intro exI [of _ "[]"]) (simp add: finished_def)
  next
    case (snoc t us)
    obtain sched us' h' where I: "record_run sched (us @ (t # vs), h) = (us' @ t # vs, h')" "finished us'" "length us' = length us"
      "length sched = 4 * length (concat (map fst us))" using snoc.IH by blast
    let ?i = "length us'" and ?n = "4 * length (fst t)"
    obtain pc h'' where "solo ?i ?n (us' @ t # vs, h') = ((us' @ t # vs)[?i := ([], pc)], h'')"
      using solo_finishes [of ?i "us' @ t # vs" ?n h'] by auto
    then have "record_run (sched @ replicate ?n (?i, False)) ((us @ [t]) @ vs, h) = ((us' @ [([], pc)]) @ vs, h'')"
      using I(1) by (simp add: record_run_append solo_def)
    moreover have "finished (us' @ [([], pc)])" using I(2) by (simp add: finished_def)
    ultimately show ?case using I(3,4)
      by (intro exI [of _ "sched @ replicate ?n (?i, False)"] exI [of _ "us' @ [([], pc)]"] exI [of _ h'']) simp
  qed
  from this [of ts "[]"] show ?thesis by simp blast
qed

lemma hist_merge: "latency_histogram_merge fails (hist_of xs) (hist_of ys) = hist_of (xs @ ys)"
  by (auto simp: latency_histogram_merge_def hist_of_def kLatencyHistogramBuckets_def cas_max
      fold_max [of ys "fold max xs 0"])

section \<open>Percentile estimates\<close>

fun pick :: "u64 \<Rightarrow> (u64 \<times> u64) list \<Rightarrow> u64 \<Rightarrow> u64 option \<Rightarrow> u64 option" where
  "pick t [] running have = have"
| "pick t ((c, bound) # rest) running have = pick t rest (running + c) (pct_update t (running + c) bound have)"

lemma pct_loop_pick:
  "pct_loop t50 t99 t999 L running (h50, h99, h999) =
     (pick t50 L running h50, pick t99 L running h99, pick t999 L running h999)"
  by (induction L arbitrary: running h50 h99 h999) (auto simp: Let_def)

lemma pick_some [simp]: "pick t L running (Some v) = Some v"
  by (induction L arbitrary: running) (auto simp: pct_update_def)

text \<open>The number of samples in the first \<open>i\<close> buckets.\<close>

definition below :: "u64 list \<Rightarrow> nat \<Rightarrow> nat" where
  "below xs i = length (filter (\<lambda>x. latency_bucket_index x < i) xs)"

lemma below_Suc: "below xs (Suc i) = below xs i + count_list (map latency_bucket_index xs) i"
  unfolding below_def by (induction xs) (auto simp: less_Suc_eq)

lemma below_le: "below xs i \<le> length xs"
  by (simp add: below_def)

lemma pick_bucket:
  assumes reach: "\<And>j. j < 48 \<Longrightarrow> k \<le> below xs (Suc j) \<longleftrightarrow> b \<le> j"
    and small: "length xs < 2 ^ 64" "k < 2 ^ 64" and "i \<le> b" "i \<le> 48"
  shows "pick (of_nat k) (drop i (zip (lh_buckets (hist_of xs)) (tl kLatencyBucketBounds))) (of_nat (below xs i)) None =
    (if b < 48 then Some (kLatencyBucketBounds ! Suc b) else None)"
  using assms(4,5)
proof (induction "48 - i" arbitrary: i)
  case 0
  then show ?case using length_bounds by (simp add: hist_of_def)
next
  case (Suc n)
  let ?Z = "zip (lh_buckets (hist_of xs)) (tl kLatencyBucketBounds)"
  have i: "i < 48" using Suc.hyps(2) by simp
  have "drop i ?Z = ?Z ! i # drop (Suc i) ?Z"
    using i length_bounds by (intro Cons_nth_drop_Suc [symmetric]) (simp add: hist_of_def)
  also have "?Z ! i = (of_nat (count_list (map latency_bucket_index xs) i), kLatencyBucketBounds ! Suc i)"
    using i length_bounds by (simp add: hist_of_def nth_tl)
  finally have step: "pick (of_nat k) (drop i ?Z) (of_nat (below xs i)) None =
      pick (of_nat k) (drop (Suc i) ?Z) (of_nat (below xs (Suc i)))
        (pct_update (of_nat k) (of_nat (below xs (Suc i))) (kLatencyBucketBounds ! Suc i) None)"
    by (simp add: below_Suc)
  have "below xs (Suc i) < 2 ^ 64" using below_le [of xs "Suc i"] small(1) by simp
  then have cmp: "of_nat k \<le> (of_nat (below xs (Suc i)) :: u64) \<longleftrightarrow> b \<le> i"
    using small(2) reach [OF i] unat_of_nat_id [of k, where 'a = 64] unat_of_nat_id [of "below xs (Suc i)", where 'a = 64]
    by (simp add: word_le_nat_alt)
  show ?case
  proof (cases "b = i")
    case True
    then show ?thesis using step cmp i by (simp add: pct_update_def)
  next
    case False
    then have "\<not> b \<le> i" "Suc i \<le> b" using Suc.prems by simp_all
    then show ?thesis using step cmp Suc.hyps(1) [of "Suc i"] Suc.hyps(2) i by (simp add: pct_update_def)
  qed
qed

lemma sorted_filter_rank:
  assumes "sorted ys" "m < length ys"
  shows "m < length (filter (\<lambda>y. y < B) ys) \<longleftrightarrow> ys ! m < (B :: 'a :: linorder)"
  using assms
proof (induction ys arbitrary: m)
  case (Cons y ys)
  show ?case
  proof (cases "y < B")
    case True
    then show ?thesis using Cons.IH [of "m - 1"] Cons.prems by (cases m) auto
  next
    case False
    then have "filter (\<lambda>y. y < B) (y # ys) = []" "B \<le> (y # ys) ! m"
      using Cons.prems nth_mem [of m "y # ys"] by (auto simp: filter_empty_conv not_less intro: order_trans)
    then show ?thesis by (simp add: not_less)
  qed
qed simp

text \<open>The exact order statistic and the estimate the histogram gives for it.\<close>

definition ranked :: "u64 list \<Rightarrow> nat \<Rightarrow> u64" where
  "ranked xs k = sort xs ! (k - 1)"

fun bit_length :: "nat \<Rightarrow> nat" where
  "bit_length n = (if n = 0 then 0 else Suc (bit_length (n div 2)))"

declare bit_length.simps [simp del]

lemma bit_length_le: "bit_length n \<le> k \<longleftrightarrow> n < 2 ^ k"
proof (induction n arbitrary: k rule: bit_length.induct)
  case (1 n)
  show ?case
  proof (cases k)
    case 0
    then show ?thesis by (subst bit_length.simps) simp
  next
    case (Suc j)
    have "n div 2 < 2 ^ j \<longleftrightarrow> n < 2 ^ Suc j" by (simp add: div_less_iff_less_mult mult.commute)
    then show ?thesis using 1 [of j] Suc by (subst bit_length.simps) simp
  qed
qed

definition estimate :: "u64 list \<Rightarrow> nat \<Rightarrow> u64" where
  "estimate xs k = (if ranked xs k < 2 ^ 54 then 2 ^ max 7 (bit_length (unat (ranked xs k))) else fold max xs 0)"

definition percentile_summary :: "u64 list \<Rightarrow> latency_percentiles" where
  "percentile_summary xs =
     \<lparr>lp_p50 = estimate xs ((length xs * 50 + 99) div 100), lp_p99 = estimate xs ((length xs * 99 + 99) div 100),
      lp_p999 = estimate xs ((length xs * 999 + 999) div 1000), lp_max_ns = fold max xs 0, lp_count = of_nat (length xs)\<rparr>"

text \<open>The bound of the bucket of a sample is the least power of two above it, but at least 128.\<close>

lemma bucket_bound:
  assumes "x < 2 ^ 54"
  shows "kLatencyBucketBounds ! Suc (latency_bucket_index x) = 2 ^ max 7 (bit_length (unat x))"
proof -
  let ?b = "latency_bucket_index x"
  have b: "?b < 48" using assms bucket_overflow [of x] bucket_index_le [of x] by (simp add: not_le [symmetric] less_le)
  have "unat x < 2 ^ (?b + 7)" using bucket_le_iff [OF b, of x] bounds_nth(2) [OF b] by (simp add: word_less_nat_alt)
  then have up: "bit_length (unat x) \<le> ?b + 7" by (simp only: bit_length_le)
  have "max 7 (bit_length (unat x)) = ?b + 7"
  proof (cases ?b)
    case 0
    then show ?thesis using up by simp
  next
    case (Suc c)
    then have "\<not> x < kLatencyBucketBounds ! Suc c" using bucket_le_iff [of c x] b by simp
    then have "2 ^ (c + 7) \<le> unat x" using bounds_nth(2) [of c] b Suc by (simp add: not_less word_le_nat_alt)
    then have "\<not> bit_length (unat x) \<le> c + 7" by (simp only: bit_length_le not_less)
    then show ?thesis using up Suc by simp
  qed
  then show ?thesis using bounds_nth(1) [OF b] by simp
qed

lemma rank_below:
  assumes "0 < k" "k \<le> length xs" "j < 48"
  shows "k \<le> below xs (Suc j) \<longleftrightarrow> latency_bucket_index (ranked xs k) \<le> j"
proof -
  have "below xs (Suc j) = length (filter (\<lambda>x. x < kLatencyBucketBounds ! Suc j) xs)"
    unfolding below_def using bucket_le_iff [OF assms(3)] by (simp add: less_Suc_eq_le)
  also have "\<dots> = length (filter (\<lambda>x. x < kLatencyBucketBounds ! Suc j) (sort xs))"
    by (metis length_sort sort_key_simps filter_sort)
  finally have "k \<le> below xs (Suc j) \<longleftrightarrow> k - 1 < length (filter (\<lambda>x. x < kLatencyBucketBounds ! Suc j) (sort xs))"
    using assms(1) by linarith
  also have "\<dots> \<longleftrightarrow> ranked xs k < kLatencyBucketBounds ! Suc j"
    unfolding ranked_def using assms by (intro sorted_filter_rank) auto
  finally show ?thesis using bucket_le_iff [OF assms(3)] by simp
qed

lemma pick_estimate:
  assumes "0 < k" "k \<le> length xs" "length xs < 2 ^ 64"
  shows "(case pick (of_nat k) (zip (lh_buckets (hist_of xs)) (tl kLatencyBucketBounds)) 0 None of
      None \<Rightarrow> fold max xs 0 | Some b \<Rightarrow> b) = estimate xs k"
proof -
  let ?b = "latency_bucket_index (ranked xs k)"
  have "pick (of_nat k) (drop 0 (zip (lh_buckets (hist_of xs)) (tl kLatencyBucketBounds))) (of_nat (below xs 0)) None =
      (if ?b < 48 then Some (kLatencyBucketBounds ! Suc ?b) else None)"
    using rank_below [OF assms(1,2)] assms by (intro pick_bucket) auto
  moreover have "?b < 48 \<longleftrightarrow> ranked xs k < 2 ^ 54"
    using bucket_overflow [of "ranked xs k"] bucket_index_le [of "ranked xs k"] by (simp add: not_le [symmetric] less_le)
  ultimately show ?thesis by (simp add: estimate_def below_def bucket_bound)
qed

lemma target_word:
  assumes "n * p + (q - 1) < 2 ^ 64" "0 < q" "q < 2 ^ 64"
  shows "(of_nat n * of_nat p + of_nat (q - 1)) div of_nat q = (of_nat ((n * p + (q - 1)) div q) :: u64)"
proof -
  have "(of_nat n * of_nat p + of_nat (q - 1) :: u64) = of_nat (n * p + (q - 1))" by simp
  then have "unat ((of_nat n * of_nat p + of_nat (q - 1)) div of_nat q :: u64) = (n * p + (q - 1)) div q"
    using assms unat_of_nat_id [of "n * p + (q - 1)", where 'a = 64] unat_of_nat_id [of q, where 'a = 64]
    by (simp only: unat_div) simp
  then show ?thesis by (metis of_nat_unat ucast_id unsigned_of_nat word_unat_eq_iff)
qed

lemma histogram_estimates:
  assumes "xs \<noteq> []" "length xs * 999 + 999 < 2 ^ 64"
  defines "n \<equiv> length xs"
  shows "latency_histogram_percentiles (hist_of xs) = percentile_summary xs"
proof -
  have n: "0 < n" "n < 2 ^ 64" "n * 999 + 999 < 2 ^ 64" using assms by auto
  have nz: "(of_nat n :: u64) \<noteq> 0" using unat_of_nat_id [of n, where 'a = 64] n by auto
  have t: "(of_nat n * 50 + 99) div 100 = (of_nat ((n * 50 + 99) div 100) :: u64)"
    "(of_nat n * 99 + 99) div 100 = (of_nat ((n * 99 + 99) div 100) :: u64)"
    "(of_nat n * 999 + 999) div 1000 = (of_nat ((n * 999 + 999) div 1000) :: u64)"
    using target_word [of n 50 100] target_word [of n 99 100] target_word [of n 999 1000] n(3) by simp_all
  have k: "0 < (n * 50 + 99) div 100" "(n * 50 + 99) div 100 \<le> n" "0 < (n * 99 + 99) div 100"
    "(n * 99 + 99) div 100 \<le> n" "0 < (n * 999 + 999) div 1000" "(n * 999 + 999) div 1000 \<le> n"
    using n(1) by (auto simp: div_greater_zero_iff)
  have v: "lh_max_ns (hist_of xs) = fold max xs 0" "lh_count (hist_of xs) = of_nat n" by (simp_all add: hist_of_def n_def)
  note P = pick_estimate [of _ xs, folded n_def, OF _ _ n(2)]
  show ?thesis
    unfolding latency_histogram_percentiles_def Let_def v t pct_loop_pick
    using nz P [OF k(1,2)] P [OF k(3,4)] P [OF k(5,6)] by (simp add: percentile_summary_def n_def)
qed

text \<open>The estimate is above the exact value and at most twice it.\<close>

lemma estimate_close:
  assumes "ranked xs k < 2 ^ 54"
  shows "ranked xs k < estimate xs k" "128 \<le> ranked xs k \<Longrightarrow> unat (estimate xs k) \<le> 2 * unat (ranked xs k)"
proof -
  let ?x = "ranked xs k" and ?b = "latency_bucket_index (ranked xs k)"
  have b: "?b < 48" using assms bucket_overflow [of ?x] bucket_index_le [of ?x] by (simp add: not_le [symmetric] less_le)
  have e: "estimate xs k = kLatencyBucketBounds ! Suc ?b" using assms by (simp add: estimate_def bucket_bound)
  show "?x < estimate xs k" using bucket_le_iff [OF b, of ?x] e by simp
  assume "128 \<le> ?x"
  then have "?b \<noteq> 0" using bucket_le_iff [of 0 ?x] bounds_nth(1) [of 0] by (auto simp: not_less)
  then obtain c where c: "?b = Suc c" by (cases ?b) auto
  then have "\<not> ?x < kLatencyBucketBounds ! Suc c" using bucket_le_iff [of c ?x] b by simp
  then have "2 ^ (c + 7) \<le> unat ?x" using bounds_nth(2) [of c] b c by (simp add: not_less word_le_nat_alt)
  then show "unat (estimate xs k) \<le> 2 * unat ?x" using bounds_nth(2) [OF b] c e by (simp add: power_add)
qed

section \<open>The sampler keeps the first samples and counts the rest\<close>

lemma sampler_records:
  "fold ls_record xs (LatencySampler cap) =
     \<lparr>ls_samples = take cap xs, ls_capacity = cap, ls_dropped = length xs - cap\<rparr>"
proof (induction xs rule: rev_induct)
  case (snoc x xs)
  then show ?case by (auto simp: ls_record_def take_Suc_conv_app_nth not_less)
qed (simp add: LatencySampler_def)

lemma sampler_summary:
  assumes "xs \<noteq> []" "0 < cap" and pct: "\<And>p n. 0 < n \<Longrightarrow> pct p n < n" "\<And>p q n. p \<le> q \<Longrightarrow> pct p n \<le> pct q n"
  defines "s \<equiv> summarize pct (fold ls_record xs (LatencySampler cap))"
  shows "sm_count s + sm_dropped s = length xs \<and> sm_min s \<le> sm_p50 s \<and> sm_p50 s \<le> sm_p90 s \<and> sm_p90 s \<le> sm_p99 s \<and>
    sm_p99 s \<le> sm_p999 s \<and> sm_p999 s \<le> sm_max s \<and> {sm_min s, sm_p50 s, sm_p90 s, sm_p99 s, sm_p999 s, sm_max s} \<subseteq> set (take cap xs)"
proof -
  let ?v = "sort (take cap xs)"
  have ne: "take cap xs \<noteq> []" using assms(1,2) by auto
  then have "0 < length ?v" by (simp only: length_sort length_greater_0_conv not_False_eq_True)
  with ne have ne: "take cap xs \<noteq> []" "?v \<noteq> []" by (simp_all only: length_greater_0_conv not_False_eq_True)
  have s: "s = \<lparr>sm_count = length (take cap xs), sm_dropped = length xs - cap, sm_min = hd ?v,
      sm_p50 = ?v ! pct 500 (length ?v), sm_p90 = ?v ! pct 900 (length ?v), sm_p99 = ?v ! pct 990 (length ?v),
      sm_p999 = ?v ! pct 999 (length ?v), sm_max = last ?v\<rparr>"
    unfolding s_def sampler_records summarize_def Let_def using ne by simp
  have lt: "pct p (length ?v) < length ?v" for p by (rule pct(1)) (use ne(2) in \<open>simp only: length_greater_0_conv not_False_eq_True\<close>)
  have mono: "?v ! i \<le> ?v ! j" if "i \<le> j" "j < length ?v" for i j using that by (intro sorted_nth_mono) simp_all
  have mem: "?v ! pct p (length ?v) \<in> set (take cap xs)" for p using nth_mem [OF lt [of p]] by (metis set_sort)
  have ends: "hd ?v = ?v ! 0" "last ?v = ?v ! (length ?v - 1)" using ne by (simp_all add: hd_conv_nth last_conv_nth)
  have set_ends: "hd ?v \<in> set (take cap xs)" "last ?v \<in> set (take cap xs)" using ne by (metis hd_in_set set_sort, metis last_in_set set_sort)
  have up: "pct 999 (length ?v) \<le> length ?v - 1" using lt [of 999] by linarith
  have top: "?v ! pct 999 (length ?v) \<le> last ?v"
    unfolding ends by (rule mono [OF up]) (use lt [of 999] in linarith)
  show ?thesis
    unfolding s using mono [of 0] mono [OF pct(2) lt] top lt mem set_ends ne by (auto simp: ends)
qed

end
