(* ===== verification/Exchange.thy ===== *)
theory Exchange
  imports Market_Data Ouch Soupbin Latency "HOL-Library.Monad_Syntax"
begin

unbundle bit_operations_syntax

text \<open>
  The exchange process (\<open>src/exchange.cpp\<close>): sessions, the engine listener that turns engine events
  into ITCH and OUCH messages, order entry, cancel-on-disconnect, the snapshot service, synthetic
  order flow, housekeeping and the event loop.

  The operating system is a parameter: \<open>os_env\<close> holds what the clocks and \<open>sendto\<close> answer, call by
  call (\<open>x_tick\<close> counts the calls); what \<open>recv\<close> and \<open>send\<close> answer on a session are lists, whose end
  stands for EAGAIN. The iteration order of \<open>sessions_\<close> is a list of its keys, and the number of
  synthetic events owed (double arithmetic in the source) is a parameter. \<open>x_wire\<close> collects the
  datagrams handed to the kernel. Log output is left out. The result \<open>None\<close> means that the matching
  loop ran out of fuel, which \<open>Exchange_Inv\<close> excludes.
\<close>

section \<open>Data\<close>

definition kSessionTimeoutNs :: u64 where
  "kSessionTimeoutNs = 15000000000"

definition kStatsEveryNs :: u64 where
  "kStatsEveryNs = 5000000000"

definition kMaxSyntheticLive :: nat where
  "kMaxSyntheticLive = 400"

definition kMaxSessionOrders :: nat where
  "kMaxSessionOrders = 16384"

record os_env =
  os_mono :: "nat \<Rightarrow> u64"
  os_real :: "nat \<Rightarrow> u64"
  os_sendto :: "nat \<Rightarrow> int"

datatype send_result = Sent nat | SendAgain | SendIntr | SendErr

datatype recv_result = Got bytes | RecvEof | RecvIntr | RecvAgain | RecvErr

definition xs_next :: "u64 \<Rightarrow> u64" where
  "xs_next s =
     (let s = s XOR push_bit 13 s;
          s = s XOR drop_bit 7 s
      in s XOR push_bit 17 s)"

definition Xorshift64 :: "u64 \<Rightarrow> u64" where
  "Xorshift64 seed = (if seed \<noteq> 0 then seed else 0x9E3779B97F4A7C15)"

record order_handle =
  oh_locate :: u16
  oh_id :: order_id

datatype session_kind = OrderEntry | Snapshot

record session =
  s_id :: u32
  s_kind :: session_kind
  s_user :: bytes
  s_reader :: frame_reader
  s_out :: bytes
  s_out_off :: nat
  s_logged_in :: bool
  s_close_after_flush :: bool
  s_dead :: bool
  s_want_write :: bool
  s_dirty :: bool
  s_last_user_ref :: u32
  s_out_seq :: u64
  s_last_rx_ns :: u64
  s_last_tx_ns :: u64
  s_orders_in :: u64
  s_orders :: "order_handle flat_map"

definition Session :: "u32 \<Rightarrow> session_kind \<Rightarrow> session" where
  "Session sid kind =
     \<lparr>s_id = sid, s_kind = kind, s_user = [], s_reader = FrameReader, s_out = [], s_out_off = 0, s_logged_in = False,
      s_close_after_flush = False, s_dead = False, s_want_write = False, s_dirty = False, s_last_user_ref = 0,
      s_out_seq = 0, s_last_rx_ns = 0, s_last_tx_ns = 0, s_orders_in = 0,
      s_orders = FlatIdMap \<lparr>oh_locate = 0, oh_id = 0\<rparr> (if kind = OrderEntry then kMaxSessionOrders else 1)\<rparr>"

definition reject_code :: "reject_reason \<Rightarrow> u8" where
  "reject_code r =
     (case r of RejBadPrice \<Rightarrow> kRejectInvalidPrice | RejBadQty \<Rightarrow> kRejectInvalidQty
      | RejUnknownSymbol \<Rightarrow> kRejectInvalidSymbol | _ \<Rightarrow> kRejectOther)"

definition cancel_code :: "cancel_reason \<Rightarrow> u8" where
  "cancel_code r =
     (case r of UserRequested \<Rightarrow> kCancelUserRequested | ImmediateOrCancel \<Rightarrow> kCancelImmediate
      | SelfMatch \<Rightarrow> kCancelSelfMatch | Supervisory \<Rightarrow> kCancelSupervisory)"

record synth =
  sy_fair :: price
  sy_live :: "order_id list"

record exchange =
  x_quiet :: bool
  x_engine :: matching_engine
  x_md :: market_data_feed
  x_rng :: u64
  x_sessions :: "u32 \<rightharpoonup> session"
  x_dirty :: "u32 list"
  x_synth :: "synth list"
  x_pending_clordid :: clordid
  x_next_session_id :: u32
  x_next_order_id :: order_id
  x_gateway_latency :: latency_sampler
  x_client_orders :: u64
  x_trades :: u64
  x_shares_traded :: u64
  x_cancels :: u64
  x_rejects :: u64
  x_late_cancels :: u64
  x_bad_messages :: u64
  x_snapshots :: u64
  x_start_ns :: u64
  x_last_stats_ns :: u64
  x_deadline_ns :: u64
  x_stop :: bool
  x_tick :: nat
  x_wire :: "bytes list"

section \<open>Clocks, feed and session access\<close>

definition x_now :: "os_env \<Rightarrow> exchange \<Rightarrow> u64 \<times> exchange" where
  "x_now E x = (os_mono E (x_tick x), x\<lparr>x_tick := Suc (x_tick x)\<rparr>)"

definition mid_now :: "os_env \<Rightarrow> exchange \<Rightarrow> u64 \<times> exchange" where
  "mid_now E x = (ns_since_midnight (os_real E (x_tick x)), x\<lparr>x_tick := Suc (x_tick x)\<rparr>)"

definition x_publish :: "os_env \<Rightarrow> itch_message \<Rightarrow> exchange \<Rightarrow> exchange" where
  "x_publish E m x =
     (let (out, md) = publish (os_sendto E (x_tick x)) (os_mono E (x_tick x)) m (x_md x)
      in x\<lparr>x_md := md, x_wire := x_wire x @ out, x_tick := Suc (x_tick x)\<rparr>)"

definition x_flush :: "os_env \<Rightarrow> exchange \<Rightarrow> exchange" where
  "x_flush E x =
     (let (out, md) = md_flush (os_sendto E (x_tick x)) (os_mono E (x_tick x)) (x_md x)
      in x\<lparr>x_md := md, x_wire := x_wire x @ out, x_tick := Suc (x_tick x)\<rparr>)"

definition x_heartbeat :: "os_env \<Rightarrow> u64 \<Rightarrow> exchange \<Rightarrow> exchange" where
  "x_heartbeat E now x =
     (let (out, md) = heartbeat_if_idle (os_sendto E (x_tick x)) (os_mono E (x_tick x)) now (x_md x)
      in x\<lparr>x_md := md, x_wire := x_wire x @ out, x_tick := Suc (x_tick x)\<rparr>)"

definition session_for :: "u32 \<Rightarrow> exchange \<Rightarrow> session option" where
  "session_for owner x = (if owner = 0 then None else x_sessions x owner)"

definition upd_session :: "u32 \<Rightarrow> (session \<Rightarrow> session) \<Rightarrow> exchange \<Rightarrow> exchange" where
  "upd_session sid f x = x\<lparr>x_sessions := (x_sessions x)(sid := map_option f (x_sessions x sid))\<rparr>"

definition symbol_of :: "u16 \<Rightarrow> exchange \<Rightarrow> symbol" where
  "symbol_of loc x = me_symbols (x_engine x) ! (unat loc - 1)"

section \<open>Output queueing\<close>

definition mark_dirty :: "u32 \<Rightarrow> exchange \<Rightarrow> exchange" where
  "mark_dirty sid x =
     (case x_sessions x sid of
        None \<Rightarrow> x
      | Some s \<Rightarrow> if s_dirty s then x
          else (upd_session sid (\<lambda>s. s\<lparr>s_dirty := True\<rparr>) x)\<lparr>x_dirty := x_dirty x @ [sid]\<rparr>)"

definition queue_frame :: "u32 \<Rightarrow> u8 \<Rightarrow> bytes \<Rightarrow> exchange \<Rightarrow> exchange" where
  "queue_frame sid type p x =
     mark_dirty sid (upd_session sid (\<lambda>s. s\<lparr>s_out := append_frame (s_out s) type p\<rparr>) x)"

definition queue_ouch :: "u32 \<Rightarrow> outbound \<Rightarrow> exchange \<Rightarrow> exchange" where
  "queue_ouch sid m x =
     (case encode_outbound m (replicate ouch_kMaxMessageLen 0) ouch_kMaxMessageLen of
        (buf, n) \<Rightarrow>
          if n > 0 then upd_session sid (\<lambda>s. s\<lparr>s_out_seq := s_out_seq s + 1\<rparr>) (queue_frame sid kSequencedData (take n buf) x)
          else x)"

definition send_reject :: "os_env \<Rightarrow> u32 \<Rightarrow> u32 \<Rightarrow> u8 \<Rightarrow> exchange \<Rightarrow> exchange" where
  "send_reject E sid user_ref reason x =
     (let (ts, x) = mid_now E x
      in queue_ouch sid (Rejected \<lparr>oj_timestamp = ts, oj_user_ref = user_ref, oj_reason = reason,
           oj_clordid = x_pending_clordid x\<rparr>) x)"

definition send_exec :: "u32 \<Rightarrow> u64 \<Rightarrow> u32 \<Rightarrow> fill \<Rightarrow> u8 \<Rightarrow> exchange \<Rightarrow> exchange" where
  "send_exec sid ts user_ref f liq x =
     queue_ouch sid (Executed \<lparr>ox_timestamp = ts, ox_user_ref = user_ref, ox_qty = fl_qty f, ox_price = fl_price f,
       ox_liquidity = liq, ox_match_number = fl_match_number f\<rparr>) x"

definition send_canceled :: "u32 \<Rightarrow> u64 \<Rightarrow> u32 \<Rightarrow> qty \<Rightarrow> u8 \<Rightarrow> exchange \<Rightarrow> exchange" where
  "send_canceled sid ts user_ref q reason x =
     queue_ouch sid (Canceled \<lparr>ocx_timestamp = ts, ocx_user_ref = user_ref, ocx_qty = q, ocx_reason = reason\<rparr>) x"

definition erase_order :: "u32 \<Rightarrow> u32 \<Rightarrow> exchange \<Rightarrow> exchange" where
  "erase_order sid user_ref x = upd_session sid (\<lambda>s. s\<lparr>s_orders := snd (fm_erase (ucast user_ref) (s_orders s))\<rparr>) x"

section \<open>Engine listener\<close>

definition x_on_accepted :: "os_env \<Rightarrow> u16 \<Rightarrow> order_request \<Rightarrow> exchange \<Rightarrow> exchange" where
  "x_on_accepted E loc req x =
     (case session_for (rq_owner req) x of
        None \<Rightarrow> x
      | Some s \<Rightarrow>
          let (ts, x) = mid_now E x
          in queue_ouch (rq_owner req) (Accepted \<lparr>oa_timestamp = ts, oa_user_ref = rq_user_ref req, oa_side = rq_side req,
               oa_qty = rq_qty req, oa_symbol = symbol_of loc x, oa_price = rq_price req, oa_tif = rq_tif req,
               oa_order_ref = rq_id req, oa_clordid = x_pending_clordid x, oa_state = chr (CHR ''L'')\<rparr>) x)"

definition x_on_rejected :: "os_env \<Rightarrow> order_request \<Rightarrow> reject_reason \<Rightarrow> exchange \<Rightarrow> exchange" where
  "x_on_rejected E req why x =
     (let x = x\<lparr>x_rejects := x_rejects x + 1\<rparr>
      in case session_for (rq_owner req) x of
           None \<Rightarrow> x
         | Some s \<Rightarrow> send_reject E (rq_owner req) (rq_user_ref req) (reject_code why) x)"

definition x_on_fill :: "os_env \<Rightarrow> u16 \<Rightarrow> fill \<Rightarrow> exchange \<Rightarrow> exchange" where
  "x_on_fill E loc f x =
     (let x = x\<lparr>x_trades := x_trades x + 1, x_shares_traded := x_shares_traded x + ucast (fl_qty f)\<rparr>;
          (ts, x) = mid_now E x;
          x = x_publish E (exec_msg loc ts f) x;
          x = (case session_for (fl_maker_owner f) x of
                 None \<Rightarrow> x
               | Some s \<Rightarrow>
                   let x = send_exec (fl_maker_owner f) ts (fl_maker_user_ref f) f kAddedLiquidity x
                   in if fl_maker_remaining f = 0 then erase_order (fl_maker_owner f) (fl_maker_user_ref f) x else x)
      in case session_for (fl_taker_owner f) x of
           None \<Rightarrow> x
         | Some s \<Rightarrow> send_exec (fl_taker_owner f) ts (fl_taker_user_ref f) f kRemovedLiquidity x)"

definition x_on_rested :: "os_env \<Rightarrow> u16 \<Rightarrow> resting \<Rightarrow> exchange \<Rightarrow> exchange" where
  "x_on_rested E loc r x =
     (let (ts, x) = mid_now E x in x_publish E (add_msg loc ts (symbol_of loc x) r) x)"

definition x_on_resting_cancelled ::
    "os_env \<Rightarrow> u16 \<Rightarrow> resting \<Rightarrow> qty \<Rightarrow> cancel_reason \<Rightarrow> exchange \<Rightarrow> exchange" where
  "x_on_resting_cancelled E loc before cancelled why x =
     (let x = x\<lparr>x_cancels := x_cancels x + 1\<rparr>;
          (ts, x) = mid_now E x;
          gone = (cancelled = ro_qty before);
          x = x_publish E (cancel_msg loc ts before cancelled) x
      in case session_for (ro_owner before) x of
           None \<Rightarrow> x
         | Some s \<Rightarrow>
             let x = send_canceled (ro_owner before) ts (ro_user_ref before) cancelled (cancel_code why) x
             in if gone then erase_order (ro_owner before) (ro_user_ref before) x else x)"

definition x_on_taker_cancelled :: "os_env \<Rightarrow> order_request \<Rightarrow> qty \<Rightarrow> cancel_reason \<Rightarrow> exchange \<Rightarrow> exchange" where
  "x_on_taker_cancelled E req cancelled why x =
     (case session_for (rq_owner req) x of
        None \<Rightarrow> x
      | Some s \<Rightarrow>
          let (ts, x) = mid_now E x
          in send_canceled (rq_owner req) ts (rq_user_ref req) cancelled (cancel_code why) x)"

fun on_event :: "os_env \<Rightarrow> engine_event \<Rightarrow> exchange \<Rightarrow> exchange" where
  "on_event E (OnAccepted loc req) x = x_on_accepted E loc req x"
| "on_event E (OnRejected loc req why) x = x_on_rejected E req why x"
| "on_event E (OnFill loc f) x = x_on_fill E loc f x"
| "on_event E (OnRested loc r) x = x_on_rested E loc r x"
| "on_event E (OnRestingCancelled loc r q why) x = x_on_resting_cancelled E loc r q why x"
| "on_event E (OnTakerCancelled loc req q why) x = x_on_taker_cancelled E req q why x"

text \<open>The engine calls its listener synchronously; the callbacks do not touch the engine, so they run
  on the events in order with the engine already updated.\<close>

definition x_submit :: "os_env \<Rightarrow> u16 \<Rightarrow> order_request \<Rightarrow> exchange \<Rightarrow> exchange option" where
  "x_submit E loc req x =
     (case submit loc req (x_engine x) of
        None \<Rightarrow> None
      | Some (e, evs) \<Rightarrow> Some (fold (on_event E) evs (x\<lparr>x_engine := e\<rparr>)))"

definition x_cancel :: "os_env \<Rightarrow> u16 \<Rightarrow> order_id \<Rightarrow> qty \<Rightarrow> u32 \<Rightarrow> cancel_reason \<Rightarrow> exchange \<Rightarrow> exchange" where
  "x_cancel E loc k nq owner why x =
     (case cancel loc k nq owner why (x_engine x) of
        (res, e, evs) \<Rightarrow> fold (on_event E) evs (x\<lparr>x_engine := e\<rparr>))"

section \<open>Writing to and closing sessions\<close>

text \<open>The send loop on the queue of a session: bytes handed to the kernel, and the session.\<close>

fun flush_loop :: "send_result list \<Rightarrow> u64 \<Rightarrow> session \<Rightarrow> bytes \<times> session" where
  "flush_loop rs now s =
     (if s_out_off s < length (s_out s)
      then case rs of
             [] \<Rightarrow> ([], s\<lparr>s_want_write := True\<rparr>)
           | SendAgain # _ \<Rightarrow> ([], s\<lparr>s_want_write := True\<rparr>)
           | SendIntr # rs \<Rightarrow> flush_loop rs now s
           | SendErr # _ \<Rightarrow> ([], s\<lparr>s_dead := True\<rparr>)
           | Sent n # rs \<Rightarrow>
               if n > 0
               then (case flush_loop rs now (s\<lparr>s_out_off := s_out_off s + n\<rparr>) of
                       (bs, s') \<Rightarrow> (bslice (s_out s) (s_out_off s) n @ bs, s'))
               else ([], s\<lparr>s_dead := True\<rparr>)
      else let s = s\<lparr>s_out := [], s_out_off := 0, s_last_tx_ns := now, s_want_write := False\<rparr>
           in ([], if s_close_after_flush s then s\<lparr>s_dead := True\<rparr> else s))"

declare flush_loop.simps [simp del]

definition flush_session :: "os_env \<Rightarrow> send_result list \<Rightarrow> u32 \<Rightarrow> exchange \<Rightarrow> exchange" where
  "flush_session E rs sid x =
     (let (now, x) = x_now E x in upd_session sid (\<lambda>s. snd (flush_loop rs now s)) x)"

fun flush_all :: "os_env \<Rightarrow> (u32 \<Rightarrow> send_result list) \<Rightarrow> u32 list \<Rightarrow> exchange \<Rightarrow> exchange" where
  "flush_all E rs [] x = x"
| "flush_all E rs (sid # ids) x =
     flush_all E rs ids
       (case x_sessions x sid of
          None \<Rightarrow> x
        | Some _ \<Rightarrow> flush_session E (rs sid) sid (upd_session sid (\<lambda>s. s\<lparr>s_dirty := False\<rparr>) x))"

definition flush_dirty_sessions :: "os_env \<Rightarrow> (u32 \<Rightarrow> send_result list) \<Rightarrow> exchange \<Rightarrow> exchange" where
  "flush_dirty_sessions E rs x = (flush_all E rs (x_dirty x) x)\<lparr>x_dirty := []\<rparr>"

definition close_session :: "os_env \<Rightarrow> u32 \<Rightarrow> exchange \<Rightarrow> exchange" where
  "close_session E sid x =
     (case x_sessions x sid of
        None \<Rightarrow> x
      | Some s \<Rightarrow>
          let live = map snd (fm_entries (s_orders s));
              x = fold (\<lambda>h. x_cancel E (oh_locate h) (oh_id h) 0 (s_id s) Supervisory) live x
          in x\<lparr>x_sessions := (x_sessions x)(sid := None)\<rparr>)"

text \<open>\<open>ids\<close>: the keys of \<open>sessions_\<close> in iteration order.\<close>

definition reap_dead_sessions :: "os_env \<Rightarrow> u32 list \<Rightarrow> exchange \<Rightarrow> exchange" where
  "reap_dead_sessions E ids x =
     fold (close_session E) (filter (\<lambda>i. case x_sessions x i of None \<Rightarrow> False | Some s \<Rightarrow> s_dead s) ids) x"

section \<open>Input\<close>

text \<open>\<open>emplace\<close> leaves the map alone when the key is taken.\<close>

definition accept_one :: "os_env \<Rightarrow> session_kind \<Rightarrow> exchange \<Rightarrow> exchange" where
  "accept_one E kind x =
     (let sid = x_next_session_id x;
          x = x\<lparr>x_next_session_id := sid + 1\<rparr>;
          (now, x) = x_now E x
      in case x_sessions x sid of
           Some _ \<Rightarrow> x
         | None \<Rightarrow> x\<lparr>x_sessions := (x_sessions x)(sid := Some ((Session sid kind)\<lparr>s_last_rx_ns := now\<rparr>))\<rparr>)"

text \<open>\<open>n\<close> connections are pending.\<close>

definition accept_all :: "os_env \<Rightarrow> nat \<Rightarrow> session_kind \<Rightarrow> exchange \<Rightarrow> exchange" where
  "accept_all E n kind x = (accept_one E kind ^^ n) x"

definition handle_login :: "u32 \<Rightarrow> bytes \<Rightarrow> exchange \<Rightarrow> exchange" where
  "handle_login sid p x =
     (case x_sessions x sid of
        None \<Rightarrow> x
      | Some s \<Rightarrow>
     (case decode_login_request p of
        Some req \<Rightarrow>
          if s_logged_in s \<or> lr_username req = []
          then upd_session sid (\<lambda>s. s\<lparr>s_close_after_flush := True\<rparr>) (queue_frame sid kLoginRejected [chr (CHR ''A'')] x)
          else let x = upd_session sid (\<lambda>s. s\<lparr>s_logged_in := True, s_user := lr_username req\<rparr>) x;
                   (buf, len) = encode_login_accepted \<lparr>la_session = kSessionName, la_sequence = s_out_seq s + 1\<rparr>
                                  (replicate kLoginAcceptedLen 0) kLoginAcceptedLen
               in queue_frame sid kLoginAccepted (take len buf) x
      | None \<Rightarrow>
          upd_session sid (\<lambda>s. s\<lparr>s_close_after_flush := True\<rparr>) (queue_frame sid kLoginRejected [chr (CHR ''A'')] x)))"

definition handle_enter :: "os_env \<Rightarrow> u32 \<Rightarrow> enter_order \<Rightarrow> exchange \<Rightarrow> exchange option" where
  "handle_enter E sid m x =
     (case x_sessions x sid of
        None \<Rightarrow> Some x
      | Some s \<Rightarrow>
          let (t0, x) = x_now E x;
              x = upd_session sid (\<lambda>s. s\<lparr>s_orders_in := s_orders_in s + 1\<rparr>) x;
              x = x\<lparr>x_client_orders := x_client_orders x + 1, x_pending_clordid := eo_clordid m\<rparr>
          in if eo_user_ref m \<le> s_last_user_ref s
             then Some (send_reject E sid (eo_user_ref m) kRejectInvalidUserRef (x\<lparr>x_rejects := x_rejects x + 1\<rparr>))
             else let x = upd_session sid (\<lambda>s. s\<lparr>s_last_user_ref := eo_user_ref m\<rparr>) x;
                      loc = find_symbol (eo_symbol m) (x_engine x)
             in if loc = 0
             then Some (send_reject E sid (eo_user_ref m) kRejectInvalidSymbol (x\<lparr>x_rejects := x_rejects x + 1\<rparr>))
             else let oid = x_next_order_id x;
                      x = x\<lparr>x_next_order_id := oid + 1\<rparr>;
                      req = \<lparr>rq_id = oid, rq_side = eo_side m, rq_price = eo_price m, rq_qty = eo_qty m,
                             rq_tif = eo_tif m, rq_owner = s_id s, rq_user_ref = eo_user_ref m\<rparr>;
                      (ok, orders) = fm_insert (ucast (eo_user_ref m)) \<lparr>oh_locate = loc, oh_id = oid\<rparr> (s_orders s)
             in if \<not> ok
             then Some (send_reject E sid (eo_user_ref m) kRejectOther (x\<lparr>x_rejects := x_rejects x + 1\<rparr>))
             else do {
               x \<leftarrow> x_submit E loc req (upd_session sid (\<lambda>s. s\<lparr>s_orders := orders\<rparr>) x);
               let x = (if ob_find oid (book_at loc (x_engine x)) = None then erase_order sid (eo_user_ref m) x else x);
               let (t1, x) = x_now E x;
               Some (x\<lparr>x_gateway_latency := ls_record (t1 - t0) (x_gateway_latency x)\<rparr>)
             })"

definition handle_cancel :: "os_env \<Rightarrow> u32 \<Rightarrow> cancel_order \<Rightarrow> exchange \<Rightarrow> exchange" where
  "handle_cancel E sid m x =
     (case x_sessions x sid of
        None \<Rightarrow> x
      | Some s \<Rightarrow>
     (case fm_find (s_orders s) (ucast (co_user_ref m)) of
        None \<Rightarrow> x\<lparr>x_late_cancels := x_late_cancels x + 1\<rparr>
      | Some h \<Rightarrow> x_cancel E (oh_locate h) (oh_id h) (co_qty m) (s_id s) UserRequested x))"

text \<open>One frame carrying an ITCH message of the snapshot.\<close>

definition queue_itch :: "u32 \<Rightarrow> itch_message \<Rightarrow> exchange \<Rightarrow> exchange" where
  "queue_itch sid m x =
     (case itch_encode m (replicate itch_kMaxMessageLen 0) itch_kMaxMessageLen of
        (buf, n) \<Rightarrow> queue_frame sid kSequencedData (take n buf) x)"

definition directory_msg :: "u64 \<Rightarrow> exchange \<Rightarrow> u16 \<Rightarrow> itch_message" where
  "directory_msg ts x loc =
     StockDirectory \<lparr>sd_locate = loc, sd_timestamp = ts, sd_stock = symbol_of loc x, sd_round_lot_size = 100\<rparr>"

definition locates :: "exchange \<Rightarrow> u16 list" where
  "locates x = map of_nat [1..<Suc (length (me_books (x_engine x)))]"

definition send_snapshot :: "os_env \<Rightarrow> u32 \<Rightarrow> exchange \<Rightarrow> exchange" where
  "send_snapshot E sid x =
     (let x = x_flush E x;
          next_seq = md_next_seq (x_md x);
          (ts, x) = mid_now E x;
          x0 = x;
          x = fold (\<lambda>loc. queue_itch sid (directory_msg ts x0 loc)) (locates x0) x;
          x = fold (\<lambda>loc x. fold (queue_itch sid) (snapshot_msgs loc ts (symbol_of loc x0) (book_at loc (x_engine x0))) x)
                (locates x0) x;
          x = queue_itch sid (EndOfSnapshot \<lparr>eos_next_sequence = next_seq\<rparr>) x;
          x = queue_frame sid kEndOfSession [] x;
          x = upd_session sid (\<lambda>s. s\<lparr>s_close_after_flush := True\<rparr>) x
      in x\<lparr>x_snapshots := x_snapshots x + 1\<rparr>)"

definition kill_session :: "u32 \<Rightarrow> exchange \<Rightarrow> exchange" where
  "kill_session sid x = upd_session sid (\<lambda>s. s\<lparr>s_dead := True\<rparr>) x"

definition handle_frame :: "os_env \<Rightarrow> u32 \<Rightarrow> u8 \<Rightarrow> bytes \<Rightarrow> exchange \<Rightarrow> exchange option" where
  "handle_frame E sid type p x =
     (case x_sessions x sid of
        None \<Rightarrow> Some x
      | Some s \<Rightarrow>
          if s_kind s = Snapshot then Some (if type = kLoginRequest then send_snapshot E sid x else x)
          else if type = kLoginRequest then Some (handle_login sid p x)
          else if type = kUnsequencedData
          then if \<not> s_logged_in s then Some (kill_session sid x)
               else (case decode_inbound p of
                       None \<Rightarrow> Some (x\<lparr>x_bad_messages := x_bad_messages x + 1\<rparr>)
                     | Some (EnterOrder m) \<Rightarrow> handle_enter E sid m x
                     | Some (CancelOrder m) \<Rightarrow> Some (handle_cancel E sid m x))
          else if type = kClientHeartbeat then Some x
          else if type = kLogoutRequest
          then Some (upd_session sid (\<lambda>s. s\<lparr>s_close_after_flush := True\<rparr>) (queue_frame sid kEndOfSession [] x))
          else Some (x\<lparr>x_bad_messages := x_bad_messages x + 1\<rparr>))"

definition is_dead :: "u32 \<Rightarrow> exchange \<Rightarrow> bool" where
  "is_dead sid x \<longleftrightarrow> (case x_sessions x sid of None \<Rightarrow> True | Some s \<Rightarrow> s_dead s)"

definition set_reader :: "u32 \<Rightarrow> frame_reader \<Rightarrow> exchange \<Rightarrow> exchange" where
  "set_reader sid r x = upd_session sid (\<lambda>s. s\<lparr>s_reader := r\<rparr>) x"

text \<open>The inner loop: handle every complete frame. The flag says to go on reading. The handlers do
  not touch the reader, which the loop carries along and stores back.\<close>

function read_frames :: "os_env \<Rightarrow> u32 \<Rightarrow> frame_reader \<Rightarrow> exchange \<Rightarrow> (bool \<times> exchange) option" where
  "read_frames E sid r x =
     (case fr_next r of
        (Frame t p, r') \<Rightarrow>
          (case handle_frame E sid t p (set_reader sid r' x) of
             None \<Rightarrow> None
           | Some x' \<Rightarrow> if is_dead sid x' then Some (False, x') else read_frames E sid r' x')
      | (NeedMore, r') \<Rightarrow> Some (True, set_reader sid r' x)
      | (Error, r') \<Rightarrow> Some (False, kill_session sid (set_reader sid r' x)))"
  by pat_completeness auto
termination
  by (relation "measure (\<lambda>(E, sid, r, x). fr_buffered r)") (auto dest: fr_next_measure sym)

declare read_frames.simps [simp del]

fun read_session :: "os_env \<Rightarrow> u32 \<Rightarrow> recv_result list \<Rightarrow> exchange \<Rightarrow> exchange option" where
  "read_session E sid rs x =
     (case x_sessions x sid of
        None \<Rightarrow> Some x
      | Some s \<Rightarrow>
          let r = fr_write_ptr (s_reader s); x = set_reader sid r x
          in if fr_write_space r = 0 then Some (kill_session sid x)
             else case rs of
                    [] \<Rightarrow> Some x
                  | RecvAgain # _ \<Rightarrow> Some x
                  | RecvIntr # rs \<Rightarrow> read_session E sid rs x
                  | RecvEof # _ \<Rightarrow> Some (kill_session sid x)
                  | RecvErr # _ \<Rightarrow> Some (kill_session sid x)
                  | Got c # rs \<Rightarrow>
                      let r = fr_commit (length c) (r\<lparr>fr_buf := blit (fr_buf r) (fr_wr r) c\<rparr>);
                          (now, x) = x_now E x;
                          x = upd_session sid (\<lambda>s. s\<lparr>s_reader := r, s_last_rx_ns := now\<rparr>) x
                      in do {
                        (more, x) \<leftarrow> read_frames E sid r x;
                        if more then read_session E sid rs x else Some x
                      })"

declare read_session.simps [simp del]

definition on_session_event :: "os_env \<Rightarrow> bool \<Rightarrow> bool \<Rightarrow> bool \<Rightarrow> recv_result list \<Rightarrow> send_result list \<Rightarrow> u32 \<Rightarrow>
    exchange \<Rightarrow> exchange option" where
  "on_session_event E inp outp err rs ss sid x =
     (case x_sessions x sid of
        None \<Rightarrow> Some x
      | Some _ \<Rightarrow> do {
          x \<leftarrow> (if inp then read_session E sid rs x else Some x);
          let x = (if outp \<and> \<not> is_dead sid x then flush_session E ss sid x else x);
          Some (if err then kill_session sid x else x)
        })"

section \<open>Synthetic order flow\<close>

definition rng_next :: "exchange \<Rightarrow> u64 \<times> exchange" where
  "rng_next x = (xs_next (x_rng x), x\<lparr>x_rng := xs_next (x_rng x)\<rparr>)"

definition rng_below :: "u64 \<Rightarrow> exchange \<Rightarrow> u64 \<times> exchange" where
  "rng_below n x = (let (v, x) = rng_next x in (v mod n, x))"

definition rng_coin :: "exchange \<Rightarrow> bool \<times> exchange" where
  "rng_coin x = (let (v, x) = rng_next x in (v AND 1 \<noteq> 0, x))"

definition upd_synth :: "u16 \<Rightarrow> (synth \<Rightarrow> synth) \<Rightarrow> exchange \<Rightarrow> exchange" where
  "upd_synth loc f x = x\<lparr>x_synth := (x_synth x)[unat loc - 1 := f (x_synth x ! (unat loc - 1))]\<rparr>"

definition synth_at :: "u16 \<Rightarrow> exchange \<Rightarrow> synth" where
  "synth_at loc x = x_synth x ! (unat loc - 1)"

text \<open>The random walk of the fair price, kept 50 ticks away from the edges of the band.\<close>

definition walk_fair :: "u16 \<Rightarrow> exchange \<Rightarrow> exchange" where
  "walk_fair loc x =
     (let bc = ob_cfg (book_at loc (x_engine x)); tick = bc_tick_size bc;
          (v, x) = rng_below 100 x
      in if v < 6
         then let (c, x) = rng_coin x;
                  fair = sy_fair (synth_at loc x) + (if c then tick else - tick);
                  fair = (if fair < bc_min_price bc + 50 * tick then bc_min_price bc + 50 * tick else fair);
                  fair = (if fair > bc_max_price bc - 50 * tick then bc_max_price bc - 50 * tick else fair)
              in upd_synth loc (\<lambda>st. st\<lparr>sy_fair := fair\<rparr>) x
         else x)"

definition synth_submit :: "os_env \<Rightarrow> u16 \<Rightarrow> side \<Rightarrow> price \<Rightarrow> qty \<Rightarrow> time_in_force \<Rightarrow> exchange \<Rightarrow> (order_id \<times> exchange) option"
where
  "synth_submit E loc sd p q tif x =
     (let oid = x_next_order_id x
      in map_option (Pair oid)
           (x_submit E loc \<lparr>rq_id = oid, rq_side = sd, rq_price = p, rq_qty = q, rq_tif = tif, rq_owner = 0, rq_user_ref = 0\<rparr>
              (x\<lparr>x_next_order_id := oid + 1\<rparr>)))"

definition swap_pop :: "nat \<Rightarrow> 'a list \<Rightarrow> 'a list" where
  "swap_pop i xs = butlast (xs[i := last xs])"

definition synth_step :: "os_env \<Rightarrow> u16 \<Rightarrow> exchange \<Rightarrow> exchange option" where
  "synth_step E loc x =
     (let x = walk_fair loc x;
          tick = bc_tick_size (ob_cfg (book_at loc (x_engine x)));
          (u, x) = rng_below 100 x;
          st = synth_at loc x
      in if length (sy_live st) < 20 \<or> (u < 55 \<and> length (sy_live st) < kMaxSyntheticLive)
         then let (c, x) = rng_coin x;
                  (k, x) = rng_below 8 x;
                  k = uint (1 + k);
                  sd = (if c then Buy else Sell);
                  p = (if sd = Buy then sy_fair st - k * tick else sy_fair st + k * tick);
                  (n, x) = rng_below 5 x
              in do {
                (oid, x) \<leftarrow> synth_submit E loc sd p (ucast (100 * (1 + n))) Day x;
                Some (if ob_find oid (book_at loc (x_engine x)) \<noteq> None
                      then upd_synth loc (\<lambda>st. st\<lparr>sy_live := sy_live st @ [oid]\<rparr>) x else x)
              }
         else if u < 88 \<and> sy_live st \<noteq> []
         then let (i, x) = rng_below (of_nat (length (sy_live st))) x;
                  idx = unat i; oid = sy_live st ! idx;
                  drop_it = upd_synth loc (\<lambda>st. st\<lparr>sy_live := swap_pop idx (sy_live st)\<rparr>)
              in case ob_find oid (book_at loc (x_engine x)) of
                   None \<Rightarrow> Some (drop_it x)
                 | Some ord \<Rightarrow>
                     let (third, x) = (if bo_qty ord \<ge> 200 then let (v, x) = rng_below 3 x in (v = 0, x) else (False, x))
                     in if third then Some (x_cancel E loc oid ((bo_qty ord div 200) * 100) 0 UserRequested x)
                        else Some (x_cancel E loc oid 0 0 UserRequested (drop_it x))
         else let (c, x) = rng_coin x;
                  sd = (if c then Buy else Sell);
                  p = (if sd = Buy then sy_fair st + 3 * tick else sy_fair st - 3 * tick);
                  (n, x) = rng_below 3 x
              in map_option snd (synth_submit E loc sd p (ucast (100 * (1 + n))) IOC x))"

section \<open>Housekeeping and the event loop\<close>

fun iterate_opt :: "nat \<Rightarrow> ('a \<Rightarrow> 'a option) \<Rightarrow> 'a \<Rightarrow> 'a option" where
  "iterate_opt 0 f x = Some x"
| "iterate_opt (Suc n) f x = Option.bind (f x) (iterate_opt n f)"

fun fold_opt :: "('b \<Rightarrow> 'a \<Rightarrow> 'a option) \<Rightarrow> 'b list \<Rightarrow> 'a \<Rightarrow> 'a option" where
  "fold_opt f [] x = Some x"
| "fold_opt f (b # bs) x = Option.bind (f b x) (fold_opt f bs)"

definition session_timer :: "u64 \<Rightarrow> u32 \<Rightarrow> exchange \<Rightarrow> exchange" where
  "session_timer now sid x =
     (case x_sessions x sid of
        None \<Rightarrow> x
      | Some s \<Rightarrow>
          if s_kind s \<noteq> OrderEntry \<or> \<not> s_logged_in s then x
          else if now - s_last_rx_ns s > kSessionTimeoutNs then kill_session sid x
          else if now - s_last_tx_ns s \<ge> kHeartbeatNs \<and> s_out s = [] then queue_frame sid kServerHeartbeat [] x
          else x)"

text \<open>\<open>owed loc\<close>: how often the while loop on \<open>carry\<close> runs for the symbol.\<close>

definition on_timer :: "os_env \<Rightarrow> u64 \<Rightarrow> (u16 \<Rightarrow> nat) \<Rightarrow> u32 list \<Rightarrow> exchange \<Rightarrow> exchange option" where
  "on_timer E ticks owed ids x =
     (if ticks = 0 then Some x
      else let (now, x) = x_now E x
      in do {
        x \<leftarrow> fold_opt (\<lambda>loc. iterate_opt (owed loc) (synth_step E loc)) (locates x) x;
        let x = x_heartbeat E now x;
        let x = fold (session_timer now) ids x;
        let x = (if \<not> x_quiet x \<and> now - x_last_stats_ns x \<ge> kStatsEveryNs then x\<lparr>x_last_stats_ns := now\<rparr> else x);
        Some (if x_deadline_ns x \<noteq> 0 \<and> now \<ge> x_deadline_ns x then x\<lparr>x_stop := True\<rparr> else x)
      })"

text \<open>The events an \<open>epoll_wait\<close> can report, with what the system calls they lead to answer.\<close>

datatype x_event =
    OrderConns nat
  | SnapshotConns nat
  | Timer u64 "u16 \<Rightarrow> nat" "u32 list"
  | Signal bool
  | SessionReady bool bool bool "recv_result list" "send_result list" u32

fun dispatch :: "os_env \<Rightarrow> x_event \<Rightarrow> exchange \<Rightarrow> exchange option" where
  "dispatch E (OrderConns n) x = Some (accept_all E n OrderEntry x)"
| "dispatch E (SnapshotConns n) x = Some (accept_all E n Snapshot x)"
| "dispatch E (Timer ticks owed ids) x = on_timer E ticks owed ids x"
| "dispatch E (Signal some) x = Some (if some then x\<lparr>x_stop := True\<rparr> else x)"
| "dispatch E (SessionReady inp outp err rs ss sid) x = on_session_event E inp outp err rs ss sid x"

text \<open>One turn of the loop: the reported events, then reaping, private reports, public feed.\<close>

definition loop_turn :: "os_env \<Rightarrow> x_event list \<times> u32 list \<times> (u32 \<Rightarrow> send_result list) \<Rightarrow> exchange \<Rightarrow> exchange option" where
  "loop_turn E turn x =
     (case turn of (evs, ids, rs) \<Rightarrow> do {
        x \<leftarrow> fold_opt (dispatch E) evs x;
        let x = reap_dead_sessions E ids x;
        let x = flush_dirty_sessions E rs x;
        Some (x_flush E x)
      })"

fun run_loop :: "os_env \<Rightarrow> (x_event list \<times> u32 list \<times> (u32 \<Rightarrow> send_result list)) list \<Rightarrow> exchange \<Rightarrow> exchange option" where
  "run_loop E [] x = Some x"
| "run_loop E (turn # turns) x = (if x_stop x then Some x else Option.bind (loop_turn E turn x) (run_loop E turns))"

definition system_event_msg :: "u64 \<Rightarrow> u8 \<Rightarrow> itch_message" where
  "system_event_msg ts code = SystemEvent \<lparr>se_locate = 0, se_timestamp = ts, se_event_code = code\<rparr>"

definition start_of_day :: "os_env \<Rightarrow> u64 \<Rightarrow> exchange \<Rightarrow> exchange" where
  "start_of_day E duration_s x =
     (let (now, x) = x_now E x;
          x = x\<lparr>x_start_ns := now, x_last_stats_ns := now,
                x_deadline_ns := (if duration_s \<noteq> 0 then now + duration_s * 1000000000 else 0)\<rparr>;
          (ts, x) = mid_now E x;
          x = x_publish E (system_event_msg ts kStartOfMessages) x;
          x = fold (\<lambda>loc x. x_publish E (directory_msg ts x loc) x) (locates x) x;
          x = x_publish E (system_event_msg ts kStartOfMarketHours) x
      in x_flush E x)"

definition end_of_day :: "os_env \<Rightarrow> u32 list \<Rightarrow> (u32 \<Rightarrow> send_result list) \<Rightarrow> exchange \<Rightarrow> exchange" where
  "end_of_day E ids rs x =
     (let (te, x) = mid_now E x;
          x = x_publish E (system_event_msg te kEndOfMarketHours) x;
          x = x_publish E (system_event_msg te kEndOfMessages) x;
          x = x_flush E x;
          x = fold (\<lambda>sid. queue_frame sid kEndOfSession []) ids x
      in flush_dirty_sessions E rs x)"

section \<open>Construction\<close>

function split_csv_from :: "bytes \<Rightarrow> nat \<Rightarrow> bytes list" where
  "split_csv_from s start =
     (if start \<le> length s
      then let comma = start + length (takeWhile (\<lambda>c. c \<noteq> chr (CHR '','')) (drop start s))
           in (if comma > start then [bslice s start (comma - start)] else []) @ split_csv_from s (comma + 1)
      else [])"
  by pat_completeness auto
termination
  by (relation "measure (\<lambda>(s, start). Suc (length s) - start)") auto

declare split_csv_from.simps [simp del]

definition split_csv :: "bytes \<Rightarrow> bytes list" where
  "split_csv s = split_csv_from s 0"

definition new_synth :: synth where
  "new_synth = \<lparr>sy_fair = 100 * kPriceScale, sy_live = []\<rparr>"

text \<open>The constructor: \<open>None\<close> when a book cannot be built. \<open>raw\<close> is the uninitialised packet buffer.\<close>

definition Exchange :: "bytes \<Rightarrow> bool \<Rightarrow> self_match_policy \<Rightarrow> u64 \<Rightarrow> u64 \<Rightarrow> bytes list \<Rightarrow> exchange option" where
  "Exchange raw quiet stp drop_every seed symbols =
     map_option (\<lambda>e. \<lparr>x_quiet = quiet, x_engine = e, x_md = MarketDataFeed raw drop_every, x_rng = Xorshift64 seed,
        x_sessions = Map.empty, x_dirty = [], x_synth = map (\<lambda>_. new_synth) symbols,
        x_pending_clordid = replicate 14 0, x_next_session_id = 1, x_next_order_id = 1,
        x_gateway_latency = LatencySampler (2 ^ 18), x_client_orders = 0, x_trades = 0, x_shares_traded = 0,
        x_cancels = 0, x_rejects = 0, x_late_cancels = 0, x_bad_messages = 0, x_snapshots = 0, x_start_ns = 0,
        x_last_stats_ns = 0, x_deadline_ns = 0, x_stop = False, x_tick = 0, x_wire = []\<rparr>)
       (fold_opt (\<lambda>s e. map_option snd (add_symbol (make_symbol s) default_config e)) symbols (MatchingEngine stp 1000000))"

end
