(* ===== verification/Risk.thy ===== *)
theory Risk
  imports Trading_Types
begin

text \<open>
  Pre-trade risk checks (\<open>include/risk.hpp\<close>). Signed 64-bit quantities are \<open>int\<close>. Shown: a verdict
  of \<open>Pass\<close> is exactly the conjunction of the limits; under the accounting contract in the header
  comment of the source the position and the worst case over all open orders never leave the limit,
  whatever fills and cancels arrive in whatever order; the number of open orders stays within its
  limit; and among any N + 1 consecutive orders the last is at least one second after the first.
\<close>

section \<open>Model\<close>

record risk_limits =
  rl_max_order_qty :: qty
  rl_max_notional :: int
  rl_max_position :: int
  rl_max_open_orders :: u32
  rl_max_orders_per_sec :: u32
  rl_price_collar_bps :: int

definition default_limits :: risk_limits where
  "default_limits = \<lparr>rl_max_order_qty = 1000, rl_max_notional = 250000 * kPriceScale, rl_max_position = 2000,
     rl_max_open_orders = 4, rl_max_orders_per_sec = 200, rl_price_collar_bps = 50\<rparr>"

datatype risk_verdict = Pass | KillSwitch | MaxOrderQty | MaxNotional | NoReference | PriceCollar
  | MaxOpenOrders | MaxPosition | Throttled

definition kRiskVerdictCount :: nat where
  "kRiskVerdictCount = 9"

fun risk_string :: "risk_verdict \<Rightarrow> string" where
  "risk_string Pass = ''pass''"
| "risk_string KillSwitch = ''kill switch''"
| "risk_string MaxOrderQty = ''max order qty''"
| "risk_string MaxNotional = ''max notional''"
| "risk_string NoReference = ''no reference price''"
| "risk_string PriceCollar = ''price collar''"
| "risk_string MaxOpenOrders = ''max open orders''"
| "risk_string MaxPosition = ''max position''"
| "risk_string Throttled = ''rate throttle''"

text \<open>\<open>static_cast<int>(v)\<close>.\<close>

fun risk_index :: "risk_verdict \<Rightarrow> nat" where
  "risk_index Pass = 0"
| "risk_index KillSwitch = 1"
| "risk_index MaxOrderQty = 2"
| "risk_index MaxNotional = 3"
| "risk_index NoReference = 4"
| "risk_index PriceCollar = 5"
| "risk_index MaxOpenOrders = 6"
| "risk_index MaxPosition = 7"
| "risk_index Throttled = 8"

record risk_gate =
  rg_lim :: risk_limits
  rg_position :: int
  rg_open_buy :: int
  rg_open_sell :: int
  rg_open_orders :: u32
  rg_killed :: bool
  rg_sent_times :: "u64 list"
  rg_next_slot :: nat
  rg_sent_count :: u64

definition RiskGate :: "risk_limits \<Rightarrow> risk_gate" where
  "RiskGate lim =
     \<lparr>rg_lim = lim, rg_position = 0, rg_open_buy = 0, rg_open_sell = 0, rg_open_orders = 0, rg_killed = False,
      rg_sent_times = replicate (if rl_max_orders_per_sec lim > 0 then unat (rl_max_orders_per_sec lim) else 1) 0,
      rg_next_slot = 0, rg_sent_count = 0\<rparr>"

definition risk_check :: "side \<Rightarrow> price \<Rightarrow> qty \<Rightarrow> price \<Rightarrow> u64 \<Rightarrow> risk_gate \<Rightarrow> risk_verdict" where
  "risk_check side price qty reference now_ns g =
     (if rg_killed g then KillSwitch
      else if qty = 0 \<or> qty > rl_max_order_qty (rg_lim g) then MaxOrderQty
      else if price * int (unat qty) > rl_max_notional (rg_lim g) then MaxNotional
      else if reference \<le> 0 then NoReference
      else let dev = (if price > reference then price - reference else reference - price)
      in if dev * 10000 > rl_price_collar_bps (rg_lim g) * reference then PriceCollar
      else if rg_open_orders g \<ge> rl_max_open_orders (rg_lim g) then MaxOpenOrders
      else let q = int (unat qty)
      in if (if side = Buy then rg_position g + rg_open_buy g + q > rl_max_position (rg_lim g)
             else rg_position g - rg_open_sell g - q < - rl_max_position (rg_lim g)) then MaxPosition
      else if unat (rg_sent_count g) \<ge> length (rg_sent_times g) \<and>
              now_ns - rg_sent_times g ! rg_next_slot g < 1000000000 then Throttled
      else Pass)"

definition on_order_sent :: "side \<Rightarrow> qty \<Rightarrow> u64 \<Rightarrow> risk_gate \<Rightarrow> risk_gate" where
  "on_order_sent side qty now_ns g =
     (let g = g\<lparr>rg_open_orders := rg_open_orders g + 1\<rparr>;
          g = (if side = Buy then g\<lparr>rg_open_buy := rg_open_buy g + int (unat qty)\<rparr>
               else g\<lparr>rg_open_sell := rg_open_sell g + int (unat qty)\<rparr>);
          g = g\<lparr>rg_sent_times := (rg_sent_times g)[rg_next_slot g := now_ns]\<rparr>;
          g = g\<lparr>rg_next_slot := (rg_next_slot g + 1) mod length (rg_sent_times g)\<rparr>
      in g\<lparr>rg_sent_count := rg_sent_count g + 1\<rparr>)"

definition risk_on_fill :: "side \<Rightarrow> qty \<Rightarrow> risk_gate \<Rightarrow> risk_gate" where
  "risk_on_fill side qty g =
     (let q = int (unat qty)
      in if side = Buy then g\<lparr>rg_position := rg_position g + q, rg_open_buy := rg_open_buy g - q\<rparr>
         else g\<lparr>rg_position := rg_position g - q, rg_open_sell := rg_open_sell g - q\<rparr>)"

definition on_cancelled :: "side \<Rightarrow> qty \<Rightarrow> risk_gate \<Rightarrow> risk_gate" where
  "on_cancelled side qty g =
     (if side = Buy then g\<lparr>rg_open_buy := rg_open_buy g - int (unat qty)\<rparr>
      else g\<lparr>rg_open_sell := rg_open_sell g - int (unat qty)\<rparr>)"

definition on_order_closed :: "risk_gate \<Rightarrow> risk_gate" where
  "on_order_closed g = (if rg_open_orders g > 0 then g\<lparr>rg_open_orders := rg_open_orders g - 1\<rparr> else g)"

definition set_kill_switch :: "bool \<Rightarrow> risk_gate \<Rightarrow> risk_gate" where
  "set_kill_switch on g = g\<lparr>rg_killed := on\<rparr>"

section \<open>The verdict\<close>

definition within_limits :: "side \<Rightarrow> price \<Rightarrow> qty \<Rightarrow> price \<Rightarrow> risk_gate \<Rightarrow> bool" where
  "within_limits side price qty reference g \<longleftrightarrow>
     0 < qty \<and> qty \<le> rl_max_order_qty (rg_lim g) \<and> price * int (unat qty) \<le> rl_max_notional (rg_lim g) \<and>
     0 < reference \<and> \<bar>price - reference\<bar> * 10000 \<le> rl_price_collar_bps (rg_lim g) * reference \<and>
     rg_open_orders g < rl_max_open_orders (rg_lim g) \<and>
     (if side = Buy then rg_position g + rg_open_buy g + int (unat qty) \<le> rl_max_position (rg_lim g)
      else - rl_max_position (rg_lim g) \<le> rg_position g - rg_open_sell g - int (unat qty))"

definition throttled :: "u64 \<Rightarrow> risk_gate \<Rightarrow> bool" where
  "throttled now_ns g \<longleftrightarrow> length (rg_sent_times g) \<le> unat (rg_sent_count g) \<and>
     now_ns - rg_sent_times g ! rg_next_slot g < 1000000000"

lemma check_pass:
  "risk_check side price qty reference now_ns g = Pass \<longleftrightarrow>
     \<not> rg_killed g \<and> within_limits side price qty reference g \<and> \<not> throttled now_ns g"
  unfolding risk_check_def within_limits_def throttled_def Let_def
  by (cases side) (auto simp: word_gt_0 not_less not_le abs_if split: if_splits)

section \<open>Positions under the accounting contract\<close>

text \<open>An open order: its side and the quantity that can still trade. The contract: an order is sent
  only after a \<open>Pass\<close>; fills and cancels of an order add up to at most its quantity; the order is
  closed when nothing is left.\<close>

type_synonym open_order = "side \<times> nat"

definition open_qty :: "side \<Rightarrow> open_order list \<Rightarrow> nat" where
  "open_qty s os = (\<Sum>(t, q)\<leftarrow>os. if t = s then q else 0)"

inductive risk_run :: "risk_limits \<Rightarrow> open_order list \<Rightarrow> u64 list \<Rightarrow> risk_gate \<Rightarrow> bool" for lim where
  fresh: "risk_run lim [] [] (RiskGate lim)"
| sent: "risk_run lim os ts g \<Longrightarrow> risk_check s p q r now g = Pass \<Longrightarrow>
    risk_run lim ((s, unat q) # os) (ts @ [now]) (on_order_sent s q now g)"
| filled: "risk_run lim (xs @ (s, n) # ys) ts g \<Longrightarrow> unat q \<le> n \<Longrightarrow>
    risk_run lim (xs @ (s, n - unat q) # ys) ts (risk_on_fill s q g)"
| cancelled: "risk_run lim (xs @ (s, n) # ys) ts g \<Longrightarrow> unat q \<le> n \<Longrightarrow>
    risk_run lim (xs @ (s, n - unat q) # ys) ts (on_cancelled s q g)"
| closed: "risk_run lim (xs @ (s, 0) # ys) ts g \<Longrightarrow> risk_run lim (xs @ ys) ts (on_order_closed g)"
| switched: "risk_run lim os ts g \<Longrightarrow> risk_run lim os ts (set_kill_switch on g)"

lemma open_qty_simps [simp]:
  "open_qty s [] = 0" "open_qty s ((t, q) # os) = (if t = s then q else 0) + open_qty s os"
  "open_qty s (xs @ ys) = open_qty s xs + open_qty s ys"
  by (simp_all add: open_qty_def)

text \<open>The books balance and the worst case stays inside the limit.\<close>

definition risk_inv :: "open_order list \<Rightarrow> risk_gate \<Rightarrow> bool" where
  "risk_inv os g \<longleftrightarrow>
     rg_open_buy g = int (open_qty Buy os) \<and> rg_open_sell g = int (open_qty Sell os) \<and>
     unat (rg_open_orders g) = length os \<and> length os \<le> unat (rl_max_open_orders (rg_lim g)) \<and>
     rg_position g + rg_open_buy g \<le> rl_max_position (rg_lim g) \<and>
     - rl_max_position (rg_lim g) \<le> rg_position g - rg_open_sell g"

lemma risk_run_lim: "risk_run lim os ts g \<Longrightarrow> rg_lim g = lim"
  by (induction rule: risk_run.induct)
    (auto simp: RiskGate_def on_order_sent_def risk_on_fill_def on_cancelled_def on_order_closed_def
      set_kill_switch_def Let_def)

lemma risk_run_inv:
  assumes "risk_run lim os ts g" "0 \<le> rl_max_position lim"
  shows "risk_inv os g"
  using assms
proof (induction rule: risk_run.induct)
  case fresh
  then show ?case by (simp add: risk_inv_def RiskGate_def)
next
  case (sent os ts g s p q r now)
  then have I: "risk_inv os g" and W: "within_limits s p q r g" by (simp_all add: check_pass)
  have "unat (rg_open_orders g + 1) = Suc (unat (rg_open_orders g))"
  proof (subst unat_add_no_wrap)
    have "unat (rg_open_orders g) < unat (rl_max_open_orders (rg_lim g))"
      using W by (simp add: within_limits_def word_less_nat_alt)
    moreover have "unat (rl_max_open_orders (rg_lim g)) < 2 ^ 32"
      using unsigned_less [of "rl_max_open_orders (rg_lim g)", where 'a = nat] by simp
    ultimately show "unat (rg_open_orders g) + unat (1 :: u32) < 2 ^ LENGTH(32)" by simp
  qed simp
  then show ?case using I W
    by (cases s) (auto simp: risk_inv_def within_limits_def on_order_sent_def Let_def word_less_nat_alt)
next
  case (filled xs s n ys ts g q)
  moreover have "0 \<le> uint q" by simp
  ultimately show ?case
    by (cases s) (auto simp: risk_inv_def risk_on_fill_def Let_def of_nat_diff, (use \<open>0 \<le> uint q\<close> in linarith)+)
next
  case (cancelled xs s n ys ts g q)
  moreover have "0 \<le> uint q" by simp
  ultimately show ?case
    by (cases s) (auto simp: risk_inv_def on_cancelled_def of_nat_diff, (use \<open>0 \<le> uint q\<close> in linarith)+)
next
  case (closed xs s ys ts g)
  then have "unat (rg_open_orders g) = Suc (length xs + length ys)" by (simp add: risk_inv_def)
  moreover from this have "rg_open_orders g \<noteq> 0" by auto
  ultimately have "rg_open_orders g > 0" "unat (rg_open_orders g - 1) = length xs + length ys"
    by (simp_all add: word_gt_0 unat_minus_one)
  then show ?case using closed by (auto simp: risk_inv_def on_order_closed_def split: if_splits)
next
  case (switched os ts g on)
  then show ?case by (simp add: risk_inv_def set_kill_switch_def)
qed

section \<open>The rate limit\<close>

text \<open>The ring holds the last send times: slot \<open>k mod N\<close> holds the \<open>k\<close>-th of them.\<close>

definition ring_inv :: "u64 list \<Rightarrow> risk_gate \<Rightarrow> bool" where
  "ring_inv ts g \<longleftrightarrow> (let N = length (rg_sent_times g) in
     0 < N \<and> rg_next_slot g = length ts mod N \<and> rg_sent_count g = of_nat (length ts) \<and>
     (\<forall>k. k < length ts \<and> length ts \<le> k + N \<longrightarrow> rg_sent_times g ! (k mod N) = ts ! k))"

lemma mod_window_inj:
  assumes "(k :: nat) < l" "l < k + N"
  shows "k mod N \<noteq> l mod N"
proof
  assume "k mod N = l mod N"
  then have "N dvd l - k" using assms(1) by (metis less_imp_le mod_eq_dvd_iff_nat)
  then show False using assms by (auto dest: dvd_imp_le)
qed

lemma ring_sent:
  assumes "ring_inv ts g"
  shows "ring_inv (ts @ [now]) (on_order_sent s q now g)"
proof -
  let ?N = "length (rg_sent_times g)"
  have N: "0 < ?N" "rg_next_slot g = length ts mod ?N" using assms by (auto simp: ring_inv_def Let_def)
  have times: "rg_sent_times (on_order_sent s q now g) = (rg_sent_times g)[length ts mod ?N := now]"
    "rg_next_slot (on_order_sent s q now g) = (length ts mod ?N + 1) mod ?N"
    "rg_sent_count (on_order_sent s q now g) = rg_sent_count g + 1"
    using N by (auto simp: on_order_sent_def Let_def)
  have "(rg_sent_times g)[length ts mod ?N := now] ! (k mod ?N) = (ts @ [now]) ! k"
    if k: "k < Suc (length ts)" "Suc (length ts) \<le> k + ?N" for k
  proof (cases "k = length ts")
    case True
    then show ?thesis using N by simp
  next
    case False
    then have "k < length ts" "length ts < k + ?N" using k by auto
    then have "k mod ?N \<noteq> length ts mod ?N" using mod_window_inj by blast
    then show ?thesis using assms \<open>k < length ts\<close> k by (auto simp: ring_inv_def Let_def nth_append)
  qed
  then show ?thesis using assms N by (auto simp: ring_inv_def Let_def times mod_Suc_eq)
qed

lemma risk_run_ring: "risk_run lim os ts g \<Longrightarrow> ring_inv ts g"
proof (induction rule: risk_run.induct)
  case fresh
  then show ?case by (auto simp: ring_inv_def RiskGate_def Let_def unat_gt_0)
next
  case (sent os ts g s p q r now)
  then show ?case by (simp add: ring_sent)
qed (auto simp: ring_inv_def Let_def risk_on_fill_def on_cancelled_def on_order_closed_def set_kill_switch_def)

lemma risk_run_ring_size:
  "risk_run lim os ts g \<Longrightarrow> length (rg_sent_times g) = max 1 (unat (rl_max_orders_per_sec lim))"
  by (induction rule: risk_run.induct)
    (auto simp: RiskGate_def on_order_sent_def risk_on_fill_def on_cancelled_def on_order_closed_def
      set_kill_switch_def Let_def word_gt_0 max_def unat_gt_0 Suc_le_eq)

lemma risk_run_rate:
  assumes "risk_run lim os ts g" "length ts < 2 ^ 64" "i + max 1 (unat (rl_max_orders_per_sec lim)) < length ts"
  shows "1000000000 \<le> ts ! (i + max 1 (unat (rl_max_orders_per_sec lim))) - ts ! i"
  using assms
proof (induction arbitrary: i rule: risk_run.induct)
  case fresh
  then show ?case by simp
next
  case (sent os ts g s p q r now)
  let ?N = "max 1 (unat (rl_max_orders_per_sec lim))"
  show ?case
  proof (cases "i + ?N < length ts")
    case True
    then show ?thesis using sent.IH [of i] sent.prems by (simp add: nth_append)
  next
    case False
    then have i: "length ts = i + ?N" using sent.prems(2) by simp
    have size: "length (rg_sent_times g) = ?N" using risk_run_ring_size [OF sent.hyps(1)] .
    have R: "rg_next_slot g = length ts mod ?N" "unat (rg_sent_count g) = length ts"
      "rg_sent_times g ! (i mod ?N) = ts ! i"
      using risk_run_ring [OF sent.hyps(1)] sent.prems(1) i size unat_of_nat_id [of "length ts", where 'a = 64]
      by (auto simp: ring_inv_def Let_def)
    have "\<not> throttled now g" using sent.hyps(2) by (simp add: check_pass)
    then have "1000000000 \<le> now - ts ! i" using R i size by (simp add: throttled_def not_less)
    then show ?thesis using i by (simp add: nth_append)
  qed
qed simp_all

end
