(* ===== verification/Strategy.thy ===== *)
theory Strategy
  imports Book_Interface "HOL-Library.Signed_Division"
begin

text \<open>
  The order-book-imbalance taker (\<open>include/strategy.hpp\<close>). Signed 64-bit arithmetic is on \<open>int\<close>
  with every result reduced to 64 bits (\<open>s64\<close>) and the casts from and to \<open>uint64_t\<close> written out.
  Shown: as long as the volumes, the percentage and the position are small enough for these products
  and sums not to overflow, the decision computed from the level summaries equals the decision taken
  on the exact volumes of the best levels of the two queues. A book of at most \<open>2^23\<close> orders is small enough.
\<close>

section \<open>Model\<close>

record strategy_params =
  sp_imbalance_pct :: int
  sp_order_qty :: qty
  sp_min_top_qty :: u64
  sp_cooldown_ns :: u64
  sp_max_position :: int

definition default_params :: strategy_params where
  "default_params = \<lparr>sp_imbalance_pct = 60, sp_order_qty = 100, sp_min_top_qty = 200, sp_cooldown_ns = 1000000,
     sp_max_position = 1000\<rparr>"

record signal =
  sg_side :: side
  sg_price :: price
  sg_qty :: qty
  sg_imbalance_pct :: int

record imbalance_strategy =
  is_p :: strategy_params
  is_last_signal_ns :: u64

definition ImbalanceStrategy :: "strategy_params \<Rightarrow> imbalance_strategy" where
  "ImbalanceStrategy p = \<lparr>is_p = p, is_last_signal_ns = 0\<rparr>"

definition on_book_update :: "order_book \<Rightarrow> int \<Rightarrow> bool \<Rightarrow> u64 \<Rightarrow> imbalance_strategy \<Rightarrow>
    signal option \<times> imbalance_strategy" where
  "on_book_update book position order_in_flight now_ns st =
     (if order_in_flight \<or> ob_empty Buy book \<or> ob_empty Sell book then (None, st)
      else if now_ns - is_last_signal_ns st < sp_cooldown_ns (is_p st) then (None, st)
      else let bid = sint (best_qty Buy book); ask = sint (best_qty Sell book); total = s64 (bid + ask)
      in if (word_of_int total :: u64) < sp_min_top_qty (is_p st) then (None, st)
      else let diff = s64 (bid - ask); q = int (unat (sp_order_qty (is_p st)));
               threshold = s64 (sp_imbalance_pct (is_p st) * total);
               logged = s64 (s64 (diff * 100) sdiv total)
      in if s64 (diff * 100) > threshold \<and> s64 (position + q) \<le> sp_max_position (is_p st)
         then (Some \<lparr>sg_side = Buy, sg_price = best_price Sell book, sg_qty = sp_order_qty (is_p st),
                 sg_imbalance_pct = logged\<rparr>, st\<lparr>is_last_signal_ns := now_ns\<rparr>)
         else if s64 (s64 (- diff) * 100) > threshold \<and> s64 (position - q) \<ge> s64 (- sp_max_position (is_p st))
         then (Some \<lparr>sg_side = Sell, sg_price = best_price Buy book, sg_qty = sp_order_qty (is_p st),
                 sg_imbalance_pct = logged\<rparr>, st\<lparr>is_last_signal_ns := now_ns\<rparr>)
         else (None, st))"

section \<open>The decision on exact volumes\<close>

definition top_orders :: "side \<Rightarrow> order_book \<Rightarrow> resting list" where
  "top_orders s b = (case resting_orders s b of [] \<Rightarrow> [] | r # _ \<Rightarrow> at_price (ro_price r) (resting_orders s b))"

definition top_volume :: "side \<Rightarrow> order_book \<Rightarrow> nat" where
  "top_volume s b = total_qty (top_orders s b)"

text \<open>The side to trade, if any.\<close>

definition decide :: "strategy_params \<Rightarrow> int \<Rightarrow> int \<Rightarrow> int \<Rightarrow> side option" where
  "decide p position bid ask =
     (if bid + ask < int (unat (sp_min_top_qty p)) then None
      else if (bid - ask) * 100 > sp_imbalance_pct p * (bid + ask) \<and>
              position + int (unat (sp_order_qty p)) \<le> sp_max_position p then Some Buy
      else if (ask - bid) * 100 > sp_imbalance_pct p * (bid + ask) \<and>
              position - int (unat (sp_order_qty p)) \<ge> - sp_max_position p then Some Sell
      else None)"

lemma total_qty_le: "total_qty rs \<le> length rs * 2 ^ 32"
proof (induction rs)
  case (Cons r rs)
  have "unat (ro_qty r) < 2 ^ 32" using unsigned_less [of "ro_qty r", where 'a = nat] by simp
  then show ?case using Cons by (simp add: total_qty_def)
qed (simp add: total_qty_def)

lemma top_orders_small:
  assumes "book_inv b"
  shows "length (top_orders s b) \<le> ob_capacity b"
proof -
  have "length (resting_orders s b) \<le> length (book_orders b)" by (cases s) (simp_all add: book_orders_def)
  also have "\<dots> \<le> ob_capacity b" using book_order_count(2) [OF assms] by (simp add: ob_capacity_def)
  finally have "length (resting_orders s b) \<le> ob_capacity b" .
  moreover have "length (at_price p (resting_orders s b)) \<le> length (resting_orders s b)" for p
    by (simp add: at_price_def)
  ultimately show ?thesis
    by (cases "resting_orders s b") (simp add: top_orders_def, metis top_orders_def le_trans list.simps(5))
qed

text \<open>No product or sum of the decision leaves the range of \<open>int64_t\<close>.\<close>

definition decision_fits :: "strategy_params \<Rightarrow> int \<Rightarrow> order_book \<Rightarrow> bool" where
  "decision_fits p position b \<longleftrightarrow> 100 * (top_volume Buy b + top_volume Sell b) < 2 ^ 63 \<and> \<bar>sp_imbalance_pct p\<bar> \<le> 100 \<and>
     \<bar>position\<bar> \<le> 2 ^ 62 \<and> \<bar>sp_max_position p\<bar> \<le> 2 ^ 62"

lemma small_book_fits:
  assumes "book_inv b" "ob_capacity b \<le> 2 ^ 23"
  shows "100 * (top_volume Buy b + top_volume Sell b) < 2 ^ 63"
proof -
  have "top_volume s b \<le> 2 ^ 55" for s
    using total_qty_le [of "top_orders s b"] top_orders_small [OF assms(1), of s] assms(2) by (simp add: top_volume_def)
  from this [of Buy] this [of Sell] show ?thesis by simp
qed

lemma top_volume_best: "book_inv b \<Longrightarrow> unat (best_qty s b) = top_volume s b"
  using book_best_level(1) [of b s]
  by (simp add: top_volume_def top_orders_def total_qty_def split: list.splits)

lemma abs_sdiv_le: "\<bar>(a::int) sdiv c\<bar> \<le> \<bar>a\<bar>"
proof -
  have "\<bar>a\<bar> div \<bar>c\<bar> \<le> \<bar>a\<bar>" using zdiv_mono2 [of "\<bar>a\<bar>" 1 "\<bar>c\<bar>"] by (cases "c = 0") simp_all
  moreover have "0 \<le> \<bar>a\<bar> div \<bar>c\<bar>" by (cases "c = 0") (simp_all add: pos_imp_zdiv_nonneg_iff)
  ultimately show ?thesis by (simp add: signed_divide_int_def abs_mult abs_sgn_eq)
qed

lemma decision_exact:
  assumes inv: "book_inv b" and fits: "decision_fits p position b" and p_def: "p = is_p st"
  shows "on_book_update b position in_flight now_ns st =
    (if in_flight \<or> resting_orders Buy b = [] \<or> resting_orders Sell b = [] \<or> now_ns - is_last_signal_ns st < sp_cooldown_ns p
     then (None, st)
     else case decide p position (int (top_volume Buy b)) (int (top_volume Sell b)) of
        None \<Rightarrow> (None, st)
      | Some s \<Rightarrow> (Some \<lparr>sg_side = s, sg_price = ro_price (hd (resting_orders (opposite s) b)), sg_qty = sp_order_qty p,
          sg_imbalance_pct = ((int (top_volume Buy b) - int (top_volume Sell b)) * 100) sdiv
            (int (top_volume Buy b) + int (top_volume Sell b))\<rparr>, st\<lparr>is_last_signal_ns := now_ns\<rparr>))"
proof -
  let ?bid = "int (top_volume Buy b)" and ?ask = "int (top_volume Sell b)" and ?q = "int (unat (sp_order_qty p))"
  note F = fits [unfolded decision_fits_def]
  have vol: "100 * (?bid + ?ask) < 2 ^ 63" using F by simp
  have V: "sint (best_qty s b) = int (top_volume s b)" for s
  proof -
    have "top_volume s b < 2 ^ 63" using F by (cases s) simp_all
    then show ?thesis using sint_small [of "best_qty s b"] top_volume_best [OF inv, of s] by simp
  qed
  have "\<bar>sp_imbalance_pct p * (?bid + ?ask)\<bar> \<le> 100 * (?bid + ?ask)"
    unfolding abs_mult using F by (intro mult_mono) auto
  then have R1: "int64_range (?bid + ?ask)" "int64_range (?bid - ?ask)" "int64_range (- (?bid - ?ask))"
    "int64_range ((?bid - ?ask) * 100)" "int64_range ((?ask - ?bid) * 100)" "int64_range (sp_imbalance_pct p * (?bid + ?ask))"
    using vol by (simp_all add: int64_range_def abs_le_iff)
  have "0 \<le> ?q" "?q < 2 ^ 32" using unsigned_less [of "sp_order_qty p", where 'a = int] by simp_all
  then have R2: "int64_range (position + ?q)" "int64_range (position - ?q)" "int64_range (- sp_max_position p)"
    using F unfolding int64_range_def abs_le_iff by (simp_all del: int_nat_eq of_nat_unat)
  have "\<bar>(?bid - ?ask) * 100\<bar> < 2 ^ 63" using vol by (simp add: abs_less_iff)
  then have "\<bar>((?bid - ?ask) * 100) sdiv (?bid + ?ask)\<bar> < 2 ^ 63" by (rule order.strict_trans1 [OF abs_sdiv_le])
  then have R3: "int64_range (((?bid - ?ask) * 100) sdiv (?bid + ?ask))" by (auto simp: int64_range_def abs_less_iff)
  have "unat (word_of_int (?bid + ?ask) :: u64) = top_volume Buy b + top_volume Sell b"
    using F unat_of_nat_id [of "top_volume Buy b + top_volume Sell b", where 'a = 64] by simp
  then have m: "(word_of_int (?bid + ?ask) :: u64) < sp_min_top_qty p \<longleftrightarrow> ?bid + ?ask < int (unat (sp_min_top_qty p))"
    by (simp only: word_less_nat_alt) linarith
  have neg: "- (?bid - ?ask) * 100 = (?ask - ?bid) * 100" by simp
  show ?thesis
    unfolding on_book_update_def decide_def book_empty [OF inv] V Let_def p_def [symmetric]
      R1 [THEN s64_id] R2 [THEN s64_id] R3 [THEN s64_id] neg m
    using book_best_price [OF inv] by (auto simp: opposite_def)
qed

end
