(* ===== verification/Trader.thy ===== *)
theory Trader
  imports Exchange Risk Strategy
begin

text \<open>
  The trading client (\<open>src/trader.cpp\<close>): snapshot and incremental synchronisation of a replica book,
  the path from a packet through strategy and risk gate to an order, the order entry session with its
  pending bytes and transmit time stamps, the reports from the exchange, housekeeping and the event
  loop.

  The operating system is a parameter: \<open>t_env\<close> holds what the clocks, \<open>send\<close> on the order socket and
  a snapshot connection answer, call by call (\<open>tr_tick\<close> counts the calls); what \<open>recv\<close> and the error
  queue answer are lists that come with an event, whose end stands for EAGAIN. \<open>tr_wire\<close> collects the
  bytes that the kernel took from the order entry socket and \<open>tr_sent\<close> the signals that became orders:
  histories for the theorems to speak of, which no operation reads. Log output is left out.
\<close>

section \<open>Data\<close>

definition t_kHeartbeatNs :: u64 where
  "t_kHeartbeatNs = 1000000000"

definition kTxRing :: nat where
  "kTxRing = 256"

definition kResyncRetryNs :: u64 where
  "kResyncRetryNs = 500000000"

record trader_config =
  tc_symbol :: bytes
  tc_user :: bytes
  tc_duration_s :: u64
  tc_tx_timestamps :: bool
  tc_trade :: bool
  tc_verbose :: bool
  tc_strat :: strategy_params
  tc_risk :: risk_limits

definition TraderConfig :: trader_config where
  "TraderConfig = \<lparr>tc_symbol = str ''PFRG'', tc_user = str ''TRADR1'', tc_duration_s = 20, tc_tx_timestamps = True,
     tc_trade = True, tc_verbose = False, tc_strat = default_params, tc_risk = default_limits\<rparr>"

text \<open>The checks and adjustments at the end of \<open>parse_args\<close>, after the options were read; \<open>multicast\<close> is the
  answer of \<open>is_multicast_address\<close>. \<open>None\<close> is the return value -1.\<close>

definition check_args :: "bool \<Rightarrow> trader_config \<Rightarrow> trader_config option" where
  "check_args multicast c =
     (if tc_symbol c = [] \<or> length (tc_symbol c) > 8 \<or> tc_user c = [] \<or> length (tc_user c) > 6 then None
      else if sp_imbalance_pct (tc_strat c) < 1 \<or> sp_imbalance_pct (tc_strat c) > 99 \<or> sp_order_qty (tc_strat c) = 0 then None
      else let c = c\<lparr>tc_strat := (tc_strat c)\<lparr>sp_max_position := rl_max_position (tc_risk c)\<rparr>\<rparr>;
               c = (if rl_max_order_qty (tc_risk c) < sp_order_qty (tc_strat c)
                    then c\<lparr>tc_risk := (tc_risk c)\<lparr>rl_max_order_qty := sp_order_qty (tc_strat c)\<rparr>\<rparr> else c)
           in if multicast then Some c else None)"

text \<open>A blocking TCP connection: it fails, or it answers the sends and delivers chunks of bytes; the end
  of the chunks is a return value of \<open>recv\<close> that is not positive.\<close>

datatype tcp_conn = NoConnect | Conn "send_result list" "bytes list"

record t_env =
  te_mono :: "nat \<Rightarrow> u64"
  te_real :: "nat \<Rightarrow> u64"
  te_send :: "nat \<Rightarrow> send_result"
  te_snap :: "nat \<Rightarrow> tcp_conn"

record trigger =
  tg_exch_mid :: u64
  tg_kernel_rx :: u64
  tg_user_rx :: u64
  tg_book_done :: u64

definition Trigger :: trigger where
  "Trigger = \<lparr>tg_exch_mid = 0, tg_kernel_rx = 0, tg_user_rx = 0, tg_book_done = 0\<rparr>"

record live_order =
  lo_user_ref :: u32
  lo_side :: side
  lo_price :: price
  lo_qty :: qty
  lo_leaves :: qty
  lo_exch_id :: u64
  lo_accepted :: bool
  lo_t_send_start :: u64
  lo_t_sent :: u64

definition LiveOrder :: live_order where
  "LiveOrder = \<lparr>lo_user_ref = 0, lo_side = Buy, lo_price = 0, lo_qty = 0, lo_leaves = 0, lo_exch_id = 0,
     lo_accepted = False, lo_t_send_start = 0, lo_t_sent = 0\<rparr>"

record tx_pending =
  tp_tx_id :: u32
  tp_used :: bool
  tp_t_kernel_rx :: u64
  tp_t_send_start :: u64

definition TxPending :: tx_pending where
  "TxPending = \<lparr>tp_tx_id = 0, tp_used = False, tp_t_kernel_rx = 0, tp_t_send_start = 0\<rparr>"

record tx_stamp =
  ts_id :: u32
  ts_ns :: u64

record trader =
  tr_cfg :: trader_config
  tr_symbol :: symbol
  tr_locate :: u16
  tr_book :: order_book
  tr_seq :: sequence_tracker
  tr_orders :: "live_order flat_map"
  tr_risk :: risk_gate
  tr_strat :: imbalance_strategy
  tr_oe_reader :: frame_reader
  tr_oe_pending :: bytes
  tr_tx_ring :: "tx_pending list"
  tr_tx_head :: u64
  tr_stream_bytes :: u64
  tr_next_user_ref :: u32
  tr_synced :: bool
  tr_oe_up :: bool
  tr_tx_ts :: bool
  tr_stop :: bool
  tr_exchange_closed :: bool
  tr_want_write :: bool
  tr_cash :: int
  tr_start_ns :: u64
  tr_deadline_ns :: u64
  tr_last_oe_tx :: u64
  tr_last_oe_rx :: u64
  tr_last_resync_try :: u64
  tr_last_status :: u64
  tr_packets :: u64
  tr_messages :: u64
  tr_heartbeats :: u64
  tr_duplicates :: u64
  tr_gaps :: u64
  tr_inconsistencies :: u64
  tr_resyncs :: u64
  tr_snapshots :: u64
  tr_bad_packets :: u64
  tr_bad_messages :: u64
  tr_signal_count :: u64
  tr_orders_sent :: u64
  tr_accepted :: u64
  tr_fills :: u64
  tr_filled_shares :: u64
  tr_cancels :: u64
  tr_rejects :: u64
  tr_unknown_reports :: u64
  tr_risk_blocked :: "u64 list"
  tr_s_feed :: latency_sampler
  tr_s_wakeup :: latency_sampler
  tr_s_book :: latency_sampler
  tr_s_strategy :: latency_sampler
  tr_s_send :: latency_sampler
  tr_s_t2t :: latency_sampler
  tr_s_tx_stack :: latency_sampler
  tr_s_w2w :: latency_sampler
  tr_s_gateway :: latency_sampler
  tr_s_rtt :: latency_sampler
  tr_tick :: nat
  tr_wire :: bytes
  tr_sent :: "signal list"

text \<open>The constructor; \<open>None\<close> when the book cannot be built (it throws).\<close>

definition Trader :: "trader_config \<Rightarrow> trader option" where
  "Trader c =
     map_option (\<lambda>b. \<lparr>tr_cfg = c, tr_symbol = make_symbol (tc_symbol c), tr_locate = 0, tr_book = b,
        tr_seq = SequenceTracker, tr_orders = FlatIdMap LiveOrder 1024, tr_risk = RiskGate (tc_risk c),
        tr_strat = ImbalanceStrategy (tc_strat c), tr_oe_reader = FrameReader, tr_oe_pending = [],
        tr_tx_ring = replicate kTxRing TxPending, tr_tx_head = 0, tr_stream_bytes = 0, tr_next_user_ref = 1,
        tr_synced = False, tr_oe_up = False, tr_tx_ts = False, tr_stop = False, tr_exchange_closed = False,
        tr_want_write = False, tr_cash = 0, tr_start_ns = 0, tr_deadline_ns = 0, tr_last_oe_tx = 0, tr_last_oe_rx = 0,
        tr_last_resync_try = 0, tr_last_status = 0, tr_packets = 0, tr_messages = 0, tr_heartbeats = 0,
        tr_duplicates = 0, tr_gaps = 0, tr_inconsistencies = 0, tr_resyncs = 0, tr_snapshots = 0, tr_bad_packets = 0,
        tr_bad_messages = 0, tr_signal_count = 0, tr_orders_sent = 0, tr_accepted = 0, tr_fills = 0,
        tr_filled_shares = 0, tr_cancels = 0, tr_rejects = 0, tr_unknown_reports = 0,
        tr_risk_blocked = replicate kRiskVerdictCount 0,
        tr_s_feed = LatencySampler (2 ^ 19), tr_s_wakeup = LatencySampler (2 ^ 19), tr_s_book = LatencySampler (2 ^ 19),
        tr_s_strategy = LatencySampler (2 ^ 16), tr_s_send = LatencySampler (2 ^ 16), tr_s_t2t = LatencySampler (2 ^ 16),
        tr_s_tx_stack = LatencySampler (2 ^ 16), tr_s_w2w = LatencySampler (2 ^ 16),
        tr_s_gateway = LatencySampler (2 ^ 16), tr_s_rtt = LatencySampler (2 ^ 16), tr_tick = 0, tr_wire = [], tr_sent = []\<rparr>)
      (OrderBook default_config)"

section \<open>System calls\<close>

definition t_now_ns :: "t_env \<Rightarrow> trader \<Rightarrow> u64 \<times> trader" where
  "t_now_ns E t = (te_mono E (tr_tick t), t\<lparr>tr_tick := Suc (tr_tick t)\<rparr>)"

definition t_realtime_ns :: "t_env \<Rightarrow> trader \<Rightarrow> u64 \<times> trader" where
  "t_realtime_ns E t = (te_real E (tr_tick t), t\<lparr>tr_tick := Suc (tr_tick t)\<rparr>)"

text \<open>\<open>send_all_blocking\<close> for \<open>n\<close> remaining bytes; the end of the list is an error.\<close>

fun send_all_blocking :: "send_result list \<Rightarrow> nat \<Rightarrow> bool" where
  "send_all_blocking [] n = (n = 0)"
| "send_all_blocking (r # rs) n =
     (if n = 0 then True
      else case r of
             Sent k \<Rightarrow> k \<noteq> 0 \<and> send_all_blocking rs (n - k)
           | SendIntr \<Rightarrow> send_all_blocking rs n
           | _ \<Rightarrow> False)"

text \<open>\<open>recv\<close> into the free space of the reader: the kernel stores at most as many bytes as it was
  offered. The flag is false when it stores none, which \<open>recv\<close> reports as 0.\<close>

definition recv_into :: "bytes \<Rightarrow> frame_reader \<Rightarrow> bool \<times> frame_reader" where
  "recv_into c r =
     (let r = fr_write_ptr r; c = take (fr_write_space r) c
      in (c \<noteq> [], fr_commit (length c) (r\<lparr>fr_buf := blit (fr_buf r) (fr_wr r) c\<rparr>)))"

definition login_frame :: "bytes \<Rightarrow> bytes \<Rightarrow> nat \<Rightarrow> bytes \<times> nat" where
  "login_frame user out cap =
     (let req = \<lparr>lr_username = user, lr_password = str ''pulse'', lr_requested_session = [], lr_requested_sequence = 1\<rparr>;
          (payload, n) = encode_login_request req (replicate kLoginRequestLen 0) kLoginRequestLen
      in write_frame out 0 cap kLoginRequest (take n payload))"

section \<open>Snapshot\<close>

text \<open>The locals of \<open>snapshot()\<close> that outlive a frame: \<open>next_seq\<close> and \<open>done\<close>.\<close>

definition snap_message :: "itch_message \<Rightarrow> (u64 \<times> bool) \<times> trader \<Rightarrow> (u64 \<times> bool) \<times> trader" where
  "snap_message msg st =
     (case st of (acc, t) \<Rightarrow>
        (case msg of
           StockDirectory sd \<Rightarrow> (acc, if sd_stock sd = tr_symbol t then t\<lparr>tr_locate := sd_locate sd\<rparr> else t)
         | AddOrder ao \<Rightarrow>
             (acc, if tr_locate t \<noteq> 0 \<and> ao_locate ao = tr_locate t
                   then t\<lparr>tr_book := snd (ob_add (ao_order_ref ao) (ao_side ao) (uint (ao_price ao)) (ao_shares ao) 0 0 (tr_book t))\<rparr>
                   else t)
         | EndOfSnapshot eos \<Rightarrow> ((eos_next_sequence eos, True), t)
         | _ \<Rightarrow> st))"

text \<open>The inner loop over the complete frames; the flag is false after \<open>return false\<close>.\<close>

fun snap_frames :: "(u8 \<times> bytes) list \<Rightarrow> (u64 \<times> bool) \<times> trader \<Rightarrow> bool \<times> (u64 \<times> bool) \<times> trader" where
  "snap_frames [] st = (True, st)"
| "snap_frames ((type, p) # fs) st =
     (if type = kLoginRejected then (False, st)
      else if type \<noteq> kSequencedData then snap_frames fs st
      else case itch_decode p of
             None \<Rightarrow> snap_frames fs st
           | Some msg \<Rightarrow> snap_frames fs (snap_message msg st))"

text \<open>The outer loop: \<open>None\<close> is \<open>return false\<close>, otherwise the sequence number to resume at.\<close>

fun snap_recv :: "bytes list \<Rightarrow> frame_reader \<Rightarrow> (u64 \<times> bool) \<times> trader \<Rightarrow> u64 option \<times> trader" where
  "snap_recv [] r st = (if snd (fst st) then Some (fst (fst st)) else None, snd st)"
| "snap_recv (c # cs) r st =
     (if snd (fst st) then (Some (fst (fst st)), snd st)
      else case recv_into c r of
             (False, r) \<Rightarrow> (None, snd st)
           | (True, r) \<Rightarrow>
               (case fr_drain r of (fs, status, r) \<Rightarrow>
                  (case snap_frames fs st of
                     (False, st) \<Rightarrow> (None, snd st)
                   | (True, st) \<Rightarrow> snap_recv cs r st)))"

definition snapshot :: "t_env \<Rightarrow> trader \<Rightarrow> bool \<times> trader" where
  "snapshot E t =
     (let conn = te_snap E (tr_tick t); t = t\<lparr>tr_tick := Suc (tr_tick t)\<rparr>
      in case conn of
           NoConnect \<Rightarrow> (False, t)
         | Conn ss cs \<Rightarrow>
             if \<not> send_all_blocking ss (snd (login_frame (tc_user (tr_cfg t)) (replicate 64 0) 64)) then (False, t)
             else case snap_recv cs FrameReader ((0, False), t\<lparr>tr_book := ob_clear (tr_book t), tr_locate := 0\<rparr>) of
                    (None, t) \<Rightarrow> (False, t)
                  | (Some next_seq, t) \<Rightarrow>
                      if tr_locate t = 0 then (False, t)
                      else (True, t\<lparr>tr_seq := st_reset next_seq (tr_seq t), tr_synced := True,
                                    tr_snapshots := tr_snapshots t + 1\<rparr>))"

section \<open>Sending on the order entry session\<close>

text \<open>\<open>Sent k\<close>: the kernel took \<open>k\<close> bytes, at most those it was given. The flag says that the whole
  buffer went out in this one call.\<close>

definition oe_send :: "t_env \<Rightarrow> bytes \<Rightarrow> trader \<Rightarrow> bool \<times> trader" where
  "oe_send E p t =
     (if \<not> tr_oe_up t then (False, t)
      else if tr_oe_pending t \<noteq> [] then (False, t\<lparr>tr_oe_pending := tr_oe_pending t @ p\<rparr>)
      else let r = te_send E (tr_tick t); t = t\<lparr>tr_tick := Suc (tr_tick t)\<rparr>;
               keep = (\<lambda>k t. (False, t\<lparr>tr_stream_bytes := tr_stream_bytes t + of_nat k, tr_wire := tr_wire t @ take k p,
                         tr_oe_pending := tr_oe_pending t @ drop k p, tr_want_write := True\<rparr>))
           in case r of
                Sent k \<Rightarrow>
                  if length p \<le> k
                  then let t = t\<lparr>tr_stream_bytes := tr_stream_bytes t + of_nat (length p), tr_wire := tr_wire t @ p\<rparr>;
                           (now, t) = t_now_ns E t
                       in (True, t\<lparr>tr_last_oe_tx := now\<rparr>)
                  else keep k t
              | SendAgain \<Rightarrow> keep 0 t
              | _ \<Rightarrow> (False, t\<lparr>tr_oe_up := False\<rparr>))"

function flush_oe_pending :: "t_env \<Rightarrow> trader \<Rightarrow> trader" where
  "flush_oe_pending E t =
     (if tr_oe_pending t = [] then t\<lparr>tr_want_write := False\<rparr>
      else let r = te_send E (tr_tick t); t = t\<lparr>tr_tick := Suc (tr_tick t)\<rparr>
           in case r of
                Sent k \<Rightarrow>
                  if k = 0 then t\<lparr>tr_oe_up := False\<rparr>
                  else let k = min k (length (tr_oe_pending t))
                       in flush_oe_pending E (t\<lparr>tr_stream_bytes := tr_stream_bytes t + of_nat k,
                            tr_wire := tr_wire t @ take k (tr_oe_pending t), tr_oe_pending := drop k (tr_oe_pending t)\<rparr>)
              | SendAgain \<Rightarrow> t
              | _ \<Rightarrow> t\<lparr>tr_oe_up := False\<rparr>)"
  by pat_completeness auto
termination
  by (relation "measure (\<lambda>(E, t). length (tr_oe_pending t))") auto

declare flush_oe_pending.simps [simp del]

text \<open>The order message is encoded into the frame buffer behind the 3-byte header.\<close>

definition order_frame :: "u32 \<Rightarrow> signal \<Rightarrow> symbol \<Rightarrow> bytes" where
  "order_frame user_ref sig symb =
     (let eo = EnterOrder \<lparr>eo_user_ref = user_ref, eo_side = sg_side sig, eo_qty = sg_qty sig, eo_symbol = symb,
                 eo_price = sg_price sig, eo_tif = IOC, eo_clordid = make_clordid (str ''PF'' @ dec_digits (unat user_ref))\<rparr>;
          (body, pn) = encode_inbound eo (replicate (64 - kFrameHeaderLen) 0) (64 - kFrameHeaderLen);
          frame = replicate kFrameHeaderLen 0 @ body;
          frame = put_u16 frame 0 (of_nat (pn + 1));
          frame = frame[2 := kUnsequencedData]
      in take (pn + kFrameHeaderLen) frame)"

text \<open>The samples of a sent order, and what is kept until its transmit time stamp shows up.\<close>

definition record_send :: "trigger \<Rightarrow> u64 \<Rightarrow> u64 \<Rightarrow> bool \<Rightarrow> trader \<Rightarrow> trader" where
  "record_send trig t_send_start t_sent whole t =
     (let t = t\<lparr>tr_s_strategy := ls_record (t_send_start - tg_book_done trig) (tr_s_strategy t),
                tr_s_send := ls_record (t_sent - t_send_start) (tr_s_send t)\<rparr>;
          t = (if tg_kernel_rx trig \<noteq> 0 then t\<lparr>tr_s_t2t := ls_record (t_sent - tg_kernel_rx trig) (tr_s_t2t t)\<rparr> else t)
      in if whole \<and> tr_tx_ts t
         then t\<lparr>tr_tx_ring := (tr_tx_ring t)[unat (tr_tx_head t) mod kTxRing :=
                  \<lparr>tp_tx_id = ucast (tr_stream_bytes t - 1), tp_used = True, tp_t_kernel_rx = tg_kernel_rx trig,
                   tp_t_send_start = t_send_start\<rparr>],
                tr_tx_head := tr_tx_head t + 1\<rparr>
         else t)"

definition send_order :: "t_env \<Rightarrow> signal \<Rightarrow> trigger \<Rightarrow> trader \<Rightarrow> trader" where
  "send_order E sig trig t =
     (let user_ref = tr_next_user_ref t;
          t = t\<lparr>tr_next_user_ref := user_ref + 1\<rparr>;
          frame = order_frame user_ref sig (tr_symbol t);
          (t_send_start, t) = t_realtime_ns E t;
          (whole, t) = oe_send E frame t;
          (t_sent, t) = t_realtime_ns E t;
          ord = LiveOrder\<lparr>lo_user_ref := user_ref, lo_side := sg_side sig, lo_price := sg_price sig, lo_qty := sg_qty sig,
                lo_leaves := sg_qty sig, lo_t_send_start := t_send_start, lo_t_sent := t_sent\<rparr>;
          t = t\<lparr>tr_orders := snd (fm_insert (ucast user_ref) ord (tr_orders t)),
                tr_risk := on_order_sent (sg_side sig) (sg_qty sig) (tg_book_done trig) (tr_risk t),
                tr_orders_sent := tr_orders_sent t + 1, tr_sent := tr_sent t @ [sig]\<rparr>
      in record_send trig t_send_start t_sent whole t)"

definition cancel_frame :: "u32 \<Rightarrow> bytes" where
  "cancel_frame user_ref =
     (let (payload, pn) = encode_inbound (CancelOrder \<lparr>co_user_ref = user_ref, co_qty = 0\<rparr>)
                            (replicate 9 0) 9;
          (frame, fn) = write_frame (replicate 32 0) 0 32 kUnsequencedData (take pn payload)
      in take fn frame)"

definition send_cancel :: "t_env \<Rightarrow> u32 \<Rightarrow> trader \<Rightarrow> trader" where
  "send_cancel E user_ref t = snd (oe_send E (cancel_frame user_ref) t)"

definition cancel_all :: "t_env \<Rightarrow> trader \<Rightarrow> trader" where
  "cancel_all E t =
     (if \<not> tr_oe_up t then t
      else let refs = [ucast k. (k, ord) \<leftarrow> fm_entries (tr_orders t), lo_leaves ord > 0]
           in fold (send_cancel E) refs t)"

text \<open>Heartbeat and logout: a frame without payload in a buffer of 3 bytes.\<close>

definition bare_frame :: "u8 \<Rightarrow> bytes" where
  "bare_frame type = (case write_frame (replicate 3 0) 0 3 type [] of (frame, fn) \<Rightarrow> take fn frame)"

section \<open>Strategy, risk, order\<close>

text \<open>The division of C++ truncates.\<close>

definition mid_price :: "order_book \<Rightarrow> price" where
  "mid_price b =
     (if ob_empty Buy b \<or> ob_empty Sell b then 0 else (best_price Buy b + best_price Sell b) sdiv 2)"

definition maybe_trade :: "t_env \<Rightarrow> trigger \<Rightarrow> trader \<Rightarrow> trader" where
  "maybe_trade E trig t =
     (let (sig, st) = on_book_update (tr_book t) (rg_position (tr_risk t)) (fm_size (tr_orders t) > 0)
                        (tg_book_done trig) (tr_strat t);
          t = t\<lparr>tr_strat := st\<rparr>
      in case sig of
           None \<Rightarrow> t
         | Some sg \<Rightarrow>
             let t = t\<lparr>tr_signal_count := tr_signal_count t + 1\<rparr>;
                 v = risk_check (sg_side sg) (sg_price sg) (sg_qty sg) (mid_price (tr_book t)) (tg_book_done trig) (tr_risk t)
             in if v \<noteq> Pass
                then t\<lparr>tr_risk_blocked := (tr_risk_blocked t)[risk_index v := tr_risk_blocked t ! risk_index v + 1]\<rparr>
                else send_order E sg trig t)"

section \<open>Market data\<close>

definition resync :: "t_env \<Rightarrow> trader \<Rightarrow> trader" where
  "resync E t = snd (snapshot E (cancel_all E (t\<lparr>tr_synced := False, tr_resyncs := tr_resyncs t + 1\<rparr>)))"

text \<open>What the callback of \<open>for_each_message\<close> captures besides the trader.\<close>

record packet_scan =
  ps_touched :: bool
  ps_gap :: bool
  ps_inconsistent :: bool
  ps_exch_mid :: u64

definition packet_message :: "u64 \<times> bytes \<Rightarrow> packet_scan \<times> trader \<Rightarrow> packet_scan \<times> trader" where
  "packet_message sm st =
     (case (sm, st) of ((sq, m), (ps, t)) \<Rightarrow>
        if ps_gap ps \<or> ps_inconsistent ps then st
        else case on_message sq (tr_seq t) of
               (Duplicate, sqt) \<Rightarrow> (ps, t\<lparr>tr_seq := sqt, tr_duplicates := tr_duplicates t + 1\<rparr>)
             | (Gap, sqt) \<Rightarrow> (ps\<lparr>ps_gap := True\<rparr>, t\<lparr>tr_seq := sqt\<rparr>)
             | (Apply, sqt) \<Rightarrow>
                 let t = t\<lparr>tr_seq := sqt, tr_messages := tr_messages t + 1\<rparr>
                 in case itch_decode m of
                      None \<Rightarrow> (ps, t\<lparr>tr_bad_messages := tr_bad_messages t + 1\<rparr>)
                    | Some msg \<Rightarrow>
                        (case apply_itch (tr_locate t) msg (tr_book t) of
                           (Applied, b) \<Rightarrow> (ps\<lparr>ps_touched := True, ps_exch_mid := itch_timestamp msg\<rparr>, t\<lparr>tr_book := b\<rparr>)
                         | (Inconsistent, b) \<Rightarrow> (ps\<lparr>ps_inconsistent := True\<rparr>, t\<lparr>tr_book := b\<rparr>)
                         | (Ignored, b) \<Rightarrow>
                             (ps, (case msg of
                                     SystemEvent se \<Rightarrow> if se_event_code se = kEndOfMessages then t\<lparr>tr_exchange_closed := True\<rparr> else t
                                   | _ \<Rightarrow> t)\<lparr>tr_book := b\<rparr>)))"

definition packet_latency :: "packet_scan \<Rightarrow> u64 \<Rightarrow> u64 \<Rightarrow> u64 \<Rightarrow> trader \<Rightarrow> trader" where
  "packet_latency ps t_kernel t_user book_done t =
     (let t = (if t_kernel \<noteq> 0
               then let t = t\<lparr>tr_s_wakeup := ls_record (t_user - t_kernel) (tr_s_wakeup t)\<rparr>;
                        feed = mid_diff (ns_since_midnight t_kernel) (ps_exch_mid ps)
                    in if ps_touched ps \<and> feed \<ge> 0 then t\<lparr>tr_s_feed := ls_record (word_of_int feed) (tr_s_feed t)\<rparr> else t
               else t)
      in t\<lparr>tr_s_book := ls_record (book_done - t_user) (tr_s_book t)\<rparr>)"

definition handle_packet :: "t_env \<Rightarrow> bytes \<Rightarrow> u64 \<Rightarrow> u64 \<Rightarrow> trader \<Rightarrow> trader" where
  "handle_packet E p t_kernel t_user t =
     (case parse_header p of
        None \<Rightarrow> t\<lparr>tr_bad_packets := tr_bad_packets t + 1\<rparr>
      | Some h \<Rightarrow>
          let t = t\<lparr>tr_packets := tr_packets t + 1\<rparr>
          in if mh_count h = mold_kEndOfSession then t
             else if \<not> tr_synced t then t
             else if mh_count h = 0
             then let t = t\<lparr>tr_heartbeats := tr_heartbeats t + 1\<rparr>
                  in if on_heartbeat (mh_sequence h) (tr_seq t) = Gap
                     then resync E (t\<lparr>tr_gaps := tr_gaps t + 1\<rparr>) else t
             else let (msgs, ok) = for_each_message p h;
                      (ps, t) = fold packet_message msgs
                        (\<lparr>ps_touched = False, ps_gap = False, ps_inconsistent = False, ps_exch_mid = 0\<rparr>, t);
                      t = (if ok then t else t\<lparr>tr_bad_packets := tr_bad_packets t + 1\<rparr>);
                      (book_done, t) = t_realtime_ns E t;
                      t = packet_latency ps t_kernel t_user book_done t
                  in if ps_gap ps then resync E (t\<lparr>tr_gaps := tr_gaps t + 1\<rparr>)
                     else if ps_inconsistent ps then resync E (t\<lparr>tr_inconsistencies := tr_inconsistencies t + 1\<rparr>)
                     else if ps_touched ps \<and> tc_trade (tr_cfg t) \<and> tr_oe_up t
                     then maybe_trade E (Trigger\<lparr>tg_exch_mid := ps_exch_mid ps, tg_kernel_rx := t_kernel,
                            tg_user_rx := t_user, tg_book_done := book_done\<rparr>) t
                     else t)"

text \<open>The datagrams that \<open>recv_timestamped\<close> returns, with their kernel time stamps; the buffer has 2048 bytes.\<close>

fun on_md_readable :: "t_env \<Rightarrow> (bytes \<times> u64) list \<Rightarrow> trader \<Rightarrow> trader" where
  "on_md_readable E [] t = t"
| "on_md_readable E ((d, t_kernel) # ds) t =
     (let (t_user, t) = t_realtime_ns E t
      in on_md_readable E ds (handle_packet E (take 2048 d) t_kernel t_user t))"

section \<open>Reports from the exchange\<close>

definition close_order :: "u32 \<Rightarrow> trader \<Rightarrow> trader" where
  "close_order user_ref t =
     t\<lparr>tr_risk := on_order_closed (tr_risk t), tr_orders := snd (fm_erase (ucast user_ref) (tr_orders t))\<rparr>"

definition unknown_report :: "trader \<Rightarrow> trader" where
  "unknown_report t = t\<lparr>tr_unknown_reports := tr_unknown_reports t + 1\<rparr>"

definition t_on_accepted :: "ouch_accepted \<Rightarrow> u64 \<Rightarrow> trader \<Rightarrow> trader" where
  "t_on_accepted a t_rx t =
     (case fm_find (tr_orders t) (ucast (oa_user_ref a)) of
        None \<Rightarrow> unknown_report t
      | Some ord \<Rightarrow>
          let t = t\<lparr>tr_orders := fm_store (ucast (oa_user_ref a)) (ord\<lparr>lo_accepted := True, lo_exch_id := oa_order_ref a\<rparr>) (tr_orders t),
                    tr_accepted := tr_accepted t + 1\<rparr>;
              gw = mid_diff (oa_timestamp a) (ns_since_midnight (lo_t_send_start ord));
              t = (if gw \<ge> 0 then t\<lparr>tr_s_gateway := ls_record (word_of_int gw) (tr_s_gateway t)\<rparr> else t)
          in t\<lparr>tr_s_rtt := ls_record (t_rx - lo_t_send_start ord) (tr_s_rtt t)\<rparr>)"

definition t_on_executed :: "ouch_executed \<Rightarrow> trader \<Rightarrow> trader" where
  "t_on_executed e t =
     (case fm_find (tr_orders t) (ucast (ox_user_ref e)) of
        None \<Rightarrow> unknown_report t
      | Some ord \<Rightarrow>
          let q = (if ox_qty e > lo_leaves ord then lo_leaves ord else ox_qty e);
              ord = ord\<lparr>lo_leaves := lo_leaves ord - q\<rparr>;
              t = t\<lparr>tr_orders := fm_store (ucast (ox_user_ref e)) ord (tr_orders t),
                    tr_risk := risk_on_fill (lo_side ord) q (tr_risk t)\<rparr>;
              notional = s64 (ox_price e * int (unat q));
              t = t\<lparr>tr_cash := s64 (tr_cash t + (if lo_side ord = Buy then s64 (- notional) else notional)),
                    tr_fills := tr_fills t + 1, tr_filled_shares := tr_filled_shares t + ucast q\<rparr>
          in if lo_leaves ord = 0 then close_order (ox_user_ref e) t else t)"

definition t_on_canceled :: "ouch_canceled \<Rightarrow> trader \<Rightarrow> trader" where
  "t_on_canceled c t =
     (case fm_find (tr_orders t) (ucast (ocx_user_ref c)) of
        None \<Rightarrow> unknown_report t
      | Some ord \<Rightarrow>
          let q = (if ocx_qty c > lo_leaves ord then lo_leaves ord else ocx_qty c);
              ord = ord\<lparr>lo_leaves := lo_leaves ord - q\<rparr>;
              t = t\<lparr>tr_orders := fm_store (ucast (ocx_user_ref c)) ord (tr_orders t),
                    tr_risk := on_cancelled (lo_side ord) q (tr_risk t), tr_cancels := tr_cancels t + 1\<rparr>
          in if lo_leaves ord = 0 then close_order (ocx_user_ref c) t else t)"

definition t_on_rejected :: "ouch_rejected \<Rightarrow> trader \<Rightarrow> trader" where
  "t_on_rejected j t =
     (case fm_find (tr_orders t) (ucast (oj_user_ref j)) of
        None \<Rightarrow> unknown_report t
      | Some ord \<Rightarrow>
          let t = t\<lparr>tr_rejects := tr_rejects t + 1, tr_risk := on_cancelled (lo_side ord) (lo_leaves ord) (tr_risk t),
                    tr_orders := fm_store (ucast (oj_user_ref j)) (ord\<lparr>lo_leaves := 0\<rparr>) (tr_orders t)\<rparr>
          in close_order (oj_user_ref j) t)"

definition handle_oe_frame :: "u64 \<Rightarrow> u8 \<times> bytes \<Rightarrow> trader \<Rightarrow> trader" where
  "handle_oe_frame t_rx f t =
     (case f of (type, p) \<Rightarrow>
        if type = kSequencedData
        then (case decode_outbound p of
                None \<Rightarrow> t\<lparr>tr_bad_messages := tr_bad_messages t + 1\<rparr>
              | Some (Accepted a) \<Rightarrow> t_on_accepted a t_rx t
              | Some (Executed e) \<Rightarrow> t_on_executed e t
              | Some (Canceled c) \<Rightarrow> t_on_canceled c t
              | Some (Rejected j) \<Rightarrow> t_on_rejected j t)
        else if type = kServerHeartbeat then t
        else if type = kEndOfSession then t\<lparr>tr_stop := True\<rparr>
        else t)"

text \<open>\<open>oe_up_ = false; stop_ = true\<close>.\<close>

definition oe_lost :: "trader \<Rightarrow> trader" where
  "oe_lost t = t\<lparr>tr_oe_up := False, tr_stop := True\<rparr>"

fun read_oe :: "t_env \<Rightarrow> recv_result list \<Rightarrow> trader \<Rightarrow> trader" where
  "read_oe E [] t = t"
| "read_oe E (RecvAgain # _) t = t"
| "read_oe E (RecvIntr # rs) t = read_oe E rs t"
| "read_oe E (RecvEof # _) t = oe_lost t"
| "read_oe E (RecvErr # _) t = oe_lost t"
| "read_oe E (Got c # rs) t =
     (case recv_into c (tr_oe_reader t) of (some, r) \<Rightarrow>
        if \<not> some then oe_lost (t\<lparr>tr_oe_reader := r\<rparr>)
        else let (t_rx, t) = t_realtime_ns E t;
                 (now, t) = t_now_ns E t;
                 (fs, st, r) = fr_drain r;
                 t = fold (handle_oe_frame t_rx) fs (t\<lparr>tr_last_oe_rx := now, tr_oe_reader := r\<rparr>)
             in if st = Error then oe_lost t else read_oe E rs t)"

section \<open>Transmit time stamps\<close>

text \<open>The first used entry with the id is released and timed.\<close>

definition tx_stamp_done :: "tx_stamp \<Rightarrow> trader \<Rightarrow> trader" where
  "tx_stamp_done s t =
     (case find (\<lambda>i. tp_used (tr_tx_ring t ! i) \<and> tp_tx_id (tr_tx_ring t ! i) = ts_id s) [0..<length (tr_tx_ring t)] of
        None \<Rightarrow> t
      | Some i \<Rightarrow>
          let tp = tr_tx_ring t ! i;
              t = t\<lparr>tr_tx_ring := (tr_tx_ring t)[i := tp\<lparr>tp_used := False\<rparr>]\<rparr>;
              t = (if ts_ns s \<ge> tp_t_send_start tp then t\<lparr>tr_s_tx_stack := ls_record (ts_ns s - tp_t_send_start tp) (tr_s_tx_stack t)\<rparr> else t)
          in if tp_t_kernel_rx tp \<noteq> 0 \<and> ts_ns s \<ge> tp_t_kernel_rx tp
             then t\<lparr>tr_s_w2w := ls_record (ts_ns s - tp_t_kernel_rx tp) (tr_s_w2w t)\<rparr> else t)"

text \<open>Batches of at most 32 stamps; the end of the list is an empty error queue.\<close>

fun drain_tx_stamps :: "tx_stamp list list \<Rightarrow> trader \<Rightarrow> nat \<times> trader" where
  "drain_tx_stamps [] t = (0, t)"
| "drain_tx_stamps (stamps # batches) t =
     (if stamps = [] then (0, t)
      else let t = fold tx_stamp_done stamps t
           in if length stamps < 32 then (length stamps, t)
              else case drain_tx_stamps batches t of (n, t) \<Rightarrow> (length stamps + n, t))"

section \<open>Housekeeping and the event loop\<close>

text \<open>\<open>so_error\<close>: the socket reports a pending error.\<close>

definition on_oe_event :: "t_env \<Rightarrow> bool \<Rightarrow> bool \<Rightarrow> bool \<Rightarrow> tx_stamp list list \<Rightarrow> bool \<Rightarrow> recv_result list \<Rightarrow> trader \<Rightarrow> trader" where
  "on_oe_event E err outp inp stamps so_error rs t =
     (let (n, t) = (if err then drain_tx_stamps stamps t else (1, t))
      in if n = 0 \<and> so_error then oe_lost t
         else let t = (if outp then flush_oe_pending E t else t)
              in if inp then read_oe E rs t else t)"

definition t_on_timer :: "t_env \<Rightarrow> u64 \<Rightarrow> trader \<Rightarrow> trader" where
  "t_on_timer E expirations t =
     (if expirations = 0 then t
      else let (now, t) = t_now_ns E t;
               t = (if tr_oe_up t \<and> now - tr_last_oe_tx t \<ge> t_kHeartbeatNs then snd (oe_send E (bare_frame kClientHeartbeat) t) else t);
               t = (if \<not> tr_synced t \<and> now - tr_last_resync_try t \<ge> kResyncRetryNs
                    then snd (snapshot E (t\<lparr>tr_last_resync_try := now\<rparr>)) else t);
               t = (if tc_verbose (tr_cfg t) \<and> now - tr_last_status t \<ge> 1000000000 then t\<lparr>tr_last_status := now\<rparr> else t);
               t = (if now \<ge> tr_deadline_ns t then t\<lparr>tr_stop := True\<rparr> else t)
           in if tr_exchange_closed t then t\<lparr>tr_stop := True\<rparr> else t)"

text \<open>The events an \<open>epoll_wait\<close> can report, with what the system calls they lead to answer.\<close>

datatype t_event =
    MdReady "(bytes \<times> u64) list"
  | OeReady bool bool bool "tx_stamp list list" bool "recv_result list"
  | TimerFired u64
  | SignalRead bool

fun t_dispatch :: "t_env \<Rightarrow> t_event \<Rightarrow> trader \<Rightarrow> trader" where
  "t_dispatch E (MdReady ds) t = on_md_readable E ds t"
| "t_dispatch E (OeReady err outp inp stamps so_error rs) t = on_oe_event E err outp inp stamps so_error rs t"
| "t_dispatch E (TimerFired n) t = t_on_timer E n t"
| "t_dispatch E (SignalRead some) t = (if some then t\<lparr>tr_stop := True\<rparr> else t)"

definition pump :: "t_env \<Rightarrow> t_event list \<Rightarrow> trader \<Rightarrow> trader" where
  "pump E evs t = fold (t_dispatch E) evs t"

text \<open>\<open>while (!stop_) pump(timeout)\<close>, for the given turns.\<close>

fun t_loop :: "t_env \<Rightarrow> t_event list list \<Rightarrow> trader \<Rightarrow> trader" where
  "t_loop E [] t = t"
| "t_loop E (evs # turns) t = (if tr_stop t then t else t_loop E turns (pump E evs t))"

text \<open>The wait for the last reports: each turn reads the clock.\<close>

fun wind_down :: "t_env \<Rightarrow> u64 \<Rightarrow> t_event list list \<Rightarrow> trader \<Rightarrow> trader" where
  "wind_down E until [] t = t"
| "wind_down E until (evs # turns) t =
     (if tr_oe_up t \<and> fm_size (tr_orders t) > 0
      then case t_now_ns E t of (now, t) \<Rightarrow> if now < until then wind_down E until turns (pump E evs t) else t
      else t)"

text \<open>The login reply: the outer \<open>None\<close> is the exception, thrown when the connection ends or another
  frame than Login Accepted comes first. One frame is taken from the reader per \<open>recv\<close>.\<close>

fun await_login :: "bytes list \<Rightarrow> frame_reader \<Rightarrow> frame_reader option" where
  "await_login [] r = None"
| "await_login (c # cs) r =
     (case recv_into c r of
        (False, _) \<Rightarrow> None
      | (True, r) \<Rightarrow>
          (case fr_next r of
             (Frame type p, r) \<Rightarrow> if type = kLoginAccepted then Some r else None
           | (_, r) \<Rightarrow> await_login cs r))"

definition connect_order_entry :: "t_env \<Rightarrow> tcp_conn \<Rightarrow> bool \<Rightarrow> trader \<Rightarrow> trader option" where
  "connect_order_entry E conn ts_enabled t =
     (case conn of
        NoConnect \<Rightarrow> None
      | Conn ss cs \<Rightarrow>
          let t = t\<lparr>tr_tx_ts := tc_tx_timestamps (tr_cfg t) \<and> ts_enabled, tr_oe_up := True\<rparr>;
              (frame, fn) = login_frame (tc_user (tr_cfg t)) (replicate 64 0) 64
          in if \<not> send_all_blocking ss fn then None
             else let t = t\<lparr>tr_stream_bytes := tr_stream_bytes t + of_nat fn, tr_wire := tr_wire t @ take fn frame\<rparr>;
                      (now, t) = t_now_ns E t;
                      t = t\<lparr>tr_last_oe_tx := now\<rparr>
                  in map_option (\<lambda>r. t\<lparr>tr_oe_reader := r\<rparr>) (await_login cs (tr_oe_reader t)))"

text \<open>\<open>Trader::run\<close>. \<open>None\<close>: the initial snapshot failed, or the order entry login threw. \<open>turns\<close> and
  \<open>last\<close> are the events of the main loop and of the wind-down.\<close>

definition t_start :: "t_env \<Rightarrow> tcp_conn \<Rightarrow> bool \<Rightarrow> trader \<Rightarrow> trader option" where
  "t_start E conn ts_enabled t =
     (case snapshot E t of
        (False, t) \<Rightarrow> None
      | (True, t) \<Rightarrow>
          map_option (\<lambda>t. let (now, t) = t_now_ns E t
                in t\<lparr>tr_start_ns := now, tr_deadline_ns := now + tc_duration_s (tr_cfg t) * 1000000000\<rparr>)
            (connect_order_entry E conn ts_enabled t))"

definition t_finish :: "t_env \<Rightarrow> t_event list list \<Rightarrow> tx_stamp list list \<Rightarrow> trader \<Rightarrow> trader" where
  "t_finish E last_turns stamps t =
     (let t = cancel_all E t;
          (now, t) = t_now_ns E t;
          t = wind_down E (now + 200000000) last_turns (t\<lparr>tr_stop := False\<rparr>)
      in if tr_oe_up t then snd (drain_tx_stamps stamps (snd (oe_send E (bare_frame kLogoutRequest) t))) else t)"

definition t_run :: "t_env \<Rightarrow> tcp_conn \<Rightarrow> bool \<Rightarrow> t_event list list \<Rightarrow> t_event list list \<Rightarrow> tx_stamp list list \<Rightarrow> trader \<Rightarrow> trader option" where
  "t_run E conn ts_enabled turns last_turns stamps t =
     map_option (\<lambda>t. t_finish E last_turns stamps (t_loop E turns t)) (t_start E conn ts_enabled t)"

end
