(* ===== verification/Trader_Inv.thy ===== *)
theory Trader_Inv
  imports Trader "HOL-Library.Sublist"
begin

text \<open>
  The invariant of the trader over its event loop, whatever the network and the exchange do: the
  accounting of the risk gate agrees with the order table, the bytes on the order entry connection
  are whole frames of permitted orders with increasing references, and the replica stays a valid book.
\<close>

section \<open>What the operations leave alone\<close>

text \<open>The accounts, the outgoing bytes and the market data state; each operation changes few of them.\<close>

definition core :: "trader \<Rightarrow> trader_config \<times> symbol \<times> live_order flat_map \<times> risk_gate \<times> u32 \<times> u64 \<times> signal list" where
  "core t = (tr_cfg t, tr_symbol t, tr_orders t, tr_risk t, tr_next_user_ref t, tr_orders_sent t, tr_sent t)"

definition outgoing :: "trader \<Rightarrow> bytes \<times> bytes \<times> u64" where
  "outgoing t = (tr_wire t, tr_oe_pending t, tr_stream_bytes t)"

definition market :: "trader \<Rightarrow> u16 \<times> order_book \<times> sequence_tracker \<times> bool" where
  "market t = (tr_locate t, tr_book t, tr_seq t, tr_synced t)"

named_theorems views

lemmas view_defs = core_def outgoing_def market_def

lemma clock_views [views]:
  "core (snd (t_now_ns E t)) = core t" "core (snd (t_realtime_ns E t)) = core t"
  "outgoing (snd (t_now_ns E t)) = outgoing t" "outgoing (snd (t_realtime_ns E t)) = outgoing t"
  "market (snd (t_now_ns E t)) = market t" "market (snd (t_realtime_ns E t)) = market t"
  by (simp_all add: t_now_ns_def t_realtime_ns_def view_defs)

lemma oe_send_views [views]:
  "core (snd (oe_send E p t)) = core t" "market (snd (oe_send E p t)) = market t"
  by (auto simp: oe_send_def view_defs t_now_ns_def Let_def split: send_result.splits)

lemma flush_views [views]: "core (flush_oe_pending E t) = core t" "market (flush_oe_pending E t) = market t"
proof (induction E t rule: flush_oe_pending.induct)
  case (1 E t)
  { case 1 show ?case using "1.IH"(1) by (subst flush_oe_pending.simps) (auto simp: core_def Let_def split: send_result.split) }
  { case 2 show ?case using "1.IH"(2) by (subst flush_oe_pending.simps) (auto simp: market_def Let_def split: send_result.split) }
qed

lemma fold_view: "(\<And>x t. V (f x t) = V t) \<Longrightarrow> V (fold f xs t) = V t"
  by (induction xs arbitrary: t) simp_all

lemma cancel_all_views [views]: "core (cancel_all E t) = core t" "market (cancel_all E t) = market t"
  by (simp_all add: cancel_all_def send_cancel_def views Let_def fold_view)

lemma snap_message_views: "core (snd (snap_message m st)) = core (snd st)" "outgoing (snd (snap_message m st)) = outgoing (snd st)"
  by (auto simp: snap_message_def core_def outgoing_def split: itch_message.splits prod.splits)

lemma snap_frames_views:
  "core (snd (snd (snap_frames fs st))) = core (snd st)" "outgoing (snd (snd (snap_frames fs st))) = outgoing (snd st)"
  by (induction fs st rule: snap_frames.induct) (auto simp: snap_message_views split: option.splits)

lemma snap_recv_views:
  "core (snd (snap_recv cs r st)) = core (snd st)" "outgoing (snd (snap_recv cs r st)) = outgoing (snd st)"
proof (induction cs r st rule: snap_recv.induct)
  case (2 c cs r st)
  { case 1 show ?case using "2.IH"(1) snap_frames_views(1) [of "fst (fr_drain (snd (recv_into c r)))" st]
      by (auto split: prod.splits bool.splits) }
  { case 2 show ?case using "2.IH"(2) snap_frames_views(2) [of "fst (fr_drain (snd (recv_into c r)))" st]
      by (auto split: prod.splits bool.splits) }
qed auto

text \<open>What a snapshot does to the trader, in the case that matters and in all others.\<close>

lemma snapshot_cases:
  assumes "snapshot E t = (ok, t')"
  obtains (early) "\<not> ok" "t' = t\<lparr>tr_tick := Suc (tr_tick t)\<rparr>"
  | (failed) ss cs next_seq where "\<not> ok" "te_snap E (tr_tick t) = Conn ss cs"
      "snap_recv cs FrameReader ((0, False), t\<lparr>tr_tick := Suc (tr_tick t), tr_book := ob_clear (tr_book t), tr_locate := 0\<rparr>) = (next_seq, t')"
  | (rebuilt) ss cs next_seq t1 where "ok" "te_snap E (tr_tick t) = Conn ss cs"
      "snap_recv cs FrameReader ((0, False), t\<lparr>tr_tick := Suc (tr_tick t), tr_book := ob_clear (tr_book t), tr_locate := 0\<rparr>) = (Some next_seq, t1)"
      "tr_locate t1 \<noteq> 0"
      "t' = t1\<lparr>tr_seq := st_reset next_seq (tr_seq t1), tr_synced := True, tr_snapshots := tr_snapshots t1 + 1\<rparr>"
proof (cases "te_snap E (tr_tick t)")
  case NoConnect
  then show ?thesis using assms early by (simp add: snapshot_def Let_def)
next
  case (Conn ss cs)
  obtain sq t1 where "snap_recv cs FrameReader ((0, False), t\<lparr>tr_tick := Suc (tr_tick t), tr_book := ob_clear (tr_book t), tr_locate := 0\<rparr>) = (sq, t1)"
    by fastforce
  then show ?thesis using assms Conn early failed rebuilt
    by (cases sq) (auto simp: snapshot_def Let_def split: if_splits)
qed

lemma snapshot_views [views]: "core (snd (snapshot E t)) = core t" "outgoing (snd (snapshot E t)) = outgoing t"
proof -
  obtain ok t' where s: "snapshot E t = (ok, t')" by fastforce
  have v: "core t1 = core t" "outgoing t1 = outgoing t"
    if "snap_recv cs r ((0, False), t\<lparr>tr_tick := n, tr_book := b, tr_locate := 0\<rparr>) = (q, t1)" for cs r n b q t1
    using snap_recv_views [of cs r "((0, False), t\<lparr>tr_tick := n, tr_book := b, tr_locate := 0\<rparr>)"] that
    by (simp_all add: view_defs)
  from s have "core t' = core t \<and> outgoing t' = outgoing t"
  proof (cases rule: snapshot_cases)
    case (rebuilt ss cs next_seq t1)
    then show ?thesis using v [OF rebuilt(3)] by (simp add: view_defs)
  qed (use v in \<open>auto simp: view_defs\<close>)
  with s show "core (snd (snapshot E t)) = core t" "outgoing (snd (snapshot E t)) = outgoing t" by simp_all
qed

lemma packet_message_views: "core (snd (packet_message m st)) = core (snd st)" "outgoing (snd (packet_message m st)) = outgoing (snd st)"
  by (auto simp: packet_message_def core_def outgoing_def Let_def split: prod.splits verdict.splits option.splits apply_result.splits itch_message.splits)

lemma packet_fold_views:
  "core (snd (fold packet_message ms st)) = core (snd st)" "outgoing (snd (fold packet_message ms st)) = outgoing (snd st)"
  by (induction ms arbitrary: st) (simp_all add: packet_message_views)

lemma packet_latency_views [views]:
  "core (packet_latency ps a b c t) = core t" "outgoing (packet_latency ps a b c t) = outgoing t"
  "market (packet_latency ps a b c t) = market t"
  by (simp_all add: packet_latency_def view_defs Let_def)

lemma tx_views [views]: "core (tx_stamp_done s t) = core t" "outgoing (tx_stamp_done s t) = outgoing t" "market (tx_stamp_done s t) = market t"
  by (auto simp: tx_stamp_done_def view_defs Let_def split: option.split)

lemma drain_tx_views [views]:
  "core (snd (drain_tx_stamps ss t)) = core t" "outgoing (snd (drain_tx_stamps ss t)) = outgoing t"
  "market (snd (drain_tx_stamps ss t)) = market t"
  by (induction ss t rule: drain_tx_stamps.induct)
    (auto simp: views Let_def fold_view split: prod.split)

section \<open>The frames the trader sends\<close>

lemma bare_frame_bytes: "bare_frame type = frame_bytes type []"
  by (simp add: bare_frame_def write_frame_bytes frame_ok_def kMaxFrame_def blit_def)

lemma cancel_frame_bytes:
  "cancel_frame r = frame_bytes kUnsequencedData (inbound_bytes (CancelOrder \<lparr>co_user_ref = r, co_qty = 0\<rparr>))"
proof -
  let ?m = "CancelOrder \<lparr>co_user_ref = r, co_qty = 0\<rparr>"
  have n: "length (inbound_bytes ?m) = 9" using length_inbound_bytes [of ?m] by (simp add: inbound_len_def)
  have e: "encode_inbound ?m (replicate 9 0) 9 = (inbound_bytes ?m, 9)"
    using encode_inbound_written [of ?m 9 "replicate 9 0"] n by (simp add: blit_def inbound_len_def)
  show ?thesis using n by (simp add: cancel_frame_def e write_frame_bytes frame_ok_def kMaxFrame_def blit_def)
qed

lemma length_make_clordid [simp]: "length (make_clordid s) = 14"
proof -
  have "length (fold (\<lambda>i out. out[i := f i]) is xs) = length xs" for f :: "nat \<Rightarrow> u8" and "is" xs
    by (induction "is" arbitrary: xs) auto
  then show ?thesis by (simp add: make_clordid_def)
qed

definition order_msg :: "u32 \<Rightarrow> signal \<Rightarrow> symbol \<Rightarrow> inbound" where
  "order_msg r sg symb = EnterOrder \<lparr>eo_user_ref = r, eo_side = sg_side sg, eo_qty = sg_qty sg, eo_symbol = symb,
     eo_price = sg_price sg, eo_tif = IOC, eo_clordid = make_clordid (str ''PF'' @ dec_digits (unat r))\<rparr>"

lemma order_frame_bytes:
  assumes "length symb = 8" "int64_range (sg_price sg)"
  shows "order_frame r sg symb = frame_bytes kUnsequencedData (inbound_bytes (order_msg r sg symb))"
proof -
  let ?m = "order_msg r sg symb"
  have wf: "inbound_wf ?m" using assms by (simp add: order_msg_def)
  then have n: "length (inbound_bytes ?m) = 41" by (simp add: order_msg_def inbound_len_def)
  have e: "encode_inbound ?m (replicate 61 0) 61 = (inbound_bytes ?m @ replicate 20 0, 41)"
    using encode_inbound_written [OF wf, of 61 "replicate 61 0"] n by (simp add: blit_def order_msg_def inbound_len_def)
  have f: "order_frame r sg symb = take 44 ((put_u16 (replicate 3 0 @ inbound_bytes ?m @ replicate 20 0) 0 42)[2 := kUnsequencedData])"
    unfolding order_frame_def order_msg_def [symmetric] using e by (simp add: kFrameHeaderLen_def)
  obtain a b where ab: "u16_be 42 = [a, b]" using length_u16_be [of 42] by (cases "u16_be 42"; cases "tl (u16_be 42)") auto
  show ?thesis unfolding f using n by (simp add: put_u16_def blit_def frame_bytes_def ab u8_be_def numeral_3_eq_3)
qed

lemma login_frame_bytes:
  "\<exists>p. login_frame user (replicate 64 0) 64 = (blit (replicate 64 0) 0 (frame_bytes kLoginRequest p), 49) \<and> length p = 46 \<and>
     p = login_request_bytes \<lparr>lr_username = user, lr_password = str ''pulse'', lr_requested_session = [], lr_requested_sequence = 1\<rparr>"
proof -
  let ?m = "\<lparr>lr_username = user, lr_password = str ''pulse'', lr_requested_session = [], lr_requested_sequence = 1\<rparr>"
  have n: "length (login_request_bytes ?m) = 46" by (simp add: login_request_bytes_def)
  have e: "encode_login_request ?m (replicate 46 0) 46 = (login_request_bytes ?m, 46)"
    using encode_login_request_bytes [of 46 "replicate 46 0" ?m] n by (simp add: blit_def)
  show ?thesis using n
    by (simp add: login_frame_def kLoginRequestLen_def e write_frame_bytes frame_ok_def kMaxFrame_def)
qed

section \<open>The byte stream\<close>

text \<open>The bytes the kernel took followed by those still pending are whole frames, and the counter that
  names transmit time stamps is the number of bytes taken.\<close>

definition frame_stream :: "(u8 \<times> bytes) list \<Rightarrow> trader \<Rightarrow> bool" where
  "frame_stream fs t \<longleftrightarrow> tr_wire t @ tr_oe_pending t = frames_bytes fs \<and> tr_stream_bytes t = of_nat (length (tr_wire t))"

lemma oe_send_stream:
  assumes "frame_stream fs t" "p = frame_bytes ty q"
  shows "frame_stream fs (snd (oe_send E p t)) \<or> frame_stream (fs @ [(ty, q)]) (snd (oe_send E p t))"
  using assms by (auto simp: frame_stream_def oe_send_def t_now_ns_def Let_def split: send_result.splits)

lemma flush_stream: "frame_stream fs t \<Longrightarrow> frame_stream fs (flush_oe_pending E t)"
proof (induction E t rule: flush_oe_pending.induct)
  case (1 E t)
  show ?case
  proof (cases "tr_oe_pending t = []")
    case True
    then show ?thesis using "1.prems" by (subst flush_oe_pending.simps) (simp add: frame_stream_def)
  next
    case False
    show ?thesis
    proof (cases "te_send E (tr_tick t)")
      case (Sent k)
      have "frame_stream fs (t\<lparr>tr_tick := Suc (tr_tick t), tr_stream_bytes := tr_stream_bytes t + of_nat (min k (length (tr_oe_pending t))),
          tr_wire := tr_wire t @ take k (tr_oe_pending t), tr_oe_pending := drop k (tr_oe_pending t)\<rparr>)"
        using "1.prems" by (simp add: frame_stream_def min.commute)
      then show ?thesis using "1.IH" [OF False refl refl Sent _ refl] False Sent "1.prems"
        by (subst flush_oe_pending.simps) (auto simp: frame_stream_def Let_def min_def)
    qed (use False "1.prems" in \<open>subst flush_oe_pending.simps, simp add: frame_stream_def\<close>)+
  qed
qed

section \<open>The accounts\<close>

text \<open>The risk gate has seen a history of the contract of \<open>Risk\<close> in which the order table is one of the
  open orders with its remaining quantity; \<open>ts\<close> lists the times at which orders were sent.\<close>

definition tracked :: "open_order list \<Rightarrow> (u64 \<rightharpoonup> live_order) \<Rightarrow> bool" where
  "tracked os m \<longleftrightarrow> m = Map.empty \<or>
     (\<exists>k ord xs ys. m = [k \<mapsto> ord] \<and> os = xs @ (lo_side ord, unat (lo_leaves ord)) # ys)"

lemma trackedI: "m = [k \<mapsto> ord] \<Longrightarrow> os = xs @ (lo_side ord, unat (lo_leaves ord)) # ys \<Longrightarrow> tracked os m"
  unfolding tracked_def by blast

definition accounts :: "risk_limits \<Rightarrow> open_order list \<Rightarrow> u64 list \<Rightarrow> trader \<Rightarrow> bool" where
  "accounts lim os ts t \<longleftrightarrow> risk_run lim os ts (tr_risk t) \<and> fm_inv (tr_orders t) \<and>
     tracked os (fm_find (tr_orders t)) \<and> tr_next_user_ref t = of_nat (Suc (length ts)) \<and>
     tr_orders_sent t = of_nat (length ts) \<and> length (tr_sent t) = length ts"

lemma accounts_core: "core t' = core t \<Longrightarrow> accounts lim os ts t' = accounts lim os ts t"
  by (simp add: accounts_def core_def)

lemma accounts_idle:
  assumes "accounts lim os ts t" "\<not> fm_size (tr_orders t) > 0"
  shows "fm_find (tr_orders t) = Map.empty"
  using assms fm_size_card [of "tr_orders t"] fm_dom_find [of "tr_orders t"] by (auto simp: accounts_def)

text \<open>An order that passed the gate enters the table when it is stored; when it cannot be stored, the
  gate still counts it as open.\<close>

lemma accounts_sent:
  assumes A: "accounts lim os ts t" and e: "fm_find (tr_orders t) = Map.empty"
    and p: "risk_check (sg_side sg) price (sg_qty sg) ref now (tr_risk t) = Pass"
    and t': "tr_orders t' = snd (fm_insert (ucast (tr_next_user_ref t)) ord (tr_orders t))"
      "tr_risk t' = on_order_sent (sg_side sg) (sg_qty sg) now (tr_risk t)" "tr_next_user_ref t' = tr_next_user_ref t + 1"
      "lo_side ord = sg_side sg" "lo_leaves ord = sg_qty sg" "tr_orders_sent t' = tr_orders_sent t + 1" "tr_sent t' = tr_sent t @ [sg]"
  shows "accounts lim ((sg_side sg, unat (sg_qty sg)) # os) (ts @ [now]) t'"
proof -
  let ?k = "ucast (tr_next_user_ref t) :: u64"
  have inv: "fm_inv (tr_orders t)" using A by (simp add: accounts_def)
  obtain ok m' where m': "fm_insert ?k ord (tr_orders t) = (ok, m')" by fastforce
  have "fm_inv m' \<and> tracked ((sg_side sg, unat (sg_qty sg)) # os) (fm_find m')"
  proof (cases ok)
    case True
    then have "fm_inv m'" "fm_find m' = [?k \<mapsto> ord]" using fm.insert_find_other [OF inv] m' e by auto
    then show ?thesis using t'(4,5) trackedI [of "fm_find m'" _ ord _ "[]" os] by simp
  next
    case False
    then have "m' = tr_orders t" using m' by (auto simp: fm_insert_def split: if_splits option.splits)
    then show ?thesis using inv e by (simp add: tracked_def)
  qed
  moreover have "risk_run lim ((sg_side sg, unat (sg_qty sg)) # os) (ts @ [now]) (tr_risk t')"
    using risk_run.sent [OF _ p] A t'(2) by (simp add: accounts_def)
  ultimately show ?thesis using A t'(1,3,6,7) m' by (simp add: accounts_def)
qed

lemma tracked_find:
  assumes "tracked os m" "m k = Some ord"
  obtains xs ys where "m = [k \<mapsto> ord]" "os = xs @ (lo_side ord, unat (lo_leaves ord)) # ys"
  using assms by (auto simp: tracked_def split: if_splits)

text \<open>A report about the live order: \<open>settle\<close> is what the gate is told of \<open>q\<close> shares; the order is closed
  when none is left.\<close>

lemma accounts_settled:
  assumes A: "accounts lim os ts t" and f: "fm_find (tr_orders t) (ucast r) = Some ord" and q: "q \<le> lo_leaves ord"
    and settle: "settle = risk_on_fill \<or> settle = on_cancelled"
    and u: "tr_orders u = fm_store (ucast r) (ord\<lparr>lo_leaves := lo_leaves ord - q\<rparr>) (tr_orders t)"
      "tr_risk u = settle (lo_side ord) q (tr_risk t)" "tr_next_user_ref u = tr_next_user_ref t"
      "tr_orders_sent u = tr_orders_sent t" "tr_sent u = tr_sent t"
  shows "\<exists>os'. accounts lim os' ts (if lo_leaves ord = q then close_order r u else u)"
proof -
  have inv: "fm_inv (tr_orders t)" using A by (simp add: accounts_def)
  obtain xs ys where os: "fm_find (tr_orders t) = [ucast r \<mapsto> ord]" "os = xs @ (lo_side ord, unat (lo_leaves ord)) # ys"
    using A f by (auto simp: accounts_def elim: tracked_find)
  have n: "unat q \<le> unat (lo_leaves ord)" "unat (lo_leaves ord - q) = unat (lo_leaves ord) - unat q"
    using q by (simp_all add: word_le_nat_alt unat_sub)
  have M: "fm_inv (tr_orders u)" "fm_find (tr_orders u) = [ucast r \<mapsto> ord\<lparr>lo_leaves := lo_leaves ord - q\<rparr>]"
    using fm_store_ok [OF inv f] os(1) u(1) by simp_all
  have R: "risk_run lim (xs @ (lo_side ord, unat (lo_leaves ord) - unat q) # ys) ts (tr_risk u)"
    using A os(2) settle risk_run.filled [OF _ n(1), of lim xs "lo_side ord" ys ts "tr_risk t"]
      risk_run.cancelled [OF _ n(1), of lim xs "lo_side ord" ys ts "tr_risk t"]
    by (auto simp: accounts_def u(2))
  have nu: "tr_next_user_ref u = of_nat (Suc (length ts))" "tr_orders_sent u = of_nat (length ts)" "length (tr_sent u) = length ts"
    using A u(3-5) by (simp_all add: accounts_def)
  show ?thesis
  proof (cases "lo_leaves ord = q")
    case True
    have "risk_run lim (xs @ ys) ts (on_order_closed (tr_risk u))" using R True by (intro risk_run.closed) simp
    moreover obtain m' where "fm_erase (ucast r) (tr_orders u) = (True, m')" "fm_inv m'" "fm_find m' = Map.empty"
      using fm.erase_ok [OF M(1), of "ucast r"] M(2) by (auto simp: fun_upd_twist)
    ultimately show ?thesis using True nu by (auto simp: accounts_def close_order_def tracked_def)
  next
    case False
    then show ?thesis using R M(1) nu n(2) trackedI [OF M(2), of "xs @ (lo_side ord, unat (lo_leaves ord) - unat q) # ys" xs ys]
      by (intro exI [of _ "xs @ (lo_side ord, unat (lo_leaves ord) - unat q) # ys"]) (simp add: accounts_def)
  qed
qed

lemma accounts_unknown: "accounts lim os ts t \<Longrightarrow> accounts lim os ts (unknown_report t)"
  by (simp add: accounts_def unknown_report_def)

lemma accounts_accepted:
  assumes "accounts lim os ts t"
  shows "accounts lim os ts (t_on_accepted a t_rx t)"
proof (cases "fm_find (tr_orders t) (ucast (oa_user_ref a))")
  case (Some ord)
  have inv: "fm_inv (tr_orders t)" using assms by (simp add: accounts_def)
  obtain xs ys where os: "fm_find (tr_orders t) = [ucast (oa_user_ref a) \<mapsto> ord]" "os = xs @ (lo_side ord, unat (lo_leaves ord)) # ys"
    using assms Some by (auto simp: accounts_def elim: tracked_find)
  let ?m = "fm_store (ucast (oa_user_ref a)) (ord\<lparr>lo_accepted := True, lo_exch_id := oa_order_ref a\<rparr>) (tr_orders t)"
  have "fm_inv ?m" "tracked os (fm_find ?m)"
    using fm_store_ok [OF inv Some] os
      trackedI [of "fm_find ?m" "ucast (oa_user_ref a)" "ord\<lparr>lo_accepted := True, lo_exch_id := oa_order_ref a\<rparr>" os xs ys] by simp_all
  then show ?thesis using assms Some by (simp add: t_on_accepted_def accounts_def Let_def)
qed (use assms in \<open>simp add: t_on_accepted_def accounts_unknown\<close>)

lemma accounts_executed:
  assumes "accounts lim os ts t"
  shows "\<exists>os'. accounts lim os' ts (t_on_executed e t)"
proof (cases "fm_find (tr_orders t) (ucast (ox_user_ref e))")
  case None
  then show ?thesis using accounts_unknown [OF assms] by (auto simp: t_on_executed_def)
next
  case (Some ord)
  define q where "q = (if ox_qty e > lo_leaves ord then lo_leaves ord else ox_qty e)"
  define u where "u = t\<lparr>tr_orders := fm_store (ucast (ox_user_ref e)) (ord\<lparr>lo_leaves := lo_leaves ord - q\<rparr>) (tr_orders t),
    tr_risk := risk_on_fill (lo_side ord) q (tr_risk t),
    tr_cash := s64 (tr_cash t + (if lo_side ord = Buy then s64 (- s64 (ox_price e * int (unat q))) else s64 (ox_price e * int (unat q)))),
    tr_fills := tr_fills t + 1, tr_filled_shares := tr_filled_shares t + ucast q\<rparr>"
  have "t_on_executed e t = (if lo_leaves ord = q then close_order (ox_user_ref e) u else u)"
    by (simp add: t_on_executed_def Some q_def [symmetric] u_def Let_def)
  moreover have "q \<le> lo_leaves ord" by (auto simp: q_def)
  ultimately show ?thesis using accounts_settled [OF assms Some, of q risk_on_fill u] by (simp add: u_def)
qed

lemma accounts_canceled:
  assumes "accounts lim os ts t"
  shows "\<exists>os'. accounts lim os' ts (t_on_canceled c t)"
proof (cases "fm_find (tr_orders t) (ucast (ocx_user_ref c))")
  case None
  then show ?thesis using accounts_unknown [OF assms] by (auto simp: t_on_canceled_def)
next
  case (Some ord)
  define q where "q = (if ocx_qty c > lo_leaves ord then lo_leaves ord else ocx_qty c)"
  define u where "u = t\<lparr>tr_orders := fm_store (ucast (ocx_user_ref c)) (ord\<lparr>lo_leaves := lo_leaves ord - q\<rparr>) (tr_orders t),
    tr_risk := on_cancelled (lo_side ord) q (tr_risk t), tr_cancels := tr_cancels t + 1\<rparr>"
  have "t_on_canceled c t = (if lo_leaves ord = q then close_order (ocx_user_ref c) u else u)"
    by (simp add: t_on_canceled_def Some q_def [symmetric] u_def Let_def)
  moreover have "q \<le> lo_leaves ord" by (auto simp: q_def)
  ultimately show ?thesis using accounts_settled [OF assms Some, of q on_cancelled u] by (simp add: u_def)
qed

lemma accounts_rejected:
  assumes "accounts lim os ts t"
  shows "\<exists>os'. accounts lim os' ts (t_on_rejected j t)"
proof (cases "fm_find (tr_orders t) (ucast (oj_user_ref j))")
  case None
  then show ?thesis using accounts_unknown [OF assms] by (auto simp: t_on_rejected_def)
next
  case (Some ord)
  define u where "u = t\<lparr>tr_rejects := tr_rejects t + 1, tr_risk := on_cancelled (lo_side ord) (lo_leaves ord) (tr_risk t),
    tr_orders := fm_store (ucast (oj_user_ref j)) (ord\<lparr>lo_leaves := 0\<rparr>) (tr_orders t)\<rparr>"
  have "t_on_rejected j t = close_order (oj_user_ref j) u" by (simp add: t_on_rejected_def Some u_def Let_def)
  then show ?thesis using accounts_settled [OF assms Some, of "lo_leaves ord" on_cancelled u] by (simp add: u_def)
qed

lemma accounts_frame:
  assumes "accounts lim os ts t"
  shows "\<exists>os'. accounts lim os' ts (handle_oe_frame t_rx f t)"
proof -
  have "accounts lim os ts (t\<lparr>tr_bad_messages := n\<rparr>)" "accounts lim os ts (t\<lparr>tr_stop := b\<rparr>)" for n b
    using assms by (simp_all add: accounts_def)
  then show ?thesis
    using assms accounts_accepted [OF assms] accounts_executed [OF assms] accounts_canceled [OF assms] accounts_rejected [OF assms]
    unfolding handle_oe_frame_def by (fastforce split: outbound.split prod.split option.split)
qed

section \<open>The replica stays a valid book\<close>

definition book_ok :: "order_book \<Rightarrow> bool" where
  "book_ok b \<longleftrightarrow> book_inv b \<and> ob_cfg b = default_config"

lemma book_ok_steps:
  assumes "book_ok b"
  shows "book_ok (snd (ob_add k s p q ow ur b))" "book_ok (snd (ob_remove k b))" "book_ok (snd (ob_reduce k q b))"
    "book_ok (ob_clear b)"
  using assms book_add [of b k s p q ow ur] book_remove [of b k] book_reduce [of b k q] book_clear [of b]
  by (auto simp: book_ok_def)

lemma book_ok_apply: "book_ok b \<Longrightarrow> book_ok (snd (apply_itch loc m b))"
  using book_ok_steps [of b]
  by (auto simp: apply_itch_def Let_def split: itch_message.split prod.split) (metis snd_conv)+

lemma book_ok_snap: "book_ok (tr_book (snd st)) \<Longrightarrow> book_ok (tr_book (snd (snap_message m st)))"
  using book_ok_steps(1) by (auto simp: snap_message_def split: itch_message.split prod.split)

lemma book_ok_snap_frames: "book_ok (tr_book (snd st)) \<Longrightarrow> book_ok (tr_book (snd (snd (snap_frames fs st))))"
  by (induction fs st rule: snap_frames.induct) (auto simp: book_ok_snap split: option.splits)

lemma book_ok_snap_recv: "book_ok (tr_book (snd st)) \<Longrightarrow> book_ok (tr_book (snd (snap_recv cs r st)))"
proof (induction cs r st rule: snap_recv.induct)
  case (2 c cs r st)
  show ?case using 2 book_ok_snap_frames [of st "fst (fr_drain (snd (recv_into c r)))"]
    by (auto split: prod.splits bool.splits)
qed auto

lemma book_ok_snapshot:
  assumes "book_ok (tr_book t)"
  shows "book_ok (tr_book (snd (snapshot E t)))"
proof -
  obtain ok t' where s: "snapshot E t = (ok, t')" by fastforce
  have v: "book_ok (tr_book t1)"
    if "snap_recv cs r ((0, False), t\<lparr>tr_tick := n, tr_book := ob_clear (tr_book t), tr_locate := 0\<rparr>) = (q, t1)" for cs r n q t1
    using book_ok_snap_recv [of "((0, False), t\<lparr>tr_tick := n, tr_book := ob_clear (tr_book t), tr_locate := 0\<rparr>)" cs r]
      book_ok_steps(4) [OF assms] that by simp
  from s have "book_ok (tr_book t')"
    by (cases rule: snapshot_cases) (use v assms in auto)
  with s show ?thesis by simp
qed

lemma book_ok_packet: "book_ok (tr_book (snd st)) \<Longrightarrow> book_ok (tr_book (snd (packet_message m st)))"
  using book_ok_apply [of "tr_book (snd st)"]
  by (auto simp: packet_message_def Let_def split: prod.split verdict.split option.split apply_result.split itch_message.split)
    (metis snd_conv)+

lemma book_ok_packets: "book_ok (tr_book (snd st)) \<Longrightarrow> book_ok (tr_book (snd (fold packet_message ms st)))"
  by (induction ms arbitrary: st) (simp_all add: book_ok_packet)

lemma book_ok_best:
  assumes "book_ok b" "\<not> ob_empty s b"
  shows "int64_range (best_price s b)"
proof -
  have ne: "resting_orders s b \<noteq> []" using assms book_empty [of b s] by (simp add: book_ok_def)
  then have "valid_price b (best_price s b)"
    using book_best_price [of b s] book_node_facts(3) [of b "hd (resting_orders s b)" s] assms(1) by (simp add: book_ok_def)
  then show ?thesis using assms(1) by (auto simp: valid_price_def book_ok_def default_config_def kPriceScale_def int64_range_def)
qed

section \<open>The orders on the wire\<close>

definition permitted :: "risk_limits \<Rightarrow> symbol \<Rightarrow> inbound \<Rightarrow> bool" where
  "permitted lim symb m \<longleftrightarrow>
     (case m of
        EnterOrder x \<Rightarrow> eo_symbol x = symb \<and> eo_tif x = IOC \<and> 0 < eo_qty x \<and> eo_qty x \<le> rl_max_order_qty lim \<and>
          eo_price x * int (unat (eo_qty x)) \<le> rl_max_notional lim
      | CancelOrder x \<Rightarrow> co_qty x = 0)"

definition client_frame :: "risk_limits \<Rightarrow> symbol \<Rightarrow> u8 \<times> bytes \<Rightarrow> bool" where
  "client_frame lim symb f \<longleftrightarrow>
     (case f of (ty, p) \<Rightarrow> frame_ok p \<and>
        (ty = kLoginRequest \<or> (ty = kClientHeartbeat \<or> ty = kLogoutRequest) \<and> p = [] \<or>
         ty = kUnsequencedData \<and> (case decode_inbound p of None \<Rightarrow> False | Some m \<Rightarrow> permitted lim symb m)))"

text \<open>The references of the orders in a list of frames.\<close>

fun order_refs :: "(u8 \<times> bytes) list \<Rightarrow> u32 list" where
  "order_refs [] = []"
| "order_refs ((ty, p) # fs) =
     (case decode_inbound p of
        Some (EnterOrder m) \<Rightarrow> if ty = kUnsequencedData then eo_user_ref m # order_refs fs else order_refs fs
      | _ \<Rightarrow> order_refs fs)"

lemma order_refs_append [simp]: "order_refs (fs @ gs) = order_refs fs @ order_refs gs"
  by (induction fs rule: order_refs.induct) (auto split: option.split inbound.split)

definition orders_ok :: "risk_limits \<Rightarrow> symbol \<Rightarrow> nat \<Rightarrow> (u8 \<times> bytes) list \<Rightarrow> bool" where
  "orders_ok lim symb n fs \<longleftrightarrow> (\<forall>f\<in>set fs. client_frame lim symb f) \<and>
     subseq (order_refs fs) (map of_nat [1..<Suc n])"

lemma type_codes:
  "kUnsequencedData \<noteq> kLoginRequest" "kUnsequencedData \<noteq> kClientHeartbeat" "kUnsequencedData \<noteq> kLogoutRequest"
  by (simp_all add: kUnsequencedData_def kLoginRequest_def kClientHeartbeat_def kLogoutRequest_def)

lemma orders_ok_other:
  assumes "orders_ok lim symb n fs" "client_frame lim symb f" "order_refs [f] = []"
  shows "orders_ok lim symb n (fs @ [f])"
  using assms by (auto simp: orders_ok_def)

lemma orders_ok_more:
  assumes "orders_ok lim symb n fs" "n \<le> m"
  shows "orders_ok lim symb m fs"
proof -
  have "[1..<Suc m] = [1..<Suc n] @ [Suc n..<Suc m]" using assms(2) upt_add_eq_append [of 1 "Suc n" "m - n"] by simp
  then show ?thesis using assms(1) by (simp add: orders_ok_def list_emb_prefix del: upt_Suc)
qed

text \<open>Fewer than \<open>2^32\<close> orders: the references are strictly increasing.\<close>

lemma subseq_sorted: "subseq xs ys \<Longrightarrow> sorted_wrt R ys \<Longrightarrow> sorted_wrt R xs"
  by (induction rule: list_emb.induct) (auto dest: list_emb_set)

lemma refs_increase:
  assumes "subseq rs (map of_nat [1..<Suc n])" "n < 2 ^ 32"
  shows "sorted_wrt (<) (rs :: u32 list)"
proof -
  have "(of_nat i :: u32) < of_nat j" if "i < j" "j \<le> n" for i j
    using that assms(2) unat_of_nat_id [of i, where 'a = 32] unat_of_nat_id [of j, where 'a = 32] by (simp add: word_less_nat_alt)
  then have "sorted_wrt (<) (map of_nat [1..<Suc n] :: u32 list)" by (auto simp: sorted_wrt_iff_nth_less simp del: upt_Suc of_nat_Suc)
  with assms(1) show ?thesis by (rule subseq_sorted)
qed

lemma order_client_frame:
  assumes "length symb = 8" "int64_range (sg_price sg)"
    and "sg_qty sg > 0" "sg_qty sg \<le> rl_max_order_qty lim" "sg_price sg * int (unat (sg_qty sg)) \<le> rl_max_notional lim"
  shows "client_frame lim symb (kUnsequencedData, inbound_bytes (order_msg r sg symb))"
    "order_refs [(kUnsequencedData, inbound_bytes (order_msg r sg symb))] = [r]"
proof -
  let ?m = "order_msg r sg symb"
  have wf: "inbound_wf ?m" using assms(1,2) by (simp add: order_msg_def)
  note d = decode_inbound_bytes [OF wf]
  have "frame_ok (inbound_bytes ?m)" using length_inbound_bytes [OF wf] by (simp add: frame_ok_def kMaxFrame_def order_msg_def inbound_len_def)
  moreover have "permitted lim symb ?m" using assms(3-5) by (simp add: permitted_def order_msg_def)
  ultimately show "client_frame lim symb (kUnsequencedData, inbound_bytes ?m)" by (simp add: client_frame_def d)
  show "order_refs [(kUnsequencedData, inbound_bytes ?m)] = [r]" by (simp add: d) (simp add: order_msg_def)
qed

lemma orders_ok_order:
  assumes "orders_ok lim symb n fs" "client_frame lim symb f" "order_refs [f] = [of_nat (Suc n)]"
  shows "orders_ok lim symb (Suc n) (fs @ [f])"
proof -
  have "map of_nat [1..<Suc (Suc n)] = map of_nat [1..<Suc n] @ [of_nat (Suc n) :: u32]" by (simp del: of_nat_Suc)
  with assms show ?thesis by (simp add: orders_ok_def list_emb_append_mono del: of_nat_Suc upt_Suc)
qed

lemma cancel_client_frame:
  "client_frame lim symb (kUnsequencedData, inbound_bytes (CancelOrder \<lparr>co_user_ref = r, co_qty = 0\<rparr>))"
  "order_refs [(kUnsequencedData, inbound_bytes (CancelOrder \<lparr>co_user_ref = r, co_qty = 0\<rparr>))] = []"
proof -
  let ?m = "CancelOrder \<lparr>co_user_ref = r, co_qty = 0\<rparr>"
  have d: "decode_inbound (inbound_bytes ?m) = Some ?m" by (rule decode_inbound_bytes) simp
  have "length (inbound_bytes ?m) = 9" using length_inbound_bytes [of ?m] by (simp add: inbound_len_def)
  then show "client_frame lim symb (kUnsequencedData, inbound_bytes ?m)"
    by (simp add: client_frame_def d permitted_def frame_ok_def kMaxFrame_def)
  show "order_refs [(kUnsequencedData, inbound_bytes ?m)] = []" by (simp add: d)
qed

lemma bare_client_frame:
  assumes "ty = kClientHeartbeat \<or> ty = kLogoutRequest"
  shows "client_frame lim symb (ty, [])" "order_refs [(ty, [])] = []"
  using assms by (auto simp: client_frame_def frame_ok_def kMaxFrame_def decode_inbound_def)

section \<open>The invariant\<close>

definition trader_ok :: "trader_config \<Rightarrow> trader \<Rightarrow> bool" where
  "trader_ok c t \<longleftrightarrow> tr_cfg t = c \<and> tr_symbol t = make_symbol (tc_symbol c) \<and> book_ok (tr_book t) \<and>
     (\<exists>os ts fs. accounts (tc_risk c) os ts t \<and> frame_stream fs t \<and> orders_ok (tc_risk c) (make_symbol (tc_symbol c)) (length ts) fs)"

lemma ok_quiet:
  assumes "trader_ok c t" "core t' = core t" "outgoing t' = outgoing t" "book_ok (tr_book t')"
  shows "trader_ok c t'"
proof -
  have "frame_stream fs t' = frame_stream fs t" for fs using assms(3) by (simp add: frame_stream_def outgoing_def)
  moreover have "tr_cfg t' = tr_cfg t" "tr_symbol t' = tr_symbol t" using assms(2) by (simp_all add: core_def)
  ultimately show ?thesis using assms(1,4) accounts_core [OF assms(2)] by (simp add: trader_ok_def)
qed

lemma ok_same:
  assumes "trader_ok c t" "core t' = core t" "outgoing t' = outgoing t" "market t' = market t"
  shows "trader_ok c t'"
  using assms(1,4) by (intro ok_quiet [OF assms(1-3)]) (simp add: trader_ok_def market_def)

lemma ok_send:
  assumes T: "trader_ok c t" and f: "client_frame (tc_risk c) (make_symbol (tc_symbol c)) (ty, q)" "order_refs [(ty, q)] = []"
  shows "trader_ok c (snd (oe_send E (frame_bytes ty q) t))"
proof -
  let ?t = "snd (oe_send E (frame_bytes ty q) t)"
  obtain os ts fs where A: "accounts (tc_risk c) os ts t" "frame_stream fs t" "orders_ok (tc_risk c) (make_symbol (tc_symbol c)) (length ts) fs"
    using T by (auto simp: trader_ok_def)
  have v: "core ?t = core t" "market ?t = market t" by (simp_all add: views)
  then have e: "tr_symbol ?t = tr_symbol t" "tr_cfg ?t = tr_cfg t" "tr_book ?t = tr_book t" by (simp_all add: view_defs)
  have "orders_ok (tc_risk c) (make_symbol (tc_symbol c)) (length ts) (fs @ [(ty, q)])"
    using orders_ok_other [OF A(3), of "(ty, q)"] f T by (simp add: trader_ok_def)
  then show ?thesis
    using T A accounts_core [OF v(1)] oe_send_stream [OF A(2) refl, of E ty q] by (auto simp: trader_ok_def e)
qed

lemma ok_flush: "trader_ok c t \<Longrightarrow> trader_ok c (flush_oe_pending E t)"
proof -
  let ?t = "flush_oe_pending E t"
  assume T: "trader_ok c t"
  have v: "core ?t = core t" "market ?t = market t" by (simp_all add: views)
  then have e: "tr_symbol ?t = tr_symbol t" "tr_cfg ?t = tr_cfg t" "tr_book ?t = tr_book t" by (simp_all add: view_defs)
  from T show ?thesis using accounts_core [OF v(1)] flush_stream by (fastforce simp: trader_ok_def e)
qed

lemma ok_cancel_all:
  assumes "trader_ok c t"
  shows "trader_ok c (cancel_all E t)"
proof -
  have "trader_ok c (send_cancel E r t)" if "trader_ok c t" for r t
    unfolding send_cancel_def cancel_frame_bytes by (intro ok_send that cancel_client_frame)
  then have "trader_ok c (fold (send_cancel E) rs t)" for rs
    using assms by (induction rs arbitrary: t) simp_all
  then show ?thesis using assms by (simp add: cancel_all_def Let_def)
qed

lemma ok_bare: "trader_ok c t \<Longrightarrow> ty = kClientHeartbeat \<or> ty = kLogoutRequest \<Longrightarrow> trader_ok c (snd (oe_send E (bare_frame ty) t))"
  unfolding bare_frame_bytes by (intro ok_send bare_client_frame) auto

lemma ok_snapshot: "trader_ok c t \<Longrightarrow> trader_ok c (snd (snapshot E t))"
  by (rule ok_quiet) (simp_all add: views book_ok_snapshot trader_ok_def)

lemma ok_resync: "trader_ok c t \<Longrightarrow> trader_ok c (resync E t)"
  unfolding resync_def
  by (intro ok_snapshot ok_cancel_all, rule ok_quiet, assumption) (simp_all add: view_defs trader_ok_def)

text \<open>An order goes out only after a pass of the gate and with no other order open.\<close>

lemma on_book_update_Some:
  assumes "on_book_update b pos inflight now st = (Some sg, st')"
  shows "\<not> inflight" "\<not> ob_empty Buy b" "\<not> ob_empty Sell b" "sg_price sg = best_price (opposite (sg_side sg)) b"
    "sg_qty sg = sp_order_qty (is_p st)"
  using assms by (auto simp: on_book_update_def Let_def opposite_def split: if_splits)

lemma record_send_views [views]:
  "core (record_send trig a b w t) = core t" "outgoing (record_send trig a b w t) = outgoing t"
  "market (record_send trig a b w t) = market t"
  by (simp_all add: record_send_def view_defs Let_def)

lemma send_order_effect:
  assumes "t1 = t\<lparr>tr_next_user_ref := tr_next_user_ref t + 1, tr_tick := Suc (tr_tick t)\<rparr>"
    and "t2 = snd (oe_send E (order_frame (tr_next_user_ref t) sg (tr_symbol t)) t1)"
  obtains ord where "tr_orders (send_order E sg trig t) = snd (fm_insert (ucast (tr_next_user_ref t)) ord (tr_orders t2))"
    "lo_side ord = sg_side sg" "lo_leaves ord = sg_qty sg"
    "tr_risk (send_order E sg trig t) = on_order_sent (sg_side sg) (sg_qty sg) (tg_book_done trig) (tr_risk t2)"
    "tr_next_user_ref (send_order E sg trig t) = tr_next_user_ref t2" "tr_orders_sent (send_order E sg trig t) = tr_orders_sent t2 + 1"
    "tr_sent (send_order E sg trig t) = tr_sent t2 @ [sg]" "tr_cfg (send_order E sg trig t) = tr_cfg t2"
    "tr_symbol (send_order E sg trig t) = tr_symbol t2" "outgoing (send_order E sg trig t) = outgoing t2"
    "market (send_order E sg trig t) = market t2"
proof -
  obtain w t2' where os: "oe_send E (order_frame (tr_next_user_ref t) sg (tr_symbol t))
      (t\<lparr>tr_next_user_ref := tr_next_user_ref t + 1, tr_tick := Suc (tr_tick t)\<rparr>) = (w, t2')" by fastforce
  then have t2: "t2' = t2" using assms by simp
  define t3 where "t3 = send_order E sg trig t"
  define ord where "ord = LiveOrder\<lparr>lo_user_ref := tr_next_user_ref t, lo_side := sg_side sg, lo_price := sg_price sg,
    lo_qty := sg_qty sg, lo_leaves := sg_qty sg, lo_t_send_start := te_real E (tr_tick t), lo_t_sent := te_real E (tr_tick t2)\<rparr>"
  define t4 where "t4 = t2\<lparr>tr_tick := Suc (tr_tick t2), tr_orders := snd (fm_insert (ucast (tr_next_user_ref t)) ord (tr_orders t2)),
    tr_risk := on_order_sent (sg_side sg) (sg_qty sg) (tg_book_done trig) (tr_risk t2), tr_orders_sent := tr_orders_sent t2 + 1,
    tr_sent := tr_sent t2 @ [sg]\<rparr>"
  have "t3 = record_send trig (te_real E (tr_tick t)) (te_real E (tr_tick t2)) w t4"
    by (simp add: t3_def send_order_def t_realtime_ns_def os t2 t4_def ord_def Let_def)
  then have "core t3 = core t4" "outgoing t3 = outgoing t4" "market t3 = market t4" by (simp_all add: views)
  then show ?thesis
    using that [of ord] by (simp add: t3_def [symmetric] t4_def ord_def view_defs)
qed

lemma ok_send_order:
  assumes T: "trader_ok c t" and idle: "fm_find (tr_orders t) = Map.empty" and price: "int64_range (sg_price sg)"
    and pass: "risk_check (sg_side sg) (sg_price sg) (sg_qty sg) ref (tg_book_done trig) (tr_risk t) = Pass"
  shows "trader_ok c (send_order E sg trig t)"
proof -
  let ?lim = "tc_risk c" and ?ref = "tr_next_user_ref t" and ?symb = "make_symbol (tc_symbol c)"
  let ?body = "inbound_bytes (order_msg ?ref sg ?symb)" and ?t = "send_order E sg trig t"
  let ?f = "(kUnsequencedData, ?body)"
  define t1 where "t1 = t\<lparr>tr_next_user_ref := ?ref + 1, tr_tick := Suc (tr_tick t)\<rparr>"
  define t2 where "t2 = snd (oe_send E (order_frame ?ref sg (tr_symbol t)) t1)"
  obtain os ts fs where A: "accounts ?lim os ts t" "frame_stream fs t" "orders_ok ?lim ?symb (length ts) fs"
    using T by (auto simp: trader_ok_def)
  have fr: "order_frame ?ref sg (tr_symbol t) = frame_bytes kUnsequencedData ?body"
    using T price order_frame_bytes [of ?symb sg ?ref] by (simp add: trader_ok_def)
  note eff = send_order_effect [OF t1_def t2_def]
  have v: "core t2 = core t1" "market t2 = market t1" by (simp_all add: t2_def views)
  have lim: "rg_lim (tr_risk t) = ?lim" using A(1) risk_run_lim by (auto simp: accounts_def)
  have acc: "accounts ?lim ((sg_side sg, unat (sg_qty sg)) # os) (ts @ [tg_book_done trig]) ?t"
    by (rule eff [of trig]) (use v in \<open>intro accounts_sent [OF A(1) idle pass], auto simp: core_def t1_def\<close>)
  have out: "outgoing ?t = outgoing t2" "core ?t = core ?t" "market ?t = market t2" "tr_cfg ?t = tr_cfg t2" "tr_symbol ?t = tr_symbol t2"
    by (rule eff [of trig]; simp)+
  have "client_frame ?lim ?symb ?f" "order_refs [?f] = [?ref]"
    using pass lim price by (intro order_client_frame [where lim = ?lim]; simp add: check_pass within_limits_def)+
  then have "orders_ok ?lim ?symb (Suc (length ts)) (fs @ [?f])"
    using A(1) by (intro orders_ok_order A(3)) (simp_all add: accounts_def)
  moreover have "orders_ok ?lim ?symb (Suc (length ts)) fs" using orders_ok_more [OF A(3)] by simp
  moreover have "frame_stream fs ?t \<or> frame_stream (fs @ [?f]) ?t"
    using oe_send_stream [of fs t1 _ kUnsequencedData ?body E] A(2) out(1) fr by (simp add: frame_stream_def outgoing_def t1_def t2_def)
  ultimately obtain gs where "frame_stream gs ?t" "orders_ok ?lim ?symb (length (ts @ [tg_book_done trig])) gs" by auto
  moreover have "tr_cfg ?t = tr_cfg t" "tr_symbol ?t = tr_symbol t" "tr_book ?t = tr_book t" using out v by (simp_all add: view_defs t1_def)
  ultimately show ?thesis using T acc unfolding trader_ok_def by (metis (no_types, lifting))
qed

lemma ok_maybe_trade:
  assumes T: "trader_ok c t"
  shows "trader_ok c (maybe_trade E trig t)"
proof -
  obtain sig st where u: "on_book_update (tr_book t) (rg_position (tr_risk t)) (fm_size (tr_orders t) > 0) (tg_book_done trig) (tr_strat t) = (sig, st)"
    by fastforce
  have q: "trader_ok c (t\<lparr>tr_strat := st\<rparr>)" "trader_ok c (t\<lparr>tr_strat := st, tr_signal_count := n\<rparr>)"
    "trader_ok c (t\<lparr>tr_strat := st, tr_signal_count := n, tr_risk_blocked := bl\<rparr>)" for n bl
    by (rule ok_same [OF T]; simp add: view_defs)+
  show ?thesis
  proof (cases sig)
    case None
    then show ?thesis using q(1) by (simp add: maybe_trade_def u)
  next
    case (Some sg)
    note S = on_book_update_Some [OF u [unfolded Some]]
    have "int64_range (sg_price sg)"
      unfolding S(4) using T S(2,3) by (intro book_ok_best) (auto simp: trader_ok_def opposite_def)
    moreover have "fm_find (tr_orders t) = Map.empty" using T S(1) accounts_idle by (auto simp: trader_ok_def)
    ultimately show ?thesis
      using ok_send_order [OF q(2)] q(3) by (auto simp: maybe_trade_def u Some Let_def)
  qed
qed

lemma ok_fold_packets:
  assumes "trader_ok c t" "fold packet_message ms (ps, t) = (ps', t')"
  shows "trader_ok c t'"
  using packet_fold_views [of ms "(ps, t)"] book_ok_packets [of "(ps, t)" ms] assms
  by (intro ok_quiet [OF assms(1)]) (simp_all add: trader_ok_def)

text \<open>A packet in order is scanned, timed, and then leads to a resynchronisation, a trade or nothing.\<close>

definition packet_start :: packet_scan where
  "packet_start = \<lparr>ps_touched = False, ps_gap = False, ps_inconsistent = False, ps_exch_mid = 0\<rparr>"

definition after_scan :: "t_env \<Rightarrow> packet_scan \<Rightarrow> trigger \<Rightarrow> trader \<Rightarrow> trader" where
  "after_scan E ps trig t =
     (if ps_gap ps then resync E (t\<lparr>tr_gaps := tr_gaps t + 1\<rparr>)
      else if ps_inconsistent ps then resync E (t\<lparr>tr_inconsistencies := tr_inconsistencies t + 1\<rparr>)
      else if ps_touched ps \<and> tc_trade (tr_cfg t) \<and> tr_oe_up t then maybe_trade E trig t
      else t)"

lemma handle_packet_cases:
  obtains (skipped) t' where "handle_packet E p tk tu t = t'" "core t' = core t" "outgoing t' = outgoing t" "market t' = market t"
  | (beat) h t' where "handle_packet E p tk tu t = resync E t'" "core t' = core t" "outgoing t' = outgoing t" "market t' = market t"
      "parse_header p = Some h" "on_heartbeat (mh_sequence h) (tr_seq t) = Gap" "tr_synced t"
  | (scanned) h t0 ps t1 t' trig where "parse_header p = Some h" "tr_synced t" "mh_count h \<noteq> 0"
      "t0 = t\<lparr>tr_packets := tr_packets t + 1\<rparr>" "fold packet_message (datagram_msgs p) (packet_start, t0) = (ps, t1)"
      "core t' = core t1" "outgoing t' = outgoing t1" "market t' = market t1" "tg_kernel_rx trig = tk"
      "handle_packet E p tk tu t = after_scan E ps trig t'"
proof (cases "parse_header p")
  case None
  then show ?thesis by (intro skipped [OF refl]) (simp_all add: handle_packet_def view_defs)
next
  case (Some h)
  define t0 where "t0 = t\<lparr>tr_packets := tr_packets t + 1\<rparr>"
  have t0: "core t0 = core t" "outgoing t0 = outgoing t" "market t0 = market t" "tr_synced t0 = tr_synced t" "tr_seq t0 = tr_seq t"
    by (simp_all add: t0_def view_defs)
  consider (a) "mh_count h = mold_kEndOfSession \<or> \<not> tr_synced t" | (b) "mh_count h \<noteq> mold_kEndOfSession" "tr_synced t" "mh_count h = 0"
    | (c) "mh_count h \<noteq> mold_kEndOfSession" "tr_synced t" "mh_count h \<noteq> 0" by blast
  then show ?thesis
  proof cases
    case a
    then have "handle_packet E p tk tu t = t0" by (auto simp: handle_packet_def Some t0_def Let_def)
    then show ?thesis using t0 by (intro skipped)
  next
    case b
    let ?t = "t0\<lparr>tr_heartbeats := tr_heartbeats t0 + 1\<rparr>"
    have v: "core ?t = core t" "outgoing ?t = outgoing t" "market ?t = market t" using t0 by (simp_all add: view_defs)
    have "handle_packet E p tk tu t = (if on_heartbeat (mh_sequence h) (tr_seq t) = Gap
        then resync E (?t\<lparr>tr_gaps := tr_gaps ?t + 1\<rparr>) else ?t)"
      using b by (simp add: handle_packet_def Some t0_def Let_def)
    moreover have "core (?t\<lparr>tr_gaps := n\<rparr>) = core ?t" "outgoing (?t\<lparr>tr_gaps := n\<rparr>) = outgoing ?t"
      "market (?t\<lparr>tr_gaps := n\<rparr>) = market ?t" for n by (simp_all add: view_defs)
    ultimately show ?thesis using v b(2) Some skipped [of ?t] beat [of "?t\<lparr>tr_gaps := tr_gaps ?t + 1\<rparr>" h]
      by (cases "on_heartbeat (mh_sequence h) (tr_seq t) = Gap") simp_all
  next
    case c
    obtain ms ok where fe: "for_each_message p h = (ms, ok)" by fastforce
    obtain ps t1 where fo: "fold packet_message ms (packet_start, t0) = (ps, t1)" by fastforce
    define t2 where "t2 = (if ok then t1 else t1\<lparr>tr_bad_packets := tr_bad_packets t1 + 1\<rparr>)"
    define t3 where "t3 = snd (t_realtime_ns E t2)"
    define t4 where "t4 = packet_latency ps tk tu (te_real E (tr_tick t2)) t3"
    let ?trig = "Trigger\<lparr>tg_exch_mid := ps_exch_mid ps, tg_kernel_rx := tk, tg_user_rx := tu, tg_book_done := te_real E (tr_tick t2)\<rparr>"
    have "core t2 = core t1" "outgoing t2 = outgoing t1" "market t2 = market t1" by (simp_all add: t2_def view_defs)
    then have v: "core t4 = core t1" "outgoing t4 = outgoing t1" "market t4 = market t1" by (simp_all add: t4_def t3_def views)
    have "handle_packet E p tk tu t = after_scan E ps ?trig t4"
      using c t0(4) by (simp add: handle_packet_def Some t0_def [symmetric] fe packet_start_def [symmetric] fo t2_def [symmetric]
          t4_def t3_def t_realtime_ns_def after_scan_def Let_def)
    moreover have "datagram_msgs p = ms" by (simp add: datagram_msgs_def Some fe)
    ultimately show ?thesis using scanned [OF Some c(2,3) t0_def, of ps t1 t4 ?trig] fo v by simp
  qed
qed

lemma ok_after_scan: "trader_ok c t \<Longrightarrow> trader_ok c (after_scan E ps trig t)"
  by (auto simp: after_scan_def ok_maybe_trade intro!: ok_resync) (erule ok_same; simp add: view_defs)+

lemma ok_handle_packet:
  assumes "trader_ok c t"
  shows "trader_ok c (handle_packet E p tk tu t)"
proof (cases rule: handle_packet_cases [of E p tk tu t])
  case (skipped t')
  then show ?thesis using ok_same [OF assms] by simp
next
  case (beat h t')
  then show ?thesis using ok_resync [OF ok_same [OF assms]] by simp
next
  case (scanned h t0 ps t1 t' trig)
  have "trader_ok c t0" unfolding scanned(4) by (rule ok_same [OF assms]) (simp_all add: view_defs)
  then have "trader_ok c t1" by (rule ok_fold_packets [OF _ scanned(5)])
  then show ?thesis using ok_after_scan [OF ok_same] scanned(6-8,10) by simp
qed

lemma ok_on_md_readable: "trader_ok c t \<Longrightarrow> trader_ok c (on_md_readable E ds t)"
proof (induction ds arbitrary: t)
  case (Cons d ds)
  have "trader_ok c (t\<lparr>tr_tick := Suc (tr_tick t)\<rparr>)" by (rule ok_same [OF Cons.prems]) (simp_all add: view_defs)
  then show ?case using Cons.IH ok_handle_packet by (cases d) (simp add: t_realtime_ns_def)
qed simp

lemma report_views:
  "outgoing (t_on_accepted a rx t) = outgoing t" "market (t_on_accepted a rx t) = market t"
  "outgoing (t_on_executed e t) = outgoing t" "market (t_on_executed e t) = market t"
  "outgoing (t_on_canceled x t) = outgoing t" "market (t_on_canceled x t) = market t"
  "outgoing (t_on_rejected j t) = outgoing t" "market (t_on_rejected j t) = market t"
  by (simp_all add: t_on_accepted_def t_on_executed_def t_on_canceled_def t_on_rejected_def unknown_report_def close_order_def
      view_defs Let_def split: option.split)

lemma report_cfg:
  "tr_cfg (t_on_accepted a rx t) = tr_cfg t" "tr_symbol (t_on_accepted a rx t) = tr_symbol t"
  "tr_cfg (t_on_executed e t) = tr_cfg t" "tr_symbol (t_on_executed e t) = tr_symbol t"
  "tr_cfg (t_on_canceled x t) = tr_cfg t" "tr_symbol (t_on_canceled x t) = tr_symbol t"
  "tr_cfg (t_on_rejected j t) = tr_cfg t" "tr_symbol (t_on_rejected j t) = tr_symbol t"
  by (simp_all add: t_on_accepted_def t_on_executed_def t_on_canceled_def t_on_rejected_def unknown_report_def close_order_def
      Let_def split: option.split)

lemma handle_oe_frame_views [views]:
  "outgoing (handle_oe_frame rx f t) = outgoing t" "market (handle_oe_frame rx f t) = market t"
proof -
  have "outgoing (t\<lparr>tr_bad_messages := n\<rparr>) = outgoing t" "market (t\<lparr>tr_bad_messages := n\<rparr>) = market t"
    "outgoing (t\<lparr>tr_stop := b\<rparr>) = outgoing t" "market (t\<lparr>tr_stop := b\<rparr>) = market t" for n b
    by (simp_all add: view_defs)
  then show "outgoing (handle_oe_frame rx f t) = outgoing t" "market (handle_oe_frame rx f t) = market t"
    by (simp_all add: handle_oe_frame_def report_views split: prod.split option.split outbound.split)
qed

lemma handle_oe_frame_cfg: "tr_cfg (handle_oe_frame rx f t) = tr_cfg t" "tr_symbol (handle_oe_frame rx f t) = tr_symbol t"
  by (auto simp: handle_oe_frame_def report_cfg split: prod.split option.split outbound.split)

lemma ok_handle_oe_frame:
  assumes "trader_ok c t"
  shows "trader_ok c (handle_oe_frame rx f t)"
proof -
  obtain os ts fs where A: "accounts (tc_risk c) os ts t" "frame_stream fs t" "orders_ok (tc_risk c) (make_symbol (tc_symbol c)) (length ts) fs"
    using assms by (auto simp: trader_ok_def)
  obtain os' where "accounts (tc_risk c) os' ts (handle_oe_frame rx f t)" using accounts_frame [OF A(1)] by blast
  moreover have "frame_stream fs (handle_oe_frame rx f t)" "tr_book (handle_oe_frame rx f t) = tr_book t"
    using A(2) handle_oe_frame_views [of rx f t] by (simp_all add: frame_stream_def view_defs)
  ultimately show ?thesis using assms A(3) by (auto simp: trader_ok_def handle_oe_frame_cfg)
qed

lemma ok_fold: "trader_ok c t \<Longrightarrow> (\<And>x t. trader_ok c t \<Longrightarrow> trader_ok c (f x t)) \<Longrightarrow> trader_ok c (fold f xs t)"
  by (induction xs arbitrary: t) simp_all

lemma ok_lost: "trader_ok c t \<Longrightarrow> trader_ok c (oe_lost t)"
  by (erule ok_same) (simp_all add: oe_lost_def view_defs)

lemma ok_read_oe: "trader_ok c t \<Longrightarrow> trader_ok c (read_oe E rs t)"
proof (induction E rs t rule: read_oe.induct)
  case (6 E ch rs t)
  obtain some r where rv: "recv_into ch (tr_oe_reader t) = (some, r)" by fastforce
  obtain fs st r' where dr: "fr_drain r = (fs, st, r')" by (cases "fr_drain r")
  let ?t = "t\<lparr>tr_oe_reader := r\<rparr>"
  let ?u = "t\<lparr>tr_tick := Suc (Suc (tr_tick t)), tr_last_oe_rx := te_mono E (Suc (tr_tick t)), tr_oe_reader := r'\<rparr>"
  have T: "trader_ok c ?t" "trader_ok c ?u" by (rule ok_same [OF "6.prems"]; simp add: view_defs)+
  have "trader_ok c (fold (handle_oe_frame (te_real E (tr_tick t))) fs ?u)" by (intro ok_fold T(2) ok_handle_oe_frame)
  then show ?case
    using "6.IH" ok_lost T(1) by (simp add: rv dr t_realtime_ns_def t_now_ns_def Let_def)
qed (simp_all add: ok_lost)

lemma ok_on_oe_event: "trader_ok c t \<Longrightarrow> trader_ok c (on_oe_event E err outp inp ss e rs t)"
proof -
  assume T: "trader_ok c t"
  obtain n t' where d: "(if err then drain_tx_stamps ss t else (1, t)) = (n, t')" by fastforce
  have "trader_ok c t'"
    using drain_tx_views [of ss t] d by (intro ok_same [OF T]) (auto split: if_splits)
  then show ?thesis
    unfolding on_oe_event_def d by (simp add: Let_def ok_lost ok_flush ok_read_oe)
qed

lemma ok_on_timer:
  assumes "trader_ok c t"
  shows "trader_ok c (t_on_timer E n t)"
proof -
  have S: "trader_ok c (t\<lparr>tr_tick := k\<rparr>)" "trader_ok c (t\<lparr>tr_last_resync_try := now\<rparr>)" "trader_ok c (t\<lparr>tr_last_status := now\<rparr>)"
    "trader_ok c (t\<lparr>tr_stop := s\<rparr>)" if "trader_ok c t" for t k now s
    by (rule ok_same [OF that]; simp add: view_defs)+
  have "trader_ok c (if b then f t else t)" if "trader_ok c t" "\<And>t. trader_ok c t \<Longrightarrow> trader_ok c (f t)" for b f t
    using that by simp
  then show ?thesis unfolding t_on_timer_def t_now_ns_def Let_def prod.case
    using assms by (auto simp: S ok_bare ok_snapshot)
qed

section \<open>From the constructor to the end of a run\<close>

lemma ok_dispatch: "trader_ok c t \<Longrightarrow> trader_ok c (t_dispatch E ev t)"
proof (cases ev)
  case (SignalRead b)
  assume "trader_ok c t"
  then show ?thesis using SignalRead by (auto intro: ok_same simp: view_defs)
qed (simp_all add: ok_on_md_readable ok_on_oe_event ok_on_timer)

lemma ok_pump: "trader_ok c t \<Longrightarrow> trader_ok c (pump E evs t)"
  unfolding pump_def by (rule ok_fold [OF _ ok_dispatch])

lemma ok_loop: "trader_ok c t \<Longrightarrow> trader_ok c (t_loop E turns t)"
  by (induction E turns t rule: t_loop.induct) (simp_all add: ok_pump)

lemma ok_tick: "trader_ok c t \<Longrightarrow> trader_ok c (snd (t_now_ns E t))"
  by (erule ok_same) (simp_all add: views)

lemma ok_wind_down: "trader_ok c t \<Longrightarrow> trader_ok c (wind_down E until turns t)"
proof (induction turns arbitrary: t)
  case (Cons evs turns)
  obtain now t1 where n: "t_now_ns E t = (now, t1)" by fastforce
  then have "trader_ok c t1" using ok_tick [OF Cons.prems, of E] by simp
  then show ?case using Cons ok_pump by (simp add: n)
qed simp

lemma ok_drain: "trader_ok c t \<Longrightarrow> trader_ok c (snd (drain_tx_stamps ss t))"
  by (erule ok_same) (simp_all add: views)

lemma ok_finish:
  assumes "trader_ok c t"
  shows "trader_ok c (t_finish E last_turns ss t)"
proof -
  obtain now t1 where n: "t_now_ns E (cancel_all E t) = (now, t1)" by fastforce
  have "trader_ok c t1" using ok_tick [OF ok_cancel_all [OF assms], of E E] n by simp
  then have "trader_ok c (t1\<lparr>tr_stop := False\<rparr>)" by (rule ok_same) (simp_all add: view_defs)
  then have "trader_ok c (wind_down E (now + 200000000) last_turns (t1\<lparr>tr_stop := False\<rparr>))" by (rule ok_wind_down)
  then show ?thesis by (simp add: t_finish_def n ok_drain ok_bare Let_def)
qed

lemma Trader_ok:
  "\<exists>t. Trader c = Some t \<and> trader_ok c t \<and> tr_wire t = [] \<and> tr_oe_pending t = []"
proof -
  have "cfg_ok default_config"
    by (simp add: cfg_ok_def default_config_def cfg_levels_def kPriceScale_def kCent_def kNil_def)
  then obtain b where b: "OrderBook default_config = Some b" "book_inv b" "ob_cfg b = default_config"
    using book_new by blast
  obtain t where t: "Trader c = Some t" "tr_cfg t = c" "tr_symbol t = make_symbol (tc_symbol c)" "tr_book t = b"
    "tr_orders t = FlatIdMap LiveOrder 1024" "tr_risk t = RiskGate (tc_risk c)" "tr_next_user_ref t = 1" "tr_wire t = []"
    "tr_orders_sent t = 0" "tr_sent t = []" "tr_oe_pending t = []" "tr_stream_bytes t = 0"
    by (simp add: Trader_def b)
  have "accounts (tc_risk c) [] [] t"
    using t risk_run.fresh FlatIdMap_inv [of 1024 LiveOrder] by (simp add: accounts_def tracked_def)
  moreover have "frame_stream [] t" using t by (simp add: frame_stream_def)
  moreover have "orders_ok (tc_risk c) (make_symbol (tc_symbol c)) 0 []" by (simp add: orders_ok_def)
  ultimately show ?thesis using t b unfolding trader_ok_def book_ok_def by fastforce
qed

lemma ok_connect:
  assumes "trader_ok c t" "connect_order_entry E conn en t = Some t'" "tr_oe_pending t = []"
  shows "trader_ok c t'"
proof -
  obtain ss cs where conn: "conn = Conn ss cs" using assms(2) by (cases conn) (simp_all add: connect_order_entry_def)
  obtain p where p: "login_frame (tc_user (tr_cfg t)) (replicate 64 0) 64 = (blit (replicate 64 0) 0 (frame_bytes kLoginRequest p), 49)"
    "length p = 46" using login_frame_bytes [of "tc_user (tr_cfg t)"] by blast
  have tk: "take 49 (blit (replicate 64 0) 0 (frame_bytes kLoginRequest p)) = frame_bytes kLoginRequest p"
    using p(2) by (simp add: blit_def)
  have out: "tr_wire t' = tr_wire t @ frame_bytes kLoginRequest p" "tr_stream_bytes t' = tr_stream_bytes t + 49" "tr_oe_pending t' = []"
    and v: "core t' = core t" "market t' = market t"
    using assms(2,3) by (auto simp: connect_order_entry_def conn p(1) tk t_now_ns_def Let_def view_defs split: if_splits)
  obtain os ts fs where A: "accounts (tc_risk c) os ts t" "frame_stream fs t" "orders_ok (tc_risk c) (make_symbol (tc_symbol c)) (length ts) fs"
    using assms(1) by (auto simp: trader_ok_def)
  have "frame_stream (fs @ [(kLoginRequest, p)]) t'" using A(2) assms(3) out p(2) by (simp add: frame_stream_def)
  moreover have "order_refs [(kLoginRequest, p)] = []" using type_codes by (simp split: option.split inbound.split)
  then have "orders_ok (tc_risk c) (make_symbol (tc_symbol c)) (length ts) (fs @ [(kLoginRequest, p)])"
    using p(2) by (intro orders_ok_other A(3)) (simp_all add: client_frame_def frame_ok_def kMaxFrame_def)
  ultimately show ?thesis using assms(1) A(1) v accounts_core [OF v(1)] unfolding trader_ok_def by (auto simp: view_defs)
qed

lemma ok_start:
  assumes "trader_ok c t" "tr_oe_pending t = []" "t_start E conn en t = Some t'"
  shows "trader_ok c t'"
proof -
  obtain t1 t2 where s: "snapshot E t = (True, t1)" "connect_order_entry E conn en t1 = Some t2"
    "t' = (t2\<lparr>tr_tick := Suc (tr_tick t2), tr_start_ns := te_mono E (tr_tick t2),
       tr_deadline_ns := te_mono E (tr_tick t2) + tc_duration_s (tr_cfg t2) * 1000000000\<rparr>)"
    using assms(3) by (auto simp: t_start_def t_now_ns_def split: prod.splits bool.splits)
  have "trader_ok c t1" "tr_oe_pending t1 = []"
    using ok_snapshot [OF assms(1), of E] snapshot_views(2) [of E t] assms(2) s(1) by (simp_all add: outgoing_def)
  then have "trader_ok c t2" using ok_connect s(2) by blast
  then show ?thesis unfolding s(3) by (rule ok_same) (simp_all add: view_defs)
qed

lemma ok_run:
  assumes "Trader c = Some t" "t_run E conn en turns last_turns ss t = Some t'"
  shows "trader_ok c t'"
proof -
  have t: "trader_ok c t" "tr_oe_pending t = []" using Trader_ok [of c] assms(1) by auto
  obtain t1 where "t_start E conn en t = Some t1" "t' = t_finish E last_turns ss (t_loop E turns t1)"
    using assms(2) by (auto simp: t_run_def)
  then show ?thesis using ok_start [OF t] ok_loop ok_finish by blast
qed

end
