(* ===== verification/Exchange_Inv.thy ===== *)
theory Exchange_Inv
  imports Exchange
begin

text \<open>
  What holds over every run of the exchange process. Every client order that rests in a book can be
  found in the order table of a connected session (\<open>covered\<close>), so that closing the session cancels
  it; the event loop never gets stuck; and what it does to the engine and to the feed is a run of
  the venue whose events are published (\<open>advances\<close>).
\<close>

section \<open>Which orders the callbacks erase from the tables\<close>

text \<open>Keys of a session's table are pairs of owner and user reference. An order leaves the table when
  its last share trades or is cancelled.\<close>

fun erases :: "engine_event \<Rightarrow> (u32 \<times> u32) set" where
  "erases (OnFill loc f) =
     (if fl_maker_owner f \<noteq> 0 \<and> fl_maker_remaining f = 0 then {(fl_maker_owner f, fl_maker_user_ref f)} else {})"
| "erases (OnRestingCancelled loc r q why) =
     (if ro_owner r \<noteq> 0 \<and> q = ro_qty r then {(ro_owner r, ro_user_ref r)} else {})"
| "erases ev = {}"

definition okey :: "resting \<Rightarrow> u32 \<times> u32" where
  "okey r = (ro_owner r, ro_user_ref r)"

text \<open>Every order of \<open>b'\<close> is one of \<open>b\<close>, perhaps with less quantity.\<close>

definition from_orders :: "resting list \<Rightarrow> resting list \<Rightarrow> bool" where
  "from_orders rs rs' \<longleftrightarrow> (\<forall>r'\<in>set rs'. \<exists>r\<in>set rs. ro_id r' = ro_id r \<and> okey r' = okey r)"

lemma from_orders_refl [simp]: "from_orders rs rs"
  by (auto simp: from_orders_def)

lemma from_orders_Cons: "from_orders ms ms' \<Longrightarrow> from_orders (m # ms) ms'"
  by (auto simp: from_orders_def)

lemma mk_fill_remaining [simp]:
  "fl_maker_remaining (mk_fill req mn m q rem) = ro_qty m - q"
  by (simp add: mk_fill_def)

lemma walk_erases:
  assumes "walk stp loc req mn ms rem = (ret, ms', mn', rem', evs)" "distinct (map ro_id ms)"
  shows "from_orders ms ms' \<and>
    (\<forall>k\<in>\<Union>(erases ` set evs). \<exists>m\<in>set ms. k = okey m \<and> ro_id m \<notin> ro_id ` set ms')"
  using assms
proof (induction ms arbitrary: mn rem ret ms' mn' rem' evs)
  case (Cons m ms)
  have gone: "ro_id m \<notin> ro_id ` set ms'" if "from_orders ms ms'" for ms'
    using that Cons.prems(2) by (force simp: from_orders_def)
  from Cons.prems(1) show ?case
  proof (cases rule: walk_cases)
    case (self_resting evs')
    with Cons.IH [OF self_resting(6)] Cons.prems(2) gone show ?thesis
      by (auto simp: from_orders_Cons okey_def)
  next
    case partial
    then have "ro_qty m - rem \<noteq> 0" by auto
    with partial show ?thesis by (auto simp: from_orders_def okey_def)
  next
    case (full evs')
    with Cons.IH [OF full(5)] Cons.prems(2) gone show ?thesis
      by (auto simp: from_orders_Cons okey_def)
  qed auto
qed simp

text \<open>The same for a whole submission and a cancellation.\<close>

lemma insert_prio_set: "set (insert_prio s r xs) = insert r (set xs)"
  unfolding insert_prio_def by (auto dest: set_takeWhileD set_dropWhileD) (metis Un_iff set_append takeWhile_dropWhile_id)

definition engine_from :: "matching_engine \<Rightarrow> matching_engine \<Rightarrow> (u16 \<Rightarrow> resting \<Rightarrow> bool) \<Rightarrow> bool" where
  "engine_from e e' new \<longleftrightarrow> (\<forall>l r'. valid_locate l e \<longrightarrow> r' \<in> set (book_orders (book_at l e')) \<longrightarrow>
     (\<exists>r\<in>set (book_orders (book_at l e)). ro_id r' = ro_id r \<and> okey r' = okey r) \<or> new l r')"

definition erases_gone :: "matching_engine \<Rightarrow> matching_engine \<Rightarrow> engine_event list \<Rightarrow> bool" where
  "erases_gone e e' evs \<longleftrightarrow> (\<forall>k\<in>\<Union>(erases ` set evs). \<exists>loc m. valid_locate loc e \<and> m \<in> set (book_orders (book_at loc e)) \<and>
     k = okey m \<and> ro_id m \<notin> book_ids (book_at loc e'))"

lemma engine_from_refl [simp]: "engine_from e e new"
  by (auto simp: engine_from_def)

lemma set_book_orders_side: "set (book_orders b) = set (resting_orders s b) \<union> set (resting_orders (opposite s) b)"
  by (cases s) (auto simp: book_orders_def opposite_def)

lemma distinct_sides:
  assumes "book_inv b"
  shows "distinct (map ro_id (resting_orders s b))"
    "r \<in> set (resting_orders s b) \<Longrightarrow> r' \<in> set (resting_orders (opposite s) b) \<Longrightarrow> ro_id r \<noteq> ro_id r'"
  using book_inv_distinct [OF assms] by (cases s; fastforce simp: book_orders_def opposite_def image_iff)+

lemma submit_erases:
  assumes E: "engine_inv e" and S: "submit loc req e = Some (e', evs)"
  shows "engine_from e e' (\<lambda>l r. l = loc \<and> ro_id r = rq_id req \<and> okey r = (rq_owner req, rq_user_ref req)) \<and>
    erases_gone e e' evs"
  using E S
proof (cases rule: submit_cases)
  case (rejected why)
  then show ?thesis by (simp add: erases_gone_def)
next
  case accepted
  let ?b = "book_at loc e" and ?b' = "book_at loc e'" and ?s = "rq_side req" and ?c = "opposite (rq_side req)"
  have v: "valid_locate loc e" and new: "rq_id req \<notin> book_ids ?b" using accepted(1) by (auto simp: accepts_def)
  have inv: "book_inv ?b" using engine_inv_book(1) [OF E v] .
  obtain ret ms' n' rem' ws where w: "walk (me_stp e) loc req (me_next_match e) (resting_orders ?c ?b) (rq_qty req) =
      (ret, ms', n', rem', ws)" by (metis prod_cases5)
  have sp: "ms' = resting_orders ?c ?b'" "\<Union>(erases ` set evs) = \<Union>(erases ` set ws)"
    "set (resting_orders ?s ?b') \<subseteq> insert (req_rest req rem') (set (resting_orders ?s ?b))"
    using accepted(4) insert_prio_set [of ?s "req_rest req rem'" "resting_orders ?s ?b"]
    by (auto simp: spec_submit_def w Let_def split: if_splits)
  note k = walk_erases [OF w distinct_sides(1) [OF inv]]
  have "engine_from e e' (\<lambda>l r. l = loc \<and> ro_id r = rq_id req \<and> okey r = (rq_owner req, rq_user_ref req))"
    unfolding engine_from_def
  proof (intro allI impI)
    fix l r' assume l: "valid_locate l e" "r' \<in> set (book_orders (book_at l e'))"
    show "(\<exists>r\<in>set (book_orders (book_at l e)). ro_id r' = ro_id r \<and> okey r' = okey r) \<or>
        l = loc \<and> ro_id r' = rq_id req \<and> okey r' = (rq_owner req, rq_user_ref req)"
    proof (cases "l = loc")
      case True
      with l(2) k sp(1,3) show ?thesis
        by (auto simp: set_book_orders_side [of _ ?s] from_orders_def okey_def req_rest_def)
    next
      case False
      with l accepted(3) show ?thesis by (auto simp: only_book_def)
    qed
  qed
  moreover have "erases_gone e e' evs"
    unfolding erases_gone_def sp(2)
  proof
    fix key assume "key \<in> \<Union>(erases ` set ws)"
    then obtain m where m: "m \<in> set (resting_orders ?c ?b)" "key = okey m" "ro_id m \<notin> ro_id ` set ms'" using k by blast
    have "ro_id m \<noteq> ro_id r" if "r \<in> set (resting_orders ?s ?b')" for r
    proof (cases "r = req_rest req rem'")
      case True
      have "ro_id m \<in> book_ids ?b" using m(1) by (auto simp: book_ids_def set_book_orders_side [of _ ?s])
      with new True show ?thesis by (auto simp: req_rest_def)
    next
      case False
      with that sp(3) distinct_sides(2) [OF inv _ m(1), of r] show ?thesis by force
    qed
    then have "ro_id m \<notin> book_ids ?b'" using m(3) by (auto simp: book_ids_def set_book_orders_side [of _ ?s] sp(1))
    with v m show "\<exists>loc m. valid_locate loc e \<and> m \<in> set (book_orders (book_at loc e)) \<and> key = okey m \<and>
        ro_id m \<notin> book_ids (book_at loc e')"
      by (auto simp: set_book_orders_side [of _ ?s])
  qed
  ultimately show ?thesis by blast
qed

lemma reduce_whole:
  assumes inv: "book_inv b" and r: "r \<in> set (book_orders b)"
  shows "reduce_list (ro_id r) (ro_qty r) (resting_orders t b) = remove_list (ro_id r) (resting_orders t b)"
proof (cases "r \<in> set (resting_orders t b)")
  case True
  then show ?thesis using reduce_all_is_remove [OF distinct_sides(1) [OF inv] True] by simp
next
  case False
  have "ro_id r \<notin> ro_id ` set (resting_orders t b)"
    using False r distinct_sides(2) [OF inv, of _ t] distinct_sides(2) [OF inv, of _ "opposite t"]
    by (fastforce simp: set_book_orders_side [of _ t])
  then show ?thesis by (simp add: reduce_list_absent remove_list_absent)
qed

lemma cancel_erases:
  assumes E: "engine_inv e" and C: "cancel loc k nq owner why e = (res, e', evs)"
  shows "engine_from e e' (\<lambda>_ _. False) \<and> erases_gone e e' evs"
proof (cases "cancel_verdict loc k nq owner e = CancelOk")
  case False
  with cancel_refines [OF E, of loc k nq owner why] C show ?thesis by (simp add: erases_gone_def)
next
  case True
  let ?b = "book_at loc e" and ?b' = "book_at loc e'"
  have v: "valid_locate loc e" using True by (auto simp: cancel_verdict_def split: if_splits)
  obtain r where r: "r \<in> set (book_orders ?b)" "ro_id r = k" "nq < ro_qty r" and ob: "only_book loc e e'"
    and evs: "evs = [OnRestingCancelled loc r (ro_qty r - nq) why]"
    and ro: "\<And>t. resting_orders t ?b' = reduce_list k (ro_qty r - nq) (resting_orders t ?b)"
    using cancel_refines [OF E, of loc k nq owner why] C True by auto
  have keep: "\<exists>r0\<in>set xs. ro_id r' = ro_id r0 \<and> okey r' = okey r0" if "r' \<in> set (reduce_list k a xs)" for r' a xs
    using that by (induction xs) (auto simp: okey_def split: if_splits)
  have "engine_from e e' (\<lambda>_ _. False)"
    unfolding engine_from_def
  proof (intro allI impI)
    fix l r' assume l: "valid_locate l e" "r' \<in> set (book_orders (book_at l e'))"
    show "(\<exists>r\<in>set (book_orders (book_at l e)). ro_id r' = ro_id r \<and> okey r' = okey r) \<or> False"
    proof (cases "l = loc")
      case True
      then obtain t where "r' \<in> set (reduce_list k (ro_qty r - nq) (resting_orders t ?b))"
        using l(2) ro by (auto simp: set_book_orders)
      from keep [OF this] True show ?thesis by (auto simp: set_book_orders)
    next
      case False
      with l ob show ?thesis by (auto simp: only_book_def)
    qed
  qed
  moreover have "erases_gone e e' evs"
    unfolding erases_gone_def
  proof
    fix key assume "key \<in> \<Union>(erases ` set evs)"
    then have key: "key = okey r" "nq = 0" using r(3) by (auto simp: evs okey_def split: if_splits)
    have "resting_orders t ?b' = remove_list k (resting_orders t ?b)" for t
      using ro key(2) reduce_whole [OF engine_inv_book(1) [OF E v] r(1)] r(2) by simp
    then have "k \<notin> book_ids ?b'" by (auto simp: book_ids_def book_orders_def remove_list_def)
    with v r(1,2) key show "\<exists>loc m. valid_locate loc e \<and> m \<in> set (book_orders (book_at loc e)) \<and> key = okey m \<and>
        ro_id m \<notin> book_ids (book_at loc e')" by blast
  qed
  ultimately show ?thesis by blast
qed

section \<open>The order tables of the sessions\<close>

definition handle_of :: "exchange \<Rightarrow> u32 \<times> u32 \<Rightarrow> order_handle option" where
  "handle_of x k = (case x_sessions x (fst k) of None \<Rightarrow> None | Some s \<Rightarrow> fm_find (s_orders s) (ucast (snd k)))"

definition tables_ok :: "exchange \<Rightarrow> bool" where
  "tables_ok x \<longleftrightarrow> (\<forall>sid s. x_sessions x sid = Some s \<longrightarrow> s_id s = sid \<and> fm_inv (s_orders s))"

text \<open>The parts of the state that the callbacks and the handlers touch besides counters and buffers.\<close>

definition same_tables :: "exchange \<Rightarrow> exchange \<Rightarrow> bool" where
  "same_tables x x' \<longleftrightarrow> x_engine x' = x_engine x \<and>
     (\<forall>sid. map_option (\<lambda>s. (s_id s, s_orders s)) (x_sessions x' sid) = map_option (\<lambda>s. (s_id s, s_orders s)) (x_sessions x sid))"

lemma same_tables_refl [simp]: "same_tables x x"
  by (simp add: same_tables_def)

lemma same_tables_trans: "same_tables x x' \<Longrightarrow> same_tables x' x'' \<Longrightarrow> same_tables x x''"
  by (simp add: same_tables_def)

lemma same_tables_handle:
  assumes "same_tables x x'"
  shows "handle_of x' k = handle_of x k" "tables_ok x' \<longleftrightarrow> tables_ok x" "x_engine x' = x_engine x"
proof -
  have m: "map_option (\<lambda>s. (s_id s, s_orders s)) (x_sessions x' sid) = map_option (\<lambda>s. (s_id s, s_orders s)) (x_sessions x sid)" for sid
    using assms by (simp add: same_tables_def)
  show "handle_of x' k = handle_of x k"
    using m [of "fst k"] by (auto simp: handle_of_def split: option.splits)
  have tab: "tables_ok x'" if "tables_ok x" and
    m: "\<And>sid. map_option (\<lambda>s. (s_id s, s_orders s)) (x_sessions x' sid) = map_option (\<lambda>s. (s_id s, s_orders s)) (x_sessions x sid)"
    for x x'
    unfolding tables_ok_def
  proof (intro allI impI)
    fix sid s assume "x_sessions x' sid = Some s"
    with m [of sid] obtain s0 where "x_sessions x sid = Some s0" "s_id s = s_id s0" "s_orders s = s_orders s0"
      by (cases "x_sessions x sid") auto
    with that(1) show "s_id s = sid \<and> fm_inv (s_orders s)" by (auto simp: tables_ok_def)
  qed
  show "tables_ok x' \<longleftrightarrow> tables_ok x" using tab [OF _ m] tab [OF _ m [symmetric]] by blast
  show "x_engine x' = x_engine x" using assms by (simp add: same_tables_def)
qed

lemma same_tables_upd:
  "(\<And>s. s_id (f s) = s_id s \<and> s_orders (f s) = s_orders s) \<Longrightarrow> same_tables x (upd_session sid f x)"
  by (auto simp: same_tables_def upd_session_def option.map_comp comp_def)

lemma same_tables_sel:
  "x_engine x' = x_engine x \<Longrightarrow> x_sessions x' = x_sessions x \<Longrightarrow> same_tables x x'"
  by (simp add: same_tables_def)

lemma same_tables_sym: "same_tables x x' \<Longrightarrow> same_tables x' x"
  by (simp add: same_tables_def)

text \<open>Rewrite rules that strip an operation which leaves the tables alone.\<close>

named_theorems strip \<open>operations that leave the order tables alone\<close>

lemma strip_if: "same_tables y y' \<Longrightarrow> same_tables x y' \<longleftrightarrow> same_tables x y"
  using same_tables_trans same_tables_sym by blast

lemma strip_counter [strip]:
  "same_tables x (y\<lparr>x_tick := t\<rparr>) \<longleftrightarrow> same_tables x y" "same_tables x (y\<lparr>x_rejects := n\<rparr>) \<longleftrightarrow> same_tables x y"
  "same_tables x (y\<lparr>x_cancels := n\<rparr>) \<longleftrightarrow> same_tables x y" "same_tables x (y\<lparr>x_trades := n\<rparr>) \<longleftrightarrow> same_tables x y"
  "same_tables x (y\<lparr>x_shares_traded := n\<rparr>) \<longleftrightarrow> same_tables x y" "same_tables x (y\<lparr>x_dirty := d\<rparr>) \<longleftrightarrow> same_tables x y"
  "same_tables x (y\<lparr>x_md := md\<rparr>) \<longleftrightarrow> same_tables x y" "same_tables x (y\<lparr>x_wire := w\<rparr>) \<longleftrightarrow> same_tables x y"
  "same_tables x (y\<lparr>x_client_orders := n\<rparr>) \<longleftrightarrow> same_tables x y"
  "same_tables x (y\<lparr>x_pending_clordid := c\<rparr>) \<longleftrightarrow> same_tables x y"
  "same_tables x (y\<lparr>x_next_order_id := k\<rparr>) \<longleftrightarrow> same_tables x y"
  "same_tables x (y\<lparr>x_next_session_id := u\<rparr>) \<longleftrightarrow> same_tables x y"
  "same_tables x (y\<lparr>x_gateway_latency := g\<rparr>) \<longleftrightarrow> same_tables x y"
  "same_tables x (y\<lparr>x_late_cancels := n\<rparr>) \<longleftrightarrow> same_tables x y" "same_tables x (y\<lparr>x_bad_messages := n\<rparr>) \<longleftrightarrow> same_tables x y"
  "same_tables x (y\<lparr>x_snapshots := n\<rparr>) \<longleftrightarrow> same_tables x y" "same_tables x (y\<lparr>x_rng := n\<rparr>) \<longleftrightarrow> same_tables x y"
  "same_tables x (y\<lparr>x_synth := l\<rparr>) \<longleftrightarrow> same_tables x y" "same_tables x (y\<lparr>x_last_stats_ns := n\<rparr>) \<longleftrightarrow> same_tables x y"
  "same_tables x (y\<lparr>x_stop := q\<rparr>) \<longleftrightarrow> same_tables x y" "same_tables x (y\<lparr>x_start_ns := n\<rparr>) \<longleftrightarrow> same_tables x y"
  "same_tables x (y\<lparr>x_deadline_ns := n\<rparr>) \<longleftrightarrow> same_tables x y"
  by (simp_all add: same_tables_def)

lemma strip_upd [strip]:
  "(\<And>s. s_id (f s) = s_id s \<and> s_orders (f s) = s_orders s) \<Longrightarrow> same_tables x (upd_session sid f y) \<longleftrightarrow> same_tables x y"
  by (rule strip_if [OF same_tables_upd])

lemma strip_mark [strip]: "same_tables x (mark_dirty sid y) \<longleftrightarrow> same_tables x y"
  by (simp add: mark_dirty_def strip split: option.split)

lemma strip_queue [strip]: "same_tables x (queue_frame sid t p y) \<longleftrightarrow> same_tables x y"
  "same_tables x (queue_ouch sid m y) \<longleftrightarrow> same_tables x y" "same_tables x (queue_itch sid im y) \<longleftrightarrow> same_tables x y"
  by (simp_all add: queue_frame_def queue_ouch_def queue_itch_def strip split: prod.split)

lemma strip_publish [strip]: "same_tables x (x_publish E m y) \<longleftrightarrow> same_tables x y"
  "same_tables x (x_flush E y) \<longleftrightarrow> same_tables x y" "same_tables x (x_heartbeat E now y) \<longleftrightarrow> same_tables x y"
  by (simp_all add: x_publish_def x_flush_def x_heartbeat_def strip split: prod.split)

lemma strip_reports [strip]: "same_tables x (send_reject E sid ur why y) \<longleftrightarrow> same_tables x y"
  "same_tables x (send_exec sid ts ur f liq y) \<longleftrightarrow> same_tables x y"
  "same_tables x (send_canceled sid ts ur q why' y) \<longleftrightarrow> same_tables x y"
  by (simp_all add: send_reject_def send_exec_def send_canceled_def mid_now_def strip)

lemma handle_erase:
  assumes "tables_ok x"
  shows "handle_of (erase_order sid ur x) k = (if k = (sid, ur) then None else handle_of x k)"
    "tables_ok (erase_order sid ur x)" "x_engine (erase_order sid ur x) = x_engine x"
proof -
  have er: "fm_inv (snd (fm_erase q m)) \<and> fm_find (snd (fm_erase q m)) = (fm_find m)(q := None)"
    if "fm_inv m" for q and m :: "order_handle flat_map"
    using fm_erase_present [OF that, of q] fm_erase_absent [OF that, of q] that by (cases "fm_find m q") auto
  have uc: "ucast (u :: u32) = (ucast u' :: u64) \<longleftrightarrow> u = u'" for u u'
    by transfer (simp add: take_bit_eq_mod)
  show "handle_of (erase_order sid ur x) k = (if k = (sid, ur) then None else handle_of x k)"
    using assms er uc by (cases k) (auto simp: handle_of_def erase_order_def upd_session_def tables_ok_def split: option.splits)
  show "tables_ok (erase_order sid ur x)"
    using assms er by (auto simp: tables_ok_def erase_order_def upd_session_def split: if_splits)
qed (simp add: erase_order_def upd_session_def)

text \<open>One callback: it erases exactly the keys of \<open>erases\<close>.\<close>

lemma session_for_none: "session_for o' x = None \<Longrightarrow> o' \<noteq> 0 \<Longrightarrow> handle_of x (o', u) = None"
  by (simp add: session_for_def handle_of_def)

text \<open>After an action that leaves the tables alone, erasing one key or none.\<close>

definition erased :: "(u32 \<times> u32) set \<Rightarrow> exchange \<Rightarrow> exchange \<Rightarrow> bool" where
  "erased K x x' \<longleftrightarrow> (tables_ok x \<longrightarrow> tables_ok x' \<and> x_engine x' = x_engine x \<and>
     (\<forall>k. handle_of x' k = (if k \<in> K then None else handle_of x k)))"

lemma erased_same: "same_tables x x' \<Longrightarrow> erased {} x x'"
  using same_tables_handle by (simp add: erased_def)

lemma erased_trans: "erased K x x' \<Longrightarrow> erased L x' x'' \<Longrightarrow> erased (K \<union> L) x x''"
  by (auto simp: erased_def)

lemma erased_absent: "same_tables x x' \<Longrightarrow> (\<And>k. k \<in> K \<Longrightarrow> handle_of x k = None) \<Longrightarrow> erased K x x'"
  using same_tables_handle [of x x'] by (auto simp: erased_def)

lemma erased_order: "erased {(sid, ur)} x (erase_order sid ur x)"
  using handle_erase by (simp add: erased_def)

lemma erased_fold:
  assumes "\<And>ev x. erased (K ev) x (f ev x)"
  shows "erased (\<Union>(K ` set evs)) x (fold f evs x)"
proof (induction evs arbitrary: x)
  case (Cons ev evs)
  from erased_trans [OF assms Cons.IH] show ?case by simp
qed (simp add: erased_same)

lemma on_event_erases: "erased (erases ev) x (on_event E ev x)"
proof (cases ev)
  case (OnRestingCancelled loc r q why)
  define y where "y = (let (ts, x) = mid_now E (x\<lparr>x_cancels := x_cancels x + 1\<rparr>) in x_publish E (cancel_msg loc ts r q) x)"
  have y: "same_tables x y" by (simp add: y_def mid_now_def strip)
  show ?thesis
  proof (cases "session_for (ro_owner r) y")
    case None
    then have "handle_of x k = None" if "k \<in> erases ev" for k
      using that session_for_none [of "ro_owner r" y] same_tables_handle(1) [OF y] OnRestingCancelled by (auto split: if_splits)
    moreover have "on_event E ev x = y"
      using None by (simp add: OnRestingCancelled x_on_resting_cancelled_def y_def Let_def split: prod.splits)
    ultimately show ?thesis using erased_absent [OF y] by simp
  next
    case (Some s)
    then have o0: "ro_owner r \<noteq> 0" by (auto simp: session_for_def)
    define ts where "ts = ns_since_midnight (os_real E (x_tick x))"
    have ev: "on_event E ev x = (let x = send_canceled (ro_owner r) ts (ro_user_ref r) q (cancel_code why) y
        in if q = ro_qty r then erase_order (ro_owner r) (ro_user_ref r) x else x)"
      using Some by (simp add: OnRestingCancelled x_on_resting_cancelled_def y_def ts_def mid_now_def Let_def)
    have st: "same_tables x (send_canceled (ro_owner r) ts (ro_user_ref r) q (cancel_code why) y)" using y by (simp add: strip)
    show ?thesis
      using erased_trans [OF erased_same [OF st] erased_order] erased_same [OF st] o0
      unfolding ev unfolding OnRestingCancelled Let_def by (cases "q = ro_qty r") simp_all
  qed
next
  case (OnFill loc f)
  let ?mo = "fl_maker_owner f" and ?to = "fl_taker_owner f"
  define y where "y = (let (ts, x) = mid_now E (x\<lparr>x_trades := x_trades x + 1, x_shares_traded := x_shares_traded x + ucast (fl_qty f)\<rparr>)
    in x_publish E (exec_msg loc ts f) x)"
  have y: "same_tables x y" by (simp add: y_def mid_now_def strip)
  define ts where "ts = ns_since_midnight (os_real E (x_tick x))"
  define z where "z = (case session_for ?mo y of None \<Rightarrow> y
               | Some s \<Rightarrow> let x = send_exec ?mo ts (fl_maker_user_ref f) f kAddedLiquidity y
                   in if fl_maker_remaining f = 0 then erase_order ?mo (fl_maker_user_ref f) x else x)"
  have ev: "on_event E ev x =
      (case session_for ?to z of None \<Rightarrow> z | Some s \<Rightarrow> send_exec ?to ts (fl_taker_user_ref f) f kRemovedLiquidity z)"
    by (simp add: OnFill x_on_fill_def y_def z_def ts_def mid_now_def Let_def cong: option.case_cong)
  have "erased (erases ev) x z"
  proof (cases "session_for ?mo y")
    case None
    then have "handle_of x k = None" if "k \<in> erases ev" for k
      using that session_for_none [of ?mo y] same_tables_handle(1) [OF y] OnFill by (auto split: if_splits)
    then show ?thesis using None erased_absent [OF y] by (simp add: z_def)
  next
    case (Some s)
    then have o0: "?mo \<noteq> 0" by (auto simp: session_for_def)
    have st: "same_tables x (send_exec ?mo ts (fl_maker_user_ref f) f kAddedLiquidity y)" using y by (simp add: strip)
    show ?thesis
      using erased_trans [OF erased_same [OF st] erased_order] erased_same [OF st] o0 Some
      unfolding z_def OnFill by simp
  qed
  moreover have "same_tables z (on_event E ev x)"
    unfolding ev by (simp add: strip split: option.split)
  ultimately show ?thesis using erased_trans [of "erases ev" x z "{}"] erased_same by simp
qed (simp_all add: x_on_accepted_def x_on_rejected_def x_on_rested_def x_on_taker_cancelled_def mid_now_def Let_def strip
  erased_same split: option.split)

section \<open>What is published\<close>

lemma x_engine_simps [simp]:
  "x_engine (upd_session sid f x) = x_engine x" "x_engine (mark_dirty sid x) = x_engine x"
  "x_engine (queue_frame sid t p x) = x_engine x" "x_engine (queue_ouch sid m x) = x_engine x"
  "x_engine (queue_itch sid im x) = x_engine x" "x_engine (x_publish E im x) = x_engine x"
  "x_engine (x_flush E x) = x_engine x" "x_engine (x_heartbeat E now x) = x_engine x"
  "x_engine (send_reject E sid ur c x) = x_engine x" "x_engine (send_exec sid ts ur fl liq x) = x_engine x"
  "x_engine (send_canceled sid ts ur q c x) = x_engine x" "x_engine (erase_order sid ur x) = x_engine x"
  by (simp_all add: upd_session_def mark_dirty_def queue_frame_def queue_ouch_def queue_itch_def x_publish_def
    x_flush_def x_heartbeat_def send_reject_def send_exec_def send_canceled_def erase_order_def mid_now_def
    split: option.split prod.split)

lemma x_engine_on_event [simp]: "x_engine (on_event E ev x) = x_engine x"
  by (cases ev) (simp_all add: x_on_accepted_def x_on_rejected_def x_on_fill_def x_on_rested_def x_on_resting_cancelled_def
    x_on_taker_cancelled_def mid_now_def Let_def split: option.split)

lemma x_feed_simps [simp]:
  "x_md (upd_session sid f x) = x_md x" "x_wire (upd_session sid f x) = x_wire x"
  "x_md (mark_dirty sid x) = x_md x" "x_wire (mark_dirty sid x) = x_wire x"
  "x_md (queue_frame sid t p x) = x_md x" "x_wire (queue_frame sid t p x) = x_wire x"
  "x_md (queue_ouch sid m x) = x_md x" "x_wire (queue_ouch sid m x) = x_wire x"
  "x_md (queue_itch sid im x) = x_md x" "x_wire (queue_itch sid im x) = x_wire x"
  "x_md (send_reject E sid ur c x) = x_md x" "x_wire (send_reject E sid ur c x) = x_wire x"
  "x_md (send_exec sid ts ur fl liq x) = x_md x" "x_wire (send_exec sid ts ur fl liq x) = x_wire x"
  "x_md (send_canceled sid ts ur q c x) = x_md x" "x_wire (send_canceled sid ts ur q c x) = x_wire x"
  "x_md (erase_order sid ur x) = x_md x" "x_wire (erase_order sid ur x) = x_wire x"
  by (simp_all add: upd_session_def mark_dirty_def queue_frame_def queue_ouch_def queue_itch_def
    send_reject_def send_exec_def send_canceled_def erase_order_def mid_now_def split: option.split prod.split)

definition extends :: "exchange \<Rightarrow> itch_message list \<Rightarrow> exchange \<Rightarrow> bool" where
  "extends x ms x' \<longleftrightarrow> (\<forall>d P. feed_run d P (x_wire x) (x_md x) \<longrightarrow>
     feed_run d (P @ map itch_bytes ms) (x_wire x') (x_md x'))"

lemma extends_trans: "extends x ms x' \<Longrightarrow> extends x' ms' x'' \<Longrightarrow> extends x (ms @ ms') x''"
  unfolding extends_def by (metis append_assoc map_append)

lemma extends_same: "x_wire x' = x_wire x \<Longrightarrow> x_md x' = x_md x \<Longrightarrow> extends x [] x'"
  by (simp add: extends_def)

lemma extends_publish:
  assumes "itch_wf m" "x_wire y = x_wire x" "x_md y = x_md x" "x_wire x' = x_wire (x_publish E m y)"
    "x_md x' = x_md (x_publish E m y)"
  shows "extends x [m] x'"
  using assms by (auto simp: extends_def x_publish_def split: prod.splits intro: feed_run.published)

lemma extends_flush: "extends x [] (x_flush E x)"
  unfolding extends_def x_flush_def by (auto split: prod.split intro: feed_run.flushed)

lemma extends_heartbeat: "extends x [] (x_heartbeat E now x)"
  unfolding extends_def x_heartbeat_def by (auto split: prod.split intro: feed_run.beat)

abbreviation stock_of :: "exchange \<Rightarrow> u16 \<Rightarrow> symbol" where
  "stock_of x \<equiv> \<lambda>l. symbol_of l x"

lemma on_event_extends:
  assumes "\<forall>m\<in>set (event_msgs (stock_of x) ts ev). itch_wf m" "ts = ns_since_midnight (os_real E (x_tick x))"
  shows "extends x (event_msgs (stock_of x) ts ev) (on_event E ev x)"
proof (cases ev)
  case (OnFill loc f)
  show ?thesis
    using assms(1) unfolding OnFill event_msgs.simps on_event.simps
    by (intro extends_publish [where E = E and y = "x\<lparr>x_trades := x_trades x + 1,
        x_shares_traded := x_shares_traded x + ucast (fl_qty f), x_tick := Suc (x_tick x)\<rparr>"])
      (simp_all add: x_on_fill_def mid_now_def Let_def assms(2) split: option.split)
next
  case (OnRested loc r)
  show ?thesis
    using assms(1) unfolding OnRested event_msgs.simps on_event.simps
    by (intro extends_publish [where E = E and y = "x\<lparr>x_tick := Suc (x_tick x)\<rparr>"])
      (simp_all add: x_on_rested_def mid_now_def symbol_of_def assms(2))
next
  case (OnRestingCancelled loc r q why)
  show ?thesis
    using assms(1) unfolding OnRestingCancelled event_msgs.simps on_event.simps
    by (intro extends_publish [where E = E and y = "x\<lparr>x_cancels := x_cancels x + 1, x_tick := Suc (x_tick x)\<rparr>"])
      (simp_all add: x_on_resting_cancelled_def mid_now_def Let_def assms(2) split: option.split)
qed (auto simp: x_on_accepted_def x_on_rejected_def x_on_taker_cancelled_def mid_now_def Let_def intro!: extends_same split: option.split)

lemma events_msgs_shift:
  "(\<And>j. j < length evs \<Longrightarrow> clock (i + j) = clock' (i' + j)) \<Longrightarrow>
     events_msgs stock clock i evs = events_msgs stock clock' i' evs"
proof (induction evs arbitrary: i i')
  case (Cons ev evs)
  have "events_msgs stock clock (Suc i) evs = events_msgs stock clock' (Suc i') evs"
    using Cons.prems [of "Suc j" for j] by (intro Cons.IH) simp
  with Cons.prems [of 0] show ?case by simp
qed simp

definition ev_ok :: "(u16 \<Rightarrow> symbol) \<Rightarrow> engine_event \<Rightarrow> bool" where
  "ev_ok stock ev \<longleftrightarrow> (case ev of OnRested loc r \<Rightarrow> length (stock loc) = 8 | _ \<Rightarrow> True)"

lemma less_exp_take: "(w :: u64) < 2 ^ 48 \<Longrightarrow> take_bit 48 w = w"
  by (simp add: word_unat_eq_iff word_less_nat_alt unsigned_take_bit_eq take_bit_nat_eq_self)

lemma midnight_ts48: "ts48 (ns_since_midnight t)"
proof -
  have "ns_since_midnight t < 2 ^ 48"
    unfolding ns_since_midnight_def by (rule less_trans [OF word_mod_less_divisor]) (simp_all add: kNanosPerDay_def)
  then show ?thesis by (simp add: ts48_def less_exp_take)
qed

lemma ev_ok_wf: "ev_ok stock ev \<Longrightarrow> ts48 ts \<Longrightarrow> \<forall>m\<in>set (event_msgs stock ts ev). itch_wf m"
  by (cases ev) (auto simp: ev_ok_def exec_msg_def add_msg_def cancel_msg_def)

lemma on_events_extend:
  assumes "\<forall>ev\<in>set evs. ev_ok (stock_of x) ev"
  shows "\<exists>clock. extends x (events_msgs (stock_of x) clock i evs) (fold (on_event E) evs x) \<and>
    (\<forall>m\<in>set (events_msgs (stock_of x) clock i evs). itch_wf m)"
  using assms
proof (induction evs arbitrary: i x)
  case Nil
  then show ?case by (simp add: extends_same)
next
  case (Cons ev evs)
  let ?ts = "ns_since_midnight (os_real E (x_tick x))" and ?y = "on_event E ev x"
  have st: "stock_of ?y = stock_of x" by (simp add: symbol_of_def)
  obtain clock where c: "extends ?y (events_msgs (stock_of x) clock (Suc i) evs) (fold (on_event E) evs ?y)"
    "\<forall>m\<in>set (events_msgs (stock_of x) clock (Suc i) evs). itch_wf m"
    using Cons.IH [of ?y "Suc i"] Cons.prems unfolding st by auto
  have wf: "\<forall>m\<in>set (event_msgs (stock_of x) ?ts ev). itch_wf m"
    using Cons.prems by (intro ev_ok_wf midnight_ts48) simp
  define c' where "c' = clock(i := ?ts)"
  have c': "c' i = ?ts" "events_msgs (stock_of x) c' (Suc i) evs = events_msgs (stock_of x) clock (Suc i) evs"
    unfolding c'_def by (simp, rule events_msgs_shift) simp
  show ?case
    using extends_trans [OF on_event_extends [OF wf refl] c(1)] wf c(2) c' by (intro exI [of _ c']) auto
qed

section \<open>The invariant and the steps that keep it\<close>

text \<open>Every client order that rests has its entry in the table of a connected session.\<close>

definition covered :: "exchange \<Rightarrow> bool" where
  "covered x \<longleftrightarrow> (\<forall>l r. valid_locate l (x_engine x) \<longrightarrow> r \<in> set (book_orders (book_at l (x_engine x))) \<longrightarrow> ro_owner r \<noteq> 0 \<longrightarrow>
     handle_of x (okey r) = Some \<lparr>oh_locate = l, oh_id = ro_id r\<rparr>)"

definition x_inv :: "exchange \<Rightarrow> bool" where
  "x_inv x \<longleftrightarrow> engine_inv (x_engine x) \<and> (\<forall>sm\<in>set (me_symbols (x_engine x)). length sm = 8) \<and> tables_ok x \<and> covered x"

definition advances :: "exchange \<Rightarrow> exchange \<Rightarrow> bool" where
  "advances x x' \<longleftrightarrow> (\<exists>evs clock. venue_run (x_engine x) evs (x_engine x') \<and>
     extends x (events_msgs (stock_of x) clock 0 evs) x' \<and> (\<forall>m\<in>set (events_msgs (stock_of x) clock 0 evs). itch_wf m))"

definition leads :: "exchange \<Rightarrow> exchange \<Rightarrow> bool" where
  "leads x x' \<longleftrightarrow> (x_inv x \<longrightarrow> x_inv x' \<and> advances x x')"

lemma venue_run_trans: "venue_run e1 evs' e2 \<Longrightarrow> venue_run e evs e1 \<Longrightarrow> venue_run e (evs @ evs') e2"
proof (induction rule: venue_run.induct)
  case (submitted e1 evs' e2 loc req e3 new)
  then show ?case using venue_run.submitted [of e "evs @ evs'" e2 loc req e3 new] by simp
next
  case (cancelled e1 evs' e2 loc k nq owner why res e3 new)
  then show ?case using venue_run.cancelled [of e "evs @ evs'" e2 loc k nq owner why res e3 new] by simp
qed simp

lemma advances_trans:
  assumes "engine_inv (x_engine x)" "advances x x'" "advances x' x''"
  shows "advances x x''"
proof -
  obtain evs c where 1: "venue_run (x_engine x) evs (x_engine x')" "extends x (events_msgs (stock_of x) c 0 evs) x'"
    "\<forall>m\<in>set (events_msgs (stock_of x) c 0 evs). itch_wf m" using assms(2) by (auto simp: advances_def)
  have st: "stock_of x' = stock_of x" using venue_run_keeps [OF 1(1) assms(1)] by (simp add: symbol_of_def)
  obtain evs' c' where 2: "venue_run (x_engine x') evs' (x_engine x'')" "extends x' (events_msgs (stock_of x) c' 0 evs') x''"
    "\<forall>m\<in>set (events_msgs (stock_of x) c' 0 evs'). itch_wf m" using assms(3) by (auto simp: advances_def st)
  define d where "d j = (if j < length evs then c j else c' (j - length evs))" for j
  have "events_msgs (stock_of x) d 0 evs = events_msgs (stock_of x) c 0 evs"
    "events_msgs (stock_of x) d (length evs) evs' = events_msgs (stock_of x) c' 0 evs'"
    by (rule events_msgs_shift, simp add: d_def)+
  then have "events_msgs (stock_of x) d 0 (evs @ evs') = events_msgs (stock_of x) c 0 evs @ events_msgs (stock_of x) c' 0 evs'"
    by (simp add: events_msgs_append)
  with venue_run_trans [OF 2(1) 1(1)] extends_trans [OF 1(2) 2(2)] 1(3) 2(3) show ?thesis
    unfolding advances_def by (intro exI [of _ "evs @ evs'"] exI [of _ d]) auto
qed

lemma x_invD:
  assumes "x_inv x"
  shows "engine_inv (x_engine x)" "tables_ok x" "covered x" "\<forall>sm\<in>set (me_symbols (x_engine x)). length sm = 8"
  using assms by (simp_all add: x_inv_def)

lemma leads_trans: "leads x x' \<Longrightarrow> leads x' x'' \<Longrightarrow> leads x x''"
  unfolding leads_def using advances_trans x_invD(1) by blast

lemma advances_same: "x_engine x' = x_engine x \<Longrightarrow> extends x [] x' \<Longrightarrow> advances x x'"
  unfolding advances_def by (intro exI [of _ "[]"]) (simp add: venue_run.start)

lemma covered_same: "same_tables x x' \<Longrightarrow> covered x' \<longleftrightarrow> covered x"
  using same_tables_handle [of x x'] by (simp add: covered_def)

lemma leads_same:
  assumes "same_tables x x'" "extends x [] x'"
  shows "leads x x'"
  using assms same_tables_handle [OF assms(1)] covered_same [OF assms(1)] by (simp add: leads_def x_inv_def advances_same)

lemma leads_quiet: "same_tables x x' \<Longrightarrow> x_wire x' = x_wire x \<Longrightarrow> x_md x' = x_md x \<Longrightarrow> leads x x'"
  by (rule leads_same) (simp_all add: extends_same)

lemma leads_refl [simp]: "leads x x"
  by (simp add: leads_quiet)

lemma leads_fold: "(\<And>y x. leads x (f y x)) \<Longrightarrow> leads x (fold f ys x)"
  by (induction ys arbitrary: x) (auto intro: leads_trans)

text \<open>The tables still cover the books after a step of the engine and the erasures of its events.\<close>

lemma covered_step:
  assumes cov: "covered x" and x': "x_engine x' = e'" "\<forall>k. handle_of x' k = (if k \<in> K then None else H k)"
    and H: "\<And>l r. valid_locate l e' \<Longrightarrow> r \<in> set (book_orders (book_at l e')) \<Longrightarrow> ro_owner r \<noteq> 0 \<Longrightarrow>
        H (okey r) = Some \<lparr>oh_locate = l, oh_id = ro_id r\<rparr>"
    and mono: "\<And>k h. handle_of x k = Some h \<Longrightarrow> H k = Some h"
    and K: "\<forall>k\<in>K. \<exists>loc m. valid_locate loc (x_engine x) \<and> m \<in> set (book_orders (book_at loc (x_engine x))) \<and>
        k = okey m \<and> ro_id m \<notin> book_ids (book_at loc e')"
  shows "covered x'"
  unfolding covered_def x'(1)
proof (intro allI impI)
  fix l r assume r: "valid_locate l e'" "r \<in> set (book_orders (book_at l e'))" "ro_owner r \<noteq> 0"
  have "okey r \<notin> K"
  proof
    assume "okey r \<in> K"
    then obtain loc m where m: "valid_locate loc (x_engine x)" "m \<in> set (book_orders (book_at loc (x_engine x)))"
      "okey r = okey m" "ro_id m \<notin> book_ids (book_at loc e')" using K by blast
    have "ro_owner m \<noteq> 0" using m(3) r(3) by (simp add: okey_def)
    then have "H (okey m) = Some \<lparr>oh_locate = loc, oh_id = ro_id m\<rparr>" using cov m(1,2) mono by (auto simp: covered_def)
    with H [OF r] m(3) have "loc = l" "ro_id m = ro_id r" by auto
    with m(4) r(2) show False by (auto simp: book_ids_def)
  qed
  with H [OF r] x'(2) [rule_format, of "okey r"] show "handle_of x' (okey r) = Some \<lparr>oh_locate = l, oh_id = ro_id r\<rparr>" by simp
qed

lemma symbol_len:
  assumes "x_inv x" "valid_locate l (x_engine x)"
  shows "length (symbol_of l x) = 8"
proof -
  have "unat l - 1 < length (me_symbols (x_engine x))"
    using assms x_invD(1) [OF assms(1)] by (auto simp: valid_locate_def engine_inv_def)
  then show ?thesis using x_invD(4) [OF assms(1)] nth_mem unfolding symbol_of_def by blast
qed

text \<open>An engine step followed by its callbacks.\<close>

lemma engine_step_inv:
  fixes E :: os_env
  assumes inv: "x_inv x" and keeps: "engine_inv e'" "length (me_books e') = length (me_books (x_engine x))"
      "me_symbols e' = me_symbols (x_engine x)"
    and run: "venue_run (x_engine x) evs e'" and rested: "\<forall>ev\<in>set evs. \<forall>l r. ev = OnRested l r \<longrightarrow> valid_locate l (x_engine x)"
    and src: "engine_from (x_engine x) e' new" "erases_gone (x_engine x) e' evs"
    and new: "\<And>l r. new l r \<Longrightarrow> ro_owner r \<noteq> 0 \<Longrightarrow> handle_of x (okey r) = Some \<lparr>oh_locate = l, oh_id = ro_id r\<rparr>"
  defines "x' \<equiv> fold (on_event E) evs (x\<lparr>x_engine := e'\<rparr>)"
  shows "x_inv x' \<and> advances x x' \<and> x_engine x' = e' \<and> (\<forall>k. handle_of x' k = None \<or> handle_of x' k = handle_of x k)"
proof -
  note I = x_invD [OF inv]
  let ?y = "x\<lparr>x_engine := e'\<rparr>"
  have y: "tables_ok ?y" "handle_of ?y = handle_of x" "stock_of ?y = stock_of x"
    using I(2) keeps(3) by (auto simp: tables_ok_def handle_of_def symbol_of_def fun_eq_iff)
  have er: "erased (\<Union>(erases ` set evs)) ?y x'" unfolding x'_def by (rule erased_fold [OF on_event_erases])
  then have x': "tables_ok x'" "x_engine x' = e'" "\<forall>k. handle_of x' k = (if k \<in> \<Union>(erases ` set evs) then None else handle_of x k)"
    using y by (simp_all add: erased_def)
  have vl: "valid_locate l e' \<longleftrightarrow> valid_locate l (x_engine x)" for l using keeps(2) by (simp add: valid_locate_def)
  have "covered x'"
  proof (rule covered_step [OF I(3) x'(2,3)])
    fix l r assume r: "valid_locate l e'" "r \<in> set (book_orders (book_at l e'))" "ro_owner r \<noteq> 0"
    with src(1) vl consider r0 where "r0 \<in> set (book_orders (book_at l (x_engine x)))" "ro_id r = ro_id r0" "okey r = okey r0"
      | "new l r" unfolding engine_from_def by blast
    then show "handle_of x (okey r) = Some \<lparr>oh_locate = l, oh_id = ro_id r\<rparr>"
    proof cases
      case 1
      then have "ro_owner r0 \<noteq> 0" using r(3) by (simp add: okey_def)
      with 1 I(3) r(1) vl show ?thesis by (auto simp: covered_def)
    qed (use new r(3) in blast)
  qed (use src(2) in \<open>auto simp: erases_gone_def\<close>)
  moreover have "advances x x'"
  proof -
    have "\<forall>ev\<in>set evs. ev_ok (stock_of ?y) ev"
    proof
      fix ev assume "ev \<in> set evs"
      with rested show "ev_ok (stock_of ?y) ev"
        unfolding y(3) ev_ok_def using symbol_len [OF inv] by (cases ev) auto
    qed
    from on_events_extend [OF this, of 0 E] obtain clock where
      "extends ?y (events_msgs (stock_of x) clock 0 evs) x'" "\<forall>m\<in>set (events_msgs (stock_of x) clock 0 evs). itch_wf m"
      unfolding y(3) x'_def by blast
    with run x'(2) show ?thesis unfolding advances_def by (auto simp: extends_def)
  qed
  ultimately show ?thesis using x' keeps I(4) by (auto simp: x_inv_def)
qed

lemma x_submit_inv:
  assumes inv: "x_inv x"
    and new: "rq_owner req \<noteq> 0 \<Longrightarrow> handle_of x (rq_owner req, rq_user_ref req) = Some \<lparr>oh_locate = loc, oh_id = rq_id req\<rparr>"
  shows "\<exists>x'. x_submit E loc req x = Some x' \<and> x_inv x' \<and> advances x x' \<and>
    (\<forall>k. handle_of x' k = None \<or> handle_of x' k = handle_of x k)"
proof -
  note I = x_invD [OF inv]
  obtain e' evs where S: "submit loc req (x_engine x) = Some (e', evs)"
    using submit_refines_accepted [OF I(1)] submit_rejects [OF I(1)] by blast
  have rested: "\<forall>ev\<in>set evs. \<forall>l r. ev = OnRested l r \<longrightarrow> valid_locate l (x_engine x)"
    using I(1) S
  proof (cases rule: submit_cases)
    case accepted
    then show ?thesis using spec_submit_locates [OF accepted(4)] by (fastforce simp: accepts_def)
  qed auto
  note st = engine_step_inv [OF inv _ _ _ _ rested, where new = "\<lambda>l r. l = loc \<and> ro_id r = rq_id req \<and> okey r = (rq_owner req, rq_user_ref req)"]
  have "x_inv (fold (on_event E) evs (x\<lparr>x_engine := e'\<rparr>)) \<and> advances x (fold (on_event E) evs (x\<lparr>x_engine := e'\<rparr>)) \<and>
      x_engine (fold (on_event E) evs (x\<lparr>x_engine := e'\<rparr>)) = e' \<and>
      (\<forall>k. handle_of (fold (on_event E) evs (x\<lparr>x_engine := e'\<rparr>)) k = None \<or>
        handle_of (fold (on_event E) evs (x\<lparr>x_engine := e'\<rparr>)) k = handle_of x k)"
    using submit_keeps [OF I(1) S] submit_erases [OF I(1) S] venue_run.submitted [OF venue_run.start S] new
    by (intro st) (auto simp: okey_def)
  then show ?thesis by (auto simp: x_submit_def S)
qed

lemma x_cancel_inv:
  assumes inv: "x_inv x"
  shows "x_inv (x_cancel E loc k nq owner why x) \<and> advances x (x_cancel E loc k nq owner why x)"
proof -
  note I = x_invD [OF inv]
  obtain res e' evs where C: "cancel loc k nq owner why (x_engine x) = (res, e', evs)" by (metis prod_cases3)
  have rested: "\<forall>ev\<in>set evs. \<forall>l r. ev = OnRested l r \<longrightarrow> valid_locate l (x_engine x)"
    using cancel_refines [OF I(1), of loc k nq owner why] C by (auto split: if_splits)
  show ?thesis
    using engine_step_inv [OF inv _ _ _ _ rested, where new = "\<lambda>_ _. False" and E = E and e' = e']
      cancel_keeps [OF I(1) C] cancel_erases [OF I(1) C] venue_run.cancelled [OF venue_run.start C]
    by (simp add: x_cancel_def C)
qed

lemma leads_cancel: "leads x (x_cancel E loc k nq owner why x)"
  using x_cancel_inv by (simp add: leads_def)

section \<open>Cancel on disconnect\<close>

lemma cancel_whole:
  assumes E: "engine_inv e" and C: "cancel loc k 0 owner why e = (res, e', evs)" and l: "valid_locate l e"
  shows "resting_orders t (book_at l e') =
    filter (\<lambda>r. \<not> (l = loc \<and> ro_id r = k \<and> ro_owner r = owner)) (resting_orders t (book_at l e))"
proof (cases "l = loc")
  case False
  have "book_at l e' = book_at l e"
    using cancel_refines [OF E, of loc k 0 owner why] C l False by (auto simp: only_book_def split: if_splits)
  with False show ?thesis by simp
next
  case True
  let ?b = "book_at loc e"
  have v: "valid_locate loc e" using l True by simp
  note inv = engine_inv_book(1) [OF E v]
  have uniq: "r = r'" if "r \<in> set (book_orders ?b)" "r' \<in> set (book_orders ?b)" "ro_id r = ro_id r'" for r r'
    using book_inv_distinct [OF inv] that by (metis distinct_map inj_onD)
  show ?thesis
  proof (cases "cancel_verdict loc k 0 owner e = CancelOk")
    case ok: True
    obtain r where r: "r \<in> set (book_orders ?b)" "ro_id r = k" "ro_owner r = owner"
      "resting_orders t (book_at loc e') = reduce_list k (ro_qty r) (resting_orders t ?b)"
      using cancel_refines [OF E, of loc k 0 owner why] C ok by auto
    have "ro_owner r' = owner" if "r' \<in> set (resting_orders t ?b)" "ro_id r' = k" for r'
      using uniq [of r' r] that r by (auto simp: set_book_orders)
    then show ?thesis
      using r(4) reduce_whole [OF inv r(1)] r(2) True by (auto simp: remove_list_def intro: filter_cong)
  next
    case no: False
    have "\<not> (ro_id r = k \<and> ro_owner r = owner)" if "r \<in> set (resting_orders t ?b)" for r
    proof
      assume k: "ro_id r = k \<and> ro_owner r = owner"
      have rb: "r \<in> set (book_orders ?b)" using that by (auto simp: set_book_orders)
      then obtain r' where f: "find (\<lambda>r. ro_id r = k) (book_orders ?b) = Some r'" using k
        by (cases "find (\<lambda>r. ro_id r = k) (book_orders ?b)") (auto simp: find_None_iff)
      then have "r' \<in> set (book_orders ?b)" "ro_id r' = k" by (auto simp: find_Some_iff)
      with uniq rb k have "r' = r" by blast
      with f no k v book_node_facts(2) [OF inv that] show False by (simp add: cancel_verdict_def)
    qed
    then have "filter (\<lambda>r. \<not> (ro_id r = k \<and> ro_owner r = owner)) (resting_orders t ?b) = resting_orders t ?b"
      by (intro filter_True) blast
    with no cancel_refines [OF E, of loc k 0 owner why] C True show ?thesis by simp
  qed
qed

lemma x_engine_fold [simp]: "x_engine (fold (on_event E) evs x) = x_engine x"
  by (induction evs arbitrary: x) simp_all

lemma x_engine_cancel: "x_engine (x_cancel E loc k nq owner why x) = fst (snd (cancel loc k nq owner why (x_engine x)))"
  by (simp add: x_cancel_def split: prod.split)

definition cancel_handles :: "os_env \<Rightarrow> u32 \<Rightarrow> order_handle list \<Rightarrow> exchange \<Rightarrow> exchange" where
  "cancel_handles E sid hs x = fold (\<lambda>h. x_cancel E (oh_locate h) (oh_id h) 0 sid Supervisory) hs x"

lemma leads_cancel_handles: "leads x (cancel_handles E sid hs x)"
  unfolding cancel_handles_def by (rule leads_fold [OF leads_cancel])

lemma valid_locate_leads: "x_inv x \<Longrightarrow> leads x x' \<Longrightarrow> valid_locate l (x_engine x') \<longleftrightarrow> valid_locate l (x_engine x)"
  using venue_run_keeps x_invD(1) by (auto simp: leads_def advances_def valid_locate_def)

lemma cancel_handles_effect:
  assumes "x_inv x" "valid_locate l (x_engine x)"
  shows "resting_orders t (book_at l (x_engine (cancel_handles E sid hs x))) =
    filter (\<lambda>r. \<not> (ro_owner r = sid \<and> \<lparr>oh_locate = l, oh_id = ro_id r\<rparr> \<in> set hs)) (resting_orders t (book_at l (x_engine x)))"
  using assms
proof (induction hs arbitrary: x)
  case (Cons h hs)
  let ?y = "x_cancel E (oh_locate h) (oh_id h) 0 sid Supervisory x"
  have y: "x_inv ?y" "valid_locate l (x_engine ?y)"
    using Cons.prems leads_cancel [of x E] valid_locate_leads [OF Cons.prems(1) leads_cancel] by (simp_all add: leads_def)
  obtain res e' evs where C: "cancel (oh_locate h) (oh_id h) 0 sid Supervisory (x_engine x) = (res, e', evs)" by (metis prod_cases3)
  have h: "\<lparr>oh_locate = l, oh_id = ro_id r\<rparr> = h \<longleftrightarrow> l = oh_locate h \<and> ro_id r = oh_id h" for r
    by (cases h) auto
  have "resting_orders t (book_at l (x_engine ?y)) =
      filter (\<lambda>r. \<not> (l = oh_locate h \<and> ro_id r = oh_id h \<and> ro_owner r = sid)) (resting_orders t (book_at l (x_engine x)))"
    using cancel_whole [OF x_invD(1) [OF Cons.prems(1)] C Cons.prems(2)] by (simp add: x_engine_cancel C)
  with Cons.IH [OF y] show ?case
    by (simp add: cancel_handles_def h) (rule filter_cong [OF refl], auto)
qed (simp add: cancel_handles_def)

lemma close_session_eq:
  fixes E :: os_env
  assumes "x_inv x" "x_sessions x sid = Some s"
  defines "y \<equiv> cancel_handles E sid (map snd (fm_entries (s_orders s))) x"
  shows "close_session E sid x = y\<lparr>x_sessions := (x_sessions y)(sid := None)\<rparr>"
  using assms x_invD(2) [OF assms(1)] by (simp add: close_session_def cancel_handles_def tables_ok_def y_def Let_def)

lemma close_session_effect:
  assumes inv: "x_inv x" and s: "x_sessions x sid = Some s" "sid \<noteq> 0" and l: "valid_locate l (x_engine x)"
  shows "resting_orders t (book_at l (x_engine (close_session E sid x))) =
    filter (\<lambda>r. ro_owner r \<noteq> sid) (resting_orders t (book_at l (x_engine x)))"
proof -
  note I = x_invD [OF inv]
  have "\<lparr>oh_locate = l, oh_id = ro_id r\<rparr> \<in> set (map snd (fm_entries (s_orders s)))"
    if "r \<in> set (resting_orders t (book_at l (x_engine x)))" "ro_owner r = sid" for r
  proof -
    have "r \<in> set (book_orders (book_at l (x_engine x)))" using that(1) by (auto simp: set_book_orders)
    then have "handle_of x (okey r) = Some \<lparr>oh_locate = l, oh_id = ro_id r\<rparr>"
      using I(3) l s(2) that(2) by (auto simp: covered_def)
    then have "fm_find (s_orders s) (ucast (ro_user_ref r)) = Some \<lparr>oh_locate = l, oh_id = ro_id r\<rparr>"
      by (simp add: handle_of_def okey_def that(2) s(1))
    moreover have "fm_inv (s_orders s)" using I(2) s(1) by (auto simp: tables_ok_def)
    ultimately show ?thesis using fm_find_iff fm_entries_set by (metis imageI list.set_map snd_conv)
  qed
  then show ?thesis
    unfolding close_session_eq [OF inv s(1)] using cancel_handles_effect [OF inv l]
    by (simp cong: filter_cong)
qed

lemma leads_close: "leads x (close_session E sid x)"
proof (cases "x_sessions x sid")
  case None
  then show ?thesis by (simp add: close_session_def)
next
  case (Some s)
  define y where "y = cancel_handles E sid (map snd (fm_entries (s_orders s))) x"
  have "x_inv (close_session E sid x) \<and> advances x (close_session E sid x)" if inv: "x_inv x"
  proof -
    have L: "x_inv y" "advances x y" using leads_cancel_handles inv by (auto simp: leads_def y_def)
    note eq = close_session_eq [OF inv Some, of E, folded y_def]
    have same: "x_engine (close_session E sid x) = x_engine y" "x_wire (close_session E sid x) = x_wire y"
      "x_md (close_session E sid x) = x_md y" by (simp_all add: eq)
    have tab: "tables_ok (close_session E sid x)" using x_invD(2) [OF L(1)] by (auto simp: eq tables_ok_def)
    have "covered (close_session E sid x)"
      unfolding covered_def same(1)
    proof (intro allI impI)
      fix l r assume r: "valid_locate l (x_engine y)" "r \<in> set (book_orders (book_at l (x_engine y)))" "ro_owner r \<noteq> 0"
      have l: "valid_locate l (x_engine x)" using valid_locate_leads [OF inv leads_cancel_handles] r(1) by (simp add: y_def)
      have "ro_owner r \<noteq> sid"
      proof
        assume "ro_owner r = sid"
        moreover from r(2) obtain t where "r \<in> set (resting_orders t (book_at l (x_engine (close_session E sid x))))"
          by (auto simp: set_book_orders same(1))
        ultimately show False using close_session_effect [OF inv Some _ l, of t E] r(3) by auto
      qed
      then have "handle_of (close_session E sid x) (okey r) = handle_of y (okey r)"
        by (simp add: eq handle_of_def okey_def)
      with x_invD(3) [OF L(1)] r show "handle_of (close_session E sid x) (okey r) = Some \<lparr>oh_locate = l, oh_id = ro_id r\<rparr>"
        by (simp add: covered_def)
    qed
    with tab L x_invD [OF L(1)] same show ?thesis by (simp add: x_inv_def advances_def extends_def)
  qed
  then show ?thesis by (simp add: leads_def)
qed

section \<open>The handlers\<close>

lemma leads_reap: "leads x (reap_dead_sessions E ids x)"
  unfolding reap_dead_sessions_def by (rule leads_fold [OF leads_close])

lemma flush_loop_keeps [simp]:
  "s_id (snd (flush_loop rs now s)) = s_id s" "s_orders (snd (flush_loop rs now s)) = s_orders s"
proof -
  have "s_id (snd (flush_loop rs now s)) = s_id s \<and> s_orders (snd (flush_loop rs now s)) = s_orders s"
  proof (induction rs now s rule: flush_loop.induct)
    case (1 rs now s)
    then show ?case
      by (subst (1 2) flush_loop.simps) (auto simp: Let_def split: list.split send_result.split prod.splits)
  qed
  then show "s_id (snd (flush_loop rs now s)) = s_id s" "s_orders (snd (flush_loop rs now s)) = s_orders s" by auto
qed

lemma leads_upd: "(\<And>s. s_id (f s) = s_id s \<and> s_orders (f s) = s_orders s) \<Longrightarrow> leads x (upd_session sid f x)"
  by (rule leads_quiet) (simp_all add: strip)

lemma leads_now: "leads x (snd (x_now E x))"
  by (rule leads_quiet) (simp_all add: x_now_def strip)

lemma leads_flush_session: "leads x (flush_session E rs sid x)"
  unfolding flush_session_def by (rule leads_quiet) (simp_all add: x_now_def strip)

lemma leads_flush_all: "leads x (flush_all E rs ids x)"
proof (induction ids arbitrary: x)
  case (Cons sid ids)
  have "leads x (case x_sessions x sid of None \<Rightarrow> x
      | Some _ \<Rightarrow> flush_session E (rs sid) sid (upd_session sid (\<lambda>s. s\<lparr>s_dirty := False\<rparr>) x))"
    by (auto intro: leads_trans [OF leads_upd leads_flush_session] split: option.split)
  from leads_trans [OF this Cons.IH] show ?case by simp
qed simp

lemma leads_flush_dirty: "leads x (flush_dirty_sessions E rs x)"
  unfolding flush_dirty_sessions_def
  by (rule leads_trans [OF leads_flush_all]) (rule leads_quiet; simp add: strip)

lemma leads_flush: "leads x (x_flush E x)"
  by (rule leads_same) (simp_all add: strip extends_flush)

lemma leads_heartbeat: "leads x (x_heartbeat E now x)"
  by (rule leads_same) (simp_all add: strip extends_heartbeat)

lemma accept_one_sessions:
  "x_sessions (accept_one E kind x) = (case x_sessions x (x_next_session_id x) of
     Some _ \<Rightarrow> x_sessions x
   | None \<Rightarrow> (x_sessions x)(x_next_session_id x \<mapsto>
       (Session (x_next_session_id x) kind)\<lparr>s_last_rx_ns := os_mono E (x_tick x)\<rparr>))"
  by (simp add: accept_one_def x_now_def Let_def split: option.split)

lemma Session_table:
  "fm_inv (s_orders (Session sid kind))" "fm_find (s_orders (Session sid kind)) = Map.empty" "s_id (Session sid kind) = sid"
  by (simp_all add: Session_def FlatIdMap_inv kMaxSessionOrders_def)

lemma handle_of_accept: "handle_of (accept_one E kind x) = handle_of x"
  by (cases "x_sessions x (x_next_session_id x)")
    (auto simp: fun_eq_iff handle_of_def accept_one_sessions Session_table split: option.split)

lemma leads_accept: "leads x (accept_one E kind x)"
proof -
  have eng: "x_engine (accept_one E kind x) = x_engine x" "x_wire (accept_one E kind x) = x_wire x"
    "x_md (accept_one E kind x) = x_md x"
    by (simp_all add: accept_one_def x_now_def Let_def split: option.split)
  have "tables_ok (accept_one E kind x)" if "tables_ok x"
    using that by (cases "x_sessions x (x_next_session_id x)") (auto simp: tables_ok_def accept_one_sessions Session_table split: if_splits)
  then show ?thesis
    unfolding leads_def x_inv_def covered_def handle_of_accept eng using eng by (auto intro: advances_same extends_same)
qed

lemma leads_accept_all: "leads x (accept_all E n kind x)"
  unfolding accept_all_def by (induction n arbitrary: x) (auto intro: leads_trans leads_accept simp del: funpow.simps simp: funpow_Suc_right)

lemma leads_login: "leads x (handle_login sid p x)"
  unfolding handle_login_def
  by (rule leads_quiet) (simp_all add: strip split: option.split prod.split)

lemma leads_handle_cancel: "leads x (handle_cancel E sid m x)"
  unfolding handle_cancel_def
  by (auto split: option.split intro: leads_cancel) (rule leads_quiet; simp add: strip)

lemma leads_queue_itch: "leads x (queue_itch sid m x)"
  by (rule leads_quiet) (simp_all add: strip)

lemma leads_snapshot: "leads x (send_snapshot E sid x)"
proof -
  define x0 where "x0 = snd (mid_now E (x_flush E x))"
  define ts where "ts = fst (mid_now E (x_flush E x))"
  define x1 where "x1 = fold (\<lambda>loc. queue_itch sid (directory_msg ts x0 loc)) (locates x0) x0"
  define x2 where "x2 = fold (\<lambda>loc x. fold (queue_itch sid)
    (snapshot_msgs loc ts (symbol_of loc x0) (book_at loc (x_engine x0))) x) (locates x0) x1"
  have eq: "send_snapshot E sid x = (upd_session sid (\<lambda>s. s\<lparr>s_close_after_flush := True\<rparr>) (queue_frame sid kEndOfSession []
      (queue_itch sid (EndOfSnapshot \<lparr>eos_next_sequence = md_next_seq (x_md (x_flush E x))\<rparr>) x2)))\<lparr>x_snapshots :=
        x_snapshots (upd_session sid (\<lambda>s. s\<lparr>s_close_after_flush := True\<rparr>) (queue_frame sid kEndOfSession []
      (queue_itch sid (EndOfSnapshot \<lparr>eos_next_sequence = md_next_seq (x_md (x_flush E x))\<rparr>) x2))) + 1\<rparr>"
    unfolding send_snapshot_def Let_def mid_now_def prod.case x0_def x1_def x2_def ts_def fst_conv snd_conv by (rule refl)
  have 1: "leads x x0"
    unfolding x0_def mid_now_def snd_conv by (rule leads_trans [OF leads_flush]) (rule leads_quiet; simp add: strip)
  have 2: "leads x0 x1" unfolding x1_def by (rule leads_fold [OF leads_queue_itch])
  have 3: "leads x1 x2" unfolding x2_def by (rule leads_fold [OF leads_fold [OF leads_queue_itch]])
  have 4: "leads x2 ((upd_session sid (\<lambda>s. s\<lparr>s_close_after_flush := True\<rparr>) (queue_frame sid kEndOfSession []
      (queue_itch sid m x2)))\<lparr>x_snapshots := n\<rparr>)" for m n
    by (rule leads_quiet) (simp_all add: strip)
  show ?thesis unfolding eq by (rule leads_trans [OF leads_trans [OF leads_trans [OF 1 2] 3] 4])
qed

text \<open>The same for operations that may run out of fuel: they do not.\<close>

definition leads_opt :: "exchange \<Rightarrow> exchange option \<Rightarrow> bool" where
  "leads_opt x r \<longleftrightarrow> (x_inv x \<longrightarrow> (\<exists>x'. r = Some x' \<and> x_inv x' \<and> advances x x'))"

lemma leads_optI: "leads x x' \<Longrightarrow> leads_opt x (Some x')"
  by (simp add: leads_def leads_opt_def)

lemma leads_opt_after: "leads x x' \<Longrightarrow> leads_opt x' r \<Longrightarrow> leads_opt x r"
  unfolding leads_def leads_opt_def using advances_trans x_invD(1) by blast

lemma leads_opt_bind: "leads_opt x r \<Longrightarrow> (\<And>x'. leads_opt x' (f x')) \<Longrightarrow> leads_opt x (Option.bind r f)"
  unfolding leads_opt_def using advances_trans x_invD(1) by (metis bind.bind_lunit)

lemma leads_opt_if: "(c \<Longrightarrow> leads_opt x a) \<Longrightarrow> (\<not> c \<Longrightarrow> leads_opt x b) \<Longrightarrow> leads_opt x (if c then a else b)"
  by simp

lemma leads_opt_prod: "(\<And>a b. p = (a, b) \<Longrightarrow> leads_opt x (f a b)) \<Longrightarrow> leads_opt x (case p of (a, b) \<Rightarrow> f a b)"
  by (cases p) simp

lemma insert_inv:
  assumes inv: "x_inv x" and s: "x_sessions x sid = Some s" and ins: "fm_insert (ucast ur) h (s_orders s) = (True, orders)"
  defines "y \<equiv> upd_session sid (\<lambda>s. s\<lparr>s_orders := orders\<rparr>) x"
  shows "x_inv y \<and> advances x y \<and> handle_of y (sid, ur) = Some h"
proof -
  note I = x_invD [OF inv]
  have fi: "fm_inv (s_orders s)" using I(2) s by (auto simp: tables_ok_def)
  have ok: "ucast ur \<noteq> (0 :: u64)" "fm_find (s_orders s) (ucast ur) = None" "fm_size (s_orders s) < fm_max_entries (s_orders s)"
    using fm_insert_refused [OF fi, of "ucast ur" h] ins by (cases "fm_find (s_orders s) (ucast ur)"; force simp: not_le [symmetric])+
  have o: "fm_inv orders" "fm_find orders = (fm_find (s_orders s))(ucast ur \<mapsto> h)"
    using fm_insert_new [OF fi ok, of h] ins by auto
  have uc: "ucast (u :: u32) = (ucast u' :: u64) \<longleftrightarrow> u = u'" for u u'
    by transfer (simp add: take_bit_eq_mod)
  have hd: "handle_of y k = (if k = (sid, ur) then Some h else handle_of x k)" for k
    using s o(2) uc by (cases k) (auto simp: handle_of_def y_def upd_session_def)
  have none: "handle_of x (sid, ur) = None" using s ok(2) by (simp add: handle_of_def)
  have "tables_ok y" using I(2) o(1) by (auto simp: tables_ok_def y_def upd_session_def split: if_splits)
  moreover have "covered y"
    unfolding covered_def
  proof (intro allI impI)
    fix l r assume "valid_locate l (x_engine y)" "r \<in> set (book_orders (book_at l (x_engine y)))" "ro_owner r \<noteq> 0"
    then have "handle_of x (okey r) = Some \<lparr>oh_locate = l, oh_id = ro_id r\<rparr>" using I(3) by (simp add: covered_def y_def)
    with none hd [of "okey r"] show "handle_of y (okey r) = Some \<lparr>oh_locate = l, oh_id = ro_id r\<rparr>" by auto
  qed
  moreover have "advances x y" by (rule advances_same) (simp_all add: y_def extends_same)
  ultimately show ?thesis using I hd by (simp add: x_inv_def y_def)
qed

lemma erase_absent_inv:
  assumes inv: "x_inv x" and h: "handle_of x (sid, ur) \<in> {None, Some \<lparr>oh_locate = loc, oh_id = k\<rparr>}"
    and gone: "ob_find k (book_at loc (x_engine x)) = None"
  shows "x_inv (erase_order sid ur x) \<and> advances x (erase_order sid ur x)"
proof -
  note I = x_invD [OF inv] and he = handle_erase [OF x_invD(2) [OF inv], of sid ur]
  have "covered (erase_order sid ur x)"
    unfolding covered_def he(3)
  proof (intro allI impI)
    fix l r assume r: "valid_locate l (x_engine x)" "r \<in> set (book_orders (book_at l (x_engine x)))" "ro_owner r \<noteq> 0"
    then have c: "handle_of x (okey r) = Some \<lparr>oh_locate = l, oh_id = ro_id r\<rparr>" using I(3) by (simp add: covered_def)
    have "okey r \<noteq> (sid, ur)"
    proof
      assume "okey r = (sid, ur)"
      with c h have "l = loc" "ro_id r = k" by auto
      with r(1,2) gone find_none [OF engine_inv_book(1) [OF I(1)], of loc k] show False by (auto simp: book_ids_def)
    qed
    with c he(1) show "handle_of (erase_order sid ur x) (okey r) = Some \<lparr>oh_locate = l, oh_id = ro_id r\<rparr>" by simp
  qed
  with I he(2,3) show ?thesis by (simp add: x_inv_def advances_same extends_same)
qed

lemma enter_tail:
  assumes inv: "x_inv y" and h: "handle_of y (sid, ur) = Some \<lparr>oh_locate = loc, oh_id = oid\<rparr>"
    and req: "rq_id req = oid" "rq_owner req = sid" "rq_user_ref req = ur"
  shows "\<exists>x'. (do {
      x \<leftarrow> x_submit E loc req y;
      let x = (if ob_find oid (book_at loc (x_engine x)) = None then erase_order sid ur x else x);
      let (t1, x) = x_now E x;
      Some (x\<lparr>x_gateway_latency := ls_record (t1 - t0) (x_gateway_latency x)\<rparr>)
    }) = Some x' \<and> x_inv x' \<and> advances y x'"
proof -
  obtain x1 where x1: "x_submit E loc req y = Some x1" "x_inv x1" "advances y x1"
    "\<forall>k. handle_of x1 k = None \<or> handle_of x1 k = handle_of y k"
    using x_submit_inv [OF inv, of req loc E] h req by blast
  define x2 where "x2 = (if ob_find oid (book_at loc (x_engine x1)) = None then erase_order sid ur x1 else x1)"
  have x2: "x_inv x2" "advances y x2"
    using erase_absent_inv [OF x1(2), of sid ur loc oid] x1(2,3) x1(4) [rule_format, of "(sid, ur)"] h
      advances_trans [OF x_invD(1) [OF inv] x1(3)]
    by (auto simp: x2_def)
  have "leads x2 ((snd (x_now E x2))\<lparr>x_gateway_latency := g\<rparr>)" for g
    by (rule leads_quiet) (simp_all add: x_now_def strip)
  with x2 have "x_inv ((snd (x_now E x2))\<lparr>x_gateway_latency := g\<rparr>) \<and> advances y ((snd (x_now E x2))\<lparr>x_gateway_latency := g\<rparr>)" for g
    using advances_trans [OF x_invD(1) [OF inv] x2(2)] by (simp add: leads_def)
  then show ?thesis by (simp add: x1(1) x2_def [symmetric] Let_def split: prod.split) (metis snd_conv)
qed

lemma enter_leads:
  assumes lead: "leads x y" and s: "x_sessions y sid = Some s'" "s_id s' = rq_owner req"
    and ins: "fm_insert (ucast ur) \<lparr>oh_locate = loc, oh_id = oid\<rparr> (s_orders s') = (True, orders)"
    and req: "rq_id req = oid" "rq_user_ref req = ur"
  shows "leads_opt x (do {
      x \<leftarrow> x_submit E loc req (upd_session sid (\<lambda>s. s\<lparr>s_orders := orders\<rparr>) y);
      let x = (if ob_find oid (book_at loc (x_engine x)) = None then erase_order sid ur x else x);
      let (t1, x) = x_now E x;
      Some (x\<lparr>x_gateway_latency := ls_record (t1 - t0) (x_gateway_latency x)\<rparr>)
    })"
proof (rule leads_opt_after [OF lead], unfold leads_opt_def, intro impI)
  assume inv: "x_inv y"
  have sid: "rq_owner req = sid" using x_invD(2) [OF inv] s by (auto simp: tables_ok_def)
  note I = insert_inv [OF inv s(1) ins]
  show "\<exists>x'. (do {
      x \<leftarrow> x_submit E loc req (upd_session sid (\<lambda>s. s\<lparr>s_orders := orders\<rparr>) y);
      let x = (if ob_find oid (book_at loc (x_engine x)) = None then erase_order sid ur x else x);
      let (t1, x) = x_now E x;
      Some (x\<lparr>x_gateway_latency := ls_record (t1 - t0) (x_gateway_latency x)\<rparr>)
    }) = Some x' \<and> x_inv x' \<and> advances y x'"
    using enter_tail [OF _ _ req(1) sid req(2), of "upd_session sid (\<lambda>s. s\<lparr>s_orders := orders\<rparr>) y" loc E t0] I
      advances_trans [OF x_invD(1) [OF inv]] by blast
qed

lemma leads_opt_enter: "leads_opt x (handle_enter E sid m x)"
proof (cases "x_sessions x sid")
  case None
  then show ?thesis by (simp add: handle_enter_def leads_optI)
next
  case (Some s)
  then show ?thesis
    unfolding handle_enter_def Some option.case Let_def x_now_def prod.case
    apply (intro leads_opt_if leads_opt_prod leads_optI)
       apply (rule leads_quiet; simp add: strip)
      apply (rule leads_quiet; simp add: strip)
     apply (rule leads_quiet; simp add: strip)
    apply (rule enter_leads [unfolded Let_def x_now_def prod.case])
         apply (rule leads_quiet; simp add: strip)
        apply (simp add: upd_session_def Some)
       apply simp_all
    done
qed

lemma leads_kill: "leads x (kill_session sid x)"
  unfolding kill_session_def by (rule leads_upd) simp

lemma leads_set_reader: "leads x (set_reader sid r x)"
  unfolding set_reader_def by (rule leads_upd) simp

lemma leads_opt_frame: "leads_opt x (handle_frame E sid t p x)"
proof (cases "x_sessions x sid")
  case None
  then show ?thesis by (simp add: handle_frame_def leads_optI)
next
  case (Some s)
  have q: "leads x (x\<lparr>x_bad_messages := n\<rparr>)"
    "leads x (upd_session sid (\<lambda>s. s\<lparr>s_close_after_flush := True\<rparr>) (queue_frame sid kEndOfSession [] x))" for n
    by (rule leads_quiet; simp add: strip)+
  show ?thesis
    unfolding handle_frame_def Some option.case
    using q leads_opt_enter
    by (auto intro!: leads_optI leads_snapshot leads_login leads_kill leads_handle_cancel split: option.split inbound.split)
qed

lemma leads_opt_read_frames: "leads_opt x (map_option snd (read_frames E sid r x))"
proof (induction E sid r x rule: read_frames.induct)
  case (1 E sid r x)
  obtain st r' where n: "fr_next r = (st, r')" by fastforce
  show ?case
  proof (cases st)
    case NeedMore
    then show ?thesis using n by (subst read_frames.simps) (simp add: leads_optI leads_set_reader)
  next
    case Error
    then show ?thesis
      using n by (subst read_frames.simps) (simp add: leads_optI leads_trans [OF leads_set_reader leads_kill])
  next
    case (Frame t p)
    have f: "map_option snd (read_frames E sid r x) = Option.bind (handle_frame E sid t p (set_reader sid r' x))
        (\<lambda>x'. if is_dead sid x' then Some x' else map_option snd (read_frames E sid r' x'))"
      using n Frame by (subst read_frames.simps) (auto split: option.split)
    have ih: "leads_opt x' (map_option snd (read_frames E sid r' x'))" if "handle_frame E sid t p (set_reader sid r' x) = Some x'"
      "\<not> is_dead sid x'" for x'
      using 1 [OF n [symmetric] Frame that] by simp
    show ?thesis
      unfolding f leads_opt_def
    proof
      assume "x_inv x"
      then have sr: "x_inv (set_reader sid r' x)" "advances x (set_reader sid r' x)" using leads_set_reader by (auto simp: leads_def)
      from leads_opt_frame [of "set_reader sid r' x" E sid t p] sr(1) obtain x1 where
        x1: "handle_frame E sid t p (set_reader sid r' x) = Some x1" "x_inv x1" "advances (set_reader sid r' x) x1"
        by (auto simp: leads_opt_def)
      have a: "advances x x1" using advances_trans [OF x_invD(1) [OF \<open>x_inv x\<close>] sr(2) x1(3)] .
      with ih [OF x1(1)] x1 advances_trans [OF x_invD(1) [OF \<open>x_inv x\<close>] a]
      show "\<exists>x'. Option.bind (handle_frame E sid t p (set_reader sid r' x))
          (\<lambda>x'. if is_dead sid x' then Some x' else map_option snd (read_frames E sid r' x')) = Some x' \<and> x_inv x' \<and> advances x x'"
        by (auto simp: leads_opt_def)
    qed
  qed
qed

lemma leads_opt_read_session: "leads_opt x (read_session E sid rs x)"
proof (induction rs arbitrary: x)
  case Nil
  show ?case
    by (subst read_session.simps) (auto simp: Let_def split: option.split intro: leads_optI leads_trans [OF leads_set_reader leads_kill] leads_set_reader)
next
  case (Cons a rs)
  show ?case
  proof (cases "x_sessions x sid")
    case None
    then show ?thesis by (subst read_session.simps) (simp add: leads_optI)
  next
    case (Some s)
    define r where "r = fr_write_ptr (s_reader s)"
    define y where "y = set_reader sid r x"
    have y: "leads x y" unfolding y_def by (rule leads_set_reader)
    have k: "leads_opt x (Some (kill_session sid y))" "leads_opt x (Some y)" "leads_opt x (read_session E sid rs y)"
      using y leads_trans [OF y leads_kill] Cons.IH leads_opt_after [OF y] by (auto intro: leads_optI)
    show ?thesis
    proof (cases "fr_write_space r = 0")
      case True
      then show ?thesis using k Some by (subst read_session.simps) (simp add: Let_def r_def y_def)
    next
      case room: False
      show ?thesis
      proof (cases a)
        case (Got c)
        define r' where "r' = fr_commit (length c) (r\<lparr>fr_buf := blit (fr_buf r) (fr_wr r) c\<rparr>)"
        define z where "z = upd_session sid (\<lambda>s. s\<lparr>s_reader := r', s_last_rx_ns := fst (x_now E y)\<rparr>) (snd (x_now E y))"
        have z: "leads x z"
          unfolding z_def by (rule leads_trans [OF y leads_trans [OF leads_now leads_upd]]) simp
        have eq: "read_session E sid (a # rs) x = Option.bind (read_frames E sid r' z)
            (\<lambda>(more, x). if more then read_session E sid rs x else Some x)"
          using Some room Got by (subst read_session.simps) (simp add: Let_def r_def y_def r'_def z_def split: prod.split)
        show ?thesis
          unfolding eq
        proof (rule leads_opt_after [OF z], unfold leads_opt_def, intro impI)
          assume inv: "x_inv z"
          from leads_opt_read_frames [of z E sid r'] inv obtain more x1 where
            x1: "read_frames E sid r' z = Some (more, x1)" "x_inv x1" "advances z x1" by (auto simp: leads_opt_def)
          with Cons.IH [of x1] advances_trans [OF x_invD(1) [OF inv] x1(3)]
          show "\<exists>x'. Option.bind (read_frames E sid r' z) (\<lambda>(more, x). if more then read_session E sid rs x else Some x) =
              Some x' \<and> x_inv x' \<and> advances z x'"
            by (auto simp: leads_opt_def)
        qed
      qed (use k Some room in \<open>(subst read_session.simps, simp add: Let_def r_def y_def)+\<close>)
    qed
  qed
qed

lemma leads_opt_session_event: "leads_opt x (on_session_event E inp outp err rs ss sid x)"
proof (cases "x_sessions x sid")
  case None
  then show ?thesis by (simp add: on_session_event_def leads_optI)
next
  case (Some s)
  have "leads y (if err then kill_session sid (if outp \<and> \<not> is_dead sid y then flush_session E ss sid y else y)
      else (if outp \<and> \<not> is_dead sid y then flush_session E ss sid y else y))" for y
    by (auto intro: leads_kill leads_flush_session leads_trans [OF leads_flush_session leads_kill])
  then show ?thesis
    unfolding on_session_event_def Some option.case Let_def
    by (intro leads_opt_bind leads_optI) (auto intro: leads_opt_read_session leads_optI)
qed

section \<open>Synthetic flow, timer and the event loop\<close>

lemma strip_rng [strip]: "same_tables x (upd_synth loc f y) \<longleftrightarrow> same_tables x y"
  by (simp add: upd_synth_def strip)

lemma x_feed_synth [simp]: "x_md (upd_synth loc f x) = x_md x" "x_wire (upd_synth loc f x) = x_wire x"
  "x_engine (upd_synth loc f x) = x_engine x"
  by (simp_all add: upd_synth_def)

lemma leads_walk_fair: "leads x (walk_fair loc x)"
  by (rule leads_quiet) (simp_all add: walk_fair_def rng_below_def rng_coin_def rng_next_def Let_def strip)

lemma leads_upd_synth: "leads x (upd_synth loc f x)"
  by (rule leads_quiet) (simp_all add: strip)

lemma leads_opt_submit0: "rq_owner req = 0 \<Longrightarrow> leads_opt x (x_submit E loc req x)"
  using x_submit_inv [of x req loc E] by (auto simp: leads_opt_def)

lemma leads_opt_synth_submit: "leads_opt x (map_option snd (synth_submit E loc sd p q tif x))"
proof -
  have l: "leads x (x\<lparr>x_next_order_id := k\<rparr>)" for k by (rule leads_quiet) (simp_all add: strip)
  show ?thesis
    unfolding synth_submit_def Let_def option.map_comp
    by (rule leads_opt_after [OF l [of "x_next_order_id x + 1"]]) (simp add: comp_def leads_opt_submit0 option.map_ident)
qed

lemma leads_opt_synth_bind:
  assumes "\<And>oid x'. leads_opt x' (g oid x')"
  shows "leads_opt x (Option.bind (synth_submit E loc sd p q tif x) (\<lambda>(oid, x). g oid x))"
proof (unfold leads_opt_def, intro impI)
  assume inv: "x_inv x"
  from leads_opt_synth_submit [of x E loc sd p q tif] inv obtain oid x1 where
    x1: "synth_submit E loc sd p q tif x = Some (oid, x1)" "x_inv x1" "advances x x1" by (auto simp: leads_opt_def)
  with assms [of x1 oid] advances_trans [OF x_invD(1) [OF inv] x1(3)]
  show "\<exists>x'. Option.bind (synth_submit E loc sd p q tif x) (\<lambda>(oid, x). g oid x) = Some x' \<and> x_inv x' \<and> advances x x'"
    by (auto simp: leads_opt_def)
qed

lemma leads_rng: "leads x z \<Longrightarrow> rng_below n z = (v, y) \<Longrightarrow> leads x y" "leads x z \<Longrightarrow> rng_coin z = (c, y) \<Longrightarrow> leads x y"
proof -
  have "leads z (z\<lparr>x_rng := n\<rparr>)" for z n by (rule leads_quiet) (simp_all add: strip)
  then show "leads x z \<Longrightarrow> rng_below n z = (v, y) \<Longrightarrow> leads x y" "leads x z \<Longrightarrow> rng_coin z = (c, y) \<Longrightarrow> leads x y"
    by (auto simp: rng_below_def rng_coin_def rng_next_def intro: leads_trans)
qed

lemma leads_opt_synth_step: "leads_opt x (synth_step E loc x)"
  unfolding synth_step_def Let_def
proof (intro leads_opt_prod leads_opt_if)
  fix u y assume y: "rng_below 100 (walk_fair loc x) = (u, y)"
  have ly: "leads x y" using leads_rng(1) [OF leads_walk_fair y] .
  let ?st = "synth_at loc y" and ?tick = "bc_tick_size (ob_cfg (book_at loc (x_engine (walk_fair loc x))))"
  { fix c y1 k y2 n y3 assume r: "rng_coin y = (c, y1)" "rng_below 8 y1 = (k, y2)" "rng_below 5 y2 = (n, y3)"
    have "leads x y3" using leads_rng(1) [OF leads_rng(1) [OF leads_rng(2) [OF ly r(1)] r(2)] r(3)] .
    then show "leads_opt x (Option.bind (synth_submit E loc (if c then Buy else Sell)
        (if (if c then Buy else Sell) = Buy then sy_fair ?st - uint (1 + k) * ?tick else sy_fair ?st + uint (1 + k) * ?tick)
        (ucast (100 * (1 + n))) Day y3)
        (\<lambda>(oid, x). Some (if ob_find oid (book_at loc (x_engine x)) \<noteq> None
           then upd_synth loc (\<lambda>st. st\<lparr>sy_live := sy_live st @ [oid]\<rparr>) x else x)))"
      by (rule leads_opt_after [OF _ leads_opt_synth_bind]) (auto intro: leads_optI leads_upd_synth) }
  { fix i z assume r: "rng_below (of_nat (length (sy_live ?st))) y = (i, z)"
    have lz: "leads x z" using leads_rng(1) [OF ly r] .
    show "leads_opt x (case ob_find (sy_live ?st ! unat i) (book_at loc (x_engine z)) of
        None \<Rightarrow> Some (upd_synth loc (\<lambda>st. st\<lparr>sy_live := swap_pop (unat i) (sy_live st)\<rparr>) z)
      | Some ord \<Rightarrow>
          case if 200 \<le> bo_qty ord then case rng_below 3 z of (v, x) \<Rightarrow> (v = 0, x) else (False, z) of
            (third, x) \<Rightarrow> if third then Some (x_cancel E loc (sy_live ?st ! unat i) (bo_qty ord div 200 * 100) 0 UserRequested x)
              else Some (x_cancel E loc (sy_live ?st ! unat i) 0 0 UserRequested
                (upd_synth loc (\<lambda>st. st\<lparr>sy_live := swap_pop (unat i) (sy_live st)\<rparr>) x)))"
      by (auto split: option.split prod.split intro!: leads_optI leads_trans [OF _ leads_cancel] leads_trans [OF _ leads_upd_synth]
        intro: lz leads_rng(1) [OF lz]) }
  { fix c y1 n y2 assume r: "rng_coin y = (c, y1)" "rng_below 3 y1 = (n, y2)"
    have "leads x y2" using leads_rng(1) [OF leads_rng(2) [OF ly r(1)] r(2)] .
    then show "leads_opt x (map_option snd (synth_submit E loc (if c then Buy else Sell)
        (if (if c then Buy else Sell) = Buy then sy_fair ?st + 3 * ?tick else sy_fair ?st - 3 * ?tick) (ucast (100 * (1 + n))) IOC y2))"
      by (rule leads_opt_after) (rule leads_opt_synth_submit) }
qed

lemma leads_opt_iterate: "(\<And>x. leads_opt x (f x)) \<Longrightarrow> leads_opt x (iterate_opt n f x)"
  by (induction n arbitrary: x) (auto intro: leads_optI leads_opt_bind)

lemma leads_opt_fold: "(\<And>b x. leads_opt x (f b x)) \<Longrightarrow> leads_opt x (fold_opt f bs x)"
  by (induction bs arbitrary: x) (auto intro: leads_optI leads_opt_bind)

lemma leads_session_timer: "leads x (session_timer now sid x)"
  unfolding session_timer_def
  by (auto split: option.split intro: leads_kill) (rule leads_quiet; simp add: strip)

lemma leads_opt_timer: "leads_opt x (on_timer E ticks owed ids x)"
proof -
  have fin: "leads y (if x_deadline_ns y \<noteq> 0 \<and> now \<ge> x_deadline_ns y then y\<lparr>x_stop := True\<rparr> else y)"
    "leads y (if \<not> x_quiet y \<and> now - x_last_stats_ns y \<ge> kStatsEveryNs then y\<lparr>x_last_stats_ns := now\<rparr> else y)" for y now
    by (rule leads_quiet; simp add: strip)+
  have rest: "leads_opt y (let x = x_heartbeat E now y; x = fold (session_timer now) ids x;
      x = (if \<not> x_quiet x \<and> now - x_last_stats_ns x \<ge> kStatsEveryNs then x\<lparr>x_last_stats_ns := now\<rparr> else x)
    in Some (if x_deadline_ns x \<noteq> 0 \<and> now \<ge> x_deadline_ns x then x\<lparr>x_stop := True\<rparr> else x))" for y now
    unfolding Let_def
    by (rule leads_optI, rule leads_trans [OF leads_heartbeat], rule leads_trans [OF leads_fold [OF leads_session_timer]],
      rule leads_trans [OF fin(2) fin(1)])
  show ?thesis
  proof (cases "ticks = 0")
    case False
    show ?thesis
      unfolding on_timer_def if_not_P [OF False] x_now_def prod.case Let_def
      by (rule leads_opt_after [OF leads_now [of x E, unfolded x_now_def snd_conv]],
        rule leads_opt_bind [OF leads_opt_fold [OF leads_opt_iterate [OF leads_opt_synth_step]] rest [unfolded Let_def]])
  qed (simp add: on_timer_def leads_optI)
qed

lemma leads_opt_dispatch: "leads_opt x (dispatch E ev x)"
proof (cases ev)
  case (Signal b)
  have "leads x (x\<lparr>x_stop := True\<rparr>)" by (rule leads_quiet) (simp_all add: strip)
  with Signal show ?thesis by (simp add: leads_optI)
qed (auto intro: leads_optI leads_accept_all leads_opt_timer leads_opt_session_event)

lemma leads_opt_turn: "leads_opt x (loop_turn E turn x)"
proof -
  have "leads y (x_flush E (flush_dirty_sessions E rs (reap_dead_sessions E ids y)))" for y rs ids
    by (rule leads_trans [OF leads_reap leads_trans [OF leads_flush_dirty leads_flush]])
  then show ?thesis
    unfolding loop_turn_def Let_def
    by (cases turn) (auto intro!: leads_opt_bind leads_opt_fold leads_opt_dispatch leads_optI)
qed

lemma leads_opt_run: "leads_opt x (run_loop E turns x)"
  by (induction turns arbitrary: x) (auto intro: leads_optI leads_opt_bind leads_opt_turn)

end
