(* ===== verification/Exchange_Run.thy ===== *)
theory Exchange_Run
  imports Exchange_Inv
begin

text \<open>
  The exchange from its constructor on: a new exchange satisfies the invariant, the opening messages
  keep it, and over any run of the event loop the published messages rebuild the books.
\<close>

section \<open>From the constructor on\<close>

lemma default_config_ok: "cfg_ok default_config"
  by (simp add: cfg_ok_def default_config_def cfg_levels_def kPriceScale_def kCent_def kNil_def)

lemma default_band: "ob_cfg b = default_config \<Longrightarrow> wire_band b"
  by (auto simp: wire_band_def valid_price_def default_config_def kPriceScale_def)

lemma symbols_built:
  assumes "OrderBook default_config = Some b"
  shows "fold_opt (\<lambda>s e. map_option snd (add_symbol (make_symbol s) default_config e)) symbols e =
    Some (e\<lparr>me_books := me_books e @ replicate (length symbols) b, me_symbols := me_symbols e @ map make_symbol symbols\<rparr>)"
proof (induction symbols arbitrary: e)
  case (Cons sm symbols)
  have "add_symbol (make_symbol sm) default_config e =
      Some (of_nat (length (me_books e @ [b])), e\<lparr>me_books := me_books e @ [b], me_symbols := me_symbols e @ [make_symbol sm]\<rparr>)"
    by (simp add: add_symbol_def assms)
  with Cons.IH show ?case by (simp add: replicate_append_same [symmetric])
qed simp

text \<open>A new exchange satisfies the invariant; its books are empty.\<close>

lemma Exchange_new:
  assumes "length raw = kMaxPacketLen"
  shows "\<exists>x. Exchange raw quiet stp d seed symbols = Some x \<and> x_inv x \<and> feed_run d [] (x_wire x) (x_md x) \<and>
    length (me_books (x_engine x)) = length symbols \<and> me_symbols (x_engine x) = map make_symbol symbols \<and>
    (\<forall>l. valid_locate l (x_engine x) \<longrightarrow> ob_cfg (book_at l (x_engine x)) = default_config \<and>
      (\<forall>t. resting_orders t (book_at l (x_engine x)) = []))"
proof -
  obtain b where b: "OrderBook default_config = Some b" "book_inv b" "ob_cfg b = default_config" "\<And>t. resting_orders t b = []"
    using book_new [OF default_config_ok] by blast
  define e where "e = (MatchingEngine stp 1000000)\<lparr>me_books := replicate (length symbols) b, me_symbols := map make_symbol symbols\<rparr>"
  have fo: "fold_opt (\<lambda>s e. map_option snd (add_symbol (make_symbol s) default_config e)) symbols (MatchingEngine stp 1000000) = Some e"
    using symbols_built [OF b(1), of symbols "MatchingEngine stp 1000000"] by (simp add: e_def MatchingEngine_def)
  have E: "engine_inv e" using b by (auto simp: engine_inv_def e_def uncrossed_def)
  have at: "book_at l e = b" if "valid_locate l e" for l using that by (auto simp: book_at_def valid_locate_def e_def)
  have em: "book_orders b = []" by (simp add: book_orders_def b(4))
  obtain x where x: "Exchange raw quiet stp d seed symbols = Some x" "x_engine x = e" "x_sessions x = Map.empty"
    "x_wire x = []" "x_md x = MarketDataFeed raw d"
    by (simp add: Exchange_def fo)
  have "x_inv x"
    using E at em by (auto simp: x_inv_def x tables_ok_def covered_def e_def)
  then show ?thesis using x b at feed_run.opened [OF assms] by (simp add: e_def)
qed

definition notice :: "itch_message \<Rightarrow> bool" where
  "notice m \<longleftrightarrow> (case m of SystemEvent _ \<Rightarrow> True | StockDirectory _ \<Rightarrow> True | _ \<Rightarrow> False)"

lemma apply_notices: "\<forall>m\<in>set ms. notice m \<Longrightarrow> apply_all l ms c = (True, c)"
  by (induction ms) (auto simp: notice_def apply_itch_def split: itch_message.splits)

lemma extends_system: "ts48 ts \<Longrightarrow> extends x [system_event_msg ts code] (x_publish E (system_event_msg ts code) x)"
  by (rule extends_publish) (simp_all add: system_event_msg_def)

lemma extends_directories:
  assumes "\<forall>loc\<in>set locs. length (symbol_of loc x) = 8" "ts48 ts"
  shows "extends x (map (directory_msg ts x) locs) (fold (\<lambda>loc x. x_publish E (directory_msg ts x loc) x) locs x)"
  using assms
proof (induction locs arbitrary: x)
  case (Cons loc locs)
  let ?y = "x_publish E (directory_msg ts x loc) x"
  have y: "symbol_of l ?y = symbol_of l x" "directory_msg ts ?y l = directory_msg ts x l" for l
    by (simp_all add: symbol_of_def directory_msg_def)
  have "extends x [directory_msg ts x loc] ?y"
    using Cons.prems by (intro extends_publish [where E = E and y = x]) (simp_all add: directory_msg_def)
  from extends_trans [OF this Cons.IH [of ?y]] Cons.prems show ?case by (simp add: y)
qed (simp add: extends_same)

lemma locates_valid:
  assumes "length (me_books (x_engine x)) < 2 ^ 16" "loc \<in> set (locates x)"
  shows "valid_locate loc (x_engine x)"
  using assms by (auto simp: locates_def valid_locate_def unat_of_nat_id)

lemma x_engine_fold_publish [simp]: "x_engine (fold (\<lambda>loc x. x_publish E (g loc x) x) locs x) = x_engine x"
  by (induction locs arbitrary: x) simp_all

lemma same_fold_publish: "same_tables x (fold (\<lambda>loc x. x_publish E (g loc x) x) locs x)"
proof (induction locs arbitrary: x)
  case (Cons loc locs)
  have "same_tables x (x_publish E (g loc x) x)" by (simp add: strip)
  from same_tables_trans [OF this Cons.IH] show ?case by simp
qed simp

lemma start_of_day_ok:
  assumes inv: "x_inv x" and n: "length (me_books (x_engine x)) < 2 ^ 16"
  shows "x_inv (start_of_day E dur x) \<and> x_engine (start_of_day E dur x) = x_engine x \<and>
    (\<exists>ms. (\<forall>m\<in>set ms. notice m \<and> itch_wf m) \<and> extends x ms (start_of_day E dur x))"
proof -
  define x1 where "x1 = (let (now, x) = x_now E x in x\<lparr>x_start_ns := now, x_last_stats_ns := now,
      x_deadline_ns := (if dur \<noteq> 0 then now + dur * 1000000000 else 0)\<rparr>)"
  define ts where "ts = ns_since_midnight (os_real E (x_tick x1))"
  define x2 where "x2 = x_publish E (system_event_msg ts kStartOfMessages) (x1\<lparr>x_tick := Suc (x_tick x1)\<rparr>)"
  define x3 where "x3 = fold (\<lambda>loc x. x_publish E (directory_msg ts x loc) x) (locates x2) x2"
  have eq: "start_of_day E dur x = x_flush E (x_publish E (system_event_msg ts kStartOfMarketHours) x3)"
    by (simp add: start_of_day_def x_now_def mid_now_def Let_def x1_def x2_def x3_def ts_def)
  have ts: "ts48 ts" unfolding ts_def by (rule midnight_ts48)
  have st: "same_tables x x2" by (simp add: x2_def x1_def x_now_def strip)
  have eng: "x_engine x2 = x_engine x" "x_engine x3 = x_engine x" by (simp_all add: x3_def x2_def x1_def x_now_def)
  have sy: "length (symbol_of loc x2) = 8" if "loc \<in> set (locates x2)" for loc
    using that locates_valid [of x2 loc] n symbol_len [OF inv, of loc] eng(1) by (simp add: symbol_of_def)
  let ?ms = "[system_event_msg ts kStartOfMessages] @ map (directory_msg ts x2) (locates x2) @ [system_event_msg ts kStartOfMarketHours] @ []"
  have "extends x [system_event_msg ts kStartOfMessages] x2"
    by (rule extends_publish [where E = E and y = "x1\<lparr>x_tick := Suc (x_tick x1)\<rparr>"])
      (simp_all add: x2_def x1_def x_now_def system_event_msg_def ts)
  moreover have "extends x2 (map (directory_msg ts x2) (locates x2)) x3"
    unfolding x3_def using sy by (intro extends_directories ts) blast
  ultimately have ex: "extends x ?ms (start_of_day E dur x)"
    unfolding eq by (blast intro: extends_trans extends_system ts extends_flush)
  have wf: "\<forall>m\<in>set ?ms. notice m \<and> itch_wf m"
    using sy ts by (auto simp: notice_def system_event_msg_def directory_msg_def)
  have s: "same_tables x (start_of_day E dur x)"
    unfolding eq strip using same_tables_trans [OF st same_fold_publish] by (simp add: x3_def)
  have "x_inv (start_of_day E dur x)"
    using inv covered_same [OF s] same_tables_handle [OF s] by (simp add: x_inv_def)
  with ex wf same_tables_handle(3) [OF s] show ?thesis by blast
qed

text \<open>A day: construction, the opening messages, any number of turns of the loop. The loop does not
  get stuck, and a replica that applies what was published mirrors the books.\<close>

lemma exchange_day:
  assumes raw: "length raw = kMaxPacketLen" and n: "length symbols < 2 ^ 16"
    and x0: "Exchange raw quiet stp d seed symbols = Some x0" and l: "valid_locate l (x_engine x0)"
    and c: "book_inv c" "ob_cfg c = default_config" "\<And>t. resting_orders t c = []"
  shows "\<exists>x c'. run_loop E turns (start_of_day E dur x0) = Some x \<and> x_inv x \<and>
    feed_run d (map itch_bytes (md_log (x_md x))) (x_wire x) (x_md x) \<and> (\<forall>m\<in>set (md_log (x_md x)). itch_wf m) \<and>
    apply_all l (md_log (x_md x)) c = (True, c') \<and> ob.mirrors (book_at l (x_engine x)) c'"
proof -
  let ?x1 = "start_of_day E dur x0"
  have N: "x_inv x0" "feed_run d [] (x_wire x0) (x_md x0)" "length (me_books (x_engine x0)) = length symbols"
    "ob_cfg (book_at l (x_engine x0)) = default_config" "\<And>t. resting_orders t (book_at l (x_engine x0)) = []"
    using Exchange_new [OF raw, of quiet stp d seed symbols] x0 l by auto
  obtain ms0 where S: "x_inv ?x1" "x_engine ?x1 = x_engine x0" "\<forall>m\<in>set ms0. notice m \<and> itch_wf m" "extends x0 ms0 ?x1"
    using start_of_day_ok [OF N(1), of E dur] n N(3) by auto
  obtain x where x: "run_loop E turns ?x1 = Some x" "x_inv x" "advances ?x1 x"
    using leads_opt_run [of ?x1 E turns] S(1) by (auto simp: leads_opt_def)
  obtain evs clock where a: "venue_run (x_engine x0) evs (x_engine x)"
    "extends ?x1 (events_msgs (stock_of ?x1) clock 0 evs) x" "\<forall>m\<in>set (events_msgs (stock_of ?x1) clock 0 evs). itch_wf m"
    using x(3) S(2) by (auto simp: advances_def)
  have E0: "engine_inv (x_engine x0)" using x_invD(1) [OF N(1)] .
  have "ob.mirrors (book_at l (x_engine x0)) c"
    using c N(4,5) engine_inv_book(1) [OF E0 l] valid_price_cfg [of "book_at l (x_engine x0)" c]
    by (simp add: ob.mirrors_def ob_capacity_def)
  from venue_run_mirrors [OF a(1) E0 l this default_band [OF N(4)]] obtain c' where
    c': "apply_all l (events_msgs (stock_of ?x1) clock 0 evs) c = (True, c')" "ob.mirrors (book_at l (x_engine x)) c'" by blast
  have "apply_all l (ms0 @ events_msgs (stock_of ?x1) clock 0 evs) c = (True, c')"
    using apply_notices [of ms0 l c] S(3) c'(1) by (simp add: apply_all_append)
  moreover have R: "feed_run d (map itch_bytes (ms0 @ events_msgs (stock_of ?x1) clock 0 evs)) (x_wire x) (x_md x)"
    using extends_trans [OF S(4) a(2)] N(2) by (fastforce simp: extends_def)
  moreover have "md_log (x_md x) = ms0 @ events_msgs (stock_of ?x1) clock 0 evs"
    using feed_run_log [OF R] S(3) a(3) by (intro itch_bytes_inj) auto
  ultimately show ?thesis using x(1,2) a(3) S(3) c'(2) by auto
qed

section \<open>The byte stream of a session\<close>

text \<open>Whatever \<open>send\<close> answers, the bytes it took followed by those still queued are the bytes that
  were queued: nothing is lost, repeated or reordered.\<close>

lemma flush_loop_bytes:
  "flush_loop rs now s = (bs, s') \<Longrightarrow> drop (s_out_off s) (s_out s) = bs @ drop (s_out_off s') (s_out s')"
proof (induction rs now s arbitrary: bs s' rule: flush_loop.induct)
  case (1 rs now s)
  show ?case
  proof (cases "s_out_off s < length (s_out s)")
    case False
    then show ?thesis using "1.prems" by (subst (asm) flush_loop.simps) (auto simp: Let_def split: if_splits)
  next
    case True
    show ?thesis
    proof (cases rs)
      case Nil
      then show ?thesis using "1.prems" True by (subst (asm) flush_loop.simps) auto
    next
      case (Cons r rs')
      show ?thesis
      proof (cases r)
        case (Sent n)
        obtain bs1 s1 where f: "flush_loop rs' now (s\<lparr>s_out_off := s_out_off s + n\<rparr>) = (bs1, s1)" by fastforce
        show ?thesis
        proof (cases "0 < n")
          case n: True
          have "bs = bslice (s_out s) (s_out_off s) n @ bs1" "s' = s1"
            using "1.prems" True Cons Sent n f by (subst (asm) flush_loop.simps; simp)+
          moreover have "drop (s_out_off s + n) (s_out s) = bs1 @ drop (s_out_off s1) (s_out s1)"
            using "1.IH"(1) [OF True Cons Sent n f] by simp
          ultimately show ?thesis
            using append_take_drop_id [of n "drop (s_out_off s) (s_out s)"] by (simp add: bslice_def add.commute)
        qed (use "1.prems" True Cons Sent in \<open>subst (asm) flush_loop.simps, auto\<close>)
      next
        case SendIntr
        then show ?thesis using "1.prems" "1.IH"(2) [OF True Cons SendIntr] True Cons by (subst (asm) (1) flush_loop.simps) simp
      qed (use "1.prems" True Cons in \<open>auto simp: flush_loop.simps [of "SendErr # l" for l] flush_loop.simps [of "SendAgain # l" for l]\<close>)
    qed
  qed
qed

end
