(* ===== verification/Trader_Run.thy ===== *)
theory Trader_Run
  imports Trader_Inv Exchange_Run
begin

text \<open>
  The replica of the trader against the exchange: the snapshot that the exchange serves, in any
  division into reads, rebuilds the book; and however datagrams are lost, repeated or reordered, a
  trader that considers itself synchronised holds the result of replaying the published messages up
  to the sequence number it expects next. The interface between the two is the locale
  \<open>published_history\<close>: what was published and at which points the exchange was at rest.
\<close>

section \<open>Reading a snapshot\<close>

abbreviation seq_frames :: "itch_message list \<Rightarrow> (u8 \<times> bytes) list" where
  "seq_frames ms \<equiv> map (\<lambda>m. (kSequencedData, itch_bytes m)) ms"

text \<open>A snapshot as it goes over the connection: the messages, then the end of the session.\<close>

definition snapshot_stream :: "itch_message list \<Rightarrow> (u8 \<times> bytes) list" where
  "snapshot_stream ms = seq_frames ms @ [(kEndOfSession, [])]"

lemma frame_types: "kSequencedData \<noteq> kLoginRejected" "kEndOfSession \<noteq> kLoginRejected" "kEndOfSession \<noteq> kSequencedData"
  by (simp_all add: kSequencedData_def kLoginRejected_def kEndOfSession_def)

lemma snap_seq_frames:
  "\<forall>m\<in>set ms. itch_wf m \<Longrightarrow> snap_frames (seq_frames ms @ fs) st = snap_frames fs (fold snap_message ms st)"
  by (induction ms arbitrary: st) (simp_all add: frame_types itch_decode_bytes)

lemma snap_end: "snap_frames [(kEndOfSession, [])] st = (True, st)"
  by (simp add: frame_types)

lemma snapshot_stream_ok: "\<forall>m\<in>set ms. itch_wf m \<Longrightarrow> frames_ok (snapshot_stream ms)"
proof -
  assume "\<forall>m\<in>set ms. itch_wf m"
  moreover have "itch_len m \<le> 1023" for m by (cases m) (simp_all add: itch_len_def)
  ultimately show ?thesis by (auto simp: frames_ok_def snapshot_stream_def frame_ok_def kMaxFrame_def)
qed

text \<open>The first frames of a snapshot: some of its messages, or all of them and the end.\<close>

lemma snapshot_stream_split:
  assumes "snapshot_stream ms = fs1 @ fs2"
  obtains (part) ms1 ms2 where "ms = ms1 @ ms2" "fs1 = seq_frames ms1" "fs2 = snapshot_stream ms2"
  | (all) "fs1 = snapshot_stream ms" "fs2 = []"
proof (cases fs2 rule: rev_cases)
  case Nil
  then show ?thesis using assms all by simp
next
  case (snoc fs2' f)
  then have "seq_frames ms = fs1 @ fs2'" "f = (kEndOfSession, [])" using assms by (simp_all add: snapshot_stream_def)
  then obtain ms1 ms2 where "ms = ms1 @ ms2" "fs1 = seq_frames ms1" "fs2' = seq_frames ms2" by (auto simp: map_eq_append_conv)
  then show ?thesis using part snoc \<open>f = _\<close> by (simp add: snapshot_stream_def)
qed

definition not_eos :: "itch_message \<Rightarrow> bool" where
  "not_eos m \<longleftrightarrow> (case m of EndOfSnapshot _ \<Rightarrow> False | _ \<Rightarrow> True)"

lemma snap_not_eos: "\<forall>m\<in>set ms. not_eos m \<Longrightarrow> fst (fold snap_message ms st) = fst st"
proof (induction ms arbitrary: st)
  case (Cons m ms)
  have "fst (snap_message m st) = fst st"
    using Cons.prems by (cases m; cases st) (simp_all add: snap_message_def not_eos_def)
  then show ?case using Cons by simp
qed simp

lemma recv_into_ok:
  assumes "fr_inv r" "length (fr_pending r) < kMaxFrame + 2" "length c \<le> kMaxFrame + kFrameHeaderLen"
  shows "recv_into c r = (c \<noteq> [], fr_recv c r)" "fr_inv (fr_recv c r)" "fr_pending (fr_recv c r) = fr_pending r @ c"
proof -
  have le: "length c \<le> fr_write_space (fr_write_ptr r)" using fr_room [OF assms(1,2)] assms(3) by simp
  then show "recv_into c r = (c \<noteq> [], fr_recv c r)" by (cases c) (auto simp: recv_into_def fr_recv_def Let_def)
  show "fr_inv (fr_recv c r)" "fr_pending (fr_recv c r) = fr_pending r @ c" using fr_recv_abs [OF assms(1) le] by simp_all
qed

lemma snap_recv_done: "snd (fst st) \<Longrightarrow> snap_recv cs r st = (Some (fst (fst st)), snd st)"
  by (cases cs) simp_all

text \<open>The loop ends with the whole snapshot read, or it reports failure; when nothing is missing it does
  not fail. \<open>z\<close> are the bytes that never arrive.\<close>

lemma snap_recv_snapshot:
  assumes "fr_inv r" "length (fr_pending r) < kMaxFrame + 2" "parse1 (fr_pending r) = (NeedMore, fr_pending r)"
    and "\<forall>m\<in>set (body @ [EndOfSnapshot eos]). itch_wf m" "\<forall>m\<in>set body. not_eos m"
    and "fr_pending r @ concat cs @ z = frames_bytes (snapshot_stream (body @ [EndOfSnapshot eos]))"
    and "\<forall>c\<in>set cs. c \<noteq> [] \<and> length c \<le> kMaxFrame + kFrameHeaderLen" "\<not> snd (fst st)"
  shows "fst (snap_recv cs r st) = None \<and> z \<noteq> [] \<or> snap_recv cs r st = (Some (eos_next_sequence eos), snd (fold snap_message body st))"
  using assms
proof (induction cs arbitrary: r body st)
  case Nil
  have "z \<noteq> []"
  proof
    assume "z = []"
    then have eq: "fr_pending r @ [] = frames_bytes (snapshot_stream (body @ [EndOfSnapshot eos]))" using Nil.prems(6) by simp
    show False
      using fr_feed_frames [OF Nil.prems(1) snapshot_stream_ok [OF Nil.prems(4)], of "[]" "[]" r] eq Nil.prems(3)
      by (simp add: snapshot_stream_def)
  qed
  then show ?case using Nil.prems(8) by simp
next
  case (Cons c cs)
  let ?ms = "body @ [EndOfSnapshot eos]"
  let ?r = "fr_recv c r"
  have c: "c \<noteq> []" "length c \<le> kMaxFrame + kFrameHeaderLen" using Cons.prems(7) by simp_all
  note R = recv_into_ok [OF Cons.prems(1,2) c(2)]
  have eq: "fr_pending ?r @ (concat cs @ z) = frames_bytes (snapshot_stream ?ms)" using Cons.prems(6) R(3) by simp
  obtain fs1 fs2 r' where D: "fr_drain ?r = (fs1, NeedMore, r')" "fr_inv r'" "snapshot_stream ?ms = fs1 @ fs2"
    "fr_pending r' @ (concat cs @ z) = frames_bytes fs2" "length (fr_pending r') < kMaxFrame + 2"
    "parse1 (fr_pending r') = (NeedMore, fr_pending r')"
    using fr_drain_frames [OF R(2) snapshot_stream_ok [OF Cons.prems(4)] eq] by blast
  have eos: "fold snap_message ?ms st = ((eos_next_sequence eos, True), snd (fold snap_message body st))"
    by (cases "fold snap_message body st") (simp add: snap_message_def)
  have step: "snap_recv (c # cs) r st = (case snap_frames fs1 st of (False, st) \<Rightarrow> (None, snd st) | (True, st) \<Rightarrow> snap_recv cs r' st)"
    using Cons.prems(8) c(1) by (simp add: R(1) D(1))
  from D(3) show ?case
  proof (cases rule: snapshot_stream_split)
    case (part ms1 ms2)
    have wf: "\<forall>m\<in>set ms1. itch_wf m" using Cons.prems(4) part(1) by simp
    then have s1: "snap_frames fs1 st = (True, fold snap_message ms1 st)" using snap_seq_frames [of ms1 "[]" st] part(2) by simp
    show ?thesis
    proof (cases ms2 rule: rev_cases)
      case Nil
      then show ?thesis unfolding step using part(1) eos by (simp add: s1 snap_recv_done)
    next
      case (snoc body2 m)
      then have b: "body = ms1 @ body2" "m = EndOfSnapshot eos" using part(1) by simp_all
      have "\<not> snd (fst (fold snap_message ms1 st))" using snap_not_eos [of ms1 st] Cons.prems(5,8) b(1) by simp
      moreover have "fr_pending r' @ concat cs @ z = frames_bytes (snapshot_stream (body2 @ [EndOfSnapshot eos]))"
        using D(4) part(3) snoc b(2) by simp
      ultimately show ?thesis
        unfolding step using Cons.IH [OF D(2,5,6), of body2 "fold snap_message ms1 st"] Cons.prems(4,5,7) b(1)
        by (simp add: s1)
    qed
  next
    case all
    have "snap_frames fs1 st = (True, fold snap_message ?ms st)"
      unfolding all(1) snapshot_stream_def using snap_seq_frames [OF Cons.prems(4), of "[(kEndOfSession, [])]" st] snap_end by simp
    then show ?thesis unfolding step using eos by (simp add: snap_recv_done)
  qed
qed

text \<open>The connection to the order entry port and the flag are not touched while reading.\<close>

lemma snap_message_others:
  "tr_synced (snd (snap_message m st)) = tr_synced (snd st)" "tr_oe_reader (snd (snap_message m st)) = tr_oe_reader (snd st)"
  by (auto simp: snap_message_def split: itch_message.splits prod.splits)

lemma snap_frames_others:
  "tr_synced (snd (snd (snap_frames fs st))) = tr_synced (snd st)"
  "tr_oe_reader (snd (snd (snap_frames fs st))) = tr_oe_reader (snd st)"
  by (induction fs st rule: snap_frames.induct) (auto simp: snap_message_others split: option.splits)

lemma snap_recv_others:
  "tr_synced (snd (snap_recv cs r st)) = tr_synced (snd st)" "tr_oe_reader (snd (snap_recv cs r st)) = tr_oe_reader (snd st)"
proof (induction cs r st rule: snap_recv.induct)
  case (2 c cs r st)
  note F = snap_frames_others [of "fst (fr_drain (snd (recv_into c r)))" st]
  { case 1 show ?case using "2.IH"(1) F(1) by (auto split: prod.splits bool.splits) }
  { case 2 show ?case using "2.IH"(2) F(2) by (auto split: prod.splits bool.splits) }
qed auto

lemma snapshot_reader: "tr_oe_reader (snd (snapshot E t)) = tr_oe_reader t"
proof -
  obtain ok t' where s: "snapshot E t = (ok, t')" by fastforce
  have v: "tr_oe_reader t1 = tr_oe_reader t"
    if "snap_recv cs r ((0, False), t\<lparr>tr_tick := n, tr_book := b, tr_locate := 0\<rparr>) = (q, t1)" for cs r n b q t1
    using snap_recv_others(2) [of cs r "((0, False), t\<lparr>tr_tick := n, tr_book := b, tr_locate := 0\<rparr>)"] that by simp
  from s have "tr_oe_reader t' = tr_oe_reader t" by (cases rule: snapshot_cases) (use v in auto)
  with s show ?thesis by simp
qed

section \<open>What the messages of a snapshot do\<close>

text \<open>The directory entries name the symbol once; the orders of other symbols are skipped.\<close>

definition directory_for :: "u16 \<Rightarrow> symbol \<Rightarrow> itch_message list \<Rightarrow> bool" where
  "directory_for l symb ds \<longleftrightarrow> (\<forall>m\<in>set ds. \<exists>sd. m = StockDirectory sd \<and> (sd_stock sd = symb \<longleftrightarrow> sd_locate sd = l)) \<and>
     (\<exists>sd. StockDirectory sd \<in> set ds \<and> sd_locate sd = l)"

definition is_add :: "itch_message \<Rightarrow> bool" where
  "is_add m \<longleftrightarrow> (case m of AddOrder _ \<Rightarrow> True | _ \<Rightarrow> False)"

lemma snap_directories:
  assumes "\<forall>m\<in>set ds. \<exists>sd. m = StockDirectory sd \<and> (sd_stock sd = tr_symbol t \<longleftrightarrow> sd_locate sd = l)"
  shows "fold snap_message ds (acc, t) = (acc, t\<lparr>tr_locate := (if \<exists>sd. StockDirectory sd \<in> set ds \<and> sd_locate sd = l then l else tr_locate t)\<rparr>)"
  using assms
proof (induction ds arbitrary: t)
  case (Cons m ds)
  obtain sd where m: "m = StockDirectory sd" "sd_stock sd = tr_symbol t \<longleftrightarrow> sd_locate sd = l" using Cons.prems by auto
  have st: "snap_message m (acc, t) = (acc, if sd_locate sd = l then t\<lparr>tr_locate := l\<rparr> else t)"
    using m by (auto simp: snap_message_def)
  show ?case
  proof (cases "sd_locate sd = l")
    case True
    then have "fold snap_message ds (acc, t\<lparr>tr_locate := l\<rparr>) = (acc, t\<lparr>tr_locate := l\<rparr>)"
      using Cons.IH [of "t\<lparr>tr_locate := l\<rparr>"] Cons.prems by simp
    then show ?thesis using st m True by auto
  next
    case False
    then show ?thesis using Cons.IH [of t] Cons.prems m st by auto
  qed
qed simp

lemma snap_adds:
  assumes "\<forall>m\<in>set ms. is_add m" "tr_locate t = l" "l \<noteq> 0" "apply_all l ms (tr_book t) = (True, c')"
  shows "fold snap_message ms (acc, t) = (acc, t\<lparr>tr_book := c'\<rparr>)"
  using assms
proof (induction ms arbitrary: t)
  case (Cons m ms)
  obtain ao where m: "m = AddOrder ao" using Cons.prems(1) by (cases m) (simp_all add: is_add_def)
  obtain res b where r: "apply_itch l m (tr_book t) = (res, b)" by fastforce
  have "snap_message m (acc, t) = (acc, t\<lparr>tr_book := b\<rparr>)"
    using r Cons.prems(2,3) by (auto simp: snap_message_def apply_itch_def m split: prod.splits if_splits)
  moreover have "apply_all l ms b = (True, c')" using Cons.prems(4) r by (cases res) simp_all
  ultimately show ?case using Cons.IH [of "t\<lparr>tr_book := b\<rparr>"] Cons.prems by simp
qed simp

section \<open>The interface: what was published, and where the exchange was at rest\<close>

text \<open>\<open>rest k sm b\<close>: after the first \<open>k\<close> messages the exchange was at rest with book \<open>b\<close> for the symbol
  and would serve the snapshot \<open>sm\<close>.\<close>

locale published_history =
  fixes l :: u16 and symb :: symbol and msgs :: "itch_message list"
    and rest :: "nat \<Rightarrow> itch_message list \<Rightarrow> order_book \<Rightarrow> bool"
  assumes rest_bounds: "rest k sm b \<Longrightarrow> l \<noteq> 0 \<and> k \<le> length msgs \<and> length msgs < 2 ^ 64 - 1 \<and> (\<forall>m\<in>set msgs. itch_wf m)"
    and rest_snapshot: "rest k sm b \<Longrightarrow> \<exists>ds as. sm = ds @ as @ [EndOfSnapshot \<lparr>eos_next_sequence = of_nat (Suc k)\<rparr>] \<and>
      (\<forall>m\<in>set sm. itch_wf m) \<and> directory_for l symb ds \<and> (\<forall>m\<in>set as. is_add m) \<and>
      (\<forall>c. book_ok c \<and> (\<forall>s. resting_orders s c = []) \<longrightarrow> (\<exists>c'. apply_all l as c = (True, c') \<and> ob.mirrors b c'))"
    and rest_replay: "rest k sm b \<Longrightarrow> ob.mirrors b c \<Longrightarrow> fst (apply_all l (drop k msgs) c)"
    and rest_between: "rest k sm b \<Longrightarrow> rest j sm' b' \<Longrightarrow> k \<le> j \<Longrightarrow> ob.mirrors b c \<Longrightarrow>
      \<exists>c'. apply_all l (drop k (take j msgs)) c = (True, c') \<and> ob.mirrors b' c'"
begin

text \<open>The replica is the replay of the published messages up to the expected sequence number, from a
  point of rest.\<close>

definition in_step :: "nat \<Rightarrow> trader \<Rightarrow> bool" where
  "in_step n t \<longleftrightarrow> tr_locate t = l \<and> n \<le> length msgs \<and> st_expected (tr_seq t) = of_nat (Suc n) \<and>
     (\<exists>k sm b c. rest k sm b \<and> ob.mirrors b c \<and> k \<le> n \<and> apply_all l (drop k (take n msgs)) c = (True, tr_book t))"

definition consistent :: "trader \<Rightarrow> bool" where
  "consistent t \<longleftrightarrow> tr_symbol t = symb \<and> book_ok (tr_book t) \<and> (tr_synced t \<longrightarrow> (\<exists>n. in_step n t))"

text \<open>A connection to the snapshot service: whatever arrives is the beginning of a snapshot.\<close>

definition honest :: "tcp_conn \<Rightarrow> bool" where
  "honest conn \<longleftrightarrow> (case conn of NoConnect \<Rightarrow> True
     | Conn ss cs \<Rightarrow> (\<forall>c\<in>set cs. c \<noteq> [] \<and> length c \<le> kMaxFrame + kFrameHeaderLen) \<and>
         (\<exists>k sm b z. rest k sm b \<and> concat cs @ z = frames_bytes (snapshot_stream sm)))"

lemma in_stepI:
  assumes "rest k sm b" "ob.mirrors b c" "k \<le> n" "n \<le> length msgs" "apply_all l (drop k (take n msgs)) c = (True, tr_book t)"
    "tr_locate t = l" "st_expected (tr_seq t) = of_nat (Suc n)"
  shows "in_step n t"
  unfolding in_step_def using assms by blast

lemma in_step_mirrors:
  assumes "in_step n t" "rest n sm b"
  shows "ob.mirrors b (tr_book t)"
  using assms rest_between [of _ _ _ n sm b] by (fastforce simp: in_step_def)

lemma in_step_market: "market t' = market t \<Longrightarrow> in_step n t' = in_step n t"
  by (simp add: in_step_def market_def)

lemma consistent_market: "market t' = market t \<Longrightarrow> tr_symbol t' = tr_symbol t \<Longrightarrow> consistent t' = consistent t"
  by (simp add: consistent_def market_def in_step_def)

lemma snapshot_read:
  assumes h: "honest (Conn ss cs)" and t: "book_ok (tr_book t)" "\<And>s. resting_orders s (tr_book t) = []" "tr_symbol t = symb"
    and r: "snap_recv cs FrameReader ((0, False), t\<lparr>tr_locate := 0\<rparr>) = (Some sq, t')"
  shows "\<exists>k sm b. rest k sm b \<and> sq = of_nat (Suc k) \<and> tr_locate t' = l \<and> ob.mirrors b (tr_book t')"
proof -
  obtain k sm b z where h: "\<forall>c\<in>set cs. c \<noteq> [] \<and> length c \<le> kMaxFrame + kFrameHeaderLen" "rest k sm b"
    "concat cs @ z = frames_bytes (snapshot_stream sm)" using h by (auto simp: honest_def)
  obtain ds as where s: "sm = ds @ as @ [EndOfSnapshot \<lparr>eos_next_sequence = of_nat (Suc k)\<rparr>]" "\<forall>m\<in>set sm. itch_wf m"
    "directory_for l symb ds" "\<forall>m\<in>set as. is_add m"
    "\<forall>c. book_ok c \<and> (\<forall>s. resting_orders s c = []) \<longrightarrow> (\<exists>c'. apply_all l as c = (True, c') \<and> ob.mirrors b c')"
    using rest_snapshot [OF h(2)] by blast
  obtain c' where c': "apply_all l as (tr_book t) = (True, c')" "ob.mirrors b c'" using s(5) t by blast
  have ne: "\<forall>m\<in>set (ds @ as). not_eos m"
    using s(3,4) by (auto simp: directory_for_def not_eos_def is_add_def split: itch_message.splits)
  have "fold snap_message ds ((0, False), t\<lparr>tr_locate := 0\<rparr>) = ((0, False), t\<lparr>tr_locate := l\<rparr>)"
    using snap_directories [of ds "t\<lparr>tr_locate := 0\<rparr>" l] s(3) t(3) by (simp add: directory_for_def)
  moreover have "fold snap_message as ((0, False), t\<lparr>tr_locate := l\<rparr>) = ((0, False), t\<lparr>tr_locate := l, tr_book := c'\<rparr>)"
    using snap_adds [OF s(4), of "t\<lparr>tr_locate := l\<rparr>" l c'] c'(1) rest_bounds [OF h(2)] by simp
  ultimately have f: "fold snap_message (ds @ as) ((0, False), t\<lparr>tr_locate := 0\<rparr>) = ((0, False), t\<lparr>tr_locate := l, tr_book := c'\<rparr>)" by simp
  have P: "fr_pending FrameReader = []" by (simp add: fr_pending_def FrameReader_def bslice_def)
  have "fst (snap_recv cs FrameReader ((0, False), t\<lparr>tr_locate := 0\<rparr>)) = None \<and> z \<noteq> [] \<or>
      snap_recv cs FrameReader ((0, False), t\<lparr>tr_locate := 0\<rparr>) =
        (Some (of_nat (Suc k)), snd (fold snap_message (ds @ as) ((0, False), t\<lparr>tr_locate := 0\<rparr>)))"
    using snap_recv_snapshot [of FrameReader "ds @ as" "\<lparr>eos_next_sequence = of_nat (Suc k)\<rparr>" cs z "((0, False), t\<lparr>tr_locate := 0\<rparr>)"]
      FrameReader_start s(1,2) h(1,3) ne P by (simp add: kMaxFrame_def parse1_def)
  then have "sq = of_nat (Suc k)" "t' = t\<lparr>tr_locate := l, tr_book := c'\<rparr>" using r unfolding f by auto
  then show ?thesis using h(2) c'(2) by (intro exI [of _ k] exI [of _ sm] exI [of _ b]) simp
qed

lemma consistent_snapshot:
  assumes h: "honest (te_snap E (tr_tick t))" and t: "book_ok (tr_book t)" "tr_symbol t = symb" and u: "\<not> tr_synced t"
  shows "consistent (snd (snapshot E t))"
proof -
  obtain ok t' where s: "snapshot E t = (ok, t')" by fastforce
  have sy: "tr_symbol t' = symb" using snapshot_views(1) [of E t] s t(2) by (simp add: core_def)
  have bk: "book_ok (tr_book t')" using book_ok_snapshot [OF t(1), of E] s by simp
  have nsync: "tr_synced t1 = tr_synced t0" if "snap_recv cs r (a, t0) = (q, t1)" for cs r a t0 q t1
    using snap_recv_others(1) [of cs r "(a, t0)"] that by simp
  from s have "tr_synced t' \<longrightarrow> (\<exists>n. in_step n t')"
  proof (cases rule: snapshot_cases)
    case early
    then show ?thesis using u by simp
  next
    case (failed ss cs next_seq)
    then show ?thesis using nsync [OF failed(3)] u by simp
  next
    case (rebuilt ss cs next_seq t1)
    let ?t0 = "t\<lparr>tr_tick := Suc (tr_tick t), tr_book := ob_clear (tr_book t)\<rparr>"
    have "book_ok (tr_book ?t0)" "\<And>s. resting_orders s (tr_book ?t0) = []" "tr_symbol ?t0 = symb"
      using book_ok_steps(4) [OF t(1)] book_clear(2) t by (simp_all add: book_ok_def)
    then obtain k sm b where k: "rest k sm b" "next_seq = of_nat (Suc k)" "tr_locate t1 = l" "ob.mirrors b (tr_book t1)"
      using snapshot_read [of ss cs ?t0 next_seq t1] h rebuilt(2,3) by auto
    then have "in_step k t'" using rest_bounds [OF k(1)] by (intro in_stepI [OF k(1,4)]) (simp_all add: rebuilt(5) st_reset_def)
    then show ?thesis by blast
  qed
  then show ?thesis using s sy bk by (simp add: consistent_def)
qed

lemma consistent_resync:
  assumes h: "\<And>n. honest (te_snap E n)" and t: "book_ok (tr_book t)" "tr_symbol t = symb"
  shows "consistent (resync E t)"
proof -
  let ?t = "t\<lparr>tr_synced := False, tr_resyncs := tr_resyncs t + 1\<rparr>"
  have "market (cancel_all E ?t) = market ?t" "core (cancel_all E ?t) = core ?t" by (simp_all add: views)
  then show ?thesis unfolding resync_def using t by (intro consistent_snapshot h) (simp_all add: market_def core_def)
qed

text \<open>One message of a packet: a repetition, a gap, or the next message of the history.\<close>

lemma in_step_message:
  assumes S: "in_step n t" and ps: "\<not> ps_gap ps" "\<not> ps_inconsistent ps"
    and m: "0 < unat sq" "unat sq \<le> length msgs" "m = itch_bytes (msgs ! (unat sq - 1))"
    and r: "packet_message (sq, m) (ps, t) = (ps', t')"
  shows "\<not> ps_inconsistent ps' \<and> tr_synced t' = tr_synced t \<and> (\<exists>n'. in_step n' t')"
proof (cases "sq = st_expected (tr_seq t)")
  case False
  then have "market t' = market t \<and> \<not> ps_inconsistent ps'" using r ps
    by (auto simp: packet_message_def on_message_def market_def split: if_splits)
  then show ?thesis using S in_step_market [of t' t n] by (auto simp: market_def)
next
  case True
  obtain k sm b c where K: "rest k sm b" "ob.mirrors b c" "k \<le> n" "apply_all l (drop k (take n msgs)) c = (True, tr_book t)"
    and L: "tr_locate t = l" "n \<le> length msgs" "st_expected (tr_seq t) = of_nat (Suc n)" using S by (auto simp: in_step_def)
  note B = rest_bounds [OF K(1)]
  have u: "unat (of_nat (Suc n) :: u64) = Suc n" using B L(2) by (intro unat_of_nat_id) simp
  then have n: "n < length msgs" "m = itch_bytes (msgs ! n)" using m True L(3) by simp_all
  have wf: "itch_wf (msgs ! n)" using B n(1) by simp
  have split: "drop k msgs = drop k (take n msgs) @ (msgs ! n) # drop (Suc n) msgs"
    using n(1) K(3) by (metis append_take_drop_id drop_append diff_is_0_eq drop0 length_take min.absorb2 less_imp_le Cons_nth_drop_Suc)
  have upto: "drop k (take (Suc n) msgs) = drop k (take n msgs) @ [msgs ! n]"
    using n(1) K(3) by (simp add: take_Suc_conv_app_nth)
  obtain res b' where a: "apply_itch l (msgs ! n) (tr_book t) = (res, b')" by fastforce
  have res: "res \<noteq> Inconsistent"
    using rest_replay [OF K(1,2)] a K(4) by (auto simp: split apply_all_append)
  then have book: "apply_all l (drop k (take (Suc n) msgs)) c = (True, b')"
    using a K(4) by (cases res) (simp_all add: upto apply_all_append)
  have e: "st_expected (tr_seq t) + 1 = of_nat (Suc (Suc n))" using L(3) by simp
  have t': "\<not> ps_inconsistent ps' \<and> tr_synced t' = tr_synced t \<and> tr_locate t' = l \<and> tr_book t' = b' \<and> st_expected (tr_seq t') = of_nat (Suc (Suc n))"
    using r ps True res a L(1) e
    by (cases res) (auto simp: packet_message_def on_message_def n(2) itch_decode_bytes [OF wf] Let_def split: itch_message.splits if_splits)
  then have "in_step (Suc n) t'" using K(3) n(1) book by (intro in_stepI [OF K(1,2)]) simp_all
  with t' show ?thesis by blast
qed

lemma in_step_packet:
  assumes "in_step n t" "\<forall>(sq, m)\<in>set ms. 0 < unat sq \<and> unat sq \<le> length msgs \<and> m = itch_bytes (msgs ! (unat sq - 1))"
    "\<not> ps_inconsistent ps" "fold packet_message ms (ps, t) = (ps', t')"
  shows "\<not> ps_inconsistent ps' \<and> tr_synced t' = tr_synced t \<and> (\<exists>n'. in_step n' t')"
  using assms
proof (induction ms arbitrary: n t ps)
  case (Cons x ms)
  obtain ps1 t1 where x: "packet_message x (ps, t) = (ps1, t1)" by fastforce
  have "\<not> ps_inconsistent ps1 \<and> tr_synced t1 = tr_synced t \<and> (\<exists>n'. in_step n' t1)"
  proof (cases "ps_gap ps")
    case True
    then have "ps1 = ps" "t1 = t" using x by (simp_all add: packet_message_def split: prod.splits)
    then show ?thesis using Cons.prems(1,3) by blast
  next
    case False
    obtain sq m where sm: "x = (sq, m)" by fastforce
    then show ?thesis using in_step_message [OF Cons.prems(1) False Cons.prems(3), of sq m ps1 t1] x Cons.prems(2) by simp
  qed
  then obtain n1 where n1: "\<not> ps_inconsistent ps1" "tr_synced t1 = tr_synced t" "in_step n1 t1" by blast
  show ?case using Cons.IH [OF n1(3) _ n1(1)] Cons.prems(2,4) x n1(2) by simp
qed auto

lemma carries_lookup:
  assumes "in_step n t" "carries (map itch_bytes msgs) p" "(sq, m) \<in> set (datagram_msgs p)"
  shows "0 < unat sq \<and> unat sq \<le> length msgs \<and> m = itch_bytes (msgs ! (unat sq - 1))"
proof -
  have "length msgs < 2 ^ 64" using assms(1) rest_bounds by (fastforce simp: in_step_def)
  then show ?thesis using numbered_lookup [OF assms(2,3)] by auto
qed

lemma maybe_trade_market: "market (maybe_trade E trig t) = market t"
proof -
  have s: "market (send_order E sg trig t) = market t" for sg t
    by (rule send_order_effect [OF refl refl, where t = t and E = E and sg = sg and trig = trig]) (simp add: views, simp add: market_def)
  have "market (t\<lparr>tr_strat := st\<rparr>) = market t" "market (t\<lparr>tr_strat := st, tr_signal_count := n\<rparr>) = market t"
    "market (t\<lparr>tr_strat := st, tr_signal_count := n, tr_risk_blocked := bl\<rparr>) = market t" for st n bl t
    by (simp_all add: market_def)
  then show ?thesis by (simp add: maybe_trade_def s Let_def split: prod.split option.split)
qed

text \<open>After a packet the trader is still consistent, and an order was sent only from a replica in step.\<close>

lemma consistent_packet:
  assumes C: "consistent t" and T: "trader_ok c t" and h: "\<And>n. honest (te_snap E n)" and p: "carries (map itch_bytes msgs) p"
  shows "consistent (handle_packet E p tk tu t)"
    "tr_next_user_ref (handle_packet E p tk tu t) \<noteq> tr_next_user_ref t \<Longrightarrow>
      tr_synced (handle_packet E p tk tu t) \<and> (\<exists>n. in_step n (handle_packet E p tk tu t))"
proof -
  let ?t = "handle_packet E p tk tu t"
  have T': "trader_ok c ?t" by (rule ok_handle_packet [OF T])
  have sy: "tr_symbol ?t = symb" using T T' C by (simp add: trader_ok_def consistent_def)
  have res: "tr_next_user_ref (resync E u) = tr_next_user_ref u" for u
  proof -
    have "core (resync E u) = core (u\<lparr>tr_synced := False, tr_resyncs := tr_resyncs u + 1\<rparr>)" by (simp add: resync_def views)
    then show ?thesis by (simp add: core_def)
  qed
  have "consistent ?t \<and> (tr_next_user_ref ?t \<noteq> tr_next_user_ref t \<longrightarrow> tr_synced ?t \<and> (\<exists>n. in_step n ?t))"
  proof (cases rule: handle_packet_cases [of E p tk tu t])
    case (skipped t')
    then show ?thesis using consistent_market [of t' t] C by (simp add: core_def)
  next
    case (beat h' t')
    have "book_ok (tr_book t')" "tr_symbol t' = symb" using C beat(2,4) by (simp_all add: consistent_def core_def market_def)
    then have "consistent ?t" using beat(1) by (simp add: consistent_resync [OF h])
    moreover have "tr_next_user_ref ?t = tr_next_user_ref t" using beat(1,2) res by (simp add: core_def)
    ultimately show ?thesis by simp
  next
    case (scanned h' t0 ps t1 t' trig)
    obtain n where "in_step n t" using C scanned(2) by (auto simp: consistent_def)
    then have n0: "in_step n t0" "tr_synced t0" using scanned(2,4) by (simp_all add: in_step_def)
    have "\<forall>(sq, m)\<in>set (datagram_msgs p). 0 < unat sq \<and> unat sq \<le> length msgs \<and> m = itch_bytes (msgs ! (unat sq - 1))"
      using carries_lookup [OF n0(1) p] by blast
    from in_step_packet [OF n0(1) this _ scanned(5)] obtain n1 where n1: "\<not> ps_inconsistent ps" "tr_synced t1" "in_step n1 t1"
      using n0(2) by (auto simp: packet_start_def)
    have c1: "core t1 = core t0" using packet_fold_views(1) [of "datagram_msgs p" "(packet_start, t0)"] scanned(5) by simp
    have b1: "book_ok (tr_book t1)"
      using book_ok_packets [of "(packet_start, t0)" "datagram_msgs p"] scanned(4,5) T by (simp add: trader_ok_def)
    have t': "in_step n1 t'" "tr_synced t'" "tr_next_user_ref t' = tr_next_user_ref t" "tr_symbol t' = symb" "book_ok (tr_book t')"
      using in_step_market [OF scanned(8)] n1 scanned(4,6,8) c1 C b1 by (simp_all add: market_def core_def consistent_def)
    show ?thesis
    proof (cases "ps_gap ps")
      case True
      then have eq: "?t = resync E (t'\<lparr>tr_gaps := tr_gaps t' + 1\<rparr>)" using scanned(10) by (simp add: after_scan_def)
      then have "consistent ?t" using t' by (simp add: consistent_resync [OF h])
      moreover have "tr_next_user_ref ?t = tr_next_user_ref t" using t'(3) by (simp add: eq res)
      ultimately show ?thesis by simp
    next
      case False
      then have "market ?t = market t'" using scanned(10) n1(1) by (simp add: after_scan_def maybe_trade_market)
      then have "in_step n1 ?t" "tr_synced ?t" "book_ok (tr_book ?t)" using t' in_step_market [of ?t t' n1] by (simp_all add: market_def)
      then show ?thesis using sy by (auto simp: consistent_def)
    qed
  qed
  then show "consistent ?t" "tr_next_user_ref ?t \<noteq> tr_next_user_ref t \<Longrightarrow> tr_synced ?t \<and> (\<exists>n. in_step n ?t)" by blast+
qed

text \<open>The invariant over the event loop. Everything but datagrams and snapshots leaves the replica alone.\<close>

definition steady :: "trader_config \<Rightarrow> trader \<Rightarrow> bool" where
  "steady c t \<longleftrightarrow> trader_ok c t \<and> consistent t"

lemma steady_same:
  assumes "steady c t" "trader_ok c t'" "market t' = market t"
  shows "steady c t'"
  using assms consistent_market [of t' t] by (simp add: steady_def trader_ok_def)

lemma steady_view:
  assumes "steady c t" "core t' = core t" "outgoing t' = outgoing t" "market t' = market t"
  shows "steady c t'"
  using assms ok_same by (intro steady_same [OF assms(1)]) (auto simp: steady_def)

lemma steady_md:
  assumes h: "\<And>n. honest (te_snap E n)"
  shows "steady c t \<Longrightarrow> \<forall>(d, tk)\<in>set ds. carries (map itch_bytes msgs) d \<and> length d \<le> 2048 \<Longrightarrow> steady c (on_md_readable E ds t)"
proof (induction ds arbitrary: t)
  case (Cons x ds)
  obtain d tk where x: "x = (d, tk)" by fastforce
  let ?t = "t\<lparr>tr_tick := Suc (tr_tick t)\<rparr>"
  have "steady c ?t" by (rule steady_view [OF Cons.prems(1)]) (simp_all add: view_defs)
  then have "steady c (handle_packet E d tk (te_real E (tr_tick t)) ?t)"
    using consistent_packet(1) [OF _ _ h, of ?t c d] ok_handle_packet Cons.prems(2) x by (simp add: steady_def)
  then show ?case using Cons.IH Cons.prems(2) x by (simp add: t_realtime_ns_def)
qed simp

lemma read_oe_market: "market (read_oe E rs t) = market t"
proof (induction E rs t rule: read_oe.induct)
  case (6 E ch rs t)
  obtain some r where rv: "recv_into ch (tr_oe_reader t) = (some, r)" by fastforce
  obtain fs st r' where dr: "fr_drain r = (fs, st, r')" by (cases "fr_drain r")
  have "market (t\<lparr>tr_tick := a, tr_last_oe_rx := b, tr_oe_reader := r\<rparr>) = market t" "market (oe_lost u) = market u"
    "market (t\<lparr>tr_oe_reader := r\<rparr>) = market t" for a b r u
    by (simp_all add: market_def oe_lost_def)
  moreover have "market (fold (handle_oe_frame rx) fs u) = market u" for rx u by (rule fold_view) (simp add: views)
  ultimately show ?case using "6.IH" by (simp add: rv dr t_realtime_ns_def t_now_ns_def Let_def)
qed (simp_all add: oe_lost_def market_def)

lemma steady_oe:
  assumes "steady c t"
  shows "steady c (on_oe_event E err outp inp ss e rs t)"
proof (rule steady_same [OF assms])
  show "trader_ok c (on_oe_event E err outp inp ss e rs t)" using assms ok_on_oe_event by (simp add: steady_def)
  obtain n t' where d: "(if err then drain_tx_stamps ss t else (1, t)) = (n, t')" by fastforce
  have "market t' = market t" using drain_tx_views(3) [of ss t] d by (auto split: if_splits)
  then show "market (on_oe_event E err outp inp ss e rs t) = market t"
    unfolding on_oe_event_def d by (simp add: Let_def read_oe_market views) (simp add: oe_lost_def market_def)
qed

lemma steady_timer:
  assumes h: "\<And>n. honest (te_snap E n)" and S: "steady c t"
  shows "steady c (t_on_timer E n t)"
proof -
  have V: "steady c (t\<lparr>tr_tick := k\<rparr>)" "steady c (t\<lparr>tr_last_resync_try := now\<rparr>)" "steady c (t\<lparr>tr_last_status := now\<rparr>)"
    "steady c (t\<lparr>tr_stop := s\<rparr>)" if "steady c t" for t k now s
    by (rule steady_view [OF that]; simp add: view_defs)+
  have B: "steady c (snd (oe_send E (bare_frame kClientHeartbeat) t))" if "steady c t" for t
    using that ok_bare by (intro steady_same [OF that]) (simp_all add: steady_def views)
  have N: "steady c (snd (snapshot E t))" if "steady c t" "\<not> tr_synced t" for t
    using that consistent_snapshot [OF h, of t] ok_snapshot by (simp add: steady_def consistent_def)
  show ?thesis unfolding t_on_timer_def t_now_ns_def Let_def prod.case using S by (auto simp: V B N)
qed

definition event_ok :: "t_event \<Rightarrow> bool" where
  "event_ok ev \<longleftrightarrow> (case ev of MdReady ds \<Rightarrow> \<forall>(d, tk)\<in>set ds. carries (map itch_bytes msgs) d \<and> length d \<le> 2048 | _ \<Rightarrow> True)"

lemma steady_pump:
  assumes h: "\<And>n. honest (te_snap E n)"
  shows "steady c t \<Longrightarrow> \<forall>ev\<in>set evs. event_ok ev \<Longrightarrow> steady c (pump E evs t)"
  unfolding pump_def
proof (induction evs arbitrary: t)
  case (Cons ev evs)
  have "steady c (t_dispatch E ev t)"
  proof (cases ev)
    case (MdReady ds)
    then show ?thesis using Cons.prems by (simp add: steady_md [OF h] event_ok_def)
  next
    case (SignalRead b)
    have "steady c (t\<lparr>tr_stop := True\<rparr>)" by (rule steady_view [OF Cons.prems(1)]) (simp_all add: view_defs)
    then show ?thesis using SignalRead Cons.prems(1) by simp
  qed (use Cons.prems(1) in \<open>simp_all add: steady_oe steady_timer [OF h]\<close>)
  then show ?case using Cons by simp
qed simp

lemma steady_loop:
  assumes h: "\<And>n. honest (te_snap E n)"
  shows "steady c t \<Longrightarrow> \<forall>evs\<in>set turns. \<forall>ev\<in>set evs. event_ok ev \<Longrightarrow> steady c (t_loop E turns t)"
  by (induction turns arbitrary: t) (simp_all add: steady_pump [OF h])

lemma steady_start:
  assumes h: "\<And>n. honest (te_snap E n)" and T: "Trader c = Some t0" "make_symbol (tc_symbol c) = symb"
    and s: "t_start E conn en t0 = Some t"
  shows "steady c t"
proof -
  have t0: "trader_ok c t0" "tr_oe_pending t0 = []" using Trader_ok [of c] T(1) by auto
  have "\<not> tr_synced t0" using T(1) by (auto simp: Trader_def)
  then have n: "consistent (snd (snapshot E t0))"
    using t0(1) T(2) by (intro consistent_snapshot h) (simp_all add: trader_ok_def)
  have T': "trader_ok c t" by (rule ok_start [OF t0 s])
  obtain t1 t2 where st: "snapshot E t0 = (True, t1)" "connect_order_entry E conn en t1 = Some t2"
    "t = (t2\<lparr>tr_tick := Suc (tr_tick t2), tr_start_ns := te_mono E (tr_tick t2),
       tr_deadline_ns := te_mono E (tr_tick t2) + tc_duration_s (tr_cfg t2) * 1000000000\<rparr>)"
    using s by (auto simp: t_start_def t_now_ns_def split: prod.splits bool.splits)
  have "market t2 = market t1"
    using st(2) by (auto simp: connect_order_entry_def t_now_ns_def Let_def market_def split: tcp_conn.splits prod.splits if_splits)
  then have "market t = market t1" by (simp add: st(3) market_def)
  then have "consistent t"
    using consistent_market [of t t1] n st(1) T' T(2) by (simp add: consistent_def trader_ok_def)
  then show ?thesis using T' by (simp add: steady_def)
qed

lemma steady_run:
  assumes "\<And>n. honest (te_snap E n)" "Trader c = Some t0" "make_symbol (tc_symbol c) = symb"
    "t_start E conn en t0 = Some t" "\<forall>evs\<in>set turns. \<forall>ev\<in>set evs. event_ok ev"
  shows "steady c (t_loop E turns t)"
  using steady_loop [OF assms(1) steady_start [OF assms(1-4)] assms(5)] .

text \<open>A snapshot that arrives completely is accepted.\<close>

lemma snapshot_accepted:
  assumes conn: "te_snap E (tr_tick t) = Conn ss cs" "send_all_blocking ss 49"
    and cs: "\<forall>c\<in>set cs. c \<noteq> [] \<and> length c \<le> kMaxFrame + kFrameHeaderLen" "rest k sm b" "concat cs = frames_bytes (snapshot_stream sm)"
    and t: "book_ok (tr_book t)" "tr_symbol t = symb"
  shows "fst (snapshot E t)"
proof -
  let ?t = "t\<lparr>tr_tick := Suc (tr_tick t), tr_book := ob_clear (tr_book t)\<rparr>"
  obtain ds as where s: "sm = (ds @ as) @ [EndOfSnapshot \<lparr>eos_next_sequence = of_nat (Suc k)\<rparr>]" "\<forall>m\<in>set sm. itch_wf m"
    "directory_for l symb ds" "\<forall>m\<in>set as. is_add m"
    using rest_snapshot [OF cs(2)] by auto
  have ne: "\<forall>m\<in>set (ds @ as). not_eos m"
    using s(3,4) by (auto simp: directory_for_def not_eos_def is_add_def split: itch_message.splits)
  have P: "fr_pending FrameReader = []" by (simp add: FrameReader_start)
  obtain t1 where r: "snap_recv cs FrameReader ((0, False), ?t\<lparr>tr_locate := 0\<rparr>) = (Some (of_nat (Suc k)), t1)"
    using snap_recv_snapshot [of FrameReader "ds @ as" "\<lparr>eos_next_sequence = of_nat (Suc k)\<rparr>" cs "[]" "((0, False), ?t\<lparr>tr_locate := 0\<rparr>)"]
      FrameReader_start s(1,2) cs(1,3) ne P by (auto simp: kMaxFrame_def parse1_def)
  have "honest (Conn ss cs)" unfolding honest_def tcp_conn.case using cs by (metis append_Nil2)
  moreover have "book_ok (tr_book ?t)" "\<And>s. resting_orders s (tr_book ?t) = []" "tr_symbol ?t = symb"
    using book_ok_steps(4) [OF t(1)] book_clear(2) t by (simp_all add: book_ok_def)
  ultimately have "tr_locate t1 = l" using snapshot_read [OF _ _ _ _ r] by blast
  then show ?thesis
    using conn r rest_bounds [OF cs(2)] login_frame_bytes [of "tc_user (tr_cfg t)"] by (auto simp: snapshot_def Let_def)
qed

end

section \<open>The history of the venue\<close>

text \<open>The messages of a snapshot of the engine, as the exchange sends them.\<close>

definition engine_locates :: "matching_engine \<Rightarrow> u16 list" where
  "engine_locates e = map of_nat [1..<Suc (length (me_books e))]"

definition engine_symbol :: "matching_engine \<Rightarrow> u16 \<Rightarrow> symbol" where
  "engine_symbol e loc = me_symbols e ! (unat loc - 1)"

definition dir_msg :: "u64 \<Rightarrow> matching_engine \<Rightarrow> u16 \<Rightarrow> itch_message" where
  "dir_msg ts e loc =
     StockDirectory \<lparr>sd_locate = loc, sd_timestamp = ts, sd_stock = engine_symbol e loc, sd_round_lot_size = 100\<rparr>"

definition book_msgs :: "u64 \<Rightarrow> matching_engine \<Rightarrow> itch_message list" where
  "book_msgs ts e = concat (map (\<lambda>loc. snapshot_msgs loc ts (engine_symbol e loc) (book_at loc e)) (engine_locates e))"

definition snapshot_messages :: "u64 \<Rightarrow> u64 \<Rightarrow> matching_engine \<Rightarrow> itch_message list" where
  "snapshot_messages ts next_seq e =
     map (dir_msg ts e) (engine_locates e) @ book_msgs ts e @ [EndOfSnapshot \<lparr>eos_next_sequence = next_seq\<rparr>]"

lemma engine_locates_valid:
  assumes "length (me_books e) < 2 ^ 16"
  shows "set (engine_locates e) = {l. valid_locate l e}" "distinct (engine_locates e)"
proof -
  have u: "unat (of_nat i :: u16) = i" if "i < Suc (length (me_books e))" for i
    using that assms by (intro unat_of_nat_id) simp
  show "set (engine_locates e) = {l. valid_locate l e}"
  proof (intro set_eqI iffI)
    fix l :: u16 assume "l \<in> {l. valid_locate l e}"
    then have "l = of_nat (unat l)" "unat l \<in> {1..<Suc (length (me_books e))}" by (simp_all add: valid_locate_def)
    then show "l \<in> set (engine_locates e)" unfolding engine_locates_def by (metis image_eqI list.set_map set_upt)
  qed (auto simp: engine_locates_def valid_locate_def u)
  have "inj_on (of_nat :: nat \<Rightarrow> u16) {1..<Suc (length (me_books e))}" by (rule inj_onI) (metis u atLeastLessThan_iff)
  then show "distinct (engine_locates e)" by (simp add: engine_locates_def distinct_map del: upt_Suc)
qed

lemma apply_other: "loc \<noteq> l \<Longrightarrow> apply_all l (snapshot_msgs loc ts stock b) c = (True, c)"
proof -
  assume "loc \<noteq> l"
  then have "apply_itch l (add_msg loc ts stock r) c = (Ignored, c)" for r by (simp add: apply_itch_def add_msg_def)
  then have "apply_all l (map (\<lambda>n. add_msg loc ts stock (rest_of n)) ns) c = (True, c)" for ns by (induction ns) simp_all
  then show ?thesis by (simp add: snapshot_msgs_def)
qed

lemma apply_book_msgs:
  assumes "distinct locs" "apply_all l (snapshot_msgs l ts (st l) (bk l)) c = (True, c')"
  shows "apply_all l (concat (map (\<lambda>loc. snapshot_msgs loc ts (st loc) (bk loc)) locs)) c = (True, if l \<in> set locs then c' else c)"
proof -
  have o: "apply_all l (concat (map (\<lambda>loc. snapshot_msgs loc ts (st loc) (bk loc)) ls)) c = (True, c)" if "l \<notin> set ls" for ls c
    using that by (induction ls) (auto simp: apply_all_append apply_other)
  show ?thesis
  proof (cases "l \<in> set locs")
    case True
    then obtain xs ys where "locs = xs @ l # ys" "l \<notin> set xs" "l \<notin> set ys" using assms(1) by (metis split_list distinct.simps(2) distinct_append not_distinct_conv_prefix)
    then show ?thesis using o assms(2) by (simp add: apply_all_append)
  qed (simp add: o)
qed

text \<open>The steps of the venue with the engine after each: any number of submits and cancels per step.\<close>

fun venue_trace :: "matching_engine \<Rightarrow> (engine_event list \<times> matching_engine) list \<Rightarrow> bool" where
  "venue_trace e [] = True"
| "venue_trace e ((evs, e') # steps) = (venue_run e evs e' \<and> venue_trace e' steps)"

fun trace_end :: "matching_engine \<Rightarrow> (engine_event list \<times> matching_engine) list \<Rightarrow> matching_engine" where
  "trace_end e [] = e"
| "trace_end e ((evs, e') # steps) = trace_end e' steps"

abbreviation trace_events :: "(engine_event list \<times> matching_engine) list \<Rightarrow> engine_event list" where
  "trace_events steps \<equiv> concat (map fst steps)"

lemma venue_trace_append: "venue_trace e (xs @ ys) \<longleftrightarrow> venue_trace e xs \<and> venue_trace (trace_end e xs) ys"
  by (induction e xs rule: venue_trace.induct) auto

lemma trace_end_append: "trace_end e (xs @ ys) = trace_end (trace_end e xs) ys"
  by (induction e xs rule: venue_trace.induct) auto

lemma venue_trace_run: "venue_trace e steps \<Longrightarrow> venue_run e (trace_events steps) (trace_end e steps)"
proof (induction e steps rule: venue_trace.induct)
  case (2 e evs e' steps)
  then show ?case using venue_run_trans [of e' "trace_events steps" "trace_end e' steps" e evs] by simp
qed (simp add: venue_run.start)

text \<open>A day of the venue for one symbol: what precedes trading, then the messages of the steps.\<close>

definition venue_messages :: "itch_message list \<Rightarrow> (u16 \<Rightarrow> symbol) \<Rightarrow> (nat \<Rightarrow> u64) \<Rightarrow> (engine_event list \<times> matching_engine) list \<Rightarrow>
    itch_message list" where
  "venue_messages pre stock clock steps = pre @ events_msgs stock clock 0 (trace_events steps)"

definition venue_day :: "u16 \<Rightarrow> symbol \<Rightarrow> itch_message list \<Rightarrow> matching_engine \<Rightarrow> (engine_event list \<times> matching_engine) list \<Rightarrow> bool" where
  "venue_day l symb msgs e steps \<longleftrightarrow> engine_inv e \<and> valid_locate l e \<and> length (me_books e) < 2 ^ 16 \<and>
     (\<forall>s\<in>set (me_symbols e). length s = 8) \<and> ob_cfg (book_at l e) = default_config \<and>
     (\<forall>l'. valid_locate l' e \<longrightarrow> (engine_symbol e l' = symb \<longleftrightarrow> l' = l)) \<and> (\<forall>m\<in>set msgs. itch_wf m) \<and>
     length msgs < 2 ^ 64 - 1 \<and> venue_trace e steps"

definition venue_rest :: "u16 \<Rightarrow> symbol \<Rightarrow> itch_message list \<Rightarrow> (u16 \<Rightarrow> symbol) \<Rightarrow> (nat \<Rightarrow> u64) \<Rightarrow> matching_engine \<Rightarrow>
    (engine_event list \<times> matching_engine) list \<Rightarrow> nat \<Rightarrow> itch_message list \<Rightarrow> order_book \<Rightarrow> bool" where
  "venue_rest l symb pre stock clock e steps k sm b \<longleftrightarrow>
     venue_day l symb (venue_messages pre stock clock steps) e steps \<and>
     (\<exists>i ts. i \<le> length steps \<and> ts48 ts \<and> k = length (venue_messages pre stock clock (take i steps)) \<and>
        sm = snapshot_messages ts (of_nat (Suc k)) (trace_end e (take i steps)) \<and> b = book_at l (trace_end e (take i steps)))"

lemma venue_messages_split:
  assumes "i \<le> length steps"
  obtains n where "venue_messages pre stock clock steps =
    venue_messages pre stock clock (take i steps) @ events_msgs stock clock n (trace_events (drop i steps))"
proof -
  have "trace_events steps = trace_events (take i steps) @ trace_events (drop i steps)"
    by (metis append_take_drop_id concat_append map_append)
  then show ?thesis using that by (simp add: venue_messages_def events_msgs_append)
qed

text \<open>Every point of the day keeps the symbols, the invariant and the grid.\<close>

lemma venue_day_at:
  assumes "venue_day l symb msgs e steps" "i \<le> length steps"
  defines "e' \<equiv> trace_end e (take i steps)"
  shows "engine_inv e'" "valid_locate l e'" "length (me_books e') = length (me_books e)" "me_symbols e' = me_symbols e"
    "same_grid (book_at l e) (book_at l e')" "wire_band (book_at l e')" "venue_trace e' (drop i steps)" "book_inv (book_at l e')"
proof -
  note D = assms(1) [unfolded venue_day_def]
  have tr: "venue_trace e (take i steps)" "venue_trace e' (drop i steps)"
    using D venue_trace_append [of e "take i steps" "drop i steps"] by (simp_all add: e'_def)
  note K = venue_run_keeps [OF venue_trace_run [OF tr(1)]]
  show a: "engine_inv e'" "valid_locate l e'" "length (me_books e') = length (me_books e)" "me_symbols e' = me_symbols e"
    "same_grid (book_at l e) (book_at l e')" "venue_trace e' (drop i steps)"
    using K D tr(2) by (simp_all add: e'_def valid_locate_def)
  show "wire_band (book_at l e')" using default_band [of "book_at l e"] D a(5) by (simp add: wire_band_def same_grid_def)
  show "book_inv (book_at l e')" using engine_inv_book(1) [OF a(1,2)] .
qed

lemma venue_replay:
  assumes D: "venue_day l symb (venue_messages pre stock clock steps) e steps" and i: "i \<le> j" "j \<le> length steps"
    and M: "ob.mirrors (book_at l (trace_end e (take i steps))) c"
  shows "\<exists>c'. apply_all l (drop (length (venue_messages pre stock clock (take i steps))) (venue_messages pre stock clock (take j steps))) c = (True, c') \<and>
    ob.mirrors (book_at l (trace_end e (take j steps))) c'"
proof -
  let ?ei = "trace_end e (take i steps)" and ?mid = "drop i (take j steps)"
  have i': "i \<le> length steps" "i \<le> length (take j steps)" using i by simp_all
  note A = venue_day_at [OF D i'(1)]
  have tk: "take i (take j steps) = take i steps" using i(1) by (simp add: min_def)
  obtain n where n: "venue_messages pre stock clock (take j steps) =
      venue_messages pre stock clock (take i steps) @ events_msgs stock clock n (trace_events ?mid)"
    by (rule venue_messages_split [OF i'(2), of pre stock clock, unfolded tk])
  have "drop i (take j steps @ drop j steps) = ?mid @ drop (i - min (length steps) j) (drop j steps)" by (simp only: drop_append length_take)
  then have "drop i steps = ?mid @ drop j steps" using i by (simp add: min_def)
  then have "venue_trace ?ei ?mid" using A(7) venue_trace_append by metis
  moreover have "trace_end ?ei ?mid = trace_end e (take j steps)"
    using trace_end_append [of e "take i (take j steps)" ?mid] unfolding append_take_drop_id unfolding tk by (rule sym)
  ultimately have "venue_run ?ei (trace_events ?mid) (trace_end e (take j steps))" using venue_trace_run by metis
  from venue_run_mirrors [OF this A(1,2) M A(6)] show ?thesis unfolding n by simp
qed

text \<open>The venue provides the history that the trader relies on.\<close>

lemma venue_rest_snapshot:
  assumes D: "venue_day l symb (venue_messages pre stock clock steps) e steps" and i: "i \<le> length steps" and ts: "ts48 ts"
  defines "e' \<equiv> trace_end e (take i steps)"
  shows "(\<forall>m\<in>set (snapshot_messages ts sq e'). itch_wf m) \<and> directory_for l symb (map (dir_msg ts e') (engine_locates e')) \<and>
    (\<forall>m\<in>set (book_msgs ts e'). is_add m) \<and>
    (\<forall>c. book_ok c \<and> (\<forall>s. resting_orders s c = []) \<longrightarrow>
      (\<exists>c'. apply_all l (book_msgs ts e') c = (True, c') \<and> ob.mirrors (book_at l e') c'))"
proof (intro conjI allI impI)
  note A = venue_day_at [OF D i, folded e'_def] and D' = D [unfolded venue_day_def]
  have len: "length (me_books e') < 2 ^ 16" using A(3) D' by simp
  note L = engine_locates_valid [OF len]
  have sy: "engine_symbol e' loc = engine_symbol e loc" "valid_locate loc e' = valid_locate loc e" for loc
    using A(3,4) by (simp_all add: engine_symbol_def valid_locate_def)
  have s8: "length (engine_symbol e' loc) = 8" if "valid_locate loc e'" for loc
    using that D' A(1,4) by (auto simp: engine_symbol_def valid_locate_def engine_inv_def)
  show "\<forall>m\<in>set (snapshot_messages ts sq e'). itch_wf m"
    using s8 L(1) ts by (auto simp: snapshot_messages_def book_msgs_def dir_msg_def snapshot_msgs_def add_msg_def)
  show "directory_for l symb (map (dir_msg ts e') (engine_locates e'))"
    using D' A(2) L(1) by (auto simp: directory_for_def dir_msg_def sy image_iff)
  show "\<forall>m\<in>set (book_msgs ts e'). is_add m" by (auto simp: book_msgs_def snapshot_msgs_def add_msg_def is_add_def)
  fix c assume c: "book_ok c \<and> (\<forall>s. resting_orders s c = [])"
  have "same_grid (book_at l e') c"
    using A(5) D' c valid_price_cfg [of "book_at l e" c] by (simp add: same_grid_def book_ok_def ob_capacity_def)
  then obtain c' where c': "apply_all l (snapshot_msgs l ts (engine_symbol e' l) (book_at l e')) c = (True, c')" "ob.mirrors (book_at l e') c'"
    using snapshot_mirrors [OF A(8,6), of c l ts "engine_symbol e' l"] c by (auto simp: book_ok_def)
  have "apply_all l (book_msgs ts e') c = (True, c')"
    using apply_book_msgs [where st = "engine_symbol e'" and bk = "\<lambda>loc. book_at loc e'", OF L(2) c'(1)] A(2) L(1)
    by (simp add: book_msgs_def)
  then show "\<exists>c'. apply_all l (book_msgs ts e') c = (True, c') \<and> ob.mirrors (book_at l e') c'" using c'(2) by blast
qed

lemma mirrors_same:
  assumes "ob.mirrors b c" "ob.mirrors b c0" "ob.mirrors b' c0"
  shows "ob.mirrors b' c"
  using assms by (simp add: ob.mirrors_def)

lemma empty_book: "\<exists>c. book_ok c \<and> (\<forall>s. resting_orders s c = [])"
  using book_new [OF default_config_ok] by (auto simp: book_ok_def)

interpretation venue: published_history l symb "venue_messages pre stock clock steps" "venue_rest l symb pre stock clock e steps"
  for l symb pre stock clock e steps
proof unfold_locales
  let ?msgs = "venue_messages pre stock clock steps" and ?rest = "venue_rest l symb pre stock clock e steps"
  fix k sm b
  assume R: "?rest k sm b"
  then obtain i ts where D: "venue_day l symb ?msgs e steps" and i: "i \<le> length steps" "ts48 ts" "k = length (venue_messages pre stock clock (take i steps))"
    "sm = snapshot_messages ts (of_nat (Suc k)) (trace_end e (take i steps))" "b = book_at l (trace_end e (take i steps))"
    by (auto simp: venue_rest_def)
  obtain n where "?msgs = venue_messages pre stock clock (take i steps) @ events_msgs stock clock n (trace_events (drop i steps))"
    by (rule venue_messages_split [OF i(1)])
  then show "l \<noteq> 0 \<and> k \<le> length ?msgs \<and> length ?msgs < 2 ^ 64 - 1 \<and> (\<forall>m\<in>set ?msgs. itch_wf m)"
    using D i(3) by (auto simp: venue_day_def valid_locate_def)
  show "\<exists>ds as. sm = ds @ as @ [EndOfSnapshot \<lparr>eos_next_sequence = of_nat (Suc k)\<rparr>] \<and> (\<forall>m\<in>set sm. itch_wf m) \<and>
      directory_for l symb ds \<and> (\<forall>m\<in>set as. is_add m) \<and>
      (\<forall>c. book_ok c \<and> (\<forall>s. resting_orders s c = []) \<longrightarrow> (\<exists>c'. apply_all l as c = (True, c') \<and> ob.mirrors b c'))"
    using venue_rest_snapshot [OF D i(1,2), of "of_nat (Suc k)"] unfolding i(4,5)
    by (intro exI [of _ "map (dir_msg ts (trace_end e (take i steps))) (engine_locates (trace_end e (take i steps)))"]
        exI [of _ "book_msgs ts (trace_end e (take i steps))"]) (simp add: snapshot_messages_def)
  fix c assume M: "ob.mirrors b c"
  show "fst (apply_all l (drop k ?msgs) c)"
    using venue_replay [OF D i(1) order.refl M [unfolded i(5)]] i(3) by auto
next
  let ?msgs = "venue_messages pre stock clock steps" and ?rest = "venue_rest l symb pre stock clock e steps"
  let ?vm = "\<lambda>i. venue_messages pre stock clock (take i steps)"
  fix k sm b j sm' b' c
  assume R: "?rest k sm b" "?rest j sm' b'" "k \<le> j" "ob.mirrors b c"
  obtain i where D: "venue_day l symb ?msgs e steps" and i: "i \<le> length steps" "k = length (?vm i)" "b = book_at l (trace_end e (take i steps))"
    using R(1) by (auto simp: venue_rest_def)
  obtain i' ts where i': "i' \<le> length steps" "j = length (?vm i')" "b' = book_at l (trace_end e (take i' steps))" "ts48 ts"
    using R(2) by (auto simp: venue_rest_def)
  have tj: "take j ?msgs = ?vm i'" using venue_messages_split [OF i'(1), of pre stock clock] i'(2) by (metis append_eq_conv_conj)
  show "\<exists>c'. apply_all l (drop k (take j ?msgs)) c = (True, c') \<and> ob.mirrors b' c'"
  proof (cases "i \<le> i'")
    case True
    then show ?thesis using venue_replay [OF D True i'(1)] R(4) unfolding tj i(2,3) i'(3) by blast
  next
    case False
    then have le: "i' \<le> i" by simp
    obtain c0 where c0: "book_ok c0" "\<forall>s. resting_orders s c0 = []" using empty_book by blast
    obtain c1 where c1: "ob.mirrors b' c1" using venue_rest_snapshot [OF D i'(1,4)] c0 unfolding i'(3) by blast
    have tk: "take i' (take i steps) = take i' steps" "i' \<le> length (take i steps)" using le i(1) by (simp_all add: min_def)
    obtain n where "?vm i = ?vm i' @ events_msgs stock clock n (trace_events (drop i' (take i steps)))"
      by (rule venue_messages_split [OF tk(2), of pre stock clock, unfolded tk(1)])
    then have "?vm i = ?vm i'" using R(3) i(2) i'(2) by simp
    then have kj: "k = j" "drop (length (?vm i')) (?vm i) = []" using i(2) i'(2) by simp_all
    have "ob.mirrors b c1" using venue_replay [OF D le i(1), of c1] c1 kj(2) unfolding i(3) i'(3) by simp
    then have "ob.mirrors b' c" using mirrors_same [OF R(4) _ c1] by blast
    then show ?thesis using kj(1) by simp
  qed
qed

text \<open>The environment of a trader on such a day: what arrives on a snapshot connection is the beginning of
  a snapshot taken while the exchange was at rest, in reads of at most one frame; a datagram carries
  published messages under their numbers.\<close>

definition served :: "u16 \<Rightarrow> symbol \<Rightarrow> itch_message list \<Rightarrow> (u16 \<Rightarrow> symbol) \<Rightarrow> (nat \<Rightarrow> u64) \<Rightarrow> matching_engine \<Rightarrow>
    (engine_event list \<times> matching_engine) list \<Rightarrow> tcp_conn \<Rightarrow> bool" where
  "served l symb pre stock clock e steps conn \<longleftrightarrow>
     (case conn of NoConnect \<Rightarrow> True
      | Conn ss cs \<Rightarrow> (\<forall>c\<in>set cs. c \<noteq> [] \<and> length c \<le> kMaxFrame + kFrameHeaderLen) \<and>
          (\<exists>k sm b z. venue_rest l symb pre stock clock e steps k sm b \<and> concat cs @ z = frames_bytes (snapshot_stream sm)))"

definition day_events :: "itch_message list \<Rightarrow> t_event list list \<Rightarrow> bool" where
  "day_events msgs turns \<longleftrightarrow> (\<forall>evs\<in>set turns. \<forall>ev\<in>set evs. case ev of
      MdReady ds \<Rightarrow> \<forall>(d, tk)\<in>set ds. carries (map itch_bytes msgs) d \<and> length d \<le> 2048 | _ \<Rightarrow> True)"

text \<open>The replica after the first \<open>n\<close> messages of the day.\<close>

definition replays :: "u16 \<Rightarrow> symbol \<Rightarrow> itch_message list \<Rightarrow> (u16 \<Rightarrow> symbol) \<Rightarrow> (nat \<Rightarrow> u64) \<Rightarrow> matching_engine \<Rightarrow>
    (engine_event list \<times> matching_engine) list \<Rightarrow> nat \<Rightarrow> trader \<Rightarrow> bool" where
  "replays l symb pre stock clock e steps n t \<longleftrightarrow> tr_locate t = l \<and> n \<le> length (venue_messages pre stock clock steps) \<and>
     st_expected (tr_seq t) = of_nat (Suc n) \<and>
     (\<exists>k sm b c. venue_rest l symb pre stock clock e steps k sm b \<and> ob.mirrors b c \<and> k \<le> n \<and>
        apply_all l (drop k (take n (venue_messages pre stock clock steps))) c = (True, tr_book t))"

lemma venue_defs:
  "venue.honest l symb pre stock clock e steps conn = served l symb pre stock clock e steps conn"
  "(\<forall>evs\<in>set turns. \<forall>ev\<in>set evs. venue.event_ok pre stock clock steps ev) = day_events (venue_messages pre stock clock steps) turns"
  "venue.in_step l pre stock clock steps symb e n t = replays l symb pre stock clock e steps n t"
  by (simp_all add: venue.honest_def served_def venue.event_ok_def day_events_def venue.in_step_def replays_def)

section \<open>What the snapshot service sends\<close>

definition out_of :: "u32 \<Rightarrow> exchange \<Rightarrow> bytes option" where
  "out_of sid x = map_option s_out (x_sessions x sid)"

lemma out_of_queue: "out_of sid (queue_frame sid ty p x) = map_option (\<lambda>out. append_frame out ty p) (out_of sid x)"
  by (auto simp: out_of_def queue_frame_def mark_dirty_def upd_session_def split: option.split)

lemma out_of_queue_itch:
  assumes "itch_wf m"
  shows "out_of sid (queue_itch sid m x) = map_option (\<lambda>out. out @ frame_bytes kSequencedData (itch_bytes m)) (out_of sid x)"
proof -
  have le: "itch_len m \<le> itch_kMaxMessageLen" by (cases m) (simp_all add: itch_len_def itch_kMaxMessageLen_def)
  obtain buf n where e: "itch_encode m (replicate itch_kMaxMessageLen 0) itch_kMaxMessageLen = (buf, n)" by fastforce
  then have "take n buf = itch_bytes m"
    using itch_encode_bytes [OF assms, of itch_kMaxMessageLen "replicate itch_kMaxMessageLen 0"] le
      itch_encode_size [OF assms, of itch_kMaxMessageLen "replicate itch_kMaxMessageLen 0"] assms by (simp add: blit_def)
  moreover have "frame_ok (itch_bytes m)"
    using assms by (cases m) (simp_all add: frame_ok_def kMaxFrame_def itch_len_def)
  ultimately show ?thesis by (simp add: queue_itch_def e out_of_queue append_frame_bytes)
qed

lemma out_of_fold:
  "\<forall>m\<in>set ms. itch_wf m \<Longrightarrow>
     out_of sid (fold (queue_itch sid) ms x) = map_option (\<lambda>out. out @ frames_bytes (seq_frames ms)) (out_of sid x)"
proof (induction ms arbitrary: x)
  case Nil
  then show ?case by (simp add: option.map_ident)
next
  case (Cons m ms)
  then show ?case by (simp add: out_of_queue_itch option.map_comp o_def)
qed

lemma fold_concat_map: "fold (\<lambda>a. fold f (g a)) as x = fold f (concat (map g as)) x"
  by (induction as arbitrary: x) simp_all

lemma send_snapshot_out:
  assumes inv: "x_inv x" and len: "length (me_books (x_engine x)) < 2 ^ 16" and s: "out_of sid x = Some out"
  shows "\<exists>ts. ts48 ts \<and> out_of sid (send_snapshot E sid x) =
    Some (out @ frames_bytes (snapshot_stream (snapshot_messages ts (md_next_seq (x_md (x_flush E x))) (x_engine x))))"
proof -
  define y where "y = x_flush E x"
  define ts where "ts = ns_since_midnight (os_real E (x_tick y))"
  define x0 where "x0 = y\<lparr>x_tick := Suc (x_tick y)\<rparr>"
  let ?e = "x_engine x" and ?eos = "EndOfSnapshot \<lparr>eos_next_sequence = md_next_seq (x_md y)\<rparr>"
  have eng: "x_engine x0 = ?e" "out_of sid x0 = Some out"
    using s by (simp_all add: x0_def y_def out_of_def x_flush_def split: prod.split)
  have loc: "locates x0 = engine_locates ?e" "symbol_of loc x0 = engine_symbol ?e loc" "directory_msg ts x0 loc = dir_msg ts ?e loc" for loc
    by (simp_all add: locates_def engine_locates_def symbol_of_def engine_symbol_def directory_msg_def dir_msg_def eng(1))
  have ts: "ts48 ts" unfolding ts_def by (rule midnight_ts48)
  let ?dirs = "map (dir_msg ts ?e) (engine_locates ?e)" and ?ms = "snapshot_messages ts (md_next_seq (x_md y)) ?e"
  have "length (engine_symbol ?e loc) = 8" if "valid_locate loc ?e" for loc
    using symbol_len [OF inv that] by (simp add: symbol_of_def engine_symbol_def)
  then have wf: "\<forall>m\<in>set ?ms. itch_wf m"
    using engine_locates_valid(1) [OF len] ts by (auto simp: snapshot_messages_def book_msgs_def dir_msg_def snapshot_msgs_def add_msg_def)
  define x3 where "x3 = fold (queue_itch sid) ?ms x0"
  have "fold (\<lambda>loc. queue_itch sid (dir_msg ts ?e loc)) ls z = fold (queue_itch sid) (map (dir_msg ts ?e) ls) z" for ls z
    by (simp add: fold_map o_def)
  then have "send_snapshot E sid x = (let x4 = upd_session sid (\<lambda>s. s\<lparr>s_close_after_flush := True\<rparr>) (queue_frame sid kEndOfSession [] x3)
      in x4\<lparr>x_snapshots := x_snapshots x4 + 1\<rparr>)"
    unfolding send_snapshot_def Let_def mid_now_def prod.case y_def [symmetric] ts_def [symmetric] x0_def [symmetric] loc fold_concat_map eng(1)
    by (simp add: x3_def snapshot_messages_def book_msgs_def)
  moreover have "out_of sid (upd_session sid (\<lambda>s. s\<lparr>s_close_after_flush := True\<rparr>) z) = out_of sid z" "out_of sid (z\<lparr>x_snapshots := n\<rparr>) = out_of sid z" for z n
    by (simp_all add: out_of_def upd_session_def option.map_comp o_def)
  moreover have "append_frame o' kEndOfSession [] = o' @ frame_bytes kEndOfSession []" for o'
    by (simp add: append_frame_bytes frame_ok_def kMaxFrame_def)
  ultimately have "out_of sid (send_snapshot E sid x) = Some (out @ frames_bytes (snapshot_stream ?ms))"
    using out_of_fold [OF wf, of sid x0] eng(2) by (simp add: Let_def out_of_queue x3_def snapshot_stream_def)
  then show ?thesis using ts y_def by blast
qed

end
