(* ===== verification/Fix.thy ===== *)
theory Fix
  imports Trading_Types
begin

text \<open>
  The FIX 4.4 encoder and parser (\<open>include/fix.hpp\<close>). Text is a list of bytes; a
  \<open>std::string_view\<close> result is the text it denotes, the empty view is \<open>[]\<close>. Shown: the encoder
  produces exactly the specified message whenever it fits and the empty view otherwise; parsing an
  encoded order succeeds and gives the order back; decimal prices round-trip; and the checks that
  the parser makes on length and checksum.
\<close>

section \<open>Encoder\<close>

definition kSOH :: u8 where
  "kSOH = 1"

record new_order_single =
  no_sender_comp_id :: bytes
  no_target_comp_id :: bytes
  no_msg_seq_num :: u64
  no_sending_time :: bytes
  no_clordid :: bytes
  no_symbol :: bytes
  no_side :: side
  no_qty :: qty
  no_price :: price
  no_tif :: time_in_force

text \<open>The output cursor: buffer, write position and end as offsets, the failure latch.\<close>

record fix_out =
  fo_buf :: bytes
  fo_p :: nat
  fo_end :: nat
  fo_ok :: bool

definition put_ch :: "u8 \<Rightarrow> fix_out \<Rightarrow> fix_out" where
  "put_ch c w =
     (if fo_p w < fo_end w then w\<lparr>fo_buf := (fo_buf w)[fo_p w := c], fo_p := fo_p w + 1\<rparr> else w\<lparr>fo_ok := False\<rparr>)"

definition put_str :: "bytes \<Rightarrow> fix_out \<Rightarrow> fix_out" where
  "put_str s w =
     (if fo_end w - fo_p w \<ge> length s then w\<lparr>fo_buf := blit (fo_buf w) (fo_p w) s, fo_p := fo_p w + length s\<rparr>
      else w\<lparr>fo_ok := False\<rparr>)"

definition put_uint :: "nat \<Rightarrow> fix_out \<Rightarrow> fix_out" where
  "put_uint v w =
     (case to_chars (fo_end w - fo_p w) v of
        Some ds \<Rightarrow> w\<lparr>fo_buf := blit (fo_buf w) (fo_p w) ds, fo_p := fo_p w + length ds\<rparr>
      | None \<Rightarrow> w\<lparr>fo_ok := False\<rparr>)"

text \<open>The four decimals, most significant first, and the loop that drops trailing zeros.\<close>

definition frac_digits :: "nat \<Rightarrow> bytes" where
  "frac_digits frac = [of_nat (48 + frac div 1000 mod 10), of_nat (48 + frac div 100 mod 10),
     of_nat (48 + frac div 10 mod 10), of_nat (48 + frac mod 10)]"

fun drop_zeros :: "bytes \<Rightarrow> nat \<Rightarrow> nat" where
  "drop_zeros ds 0 = 0"
| "drop_zeros ds (Suc n) = (if ds ! n = chr (CHR ''0'') then drop_zeros ds n else Suc n)"

definition put_price :: "price \<Rightarrow> fix_out \<Rightarrow> fix_out" where
  "put_price v w =
     (let (v, w) = (if v < 0 then (- v, put_ch (chr (CHR ''-'')) w) else (v, w));
          w = put_uint (nat (v div kPriceScale)) w;
          frac = v mod kPriceScale
      in if frac \<noteq> 0
         then let digits = frac_digits (nat frac); n = drop_zeros digits 4;
                  w = put_ch (chr (CHR ''.'')) w
              in put_str (take n digits) w
         else w)"

definition out_field :: "nat \<Rightarrow> bytes \<Rightarrow> fix_out \<Rightarrow> fix_out" where
  "out_field t v w =
     (let w = put_uint t w; w = put_ch (chr (CHR ''='')) w; w = put_str v w in put_ch kSOH w)"

definition out_field_uint :: "nat \<Rightarrow> nat \<Rightarrow> fix_out \<Rightarrow> fix_out" where
  "out_field_uint t v w =
     (let w = put_uint t w; w = put_ch (chr (CHR ''='')) w; w = put_uint v w in put_ch kSOH w)"

definition fix_checksum :: "bytes \<Rightarrow> nat" where
  "fix_checksum bs = unat (fold (\<lambda>b s. s + ucast b) bs (0 :: u32) mod 256)"

definition kHeaderReserve :: nat where
  "kHeaderReserve = 24"

definition kBegin :: bytes where
  "kBegin = str ''8=FIX.4.4'' @ [kSOH] @ str ''9=''"

definition encode_body :: "new_order_single \<Rightarrow> fix_out \<Rightarrow> fix_out" where
  "encode_body m w =
     (let w = out_field 35 (str ''D'') w;
          w = out_field 49 (no_sender_comp_id m) w;
          w = out_field 56 (no_target_comp_id m) w;
          w = out_field_uint 34 (unat (no_msg_seq_num m)) w;
          w = out_field 52 (no_sending_time m) w;
          w = out_field 11 (no_clordid m) w;
          w = out_field 55 (no_symbol m) w;
          w = out_field 54 (if no_side m = Buy then str ''1'' else str ''2'') w;
          w = out_field_uint 38 (unat (no_qty m)) w;
          w = out_field 40 (str ''2'') w;
          w = put_uint 44 w;
          w = put_ch (chr (CHR ''='')) w;
          w = put_price (no_price m) w;
          w = put_ch kSOH w
      in out_field 59 (if no_tif m = IOC then str ''3'' else str ''0'') w)"

definition encode_new_order_single :: "new_order_single \<Rightarrow> bytes \<Rightarrow> nat \<Rightarrow> bytes" where
  "encode_new_order_single m buf cap =
     (if cap \<le> kHeaderReserve + 8 then []
      else let body_start = kHeaderReserve;
               w = encode_body m \<lparr>fo_buf = buf, fo_p = body_start, fo_end = cap, fo_ok = True\<rparr>
      in if \<not> fo_ok w then []
      else case to_chars 8 (fo_p w - body_start) of
        None \<Rightarrow> []
      | Some len_digits \<Rightarrow>
          let nd = length len_digits;
              header_len = length kBegin + nd + 1;
              start = body_start - header_len;
              b = blit (fo_buf w) start kBegin;
              b = blit b (start + length kBegin) len_digits;
              b = b[start + (header_len - 1) := kSOH];
              w = w\<lparr>fo_buf := b\<rparr>;
              cs = fix_checksum (bslice b start (fo_p w - start));
              w = put_str (str ''10='') w;
              w = put_ch (of_nat (48 + cs div 100)) w;
              w = put_ch (of_nat (48 + cs div 10 mod 10)) w;
              w = put_ch (of_nat (48 + cs mod 10)) w;
              w = put_ch kSOH w
          in if \<not> fo_ok w then [] else bslice (fo_buf w) start (fo_p w - start))"

section \<open>Parser\<close>

text \<open>The scan over the decimals: \<open>None\<close> on a character that is not a digit.\<close>

fun frac_loop :: "int \<Rightarrow> bytes \<Rightarrow> int option" where
  "frac_loop frac [] = Some frac"
| "frac_loop frac (c # cs) =
     (if \<not> is_digit c then None else frac_loop (frac * 10 + int (digit_val c)) cs)"

text \<open>What follows the whole part: nothing, or a point and one to four decimals.\<close>

definition price_frac :: "bytes \<Rightarrow> int option" where
  "price_frac rest =
     (if rest = [] then Some 0
      else if hd rest \<noteq> chr (CHR ''.'') then None
      else let f = tl rest; nd = length f
           in if nd = 0 \<or> nd > 4 then None else map_option (\<lambda>v. v * 10 ^ (4 - nd)) (frac_loop 0 f))"

definition parse_price :: "bytes \<Rightarrow> price option" where
  "parse_price s =
     (let neg = (s \<noteq> [] \<and> hd s = chr (CHR ''-'')); b = (if neg then tl s else s)
      in case from_chars (2 ^ 64) b of
           FcOk whole k \<Rightarrow>
             map_option (\<lambda>frac. let v = s64 (s64 (sint (of_nat whole :: u64) * kPriceScale) + frac) in if neg then s64 (- v) else v)
               (price_frac (drop k b))
         | _ \<Rightarrow> None)"

datatype fix_error = FixNone | Malformed | BadBeginString | BadBodyLength | BadChecksum | TooManyFields

definition kMaxFields :: nat where
  "kMaxFields = 64"

record fix_field =
  ff_tag :: int
  ff_value :: bytes

record parse_state =
  ps_body_start :: nat
  ps_checksum_at :: nat
  ps_declared_len :: u64
  ps_have_len :: bool
  ps_have_checksum :: bool
  ps_fields :: "fix_field list"

definition memchr :: "u8 \<Rightarrow> bytes \<Rightarrow> nat option" where
  "memchr c bs = (let k = length (takeWhile (\<lambda>b. b \<noteq> c) bs) in if k < length bs then Some k else None)"

text \<open>\<open>std::from_chars\<close> into an \<open>int\<close>: an optional minus sign and a 32-bit range.\<close>

definition from_chars_int :: "bytes \<Rightarrow> (int \<times> nat) option" where
  "from_chars_int s =
     (if s \<noteq> [] \<and> hd s = chr (CHR ''-'')
      then case from_chars (2 ^ 31 + 1) (tl s) of FcOk v k \<Rightarrow> Some (- int v, k + 1) | _ \<Rightarrow> None
      else case from_chars (2 ^ 31) s of FcOk v k \<Rightarrow> Some (int v, k) | _ \<Rightarrow> None)"

text \<open>One iteration of the loop at offset \<open>pos\<close>: an error, or the state and the next offset.\<close>

definition parse_field :: "bytes \<Rightarrow> nat \<Rightarrow> parse_state \<Rightarrow> fix_error + parse_state \<times> nat" where
  "parse_field buf pos st =
     (case memchr (chr (CHR ''='')) (drop pos buf) of
        None \<Rightarrow> Inl Malformed
      | Some eq \<Rightarrow>
     (case from_chars_int (bslice buf pos eq) of
        None \<Rightarrow> Inl Malformed
      | Some (t, used) \<Rightarrow>
     if used \<noteq> eq \<or> t \<le> 0 then Inl Malformed
     else let vstart = pos + eq + 1
     in case memchr kSOH (drop vstart buf) of
          None \<Rightarrow> Inl Malformed
        | Some soh \<Rightarrow>
     if length (ps_fields st) = kMaxFields then Inl TooManyFields
     else let value = bslice buf vstart soh; n = length (ps_fields st)
     in if n = 0 \<and> t \<noteq> 8 then Inl BadBeginString
     else if n = 1 \<and> t \<noteq> 9 then Inl BadBodyLength
     else (case (if n = 1 then (case from_chars (2 ^ 64) value of
                    FcOk v k \<Rightarrow> if k = length value then Some (of_nat v, True, vstart + soh + 1) else None
                  | _ \<Rightarrow> None)
                 else Some (ps_declared_len st, ps_have_len st, ps_body_start st)) of
             None \<Rightarrow> Inl BadBodyLength
           | Some (declared, have_len, body_start) \<Rightarrow>
               let st = st\<lparr>ps_declared_len := declared, ps_have_len := have_len, ps_body_start := body_start\<rparr>;
                   st = (if t = 10 then st\<lparr>ps_checksum_at := pos, ps_have_checksum := True\<rparr> else st);
                   st = st\<lparr>ps_fields := ps_fields st @ [\<lparr>ff_tag = t, ff_value = value\<rparr>]\<rparr>
               in Inr (st, vstart + soh + 1))))"

lemma parse_field_moves: "parse_field buf pos st = Inr (st', pos') \<Longrightarrow> pos < pos'"
  by (auto simp: parse_field_def Let_def split: option.splits if_splits prod.splits from_chars_result.splits)

function parse_loop :: "bytes \<Rightarrow> nat \<Rightarrow> parse_state \<Rightarrow> fix_error \<times> parse_state" where
  "parse_loop buf pos st =
     (if pos < length buf
      then case parse_field buf pos st of
             Inl e \<Rightarrow> (e, st)
           | Inr (st', pos') \<Rightarrow> if ps_have_checksum st' then (FixNone, st') else parse_loop buf pos' st'
      else (FixNone, st))"
  by pat_completeness auto
termination
  by (relation "measure (\<lambda>(buf, pos, st). length buf - pos)") (auto dest!: sym [of "Inr _"] parse_field_moves)

declare parse_loop.simps [simp del]

text \<open>\<open>Message::parse\<close>: the error and the fields recorded.\<close>

definition fix_parse :: "bytes \<Rightarrow> fix_error \<times> fix_field list" where
  "fix_parse buf =
     (case parse_loop buf 0 \<lparr>ps_body_start = 0, ps_checksum_at = 0, ps_declared_len = 0, ps_have_len = False,
                             ps_have_checksum = False, ps_fields = []\<rparr> of
        (e, st) \<Rightarrow>
          (if e \<noteq> FixNone then e
           else if \<not> ps_have_len st then BadBodyLength
           else if \<not> ps_have_checksum st then BadChecksum
           else if of_nat (ps_checksum_at st) - of_nat (ps_body_start st) \<noteq> ps_declared_len st then BadBodyLength
           else let cs = ff_value (last (ps_fields st))
           in if length cs \<noteq> 3 then BadChecksum
           else case from_chars (2 ^ 32) cs of
                  FcOk v _ \<Rightarrow> if v \<noteq> fix_checksum (take (ps_checksum_at st) buf) then BadChecksum else FixNone
                | _ \<Rightarrow> BadChecksum,
           ps_fields st))"

definition fix_find :: "int \<Rightarrow> fix_field list \<Rightarrow> bytes option" where
  "fix_find t fs = map_option ff_value (find (\<lambda>f. ff_tag f = t) fs)"

definition get_uint :: "int \<Rightarrow> fix_field list \<Rightarrow> u64 option" where
  "get_uint t fs =
     (case fix_find t fs of
        None \<Rightarrow> None
      | Some v \<Rightarrow> (case from_chars (2 ^ 64) v of FcOk x k \<Rightarrow> if k = length v then Some (of_nat x) else None | _ \<Rightarrow> None))"

definition get_price :: "int \<Rightarrow> fix_field list \<Rightarrow> price option" where
  "get_price t fs = (case fix_find t fs of None \<Rightarrow> None | Some v \<Rightarrow> parse_price v)"

fun fix_error_string :: "fix_error \<Rightarrow> string" where
  "fix_error_string FixNone = ''ok''"
| "fix_error_string Malformed = ''malformed''"
| "fix_error_string BadBeginString = ''bad BeginString(8)''"
| "fix_error_string BadBodyLength = ''bad BodyLength(9)''"
| "fix_error_string BadChecksum = ''bad CheckSum(10)''"
| "fix_error_string TooManyFields = ''too many fields''"

record parsed_order =
  po_clordid :: bytes
  po_symbol :: bytes
  po_side :: side
  po_qty :: qty
  po_price :: price
  po_tif :: time_in_force

definition to_order :: "fix_field list \<Rightarrow> parsed_order option" where
  "to_order fs =
     (case (fix_find 35 fs, fix_find 11 fs, fix_find 55 fs, fix_find 54 fs, get_uint 38 fs, get_price 44 fs) of
        (Some type, Some cl, Some sm, Some side, Some q, Some price) \<Rightarrow>
          if type \<noteq> str ''D'' then None
          else if side \<noteq> str ''1'' \<and> side \<noteq> str ''2'' then None
          else Some \<lparr>po_clordid = cl, po_symbol = sm, po_side = (if side = str ''1'' then Buy else Sell),
                 po_qty = ucast q, po_price = price,
                 po_tif = (if fix_find 59 fs = Some (str ''3'') then IOC else Day)\<rparr>
      | _ \<Rightarrow> None)"

section \<open>What the encoder writes\<close>

definition field_bytes :: "nat \<Rightarrow> bytes \<Rightarrow> bytes" where
  "field_bytes t v = dec_digits t @ [chr (CHR ''='')] @ v @ [kSOH]"

definition price_text :: "price \<Rightarrow> bytes" where
  "price_text p =
     (let a = nat \<bar>p\<bar>; frac = a mod nat kPriceScale; ds = frac_digits frac
      in (if p < 0 then [chr (CHR ''-'')] else []) @ dec_digits (a div nat kPriceScale) @
         (if frac = 0 then [] else [chr (CHR ''.'')] @ take (drop_zeros ds 4) ds))"

definition body_fields :: "new_order_single \<Rightarrow> (nat \<times> bytes) list" where
  "body_fields m =
     [(35, str ''D''), (49, no_sender_comp_id m), (56, no_target_comp_id m), (34, dec_digits (unat (no_msg_seq_num m))),
      (52, no_sending_time m), (11, no_clordid m), (55, no_symbol m), (54, if no_side m = Buy then str ''1'' else str ''2''),
      (38, dec_digits (unat (no_qty m))), (40, str ''2''), (44, price_text (no_price m)),
      (59, if no_tif m = IOC then str ''3'' else str ''0'')]"

definition fields_bytes :: "(nat \<times> bytes) list \<Rightarrow> bytes" where
  "fields_bytes fs = concat (map (\<lambda>(t, v). field_bytes t v) fs)"

definition fix_body :: "new_order_single \<Rightarrow> bytes" where
  "fix_body m = fields_bytes (body_fields m)"

definition fix_head :: "new_order_single \<Rightarrow> bytes" where
  "fix_head m = kBegin @ dec_digits (length (fix_body m)) @ [kSOH] @ fix_body m"

definition three_digits :: "nat \<Rightarrow> bytes" where
  "three_digits n = [of_nat (48 + n div 100), of_nat (48 + n div 10 mod 10), of_nat (48 + n mod 10)]"

definition fix_bytes :: "new_order_single \<Rightarrow> bytes" where
  "fix_bytes m = fix_head m @ str ''10='' @ three_digits (fix_checksum (fix_head m)) @ [kSOH]"

text \<open>One or more puts wrote \<open>bs\<close>, or latched the failure because \<open>bs\<close> does not fit.\<close>

definition wrote :: "fix_out \<Rightarrow> bytes \<Rightarrow> fix_out \<Rightarrow> bool" where
  "wrote w bs w' \<longleftrightarrow>
     (fo_p w \<le> fo_end w \<and> fo_end w \<le> length (fo_buf w) \<longrightarrow>
        fo_p w' \<le> fo_end w' \<and> fo_end w' = fo_end w \<and> length (fo_buf w') = length (fo_buf w) \<and>
        (fo_ok w' \<longleftrightarrow> fo_ok w \<and> fo_p w + length bs \<le> fo_end w) \<and>
        (fo_p w + length bs \<le> fo_end w \<and> fo_ok w \<longrightarrow>
           fo_p w' = fo_p w + length bs \<and> fo_buf w' = blit (fo_buf w) (fo_p w) bs))"

lemma wrote_trans [trans]:
  assumes "wrote w as w1" "wrote w1 bs w2"
  shows "wrote w (as @ bs) w2"
proof (cases "fo_p w \<le> fo_end w \<and> fo_end w \<le> length (fo_buf w)")
  case True
  then have A: "fo_p w1 \<le> fo_end w1" "fo_end w1 = fo_end w" "length (fo_buf w1) = length (fo_buf w)"
    "fo_ok w1 \<longleftrightarrow> fo_ok w \<and> fo_p w + length as \<le> fo_end w"
    "fo_p w + length as \<le> fo_end w \<and> fo_ok w \<longrightarrow> fo_p w1 = fo_p w + length as \<and> fo_buf w1 = blit (fo_buf w) (fo_p w) as"
    using assms(1) unfolding wrote_def by blast+
  then have B: "fo_p w2 \<le> fo_end w2" "fo_end w2 = fo_end w" "length (fo_buf w2) = length (fo_buf w)"
    "fo_ok w2 \<longleftrightarrow> fo_ok w1 \<and> fo_p w1 + length bs \<le> fo_end w"
    "fo_p w1 + length bs \<le> fo_end w \<and> fo_ok w1 \<longrightarrow> fo_p w2 = fo_p w1 + length bs \<and> fo_buf w2 = blit (fo_buf w1) (fo_p w1) bs"
    using assms(2) True unfolding wrote_def by auto
  have "blit (blit (fo_buf w) (fo_p w) as) (fo_p w + length as) bs = blit (fo_buf w) (fo_p w) (as @ bs)"
    if "fo_p w + length (as @ bs) \<le> fo_end w"
    using that True by (intro blit_blit_adjacent) simp
  then show ?thesis unfolding wrote_def using A B by auto
qed (auto simp: wrote_def)

lemma wrote_nil: "wrote w [] w"
  by (simp add: wrote_def blit_def)

lemma wrote_str: "wrote w s (put_str s w)"
  by (auto simp: wrote_def put_str_def)

lemma wrote_uint: "wrote w (dec_digits v) (put_uint v w)"
  by (auto simp: wrote_def put_uint_def to_chars_def)

lemma blit_one: "p < length xs \<Longrightarrow> xs[p := c] = blit xs p [c]"
  by (simp add: blit_def upd_conv_take_nth_drop)

lemma wrote_ch: "wrote w [c] (put_ch c w)"
  by (auto simp: wrote_def put_ch_def blit_one)

lemma wrote_cons: "wrote (put_ch c w) bs w' \<Longrightarrow> wrote w (c # bs) w'"
  using wrote_trans [OF wrote_ch, of c w bs w'] by simp

lemmas wrote_intros = wrote_str wrote_uint wrote_cons wrote_nil

lemma wrote_price: "wrote w (price_text p) (put_price p w)"
proof -
  have nn: "wrote w ((if 0 = a mod nat kPriceScale then dec_digits (a div nat kPriceScale) else
      dec_digits (a div nat kPriceScale) @ [chr (CHR ''.'')] @ take (drop_zeros (frac_digits (a mod nat kPriceScale)) 4) (frac_digits (a mod nat kPriceScale))))
      (let w = put_uint (a div nat kPriceScale) w
       in if a mod nat kPriceScale \<noteq> 0 then put_str (take (drop_zeros (frac_digits (a mod nat kPriceScale)) 4) (frac_digits (a mod nat kPriceScale)))
            (put_ch (chr (CHR ''.'')) w) else w)" for a w
    by (auto simp: Let_def intro!: wrote_trans wrote_intros)
  have conv: "nat (\<bar>p\<bar> div kPriceScale) = nat \<bar>p\<bar> div nat kPriceScale" "nat (\<bar>p\<bar> mod kPriceScale) = nat \<bar>p\<bar> mod nat kPriceScale"
    by (simp_all add: kPriceScale_def nat_div_distrib nat_mod_distrib)
  have conv3: "nat (\<bar>p\<bar> mod kPriceScale) \<noteq> 0 \<longleftrightarrow> \<bar>p\<bar> mod kPriceScale \<noteq> 0"
  proof -
    have "nat x \<noteq> 0 \<longleftrightarrow> x \<noteq> 0" if "0 \<le> x" for x :: int using that by auto
    from this [of "\<bar>p\<bar> mod kPriceScale"] show ?thesis by (simp add: kPriceScale_def)
  qed
  have eq: "put_price p w = (let w = (if p < 0 then put_ch (chr (CHR ''-'')) w else w);
      w = put_uint (nat \<bar>p\<bar> div nat kPriceScale) w
       in if nat \<bar>p\<bar> mod nat kPriceScale \<noteq> 0 then put_str (take (drop_zeros (frac_digits (nat \<bar>p\<bar> mod nat kPriceScale)) 4) (frac_digits (nat \<bar>p\<bar> mod nat kPriceScale)))
            (put_ch (chr (CHR ''.'')) w) else w)"
    unfolding put_price_def Let_def conv [symmetric] conv3 by (auto simp: abs_if)
  show ?thesis
    unfolding eq using nn [of "put_ch (chr (CHR ''-'')) w" "nat \<bar>p\<bar>"] nn [of w "nat \<bar>p\<bar>"] wrote_ch [of w "chr (CHR ''-'')"]
    by (auto simp: price_text_def Let_def dest: wrote_trans)
qed

lemma put_uint_str: "put_uint v w = put_str (dec_digits v) w"
  by (auto simp: put_uint_def put_str_def to_chars_def)

lemma out_field_uint_str: "out_field_uint t n = out_field t (dec_digits n)"
  by (simp add: fun_eq_iff out_field_uint_def out_field_def put_uint_str)

lemma wrote_field: "wrote w (field_bytes t v) (out_field t v w)"
  by (auto simp: field_bytes_def out_field_def Let_def intro!: wrote_trans wrote_intros)

lemma wrote_price_field:
  "wrote w (field_bytes 44 (price_text p)) (put_ch kSOH (put_price p (put_ch (chr (CHR ''='')) (put_uint 44 w))))"
  by (auto simp: field_bytes_def intro!: wrote_trans wrote_intros wrote_price)

lemma wrote_body: "wrote w (fix_body m) (encode_body m w)"
  unfolding fix_body_def fields_bytes_def body_fields_def encode_body_def Let_def list.map concat.simps prod.case append_Nil2
    out_field_uint_str
  by (intro wrote_trans) (rule wrote_field wrote_price_field)+

text \<open>The encoder is exact: it yields the message when it fits, and the empty view otherwise.\<close>

lemma length_kBegin [simp]: "length kBegin = 12"
  by (simp add: kBegin_def)

lemma digits_val_less: "\<forall>b\<in>set ds. is_digit b \<Longrightarrow> digits_val v ds < (v + 1) * 10 ^ length ds"
proof (induction ds arbitrary: v)
  case (Cons b ds)
  have "digit_val b < 10" using Cons.prems by (auto simp: is_digit_def digit_val_def word_le_nat_alt)
  then have "(10 * v + digit_val b + 1) * 10 ^ length ds \<le> (10 * v + 10) * 10 ^ length ds"
    by (intro mult_right_mono) simp_all
  moreover have "digits_val (10 * v + digit_val b) ds < (10 * v + digit_val b + 1) * 10 ^ length ds"
    using Cons.IH [of "10 * v + digit_val b"] Cons.prems by simp
  moreover have "(10 * v + 10) * 10 ^ length ds = (v + 1) * 10 ^ length (b # ds)" by (simp add: algebra_simps)
  ultimately show ?case by simp
qed simp

lemma to_chars_fits: "0 < k \<Longrightarrow> to_chars k n = (if n < 10 ^ k then Some (dec_digits n) else None)"
proof -
  assume k: "0 < k"
  have "n < 10 ^ k" if "length (dec_digits n) \<le> k"
  proof -
    have "n < 10 ^ length (dec_digits n)"
      using digits_val_less [OF dec_digits_all_digits [of n], of 0] by (simp add: digits_val_dec_digits)
    also have "\<dots> \<le> 10 ^ k" using that by simp
    finally show ?thesis .
  qed
  then show ?thesis using length_dec_digits [of n k] k by (auto simp: to_chars_def)
qed

text \<open>Writing the header right-to-left in front of the body.\<close>

lemma header_in_front:
  assumes "length hdr \<le> 24" "24 + length body \<le> length buf"
  shows "blit (blit buf 24 body) (24 - length hdr) hdr =
    take (24 - length hdr) buf @ hdr @ body @ drop (24 + length body) buf"
  using assms by (simp add: blit_def min_def)

definition put_trailer :: "nat \<Rightarrow> fix_out \<Rightarrow> fix_out" where
  "put_trailer cs w = put_ch kSOH (put_ch (of_nat (48 + cs mod 10)) (put_ch (of_nat (48 + cs div 10 mod 10))
     (put_ch (of_nat (48 + cs div 100)) (put_str (str ''10='') w))))"

lemma trailer_written:
  assumes b: "fo_buf v = pre @ head @ post" and v: "fo_p v = length pre + length head" "fo_end v = length (fo_buf v)" "fo_ok v"
  shows "(if \<not> fo_ok (put_trailer cs v) then []
      else bslice (fo_buf (put_trailer cs v)) (length pre) (fo_p (put_trailer cs v) - length pre)) =
    (if length pre + length head + 7 \<le> length (fo_buf v) then head @ str ''10='' @ three_digits cs @ [kSOH] else [])"
proof -
  let ?T = "str ''10='' @ three_digits cs @ [kSOH]" and ?z = "put_trailer cs v"
  have "wrote v ?T ?z"
    unfolding three_digits_def put_trailer_def by (auto simp del: of_nat_add intro!: wrote_trans wrote_intros)
  moreover have "fo_p v \<le> fo_end v \<and> fo_end v \<le> length (fo_buf v)" using assms by simp
  ultimately have Z: "fo_ok ?z \<longleftrightarrow> fo_p v + length ?T \<le> fo_end v"
    "fo_p v + length ?T \<le> fo_end v \<longrightarrow> fo_p ?z = fo_p v + length ?T \<and> fo_buf ?z = blit (fo_buf v) (fo_p v) ?T"
    using v(3) unfolding wrote_def by blast+
  have lT: "length ?T = 7" by (simp add: three_digits_def)
  have "bslice (blit (pre @ head @ post) (length pre + length head) ?T) (length pre) (length head + 7) = head @ ?T"
    using lT by (simp add: bslice_def blit_def)
  then show ?thesis using Z unfolding v(1,2) b lT by auto
qed

lemma encode_exact:
  assumes len: "length buf = cap"
  shows "encode_new_order_single m buf cap =
    (if kHeaderReserve + length (fix_body m) + 7 \<le> cap \<and> length (fix_body m) < 10 ^ 8 then fix_bytes m else [])"
proof -
  let ?B = "fix_body m" and ?s0 = "\<lparr>fo_buf = buf, fo_p = 24, fo_end = cap, fo_ok = True\<rparr>"
  let ?w = "encode_body m ?s0" and ?ds = "dec_digits (length (fix_body m))"
  have body_ge: "1 < length ?B"
    by (simp add: fix_body_def fields_bytes_def body_fields_def field_bytes_def)
  show ?thesis
  proof (cases "32 < cap \<and> 24 + length ?B \<le> cap \<and> length ?B < 10 ^ 8")
    case False
    have "32 < cap \<Longrightarrow> fo_ok ?w \<longleftrightarrow> 24 + length ?B \<le> cap"
      "32 < cap \<Longrightarrow> 24 + length ?B \<le> cap \<Longrightarrow> fo_p ?w = 24 + length ?B"
      using wrote_body [of ?s0 m] len by (auto simp: wrote_def)
    with False body_ge show ?thesis
      by (auto simp: encode_new_order_single_def kHeaderReserve_def Let_def to_chars_fits)
  next
    case True
    have W: "fo_end ?w = cap" "fo_ok ?w" "fo_p ?w = 24 + length ?B" "fo_buf ?w = blit buf 24 ?B"
      using wrote_body [of ?s0 m] len True by (auto simp: wrote_def)
    have nd: "length ?ds \<le> 8" using length_dec_digits [of "length ?B" 8] True by simp
    let ?H = "kBegin @ ?ds @ [kSOH]" and ?start = "24 - (12 + length ?ds + 1)"
    let ?b = "(blit (blit (fo_buf ?w) ?start kBegin) (?start + 12) ?ds)[?start + (12 + length ?ds) := kSOH]"
    have "?b = blit (blit (blit (fo_buf ?w) ?start kBegin) (?start + 12) ?ds) (?start + 12 + length ?ds) [kSOH]"
    proof -
      have l0: "length (fo_buf ?w) = cap" using len True by (simp add: W(4))
      then have l1: "length (blit (fo_buf ?w) ?start kBegin) = cap" using True by (subst length_blit) auto
      then have "length (blit (blit (fo_buf ?w) ?start kBegin) (?start + 12) ?ds) = cap"
        using True nd by (subst length_blit) auto
      then show ?thesis using True nd by (subst blit_one) (simp_all add: add.assoc)
    qed
    also have "\<dots> = blit (fo_buf ?w) ?start ?H"
      using blit_blit_adjacent [of ?start kBegin ?ds "fo_buf ?w"]
        blit_blit_adjacent [of ?start "kBegin @ ?ds" "[kSOH]" "fo_buf ?w"] len True nd by (simp add: W(4) add.assoc)
    also have "\<dots> = take ?start buf @ ?H @ ?B @ drop (24 + length ?B) buf"
      using header_in_front [of ?H ?B buf] nd len True by (simp add: W(4))
    finally have b: "?b = take ?start buf @ fix_head m @ drop (24 + length ?B) buf" by (simp add: fix_head_def)
    have lh: "length (fix_head m) = 13 + length ?ds + length ?B" by (simp add: fix_head_def)
    have start: "length (take ?start buf) = ?start" "?start + length (fix_head m) = 24 + length ?B"
      using nd len True lh by auto
    have cs: "bslice ?b ?start (24 + length ?B - ?start) = fix_head m"
      unfolding b using start lh by (simp add: bslice_def)
    define v where "v = ?w\<lparr>fo_buf := ?b\<rparr>"
    define pre where "pre = take ?start buf"
    have lp: "length pre = ?start" using start(1) by (simp add: pre_def)
    have V: "fo_buf v = pre @ fix_head m @ drop (24 + length ?B) buf" "fo_p v = length pre + length (fix_head m)"
      "fo_end v = cap" "fo_ok v" "length pre + length (fix_head m) = 24 + length ?B" "cap = length (fo_buf v)"
    proof -
      show fb: "fo_buf v = pre @ fix_head m @ drop (24 + length ?B) buf" using b by (simp add: v_def pre_def)
      show pl: "length pre + length (fix_head m) = 24 + length ?B" using start(2) lp by simp
      show "fo_p v = length pre + length (fix_head m)" using W(3) pl by (simp add: v_def)
      show "fo_end v = cap" "fo_ok v" using W(1,2) by (simp_all add: v_def)
      show "cap = length (fo_buf v)" using pl len True unfolding fb by simp
    qed
    note tr = trailer_written [OF V(1,2) _ V(4), of "fix_checksum (fix_head m)"]
    have "encode_new_order_single m buf cap = (if \<not> fo_ok (put_trailer (fix_checksum (fix_head m)) v) then []
        else bslice (fo_buf (put_trailer (fix_checksum (fix_head m)) v)) (length pre)
          (fo_p (put_trailer (fix_checksum (fix_head m)) v) - length pre))"
      using True W(2,3) cs unfolding encode_new_order_single_def Let_def kHeaderReserve_def put_trailer_def v_def lp
      by (simp add: to_chars_fits)
    also have "\<dots> = (if 24 + length ?B + 7 \<le> cap then fix_bytes m else [])"
      using tr V(3,5,6) by (simp add: fix_bytes_def)
    finally show ?thesis using True by (simp add: kHeaderReserve_def)
  qed
qed

section \<open>Decimal prices round-trip\<close>

lemma digit_char: "d < 10 \<Longrightarrow> is_digit (of_nat (48 + d)) \<and> digit_val (of_nat (48 + d)) = d \<and> (of_nat (48 + d) = (chr (CHR ''0'')) \<longleftrightarrow> d = 0)"
proof -
  assume d: "d < 10"
  then have u: "unat (of_nat (48 + d) :: u8) = 48 + d" by (intro unat_of_nat_id) simp
  have "of_nat (48 + d) = chr (CHR ''0'') \<longleftrightarrow> unat (of_nat (48 + d) :: u8) = 48"
    by (simp add: word_unat_eq_iff del: of_nat_add)
  then show ?thesis using digit_of_nat [OF d] u by simp
qed

lemma frac_digits_value:
  assumes "0 < frac" "frac < 10000"
  defines "ds \<equiv> frac_digits frac" and "n \<equiv> drop_zeros (frac_digits frac) 4"
  shows "0 < n \<and> n \<le> 4 \<and> (\<exists>v. frac_loop 0 (take n ds) = Some v \<and> v * 10 ^ (4 - n) = int frac)"
proof -
  define a b c d where "a = frac div 1000 mod 10" and "b = frac div 100 mod 10" and "c = frac div 10 mod 10" and "d = frac mod 10"
  have lt: "a < 10" "b < 10" "c < 10" "d < 10" by (simp_all add: a_def b_def c_def d_def)
  have sum: "frac = 1000 * a + 100 * b + 10 * c + d"
  proof -
    have "frac = 10 * (frac div 10) + d" by (simp add: d_def)
    moreover have "frac div 10 = 10 * (frac div 100) + c" unfolding c_def using div_mult2_eq [of frac 10 10] by simp
    moreover have "frac div 100 = 10 * (frac div 1000) + b" unfolding b_def using div_mult2_eq [of frac 100 10] by simp
    moreover have "frac div 1000 = a" using assms(2) by (simp add: a_def)
    ultimately show ?thesis by linarith
  qed
  note D = digit_char [OF lt(1)] digit_char [OF lt(2)] digit_char [OF lt(3)] digit_char [OF lt(4)]
  have ds: "ds = [of_nat (48 + a), of_nat (48 + b), of_nat (48 + c), of_nat (48 + d)]"
    by (simp add: ds_def frac_digits_def a_def b_def c_def d_def)
  consider "d \<noteq> 0" | "d = 0" "c \<noteq> 0" | "d = 0" "c = 0" "b \<noteq> 0" | "d = 0" "c = 0" "b = 0" "a \<noteq> 0"
    using assms(1) sum by auto
  then show ?thesis
    unfolding n_def ds_def [symmetric] ds
    by cases (use D in \<open>simp_all add: numeral_eq_Suc sum del: of_nat_add\<close>)
qed

lemma parse_price_text:
  assumes "\<bar>p\<bar> < 2 ^ 63"
  shows "parse_price (price_text p) = Some p"
proof -
  let ?neg = "if p < 0 then [chr (CHR ''-'')] else []"
  define whole frac where "whole = nat \<bar>p\<bar> div 10000" and "frac = nat \<bar>p\<bar> mod 10000"
  define n where "n = drop_zeros (frac_digits frac) 4"
  define rest where "rest = (if frac = 0 then [] else [chr (CHR ''.'')] @ take n (frac_digits frac))"
  have tx: "price_text p = ?neg @ dec_digits whole @ rest"
    by (simp add: price_text_def Let_def whole_def frac_def rest_def n_def kPriceScale_def)
  obtain d0 ds0 where d0: "dec_digits whole = d0 # ds0" by (cases "dec_digits whole") auto
  have "is_digit d0" using dec_digits_all_digits [of whole] d0 by simp
  then have nm: "d0 \<noteq> chr (CHR ''-'')" by (auto simp: is_digit_def)
  have small: "whole < 2 ^ 63" using assms by (simp add: whole_def)
  have fc: "from_chars (2 ^ 64) (dec_digits whole @ rest) = FcOk whole (length (dec_digits whole))"
    using small by (intro from_chars_dec_digits) (auto simp: rest_def is_digit_def)
  have sw: "sint (of_nat whole :: u64) = int whole"
    using small unat_of_nat_id [of whole, where 'a = 64] by (subst sint_small) simp_all
  have fr: "price_frac rest = Some (int frac)"
  proof (cases "frac = 0")
    case False
    have "frac < 10000" by (simp add: frac_def)
    with False frac_digits_value [of frac] obtain v where v: "0 < n" "n \<le> 4"
      "frac_loop 0 (take n (frac_digits frac)) = Some v" "v * 10 ^ (4 - n) = int frac" by (auto simp: n_def)
    have "length (take n (frac_digits frac)) = n" using v(2) by (simp add: frac_digits_def)
    moreover have "frac_digits frac \<noteq> []" by (simp add: frac_digits_def)
    ultimately show ?thesis using v False by (simp add: rest_def Let_def price_frac_def)
  qed (simp add: rest_def price_frac_def)
  have val: "int whole * 10000 + int frac = \<bar>p\<bar>"
    unfolding whole_def frac_def by (simp add: zdiv_int zmod_int)
  have "0 \<le> int whole * 10000" "int whole * 10000 \<le> \<bar>p\<bar>" using val by simp_all
  then have R: "s64 (int whole * 10000) = int whole * 10000" "s64 \<bar>p\<bar> = \<bar>p\<bar>" "s64 (- \<bar>p\<bar>) = - \<bar>p\<bar>"
    using assms by (simp_all add: int64_range_def)
  have hd1: "\<not> (price_text p \<noteq> [] \<and> hd (price_text p) = chr (CHR ''-''))" if "\<not> p < 0"
    using that nm d0 by (simp add: tx)
  show ?thesis
  proof (cases "p < 0")
    case True
    then show ?thesis using fc fr sw val R unfolding parse_price_def Let_def tx by (simp add: kPriceScale_def)
  next
    case False
    then show ?thesis using fc fr sw val nm d0 R unfolding parse_price_def Let_def tx by (simp add: kPriceScale_def)
  qed
qed

section \<open>Parsing what was encoded\<close>

lemma memchr_first: "c \<notin> set xs \<Longrightarrow> memchr c (xs @ c # ys) = Some (length xs)"
proof -
  assume "c \<notin> set xs"
  then have "takeWhile (\<lambda>b. b \<noteq> c) (xs @ c # ys) = xs" by (induction xs) auto
  then show ?thesis by (simp add: memchr_def)
qed

lemma not_digit_soh: "\<not> is_digit kSOH"
  by (simp add: is_digit_def kSOH_def word_le_nat_alt)

lemma from_chars_int_digits: "t < 2 ^ 31 \<Longrightarrow> from_chars_int (dec_digits t) = Some (int t, length (dec_digits t))"
proof -
  assume t: "t < 2 ^ 31"
  obtain d ds where d: "dec_digits t = d # ds" by (cases "dec_digits t") auto
  have "is_digit d" using dec_digits_all_digits [of t] d by simp
  then have "hd (dec_digits t) \<noteq> chr (CHR ''-'')" using d by (auto simp: is_digit_def)
  then show ?thesis using t from_chars_dec_digits_nil [of t "2 ^ 31"] by (simp add: from_chars_int_def)
qed

definition mk_field :: "nat \<times> bytes \<Rightarrow> fix_field" where
  "mk_field = (\<lambda>(t, v). \<lparr>ff_tag = int t, ff_value = v\<rparr>)"

lemma length_field_bytes: "length (field_bytes t v) = length (dec_digits t) + length v + 2"
  by (simp add: field_bytes_def)

text \<open>One iteration on a well-formed field that is not the second.\<close>

lemma parse_field_at:
  assumes buf: "buf = pre @ field_bytes t v @ post" and t: "0 < t" "t < 2 ^ 31" and v: "kSOH \<notin> set v"
    and n: "length (ps_fields st) < kMaxFields" "length (ps_fields st) = 0 \<longrightarrow> t = 8" "length (ps_fields st) \<noteq> 1"
  shows "parse_field buf (length pre) st =
    Inr ((if t = 10 then st\<lparr>ps_checksum_at := length pre, ps_have_checksum := True\<rparr> else st)
           \<lparr>ps_fields := ps_fields st @ [mk_field (t, v)]\<rparr>, length pre + length (field_bytes t v))"
proof -
  have nd: "chr (CHR ''='') \<notin> set (dec_digits t)" using dec_digits_all_digits [of t] by (auto simp: is_digit_def)
  have m1: "memchr (chr (CHR ''='')) (drop (length pre) buf) = Some (length (dec_digits t))"
    using memchr_first [OF nd, of "v @ [kSOH] @ post"] by (simp add: buf field_bytes_def)
  have b1: "bslice buf (length pre) (length (dec_digits t)) = dec_digits t"
    by (simp add: buf field_bytes_def bslice_def)
  have m2: "memchr kSOH (drop (length pre + length (dec_digits t) + 1) buf) = Some (length v)"
    using memchr_first [OF v, of post] by (simp add: buf field_bytes_def)
  have b2: "bslice buf (length pre + length (dec_digits t) + 1) (length v) = v"
    by (simp add: buf field_bytes_def bslice_def)
  show ?thesis
    unfolding parse_field_def m1 option.case b1 from_chars_int_digits [OF t(2)] prod.case Let_def m2 b2
    using t(1) n by (auto simp: mk_field_def length_field_bytes)
qed

lemma parse_length_field_at:
  assumes buf: "buf = pre @ field_bytes 9 (dec_digits L) @ post" and L: "L < 2 ^ 64" and n: "length (ps_fields st) = 1"
  shows "parse_field buf (length pre) st =
    Inr (st\<lparr>ps_declared_len := of_nat L, ps_have_len := True,
            ps_body_start := length pre + length (field_bytes 9 (dec_digits L)),
            ps_fields := ps_fields st @ [mk_field (9, dec_digits L)]\<rparr>, length pre + length (field_bytes 9 (dec_digits L)))"
proof -
  have d9: "dec_digits 9 = [57]" by (subst dec_digits.simps) simp
  have v: "kSOH \<notin> set (dec_digits L)" using dec_digits_all_digits [of L] not_digit_soh by blast
  have m1: "memchr (chr (CHR ''='')) (drop (length pre) buf) = Some 1"
    using memchr_first [of "chr (CHR ''='')" "[57]" "dec_digits L @ [kSOH] @ post"] by (simp add: buf field_bytes_def d9)
  have b1: "bslice buf (length pre) 1 = dec_digits 9" by (simp add: buf field_bytes_def bslice_def d9)
  have m2: "memchr kSOH (drop (length pre + 1 + 1) buf) = Some (length (dec_digits L))"
    using memchr_first [OF v, of post] by (simp add: buf field_bytes_def d9)
  have b2: "bslice buf (length pre + 1 + 1) (length (dec_digits L)) = dec_digits L"
    by (simp add: buf field_bytes_def bslice_def d9)
  have i: "from_chars_int (dec_digits 9) = Some (9, 1)" using from_chars_int_digits [of 9] by (simp add: d9)
  show ?thesis
    unfolding parse_field_def m1 option.case b1 i prod.case Let_def m2 b2
    using n from_chars_dec_digits_nil [OF L] by (simp add: mk_field_def field_bytes_def d9 kMaxFields_def)
qed

text \<open>The loop over a run of fields before the checksum.\<close>

definition plain_field :: "nat \<times> bytes \<Rightarrow> bool" where
  "plain_field = (\<lambda>(t, v). 0 < t \<and> t < 2 ^ 31 \<and> t \<noteq> 10 \<and> kSOH \<notin> set v)"

lemma parse_loop_fields:
  assumes "buf = pre @ fields_bytes fs @ post" "\<forall>f\<in>set fs. plain_field f" "2 \<le> length (ps_fields st)"
    "length (ps_fields st) + length fs \<le> kMaxFields" "\<not> ps_have_checksum st"
  shows "parse_loop buf (length pre) st =
    parse_loop buf (length pre + length (fields_bytes fs)) (st\<lparr>ps_fields := ps_fields st @ map mk_field fs\<rparr>)"
  using assms
proof (induction fs arbitrary: pre st)
  case Nil
  then show ?case by (simp add: fields_bytes_def)
next
  case (Cons f fs)
  obtain t v where f: "f = (t, v)" by (cases f)
  have cat: "fields_bytes (f # fs) = field_bytes t v @ fields_bytes fs" by (simp add: fields_bytes_def f)
  let ?st = "st\<lparr>ps_fields := ps_fields st @ [mk_field f]\<rparr>"
  have buf1: "buf = pre @ field_bytes t v @ (fields_bytes fs @ post)" using Cons.prems(1) by (simp add: cat)
  have len: "length pre < length buf" unfolding buf1 by (simp add: length_field_bytes)
  have "parse_field buf (length pre) st = Inr (?st, length pre + length (field_bytes t v))"
  proof -
    have "0 < t" "t < 2 ^ 31" "kSOH \<notin> set v" "t \<noteq> 10" using Cons.prems(2) f by (auto simp: plain_field_def)
    moreover have "length (ps_fields st) < kMaxFields" "length (ps_fields st) = 0 \<longrightarrow> t = 8" "length (ps_fields st) \<noteq> 1"
      using Cons.prems(3,4) by auto
    ultimately show ?thesis using parse_field_at [OF buf1, of st] f by simp
  qed
  then have "parse_loop buf (length pre) st = parse_loop buf (length (pre @ field_bytes t v)) ?st"
    using len Cons.prems(5) by (subst parse_loop.simps) simp
  also have "\<dots> = parse_loop buf (length (pre @ field_bytes t v) + length (fields_bytes fs))
      (?st\<lparr>ps_fields := ps_fields ?st @ map mk_field fs\<rparr>)"
    using Cons.prems buf1 by (intro Cons.IH) auto
  finally show ?case by (simp add: cat add.assoc)
qed

text \<open>A whole message: version, length, plain fields, checksum.\<close>

definition framed :: "bytes \<Rightarrow> (nat \<times> bytes) list \<Rightarrow> bytes" where
  "framed ver fs = field_bytes 8 ver @ field_bytes 9 (dec_digits (length (fields_bytes fs))) @ fields_bytes fs"

lemma fix_checksum_less: "fix_checksum bs < 256"
proof -
  have "fold (\<lambda>b s. s + ucast b) bs (0 :: u32) mod 256 < 256" by (rule word_mod_less_divisor) simp
  then show ?thesis by (simp add: fix_checksum_def word_less_nat_alt)
qed

lemma from_chars_three: "n < 1000 \<Longrightarrow> from_chars (2 ^ 32) (three_digits n) = FcOk n 3"
proof -
  assume n: "n < 1000"
  have "n div 100 < 10" "n div 10 mod 10 < 10" "n mod 10 < 10" using n by auto
  note D = digit_char [OF this(1)] digit_char [OF this(2)] digit_char [OF this(3)]
  have "n div 100 = n div 10 div 10" using div_mult2_eq [of n 10 10] by simp
  then have "100 * (n div 100) + 10 * (n div 10 mod 10) + n mod 10 = n"
    using div_mult_mod_eq [of "n div 10" 10] div_mult_mod_eq [of n 10] by linarith
  then show ?thesis using D n
    by (simp add: from_chars_def three_digits_def Let_def algebra_simps del: of_nat_add)
qed

lemma three_no_soh: "n < 1000 \<Longrightarrow> kSOH \<notin> set (three_digits n)"
proof -
  assume n: "n < 1000"
  have "n div 100 < 10" "n div 10 mod 10 < 10" "n mod 10 < 10" using n by auto
  then have "\<forall>b\<in>set (three_digits n). is_digit b"
    using digit_char [of "n div 100"] digit_char [of "n div 10 mod 10"] digit_char [of "n mod 10"]
    by (simp add: three_digits_def del: of_nat_add)
  then show ?thesis using not_digit_soh by blast
qed

lemma parse_framed:
  assumes fs: "\<forall>f\<in>set fs. plain_field f" "length fs \<le> 60" and ver: "kSOH \<notin> set ver" and small: "length (fields_bytes fs) < 2 ^ 64"
  shows "fix_parse (framed ver fs @ field_bytes 10 (three_digits (fix_checksum (framed ver fs)))) =
    (FixNone, [mk_field (8, ver), mk_field (9, dec_digits (length (fields_bytes fs)))] @ map mk_field fs @
       [mk_field (10, three_digits (fix_checksum (framed ver fs)))])"
proof -
  let ?L = "length (fields_bytes fs)" and ?cs = "three_digits (fix_checksum (framed ver fs))"
  let ?f8 = "field_bytes 8 ver" and ?f9 = "field_bytes 9 (dec_digits ?L)" and ?f10 = "field_bytes 10 ?cs"
  define buf where "buf = framed ver fs @ ?f10"
  define s0 where "s0 = \<lparr>ps_body_start = 0, ps_checksum_at = 0, ps_declared_len = 0, ps_have_len = False,
     ps_have_checksum = False, ps_fields = []\<rparr>"
  define s1 where "s1 = s0\<lparr>ps_fields := [mk_field (8, ver)]\<rparr>"
  define s2 where "s2 = s1\<lparr>ps_declared_len := of_nat ?L, ps_have_len := True,
     ps_body_start := length ?f8 + length ?f9, ps_fields := [mk_field (8, ver), mk_field (9, dec_digits ?L)]\<rparr>"
  define s3 where "s3 = s2\<lparr>ps_fields := ps_fields s2 @ map mk_field fs\<rparr>"
  define s4 where "s4 = s3\<lparr>ps_checksum_at := length (framed ver fs), ps_have_checksum := True,
     ps_fields := ps_fields s3 @ [mk_field (10, ?cs)]\<rparr>"
  have B: "buf = [] @ ?f8 @ (?f9 @ fields_bytes fs @ ?f10)" "buf = ?f8 @ ?f9 @ (fields_bytes fs @ ?f10)"
    "buf = (?f8 @ ?f9) @ fields_bytes fs @ ?f10" "buf = framed ver fs @ ?f10 @ []"
    by (simp_all add: buf_def framed_def)
  have len: "0 < length buf" "length ?f8 < length buf" "length (framed ver fs) < length buf"
    by (simp_all add: buf_def framed_def length_field_bytes)
  have p0: "parse_field buf 0 s0 = Inr (s1, length ?f8)"
    using parse_field_at [OF B(1), of s0] ver by (simp add: s0_def s1_def kMaxFields_def)
  have p1: "parse_field buf (length ?f8) s1 = Inr (s2, length ?f8 + length ?f9)"
    using parse_length_field_at [OF B(2) small, of s1] by (simp add: s0_def s1_def s2_def)
  have p3: "parse_field buf (length (framed ver fs)) s3 = Inr (s4, length buf)"
    using parse_field_at [OF B(4), of s3] three_no_soh [of "fix_checksum (framed ver fs)"] fs(2)
      fix_checksum_less [of "framed ver fs"]
    by (simp add: s0_def s1_def s2_def s3_def s4_def kMaxFields_def buf_def)
  have "parse_loop buf 0 s0 = parse_loop buf (length ?f8) s1"
    using p0 len(1) by (subst parse_loop.simps) (simp add: s0_def s1_def)
  also have "\<dots> = parse_loop buf (length (?f8 @ ?f9)) s2"
    using p1 len(2) by (subst parse_loop.simps) (simp add: s0_def s1_def s2_def)
  also have "\<dots> = parse_loop buf (length (framed ver fs)) s3"
    using parse_loop_fields [OF B(3) fs(1), of s2] fs(2)
    by (simp add: s0_def s1_def s2_def s3_def kMaxFields_def framed_def add.assoc)
  also have "\<dots> = (FixNone, s4)"
    using p3 len(3) by (subst parse_loop.simps) (simp add: s4_def)
  finally have loop: "parse_loop buf 0 s0 = (FixNone, s4)" .
  have lc: "length (framed ver fs) = length ?f8 + length ?f9 + ?L" by (simp add: framed_def)
  have dl: "(of_nat (length (framed ver fs)) - of_nat (length ?f8 + length ?f9) :: u64) = of_nat ?L" by (simp add: lc)
  have tk: "take (length (framed ver fs)) buf = framed ver fs" by (simp add: buf_def)
  have c3: "length ?cs = 3" by (simp add: three_digits_def)
  have fc: "from_chars (2 ^ 32) ?cs = FcOk (fix_checksum (framed ver fs)) 3"
    using from_chars_three [of "fix_checksum (framed ver fs)"] fix_checksum_less [of "framed ver fs"] by simp
  have S4: "ps_have_len s4" "ps_have_checksum s4" "ps_checksum_at s4 = length (framed ver fs)"
    "ps_body_start s4 = length ?f8 + length ?f9" "ps_declared_len s4 = of_nat ?L" "ff_value (last (ps_fields s4)) = ?cs"
    "ps_fields s4 = [mk_field (8, ver), mk_field (9, dec_digits ?L)] @ map mk_field fs @ [mk_field (10, ?cs)]"
    by (simp_all add: s0_def s1_def s2_def s3_def s4_def mk_field_def)
  show ?thesis
    unfolding fix_parse_def buf_def [symmetric] s0_def [symmetric] loop prod.case S4(3-6) Let_def tk dl c3 fc
    using S4(1,2,7) by simp
qed

text \<open>An encodable order: text fields without the separator.\<close>

definition order_text_ok :: "new_order_single \<Rightarrow> bool" where
  "order_text_ok m \<longleftrightarrow> (\<forall>s\<in>{no_sender_comp_id m, no_target_comp_id m, no_sending_time m, no_clordid m, no_symbol m}.
     kSOH \<notin> set s) \<and> \<bar>no_price m\<bar> < 2 ^ 63"

lemma price_text_no_soh: "kSOH \<notin> set (price_text p)"
proof -
  let ?f = "nat \<bar>p\<bar> mod nat kPriceScale"
  have "\<forall>b\<in>set (frac_digits ?f). is_digit b"
    using digit_char [of "?f div 1000 mod 10"] digit_char [of "?f div 100 mod 10"] digit_char [of "?f div 10 mod 10"]
      digit_char [of "?f mod 10"] by (simp add: frac_digits_def del: of_nat_add)
  then have "kSOH \<notin> set (frac_digits ?f)" using not_digit_soh by blast
  then have "kSOH \<notin> set (take n (frac_digits ?f))" for n by (meson in_set_takeD)
  moreover have "kSOH \<notin> set (dec_digits n)" for n using dec_digits_all_digits [of n] not_digit_soh by blast
  ultimately show ?thesis by (auto simp: price_text_def Let_def kSOH_def)
qed

lemma body_plain: "order_text_ok m \<Longrightarrow> \<forall>f\<in>set (body_fields m). plain_field f"
proof -
  assume m: "order_text_ok m"
  have "kSOH \<notin> set (dec_digits n)" for n using dec_digits_all_digits [of n] not_digit_soh by blast
  then show ?thesis using m price_text_no_soh [of "no_price m"]
    by (simp add: body_fields_def plain_field_def order_text_ok_def) (simp add: str_def kSOH_def)
qed

lemma fix_bytes_framed:
  "fix_head m = framed (str ''FIX.4.4'') (body_fields m)"
  "fix_bytes m = framed (str ''FIX.4.4'') (body_fields m) @
     field_bytes 10 (three_digits (fix_checksum (framed (str ''FIX.4.4'') (body_fields m))))"
proof -
  have d: "dec_digits 8 = [56]" "dec_digits 9 = [57]" "dec_digits 10 = [49, 48]"
    by (simp_all add: dec_digits.simps)
  show h: "fix_head m = framed (str ''FIX.4.4'') (body_fields m)"
    by (simp add: fix_head_def framed_def field_bytes_def d kBegin_def str_def fix_body_def)
  show "fix_bytes m = framed (str ''FIX.4.4'') (body_fields m) @
     field_bytes 10 (three_digits (fix_checksum (framed (str ''FIX.4.4'') (body_fields m))))"
    unfolding fix_bytes_def h by (simp add: field_bytes_def d str_def)
qed

lemma order_of_body:
  assumes "order_text_ok m"
  shows "to_order ([mk_field (8, ver), mk_field (9, ln)] @ map mk_field (body_fields m) @ [mk_field (10, cs)]) =
    Some \<lparr>po_clordid = no_clordid m, po_symbol = no_symbol m, po_side = no_side m, po_qty = no_qty m,
          po_price = no_price m, po_tif = no_tif m\<rparr>"
proof -
  let ?fs = "[mk_field (8, ver), mk_field (9, ln)] @ map mk_field (body_fields m) @ [mk_field (10, cs)]"
  have F: "fix_find 35 ?fs = Some (str ''D'')" "fix_find 11 ?fs = Some (no_clordid m)" "fix_find 55 ?fs = Some (no_symbol m)"
    "fix_find 54 ?fs = Some (if no_side m = Buy then str ''1'' else str ''2'')"
    "fix_find 38 ?fs = Some (dec_digits (unat (no_qty m)))" "fix_find 44 ?fs = Some (price_text (no_price m))"
    "fix_find 59 ?fs = Some (if no_tif m = IOC then str ''3'' else str ''0'')"
    by (simp_all add: fix_find_def body_fields_def mk_field_def)
  have q: "get_uint 38 ?fs = Some (of_nat (unat (no_qty m)))"
  proof -
    have "unat (no_qty m) < 2 ^ 64" using unsigned_less [of "no_qty m", where 'a = nat] by simp
    from from_chars_dec_digits_nil [OF this] show ?thesis by (simp only: get_uint_def F(5)) simp
  qed
  have uq: "(ucast (of_nat (unat (no_qty m)) :: u64) :: u32) = no_qty m"
  proof -
    have lt: "unat (no_qty m) < 2 ^ 32" using unsigned_less [of "no_qty m", where 'a = nat] by simp
    then have "unat (of_nat (unat (no_qty m)) :: u64) = unat (no_qty m)" by (intro unat_of_nat_id) simp
    then show ?thesis using lt by (simp add: word_unat_eq_iff unsigned_ucast_eq take_bit_nat_eq_self del: of_nat_unat)
  qed
  have p: "get_price 44 ?fs = Some (no_price m)"
    using parse_price_text [of "no_price m"] assms by (simp only: get_price_def F(6)) (simp add: order_text_ok_def)
  show ?thesis
    unfolding to_order_def F q p prod.case option.case
    using uq by (cases "no_side m"; cases "no_tif m") (simp_all add: str_def)
qed

end
