(* ===== verification/Tick_Types.thy ===== *)
theory Tick_Types
  imports PF_Prelude
begin

text \<open>
  The vocabulary of the tick pipeline: the tick message and its validation (\<open>include/message.hpp\<close>),
  the shared counters (\<open>include/stats.hpp\<close>) and the ring of pipeline events
  (\<open>include/shared_events.hpp\<close>). The regions are shared by several threads; every counter update is
  one atomic access, and the fields of an event slot are written by the thread that reserved it.
  Shown: validation is exact, and the ring always holds the most recent events.
\<close>

section \<open>Tick messages\<close>

record tick_message =
  tm_sequence :: u64
  tm_send_timestamp_ns :: u64
  tm_symbol_id :: u32
  tm_price :: int
  tm_quantity :: u32
  tm_flags :: u32

definition TICK_FLAG_TRADE :: u32 where "TICK_FLAG_TRADE = push_bit 0 1"
definition TICK_FLAG_QUOTE :: u32 where "TICK_FLAG_QUOTE = push_bit 1 1"
definition TICK_FLAG_LAST :: u32 where "TICK_FLAG_LAST = push_bit 2 1"

definition TICK_MESSAGE_EXPECTED_SIZE :: nat where
  "TICK_MESSAGE_EXPECTED_SIZE = 40"

text \<open>A value-initialised message, the content of a fresh \<open>std::vector<TickMessage>\<close>.\<close>

definition tick_zero :: tick_message where
  "tick_zero = \<lparr>tm_sequence = 0, tm_send_timestamp_ns = 0, tm_symbol_id = 0, tm_price = 0,
     tm_quantity = 0, tm_flags = 0\<rparr>"

definition kKnownFlags :: u32 where
  "kKnownFlags = TICK_FLAG_TRADE OR TICK_FLAG_QUOTE OR TICK_FLAG_LAST"

definition message_is_valid :: "tick_message \<Rightarrow> bool" where
  "message_is_valid msg = (if tm_quantity msg = 0 then False
     else if tm_flags msg AND NOT kKnownFlags \<noteq> 0 then False else True)"

lemma kKnownFlags_mask: "kKnownFlags = mask 3"
  by (simp add: kKnownFlags_def TICK_FLAG_TRADE_def TICK_FLAG_QUOTE_def TICK_FLAG_LAST_def mask_eq_exp_minus_1)

lemma message_is_valid_iff:
  "message_is_valid msg \<longleftrightarrow> 0 < tm_quantity msg \<and> tm_flags msg < 8"
proof -
  have "tm_flags msg AND NOT (mask 3) = 0 \<longleftrightarrow> take_bit 3 (tm_flags msg) = tm_flags msg"
    by (auto simp: bit_eq_iff bit_simps)
  also have "\<dots> \<longleftrightarrow> tm_flags msg < 8"
    by (simp only: word_unat_eq_iff unsigned_take_bit_eq take_bit_nat_eq_self_iff word_less_nat_alt) simp
  finally show ?thesis by (auto simp: message_is_valid_def kKnownFlags_mask word_gt_0)
qed

section \<open>Shared counters\<close>

record shared_stats =
  st_received :: u64
  st_invalid :: u64
  st_sequence_gaps :: u64
  st_reorders :: u64
  st_queue_full :: u64
  st_recovered :: u64
  st_processed :: u64
  st_latency_total_ns :: u64
  st_latency_max_ns :: u64
  st_queue_depth :: u64

definition shared_stats_reset :: "shared_stats \<Rightarrow> shared_stats" where
  "shared_stats_reset s = s\<lparr>st_received := 0, st_invalid := 0, st_sequence_gaps := 0, st_reorders := 0,
     st_queue_full := 0, st_recovered := 0, st_processed := 0, st_latency_total_ns := 0,
     st_latency_max_ns := 0, st_queue_depth := 0\<rparr>"

section \<open>The event ring\<close>

datatype event_type = EvReceived | EvInvalid | EvGap | EvRecovered | EvProcessed | EvQueueFull

fun event_code :: "event_type \<Rightarrow> u8" where
  "event_code EvReceived = 0"
| "event_code EvInvalid = 1"
| "event_code EvGap = 2"
| "event_code EvRecovered = 3"
| "event_code EvProcessed = 4"
| "event_code EvQueueFull = 5"

record ring_event =
  ev_type :: u8
  ev_worker_id :: u32
  ev_sequence :: u64
  ev_ts_ns :: u64
  ev_latency_ns :: u64

record shared_config =
  sc_ready :: int
  sc_transport :: int
  sc_queue_kind :: int
  sc_workers :: int
  sc_batch :: int
  sc_busy_poll_us :: int
  sc_bpf_filter :: int
  sc_recovery_enabled :: int
  sc_port :: int
  sc_multicast_group :: bytes

record event_ring =
  er_config :: shared_config
  er_write_index :: u64
  er_events :: "ring_event list"

definition kEventRingCapacity :: nat where
  "kEventRingCapacity = 16384"

definition event_ring_reset :: "event_ring \<Rightarrow> event_ring" where
  "event_ring_reset ring = ring\<lparr>er_write_index := 0, er_config := (er_config ring)\<lparr>sc_ready := 0\<rparr>\<rparr>"

text \<open>\<open>snprintf\<close> into the 32-byte field: at most 31 characters and a terminating zero; the bytes behind
  it keep their value.\<close>

definition shared_config_set ::
  "event_ring \<Rightarrow> int \<Rightarrow> int \<Rightarrow> int \<Rightarrow> int \<Rightarrow> int \<Rightarrow> int \<Rightarrow> int \<Rightarrow> int \<Rightarrow> bytes \<Rightarrow> event_ring" where
  "shared_config_set ring transport queue_kind workers batch busy_poll_us bpf_filter recovery_enabled port multicast_group =
     ring\<lparr>er_config := (er_config ring)\<lparr>sc_transport := transport, sc_queue_kind := queue_kind,
       sc_workers := workers, sc_batch := batch, sc_busy_poll_us := busy_poll_us,
       sc_bpf_filter := bpf_filter, sc_recovery_enabled := recovery_enabled, sc_port := port,
       sc_multicast_group := blit (sc_multicast_group (er_config ring)) 0 (take 31 multicast_group @ [0]),
       sc_ready := 1\<rparr>\<rparr>"

text \<open>A whole call, as its caller sees it. The accesses it consists of, which other writers and the telemetry
  bridge can come between, are the actions of \<open>Event_Steps\<close>; there \<open>record_steps\<close> shows that an uninterrupted
  writer has this effect.\<close>

definition event_ring_record ::
  "event_ring \<Rightarrow> event_type \<Rightarrow> u64 \<Rightarrow> u64 \<Rightarrow> u64 \<Rightarrow> u32 \<Rightarrow> event_ring" where
  "event_ring_record ring type sequence ts_ns latency_ns worker_id =
     (let idx = er_write_index ring
      in ring\<lparr>er_write_index := idx + 1,
           er_events := (er_events ring)[unat (idx mod of_nat kEventRingCapacity) :=
             \<lparr>ev_type = event_code type, ev_worker_id = worker_id, ev_sequence = sequence,
              ev_ts_ns = ts_ns, ev_latency_ns = latency_ns\<rparr>]\<rparr>)"

section \<open>Windows of a ring\<close>

text \<open>A ring of \<open>2 ^ k\<close> slots indexed by a 64-bit counter that wraps: the \<open>n\<close> entries from counter
  value \<open>c\<close> on.\<close>

definition ring_slot :: "nat \<Rightarrow> u64 \<Rightarrow> nat" where
  "ring_slot k c = unat c mod 2 ^ k"

definition ring_window :: "nat \<Rightarrow> 'a list \<Rightarrow> u64 \<Rightarrow> nat \<Rightarrow> 'a list" where
  "ring_window k buf c n = map (\<lambda>i. buf ! ring_slot k (c + of_nat i)) [0..<n]"

lemma length_ring_window [simp]: "length (ring_window k buf c n) = n"
  by (simp add: ring_window_def)

lemma ring_window_0 [simp]: "ring_window k buf c 0 = []"
  by (simp add: ring_window_def)

lemma ring_slot_less [simp]: "ring_slot k c < 2 ^ k"
  by (simp add: ring_slot_def)

lemma unat_pow2: "k < 64 \<Longrightarrow> unat (2 ^ k :: u64) = 2 ^ k"
  using unat_of_nat_id [of "2 ^ k", where 'a = 64] power_strict_increasing [of k 64 "2::nat"] by simp

lemma ring_slot_mask:
  assumes "k < 64"
  shows "unat (c AND (2 ^ k - 1)) = ring_slot k c"
proof -
  have "c AND (2 ^ k - 1) = take_bit k c" by (simp add: take_bit_eq_mask mask_eq_exp_minus_1)
  then show ?thesis by (simp only: ring_slot_def unsigned_take_bit_eq) (simp add: take_bit_eq_mod)
qed

lemma ring_slot_add:
  assumes "k \<le> 64"
  shows "ring_slot k (c + of_nat i) = (unat c + i) mod 2 ^ k"
proof -
  have "(2::nat) ^ k dvd 2 ^ 64" using assms by (rule le_imp_power_dvd)
  then show ?thesis
    by (simp add: ring_slot_def unat_word_ariths unsigned_of_nat take_bit_eq_mod mod_mod_cancel mod_simps
        flip: power_mult)
qed

lemma ring_slot_distinct:
  assumes "k \<le> 64" "i < j" "j < i + 2 ^ k"
  shows "ring_slot k (c + of_nat i) \<noteq> ring_slot k (c + of_nat j)"
proof
  assume "ring_slot k (c + of_nat i) = ring_slot k (c + of_nat j)"
  then have "(2::nat) ^ k dvd j - i"
    using mod_eq_dvd_iff_nat [of "unat c + i" "unat c + j" "2 ^ k"] assms by (simp add: ring_slot_add)
  then show False using assms by (auto dest: dvd_imp_le)
qed

lemma ring_window_store:
  assumes "k \<le> 64" "length buf = 2 ^ k" "n < 2 ^ k"
  shows "ring_window k (buf[ring_slot k (c + of_nat n) := m]) c (Suc n) = ring_window k buf c n @ [m]"
proof -
  have "ring_slot k (c + of_nat n) \<noteq> ring_slot k (c + of_nat i)" if "i < n" for i
    using ring_slot_distinct [OF assms(1) that, of c] assms(3) by simp
  then show ?thesis using assms(2) by (simp add: ring_window_def)
qed

lemma ring_window_keep:
  assumes "k \<le> 64" "length buf = 2 ^ k" "n < 2 ^ k"
  shows "ring_window k (buf[ring_slot k (c + of_nat n) := m]) c n = ring_window k buf c n"
  using ring_window_store [OF assms, of c m] by (simp add: ring_window_def)

lemma ring_window_snoc:
  "ring_window k buf c (Suc n) = ring_window k buf c n @ [buf ! ring_slot k (c + of_nat n)]"
  by (simp add: ring_window_def)

lemma ring_window_Cons:
  "ring_window k buf c (Suc n) = buf ! ring_slot k c # ring_window k buf (c + 1) n"
  by (simp add: ring_window_def upt_conv_Cons map_Suc_upt [symmetric] add.assoc comp_def del: upt_Suc)

lemma ring_window_drop_first:
  assumes "0 < n"
  shows "ring_window k buf c n = buf ! ring_slot k c # ring_window k buf (c + 1) (n - 1)"
  using assms ring_window_Cons by (metis Suc_diff_1)

section \<open>What the event ring holds\<close>

text \<open>The ring after the events of \<open>log\<close> were recorded: the counter is their number, and the last
  \<open>kEventRingCapacity\<close> of them are in their slots.\<close>

definition ring_event_of :: "event_type \<Rightarrow> u64 \<Rightarrow> u64 \<Rightarrow> u64 \<Rightarrow> u32 \<Rightarrow> ring_event" where
  "ring_event_of type sequence ts_ns latency_ns worker_id =
     \<lparr>ev_type = event_code type, ev_worker_id = worker_id, ev_sequence = sequence,
      ev_ts_ns = ts_ns, ev_latency_ns = latency_ns\<rparr>"

definition er_holds :: "event_ring \<Rightarrow> ring_event list \<Rightarrow> bool" where
  "er_holds ring log \<longleftrightarrow> length (er_events ring) = kEventRingCapacity \<and>
     er_write_index ring = of_nat (length log) \<and>
     (\<forall>i<length log. length log \<le> i + kEventRingCapacity \<longrightarrow>
        er_events ring ! (i mod kEventRingCapacity) = log ! i)"

lemma er_holds_reset:
  "length (er_events ring) = kEventRingCapacity \<Longrightarrow> er_holds (event_ring_reset ring) []"
  by (simp add: er_holds_def event_ring_reset_def)

lemma er_holds_record:
  assumes "er_holds ring log"
  shows "er_holds (event_ring_record ring t s ts l w) (log @ [ring_event_of t s ts l w])"
proof -
  have "unat (of_nat (length log) mod of_nat kEventRingCapacity :: u64) = length log mod 16384"
    using ring_slot_add [of 14 0 "length log"]
    by (simp add: ring_slot_def unat_mod kEventRingCapacity_def)
  moreover have "length log mod 16384 \<noteq> i mod 16384" if "i < length log" "length log < i + 16384" for i
    using ring_slot_distinct [of 14 i "length log" 0] ring_slot_add [of 14 0] that by (simp add: eq_commute)
  ultimately show ?thesis
    using assms unfolding er_holds_def
    by (auto simp: event_ring_record_def ring_event_of_def Let_def kEventRingCapacity_def nth_append
        less_Suc_eq nth_list_update add.commute)
qed

end
