(* ===== verification/Queues.thy ===== *)
theory Queues
  imports Tick_Types
begin

text \<open>
  The three queues between the receiver and its workers, one thread at a time: the lock-free ring
  \<open>SpscRing\<close>, the broadcast ring \<open>MpmcFanout\<close>, the mutex queue \<open>QueueMutex\<close>, and the adapters of
  \<open>src/queue_backend.cpp\<close> that give them one interface. \<open>size_t\<close> cursors are 64-bit words that wrap.
  The contract of the two work-sharing queues is the locale \<open>bounded_fifo\<close>. A blocking call that has
  to wait has the result \<open>None\<close>. Their interleaved executions are in \<open>Queue_Steps\<close>.
\<close>

datatype q_status = StOk | StFull | StClosed

section \<open>The size of a ring\<close>

text \<open>\<open>next_pow2\<close>: for an argument above \<open>2 ^ 63\<close> the shifted bit falls out and the loop does not end.\<close>

partial_function (option) next_pow2_loop :: "u64 \<Rightarrow> u64 \<Rightarrow> u64 option" where
  "next_pow2_loop n p = (if p < n then next_pow2_loop n (push_bit 1 p) else Some p)"

definition next_pow2 :: "u64 \<Rightarrow> u64 option" where
  "next_pow2 n = next_pow2_loop n 1"

section \<open>\<open>SpscRing\<close>\<close>

record spsc_ring =
  sr_head :: u64
  sr_tail :: u64
  sr_closed :: bool
  sr_buf :: "tick_message list"
  sr_mask :: u64

definition SpscRing :: "u64 \<Rightarrow> spsc_ring option" where
  "SpscRing capacity = (case next_pow2 capacity of None \<Rightarrow> None
     | Some p \<Rightarrow> Some \<lparr>sr_head = 0, sr_tail = 0, sr_closed = False,
         sr_buf = replicate (unat p) tick_zero, sr_mask = p - 1\<rparr>)"

definition sr_close :: "spsc_ring \<Rightarrow> spsc_ring" where
  "sr_close r = r\<lparr>sr_closed := True\<rparr>"

definition sr_size :: "spsc_ring \<Rightarrow> u64" where
  "sr_size r = of_nat (length (sr_buf r))"

definition sr_try_push :: "tick_message \<Rightarrow> spsc_ring \<Rightarrow> q_status \<times> spsc_ring" where
  "sr_try_push msg r =
     (if sr_closed r then (StClosed, r)
      else let tail = sr_tail r; head = sr_head r
           in if sr_size r \<le> tail - head then (StFull, r)
              else (StOk, r\<lparr>sr_buf := (sr_buf r)[unat (tail AND sr_mask r) := msg], sr_tail := tail + 1\<rparr>))"

definition sr_try_pop :: "spsc_ring \<Rightarrow> tick_message option \<times> spsc_ring" where
  "sr_try_pop r =
     (let head = sr_head r; tail = sr_tail r
      in if head = tail then (None, r)
         else (Some (sr_buf r ! unat (head AND sr_mask r)), r\<lparr>sr_head := head + 1\<rparr>))"

definition sr_closed_and_empty :: "spsc_ring \<Rightarrow> bool" where
  "sr_closed_and_empty r = (if \<not> sr_closed r then False else sr_head r = sr_tail r)"

definition sr_capacity :: "spsc_ring \<Rightarrow> u64" where
  "sr_capacity r = sr_mask r + 1"

definition sr_depth :: "spsc_ring \<Rightarrow> u64" where
  "sr_depth r = sr_tail r - sr_head r"

section \<open>\<open>MpmcFanout\<close>\<close>

record mpmc_fanout =
  mf_write_seq :: u64
  mf_closed :: bool
  mf_read_seq :: "u64 list"
  mf_buf :: "tick_message list"
  mf_mask :: u64

definition MpmcFanout :: "u64 \<Rightarrow> nat \<Rightarrow> mpmc_fanout option" where
  "MpmcFanout capacity num_readers = (case next_pow2 capacity of None \<Rightarrow> None
     | Some p \<Rightarrow> Some \<lparr>mf_write_seq = 0, mf_closed = False, mf_read_seq = replicate num_readers 0,
         mf_buf = replicate (unat p) tick_zero, mf_mask = p - 1\<rparr>)"

fun min_scan :: "u64 \<Rightarrow> u64 list \<Rightarrow> u64" where
  "min_scan m [] = m"
| "min_scan m (v # vs) = min_scan (if v < m then v else m) vs"

definition mf_min_read_seq :: "mpmc_fanout \<Rightarrow> u64" where
  "mf_min_read_seq f = min_scan (mf_write_seq f) (mf_read_seq f)"

definition mf_close :: "mpmc_fanout \<Rightarrow> mpmc_fanout" where
  "mf_close f = f\<lparr>mf_closed := True\<rparr>"

definition mf_size :: "mpmc_fanout \<Rightarrow> u64" where
  "mf_size f = of_nat (length (mf_buf f))"

definition mf_try_push :: "tick_message \<Rightarrow> mpmc_fanout \<Rightarrow> q_status \<times> mpmc_fanout" where
  "mf_try_push msg f =
     (if mf_closed f then (StClosed, f)
      else let write = mf_write_seq f
           in if mf_size f \<le> write - mf_min_read_seq f then (StFull, f)
              else (StOk, f\<lparr>mf_buf := (mf_buf f)[unat (write AND mf_mask f) := msg], mf_write_seq := write + 1\<rparr>))"

definition mf_try_pop :: "nat \<Rightarrow> mpmc_fanout \<Rightarrow> tick_message option \<times> mpmc_fanout" where
  "mf_try_pop reader_id f =
     (let read = mf_read_seq f ! reader_id; write = mf_write_seq f
      in if read = write then (None, f)
         else (Some (mf_buf f ! unat (read AND mf_mask f)),
               f\<lparr>mf_read_seq := (mf_read_seq f)[reader_id := read + 1]\<rparr>))"

definition mf_closed_and_empty :: "nat \<Rightarrow> mpmc_fanout \<Rightarrow> bool" where
  "mf_closed_and_empty reader_id f =
     (if \<not> mf_closed f then False else mf_read_seq f ! reader_id = mf_write_seq f)"

definition mf_capacity :: "mpmc_fanout \<Rightarrow> u64" where
  "mf_capacity f = mf_mask f + 1"

definition mf_num_readers :: "mpmc_fanout \<Rightarrow> nat" where
  "mf_num_readers f = length (mf_read_seq f)"

definition mf_reader_depth :: "nat \<Rightarrow> mpmc_fanout \<Rightarrow> u64" where
  "mf_reader_depth reader_id f = mf_write_seq f - mf_read_seq f ! reader_id"

definition mf_depth :: "mpmc_fanout \<Rightarrow> u64" where
  "mf_depth f = mf_write_seq f - mf_min_read_seq f"

section \<open>\<open>QueueMutex\<close>\<close>

text \<open>Every public operation runs under the lock. \<open>None\<close>: the condition variable's predicate does not
  hold and the caller waits. Notifications wake waiting callers, which re-evaluate the predicate, so
  a waiting call is one that is made again later.\<close>

record queue_mutex =
  qm_buf :: "tick_message list"
  qm_capacity :: nat
  qm_head :: nat
  qm_tail :: nat
  qm_count :: nat
  qm_closed :: bool

definition QueueMutex :: "nat \<Rightarrow> queue_mutex" where
  "QueueMutex capacity = \<lparr>qm_buf = replicate capacity tick_zero, qm_capacity = capacity, qm_head = 0,
     qm_tail = 0, qm_count = 0, qm_closed = False\<rparr>"

definition qm_close :: "queue_mutex \<Rightarrow> queue_mutex" where
  "qm_close q = q\<lparr>qm_closed := True\<rparr>"

definition qm_put :: "tick_message \<Rightarrow> queue_mutex \<Rightarrow> queue_mutex" where
  "qm_put msg q = q\<lparr>qm_buf := (qm_buf q)[qm_tail q := msg],
     qm_tail := (qm_tail q + 1) mod qm_capacity q, qm_count := qm_count q + 1\<rparr>"

definition qm_push :: "tick_message \<Rightarrow> queue_mutex \<Rightarrow> (q_status \<times> queue_mutex) option" where
  "qm_push msg q =
     (if \<not> (qm_count q < qm_capacity q \<or> qm_closed q) then None
      else if qm_closed q then Some (StClosed, q)
      else Some (StOk, qm_put msg q))"

definition qm_try_push :: "tick_message \<Rightarrow> queue_mutex \<Rightarrow> q_status \<times> queue_mutex" where
  "qm_try_push msg q =
     (if qm_closed q then (StClosed, q)
      else if qm_count q = qm_capacity q then (StFull, q)
      else (StOk, qm_put msg q))"

definition qm_pop :: "queue_mutex \<Rightarrow> (tick_message option \<times> queue_mutex) option" where
  "qm_pop q =
     (if \<not> (0 < qm_count q \<or> qm_closed q) then None
      else if qm_count q = 0 \<and> qm_closed q then Some (None, q)
      else Some (Some (qm_buf q ! qm_head q),
                 q\<lparr>qm_head := (qm_head q + 1) mod qm_capacity q, qm_count := qm_count q - 1\<rparr>))"

definition qm_depth :: "queue_mutex \<Rightarrow> nat" where
  "qm_depth q = qm_count q"

section \<open>The backend\<close>

datatype queue_kind = QueueKindMutex | QueueKindSpsc | QueueKindDisruptor
datatype push_status = PushOk | PushFull | PushClosed

fun queue_kind_name :: "queue_kind \<Rightarrow> string" where
  "queue_kind_name QueueKindMutex = ''mutex''"
| "queue_kind_name QueueKindSpsc = ''spsc''"
| "queue_kind_name QueueKindDisruptor = ''disruptor''"

fun push_status_of :: "q_status \<Rightarrow> push_status" where
  "push_status_of StOk = PushOk"
| "push_status_of StFull = PushFull"
| "push_status_of StClosed = PushClosed"

text \<open>The adapters' \<open>pop\<close>: one round of the spinning loop of \<open>SpscConsumer\<close> and \<open>DisruptorConsumer\<close>.
  \<open>None\<close>: another round (with a \<open>yield\<close> after \<open>kSpinsBeforeYield\<close> of them); \<open>Some (None, _)\<close>: \<open>Closed\<close>.\<close>

definition sr_pop :: "spsc_ring \<Rightarrow> (tick_message option \<times> spsc_ring) option" where
  "sr_pop r = (case sr_try_pop r of (Some m, r') \<Rightarrow> Some (Some m, r')
     | (None, r') \<Rightarrow> if sr_closed_and_empty r' then Some (None, r') else None)"

definition mf_pop :: "nat \<Rightarrow> mpmc_fanout \<Rightarrow> (tick_message option \<times> mpmc_fanout) option" where
  "mf_pop reader_id f = (case mf_try_pop reader_id f of (Some m, f') \<Rightarrow> Some (Some m, f')
     | (None, f') \<Rightarrow> if mf_closed_and_empty reader_id f' then Some (None, f') else None)"

datatype queue_backend = MutexBackend queue_mutex nat | SpscBackend spsc_ring nat | DisruptorBackend mpmc_fanout

definition make_queue_backend :: "queue_kind \<Rightarrow> u64 \<Rightarrow> nat \<Rightarrow> queue_backend option" where
  "make_queue_backend kind capacity num_workers = (case kind of
     QueueKindMutex \<Rightarrow> Some (MutexBackend (QueueMutex (unat capacity)) num_workers)
   | QueueKindSpsc \<Rightarrow> map_option (\<lambda>r. SpscBackend r num_workers) (SpscRing capacity)
   | QueueKindDisruptor \<Rightarrow> map_option DisruptorBackend (MpmcFanout capacity num_workers))"

definition MutexProducer_try_push :: "tick_message \<Rightarrow> queue_mutex \<Rightarrow> push_status \<times> queue_mutex" where
  [simp]: "MutexProducer_try_push msg q = (case qm_try_push msg q of (s, q') \<Rightarrow> (push_status_of s, q'))"

definition SpscProducer_try_push :: "tick_message \<Rightarrow> spsc_ring \<Rightarrow> push_status \<times> spsc_ring" where
  [simp]: "SpscProducer_try_push msg r = (case sr_try_push msg r of (s, r') \<Rightarrow> (push_status_of s, r'))"

definition DisruptorProducer_try_push :: "tick_message \<Rightarrow> mpmc_fanout \<Rightarrow> push_status \<times> mpmc_fanout" where
  [simp]: "DisruptorProducer_try_push msg f = (case mf_try_push msg f of (s, f') \<Rightarrow> (push_status_of s, f'))"

fun be_try_push :: "tick_message \<Rightarrow> queue_backend \<Rightarrow> push_status \<times> queue_backend" where
  "be_try_push msg (MutexBackend q n) = (case MutexProducer_try_push msg q of (s, q') \<Rightarrow> (s, MutexBackend q' n))"
| "be_try_push msg (SpscBackend r n) = (case SpscProducer_try_push msg r of (s, r') \<Rightarrow> (s, SpscBackend r' n))"
| "be_try_push msg (DisruptorBackend f) = (case DisruptorProducer_try_push msg f of (s, f') \<Rightarrow> (s, DisruptorBackend f'))"

fun be_close :: "queue_backend \<Rightarrow> queue_backend" where
  "be_close (MutexBackend q n) = MutexBackend (qm_close q) n"
| "be_close (SpscBackend r n) = SpscBackend (sr_close r) n"
| "be_close (DisruptorBackend f) = DisruptorBackend (mf_close f)"

fun be_depth :: "queue_backend \<Rightarrow> u64" where
  "be_depth (MutexBackend q n) = of_nat (qm_depth q)"
| "be_depth (SpscBackend r n) = sr_depth r"
| "be_depth (DisruptorBackend f) = mf_depth f"

fun be_pop :: "nat \<Rightarrow> queue_backend \<Rightarrow> (tick_message option \<times> queue_backend) option" where
  "be_pop i (MutexBackend q n) = map_option (\<lambda>(m, q'). (m, MutexBackend q' n)) (qm_pop q)"
| "be_pop i (SpscBackend r n) = map_option (\<lambda>(m, r'). (m, SpscBackend r' n)) (sr_pop r)"
| "be_pop i (DisruptorBackend f) = map_option (\<lambda>(m, f'). (m, DisruptorBackend f')) (mf_pop i f)"

fun be_consumer_depth :: "nat \<Rightarrow> queue_backend \<Rightarrow> u64" where
  "be_consumer_depth i (MutexBackend q n) = of_nat (qm_depth q)"
| "be_consumer_depth i (SpscBackend r n) = sr_depth r"
| "be_consumer_depth i (DisruptorBackend f) = mf_reader_depth i f"

fun be_consumers :: "queue_backend \<Rightarrow> nat" where
  "be_consumers (MutexBackend q n) = n"
| "be_consumers (SpscBackend r n) = n"
| "be_consumers (DisruptorBackend f) = mf_num_readers f"

section \<open>Sizes are powers of two\<close>

lemma next_pow2_loop_reach:
  assumes "unat n \<le> 2 ^ k" "j \<le> k" "k < 64" "\<forall>i<k. j \<le> i \<longrightarrow> 2 ^ i < unat n"
  shows "next_pow2_loop n (2 ^ j) = Some (2 ^ k)"
  using assms(2,4)
proof (induction "k - j" arbitrary: j)
  case 0
  then have "j = k" by simp
  moreover have "n \<le> 2 ^ k" using assms(1,3) by (simp add: word_le_nat_alt unat_pow2)
  ultimately show ?case by (simp add: next_pow2_loop.simps leD)
next
  case (Suc d)
  then have "2 ^ j < unat n" by simp
  then have "(2 ^ j :: u64) < n" using Suc assms(3) by (simp add: word_less_nat_alt unat_pow2)
  moreover have "next_pow2_loop n (2 ^ Suc j) = Some (2 ^ k)" using Suc by (intro Suc.hyps) auto
  ultimately show ?case
    by (subst next_pow2_loop.simps) (simp add: push_bit_eq_mult mult.commute)
qed

text \<open>\<open>next_pow2\<close> gives the least power of two that is at least its argument.\<close>

lemma next_pow2_result:
  assumes "unat n \<le> 2 ^ 63"
  obtains k where "k < 64" "next_pow2 n = Some (2 ^ k)" "unat n \<le> 2 ^ k" "\<And>i. i < k \<Longrightarrow> 2 ^ i < unat n"
proof -
  define k where "k = (LEAST k. unat n \<le> 2 ^ k)"
  have "unat n \<le> 2 ^ k" "k \<le> 63" and least: "\<And>i. i < k \<Longrightarrow> \<not> unat n \<le> 2 ^ i"
    unfolding k_def using LeastI [of "\<lambda>k. unat n \<le> 2 ^ k" 63] assms
    by (auto intro: Least_le dest: not_less_Least)
  moreover from this have "next_pow2_loop n (2 ^ 0) = Some (2 ^ k)"
    by (intro next_pow2_loop_reach) (auto simp: not_le)
  ultimately show ?thesis using that [of k] by (auto simp: next_pow2_def not_le)
qed

lemma next_pow2_loop_zero: "0 < n \<Longrightarrow> next_pow2_loop n 0 = None"
proof -
  assume "0 < n"
  have "p = 0 \<longrightarrow> n = 0" if "next_pow2_loop n p = Some y" for p y
    by (rule next_pow2_loop.raw_induct [OF _ that]) (auto split: if_splits simp: word_gt_0)
  then show ?thesis using \<open>0 < n\<close> by (cases "next_pow2_loop n 0") auto
qed

lemma next_pow2_loop_up:
  assumes "2 ^ 63 < unat n" "j \<le> 64"
  shows "next_pow2_loop n (if j = 64 then 0 else 2 ^ j) = None"
  using assms(2)
proof (induction "64 - j" arbitrary: j)
  case 0
  moreover have "0 < n" using assms(1) by (simp add: word_less_nat_alt)
  ultimately show ?case by (simp add: next_pow2_loop_zero)
next
  case (Suc d)
  then have "j < 64" by simp
  moreover from this have "(2::nat) ^ j \<le> 2 ^ 63" by (intro power_increasing) auto
  ultimately have "(2 ^ j :: u64) < n" using assms(1) by (simp add: word_less_nat_alt unat_pow2)
  moreover have "next_pow2_loop n (if Suc j = 64 then 0 else 2 ^ Suc j) = None"
    using Suc.hyps(1) [of "Suc j"] Suc.hyps(2) Suc.prems by simp
  moreover have "push_bit 1 (2 ^ j :: u64) = (if Suc j = 64 then 0 else 2 ^ Suc j)"
    by (cases "j = 63") (auto simp: push_bit_eq_mult mult.commute)
  ultimately show ?case using \<open>j < 64\<close> by (subst next_pow2_loop.simps) simp
qed

lemma next_pow2_diverges: "2 ^ 63 < unat n \<Longrightarrow> next_pow2 n = None"
  using next_pow2_loop_up [of n 0] by (simp add: next_pow2_def)

section \<open>The contract of a work-sharing queue\<close>

text \<open>A bounded first-in-first-out queue with a closing flag: what \<open>queue_mutex.hpp\<close> and \<open>spsc_ring.hpp\<close>
  promise the receiver and its workers. \<open>pop\<close> answers \<open>None\<close> (nothing yet), \<open>Some (None, _)\<close> (closed and
  drained) or a message.\<close>

locale bounded_fifo =
  fixes ok :: "'q \<Rightarrow> bool"
    and items :: "'q \<Rightarrow> 'm list"
    and room :: "'q \<Rightarrow> nat"
    and shut :: "'q \<Rightarrow> bool"
    and try_push :: "'m \<Rightarrow> 'q \<Rightarrow> q_status \<times> 'q"
    and pop :: "'q \<Rightarrow> ('m option \<times> 'q) option"
    and close :: "'q \<Rightarrow> 'q"
  assumes push_shut: "ok q \<Longrightarrow> shut q \<Longrightarrow> try_push m q = (StClosed, q)"
    and push_full: "ok q \<Longrightarrow> \<not> shut q \<Longrightarrow> length (items q) = room q \<Longrightarrow> try_push m q = (StFull, q)"
    and push_ok: "ok q \<Longrightarrow> \<not> shut q \<Longrightarrow> length (items q) < room q \<Longrightarrow>
      \<exists>q'. try_push m q = (StOk, q') \<and> ok q' \<and> items q' = items q @ [m] \<and> room q' = room q \<and> shut q' = shut q"
    and bounded: "ok q \<Longrightarrow> length (items q) \<le> room q"
    and pop_item: "ok q \<Longrightarrow> items q = m # ms \<Longrightarrow>
      \<exists>q'. pop q = Some (Some m, q') \<and> ok q' \<and> items q' = ms \<and> room q' = room q \<and> shut q' = shut q"
    and pop_empty: "ok q \<Longrightarrow> items q = [] \<Longrightarrow> pop q = (if shut q then Some (None, q) else None)"
    and close_law: "ok q \<Longrightarrow> ok (close q) \<and> items (close q) = items q \<and> room (close q) = room q \<and> shut (close q)"

begin

lemma push_cases:
  assumes "ok q"
  obtains (shut) "shut q" "try_push m q = (StClosed, q)"
  | (full) "\<not> shut q" "length (items q) = room q" "try_push m q = (StFull, q)"
  | (ok) q' where "\<not> shut q" "length (items q) < room q" "try_push m q = (StOk, q')" "ok q'"
      "items q' = items q @ [m]" "room q' = room q" "\<not> shut q'"
proof (cases "shut q")
  case True
  then show ?thesis using that(1) push_shut [OF assms] by blast
next
  case False
  then show ?thesis
    using that(2,3) push_full [OF assms False] push_ok [OF assms False] bounded [OF assms]
    by (metis le_neq_implies_less)
qed

lemma pop_cases:
  assumes "ok q"
  obtains (wait) "items q = []" "\<not> shut q" "pop q = None"
  | (closed) "items q = []" "shut q" "pop q = Some (None, q)"
  | (item) m q' where "items q = m # items q'" "pop q = Some (Some m, q')" "ok q'" "room q' = room q"
      "shut q' = shut q"
proof (cases "items q")
  case Nil
  then show ?thesis using that(1,2) pop_empty [OF assms Nil] by (cases "shut q") auto
next
  case (Cons m ms)
  then show ?thesis using that(3) pop_item [OF assms Cons] by metis
qed

text \<open>A queue accepts a message exactly when it is open and has room.\<close>

lemma push_Ok_iff: "ok q \<Longrightarrow> fst (try_push m q) = StOk \<longleftrightarrow> \<not> shut q \<and> length (items q) < room q"
  by (cases rule: push_cases [of q m]) auto

end

section \<open>\<open>QueueMutex\<close> is a bounded queue\<close>

definition qm_ok :: "queue_mutex \<Rightarrow> bool" where
  "qm_ok q \<longleftrightarrow> length (qm_buf q) = qm_capacity q \<and> qm_count q \<le> qm_capacity q \<and>
     (0 < qm_capacity q \<longrightarrow> qm_head q < qm_capacity q \<and> qm_tail q = (qm_head q + qm_count q) mod qm_capacity q)"

definition qm_items :: "queue_mutex \<Rightarrow> tick_message list" where
  "qm_items q = map (\<lambda>i. qm_buf q ! ((qm_head q + i) mod qm_capacity q)) [0..<qm_count q]"

lemma length_qm_items [simp]: "length (qm_items q) = qm_count q"
  by (simp add: qm_items_def)

lemma qm_ok_new: "qm_ok (QueueMutex capacity)" "qm_items (QueueMutex capacity) = []"
  by (simp_all add: qm_ok_def qm_items_def QueueMutex_def)

lemma mod_slot_ne:
  assumes "i < j" "j < i + (n::nat)"
  shows "(h + j) mod n \<noteq> (h + i) mod n"
proof
  assume "(h + j) mod n = (h + i) mod n"
  then have "n dvd j - i" using mod_eq_dvd_iff_nat [of "h + i" "h + j" n] assms by simp
  then show False using assms by (auto dest: dvd_imp_le)
qed

lemma qm_put_law:
  assumes "qm_ok q" "qm_count q < qm_capacity q"
  shows "qm_ok (qm_put m q)" "qm_items (qm_put m q) = qm_items q @ [m]"
proof -
  have "(qm_head q + qm_count q) mod qm_capacity q \<noteq> (qm_head q + i) mod qm_capacity q" if "i < qm_count q" for i
    using mod_slot_ne that assms(2) by simp
  then show "qm_ok (qm_put m q)" "qm_items (qm_put m q) = qm_items q @ [m]"
    using assms by (auto simp: qm_ok_def qm_put_def qm_items_def mod_simps)
qed

lemma qm_pop_law:
  assumes "qm_ok q" "qm_items q = m # ms"
  shows "\<exists>q'. qm_pop q = Some (Some m, q') \<and> qm_ok q' \<and> qm_items q' = ms \<and>
    qm_capacity q' = qm_capacity q \<and> qm_closed q' = qm_closed q"
proof -
  have n: "qm_count q = Suc (length ms)" using assms(2) length_qm_items [of q] by simp
  have "m = qm_buf q ! qm_head q" "ms = map (\<lambda>i. qm_buf q ! ((qm_head q + Suc i) mod qm_capacity q)) [0..<length ms]"
    using assms n by (auto simp: qm_items_def upt_conv_Cons map_Suc_upt [symmetric] qm_ok_def comp_def simp del: upt_Suc)
  moreover have "((qm_head q + 1) mod qm_capacity q + i) mod qm_capacity q = (qm_head q + Suc i) mod qm_capacity q" for i
    by (simp add: mod_simps)
  ultimately show ?thesis
    using assms(1) n by (auto simp: qm_pop_def qm_ok_def qm_items_def mod_simps)
qed

interpretation qm: bounded_fifo qm_ok qm_items qm_capacity qm_closed qm_try_push qm_pop qm_close
proof unfold_locales
  fix q m
  assume "qm_ok q" "\<not> qm_closed q" "length (qm_items q) < qm_capacity q"
  then show "\<exists>q'. qm_try_push m q = (StOk, q') \<and> qm_ok q' \<and> qm_items q' = qm_items q @ [m] \<and>
    qm_capacity q' = qm_capacity q \<and> qm_closed q' = qm_closed q"
    using qm_put_law [of q m] by (simp add: qm_try_push_def) (simp add: qm_put_def)
next
  fix q m ms
  assume "qm_ok q" "qm_items q = m # ms"
  then show "\<exists>q'. qm_pop q = Some (Some m, q') \<and> qm_ok q' \<and> qm_items q' = ms \<and>
    qm_capacity q' = qm_capacity q \<and> qm_closed q' = qm_closed q"
    by (rule qm_pop_law)
next
  fix q
  assume "qm_ok q" "qm_items q = []"
  then have "qm_count q = 0" using length_qm_items [of q] by simp
  then show "qm_pop q = (if qm_closed q then Some (None, q) else None)" by (simp add: qm_pop_def)
qed (auto simp: qm_try_push_def qm_close_def qm_ok_def qm_items_def)

section \<open>\<open>SpscRing\<close> is a bounded queue\<close>

definition spsc_shape :: "nat \<Rightarrow> spsc_ring \<Rightarrow> bool" where
  "spsc_shape k r \<longleftrightarrow> k < 64 \<and> length (sr_buf r) = 2 ^ k \<and> sr_mask r = 2 ^ k - 1"

definition sr_count :: "spsc_ring \<Rightarrow> nat" where
  "sr_count r = unat (sr_tail r - sr_head r)"

definition sr_items :: "spsc_ring \<Rightarrow> tick_message list" where
  "sr_items r = map (\<lambda>i. sr_buf r ! unat ((sr_head r + of_nat i) AND sr_mask r)) [0..<sr_count r]"

definition sr_ok :: "spsc_ring \<Rightarrow> bool" where
  "sr_ok r \<longleftrightarrow> (\<exists>k. spsc_shape k r \<and> sr_count r \<le> 2 ^ k)"

abbreviation sr_room :: "spsc_ring \<Rightarrow> nat" where
  "sr_room r \<equiv> length (sr_buf r)"

lemma length_sr_items [simp]: "length (sr_items r) = sr_count r"
  by (simp add: sr_items_def)

lemma sr_items_window: "spsc_shape k r \<Longrightarrow> sr_items r = ring_window k (sr_buf r) (sr_head r) (sr_count r)"
  by (simp add: sr_items_def ring_window_def spsc_shape_def ring_slot_mask)

lemma spsc_shape_size: "spsc_shape k r \<Longrightarrow> unat (sr_size r) = 2 ^ k"
  using unat_pow2 [of k] by (simp add: spsc_shape_def sr_size_def)

lemma word_tail_eq: "(t :: u64) = h + of_nat (unat (t - h))"
  by simp

lemma unat_Suc_bounded: "unat (a :: u64) < 2 ^ k \<Longrightarrow> k < 64 \<Longrightarrow> unat (a + 1) = Suc (unat a)"
  using power_strict_increasing [of k 64 "2::nat"] unat_add_no_wrap [of a 1] by simp

lemma SpscRing_new:
  assumes "unat capacity \<le> 2 ^ 63"
  obtains k r where "SpscRing capacity = Some r" "spsc_shape k r" "unat capacity \<le> 2 ^ k"
    "\<And>i. i < k \<Longrightarrow> 2 ^ i < unat capacity" "sr_head r = 0" "sr_tail r = 0" "\<not> sr_closed r"
proof -
  obtain k where k: "k < 64" "next_pow2 capacity = Some (2 ^ k)" "unat capacity \<le> 2 ^ k"
    "\<And>i. i < k \<Longrightarrow> 2 ^ i < unat capacity"
    using next_pow2_result [OF assms] by blast
  show ?thesis
    by (rule that [where k = k and r = "\<lparr>sr_head = 0, sr_tail = 0, sr_closed = False,
          sr_buf = replicate (2 ^ k) tick_zero, sr_mask = 2 ^ k - 1\<rparr>"])
      (use k in \<open>simp_all add: SpscRing_def spsc_shape_def unat_pow2\<close>)
qed

lemma sr_store_count:
  assumes "spsc_shape k r" "sr_count r < 2 ^ k"
  shows "sr_count (r\<lparr>sr_buf := b, sr_tail := sr_tail r + 1\<rparr>) = Suc (sr_count r)"
  using assms unat_Suc_bounded [of "sr_tail r - sr_head r" k]
  by (simp add: sr_count_def spsc_shape_def algebra_simps)

lemma sr_push_law:
  fixes m :: tick_message
  assumes "spsc_shape k r" "sr_count r < 2 ^ k"
  defines "r' \<equiv> r\<lparr>sr_buf := (sr_buf r)[unat (sr_tail r AND sr_mask r) := m], sr_tail := sr_tail r + 1\<rparr>"
  shows "spsc_shape k r'" "sr_count r' = Suc (sr_count r)" "sr_items r' = sr_items r @ [m]"
proof -
  show shape: "spsc_shape k r'" using assms(1) by (simp add: r'_def spsc_shape_def)
  show n: "sr_count r' = Suc (sr_count r)" using sr_store_count [OF assms(1,2)] by (simp add: r'_def)
  have "unat (sr_tail r AND sr_mask r) = ring_slot k (sr_head r + of_nat (sr_count r))"
    using assms(1) by (simp add: spsc_shape_def ring_slot_mask sr_count_def)
  then show "sr_items r' = sr_items r @ [m]"
    using ring_window_store [of k "sr_buf r" "sr_count r" "sr_head r" m] assms(1,2) n
    by (simp add: sr_items_window [OF shape] sr_items_window [OF assms(1)]) (simp add: r'_def spsc_shape_def)
qed

lemma sr_pop_step:
  assumes "spsc_shape k r" "sr_head r \<noteq> sr_tail r"
  shows "sr_count (r\<lparr>sr_head := sr_head r + 1\<rparr>) = sr_count r - 1" "0 < sr_count r"
    "sr_items r = sr_buf r ! unat (sr_head r AND sr_mask r) # sr_items (r\<lparr>sr_head := sr_head r + 1\<rparr>)"
proof -
  show pos: "0 < sr_count r" using assms(2) by (simp add: sr_count_def unat_gt_0)
  then have "1 \<le> sr_tail r - sr_head r" by (simp add: sr_count_def word_le_nat_alt)
  then show n: "sr_count (r\<lparr>sr_head := sr_head r + 1\<rparr>) = sr_count r - 1"
    using unat_sub_if_le [of 1 "sr_tail r - sr_head r"] by (simp add: sr_count_def algebra_simps)
  have "spsc_shape k (r\<lparr>sr_head := sr_head r + 1\<rparr>)" using assms(1) by (simp add: spsc_shape_def)
  then show "sr_items r = sr_buf r ! unat (sr_head r AND sr_mask r) # sr_items (r\<lparr>sr_head := sr_head r + 1\<rparr>)"
    using assms(1) ring_window_drop_first [OF pos, of k "sr_buf r" "sr_head r"] n
    by (simp add: sr_items_window [where k = k]) (simp add: spsc_shape_def ring_slot_mask)
qed

lemma sr_count_0_iff: "sr_count r = 0 \<longleftrightarrow> sr_head r = sr_tail r"
  by (auto simp: sr_count_def unat_eq_0)

lemma sr_full_iff:
  assumes "spsc_shape k r" "sr_count r \<le> 2 ^ k"
  shows "sr_size r \<le> sr_tail r - sr_head r \<longleftrightarrow> sr_count r = 2 ^ k"
  using assms(2) by (auto simp: word_le_nat_alt spsc_shape_size [OF assms(1)] sr_count_def)

interpretation sr: bounded_fifo sr_ok sr_items sr_room sr_closed sr_try_push sr_pop sr_close
proof unfold_locales
  fix q :: spsc_ring and m
  assume a: "sr_ok q" "\<not> sr_closed q" "length (sr_items q) = sr_room q"
  then obtain k where "spsc_shape k q" "sr_count q \<le> 2 ^ k" by (auto simp: sr_ok_def)
  then show "sr_try_push m q = (StFull, q)"
    using a sr_full_iff [of k q] by (simp add: sr_try_push_def spsc_shape_def)
next
  fix q :: spsc_ring and m
  assume a: "sr_ok q" "\<not> sr_closed q" "length (sr_items q) < sr_room q"
  then obtain k where k: "spsc_shape k q" "sr_count q < 2 ^ k" by (auto simp: sr_ok_def spsc_shape_def)
  show "\<exists>q'. sr_try_push m q = (StOk, q') \<and> sr_ok q' \<and> sr_items q' = sr_items q @ [m] \<and>
    sr_room q' = sr_room q \<and> sr_closed q' = sr_closed q"
    using a(2) k sr_full_iff [of k q] sr_push_law [OF k, of m]
    by (auto simp: sr_try_push_def sr_ok_def Let_def intro!: exI [of _ k])
next
  fix q :: spsc_ring and m ms
  assume a: "sr_ok q" "sr_items q = m # ms"
  then obtain k where k: "spsc_shape k q" "sr_count q \<le> 2 ^ k" by (auto simp: sr_ok_def)
  have ne: "sr_head q \<noteq> sr_tail q" using a(2) sr_count_0_iff [of q] length_sr_items [of q] by auto
  show "\<exists>q'. sr_pop q = Some (Some m, q') \<and> sr_ok q' \<and> sr_items q' = ms \<and>
    sr_room q' = sr_room q \<and> sr_closed q' = sr_closed q"
    using a(2) k ne sr_pop_step [OF k(1) ne]
    by (auto simp: sr_pop_def sr_try_pop_def sr_ok_def spsc_shape_def)
next
  fix q :: spsc_ring
  assume "sr_ok q" "sr_items q = []"
  then have "sr_head q = sr_tail q" using length_sr_items [of q] sr_count_0_iff [of q] by simp
  then show "sr_pop q = (if sr_closed q then Some (None, q) else None)"
    by (simp add: sr_pop_def sr_try_pop_def sr_closed_and_empty_def)
next
  fix q :: spsc_ring
  assume "sr_ok q"
  then show "sr_ok (sr_close q) \<and> sr_items (sr_close q) = sr_items q \<and> sr_room (sr_close q) = sr_room q \<and>
    sr_closed (sr_close q)"
    by (simp add: sr_close_def sr_ok_def spsc_shape_def sr_items_def sr_count_def)
qed (auto simp: sr_try_push_def sr_ok_def spsc_shape_def)

section \<open>\<open>MpmcFanout\<close> broadcasts\<close>

text \<open>The backlog of a reader, and the invariant: no reader is ahead of the writer and none is more
  than a ring behind. Cursors are compared with \<open><\<close>, so the laws hold as long as the write cursor has
  not wrapped.\<close>

definition mf_shape :: "nat \<Rightarrow> mpmc_fanout \<Rightarrow> bool" where
  "mf_shape k f \<longleftrightarrow> k < 64 \<and> length (mf_buf f) = 2 ^ k \<and> mf_mask f = 2 ^ k - 1"

definition mf_count :: "nat \<Rightarrow> mpmc_fanout \<Rightarrow> nat" where
  "mf_count i f = unat (mf_write_seq f) - unat (mf_read_seq f ! i)"

definition mf_backlog :: "nat \<Rightarrow> mpmc_fanout \<Rightarrow> tick_message list" where
  "mf_backlog i f =
     map (\<lambda>j. mf_buf f ! unat ((mf_read_seq f ! i + of_nat j) AND mf_mask f)) [0..<mf_count i f]"

definition mf_ok :: "nat \<Rightarrow> mpmc_fanout \<Rightarrow> bool" where
  "mf_ok k f \<longleftrightarrow> mf_shape k f \<and> (\<forall>i<mf_num_readers f. mf_read_seq f ! i \<le> mf_write_seq f \<and> mf_count i f \<le> 2 ^ k)"

lemma length_mf_backlog [simp]: "length (mf_backlog i f) = mf_count i f"
  by (simp add: mf_backlog_def)

lemma mf_backlog_window:
  "mf_shape k f \<Longrightarrow> mf_backlog i f = ring_window k (mf_buf f) (mf_read_seq f ! i) (mf_count i f)"
  by (simp add: mf_backlog_def ring_window_def mf_shape_def ring_slot_mask)

lemma min_scan_le: "min_scan m vs \<le> m" "v \<in> set vs \<Longrightarrow> min_scan m vs \<le> v"
  by (induction m vs rule: min_scan.induct) (auto split: if_splits intro: order_trans order_less_imp_le simp: not_less)

lemma min_scan_in: "min_scan m vs = m \<or> min_scan m vs \<in> set vs"
  by (induction m vs rule: min_scan.induct) auto

lemma MpmcFanout_new:
  assumes "unat capacity \<le> 2 ^ 63"
  obtains k f where "MpmcFanout capacity n = Some f" "mf_ok k f" "unat capacity \<le> 2 ^ k"
    "mf_num_readers f = n" "\<And>i. i < n \<Longrightarrow> mf_backlog i f = []" "\<not> mf_closed f" "mf_write_seq f = 0"
    "mf_read_seq f = replicate n 0"
proof -
  obtain k where k: "k < 64" "next_pow2 capacity = Some (2 ^ k)" "unat capacity \<le> 2 ^ k"
    using next_pow2_result [OF assms] by blast
  show ?thesis
    by (rule that [where k = k and f = "\<lparr>mf_write_seq = 0, mf_closed = False, mf_read_seq = replicate n 0,
          mf_buf = replicate (2 ^ k) tick_zero, mf_mask = 2 ^ k - 1\<rparr>"])
      (use k in \<open>simp_all add: MpmcFanout_def mf_ok_def mf_shape_def mf_num_readers_def mf_count_def unat_pow2 mf_backlog_def\<close>)
qed

text \<open>The writer is refused exactly when some reader has a full ring of unread messages.\<close>

lemma mf_full_iff:
  assumes "mf_ok k f"
  shows "mf_size f \<le> mf_write_seq f - mf_min_read_seq f \<longleftrightarrow> (\<exists>i<mf_num_readers f. mf_count i f = 2 ^ k)"
proof -
  have size: "unat (mf_size f) = 2 ^ k"
    using assms unat_pow2 [of k] by (simp add: mf_ok_def mf_shape_def mf_size_def)
  have le: "mf_min_read_seq f \<le> mf_write_seq f" by (simp add: mf_min_read_seq_def min_scan_le)
  have "mf_size f \<le> mf_write_seq f - mf_min_read_seq f \<longleftrightarrow> 2 ^ k \<le> unat (mf_write_seq f) - unat (mf_min_read_seq f)"
    by (simp add: word_le_nat_alt size unat_sub_if_le [OF le])
  also have "\<dots> \<longleftrightarrow> (\<exists>i<mf_num_readers f. mf_count i f = 2 ^ k)"
  proof
    assume full: "2 ^ k \<le> unat (mf_write_seq f) - unat (mf_min_read_seq f)"
    then have "mf_min_read_seq f \<noteq> mf_write_seq f" by auto
    then obtain i where "i < mf_num_readers f" "mf_min_read_seq f = mf_read_seq f ! i"
      using min_scan_in [of "mf_write_seq f" "mf_read_seq f"]
      by (auto simp: mf_min_read_seq_def mf_num_readers_def in_set_conv_nth)
    then show "\<exists>i<mf_num_readers f. mf_count i f = 2 ^ k"
      using full assms by (auto simp: mf_ok_def mf_count_def intro!: exI [of _ i])
  next
    assume "\<exists>i<mf_num_readers f. mf_count i f = 2 ^ k"
    then obtain i where "i < mf_num_readers f" "mf_count i f = 2 ^ k" by blast
    moreover from this have "mf_min_read_seq f \<le> mf_read_seq f ! i"
      by (simp add: mf_min_read_seq_def mf_num_readers_def min_scan_le)
    ultimately show "2 ^ k \<le> unat (mf_write_seq f) - unat (mf_min_read_seq f)"
      by (simp add: mf_count_def word_le_nat_alt)
  qed
  finally show ?thesis .
qed

definition mf_put :: "tick_message \<Rightarrow> mpmc_fanout \<Rightarrow> mpmc_fanout" where
  "mf_put m f = f\<lparr>mf_buf := (mf_buf f)[unat (mf_write_seq f AND mf_mask f) := m], mf_write_seq := mf_write_seq f + 1\<rparr>"

lemma mf_put_law:
  assumes "mf_ok k f" "\<forall>i<mf_num_readers f. mf_count i f < 2 ^ k" "Suc (unat (mf_write_seq f)) < 2 ^ 64"
  shows "mf_ok k (mf_put m f)" "mf_num_readers (mf_put m f) = mf_num_readers f"
    "\<And>i. i < mf_num_readers f \<Longrightarrow> mf_backlog i (mf_put m f) = mf_backlog i f @ [m]"
proof -
  have shape: "mf_shape k f" "mf_shape k (mf_put m f)" using assms(1) by (simp_all add: mf_ok_def mf_shape_def mf_put_def)
  show readers: "mf_num_readers (mf_put m f) = mf_num_readers f" by (simp add: mf_put_def mf_num_readers_def)
  have w: "unat (mf_write_seq f + 1) = Suc (unat (mf_write_seq f))"
    using assms(3) unat_add_no_wrap [of "mf_write_seq f" 1] by simp
  have le: "unat (mf_read_seq f ! i) \<le> unat (mf_write_seq f)" if "i < mf_num_readers f" for i
    using assms(1) that by (simp add: mf_ok_def word_le_nat_alt)
  have n: "mf_count i (mf_put m f) = Suc (mf_count i f)" if "i < mf_num_readers f" for i
    using w le [OF that] by (simp add: mf_count_def mf_put_def)
  show "mf_ok k (mf_put m f)"
    using assms(1,2) shape n le w readers by (auto simp: mf_ok_def word_le_nat_alt) (auto simp: mf_put_def le_SucI)
  show "mf_backlog i (mf_put m f) = mf_backlog i f @ [m]" if i: "i < mf_num_readers f" for i
  proof -
    have "mf_write_seq f = mf_read_seq f ! i + of_nat (mf_count i f)"
      using le [OF i] by (simp add: mf_count_def of_nat_diff)
    then have "unat (mf_write_seq f AND mf_mask f) = ring_slot k (mf_read_seq f ! i + of_nat (mf_count i f))"
      using shape(1) by (simp add: mf_shape_def ring_slot_mask)
    then show ?thesis
      using ring_window_store [of k "mf_buf f" "mf_count i f" "mf_read_seq f ! i" m] assms(2) shape(1) n [OF i] i
      by (simp add: mf_backlog_window [OF shape(1)] mf_backlog_window [OF shape(2)]) (simp add: mf_put_def mf_shape_def)
  qed
qed

lemma mf_try_push_law:
  assumes "mf_ok k f" "Suc (unat (mf_write_seq f)) < 2 ^ 64"
  shows "mf_try_push m f =
    (if mf_closed f then (StClosed, f)
     else if \<exists>i<mf_num_readers f. length (mf_backlog i f) = 2 ^ k then (StFull, f)
     else (StOk, mf_put m f))"
  using mf_full_iff [OF assms(1)] by (auto simp: mf_try_push_def mf_put_def Let_def)

lemma mf_take_law:
  assumes "mf_ok k f" "i < mf_num_readers f" "mf_read_seq f ! i \<noteq> mf_write_seq f"
  defines "f' \<equiv> f\<lparr>mf_read_seq := (mf_read_seq f)[i := mf_read_seq f ! i + 1]\<rparr>"
  shows "mf_ok k f'" "mf_num_readers f' = mf_num_readers f"
    "mf_backlog i f = mf_buf f ! unat (mf_read_seq f ! i AND mf_mask f) # mf_backlog i f'"
    "\<And>j. j \<noteq> i \<Longrightarrow> mf_backlog j f' = mf_backlog j f"
proof -
  have shape: "mf_shape k f" "mf_shape k f'" using assms(1) by (simp_all add: mf_ok_def mf_shape_def f'_def)
  show readers: "mf_num_readers f' = mf_num_readers f" by (simp add: f'_def mf_num_readers_def)
  have lt: "unat (mf_read_seq f ! i) < unat (mf_write_seq f)"
    using assms(1-3) by (simp add: mf_ok_def word_le_nat_alt word_unat_eq_iff le_neq_implies_less)
  moreover have "unat (mf_write_seq f) < 2 ^ LENGTH(64)" by (rule unsigned_less)
  ultimately have r: "unat (mf_read_seq f ! i + 1) = Suc (unat (mf_read_seq f ! i))"
    using unat_add_no_wrap [of "mf_read_seq f ! i" 1] by simp
  then have n: "mf_count i f' = mf_count i f - 1" "0 < mf_count i f"
    using lt assms(2) by (simp_all add: mf_count_def f'_def mf_num_readers_def)
  show other: "mf_backlog j f' = mf_backlog j f" if "j \<noteq> i" for j
    using that by (simp add: mf_backlog_def mf_count_def f'_def)
  have "mf_count j f' \<le> 2 ^ k \<and> mf_read_seq f' ! j \<le> mf_write_seq f'" if "j < mf_num_readers f" for j
    using assms(1,2) that n lt r unfolding mf_ok_def
    by (cases "j = i") (auto simp: f'_def word_le_nat_alt mf_count_def mf_num_readers_def)
  then show "mf_ok k f'" using shape readers by (simp add: mf_ok_def)
  show "mf_backlog i f = mf_buf f ! unat (mf_read_seq f ! i AND mf_mask f) # mf_backlog i f'"
    using ring_window_drop_first [OF n(2), of k "mf_buf f" "mf_read_seq f ! i"] n(1) shape(1) assms(2)
    by (simp add: mf_backlog_window [OF shape(1)] mf_backlog_window [OF shape(2)])
      (simp add: f'_def mf_shape_def ring_slot_mask mf_num_readers_def)
qed

lemma mf_pop_empty:
  assumes "mf_ok k f" "i < mf_num_readers f"
  shows "mf_backlog i f = [] \<longleftrightarrow> mf_read_seq f ! i = mf_write_seq f"
proof -
  have "mf_backlog i f = [] \<longleftrightarrow> mf_count i f = 0" using length_mf_backlog [of i f] by (metis length_0_conv)
  then show ?thesis using assms by (auto simp: mf_ok_def mf_count_def word_le_nat_alt word_unat_eq_iff)
qed

lemma mf_pop_law:
  assumes "mf_ok k f" "i < mf_num_readers f"
  obtains (wait) "mf_backlog i f = []" "\<not> mf_closed f" "mf_pop i f = None"
  | (closed) "mf_backlog i f = []" "mf_closed f" "mf_pop i f = Some (None, f)"
  | (item) m f' where "mf_pop i f = Some (Some m, f')" "mf_ok k f'" "mf_backlog i f = m # mf_backlog i f'"
      "\<And>j. j \<noteq> i \<Longrightarrow> mf_backlog j f' = mf_backlog j f" "mf_num_readers f' = mf_num_readers f"
      "mf_closed f' = mf_closed f" "mf_write_seq f' = mf_write_seq f"
proof (cases "mf_read_seq f ! i = mf_write_seq f")
  case True
  then have "mf_backlog i f = []" using mf_pop_empty [OF assms] by simp
  then show ?thesis using that(1,2) True
    by (cases "mf_closed f") (simp_all add: mf_pop_def mf_try_pop_def mf_closed_and_empty_def)
next
  case False
  show ?thesis
    by (rule that(3) [of "mf_buf f ! unat (mf_read_seq f ! i AND mf_mask f)"
          "f\<lparr>mf_read_seq := (mf_read_seq f)[i := mf_read_seq f ! i + 1]\<rparr>"])
      (use mf_take_law [OF assms False] False in \<open>simp_all add: mf_pop_def mf_try_pop_def Let_def\<close>)
qed

end
