(* ===== verification/Tick_Recovery.thy ===== *)
theory Tick_Recovery
  imports Tick_Types Wire
begin

text \<open>
  Gap recovery over TCP (\<open>include/snapshot_protocol.hpp\<close>, \<open>src/snapshot_server.cpp\<close>,
  \<open>src/snapshot_client.cpp\<close>) and the publisher's message loop (\<open>src/publisher.cpp\<close>), which feeds the
  history ring. Structs travel as their memory image on a little-endian 64-bit machine; the four
  padding bytes of a \<open>TickMessage\<close> are arbitrary. What the peer sends is a list of segments: one
  \<open>recv\<close> takes at most the bytes it asked for from the first one, and an empty segment (or the end of
  the list) is a closed connection or an error. What \<open>send\<close> accepts is a list of counts, 0 for an error.
  Shown: the ring answers a request exactly with the recorded messages it still holds, and the client
  reconstructs them from any segmentation of the reply, or returns nothing.
\<close>

section \<open>Memory images\<close>

definition u64_le :: "u64 \<Rightarrow> bytes" where
  "u64_le v = rev (u64_be v)"

definition u32_le :: "u32 \<Rightarrow> bytes" where
  "u32_le v = rev (u32_be v)"

definition get_u64_le :: "bytes \<Rightarrow> nat \<Rightarrow> u64" where
  "get_u64_le b p = get_loop 0 (rev (bslice b p 8))"

definition get_u32_le :: "bytes \<Rightarrow> nat \<Rightarrow> u32" where
  "get_u32_le b p = get_u32 (rev (bslice b p 4)) 0"

text \<open>Offsets as in the layout comment of \<open>message.hpp\<close>.\<close>

definition tick_image :: "bytes \<Rightarrow> tick_message \<Rightarrow> bytes" where
  "tick_image pad m = u64_le (tm_sequence m) @ u64_le (tm_send_timestamp_ns m) @ u32_le (tm_symbol_id m) @ pad @
     u64_le (word_of_int (tm_price m)) @ u32_le (tm_quantity m) @ u32_le (tm_flags m)"

definition tick_of_image :: "bytes \<Rightarrow> tick_message" where
  "tick_of_image b = \<lparr>tm_sequence = get_u64_le b 0, tm_send_timestamp_ns = get_u64_le b 8,
     tm_symbol_id = get_u32_le b 16, tm_price = sint (get_u64_le b 24), tm_quantity = get_u32_le b 32,
     tm_flags = get_u32_le b 36\<rparr>"

lemma length_le [simp]: "length (u64_le v) = 8" "length (u32_le w) = 4"
  by (simp_all add: u64_le_def u32_le_def)

lemma get_u64_le_at: "length xs = p \<Longrightarrow> get_u64_le (xs @ u64_le v @ ys) p = v"
  by (simp add: get_u64_le_def bslice_append_left u64_le_def get_u64_be)

lemma get_u32_le_at: "length xs = p \<Longrightarrow> get_u32_le (xs @ u32_le v @ ys) p = v"
  using get_u32_at [of "[]" v "[]"] by (simp add: get_u32_le_def bslice_append_left u32_le_def)

lemma length_tick_image: "length pad = 4 \<Longrightarrow> length (tick_image pad m) = 40"
  by (simp add: tick_image_def)

lemma tick_image_roundtrip:
  assumes "length pad = 4" "int64_range (tm_price m)"
  shows "tick_of_image (tick_image pad m) = m"
proof -
  let ?a = "u64_le (tm_sequence m)" and ?b = "u64_le (tm_send_timestamp_ns m)" and ?c = "u32_le (tm_symbol_id m)"
  let ?d = "u64_le (word_of_int (tm_price m))" and ?e = "u32_le (tm_quantity m)" and ?f = "u32_le (tm_flags m)"
  have "get_u64_le (tick_image pad m) 0 = tm_sequence m"
    using get_u64_le_at [of "[]" 0] by (simp add: tick_image_def)
  moreover have "get_u64_le (tick_image pad m) 8 = tm_send_timestamp_ns m"
    using get_u64_le_at [of ?a 8] by (simp add: tick_image_def)
  moreover have "get_u32_le (tick_image pad m) 16 = tm_symbol_id m"
    using get_u32_le_at [of "?a @ ?b" 16] by (simp add: tick_image_def)
  moreover have "sint (get_u64_le (tick_image pad m) 24) = tm_price m"
    using get_u64_le_at [of "?a @ ?b @ ?c @ pad" 24] assms by (simp add: tick_image_def sint_word_of_int_id)
  moreover have "get_u32_le (tick_image pad m) 32 = tm_quantity m"
    using get_u32_le_at [of "?a @ ?b @ ?c @ pad @ ?d" 32] assms by (simp add: tick_image_def)
  moreover have "get_u32_le (tick_image pad m) 36 = tm_flags m"
    using get_u32_le_at [of "?a @ ?b @ ?c @ pad @ ?d @ ?e" 36 "tm_flags m" "[]"] assms by (simp add: tick_image_def)
  ultimately show ?thesis by (simp add: tick_of_image_def)
qed

section \<open>Whole reads and writes\<close>

text \<open>\<open>recv_full\<close>: the bytes read, if all of them arrived, and the segments left over.\<close>

fun recv_full :: "nat \<Rightarrow> bytes list \<Rightarrow> bytes option \<times> bytes list" where
  "recv_full len [] = (if len = 0 then (Some [], []) else (None, []))"
| "recv_full len (c # cs) =
     (if len = 0 then (Some [], c # cs)
      else if c = [] then (None, cs)
      else if length c \<le> len
        then case recv_full (len - length c) cs of (r, rest) \<Rightarrow> (map_option (\<lambda>b. c @ b) r, rest)
        else (Some (take len c), drop len c # cs))"

text \<open>\<open>send_full\<close>: whether everything was accepted, the accepted bytes, and the answers left over.\<close>

fun send_full :: "bytes \<Rightarrow> nat list \<Rightarrow> bool \<times> bytes \<times> nat list" where
  "send_full buf [] = (buf = [], [], [])"
| "send_full buf (n # ns) =
     (if buf = [] then (True, [], n # ns)
      else if n = 0 then (False, [], ns)
      else case send_full (drop n buf) ns of (ok, out, rest) \<Rightarrow> (ok, take n buf @ out, rest))"

section \<open>The history ring\<close>

definition kSnapshotRingCapacity :: nat where
  "kSnapshotRingCapacity = 8192"

definition kMaxSnapshotRequestLen :: u64 where
  "kMaxSnapshotRequestLen = 4096"

record snapshot_server =
  sv_ring :: "tick_message list"
  sv_slot_seq :: "u64 list"

definition SnapshotServer :: snapshot_server where
  "SnapshotServer = \<lparr>sv_ring = replicate kSnapshotRingCapacity tick_zero,
     sv_slot_seq = replicate kSnapshotRingCapacity (- 1)\<rparr>"

definition sv_slot :: "u64 \<Rightarrow> nat" where
  "sv_slot s = unat (s mod of_nat kSnapshotRingCapacity)"

definition sv_record :: "tick_message \<Rightarrow> snapshot_server \<Rightarrow> snapshot_server" where
  "sv_record msg sv = sv\<lparr>sv_ring := (sv_ring sv)[sv_slot (tm_sequence msg) := msg],
     sv_slot_seq := (sv_slot_seq sv)[sv_slot (tm_sequence msg) := tm_sequence msg]\<rparr>"

lemma unat_Suc_less: "s < (e :: u64) \<Longrightarrow> unat (s + 1) = Suc (unat s)"
proof -
  assume "s < e"
  moreover have "unat e < 2 ^ LENGTH(64)" by (rule unsigned_less)
  ultimately show ?thesis using unat_add_no_wrap [of s 1] by (simp add: word_less_nat_alt)
qed

text \<open>The loop of \<open>serve_request\<close> from \<open>s\<close> up to \<open>end\<close>.\<close>

function serve_loop :: "snapshot_server \<Rightarrow> u64 \<Rightarrow> u64 \<Rightarrow> tick_message list" where
  "serve_loop sv s e =
     (if s < e then if sv_slot_seq sv ! sv_slot s \<noteq> s then []
        else sv_ring sv ! sv_slot s # serve_loop sv (s + 1) e
      else [])"
  by pat_completeness auto

termination
  by (relation "measure (\<lambda>(sv, s, e). unat e - unat s)") (auto simp: unat_Suc_less word_less_nat_alt diff_less_mono2)

declare serve_loop.simps [simp del]

definition serve_request :: "snapshot_server \<Rightarrow> u64 \<Rightarrow> u64 \<Rightarrow> tick_message list" where
  "serve_request sv from_seq count = serve_loop sv from_seq (from_seq + count)"

definition capped :: "u64 \<Rightarrow> u64" where
  "capped count = (if kMaxSnapshotRequestLen < count then kMaxSnapshotRequestLen else count)"

text \<open>\<open>SnapshotRequest\<close> and \<open>SnapshotResponseHeader\<close> as images; \<open>pads\<close> are the padding bytes of the
  messages sent.\<close>

definition handle_client ::
  "(nat \<Rightarrow> bytes) \<Rightarrow> snapshot_server \<Rightarrow> bytes list \<Rightarrow> nat list \<Rightarrow> bytes" where
  "handle_client pads sv segs sends =
     (case recv_full 16 segs of (None, _) \<Rightarrow> []
      | (Some req, _) \<Rightarrow>
          let msgs = serve_request sv (get_u64_le req 0) (capped (get_u64_le req 8))
          in case send_full (u64_le (of_nat (length msgs))) sends of (ok, out, sends') \<Rightarrow>
             if ok \<and> msgs \<noteq> []
             then out @ fst (snd (send_full (concat (map (\<lambda>i. tick_image (pads i) (msgs ! i)) [0..<length msgs])) sends'))
             else out)"

section \<open>The client\<close>

text \<open>Connection set-up is one flag (\<open>socket\<close>, \<open>inet_pton\<close> and \<open>connect\<close>); the result is \<open>[]\<close> on any failure.
  \<open>alloc\<close> says whether \<open>result.resize\<close> succeeds for a count; \<open>None\<close> is the exception it throws otherwise.\<close>

definition image_ticks :: "nat \<Rightarrow> bytes \<Rightarrow> tick_message list" where
  "image_ticks n b = map (\<lambda>i. tick_of_image (bslice b (40 * i) 40)) [0..<n]"

definition request_snapshot_recovery ::
  "(nat \<Rightarrow> bool) \<Rightarrow> bool \<Rightarrow> u64 \<Rightarrow> u64 \<Rightarrow> nat list \<Rightarrow> bytes list \<Rightarrow> bytes \<times> tick_message list option" where
  "request_snapshot_recovery alloc connected from_seq count sends segs =
     (if \<not> connected then ([], Some [])
      else case send_full (u64_le from_seq @ u64_le count) sends of (sent, out, _) \<Rightarrow>
        (out,
         if \<not> sent then Some []
         else case recv_full 8 segs of (None, _) \<Rightarrow> Some []
           | (Some header, segs') \<Rightarrow>
               let returned_count = unat (get_u64_le header 0)
               in if 0 < returned_count
                  then if \<not> alloc returned_count then None
                       else case recv_full (returned_count * 40) segs' of (None, _) \<Rightarrow> Some []
                         | (Some b, _) \<Rightarrow> Some (image_ticks returned_count b)
                  else Some []))"

section \<open>Reading and writing through any segmentation\<close>

lemma recv_full_sound:
  "recv_full n segs = (Some b, rest) \<Longrightarrow> length b = n \<and> concat segs = b @ concat rest"
proof (induction n segs arbitrary: b rest rule: recv_full.induct)
  case (2 len c cs)
  show ?case
  proof (cases "len = 0 \<or> c = [] \<or> len < length c")
    case True
    then show ?thesis using 2(2) by (auto split: if_splits)
  next
    case False
    then obtain b' where "recv_full (len - length c) cs = (Some b', rest)" "b = c @ b'"
      using 2(2) by (auto split: prod.splits)
    then show ?thesis using 2(1) False by auto
  qed
qed (auto split: if_splits)

lemma recv_full_complete:
  "[] \<notin> set segs \<Longrightarrow> n \<le> length (concat segs) \<Longrightarrow>
     \<exists>rest. recv_full n segs = (Some (take n (concat segs)), rest) \<and> concat rest = drop n (concat segs) \<and> [] \<notin> set rest"
proof (induction n segs rule: recv_full.induct)
  case (2 len c cs)
  show ?case
  proof (cases "len = 0 \<or> c = [] \<or> len < length c")
    case True
    then show ?thesis using 2(2) by auto
  next
    case False
    then obtain rest where "recv_full (len - length c) cs = (Some (take (len - length c) (concat cs)), rest)"
      "concat rest = drop (len - length c) (concat cs)" "[] \<notin> set rest"
      using 2 by fastforce
    then show ?thesis using False by auto
  qed
qed auto

lemma send_full_all: "send_full buf ns = (True, out, rest) \<Longrightarrow> out = buf"
  by (induction buf ns arbitrary: out rest rule: send_full.induct) (auto split: if_splits prod.splits)

lemma send_full_prefix: "send_full buf ns = (ok, out, rest) \<Longrightarrow> \<exists>k. out = take k buf"
proof (induction buf ns arbitrary: ok out rest rule: send_full.induct)
  case (2 buf n ns)
  show ?case
  proof (cases "buf = [] \<or> n = 0")
    case True
    then show ?thesis using 2(2) by (auto split: if_splits intro: exI [of _ 0])
  next
    case False
    then obtain out' where "send_full (drop n buf) ns = (ok, out', rest)" "out = take n buf @ out'"
      using 2(2) by (auto split: prod.splits)
    moreover from this obtain k where "out' = take k (drop n buf)" using 2(1) False by blast
    ultimately show ?thesis by (auto simp: take_add intro!: exI [of _ "n + k"])
  qed
qed (auto intro: exI [of _ 0])

section \<open>The ring answers with what it holds\<close>

text \<open>\<open>hist\<close> are the recorded messages with consecutive sequence numbers from \<open>b\<close> on.\<close>

definition consecutive :: "u64 \<Rightarrow> tick_message list \<Rightarrow> bool" where
  "consecutive b hist \<longleftrightarrow> unat b + length hist < 2 ^ 64 \<and> (\<forall>i<length hist. tm_sequence (hist ! i) = b + of_nat i)"

definition sv_holds :: "u64 \<Rightarrow> tick_message list \<Rightarrow> snapshot_server \<Rightarrow> bool" where
  "sv_holds b hist sv \<longleftrightarrow> length (sv_ring sv) = kSnapshotRingCapacity \<and> length (sv_slot_seq sv) = kSnapshotRingCapacity \<and>
     (\<forall>s. s \<noteq> - 1 \<longrightarrow> (sv_slot_seq sv ! sv_slot s = s \<longleftrightarrow>
        (\<exists>i<length hist. length hist \<le> i + kSnapshotRingCapacity \<and> s = b + of_nat i))) \<and>
     (\<forall>i<length hist. length hist \<le> i + kSnapshotRingCapacity \<longrightarrow> sv_ring sv ! sv_slot (b + of_nat i) = hist ! i)"

lemma sv_slot_ring: "sv_slot s = ring_slot 13 s"
  by (simp add: sv_slot_def ring_slot_def unat_mod kSnapshotRingCapacity_def)

lemma sv_slot_less [simp]: "sv_slot s < 8192"
  using ring_slot_less [of 13 s] by (simp add: sv_slot_ring)

lemma sv_holds_new: "sv_holds b [] SnapshotServer"
  by (auto simp: sv_holds_def SnapshotServer_def kSnapshotRingCapacity_def)

lemma unat_seq: "unat b + n < 2 ^ 64 \<Longrightarrow> i \<le> n \<Longrightarrow> unat (b + of_nat i :: u64) = unat b + i"
  using unat_add_no_wrap [of b "of_nat i :: u64"] unat_of_nat_id [of i, where 'a = 64] by simp

text \<open>Sequence numbers of one run share a slot exactly when they are a multiple of the capacity apart.\<close>

lemma sv_slot_window:
  assumes "unat b + n < 2 ^ 64" "i < n" "n < i + 8192"
  shows "sv_slot (b + of_nat i) \<noteq> sv_slot (b + of_nat n)"
  using ring_slot_distinct [of 13 i n b] assms by (simp add: sv_slot_ring)

lemma sv_holds_record:
  assumes "sv_holds b hist sv" "consecutive b (hist @ [m])"
  shows "sv_holds b (hist @ [m]) (sv_record m sv)"
proof -
  let ?n = "length hist" and ?sv = "sv_record m sv"
  have seq: "tm_sequence m = b + of_nat ?n" and wrap: "unat b + ?n < 2 ^ 64"
    using assms(2) by (auto simp: consecutive_def nth_append)
  have len: "length (sv_ring sv) = 8192" "length (sv_slot_seq sv) = 8192"
    using assms(1) by (simp_all add: sv_holds_def kSnapshotRingCapacity_def)
  have inj: "b + of_nat i = b + of_nat j \<longleftrightarrow> i = j" if "i \<le> ?n" "j \<le> ?n" for i j
    using unat_seq [OF wrap] that by (metis add_left_cancel)
  have ring: "sv_ring ?sv ! sv_slot (b + of_nat i) = (hist @ [m]) ! i" if "i < Suc ?n" "Suc ?n \<le> i + 8192" for i
  proof (cases "i = ?n")
    case False
    then have "sv_slot (b + of_nat ?n) \<noteq> sv_slot (b + of_nat i)"
      using sv_slot_window [OF wrap, of i] that by (simp add: eq_commute)
    then show ?thesis
      using assms(1) that False by (simp add: sv_record_def seq sv_holds_def nth_append kSnapshotRingCapacity_def)
  qed (use len in \<open>simp add: sv_record_def seq\<close>)
  have slots: "sv_slot_seq ?sv ! sv_slot s = s \<longleftrightarrow> (\<exists>i<Suc ?n. Suc ?n \<le> i + 8192 \<and> s = b + of_nat i)" if s: "s \<noteq> - 1" for s
  proof (cases "sv_slot s = sv_slot (b + of_nat ?n)")
    case True
    have "s \<noteq> b + of_nat i" if "i < ?n" "Suc ?n \<le> i + 8192" for i
      using sv_slot_window [OF wrap, of i] that True by auto
    then show ?thesis using len True by (auto simp: sv_record_def seq less_Suc_eq)
  next
    case False
    then have "sv_slot_seq ?sv ! sv_slot s = s \<longleftrightarrow> (\<exists>i<?n. ?n \<le> i + 8192 \<and> s = b + of_nat i)"
      using assms(1) s by (simp add: sv_record_def seq sv_holds_def kSnapshotRingCapacity_def)
    moreover have far: "\<not> (s = b + of_nat i \<and> i < ?n \<and> ?n = i + 8192)" for i
      using False ring_slot_add [of 13 b] mod_add_self2 [of "unat b + i" 8192] by (auto simp: sv_slot_ring add.assoc)
    have "i < ?n \<and> ?n \<le> i + 8192 \<and> s = b + of_nat i \<longleftrightarrow> i < Suc ?n \<and> Suc ?n \<le> i + 8192 \<and> s = b + of_nat i" for i
      using far [of i] False by (cases "i = ?n") auto
    ultimately show ?thesis by simp
  qed
  show ?thesis
    using ring slots len by (simp add: sv_holds_def kSnapshotRingCapacity_def) (simp add: sv_record_def)
qed

lemma unat_consecutive: "consecutive b hist \<Longrightarrow> i \<le> length hist \<Longrightarrow> unat (b + of_nat i) = unat b + i"
  by (rule unat_seq [of b "length hist"]) (simp_all add: consecutive_def)

text \<open>A run of the loop over numbers that the ring holds, and its end.\<close>

lemma serve_loop_held:
  assumes "sv_holds b hist sv" "consecutive b hist" "length hist \<le> i + 8192" "i \<le> length hist"
    "unat e = unat b + i + d"
  shows "serve_loop sv (b + of_nat i) e = take d (drop i hist)"
  using assms(3-5)
proof (induction d arbitrary: i)
  case 0
  have "unat (b + of_nat i) = unat b + i" using unat_consecutive [OF assms(2) 0(2)] .
  then show ?case using 0 by (simp add: serve_loop.simps [of sv "b + of_nat i"] word_less_nat_alt)
next
  case (Suc d)
  have u: "unat (b + of_nat i) = unat b + i" using unat_consecutive [OF assms(2) Suc.prems(2)] .
  then have lt: "b + of_nat i < e" using Suc.prems by (simp add: word_less_nat_alt)
  have nm: "b + of_nat i \<noteq> - 1" using lt by (metis leD word_order.extremum)
  show ?case
  proof (cases "i < length hist")
    case True
    then have "sv_slot_seq sv ! sv_slot (b + of_nat i) = b + of_nat i" "sv_ring sv ! sv_slot (b + of_nat i) = hist ! i"
      using assms(1) nm Suc.prems by (auto simp: sv_holds_def kSnapshotRingCapacity_def)
    moreover have "serve_loop sv (b + of_nat (Suc i)) e = take d (drop (Suc i) hist)"
      using Suc True by (intro Suc.IH) auto
    moreover have "take (Suc d) (drop i hist) = hist ! i # take d (drop (Suc i) hist)"
      using True by (simp add: Cons_nth_drop_Suc [symmetric])
    ultimately show ?thesis using lt by (simp add: serve_loop.simps [of sv "b + of_nat i"] ac_simps)
  next
    case False
    then have "b + of_nat i \<noteq> b + of_nat j" if "j < length hist" for j
      using u unat_consecutive [OF assms(2), of j] that by auto
    then have "sv_slot_seq sv ! sv_slot (b + of_nat i) \<noteq> b + of_nat i"
      using assms(1) nm by (auto simp: sv_holds_def)
    then show ?thesis using lt False by (simp add: serve_loop.simps [of sv "b + of_nat i"])
  qed
qed

lemma serve_loop_not_held:
  assumes "sv_holds b hist sv" "s < e" "\<And>i. i < length hist \<Longrightarrow> length hist \<le> i + 8192 \<Longrightarrow> s \<noteq> b + of_nat i"
  shows "serve_loop sv s e = []"
proof -
  have "s \<noteq> - 1" using assms(2) by (metis leD word_order.extremum)
  then have "sv_slot_seq sv ! sv_slot s \<noteq> s"
    using assms(1,3) by (auto simp: sv_holds_def kSnapshotRingCapacity_def)
  then show ?thesis using assms(2) by (simp add: serve_loop.simps [of sv s])
qed

text \<open>What a request is answered with: the recorded messages from the requested number on, at most
  \<open>count\<close>, provided the first of them is still held.\<close>

lemma serve_request_exact:
  assumes "sv_holds b hist sv" "consecutive b hist" "unat from_seq + unat count < 2 ^ 64"
  shows "serve_request sv from_seq count =
    (if unat b \<le> unat from_seq \<and> unat b + length hist \<le> unat from_seq + 8192
     then take (unat count) (drop (unat from_seq - unat b) hist) else [])"
proof -
  have e: "unat (from_seq + count) = unat from_seq + unat count" using assms(3) by (simp add: unat_add_no_wrap)
  show ?thesis
  proof (cases "unat b \<le> unat from_seq \<and> unat b + length hist \<le> unat from_seq + 8192")
    case True
    obtain i where f: "from_seq = b + of_nat i" "unat from_seq = unat b + i"
      using True by (intro that [of "unat from_seq - unat b"]) (simp_all add: of_nat_diff)
    show ?thesis
    proof (cases "i \<le> length hist")
      case i: True
      have "serve_loop sv (b + of_nat i) (from_seq + count) = take (unat count) (drop i hist)"
        by (rule serve_loop_held [OF assms(1,2) _ i]) (use True e f(2) in simp_all)
      then show ?thesis using True f by (simp add: serve_request_def)
    next
      case False
      have "from_seq \<noteq> b + of_nat j" if "j < length hist" for j
        using unat_consecutive [OF assms(2), of j] that False f(2) by auto
      then have "serve_loop sv from_seq (from_seq + count) = []"
        using serve_loop_not_held [OF assms(1), of from_seq "from_seq + count"]
        by (cases "from_seq < from_seq + count") (auto simp: serve_loop.simps [of sv from_seq])
      then show ?thesis using True False f(2) by (simp add: serve_request_def)
    qed
  next
    case False
    have "from_seq \<noteq> b + of_nat j" if "j < length hist" "length hist \<le> j + 8192" for j
      using unat_consecutive [OF assms(2), of j] that False by auto
    then have "serve_loop sv from_seq (from_seq + count) = []"
      using serve_loop_not_held [OF assms(1), of from_seq "from_seq + count"]
      by (cases "from_seq < from_seq + count") (auto simp: serve_loop.simps [of sv from_seq])
    then show ?thesis unfolding serve_request_def using False by auto
  qed
qed

lemma serve_request_wraps:
  assumes "2 ^ 64 \<le> unat from_seq + unat count"
  shows "serve_request sv from_seq count = []"
proof -
  have "unat count < 2 ^ LENGTH(64)" "unat from_seq < 2 ^ LENGTH(64)" by (rule unsigned_less)+
  then have "(unat from_seq + unat count) mod 2 ^ 64 = unat from_seq + unat count - 2 ^ 64" "unat count < 2 ^ 64"
    using assms by (simp_all add: le_mod_geq)
  then have "unat (from_seq + count) \<le> unat from_seq"
    by (simp add: unat_word_ariths)
  then show ?thesis by (simp add: serve_request_def serve_loop.simps [of sv from_seq] word_less_nat_alt)
qed

section \<open>Client and server together\<close>

lemma length_image_ticks [simp]: "length (image_ticks n b) = n"
  by (simp add: image_ticks_def)

lemma image_ticks_roundtrip:
  assumes "\<And>i. length (pads i) = 4" "\<forall>m\<in>set ms. int64_range (tm_price m)"
  shows "image_ticks (length ms) (concat (map (\<lambda>i. tick_image (pads i) (ms ! i)) [0..<length ms])) = ms"
proof (rule nth_equalityI)
  let ?im = "\<lambda>i. tick_image (pads i) (ms ! i)"
  have len: "length (concat (map ?im [j..<k])) = 40 * (k - j)" for j k
    by (induction k) (auto simp: length_tick_image assms(1) Suc_diff_le)
  fix i
  assume "i < length (image_ticks (length ms) (concat (map ?im [0..<length ms])))"
  then have i: "i < length ms" by simp
  have "[0..<length ms] = [0..<i] @ i # [Suc i..<length ms]"
    using i by (metis upt_conv_Cons upt_add_eq_append add.left_neutral le0 le_add_diff_inverse less_imp_le)
  then have "bslice (concat (map ?im [0..<length ms])) (40 * i) 40 = ?im i"
    using len [of 0 i] by (simp add: bslice_append_left length_tick_image assms(1))
  then show "image_ticks (length ms) (concat (map ?im [0..<length ms])) ! i = ms ! i"
    using i assms by (simp add: image_ticks_def tick_image_roundtrip)
qed simp

lemma take_split_head:
  assumes "a @ r = take k (h @ b)" "length a = length h"
  shows "a = h" "r = take (k - length h) b"
proof -
  have "length a + length r = min k (length h + length b)" using arg_cong [OF assms(1), of length] by simp
  then have "length h \<le> k" using assms(2) by linarith
  then have "a @ r = h @ take (k - length h) b" using assms(1) by simp
  then show "a = h" "r = take (k - length h) b" using assms(2) by simp_all
qed

text \<open>The whole reply of the server, when all of it is accepted by the kernel.\<close>

definition reply_image :: "(nat \<Rightarrow> bytes) \<Rightarrow> tick_message list \<Rightarrow> bytes" where
  "reply_image pads msgs = u64_le (of_nat (length msgs)) @
     concat (map (\<lambda>i. tick_image (pads i) (msgs ! i)) [0..<length msgs])"

lemma request_image: "get_u64_le (u64_le a @ u64_le b) 0 = a" "get_u64_le (u64_le a @ u64_le b) 8 = b"
  using get_u64_le_at [of "[]" 0 a] get_u64_le_at [of "u64_le a" 8 b "[]"] by simp_all

lemma handle_client_prefix:
  assumes "recv_full 16 segs = (Some (u64_le from_seq @ u64_le count), rest)"
  shows "\<exists>k. handle_client pads sv segs sends = take k (reply_image pads (serve_request sv from_seq (capped count)))"
proof -
  let ?msgs = "serve_request sv from_seq (capped count)"
  let ?body = "concat (map (\<lambda>i. tick_image (pads i) (?msgs ! i)) [0..<length ?msgs])"
  obtain ok out sends' where s: "send_full (u64_le (of_nat (length ?msgs))) sends = (ok, out, sends')"
    using prod_cases3 by blast
  obtain ok2 out2 rest2 where s2: "send_full ?body sends' = (ok2, out2, rest2)" using prod_cases3 by blast
  have eq: "handle_client pads sv segs sends = (if ok \<and> ?msgs \<noteq> [] then out @ out2 else out)"
    using assms s s2 by (simp add: handle_client_def request_image Let_def)
  show ?thesis
  proof (cases "ok \<and> ?msgs \<noteq> []")
    case True
    then have "out = u64_le (of_nat (length ?msgs))" using s by (auto dest: send_full_all)
    moreover obtain k where "out2 = take k ?body" using send_full_prefix [OF s2] by blast
    ultimately show ?thesis using True eq by (intro exI [of _ "8 + k"]) (simp add: reply_image_def)
  next
    case False
    obtain k where "out = take k (u64_le (of_nat (length ?msgs)))" using send_full_prefix [OF s] by blast
    moreover have "handle_client pads sv segs sends = out" using False eq by auto
    ultimately show ?thesis by (intro exI [of _ "min k 8"]) (simp add: reply_image_def min_def)
  qed
qed

lemma serve_loop_length: "length (serve_loop sv s e) \<le> unat e - unat s"
proof (induction sv s e rule: serve_loop.induct)
  case (1 sv s e)
  then show ?case
    by (subst serve_loop.simps) (auto simp: word_less_nat_alt unat_Suc_less)
qed

lemma serve_request_length: "length (serve_request sv f c) \<le> unat c"
proof (cases "unat f + unat c < 2 ^ 64")
  case True
  then have "unat (f + c) = unat f + unat c" by (simp add: unat_add_no_wrap)
  then show ?thesis using serve_loop_length [of sv f "f + c"] by (simp add: serve_request_def)
next
  case False
  then show ?thesis by (simp add: serve_request_wraps)
qed

lemma capped_min: "k < 2 ^ 64 \<Longrightarrow> capped (of_nat k) = of_nat (min k 4096)"
  by (auto simp: capped_def kMaxSnapshotRequestLen_def word_less_nat_alt unat_of_nat_id min_def)

lemma capped_le: "unat (capped c) \<le> 4096"
  by (auto simp: capped_def kMaxSnapshotRequestLen_def word_less_nat_alt)

lemma length_body:
  assumes "\<And>i. length (pads i) = 4"
  shows "length (concat (map (\<lambda>i. tick_image (pads i) (msgs ! i)) [0..<length msgs])) = length msgs * 40"
  using assms by (simp add: length_concat comp_def length_tick_image sum_list_triv)

lemma length_reply_image: "(\<And>i. length (pads i) = 4) \<Longrightarrow> length (reply_image pads msgs) = 8 + 40 * length msgs"
  by (simp add: reply_image_def length_body)

lemma client_reads:
  assumes "recv_full 8 segs = (Some (u64_le (of_nat n)), segs')" "n \<le> 4096" "alloc n"
  shows "snd (request_snapshot_recovery alloc connected from_seq count sends segs) =
    (if connected \<and> fst (send_full (u64_le from_seq @ u64_le count) sends) \<and> 0 < n
     then case recv_full (n * 40) segs' of (None, _) \<Rightarrow> Some [] | (Some b, _) \<Rightarrow> Some (image_ticks n b)
     else Some [])"
proof -
  have "unat (get_u64_le (u64_le (of_nat n)) 0) = n"
    using get_u64_le_at [of "[]" 0 "of_nat n" "[]"] assms(2) by (simp add: unat_of_nat_id)
  then obtain hd where "recv_full 8 segs = (Some hd, segs')" "unat (get_u64_le hd 0) = n"
    using assms(1) by blast
  then show ?thesis
    using assms(3) by (auto simp: request_snapshot_recovery_def Let_def split: prod.splits option.splits)
qed

text \<open>Whatever part of the server's bytes arrives, in whatever segments: the client returns the
  messages of the reply, or nothing.\<close>

lemma recovery_all_or_nothing:
  assumes "\<And>i. length (pads i) = 4" "\<forall>m\<in>set (serve_request sv from_seq (capped count)). int64_range (tm_price m)"
    "recv_full 16 srv_segs = (Some (u64_le from_seq @ u64_le count), rest)"
    "concat segs = take j (handle_client pads sv srv_segs srv_sends)" "\<And>n. n \<le> 4096 \<Longrightarrow> alloc n"
  shows "snd (request_snapshot_recovery alloc connected from_seq count sends segs) \<in>
    {Some [], Some (serve_request sv from_seq (capped count))}"
proof -
  let ?msgs = "serve_request sv from_seq (capped count)"
  let ?body = "concat (map (\<lambda>i. tick_image (pads i) (?msgs ! i)) [0..<length ?msgs])"
  have n: "length ?msgs \<le> 4096" using serve_request_length capped_le order_trans by blast
  obtain k where k: "concat segs = take k (u64_le (of_nat (length ?msgs)) @ ?body)"
    using handle_client_prefix [OF assms(3), of pads sv srv_sends] assms(4)
    by (metis take_take reply_image_def)
  show ?thesis
  proof (cases "recv_full 8 segs")
    case (Pair h segs')
    show ?thesis
    proof (cases h)
      case None
      then show ?thesis using Pair by (simp add: request_snapshot_recovery_def split: prod.splits)
    next
      case (Some header)
      then have hd: "length header = 8" "concat segs = header @ concat segs'"
        using Pair recv_full_sound by blast+
      then have header: "header = u64_le (of_nat (length ?msgs))"
        and body: "concat segs' = take (k - 8) ?body"
        using k take_split_head [of header "concat segs'" k "u64_le (of_nat (length ?msgs))" ?body] by simp_all
      show ?thesis
      proof (cases "recv_full (length ?msgs * 40) segs'")
        case (Pair b r)
        have "b = Some x \<Longrightarrow> x = ?body" for x
        proof -
          assume "b = Some x"
          then have "length x = length ?msgs * 40" "concat segs' = x @ concat r" using Pair recv_full_sound by blast+
          then show "x = ?body"
            using body take_split_head(1) [of x "concat r" "k - 8" ?body "[]"] length_body [of pads, OF assms(1)] by simp
        qed
        then show ?thesis
          using client_reads [OF _ n, of segs segs' alloc] \<open>recv_full 8 segs = (h, segs')\<close> Some header Pair assms(5) n
            image_ticks_roundtrip [of pads, OF assms(1,2)] by (cases b) auto
      qed
    qed
  qed
qed

text \<open>When the whole reply arrives, the client has all of it.\<close>

lemma recovery_complete:
  assumes "\<And>i. length (pads i) = 4" "\<forall>m\<in>set (serve_request sv from_seq (capped count)). int64_range (tm_price m)"
    "[] \<notin> set segs" "concat segs = reply_image pads (serve_request sv from_seq (capped count))"
    "fst (send_full (u64_le from_seq @ u64_le count) sends)" "\<And>n. n \<le> 4096 \<Longrightarrow> alloc n"
  shows "snd (request_snapshot_recovery alloc True from_seq count sends segs) =
    Some (serve_request sv from_seq (capped count))"
proof -
  let ?msgs = "serve_request sv from_seq (capped count)"
  let ?body = "concat (map (\<lambda>i. tick_image (pads i) (?msgs ! i)) [0..<length ?msgs])"
  have n: "length ?msgs \<le> 4096" using serve_request_length capped_le order_trans by blast
  obtain segs' where h: "recv_full 8 segs = (Some (u64_le (of_nat (length ?msgs))), segs')"
    "concat segs' = ?body" "[] \<notin> set segs'"
    using recv_full_complete [OF assms(3), of 8] assms(4) by (auto simp: reply_image_def)
  obtain rest where "recv_full (length ?msgs * 40) segs' = (Some ?body, rest)"
    using recv_full_complete [OF h(3), of "length ?msgs * 40"] h(2) length_body [of pads ?msgs, OF assms(1)] by auto
  then show ?thesis
    using client_reads [OF h(1) n, of alloc True from_seq count sends] assms(5,6) n image_ticks_roundtrip [of pads, OF assms(1,2)]
    by auto
qed

end
