(* ===== verification/Tick_Receiver.thy ===== *)
theory Tick_Receiver
  imports Queues Tick_Recovery Latency
begin

text \<open>
  The tick receiver (\<open>src/receiver.cpp\<close>) and its workers (\<open>src/worker.cpp\<close>): validation, gap and
  reorder detection, recovery requests, the hand-over to the queue with backpressure, the harvest of
  recovered ticks, the receive loop, shutdown, and the statistics that the workers fold.

  \<open>clock\<close> answers \<open>now_ns\<close> call by call (\<open>rx_tick\<close> counts the calls); what the socket delivers, when a
  signal arrives, when a recovery has finished and with what, and when the workers run comes with the
  events. A worker handles one message per step: its updates of the shared counters are single atomic
  operations that commute. While the receiver sleeps on a full queue the workers run; \<open>None\<close> means that
  it is still waiting. Two logs that are not part of the code record what the queue accepted and what
  the workers were given. Terminal output is left out.
\<close>

definition kMaxPendingRecoveries :: nat where
  "kMaxPendingRecoveries = 8"

record rx_config =
  rc_snapshot_enabled :: bool
  rc_telemetry :: bool

record worker =
  wk_processed :: u64
  wk_lat_total :: u64
  wk_lat_max :: u64
  wk_done :: bool

record receiver =
  rx_stats :: shared_stats
  rx_ring :: event_ring
  rx_backend :: queue_backend
  rx_workers :: "worker list"
  rx_received :: u64
  rx_invalid :: u64
  rx_gaps :: u64
  rx_reorders :: u64
  rx_queue_full :: u64
  rx_recovered :: u64
  rx_last_seq :: u64
  rx_have_last :: bool
  rx_pending :: "(u64 \<times> u64) list"
  rx_stop :: bool
  rx_tick :: nat
  rx_accepted :: "tick_message list"
  rx_delivered :: "(nat \<times> tick_message \<times> u64) list"

section \<open>Workers\<close>

text \<open>\<open>event_ring_record\<close> with a clock reading, when telemetry is on.\<close>

definition rx_note :: "rx_config \<Rightarrow> (nat \<Rightarrow> u64) \<Rightarrow> event_type \<Rightarrow> u64 \<Rightarrow> u64 \<Rightarrow> u32 \<Rightarrow> receiver \<Rightarrow> receiver" where
  "rx_note cfg clock type sequence latency_ns worker_id x =
     (if rc_telemetry cfg
      then x\<lparr>rx_ring := event_ring_record (rx_ring x) type sequence (clock (rx_tick x)) latency_ns worker_id,
             rx_tick := rx_tick x + 1\<rparr>
      else x)"

definition worker_count :: "u64 \<Rightarrow> worker \<Rightarrow> worker" where
  "worker_count lat w = w\<lparr>wk_processed := wk_processed w + 1, wk_lat_total := wk_lat_total w + lat,
     wk_lat_max := (if wk_lat_max w < lat then lat else wk_lat_max w)\<rparr>"

definition worker_stats :: "bool list \<Rightarrow> u64 \<Rightarrow> u64 \<Rightarrow> shared_stats \<Rightarrow> shared_stats" where
  "worker_stats fails lat depth s = s\<lparr>st_processed := st_processed s + 1,
     st_latency_total_ns := st_latency_total_ns s + lat,
     st_latency_max_ns := cas_max fails (st_latency_max_ns s) (st_latency_max_ns s) lat,
     st_queue_depth := depth\<rparr>"

text \<open>The body of the loop of \<open>worker_run\<close> for the message \<open>msg\<close> that worker \<open>i\<close> popped.\<close>

definition worker_process ::
  "rx_config \<Rightarrow> (nat \<Rightarrow> u64) \<Rightarrow> bool list \<Rightarrow> nat \<Rightarrow> tick_message \<Rightarrow> receiver \<Rightarrow> receiver" where
  "worker_process cfg clock fails i msg x =
     (let lat = clock (rx_tick x) - tm_send_timestamp_ns msg
      in rx_note cfg clock EvProcessed (tm_sequence msg) lat (of_nat i)
           (x\<lparr>rx_tick := rx_tick x + 1, rx_workers := (rx_workers x)[i := worker_count lat (rx_workers x ! i)],
              rx_stats := worker_stats fails lat (be_consumer_depth i (rx_backend x)) (rx_stats x),
              rx_delivered := rx_delivered x @ [(i, msg, lat)]\<rparr>))"

text \<open>One \<open>pop\<close> of worker \<open>i\<close>: nothing yet, closed (the worker returns), or a message.\<close>

definition worker_step :: "rx_config \<Rightarrow> (nat \<Rightarrow> u64) \<Rightarrow> nat \<times> bool list \<Rightarrow> receiver \<Rightarrow> receiver" where
  "worker_step cfg clock w x = (case w of (i, fails) \<Rightarrow>
     if i < length (rx_workers x) \<and> \<not> wk_done (rx_workers x ! i)
     then case be_pop i (rx_backend x) of None \<Rightarrow> x
       | Some (None, b) \<Rightarrow> x\<lparr>rx_backend := b, rx_workers := (rx_workers x)[i := (rx_workers x ! i)\<lparr>wk_done := True\<rparr>]\<rparr>
       | Some (Some msg, b) \<Rightarrow> worker_process cfg clock fails i msg (x\<lparr>rx_backend := b\<rparr>)
     else x)"

section \<open>One datagram\<close>

definition rx_count_invalid :: "rx_config \<Rightarrow> (nat \<Rightarrow> u64) \<Rightarrow> tick_message \<Rightarrow> receiver \<Rightarrow> receiver" where
  "rx_count_invalid cfg clock msg x = rx_note cfg clock EvInvalid (tm_sequence msg) 0 0
     (x\<lparr>rx_invalid := rx_invalid x + 1, rx_stats := (rx_stats x)\<lparr>st_invalid := st_invalid (rx_stats x) + 1\<rparr>\<rparr>)"

definition rx_count_received :: "rx_config \<Rightarrow> (nat \<Rightarrow> u64) \<Rightarrow> tick_message \<Rightarrow> receiver \<Rightarrow> receiver" where
  "rx_count_received cfg clock msg x = rx_note cfg clock EvReceived (tm_sequence msg) 0 0
     (x\<lparr>rx_received := rx_received x + 1, rx_stats := (rx_stats x)\<lparr>st_received := st_received (rx_stats x) + 1\<rparr>\<rparr>)"

text \<open>Sequence-gap detection and the recovery request for the gap.\<close>

definition rx_gap :: "rx_config \<Rightarrow> (nat \<Rightarrow> u64) \<Rightarrow> u64 \<Rightarrow> u64 \<Rightarrow> receiver \<Rightarrow> receiver" where
  "rx_gap cfg clock gap_start g x =
     (let x1 = x\<lparr>rx_gaps := rx_gaps x + g,
                 rx_stats := (rx_stats x)\<lparr>st_sequence_gaps := st_sequence_gaps (rx_stats x) + g\<rparr>\<rparr>;
          x2 = (if rc_snapshot_enabled cfg \<and> length (rx_pending x1) < kMaxPendingRecoveries
                then x1\<lparr>rx_pending := rx_pending x1 @ [(gap_start, g)]\<rparr> else x1)
      in rx_note cfg clock EvGap gap_start g 0 x2)"

definition rx_track :: "rx_config \<Rightarrow> (nat \<Rightarrow> u64) \<Rightarrow> u64 \<Rightarrow> receiver \<Rightarrow> receiver" where
  "rx_track cfg clock sequence x =
     (let x1 = (if rx_have_last x
                then if rx_last_seq x + 1 < sequence
                     then rx_gap cfg clock (rx_last_seq x + 1) (sequence - (rx_last_seq x + 1)) x
                     else if sequence < rx_last_seq x
                     then x\<lparr>rx_reorders := rx_reorders x + 1,
                            rx_stats := (rx_stats x)\<lparr>st_reorders := st_reorders (rx_stats x) + 1\<rparr>\<rparr>
                     else x
                else x)
      in x1\<lparr>rx_last_seq := sequence, rx_have_last := True\<rparr>)"

text \<open>The retry loop on a full queue. A round is a failed attempt: whether a stop was requested by
  then, and what the workers did while the receiver slept.\<close>

definition rx_count_full :: "rx_config \<Rightarrow> (nat \<Rightarrow> u64) \<Rightarrow> tick_message \<Rightarrow> receiver \<Rightarrow> receiver" where
  "rx_count_full cfg clock msg x = rx_note cfg clock EvQueueFull (tm_sequence msg) 0 0
     (x\<lparr>rx_queue_full := rx_queue_full x + 1, rx_stats := (rx_stats x)\<lparr>st_queue_full := st_queue_full (rx_stats x) + 1\<rparr>\<rparr>)"

fun rx_enqueue :: "rx_config \<Rightarrow> (nat \<Rightarrow> u64) \<Rightarrow> (bool \<times> (nat \<times> bool list) list) list \<Rightarrow> bool \<Rightarrow>
    tick_message \<Rightarrow> receiver \<Rightarrow> receiver option" where
  "rx_enqueue cfg clock rounds full_reported msg x =
     (case be_try_push msg (rx_backend x) of
        (PushOk, b) \<Rightarrow> Some (x\<lparr>rx_backend := b, rx_accepted := rx_accepted x @ [msg]\<rparr>)
      | (PushClosed, b) \<Rightarrow> Some (x\<lparr>rx_backend := b, rx_stop := True\<rparr>)
      | (PushFull, b) \<Rightarrow>
          let x1 = (if full_reported then x\<lparr>rx_backend := b\<rparr> else rx_count_full cfg clock msg (x\<lparr>rx_backend := b\<rparr>))
          in case rounds of [] \<Rightarrow> None
             | (stop, ws) # rounds' \<Rightarrow>
                 if stop \<or> rx_stop x1 then Some (x1\<lparr>rx_stop := True\<rparr>)
                 else rx_enqueue cfg clock rounds' True msg (fold (worker_step cfg clock) ws x1))"

declare rx_enqueue.simps [simp del]

type_synonym datagram = "tick_message \<times> nat \<times> (bool \<times> (nat \<times> bool list) list) list"

definition process_one :: "rx_config \<Rightarrow> (nat \<Rightarrow> u64) \<Rightarrow> datagram \<Rightarrow> receiver \<Rightarrow> receiver option" where
  "process_one cfg clock d x = (case d of (msg, sz, rounds) \<Rightarrow>
     if sz \<noteq> TICK_MESSAGE_EXPECTED_SIZE \<or> \<not> message_is_valid msg
     then Some (rx_count_invalid cfg clock msg x)
     else case rx_enqueue cfg clock rounds False msg
                 (rx_track cfg clock (tm_sequence msg) (rx_count_received cfg clock msg x)) of
            None \<Rightarrow> None
          | Some x' \<Rightarrow> Some (x'\<lparr>rx_stats := (rx_stats x')\<lparr>st_queue_depth := be_depth (rx_backend x')\<rparr>\<rparr>))"

section \<open>Recovered ticks\<close>

definition push_recovered :: "rx_config \<Rightarrow> (nat \<Rightarrow> u64) \<Rightarrow> tick_message \<Rightarrow> receiver \<Rightarrow> receiver" where
  "push_recovered cfg clock m x = (case be_try_push m (rx_backend x) of (st, b) \<Rightarrow>
     if st = PushOk
     then rx_note cfg clock EvRecovered (tm_sequence m) 0 0
            (x\<lparr>rx_backend := b, rx_accepted := rx_accepted x @ [m], rx_recovered := rx_recovered x + 1,
               rx_stats := (rx_stats x)\<lparr>st_recovered := st_recovered (rx_stats x) + 1\<rparr>\<rparr>)
     else x\<lparr>rx_backend := b\<rparr>)"

text \<open>\<open>drain_recoveries\<close>: \<open>ans k r\<close> is what the \<open>k\<close>-th poll finds for the request \<open>r\<close>, \<open>None\<close> when it has not
  finished. A finished entry is replaced by the last one, which is polled next.\<close>

lemma rx_note_pending [simp]: "rx_pending (rx_note cfg clock t s l w x) = rx_pending x"
  by (simp add: rx_note_def)

lemma push_recovered_pending [simp]: "rx_pending (push_recovered cfg clock m x) = rx_pending x"
  by (simp add: push_recovered_def split: prod.splits)

lemma fold_push_recovered_pending [simp]: "rx_pending (fold (push_recovered cfg clock) ms x) = rx_pending x"
  by (induction ms arbitrary: x) simp_all

function drain_recoveries :: "rx_config \<Rightarrow> (nat \<Rightarrow> u64) \<Rightarrow> (nat \<Rightarrow> u64 \<times> u64 \<Rightarrow> tick_message list option) \<Rightarrow>
    nat \<Rightarrow> nat \<Rightarrow> receiver \<Rightarrow> receiver" where
  "drain_recoveries cfg clock ans k i x =
     (if i < length (rx_pending x)
      then case ans k (rx_pending x ! i) of
             None \<Rightarrow> drain_recoveries cfg clock ans (k + 1) (i + 1) x
           | Some msgs \<Rightarrow>
               let x1 = fold (push_recovered cfg clock) msgs x
               in drain_recoveries cfg clock ans (k + 1) i
                    (x1\<lparr>rx_pending := butlast ((rx_pending x1)[i := last (rx_pending x1)])\<rparr>)
      else x)"
  by pat_completeness auto

termination
  by (relation "measure (\<lambda>(cfg, clock, ans, k, i, x). length (rx_pending x) - i)") auto

declare drain_recoveries.simps [simp del]

section \<open>The receive loop and shutdown\<close>

datatype rx_input =
    RxBatch "datagram list" "nat \<Rightarrow> u64 \<times> u64 \<Rightarrow> tick_message list option"
  | RxIntr
  | RxError
  | RxSignal
  | RxWorkers "(nat \<times> bool list) list"

datatype rx_exit = RxListening | RxStopped | RxSysfail

fun process_batch :: "rx_config \<Rightarrow> (nat \<Rightarrow> u64) \<Rightarrow> datagram list \<Rightarrow> receiver \<Rightarrow> receiver option" where
  "process_batch cfg clock [] x = Some x"
| "process_batch cfg clock (d # ds) x = (case process_one cfg clock d x of None \<Rightarrow> None
     | Some x' \<Rightarrow> process_batch cfg clock ds x')"

definition rx_drain :: "rx_config \<Rightarrow> (nat \<Rightarrow> u64) \<Rightarrow> (nat \<Rightarrow> u64 \<times> u64 \<Rightarrow> tick_message list option) \<Rightarrow>
    receiver \<Rightarrow> receiver" where
  "rx_drain cfg clock ans x = (if rc_snapshot_enabled cfg then drain_recoveries cfg clock ans 0 0 x else x)"

text \<open>Both receive paths: the plain one delivers batches of one datagram.\<close>

fun rx_loop :: "rx_config \<Rightarrow> (nat \<Rightarrow> u64) \<Rightarrow> rx_input list \<Rightarrow> receiver \<Rightarrow> (rx_exit \<times> receiver) option" where
  "rx_loop cfg clock [] x = Some (RxListening, x)"
| "rx_loop cfg clock (RxBatch ds ans # es) x = (case process_batch cfg clock ds x of None \<Rightarrow> None
     | Some x' \<Rightarrow> let x2 = rx_drain cfg clock ans x'
         in if rx_stop x2 then Some (RxStopped, x2) else rx_loop cfg clock es x2)"
| "rx_loop cfg clock (RxIntr # es) x = (if rx_stop x then Some (RxStopped, x) else rx_loop cfg clock es x)"
| "rx_loop cfg clock (RxError # es) x = Some (RxSysfail, x)"
| "rx_loop cfg clock (RxSignal # es) x = rx_loop cfg clock es (x\<lparr>rx_stop := True\<rparr>)"
| "rx_loop cfg clock (RxWorkers ws # es) x = rx_loop cfg clock es (fold (worker_step cfg clock) ws x)"

text \<open>After the loop: harvest once more, close the queue, and let the workers drain it. (After a failure of the
  socket \<open>main\<close> returns at once instead; the theorems that let this follow either end of the loop say more
  than the code needs.)\<close>

definition rx_shutdown :: "rx_config \<Rightarrow> (nat \<Rightarrow> u64) \<Rightarrow> (nat \<Rightarrow> u64 \<times> u64 \<Rightarrow> tick_message list option) \<Rightarrow>
    (nat \<times> bool list) list \<Rightarrow> receiver \<Rightarrow> receiver" where
  "rx_shutdown cfg clock ans ws x =
     (let x1 = rx_drain cfg clock ans x
      in fold (worker_step cfg clock) ws (x1\<lparr>rx_backend := be_close (rx_backend x1)\<rparr>))"

definition kQueueCapacity :: u64 where
  "kQueueCapacity = 4096"

definition Receiver :: "queue_kind \<Rightarrow> nat \<Rightarrow> event_ring \<Rightarrow> receiver option" where
  "Receiver kind workers ring = map_option (\<lambda>b.
     \<lparr>rx_stats = shared_stats_reset \<lparr>st_received = 0, st_invalid = 0, st_sequence_gaps = 0, st_reorders = 0,
        st_queue_full = 0, st_recovered = 0, st_processed = 0, st_latency_total_ns = 0, st_latency_max_ns = 0,
        st_queue_depth = 0\<rparr>,
      rx_ring = event_ring_reset ring, rx_backend = b,
      rx_workers = replicate workers \<lparr>wk_processed = 0, wk_lat_total = 0, wk_lat_max = 0, wk_done = False\<rparr>,
      rx_received = 0, rx_invalid = 0, rx_gaps = 0, rx_reorders = 0, rx_queue_full = 0, rx_recovered = 0,
      rx_last_seq = 0, rx_have_last = False, rx_pending = [], rx_stop = False, rx_tick = 0,
      rx_accepted = [], rx_delivered = []\<rparr>) (make_queue_backend kind kQueueCapacity workers)"

end
