(* ===== verification/Tick_Publisher.thy ===== *)
theory Tick_Publisher
  imports Tick_Recovery
begin

text \<open>
  The publisher's message loop (\<open>main\<close> of \<open>src/publisher.cpp\<close>): generate a tick, record it in the
  history ring, drop or send it, pace. Clock readings and the outcome of \<open>sendto\<close> are functions of the
  sequence number. The loop counts up to and including \<open>count\<close>, so that with the largest 64-bit count
  it never ends; for every other count it is shown to publish exactly the numbers from 1 to \<open>count\<close>,
  and to leave a history ring from which every recent range can be recovered.
\<close>

record pub_config =
  pc_rate :: u64
  pc_count :: u64
  pc_symbol_id :: u32
  pc_drop_every :: u64
  pc_burst :: u64
  pc_snapshot_port :: int

record pub_env =
  pe_now_ns :: "u64 \<Rightarrow> u64"
  pe_sendto_full :: "u64 \<Rightarrow> bool"

record publisher =
  pb_server :: snapshot_server
  pb_deadline_ns :: u64
  pb_sent :: u64
  pb_dropped :: u64
  pb_send_errors :: u64
  pb_wire :: "tick_message list"

definition pub_message :: "pub_config \<Rightarrow> pub_env \<Rightarrow> u64 \<Rightarrow> tick_message" where
  "pub_message cfg env seq = \<lparr>tm_sequence = seq, tm_send_timestamp_ns = pe_now_ns env seq,
     tm_symbol_id = pc_symbol_id cfg, tm_price = 10000 + int (unat (seq mod 100)),
     tm_quantity = ucast (100 + seq mod 50),
     tm_flags = (if seq = pc_count cfg then TICK_FLAG_TRADE OR TICK_FLAG_LAST else TICK_FLAG_TRADE)\<rparr>"

definition pub_record :: "pub_config \<Rightarrow> tick_message \<Rightarrow> publisher \<Rightarrow> publisher" where
  "pub_record cfg msg p = (if 0 < pc_snapshot_port cfg then p\<lparr>pb_server := sv_record msg (pb_server p)\<rparr> else p)"

definition pub_drops :: "pub_config \<Rightarrow> u64 \<Rightarrow> bool" where
  "pub_drops cfg seq \<longleftrightarrow> 0 < pc_drop_every cfg \<and> seq mod pc_drop_every cfg = 0"

definition pub_transmit :: "pub_config \<Rightarrow> pub_env \<Rightarrow> tick_message \<Rightarrow> publisher \<Rightarrow> publisher" where
  "pub_transmit cfg env msg p =
     (if pub_drops cfg (tm_sequence msg) then p\<lparr>pb_dropped := pb_dropped p + 1\<rparr>
      else if \<not> pe_sendto_full env (tm_sequence msg) then p\<lparr>pb_send_errors := pb_send_errors p + 1\<rparr>
      else p\<lparr>pb_sent := pb_sent p + 1, pb_wire := pb_wire p @ [msg]\<rparr>)"

definition interval_ns :: "pub_config \<Rightarrow> u64" where
  "interval_ns cfg = pc_burst cfg * 1000000000 div pc_rate cfg"

definition pub_pace :: "pub_config \<Rightarrow> u64 \<Rightarrow> publisher \<Rightarrow> publisher" where
  "pub_pace cfg seq p = (if seq mod pc_burst cfg = 0
     then p\<lparr>pb_deadline_ns := pb_deadline_ns p + interval_ns cfg\<rparr> else p)"

definition publish_one :: "pub_config \<Rightarrow> pub_env \<Rightarrow> u64 \<Rightarrow> publisher \<Rightarrow> publisher" where
  "publish_one cfg env seq p =
     (let msg = pub_message cfg env seq
      in pub_pace cfg seq (pub_transmit cfg env msg (pub_record cfg msg p)))"

partial_function (option) publish_loop :: "pub_config \<Rightarrow> pub_env \<Rightarrow> u64 \<Rightarrow> publisher \<Rightarrow> publisher option" where
  "publish_loop cfg env seq p =
     (if seq \<le> pc_count cfg then publish_loop cfg env (seq + 1) (publish_one cfg env seq p) else Some p)"

definition Publisher :: "u64 \<Rightarrow> publisher" where
  "Publisher deadline_ns = \<lparr>pb_server = SnapshotServer, pb_deadline_ns = deadline_ns, pb_sent = 0, pb_dropped = 0,
     pb_send_errors = 0, pb_wire = []\<rparr>"

definition publisher_main :: "pub_config \<Rightarrow> pub_env \<Rightarrow> u64 \<Rightarrow> publisher option" where
  "publisher_main cfg env deadline_ns = publish_loop cfg env 1 (Publisher deadline_ns)"

section \<open>The loop publishes every number once\<close>

text \<open>The state after the numbers \<open>1, \<dots>, n\<close>.\<close>

definition pub_after :: "pub_config \<Rightarrow> pub_env \<Rightarrow> u64 \<Rightarrow> nat \<Rightarrow> publisher" where
  "pub_after cfg env d n = fold (\<lambda>i. publish_one cfg env (of_nat i)) [1..<Suc n] (Publisher d)"

definition generated :: "pub_config \<Rightarrow> pub_env \<Rightarrow> nat \<Rightarrow> tick_message list" where
  "generated cfg env n = map (\<lambda>i. pub_message cfg env (of_nat (Suc i))) [0..<n]"

lemma published_0 [simp]: "pub_after cfg env d 0 = Publisher d"
  by (simp add: pub_after_def)

lemma published_Suc: "pub_after cfg env d (Suc n) = publish_one cfg env (of_nat (Suc n)) (pub_after cfg env d n)"
  by (simp add: pub_after_def)

lemma generated_Suc: "generated cfg env (Suc n) = generated cfg env n @ [pub_message cfg env (of_nat (Suc n))]"
  by (simp add: generated_def)

lemma length_generated [simp]: "length (generated cfg env n) = n"
  by (simp add: generated_def)

lemma publish_loop_reaches:
  assumes "unat (pc_count cfg) < 2 ^ 64 - 1" "n \<le> unat (pc_count cfg)"
  shows "publish_loop cfg env (of_nat (Suc n)) (pub_after cfg env d n) =
    Some (pub_after cfg env d (unat (pc_count cfg)))"
  using assms(2)
proof (induction "unat (pc_count cfg) - n" arbitrary: n)
  case 0
  then have "n = unat (pc_count cfg)" by simp
  moreover have "unat (of_nat (Suc n) :: u64) = Suc n"
    using assms(1) calculation by (intro unat_of_nat_id) simp
  ultimately have "\<not> of_nat (Suc n) \<le> pc_count cfg" by (simp only: word_le_nat_alt)
  then show ?case using \<open>n = unat (pc_count cfg)\<close> by (simp add: publish_loop.simps)
next
  case (Suc k)
  have "unat (of_nat (Suc n) :: u64) = Suc n" using assms(1) Suc by (intro unat_of_nat_id) simp
  then have "of_nat (Suc n) \<le> pc_count cfg" using Suc by (simp only: word_le_nat_alt)
  moreover have "publish_loop cfg env (of_nat (Suc (Suc n))) (pub_after cfg env d (Suc n)) =
      Some (pub_after cfg env d (unat (pc_count cfg)))"
    using Suc by (intro Suc.hyps) auto
  ultimately show ?case
    by (subst publish_loop.simps) (simp add: published_Suc ac_simps)
qed

lemma publish_returns:
  assumes "unat (pc_count cfg) < 2 ^ 64 - 1"
  shows "publisher_main cfg env d = Some (pub_after cfg env d (unat (pc_count cfg)))"
  using publish_loop_reaches [OF assms, of 0 env d] by (simp add: publisher_main_def)

text \<open>With the largest count the comparison is always true.\<close>

lemma publish_loop_forever: "pc_count cfg = - 1 \<Longrightarrow> publish_loop cfg env seq p = None"
proof (rule ccontr)
  assume c: "pc_count cfg = - 1" and "publish_loop cfg env seq p \<noteq> None"
  then obtain y where "publish_loop cfg env seq p = Some y" by blast
  then have "pc_count cfg \<noteq> - 1"
    by (rule publish_loop.raw_induct [rotated]) (auto split: if_splits)
  then show False using c by simp
qed

section \<open>What is on the wire and what is in the ring\<close>

lemma pub_pace_keeps [simp]:
  "pb_server (pub_pace cfg seq p) = pb_server p" "pb_wire (pub_pace cfg seq p) = pb_wire p"
  "pb_sent (pub_pace cfg seq p) = pb_sent p" "pb_dropped (pub_pace cfg seq p) = pb_dropped p"
  "pb_send_errors (pub_pace cfg seq p) = pb_send_errors p"
  by (simp_all add: pub_pace_def)

lemma pub_transmit_server [simp]: "pb_server (pub_transmit cfg env msg p) = pb_server p"
  by (simp add: pub_transmit_def)

lemma pub_record_keeps [simp]:
  "pb_wire (pub_record cfg msg p) = pb_wire p" "pb_sent (pub_record cfg msg p) = pb_sent p"
  "pb_dropped (pub_record cfg msg p) = pb_dropped p" "pb_send_errors (pub_record cfg msg p) = pb_send_errors p"
  by (simp_all add: pub_record_def)

lemma tm_sequence_pub_message [simp]: "tm_sequence (pub_message cfg env seq) = seq"
  by (simp add: pub_message_def)

lemma published_wire:
  "pb_wire (pub_after cfg env d n) =
     filter (\<lambda>m. \<not> pub_drops cfg (tm_sequence m) \<and> pe_sendto_full env (tm_sequence m)) (generated cfg env n)"
  by (induction n) (auto simp: published_Suc generated_Suc publish_one_def Let_def pub_transmit_def Publisher_def generated_def)

lemma published_counts:
  "pb_sent (pub_after cfg env d n) + pb_dropped (pub_after cfg env d n) + pb_send_errors (pub_after cfg env d n) = of_nat n"
  by (induction n) (auto simp: published_Suc publish_one_def Let_def pub_transmit_def Publisher_def algebra_simps)

lemma consecutive_generated: "n < 2 ^ 64 - 1 \<Longrightarrow> consecutive 1 (generated cfg env n)"
  by (simp add: consecutive_def generated_def)

lemma published_ring:
  assumes "0 < pc_snapshot_port cfg" "n < 2 ^ 64 - 1"
  shows "sv_holds 1 (generated cfg env n) (pb_server (pub_after cfg env d n))"
  using assms(2)
proof (induction n)
  case 0
  then show ?case using sv_holds_new by (simp add: Publisher_def generated_def)
next
  case (Suc n)
  have "sv_holds 1 (generated cfg env n @ [pub_message cfg env (of_nat (Suc n))])
      (sv_record (pub_message cfg env (of_nat (Suc n))) (pb_server (pub_after cfg env d n)))"
    using Suc consecutive_generated [OF Suc.prems, of cfg env]
    by (intro sv_holds_record) (simp_all add: generated_Suc)
  then show ?case
    using assms(1) by (simp add: published_Suc generated_Suc publish_one_def Let_def pub_record_def)
qed

lemma pub_message_price: "int64_range (tm_price (pub_message cfg env seq))"
proof -
  have "0 \<le> uint (seq mod 100)" "uint (seq mod 100) < 100" by (simp_all add: uint_mod)
  then show ?thesis by (simp add: pub_message_def int64_range_def)
qed

text \<open>Every generated tick passes the receiver's validation.\<close>

lemma pub_message_valid: "message_is_valid (pub_message cfg env seq)"
proof -
  have "unat (seq mod 50) < 50" by (simp add: unat_mod)
  then have "unat (100 + seq mod 50) = 100 + unat (seq mod 50)"
    using unat_add_no_wrap [of 100 "seq mod 50"] by simp
  then have "unat (ucast (100 + seq mod 50) :: u32) = 100 + unat (seq mod 50)"
    using \<open>unat (seq mod 50) < 50\<close> by (simp add: unsigned_ucast_eq take_bit_nat_eq_self)
  then have "(ucast (100 + seq mod 50) :: u32) \<noteq> 0" by (metis add_is_0 unsigned_0 zero_neq_numeral)
  then show ?thesis
    by (simp add: message_is_valid_iff word_gt_0 pub_message_def TICK_FLAG_TRADE_def TICK_FLAG_LAST_def)
qed

text \<open>A range that was generated and not yet evicted is recovered exactly.\<close>

lemma published_serves:
  assumes "0 < pc_snapshot_port cfg" "n < 2 ^ 64 - 1" "0 < lo" "lo + k \<le> Suc n" "n < lo + 8192"
  shows "serve_request (pb_server (pub_after cfg env d n)) (of_nat lo) (of_nat k) =
    map (\<lambda>i. pub_message cfg env (of_nat i)) [lo..<lo + k]"
proof -
  have u: "unat (of_nat lo :: u64) = lo" "unat (of_nat k :: u64) = k"
    using assms(2,4) by (intro unat_of_nat_id; simp)+
  have "serve_request (pb_server (pub_after cfg env d n)) (of_nat lo) (of_nat k) =
      take k (drop (lo - 1) (generated cfg env n))"
    using serve_request_exact [OF published_ring [OF assms(1,2)] consecutive_generated [OF assms(2)],
        where from_seq = "of_nat lo" and count = "of_nat k"] u assms by simp
  also have "\<dots> = map (\<lambda>i. pub_message cfg env (of_nat i)) [lo..<lo + k]"
    using assms(3,4) by (intro nth_equalityI) (auto simp: generated_def)
  finally show ?thesis .
qed

end
