(* ===== verification/Tick_Pipeline.thy ===== *)
theory Tick_Pipeline
  imports Tick_Receiver Tick_Publisher
begin

text \<open>
  What the tick pipeline guarantees over every run of the receiver and its workers: the shared counters
  agree with the receiver's own and with what the workers did; no accepted tick is lost, duplicated or
  reordered by the queue, and when the workers have returned all of them were processed, by one worker
  (mutex queue, ring) or by every worker (broadcast ring). Gap detection is exact for ticks that
  arrive in order, and the recovery request for a gap names exactly the missing ticks, which the
  publisher's history ring supplies.
\<close>

section \<open>The queue between the receiver and its workers\<close>

definition all_given :: "(nat \<times> tick_message \<times> u64) list \<Rightarrow> tick_message list" where
  "all_given del = map (\<lambda>(i, m, l). m) del"

definition given_to :: "nat \<Rightarrow> (nat \<times> tick_message \<times> u64) list \<Rightarrow> tick_message list" where
  "given_to i del = all_given (filter (\<lambda>d. fst d = i) del)"

lemma given_simps [simp]:
  "all_given [] = []" "all_given (del @ [(i, m, l)]) = all_given del @ [m]"
  "given_to j [] = []" "given_to j (del @ [(i, m, l)]) = (if i = j then given_to j del @ [m] else given_to j del)"
  by (auto simp: all_given_def given_to_def)

fun be_left :: "nat \<Rightarrow> queue_backend \<Rightarrow> tick_message list" where
  "be_left i (MutexBackend q n) = qm_items q"
| "be_left i (SpscBackend r n) = sr_items r"
| "be_left i (DisruptorBackend f) = mf_backlog i f"

fun be_shut :: "queue_backend \<Rightarrow> bool" where
  "be_shut (MutexBackend q n) = qm_closed q"
| "be_shut (SpscBackend r n) = sr_closed r"
| "be_shut (DisruptorBackend f) = mf_closed f"

text \<open>What the queue accepted is what was handed out followed by what is left; for the broadcast ring
  per reader, as long as its 64-bit cursor has not wrapped.\<close>

fun be_holds :: "nat \<Rightarrow> queue_backend \<Rightarrow> tick_message list \<Rightarrow> (nat \<times> tick_message \<times> u64) list \<Rightarrow> bool" where
  "be_holds n (MutexBackend q m) acc del \<longleftrightarrow> m = n \<and> qm_ok q \<and> acc = all_given del @ qm_items q"
| "be_holds n (SpscBackend r m) acc del \<longleftrightarrow> m = n \<and> sr_ok r \<and> acc = all_given del @ sr_items r"
| "be_holds n (DisruptorBackend f) acc del \<longleftrightarrow> mf_num_readers f = n \<and>
     (length acc < 2 ^ 64 \<longrightarrow> (\<exists>k. mf_ok k f) \<and> unat (mf_write_seq f) = length acc \<and>
        (\<forall>i<n. acc = given_to i del @ mf_backlog i f))"

lemma be_holds_new:
  assumes "make_queue_backend kind capacity n = Some b" "unat capacity \<le> 2 ^ 63"
  shows "be_holds n b [] [] \<and> \<not> be_shut b"
proof (cases kind)
  case QueueKindMutex
  then show ?thesis using assms(1) qm_ok_new by (auto simp: make_queue_backend_def QueueMutex_def)
next
  case QueueKindSpsc
  obtain k r where "SpscRing capacity = Some r" "spsc_shape k r" "sr_head r = 0" "sr_tail r = 0" "\<not> sr_closed r"
    using SpscRing_new [OF assms(2)] by metis
  then show ?thesis using assms(1) QueueKindSpsc
    by (auto simp: make_queue_backend_def sr_ok_def sr_count_def sr_items_def)
next
  case QueueKindDisruptor
  obtain k f where "MpmcFanout capacity n = Some f" "mf_ok k f" "mf_num_readers f = n"
    "\<And>i. i < n \<Longrightarrow> mf_backlog i f = []" "\<not> mf_closed f" "mf_write_seq f = 0"
    using MpmcFanout_new [OF assms(2), of n] by metis
  then show ?thesis using assms(1) QueueKindDisruptor by (auto simp: make_queue_backend_def)
qed

text \<open>The laws of the three adapters, from the contracts of their queues.\<close>

lemma be_push_law:
  assumes "be_holds n b acc del" "be_try_push m b = (st, b')"
  shows "if st = PushOk then be_holds n b' (acc @ [m]) del \<and> \<not> be_shut b \<and> \<not> be_shut b' else b' = b"
proof (cases b)
  case (MutexBackend q w)
  show ?thesis by (rule qm.push_cases [of q m]) (use MutexBackend assms in auto)
next
  case (SpscBackend r w)
  show ?thesis by (rule sr.push_cases [of r m]) (use SpscBackend assms in auto)
next
  case (DisruptorBackend f)
  obtain st' f' where p: "mf_try_push m f = (st', f')" by fastforce
  have st: "st = push_status_of st'" "b' = DisruptorBackend f'" using assms(2) p DisruptorBackend by simp_all
  show ?thesis
  proof (cases "st' = StOk")
    case True
    have "be_holds n b' (acc @ [m]) del" if len: "length (acc @ [m]) < 2 ^ 64"
    proof -
      obtain k where ok: "mf_ok k f" "mf_num_readers f = n" "unat (mf_write_seq f) = length acc"
        "\<forall>i<n. acc = given_to i del @ mf_backlog i f"
        using assms(1) DisruptorBackend len by auto
      have w: "Suc (unat (mf_write_seq f)) < 2 ^ 64" using ok(3) len by simp
      have "f' = mf_put m f" "\<forall>i<mf_num_readers f. mf_count i f < 2 ^ k"
        using mf_try_push_law [OF ok(1) w, of m] p True ok(1)
        by (auto split: if_splits simp: mf_ok_def le_neq_implies_less)
      moreover have "unat (mf_write_seq f + 1) = Suc (unat (mf_write_seq f))"
        using w unat_add_no_wrap [of "mf_write_seq f" 1] by simp
      ultimately show ?thesis
        using mf_put_law [OF ok(1) _ w, where m = m] ok st(2) by (auto simp: mf_put_def [of _ f])
    qed
    moreover have "be_holds n b' (acc @ [m]) del" if "\<not> length (acc @ [m]) < 2 ^ 64"
      using that assms(1) DisruptorBackend p True st(2)
      by (auto simp: mf_try_push_def Let_def mf_num_readers_def split: if_splits)
    moreover have "\<not> mf_closed f \<and> \<not> mf_closed f'" using p True by (auto simp: mf_try_push_def Let_def split: if_splits)
    ultimately show ?thesis using DisruptorBackend st True by auto
  next
    case False
    then have "f' = f" using p by (auto simp: mf_try_push_def Let_def split: if_splits)
    then show ?thesis using False st DisruptorBackend by (cases st') auto
  qed
qed

lemma be_pop_item:
  assumes "be_holds n b acc del" "i < n" "be_pop i b = Some (Some m, b')"
  shows "be_holds n b' acc (del @ [(i, m, l)]) \<and> be_shut b' = be_shut b"
proof (cases b)
  case (MutexBackend q w)
  show ?thesis by (rule qm.pop_cases [of q]) (use MutexBackend assms in auto)
next
  case (SpscBackend r w)
  show ?thesis by (rule sr.pop_cases [of r]) (use SpscBackend assms in auto)
next
  case (DisruptorBackend f)
  obtain f' where p: "mf_pop i f = Some (Some m, f')" "b' = DisruptorBackend f'"
    using assms(3) DisruptorBackend by auto
  have keep: "mf_num_readers f' = mf_num_readers f \<and> mf_closed f' = mf_closed f"
    using p(1) by (auto simp: mf_pop_def mf_try_pop_def Let_def mf_num_readers_def split: if_splits)
  have "be_holds n b' acc (del @ [(i, m, l)])" if len: "length acc < 2 ^ 64"
  proof -
    obtain k where ok: "mf_ok k f" "mf_num_readers f = n" "unat (mf_write_seq f) = length acc"
      "\<forall>i<n. acc = given_to i del @ mf_backlog i f"
      using assms(1) DisruptorBackend len by auto
    show ?thesis
    proof (cases rule: mf_pop_law [OF ok(1), of i])
      case (4 m' g)
      then have eq: "m' = m" "g = f'" using p(1) by simp_all
      have "acc = given_to j (del @ [(i, m, l)]) @ mf_backlog j f'" if "j < n" for j
        using ok(4) that 4(3,4) eq by (cases "j = i") auto
      then show ?thesis using 4 eq p(2) ok keep by auto
    qed (use ok p assms(2) in auto)
  qed
  then show ?thesis using keep p(2) DisruptorBackend assms(1) by (cases "length acc < 2 ^ 64") auto
qed

lemma be_pop_closed:
  assumes "be_holds n b acc del" "be_pop i b = Some (None, b')"
  shows "b' = b \<and> be_shut b \<and> be_left i b = []"
proof (cases b)
  case (MutexBackend q w)
  show ?thesis by (rule qm.pop_cases [of q]) (use MutexBackend assms in auto)
next
  case (SpscBackend r w)
  show ?thesis by (rule sr.pop_cases [of r]) (use SpscBackend assms in auto)
next
  case (DisruptorBackend f)
  then show ?thesis
    using assms by (auto simp: mf_pop_def mf_try_pop_def mf_closed_and_empty_def Let_def mf_backlog_def mf_count_def split: if_splits)
qed

text \<open>A queue that is shut and drained for one consumer stays so while others pop.\<close>

lemma be_pop_left:
  assumes "be_holds n b acc del" "be_pop i b = Some (Some m, b')" "be_left j b = []" "j \<noteq> i"
  shows "be_left j b' = []"
proof (cases b)
  case (MutexBackend q w)
  show ?thesis by (rule qm.pop_cases [of q]) (use MutexBackend assms in auto)
next
  case (SpscBackend r w)
  show ?thesis by (rule sr.pop_cases [of r]) (use SpscBackend assms in auto)
next
  case (DisruptorBackend f)
  then show ?thesis
    using assms by (auto simp: mf_pop_def mf_try_pop_def Let_def mf_backlog_def mf_count_def split: if_splits)
qed

lemma be_close_law:
  assumes "be_holds n b acc del"
  shows "be_holds n (be_close b) acc del" "be_shut (be_close b)" "be_left i (be_close b) = be_left i b"
  using assms
  by (cases b; simp add: qm.close_law sr.close_law;
      simp add: mf_close_def mf_ok_def mf_shape_def mf_num_readers_def mf_count_def mf_backlog_def)+

section \<open>The invariant of the receiver\<close>

definition lats :: "(nat \<times> tick_message \<times> u64) list \<Rightarrow> u64 list" where
  "lats del = map (\<lambda>(i, m, l). l) del"

lemma lats_simps [simp]: "lats [] = []" "lats (del @ [(i, m, l)]) = lats del @ [l]"
  by (simp_all add: lats_def)

definition stats_ok :: "receiver \<Rightarrow> bool" where
  "stats_ok x \<longleftrightarrow> st_received (rx_stats x) = rx_received x \<and> st_invalid (rx_stats x) = rx_invalid x \<and>
     st_sequence_gaps (rx_stats x) = rx_gaps x \<and> st_reorders (rx_stats x) = rx_reorders x \<and>
     st_queue_full (rx_stats x) = rx_queue_full x \<and> st_recovered (rx_stats x) = rx_recovered x \<and>
     st_processed (rx_stats x) = of_nat (length (rx_delivered x)) \<and>
     st_latency_total_ns (rx_stats x) = sum_list (lats (rx_delivered x)) \<and>
     st_latency_max_ns (rx_stats x) = fold max (lats (rx_delivered x)) 0"

definition workers_ok :: "nat \<Rightarrow> receiver \<Rightarrow> bool" where
  "workers_ok n x \<longleftrightarrow> length (rx_workers x) = n \<and>
     (\<forall>i<n. wk_processed (rx_workers x ! i) = of_nat (length (given_to i (rx_delivered x))) \<and>
        (wk_done (rx_workers x ! i) \<longrightarrow> be_shut (rx_backend x) \<and> be_left i (rx_backend x) = []))"

definition rx_ok :: "nat \<Rightarrow> receiver \<Rightarrow> bool" where
  "rx_ok n x \<longleftrightarrow> be_holds n (rx_backend x) (rx_accepted x) (rx_delivered x) \<and> workers_ok n x \<and> stats_ok x \<and>
     length (rx_pending x) \<le> kMaxPendingRecoveries"

lemmas rx_ok_defs = rx_ok_def workers_ok_def stats_ok_def

lemma rx_note_keeps [simp]:
  "rx_stats (rx_note cfg clock t s l w x) = rx_stats x" "rx_backend (rx_note cfg clock t s l w x) = rx_backend x"
  "rx_workers (rx_note cfg clock t s l w x) = rx_workers x" "rx_received (rx_note cfg clock t s l w x) = rx_received x"
  "rx_invalid (rx_note cfg clock t s l w x) = rx_invalid x" "rx_gaps (rx_note cfg clock t s l w x) = rx_gaps x"
  "rx_reorders (rx_note cfg clock t s l w x) = rx_reorders x" "rx_queue_full (rx_note cfg clock t s l w x) = rx_queue_full x"
  "rx_recovered (rx_note cfg clock t s l w x) = rx_recovered x" "rx_last_seq (rx_note cfg clock t s l w x) = rx_last_seq x"
  "rx_have_last (rx_note cfg clock t s l w x) = rx_have_last x" "rx_stop (rx_note cfg clock t s l w x) = rx_stop x"
  "rx_accepted (rx_note cfg clock t s l w x) = rx_accepted x" "rx_delivered (rx_note cfg clock t s l w x) = rx_delivered x"
  by (simp_all add: rx_note_def)

lemma rx_ok_note [simp]: "rx_ok n (rx_note cfg clock t s l w x) = rx_ok n x"
  by (simp add: rx_ok_defs)

lemma rx_ok_init:
  assumes "Receiver kind n ring = Some x"
  shows "rx_ok n x" "\<not> be_shut (rx_backend x)"
proof -
  obtain b where b: "make_queue_backend kind kQueueCapacity n = Some b" "rx_backend x = b"
    using assms by (auto simp: Receiver_def)
  have "be_holds n b [] [] \<and> \<not> be_shut b" using b(1) by (rule be_holds_new) (simp add: kQueueCapacity_def)
  then show "rx_ok n x" "\<not> be_shut (rx_backend x)"
    using assms b by (auto simp: Receiver_def rx_ok_defs shared_stats_reset_def)
qed

lemma rx_ok_worker_step:
  assumes "rx_ok n x"
  shows "rx_ok n (worker_step cfg clock w x)"
proof -
  obtain i fails where w: "w = (i, fails)" by fastforce
  show ?thesis
  proof (cases "i < n \<and> \<not> wk_done (rx_workers x ! i)")
    case True
    show ?thesis
    proof (cases "be_pop i (rx_backend x)")
      case None
      then show ?thesis using assms w by (simp add: worker_step_def)
    next
      case (Some r)
      obtain m b where r: "r = (m, b)" by fastforce
      have holds: "be_holds n (rx_backend x) (rx_accepted x) (rx_delivered x)" and len: "length (rx_workers x) = n"
        using assms by (simp_all add: rx_ok_defs)
      show ?thesis
      proof (cases m)
        case None
        then show ?thesis
          using assms w True Some r be_pop_closed [OF holds] by (auto simp: worker_step_def rx_ok_defs nth_list_update)
      next
        case (Some msg)
        have pop: "be_pop i (rx_backend x) = Some (Some msg, b)" using \<open>be_pop i (rx_backend x) = Some r\<close> r Some by simp
        note item = be_pop_item [OF holds _ pop]
        show ?thesis
          using assms w True pop item be_pop_left [OF holds pop]
          by (auto simp: worker_step_def worker_process_def Let_def rx_ok_defs nth_list_update worker_count_def
              worker_stats_def cas_max max.commute)
      qed
    qed
  next
    case False
    then show ?thesis using assms w by (auto simp: worker_step_def rx_ok_defs)
  qed
qed

lemma rx_ok_workers: "rx_ok n x \<Longrightarrow> rx_ok n (fold (worker_step cfg clock) ws x)"
  by (induction ws arbitrary: x) (simp_all add: rx_ok_worker_step)

lemma rx_ok_counts:
  "rx_ok n (rx_count_invalid cfg clock msg x) = rx_ok n x" "rx_ok n (rx_count_received cfg clock msg x) = rx_ok n x"
  "rx_ok n (rx_count_full cfg clock msg x) = rx_ok n x"
  by (simp_all add: rx_count_invalid_def rx_count_received_def rx_count_full_def) (simp_all add: rx_ok_defs)

lemma rx_ok_track: "rx_ok n x \<Longrightarrow> rx_ok n (rx_track cfg clock s x)"
  by (simp add: rx_track_def rx_gap_def Let_def rx_ok_defs)

lemma rx_ok_accept:
  assumes "rx_ok n x" "be_try_push m (rx_backend x) = (PushOk, b)"
  shows "rx_ok n (x\<lparr>rx_backend := b, rx_accepted := rx_accepted x @ [m]\<rparr>)"
  using assms be_push_law [of n "rx_backend x" "rx_accepted x" "rx_delivered x" m PushOk b]
  by (auto simp: rx_ok_defs)

lemma rx_refuse: "rx_ok n x \<Longrightarrow> be_try_push m (rx_backend x) = (st, b) \<Longrightarrow> st \<noteq> PushOk \<Longrightarrow> b = rx_backend x"
  using be_push_law [of n "rx_backend x" "rx_accepted x" "rx_delivered x" m st b] by (auto simp: rx_ok_def)

lemma rx_ok_stop [simp]: "rx_ok n (x\<lparr>rx_stop := b\<rparr>) = rx_ok n x"
  by (simp add: rx_ok_defs)

lemma rx_ok_enqueue:
  "rx_ok n x \<Longrightarrow> rx_enqueue cfg clock rounds rep msg x = Some x' \<Longrightarrow> rx_ok n x'"
proof (induction rounds arbitrary: rep x)
  case Nil
  then show ?case
    using rx_ok_accept [OF Nil(1), of msg] rx_refuse [OF Nil(1), of msg]
    by (subst (asm) rx_enqueue.simps) (auto split: prod.splits push_status.splits simp: Let_def)
next
  case (Cons r rounds)
  obtain st b where p: "be_try_push msg (rx_backend x) = (st, b)" by fastforce
  show ?case
  proof (cases st)
    case PushFull
    have b: "x\<lparr>rx_backend := b\<rparr> = x" using rx_refuse [OF Cons.prems(1) p] PushFull by simp
    have "rx_ok n (if rep then x else rx_count_full cfg clock msg x)" using Cons.prems(1) by (simp add: rx_ok_counts)
    then show ?thesis
      using Cons.prems(2) p PushFull
      by (subst (asm) rx_enqueue.simps)
        (auto simp: Let_def b split: prod.splits if_splits intro: Cons.IH [OF rx_ok_workers])
  qed (use Cons.prems p rx_ok_accept [OF Cons.prems(1), of msg] rx_refuse [OF Cons.prems(1) p] in
      \<open>simp_all add: rx_enqueue.simps\<close>, auto)
qed

lemma rx_ok_depth [simp]: "rx_ok n (x\<lparr>rx_stats := (rx_stats x)\<lparr>st_queue_depth := v\<rparr>\<rparr>) = rx_ok n x"
  by (simp add: rx_ok_defs)

lemma rx_ok_process_one: "rx_ok n x \<Longrightarrow> process_one cfg clock d x = Some x' \<Longrightarrow> rx_ok n x'"
  by (auto simp: process_one_def rx_ok_counts split: prod.splits if_splits option.splits
      dest!: rx_ok_enqueue [rotated] intro: rx_ok_track)

lemma rx_ok_push_recovered: "rx_ok n x \<Longrightarrow> rx_ok n (push_recovered cfg clock m x)"
  using rx_ok_accept [of n x m] rx_refuse [of n x m]
  by (auto simp: push_recovered_def rx_ok_defs split: prod.splits)

lemma rx_ok_recovered: "rx_ok n x \<Longrightarrow> rx_ok n (fold (push_recovered cfg clock) ms x)"
  by (induction ms arbitrary: x) (simp_all add: rx_ok_push_recovered)

lemma rx_ok_drain: "rx_ok n x \<Longrightarrow> rx_ok n (drain_recoveries cfg clock ans k i x)"
proof (induction cfg clock ans k i x rule: drain_recoveries.induct)
  case (1 cfg clock ans k i x)
  show ?case
  proof (cases "i < length (rx_pending x)")
    case True
    show ?thesis
    proof (cases "ans k (rx_pending x ! i)")
      case None
      then show ?thesis using 1 True by (simp add: drain_recoveries.simps [of _ _ _ k i x])
    next
      case (Some msgs)
      let ?y = "fold (push_recovered cfg clock) msgs x"
      have "rx_ok n (?y\<lparr>rx_pending := butlast ((rx_pending ?y)[i := last (rx_pending ?y)])\<rparr>)"
        using rx_ok_recovered [OF 1(3), of cfg clock msgs] by (auto simp: rx_ok_defs)
      then show ?thesis using 1(2) [OF True Some refl] True Some
        by (simp add: drain_recoveries.simps [of _ _ _ k i x] Let_def)
    qed
  next
    case False
    then show ?thesis using 1(3) by (simp add: drain_recoveries.simps [of _ _ _ k i x])
  qed
qed

lemma rx_ok_rx_drain: "rx_ok n x \<Longrightarrow> rx_ok n (rx_drain cfg clock ans x)"
  by (simp add: rx_drain_def rx_ok_drain)

lemma rx_ok_batch: "rx_ok n x \<Longrightarrow> process_batch cfg clock ds x = Some x' \<Longrightarrow> rx_ok n x'"
  by (induction ds arbitrary: x) (auto split: option.splits dest: rx_ok_process_one)

lemma rx_ok_loop: "rx_ok n x \<Longrightarrow> rx_loop cfg clock es x = Some (e, x') \<Longrightarrow> rx_ok n x'"
proof (induction cfg clock es x rule: rx_loop.induct)
  case (2 cfg clock ds ans es x)
  then show ?case
    by (auto simp: Let_def split: option.splits if_splits intro: rx_ok_rx_drain dest: rx_ok_batch)
qed (auto simp: rx_ok_workers split: if_splits)

lemma rx_ok_close: "rx_ok n x \<Longrightarrow> rx_ok n (x\<lparr>rx_backend := be_close (rx_backend x)\<rparr>)"
  using be_close_law [of n "rx_backend x" "rx_accepted x" "rx_delivered x"] by (auto simp: rx_ok_defs)

lemma rx_ok_shutdown: "rx_ok n x \<Longrightarrow> rx_ok n (rx_shutdown cfg clock ans ws x)"
  by (simp add: rx_shutdown_def Let_def rx_ok_workers rx_ok_close rx_ok_rx_drain)

section \<open>Every accepted tick is processed\<close>

text \<open>When all workers have returned, nothing is left.\<close>

fun be_broadcast :: "queue_backend \<Rightarrow> bool" where
  "be_broadcast (DisruptorBackend f) = True"
| "be_broadcast _ = False"

lemma drained_all:
  assumes "rx_ok n x" "0 < n" "\<forall>i<n. wk_done (rx_workers x ! i)" "length (rx_accepted x) < 2 ^ 64"
  shows "if be_broadcast (rx_backend x) then \<forall>i<n. given_to i (rx_delivered x) = rx_accepted x
    else all_given (rx_delivered x) = rx_accepted x"
proof -
  have "\<forall>i<n. be_left i (rx_backend x) = []" using assms(1,3) by (simp add: rx_ok_defs)
  then show ?thesis using assms(1,2,4) by (cases "rx_backend x") (auto simp: rx_ok_def)
qed

text \<open>After the queue was closed every step of a worker that has not returned makes progress, so that a
  schedule which runs each worker often enough ends with all of them returned.\<close>

definition worker_runs :: "nat \<Rightarrow> (nat \<times> bool list) list \<Rightarrow> nat" where
  "worker_runs i ws = length (filter (\<lambda>w. fst w = i) ws)"

lemma given_bounded:
  assumes "rx_ok n x" "i < n" "length (rx_accepted x) < 2 ^ 64"
  shows "length (given_to i (rx_delivered x)) \<le> length (rx_accepted x)"
proof (cases "rx_backend x")
  case (DisruptorBackend f)
  then have "rx_accepted x = given_to i (rx_delivered x) @ mf_backlog i f" using assms by (auto simp: rx_ok_def)
  then show ?thesis by simp
qed (use assms in \<open>auto simp: rx_ok_def given_to_def all_given_def intro: le_trans [OF length_filter_le]\<close>)

lemma be_pop_shut: "be_shut b \<Longrightarrow> be_pop i b \<noteq> None"
  by (cases b) (auto simp: qm_pop_def sr_pop_def sr_try_pop_def sr_closed_and_empty_def mf_pop_def mf_try_pop_def
      mf_closed_and_empty_def Let_def)

lemma worker_step_progress:
  assumes "rx_ok n x" "be_shut (rx_backend x)" "y = worker_step cfg clock (i, fails) x"
  shows "be_shut (rx_backend y)" "rx_accepted y = rx_accepted x"
    "\<And>j. j < n \<Longrightarrow> wk_done (rx_workers x ! j) \<Longrightarrow> wk_done (rx_workers y ! j)"
    "\<And>j. length (given_to j (rx_delivered x)) \<le> length (given_to j (rx_delivered y))"
    "i < n \<Longrightarrow> wk_done (rx_workers y ! i) \<or> length (given_to i (rx_delivered y)) = Suc (length (given_to i (rx_delivered x)))"
proof -
  have holds: "be_holds n (rx_backend x) (rx_accepted x) (rx_delivered x)" "length (rx_workers x) = n"
    using assms(1) by (auto simp: rx_ok_defs)
  obtain m b where pop: "be_pop i (rx_backend x) = Some (m, b)" using be_pop_shut [OF assms(2), of i] by auto
  have shut: "be_shut b" if "i < n"
    using be_pop_item [OF holds(1) that, of _ b] be_pop_closed [OF holds(1), of i b] pop assms(2) by (cases m) auto
  show "be_shut (rx_backend y)" "rx_accepted y = rx_accepted x"
    "\<And>j. j < n \<Longrightarrow> wk_done (rx_workers x ! j) \<Longrightarrow> wk_done (rx_workers y ! j)"
    "\<And>j. length (given_to j (rx_delivered x)) \<le> length (given_to j (rx_delivered y))"
    "i < n \<Longrightarrow> wk_done (rx_workers y ! i) \<or> length (given_to i (rx_delivered y)) = Suc (length (given_to i (rx_delivered x)))"
    using pop holds(2) assms(2) shut
    by (cases m; auto simp: assms(3) worker_step_def worker_process_def Let_def nth_list_update worker_count_def)+
qed

lemma workers_return:
  assumes "rx_ok n x" "be_shut (rx_backend x)" "length (rx_accepted x) < 2 ^ 64" "i < n"
    "length (rx_accepted x) < length (given_to i (rx_delivered x)) + worker_runs i ws"
  shows "wk_done (rx_workers (fold (worker_step cfg clock) ws x) ! i)"
proof -
  have stay: "rx_ok n x \<Longrightarrow> be_shut (rx_backend x) \<Longrightarrow> wk_done (rx_workers x ! i) \<Longrightarrow>
      wk_done (rx_workers (fold (worker_step cfg clock) ws x) ! i)" for ws x
  proof (induction ws arbitrary: x)
    case (Cons w ws)
    then show ?case
      using worker_step_progress(1,3) [of n x _ cfg clock "fst w" "snd w"] assms(4) rx_ok_worker_step [of n x cfg clock w] by simp
  qed simp
  show ?thesis
    using assms(1,2,3,5)
  proof (induction ws arbitrary: x)
    case Nil
    then show ?case using given_bounded [OF Nil(1) assms(4)] by (simp add: worker_runs_def)
  next
    case (Cons w ws)
    note step = worker_step_progress [OF Cons.prems(1,2), of "worker_step cfg clock w x" cfg clock "fst w" "snd w", simplified]
    let ?y = "worker_step cfg clock w x"
    show ?case
    proof (cases "wk_done (rx_workers ?y ! i)")
      case True
      then show ?thesis using stay [OF rx_ok_worker_step [OF Cons.prems(1)] step(1)] by simp
    next
      case False
      have "length (rx_accepted ?y) < length (given_to i (rx_delivered ?y)) + worker_runs i ws"
        using Cons.prems(4) step(2) step(4) [of i] step(5) False assms(4)
        by (cases "fst w = i") (auto simp: worker_runs_def)
      then show ?thesis
        using Cons.IH [OF rx_ok_worker_step [OF Cons.prems(1)] step(1)] step(2) Cons.prems(3) by simp
    qed
  qed
qed

section \<open>Gaps and reorders\<close>

text \<open>The tracking part of the receiver's state and its reference update: \<open>(have_last, last_seq, gaps,
  reorders)\<close>.\<close>

definition tracking :: "receiver \<Rightarrow> bool \<times> u64 \<times> u64 \<times> u64" where
  "tracking x = (rx_have_last x, rx_last_seq x, rx_gaps x, rx_reorders x)"

fun seq_step :: "u64 \<Rightarrow> bool \<times> u64 \<times> u64 \<times> u64 \<Rightarrow> bool \<times> u64 \<times> u64 \<times> u64" where
  "seq_step s (have, lst, gaps, reorders) =
     (True, s, if have \<and> lst + 1 < s then gaps + (s - (lst + 1)) else gaps,
      if have \<and> \<not> lst + 1 < s \<and> s < lst then reorders + 1 else reorders)"

lemma tracking_note [simp]: "tracking (rx_note cfg clock t s l w x) = tracking x"
  by (simp add: tracking_def)

lemma tracking_track: "tracking (rx_track cfg clock s x) = seq_step s (tracking x)"
  by (simp add: rx_track_def rx_gap_def Let_def tracking_def)

lemma tracking_worker_step [simp]: "tracking (worker_step cfg clock w x) = tracking x"
  by (auto simp: worker_step_def worker_process_def Let_def split: prod.splits option.splits) (auto simp: tracking_def)

lemma tracking_workers [simp]: "tracking (fold (worker_step cfg clock) ws x) = tracking x"
  by (induction ws arbitrary: x) simp_all

lemma tracking_counts [simp]:
  "tracking (rx_count_invalid cfg clock m x) = tracking x" "tracking (rx_count_received cfg clock m x) = tracking x"
  "tracking (rx_count_full cfg clock m x) = tracking x"
  by (simp_all add: rx_count_invalid_def rx_count_received_def rx_count_full_def) (simp_all add: tracking_def)

lemma tracking_updates [simp]:
  "tracking (x\<lparr>rx_backend := b\<rparr>) = tracking x" "tracking (x\<lparr>rx_accepted := a\<rparr>) = tracking x"
  "tracking (x\<lparr>rx_stop := c\<rparr>) = tracking x" "tracking (x\<lparr>rx_stats := st\<rparr>) = tracking x"
  "tracking (x\<lparr>rx_pending := p\<rparr>) = tracking x" "tracking (x\<lparr>rx_recovered := r\<rparr>) = tracking x"
  by (simp_all add: tracking_def)

lemma tracking_enqueue: "rx_enqueue cfg clock rounds rep msg x = Some x' \<Longrightarrow> tracking x' = tracking x"
proof (induction rounds arbitrary: rep x)
  case Nil
  then show ?case by (subst (asm) rx_enqueue.simps) (auto split: prod.splits push_status.splits simp: Let_def)
next
  case (Cons r rounds)
  then show ?case
    by (subst (asm) (2) rx_enqueue.simps)
      (auto split: prod.splits push_status.splits if_splits simp: Let_def dest!: Cons.IH)
qed

lemma tracking_recovered [simp]: "tracking (fold (push_recovered cfg clock) ms x) = tracking x"
proof (induction ms arbitrary: x)
  case (Cons m ms)
  have "tracking (push_recovered cfg clock m x) = tracking x" by (simp add: push_recovered_def split: prod.splits)
  then show ?case using Cons by simp
qed simp

lemma tracking_drain [simp]: "tracking (rx_drain cfg clock ans x) = tracking x"
proof -
  have "tracking (drain_recoveries cfg clock ans k i x) = tracking x" for k i
    by (induction cfg clock ans k i x rule: drain_recoveries.induct)
      (subst drain_recoveries.simps, simp add: Let_def split: option.splits)
  then show ?thesis by (simp add: rx_drain_def)
qed

definition accepted_input :: "datagram \<Rightarrow> bool" where
  "accepted_input d = (case d of (msg, sz, rounds) \<Rightarrow> sz = TICK_MESSAGE_EXPECTED_SIZE \<and> message_is_valid msg)"

definition input_seqs :: "datagram list \<Rightarrow> u64 list" where
  "input_seqs ds = map (\<lambda>d. tm_sequence (fst d)) (filter accepted_input ds)"

lemma tracking_process_one:
  "process_one cfg clock d x = Some x' \<Longrightarrow> tracking x' = fold seq_step (input_seqs [d]) (tracking x)"
  by (auto simp: process_one_def input_seqs_def accepted_input_def tracking_track
      split: prod.splits if_splits option.splits dest!: tracking_enqueue)

lemma tracking_batch:
  "process_batch cfg clock ds x = Some x' \<Longrightarrow> tracking x' = fold seq_step (input_seqs ds) (tracking x)"
proof (induction ds arbitrary: x)
  case (Cons d ds)
  then obtain y where "process_one cfg clock d x = Some y" "process_batch cfg clock ds y = Some x'"
    by (auto split: option.splits)
  then have "tracking x' = fold seq_step (input_seqs ds) (fold seq_step (input_seqs [d]) (tracking x))"
    using Cons.IH tracking_process_one by metis
  then show ?case by (simp add: input_seqs_def split: if_splits)
qed (simp add: input_seqs_def)

text \<open>For numbers that arrive in order the gap counter is the number of missing ones.\<close>

lemma sorted_within:
  assumes "sorted_wrt (<) (ss :: u64 list)" "ss \<noteq> []"
  shows "card (unat ` set ss) = length ss" "unat ` set ss \<subseteq> {unat (hd ss)..unat (last ss)}"
proof -
  have "sorted_wrt (<) (map unat ss)"
    by (simp add: sorted_wrt_map) (rule sorted_wrt_mono_rel [OF _ assms(1)], simp add: word_less_nat_alt)
  then have d: "distinct (map unat ss)" and s: "sorted (map unat ss)" by (auto simp: strict_sorted_iff)
  show "card (unat ` set ss) = length ss" using distinct_card [OF d] by simp
  show "unat ` set ss \<subseteq> {unat (hd ss)..unat (last ss)}"
  proof
    fix y
    assume "y \<in> unat ` set ss"
    then obtain i where "i < length ss" "y = unat (ss ! i)" by (auto simp: in_set_conv_nth)
    then show "y \<in> {unat (hd ss)..unat (last ss)}"
      using sorted_nth_mono [OF s, of 0 i] sorted_nth_mono [OF s, of i "length ss - 1"] assms(2)
      by (auto simp: hd_conv_nth last_conv_nth)
  qed
qed

lemma missing_count:
  assumes "sorted_wrt (<) (ss :: u64 list)" "ss \<noteq> []"
  shows "card ({unat (hd ss)..unat (last ss)} - unat ` set ss) = Suc (unat (last ss)) - unat (hd ss) - length ss"
  using sorted_within [OF assms] by (simp add: card_Diff_subset)

lemma sorted_span:
  assumes "sorted_wrt (<) (ss :: u64 list)" "ss \<noteq> []"
  shows "length ss \<le> Suc (unat (last ss)) - unat (hd ss)" "unat (hd ss) \<le> unat (last ss)"
proof -
  show "length ss \<le> Suc (unat (last ss)) - unat (hd ss)"
    using card_mono [OF _ sorted_within(2) [OF assms]] sorted_within(1) [OF assms] by simp
  then show "unat (hd ss) \<le> unat (last ss)" using assms(2) by (cases ss) auto
qed

lemma seq_in_order:
  assumes "sorted_wrt (<) ss" "ss \<noteq> []"
  shows "fold seq_step ss (False, l, 0, 0) =
    (True, last ss, of_nat (Suc (unat (last ss)) - unat (hd ss) - length ss), 0)"
  using assms
proof (induction ss rule: rev_induct)
  case (snoc s ss)
  show ?case
  proof (cases "ss = []")
    case False
    let ?l = "unat (last ss)"
    have sorted: "sorted_wrt (<) ss" and lt: "last ss < s" using snoc.prems False by (auto simp: sorted_wrt_append)
    note span = sorted_span [OF sorted False]
    have u: "unat (last ss + 1) = Suc ?l" using lt by (rule unat_Suc_less)
    have le: "Suc ?l \<le> unat s" using lt by (simp add: word_less_nat_alt)
    then have "last ss + 1 \<le> s" using u by (simp add: word_le_nat_alt)
    then have "(if last ss + 1 < s then of_nat g + (s - (last ss + 1)) else of_nat g) =
        (of_nat (g + (unat s - Suc ?l)) :: u64)" for g
      using le u by (cases "last ss + 1 = s") (auto simp: of_nat_diff)
    moreover have "Suc ?l - unat (hd ss) - length ss + (unat s - Suc ?l) = Suc (unat s) - unat (hd ss) - Suc (length ss)"
      using span le by linarith
    ultimately show ?thesis
      using snoc.IH [OF sorted False] False lt by (simp add: less_not_sym del: of_nat_add)
  qed simp
qed simp

text \<open>After a reordered tick the receiver restarts from the smaller number, and counts the ticks that
  it has already seen as missing again.\<close>

lemma seq_reordered:
  assumes "unat a + 3 < 2 ^ 64"
  shows "fold seq_step [a, a + 2, a + 1, a + 3] (False, l, 0, 0) = (True, a + 3, 2, 1)"
proof -
  have u: "unat (a + of_nat i :: u64) = unat a + i" if "i \<le> 3" for i
    using unat_seq [OF assms that] .
  have "unat (a + 1) = unat a + 1" "unat (a + 2) = unat a + 2" "unat (a + 3) = unat a + 3"
    using u [of 1] u [of 2] u [of 3] by simp_all
  then show ?thesis by (simp add: word_less_nat_alt add.assoc)
qed

section \<open>A gap is requested and repaired\<close>

lemma rx_track_request:
  assumes "rc_snapshot_enabled cfg" "rx_have_last x" "length (rx_pending x) < kMaxPendingRecoveries"
    "rx_last_seq x + 1 < s"
  shows "rx_pending (rx_track cfg clock s x) = rx_pending x @ [(rx_last_seq x + 1, s - (rx_last_seq x + 1))]"
  using assms by (simp add: rx_track_def rx_gap_def Let_def)

lemma rx_pending_bounded: "rx_ok n x \<Longrightarrow> length (rx_pending x) \<le> 8"
  by (simp add: rx_ok_def kMaxPendingRecoveries_def)

text \<open>The reply that the publisher's ring gives to the request for the numbers between \<open>lo\<close> and \<open>hi\<close>: the
  first 4096 of them.\<close>

lemma published_capped:
  assumes "0 < pc_snapshot_port pc" "n < 2 ^ 64 - 1" "0 < lo" "lo + k \<le> Suc n" "n < lo + 8192"
  shows "serve_request (pb_server (pub_after pc env d n)) (of_nat lo) (capped (of_nat k)) =
    map (\<lambda>i. pub_message pc env (of_nat i)) [lo..<lo + min k 4096]"
  using published_serves [OF assms(1-3), of "min k 4096" env d] assms(2,4,5) by (simp add: capped_min)

lemma published_repairs:
  assumes "0 < pc_snapshot_port pc" "n < 2 ^ 64 - 1" "0 < lo" "lo < hi" "hi \<le> Suc n" "n < lo + 8192"
    "\<And>i. length (pads i) = 4" "[] \<notin> set segs" "\<And>n. n \<le> 4096 \<Longrightarrow> alloc n"
    "concat segs = reply_image pads (serve_request (pb_server (pub_after pc env d n)) (of_nat lo) (capped (of_nat (hi - lo))))"
    "fst (send_full (u64_le (of_nat lo) @ u64_le (of_nat (hi - lo))) sends)"
  shows "snd (request_snapshot_recovery alloc True (of_nat lo) (of_nat (hi - lo)) sends segs) =
    Some (map (\<lambda>i. pub_message pc env (of_nat i)) [lo..<lo + min (hi - lo) 4096])"
proof -
  have serve: "serve_request (pb_server (pub_after pc env d n)) (of_nat lo) (capped (of_nat (hi - lo))) =
      map (\<lambda>i. pub_message pc env (of_nat i)) [lo..<lo + min (hi - lo) 4096]"
    using assms(4-6) by (intro published_capped assms(1-3)) simp_all
  show ?thesis
    using recovery_complete [OF assms(7) _ assms(8,10,11,9)] unfolding serve by (auto simp: pub_message_price)
qed

end
