(* ===== verification/Tick_Run.thy ===== *)
theory Tick_Run
  imports Tick_Pipeline "HOL-Library.Sublist"
begin

text \<open>
  Whole runs of the receiver, from its constructor on. A locale lifts any property of the queue that
  its operations keep to the receive loop; with it, the kind of the queue and its capacity are those of
  the constructor. Shown: every valid tick that is received is accepted, in order of arrival, until a
  stop is requested; a full queue accepts the tick that waits as soon as each worker took one message;
  the counters of gaps and reorderings over a run are those of the sequence of numbers received.
\<close>

section \<open>Properties of the queue over a run\<close>

locale backend_invariant =
  fixes good :: "queue_backend \<Rightarrow> bool"
  assumes push_good: "good b \<Longrightarrow> be_try_push m b = (st, b') \<Longrightarrow> good b'"
    and pop_good: "good b \<Longrightarrow> be_pop i b = Some (r, b') \<Longrightarrow> good b'"
    and close_good: "good b \<Longrightarrow> good (be_close b)"

begin

lemma worker_step_good: "good (rx_backend x) \<Longrightarrow> good (rx_backend (worker_step cfg clock w x))"
  using pop_good by (auto simp: worker_step_def worker_process_def Let_def split: prod.splits option.splits)

lemma workers_good: "good (rx_backend x) \<Longrightarrow> good (rx_backend (fold (worker_step cfg clock) ws x))"
  by (induction ws arbitrary: x) (simp_all add: worker_step_good)

lemma counts_good:
  "rx_backend (rx_count_invalid cfg clock m x) = rx_backend x" "rx_backend (rx_count_received cfg clock m x) = rx_backend x"
  "rx_backend (rx_count_full cfg clock m x) = rx_backend x" "rx_backend (rx_track cfg clock s x) = rx_backend x"
  by (simp_all add: rx_count_invalid_def rx_count_received_def rx_count_full_def rx_track_def rx_gap_def Let_def)

lemma enqueue_good:
  "good (rx_backend x) \<Longrightarrow> rx_enqueue cfg clock rounds rep msg x = Some x' \<Longrightarrow> good (rx_backend x')"
proof (induction rounds arbitrary: rep x)
  case Nil
  then show ?case
    using push_good [OF Nil(1), of msg]
    by (subst (asm) rx_enqueue.simps) (auto split: prod.splits push_status.splits simp: Let_def)
next
  case (Cons r rounds)
  obtain st b where p: "be_try_push msg (rx_backend x) = (st, b)" by fastforce
  have b: "good b" using push_good [OF Cons.prems(1) p] .
  show ?case
    using Cons.prems(2) p b
    by (subst (asm) rx_enqueue.simps)
      (auto simp: Let_def counts_good split: prod.splits if_splits push_status.splits dest!: Cons.IH [rotated] intro: workers_good)
qed

lemma process_one_good: "good (rx_backend x) \<Longrightarrow> process_one cfg clock d x = Some x' \<Longrightarrow> good (rx_backend x')"
  by (auto simp: process_one_def counts_good split: prod.splits if_splits option.splits dest!: enqueue_good [rotated])

lemma batch_good: "good (rx_backend x) \<Longrightarrow> process_batch cfg clock ds x = Some x' \<Longrightarrow> good (rx_backend x')"
  by (induction ds arbitrary: x) (auto split: option.splits dest: process_one_good)

lemma push_recovered_good: "good (rx_backend x) \<Longrightarrow> good (rx_backend (push_recovered cfg clock m x))"
  using push_good by (auto simp: push_recovered_def split: prod.splits)

lemma recovered_good: "good (rx_backend x) \<Longrightarrow> good (rx_backend (fold (push_recovered cfg clock) ms x))"
  by (induction ms arbitrary: x) (simp_all add: push_recovered_good)

lemma drain_good: "good (rx_backend x) \<Longrightarrow> good (rx_backend (rx_drain cfg clock ans x))"
proof -
  have "good (rx_backend x) \<Longrightarrow> good (rx_backend (drain_recoveries cfg clock ans k i x))" for k i
    by (induction cfg clock ans k i x rule: drain_recoveries.induct)
      (subst drain_recoveries.simps, auto simp: Let_def recovered_good split: option.splits)
  then show "good (rx_backend x) \<Longrightarrow> good (rx_backend (rx_drain cfg clock ans x))" by (simp add: rx_drain_def)
qed

lemma loop_good: "good (rx_backend x) \<Longrightarrow> rx_loop cfg clock es x = Some (e, x') \<Longrightarrow> good (rx_backend x')"
  by (induction cfg clock es x rule: rx_loop.induct)
    (auto simp: Let_def workers_good split: option.splits if_splits dest: batch_good intro: drain_good)

lemma shutdown_good: "good (rx_backend x) \<Longrightarrow> good (rx_backend (rx_shutdown cfg clock ans ws x))"
  by (simp add: rx_shutdown_def Let_def workers_good close_good drain_good)

end

text \<open>The kind of a queue, and that it can hold a message at all.\<close>

fun be_kind :: "queue_backend \<Rightarrow> queue_kind" where
  "be_kind (MutexBackend q n) = QueueKindMutex"
| "be_kind (SpscBackend r n) = QueueKindSpsc"
| "be_kind (DisruptorBackend f) = QueueKindDisruptor"

fun be_roomy :: "queue_backend \<Rightarrow> bool" where
  "be_roomy (MutexBackend q n) \<longleftrightarrow> 0 < qm_capacity q"
| "be_roomy _ \<longleftrightarrow> True"

interpretation kind: backend_invariant "\<lambda>b. be_kind b = k \<and> be_roomy b" for k
proof
  fix b :: queue_backend and m st b'
  assume "be_kind b = k \<and> be_roomy b" "be_try_push m b = (st, b')"
  then show "be_kind b' = k \<and> be_roomy b'"
    by (cases b) (auto simp: qm_try_push_def qm_put_def split: prod.splits if_splits)
next
  fix b :: queue_backend and i r b'
  assume "be_kind b = k \<and> be_roomy b" "be_pop i b = Some (r, b')"
  then show "be_kind b' = k \<and> be_roomy b'"
    by (cases b) (auto simp: qm_pop_def split: if_splits)
next
  fix b :: queue_backend
  assume "be_kind b = k \<and> be_roomy b"
  then show "be_kind (be_close b) = k \<and> be_roomy (be_close b)" by (cases b) (auto simp: qm_close_def)
qed

lemma Receiver_kind: "Receiver kind n ring = Some x \<Longrightarrow> be_kind (rx_backend x) = kind \<and> be_roomy (rx_backend x)"
  by (cases kind) (auto simp: Receiver_def make_queue_backend_def QueueMutex_def kQueueCapacity_def)

lemma be_broadcast_kind: "be_broadcast b \<longleftrightarrow> be_kind b = QueueKindDisruptor"
  by (cases b) auto

lemma Receiver_exists: "\<exists>x. Receiver kind n ring = Some x"
proof -
  have c: "unat kQueueCapacity \<le> 2 ^ 63" by (simp add: kQueueCapacity_def)
  obtain p where "next_pow2 kQueueCapacity = Some p" by (rule next_pow2_result [OF c]) blast
  then show ?thesis
    by (cases kind) (auto simp: Receiver_def make_queue_backend_def SpscRing_def MpmcFanout_def)
qed

section \<open>Valid ticks are accepted\<close>

definition intake :: "receiver \<Rightarrow> tick_message list \<times> bool" where
  "intake x = (rx_accepted x, rx_stop x)"

lemma intake_note [simp]: "intake (rx_note cfg clock t s l w x) = intake x"
  by (simp add: intake_def)

lemma intake_updates [simp]:
  "intake (x\<lparr>rx_backend := b\<rparr>) = intake x" "intake (x\<lparr>rx_stats := st\<rparr>) = intake x"
  "intake (x\<lparr>rx_pending := p\<rparr>) = intake x" "intake (x\<lparr>rx_workers := v\<rparr>) = intake x"
  by (simp_all add: intake_def)

lemma intake_worker_step [simp]: "intake (worker_step cfg clock w x) = intake x"
  by (auto simp: worker_step_def worker_process_def Let_def intake_def split: prod.splits option.splits)

lemma intake_workers [simp]: "intake (fold (worker_step cfg clock) ws x) = intake x"
  by (induction ws arbitrary: x) simp_all

lemma intake_counts [simp]:
  "intake (rx_count_invalid cfg clock m x) = intake x" "intake (rx_count_received cfg clock m x) = intake x"
  "intake (rx_count_full cfg clock m x) = intake x" "intake (rx_track cfg clock s x) = intake x"
  by (simp_all add: rx_count_invalid_def rx_count_received_def rx_count_full_def rx_track_def rx_gap_def Let_def intake_def)

lemma intake_stop: "intake x = intake y \<Longrightarrow> rx_stop x = rx_stop y"
  by (simp add: intake_def)

text \<open>The retry loop ends with the tick accepted, or with a stop.\<close>

lemma intake_enqueue:
  "rx_enqueue cfg clock rounds rep msg x = Some x' \<Longrightarrow>
     intake x' = (rx_accepted x @ [msg], rx_stop x) \<or> intake x' = (rx_accepted x, True)"
proof (induction rounds arbitrary: rep x)
  case Nil
  then show ?case
    by (subst (asm) rx_enqueue.simps) (auto simp: intake_def Let_def split: prod.splits push_status.splits)
next
  case (Cons r rounds)
  obtain st b where p: "be_try_push msg (rx_backend x) = (st, b)" by fastforce
  define x1 where "x1 = (if rep then x\<lparr>rx_backend := b\<rparr> else rx_count_full cfg clock msg (x\<lparr>rx_backend := b\<rparr>))"
  have x1: "intake x1 = intake x" by (simp add: x1_def)
  show ?case
  proof (cases "st = PushFull \<and> \<not> (fst r \<or> rx_stop x1)")
    case True
    let ?y = "fold (worker_step cfg clock) (snd r) x1"
    have "rx_enqueue cfg clock rounds True msg ?y = Some x'"
      using Cons.prems p True by (subst (asm) rx_enqueue.simps) (simp add: x1_def [symmetric] split: prod.splits)
    from Cons.IH [OF this] have "intake x' = (rx_accepted ?y @ [msg], rx_stop ?y) \<or> intake x' = (rx_accepted ?y, True)" .
    moreover have "intake ?y = intake x" using x1 by simp
    ultimately show ?thesis by (simp add: intake_def)
  next
    case False
    then show ?thesis
      using Cons.prems p x1
      by (subst (asm) rx_enqueue.simps)
        (cases st; auto simp: x1_def [symmetric] intake_def split: prod.splits)
  qed
qed

definition input_ticks :: "datagram list \<Rightarrow> tick_message list" where
  "input_ticks ds = map fst (filter accepted_input ds)"

lemma input_ticks_simps [simp]:
  "input_ticks [] = []" "input_ticks (d # ds) = (if accepted_input d then [fst d] else []) @ input_ticks ds"
  "input_ticks (ds @ es) = input_ticks ds @ input_ticks es"
  by (simp_all add: input_ticks_def)

lemma intake_process_one:
  assumes "process_one cfg clock d x = Some x'"
  shows "intake x' = (rx_accepted x @ input_ticks [d], rx_stop x) \<or> intake x' = (rx_accepted x, True)"
proof -
  obtain msg sz rounds where d: "d = (msg, sz, rounds)" by (cases d)
  show ?thesis
  proof (cases "accepted_input d")
    case True
    let ?x = "rx_track cfg clock (tm_sequence msg) (rx_count_received cfg clock msg x)"
    obtain y where y: "rx_enqueue cfg clock rounds False msg ?x = Some y" "intake x' = intake y"
      using assms d True by (auto simp: process_one_def accepted_input_def split: option.splits)
    have "intake ?x = intake x" by simp
    then show ?thesis using intake_enqueue [OF y(1)] y(2) True d by (simp add: intake_def)
  next
    case False
    then have "x' = rx_count_invalid cfg clock msg x"
      using assms d by (auto simp: process_one_def accepted_input_def)
    then have "intake x' = intake x" by simp
    then show ?thesis using False by (simp add: intake_def)
  qed
qed

lemma intake_batch:
  "process_batch cfg clock ds x = Some x' \<Longrightarrow> prefix (rx_accepted x) (rx_accepted x') \<and> (rx_stop x \<longrightarrow> rx_stop x') \<and>
     (\<not> rx_stop x' \<longrightarrow> rx_accepted x' = rx_accepted x @ input_ticks ds)"
proof (induction ds arbitrary: x)
  case (Cons d ds)
  then obtain y where y: "process_one cfg clock d x = Some y" "process_batch cfg clock ds y = Some x'"
    by (auto split: option.splits)
  show ?case using intake_process_one [OF y(1)] Cons.IH [OF y(2)] by (auto simp: intake_def prefix_def)
qed simp

lemma intake_recovered:
  "prefix (rx_accepted x) (rx_accepted (fold (push_recovered cfg clock) ms x)) \<and>
     rx_stop (fold (push_recovered cfg clock) ms x) = rx_stop x"
proof (induction ms arbitrary: x)
  case (Cons m ms)
  have "prefix (rx_accepted x) (rx_accepted (push_recovered cfg clock m x))" "rx_stop (push_recovered cfg clock m x) = rx_stop x"
    by (simp_all add: push_recovered_def split: prod.splits)
  then show ?case using Cons.IH [of "push_recovered cfg clock m x"] by (auto intro: prefix_order.trans)
qed simp

lemma intake_drain:
  "prefix (rx_accepted x) (rx_accepted (rx_drain cfg clock ans x)) \<and> rx_stop (rx_drain cfg clock ans x) = rx_stop x"
proof -
  have "prefix (rx_accepted x) (rx_accepted (drain_recoveries cfg clock ans k i x)) \<and>
      rx_stop (drain_recoveries cfg clock ans k i x) = rx_stop x" for k i
  proof (induction cfg clock ans k i x rule: drain_recoveries.induct)
    case (1 cfg clock ans k i x)
    show ?case
    proof (cases "i < length (rx_pending x)")
      case True
      show ?thesis
      proof (cases "ans k (rx_pending x ! i)")
        case None
        then show ?thesis using 1(1) [OF True] True by (subst (1 2) drain_recoveries.simps) simp
      next
        case (Some msgs)
        then show ?thesis
          using 1(2) [OF True Some refl] True intake_recovered [of x cfg clock msgs]
          by (subst (1 2) drain_recoveries.simps) (auto simp: Let_def intro: prefix_order.trans)
      qed
    qed (subst (1 2) drain_recoveries.simps, simp)
  qed
  then show ?thesis by (simp add: rx_drain_def)
qed

fun loop_inputs :: "rx_input list \<Rightarrow> datagram list" where
  "loop_inputs [] = []"
| "loop_inputs (RxBatch ds ans # es) = ds @ loop_inputs es"
| "loop_inputs (_ # es) = loop_inputs es"

text \<open>While the receiver listens and no stop was requested, the valid ticks are accepted in the order of
  arrival, with recovered ones in between.\<close>

lemma intake_loop:
  "rx_loop cfg clock es x = Some (e, x') \<Longrightarrow> prefix (rx_accepted x) (rx_accepted x') \<and> (rx_stop x \<longrightarrow> rx_stop x') \<and>
     (e = RxListening \<and> \<not> rx_stop x' \<longrightarrow> subseq (rx_accepted x @ input_ticks (loop_inputs es)) (rx_accepted x'))"
proof (induction cfg clock es x rule: rx_loop.induct)
  case (2 cfg clock ds ans es x)
  obtain y where y: "process_batch cfg clock ds x = Some y" using "2.prems" by (auto split: option.splits)
  define z where "z = rx_drain cfg clock ans y"
  note yz = intake_batch [OF y] intake_drain [of y cfg clock ans, folded z_def]
  show ?case
  proof (cases "rx_stop z")
    case True
    then have "x' = z" "e = RxStopped" using "2.prems" y by (simp_all add: z_def Let_def)
    then show ?thesis using yz True by (auto intro: prefix_order.trans)
  next
    case False
    then have l: "rx_loop cfg clock es z = Some (e, x')" using "2.prems" y by (simp add: z_def Let_def)
    have ih: "prefix (rx_accepted z) (rx_accepted x') \<and> (rx_stop z \<longrightarrow> rx_stop x') \<and>
      (e = RxListening \<and> \<not> rx_stop x' \<longrightarrow> subseq (rx_accepted z @ input_ticks (loop_inputs es)) (rx_accepted x'))"
      using "2.IH" [OF y z_def _ l] False by blast
    have "subseq (rx_accepted x @ input_ticks ds @ input_ticks (loop_inputs es)) (rx_accepted z @ input_ticks (loop_inputs es))"
      using yz False by (auto simp: prefix_def subseq_append' subseq_drop_many)
    then show ?thesis using ih yz False by (auto intro: prefix_order.trans subseq_order.trans)
  qed
qed (use intake_workers in \<open>auto simp: intake_def split: if_splits\<close>)

section \<open>A waiting tick is accepted\<close>

text \<open>The queue has no free place as far as consumer \<open>i\<close> is concerned.\<close>

fun be_tight :: "nat \<Rightarrow> queue_backend \<Rightarrow> bool" where
  "be_tight i (MutexBackend q n) \<longleftrightarrow> length (qm_items q) = qm_capacity q"
| "be_tight i (SpscBackend r n) \<longleftrightarrow> length (sr_items r) = sr_room r"
| "be_tight i (DisruptorBackend f) \<longleftrightarrow> length (mf_backlog i f) = length (mf_buf f)"

lemma be_push_room:
  assumes "be_holds n b acc del" "length acc < 2 ^ 64 - 1" "0 < n" "\<forall>i<n. \<not> be_tight i b"
  shows "fst (be_try_push m b) \<noteq> PushFull"
proof (cases b)
  case (MutexBackend q w)
  show ?thesis by (rule qm.push_cases [of q m]) (use MutexBackend assms in auto)
next
  case (SpscBackend r w)
  show ?thesis by (rule sr.push_cases [of r m]) (use SpscBackend assms in auto)
next
  case (DisruptorBackend f)
  then obtain k where "mf_ok k f" "mf_num_readers f = n" "unat (mf_write_seq f) = length acc"
    using assms(1,2) by auto
  then show ?thesis
    using mf_try_push_law [of k f m] assms(2,4) DisruptorBackend by (auto simp: mf_ok_def mf_shape_def)
qed

text \<open>A message that is taken frees a place for its consumer, and tightens the queue for nobody.\<close>

lemma be_pop_frees:
  assumes "be_holds n b acc del" "length acc < 2 ^ 64" "i < n" "be_pop i b = Some (Some m, b')"
  shows "\<not> be_tight i b'" "j < n \<Longrightarrow> \<not> be_tight j b \<Longrightarrow> \<not> be_tight j b'"
proof -
  have "\<not> be_tight i b' \<and> (j < n \<longrightarrow> \<not> be_tight j b \<longrightarrow> \<not> be_tight j b')"
  proof (cases b)
    case (MutexBackend q w)
    show ?thesis
      by (rule qm.pop_cases [of q]) (use MutexBackend assms qm.bounded [of q] in auto)
  next
    case (SpscBackend r w)
    show ?thesis
      by (rule sr.pop_cases [of r]) (use SpscBackend assms sr.bounded [of r] in auto)
  next
    case (DisruptorBackend f)
    then obtain k where ok: "mf_ok k f" "mf_num_readers f = n" using assms(1,2) by auto
    obtain f' where p: "mf_pop i f = Some (Some m, f')" "b' = DisruptorBackend f'"
      using assms(4) DisruptorBackend by auto
    show ?thesis
    proof (cases rule: mf_pop_law [OF ok(1), of i])
      case (4 m' g)
      then have g: "g = f'" "length (mf_backlog i f) = Suc (length (mf_backlog i f'))" using p(1) by simp_all
      have "length (mf_buf f') = 2 ^ k" "length (mf_buf f) = 2 ^ k" "length (mf_backlog i f) \<le> 2 ^ k"
        using ok 4(2) g assms(3) by (auto simp: mf_ok_def mf_shape_def)
      then show ?thesis using g 4(4) p(2) DisruptorBackend by (cases "j = i") auto
    qed (use ok p assms(3) in auto)
  qed
  then show "\<not> be_tight i b'" "j < n \<Longrightarrow> \<not> be_tight j b \<Longrightarrow> \<not> be_tight j b'" by blast+
qed

lemma be_empty_loose:
  assumes "be_holds n b acc del" "length acc < 2 ^ 64" "i < n" "be_roomy b" "be_pop i b = None"
  shows "\<not> be_tight i b"
proof (cases b)
  case (MutexBackend q w)
  show ?thesis by (rule qm.pop_cases [of q]) (use MutexBackend assms in auto)
next
  case (SpscBackend r w)
  show ?thesis
    by (rule sr.pop_cases [of r]) (use SpscBackend assms in \<open>auto simp: sr_ok_def spsc_shape_def\<close>)
next
  case (DisruptorBackend f)
  then obtain k where ok: "mf_ok k f" "mf_num_readers f = n" using assms(1,2) by auto
  have "mf_pop i f = None" using assms(5) DisruptorBackend by simp
  then have "mf_backlog i f = []" using mf_pop_law [OF ok(1), of i] ok(2) assms(3) by (metis option.distinct(1))
  then show ?thesis using ok DisruptorBackend by (auto simp: mf_ok_def mf_shape_def simp del: length_mf_backlog)
qed

lemma worker_step_frees:
  assumes "rx_ok n x" "length (rx_accepted x) < 2 ^ 64" "\<not> be_shut (rx_backend x)" "be_roomy (rx_backend x)" "i < n"
    "y = worker_step cfg clock (i, fails) x"
  shows "\<not> be_tight i (rx_backend y)" "j < n \<Longrightarrow> \<not> be_tight j (rx_backend x) \<Longrightarrow> \<not> be_tight j (rx_backend y)"
    "\<not> be_shut (rx_backend y)"
proof -
  have holds: "be_holds n (rx_backend x) (rx_accepted x) (rx_delivered x)" and
    w: "i < length (rx_workers x) \<and> \<not> wk_done (rx_workers x ! i)"
    using assms(1,3,5) by (auto simp: rx_ok_defs)
  have "\<not> be_tight i (rx_backend y) \<and> (j < n \<longrightarrow> \<not> be_tight j (rx_backend x) \<longrightarrow> \<not> be_tight j (rx_backend y)) \<and>
    \<not> be_shut (rx_backend y)"
  proof (cases "be_pop i (rx_backend x)")
    case None
    then show ?thesis using be_empty_loose [OF holds assms(2,5,4)] w assms(3,6) by (simp add: worker_step_def)
  next
    case (Some r)
    obtain m b where r: "r = (m, b)" by fastforce
    show ?thesis
    proof (cases m)
      case None
      then show ?thesis using be_pop_closed [OF holds] Some r assms(3) by blast
    next
      case m: (Some msg)
      then have pop: "be_pop i (rx_backend x) = Some (Some msg, b)" using Some r by simp
      have "rx_backend y = b" using pop w assms(6) by (simp add: worker_step_def worker_process_def Let_def)
      then show ?thesis
        using be_pop_frees [OF holds assms(2,5) pop] be_pop_item [OF holds assms(5) pop] assms(3) by simp
    qed
  qed
  then show "\<not> be_tight i (rx_backend y)" "j < n \<Longrightarrow> \<not> be_tight j (rx_backend x) \<Longrightarrow> \<not> be_tight j (rx_backend y)"
    "\<not> be_shut (rx_backend y)" by blast+
qed

lemma workers_free:
  assumes "rx_ok n x" "length (rx_accepted x) < 2 ^ 64" "\<not> be_shut (rx_backend x)" "be_roomy (rx_backend x)"
    "j < n" "\<not> be_tight j (rx_backend x) \<or> j \<in> fst ` set ws" "\<forall>w\<in>set ws. fst w < n"
  shows "\<not> be_tight j (rx_backend (fold (worker_step cfg clock) ws x)) \<and>
    \<not> be_shut (rx_backend (fold (worker_step cfg clock) ws x))"
  using assms
proof (induction ws arbitrary: x)
  case (Cons w ws)
  obtain i fails where w: "w = (i, fails)" by fastforce
  define y where "y = worker_step cfg clock (i, fails) x"
  have i: "i < n" using Cons.prems(7) w by simp
  note step = worker_step_frees [OF Cons.prems(1-4) i y_def]
  have "rx_accepted y = rx_accepted x" using intake_worker_step [of cfg clock _ x] by (simp add: intake_def y_def)
  moreover have "be_roomy (rx_backend y)"
    using kind.worker_step_good [of x "be_kind (rx_backend x)" _ _ w] Cons.prems(4) by (simp add: y_def w)
  moreover have "\<not> be_tight j (rx_backend y) \<or> j \<in> fst ` set ws"
    using Cons.prems(5,6) step(1) step(2) [of j] w by auto
  ultimately show ?case
    using Cons.IH [of y] rx_ok_worker_step [OF Cons.prems(1)] Cons.prems(2,5,7) step(3) by (simp add: y_def w)
qed simp

text \<open>So the retry loop returns after a round in which every worker took a turn.\<close>

lemma enqueue_returns:
  assumes "rx_ok n x" "length (rx_accepted x) < 2 ^ 64 - 1" "0 < n" "be_roomy (rx_backend x)"
    "\<forall>i<n. i \<in> fst ` set ws" "\<forall>w\<in>set ws. fst w < n"
  shows "\<exists>x'. rx_enqueue cfg clock ((stop, ws) # rounds) rep msg x = Some x'"
proof -
  obtain st b where p: "be_try_push msg (rx_backend x) = (st, b)" by fastforce
  show ?thesis
  proof (cases "st = PushFull \<and> \<not> be_shut (rx_backend x)")
    case True
    have b: "x\<lparr>rx_backend := b\<rparr> = x" using rx_refuse [OF assms(1) p] True by simp
    define x1 where "x1 = (if rep then x else rx_count_full cfg clock msg x)"
    have x1: "rx_ok n x1" "rx_accepted x1 = rx_accepted x" "rx_backend x1 = rx_backend x"
      using assms(1) intake_counts(3) [of cfg clock msg x] by (simp_all add: x1_def rx_ok_counts intake_def kind.counts_good)
    let ?y = "fold (worker_step cfg clock) ws x1"
    have "rx_ok n ?y" "rx_accepted ?y = rx_accepted x"
      using rx_ok_workers [OF x1(1)] intake_workers [of cfg clock ws x1] x1(2) by (simp_all add: intake_def)
    moreover have "\<forall>i<n. \<not> be_tight i (rx_backend ?y)"
      using workers_free [OF x1(1), of _ ws] x1(2,3) True assms by fastforce
    ultimately have "fst (be_try_push msg (rx_backend ?y)) \<noteq> PushFull"
      using be_push_room [of n "rx_backend ?y"] assms(2,3) by (auto simp: rx_ok_def)
    then have "\<exists>x'. rx_enqueue cfg clock rounds True msg ?y = Some x'"
      by (subst rx_enqueue.simps) (auto split: prod.splits push_status.splits)
    then show ?thesis using p True b by (subst rx_enqueue.simps) (cases rep; simp add: x1_def Let_def)
  next
    case False
    have "be_shut (rx_backend x) \<Longrightarrow> st \<noteq> PushFull" using p
      by (cases "rx_backend x") (auto simp: qm_try_push_def sr_try_push_def mf_try_push_def)
    then show ?thesis using p False by (subst rx_enqueue.simps) (cases st; auto)
  qed
qed

section \<open>Counting over a run\<close>

lemma tracking_loop:
  "rx_loop cfg clock es x = Some (RxListening, x') \<Longrightarrow> tracking x' = fold seq_step (input_seqs (loop_inputs es)) (tracking x)"
proof (induction cfg clock es x rule: rx_loop.induct)
  case (2 cfg clock ds ans es x)
  obtain y where y: "process_batch cfg clock ds x = Some y" using "2.prems" by (auto split: option.splits)
  define z where "z = rx_drain cfg clock ans y"
  have "\<not> rx_stop z" "rx_loop cfg clock es z = Some (RxListening, x')"
    using "2.prems" y by (auto simp: z_def Let_def split: if_splits)
  then have "tracking x' = fold seq_step (input_seqs (loop_inputs es)) (tracking z)" using "2.IH" [OF y z_def] by blast
  then show ?case using tracking_batch [OF y] by (simp add: z_def input_seqs_def)
qed (auto simp: input_seqs_def split: if_splits)

lemma Receiver_tracking: "Receiver kind n ring = Some x \<Longrightarrow> tracking x = (False, 0, 0, 0)"
  by (auto simp: Receiver_def tracking_def)

text \<open>No tick is missing from the sequence \<open>a, a + 2, a + 1, a + 3\<close>, and two are counted as missing.\<close>

lemma reorder_counts_missing:
  assumes "Receiver kind n ring = Some x" "rx_loop cfg clock es x = Some (RxListening, x')"
    "input_seqs (loop_inputs es) = [a, a + 2, a + 1, a + 3]" "unat a + 3 < 2 ^ 64"
  shows "rx_gaps x' = 2" "rx_reorders x' = 1"
proof -
  have "tracking x' = (True, a + 3, 2, 1)"
    unfolding tracking_loop [OF assms(2)] Receiver_tracking [OF assms(1)] assms(3) by (rule seq_reordered [OF assms(4)])
  then show "rx_gaps x' = 2" "rx_reorders x' = 1" by (simp_all add: tracking_def)
qed

end
