(* ===== verification/Queue_Steps.thy ===== *)
theory Queue_Steps
  imports Queues
begin

text \<open>
  The lock-free queues with their threads interleaved. Each thread is a program counter that advances
  by one access to a shared variable: the loads and stores of the cursors and of the closing flag, and
  the copy of a message into or out of a slot. A schedule is a list of moves; a run may interleave
  them in any way. The acquire/release pairs of the code give this interleaving semantics provided
  that no slot is read while it is written, which is shown as well. Logs (not part of the code) record
  the accepted and the delivered messages.
\<close>

section \<open>\<open>SpscRing\<close>: one producer, one consumer\<close>

datatype push_pc = PushIdle | PushCall tick_message | PushTail tick_message | PushHead tick_message u64
  | PushStore tick_message u64 | PushPublish tick_message u64 | PushRet q_status

datatype pop_pc = PopIdle | PopHead | PopTail u64 | PopCopy u64 | PopPublish u64 tick_message
  | PopFlag | PopHead2 | PopTail2 u64 | PopRet "tick_message option"

text \<open>\<open>SpscRing::try_push\<close>, access by access.\<close>

fun sr_push_step :: "push_pc \<Rightarrow> spsc_ring \<Rightarrow> push_pc \<times> spsc_ring" where
  "sr_push_step (PushCall msg) r = (if sr_closed r then PushRet StClosed else PushTail msg, r)"
| "sr_push_step (PushTail msg) r = (PushHead msg (sr_tail r), r)"
| "sr_push_step (PushHead msg tail) r =
     (if sr_size r \<le> tail - sr_head r then PushRet StFull else PushStore msg tail, r)"
| "sr_push_step (PushStore msg tail) r =
     (PushPublish msg tail, r\<lparr>sr_buf := (sr_buf r)[unat (tail AND sr_mask r) := msg]\<rparr>)"
| "sr_push_step (PushPublish msg tail) r = (PushRet StOk, r\<lparr>sr_tail := tail + 1\<rparr>)"
| "sr_push_step pc r = (pc, r)"

text \<open>\<open>SpscConsumer::pop\<close>: \<open>try_pop\<close>, and when it fails \<open>closed_and_empty\<close>, until one of them succeeds.\<close>

fun sr_pop_pc_step :: "pop_pc \<Rightarrow> spsc_ring \<Rightarrow> pop_pc \<times> spsc_ring" where
  "sr_pop_pc_step PopHead r = (PopTail (sr_head r), r)"
| "sr_pop_pc_step (PopTail head) r = (if head = sr_tail r then PopFlag else PopCopy head, r)"
| "sr_pop_pc_step (PopCopy head) r = (PopPublish head (sr_buf r ! unat (head AND sr_mask r)), r)"
| "sr_pop_pc_step (PopPublish head msg) r = (PopRet (Some msg), r\<lparr>sr_head := head + 1\<rparr>)"
| "sr_pop_pc_step PopFlag r = (if \<not> sr_closed r then PopHead else PopHead2, r)"
| "sr_pop_pc_step PopHead2 r = (PopTail2 (sr_head r), r)"
| "sr_pop_pc_step (PopTail2 head) r = (if head = sr_tail r then PopRet None else PopHead, r)"
| "sr_pop_pc_step pc r = (pc, r)"

fun push_returned :: "push_pc \<Rightarrow> bool" where
  "push_returned PushIdle = True"
| "push_returned (PushRet st) = True"
| "push_returned _ = False"

fun pop_returned :: "pop_pc \<Rightarrow> bool" where
  "pop_returned PopIdle = True"
| "pop_returned (PopRet m) = True"
| "pop_returned _ = False"

fun push_log :: "push_pc \<Rightarrow> tick_message list" where
  "push_log (PushPublish msg tail) = [msg]"
| "push_log _ = []"

fun pop_log :: "pop_pc \<Rightarrow> tick_message list" where
  "pop_log (PopPublish head msg) = [msg]"
| "pop_log _ = []"

record spsc_sys =
  ss_ring :: spsc_ring
  ss_push :: push_pc
  ss_pop :: pop_pc
  ss_pushed :: "tick_message list"
  ss_popped :: "tick_message list"

datatype spsc_move = CallPush tick_message | CallClose | CallPop | StepPush | StepPop

fun spsc_do :: "spsc_move \<Rightarrow> spsc_sys \<Rightarrow> spsc_sys" where
  "spsc_do (CallPush msg) s = (if push_returned (ss_push s) then s\<lparr>ss_push := PushCall msg\<rparr> else s)"
| "spsc_do CallClose s = (if push_returned (ss_push s) then s\<lparr>ss_ring := sr_close (ss_ring s)\<rparr> else s)"
| "spsc_do CallPop s = (if pop_returned (ss_pop s) then s\<lparr>ss_pop := PopHead\<rparr> else s)"
| "spsc_do StepPush s = (case sr_push_step (ss_push s) (ss_ring s) of (pc, r) \<Rightarrow>
     s\<lparr>ss_push := pc, ss_ring := r, ss_pushed := ss_pushed s @ push_log (ss_push s)\<rparr>)"
| "spsc_do StepPop s = (case sr_pop_pc_step (ss_pop s) (ss_ring s) of (pc, r) \<Rightarrow>
     s\<lparr>ss_pop := pc, ss_ring := r, ss_popped := ss_popped s @ pop_log (ss_pop s)\<rparr>)"

definition spsc_run :: "spsc_move list \<Rightarrow> spsc_sys \<Rightarrow> spsc_sys" where
  "spsc_run ms s = fold spsc_do ms s"

definition spsc_start :: "spsc_ring \<Rightarrow> spsc_sys" where
  "spsc_start r = \<lparr>ss_ring = r, ss_push = PushIdle, ss_pop = PopIdle, ss_pushed = [], ss_popped = []\<rparr>"

text \<open>Without interference the steps compute the operations of the previous theory.\<close>

fun iter_step :: "nat \<Rightarrow> ('p \<Rightarrow> 'r \<Rightarrow> 'p \<times> 'r) \<Rightarrow> 'p \<times> 'r \<Rightarrow> 'p \<times> 'r" where
  "iter_step 0 f x = x"
| "iter_step (Suc n) f x = iter_step n f (case x of (p, r) \<Rightarrow> f p r)"

lemma sr_push_step_alone:
  "iter_step 5 sr_push_step (PushCall msg, r) = (case sr_try_push msg r of (st, r') \<Rightarrow> (PushRet st, r'))"
  by (simp add: eval_nat_numeral sr_try_push_def Let_def)

lemma sr_pop_step_alone:
  "iter_step 6 sr_pop_pc_step (PopHead, r) =
     (case sr_pop r of Some (m, r') \<Rightarrow> (PopRet m, r') | None \<Rightarrow> iter_step 3 sr_pop_pc_step (PopHead, r))"
  by (auto simp: eval_nat_numeral sr_pop_def sr_try_pop_def sr_closed_and_empty_def Let_def)

section \<open>The invariant of the interleaved ring\<close>

fun push_at :: "nat \<Rightarrow> spsc_ring \<Rightarrow> push_pc \<Rightarrow> bool" where
  "push_at k r (PushTail msg) \<longleftrightarrow> \<not> sr_closed r"
| "push_at k r (PushHead msg tail) \<longleftrightarrow> \<not> sr_closed r \<and> tail = sr_tail r"
| "push_at k r (PushStore msg tail) \<longleftrightarrow> \<not> sr_closed r \<and> tail = sr_tail r \<and> sr_count r < 2 ^ k"
| "push_at k r (PushPublish msg tail) \<longleftrightarrow> \<not> sr_closed r \<and> tail = sr_tail r \<and> sr_count r < 2 ^ k \<and>
     sr_buf r ! unat (tail AND sr_mask r) = msg"
| "push_at k r _ \<longleftrightarrow> True"

fun pop_at :: "spsc_ring \<Rightarrow> pop_pc \<Rightarrow> bool" where
  "pop_at r (PopTail head) \<longleftrightarrow> head = sr_head r"
| "pop_at r (PopCopy head) \<longleftrightarrow> head = sr_head r \<and> head \<noteq> sr_tail r"
| "pop_at r (PopPublish head msg) \<longleftrightarrow> head = sr_head r \<and> head \<noteq> sr_tail r \<and>
     msg = sr_buf r ! unat (head AND sr_mask r)"
| "pop_at r PopHead2 \<longleftrightarrow> sr_closed r"
| "pop_at r (PopTail2 head) \<longleftrightarrow> sr_closed r \<and> head = sr_head r"
| "pop_at r (PopRet None) \<longleftrightarrow> sr_closed r \<and> sr_head r = sr_tail r"
| "pop_at r _ \<longleftrightarrow> True"

definition spsc_inv :: "nat \<Rightarrow> spsc_sys \<Rightarrow> bool" where
  "spsc_inv k s \<longleftrightarrow> spsc_shape k (ss_ring s) \<and> sr_count (ss_ring s) \<le> 2 ^ k \<and>
     ss_pushed s = ss_popped s @ sr_items (ss_ring s) \<and>
     push_at k (ss_ring s) (ss_push s) \<and> pop_at (ss_ring s) (ss_pop s)"

text \<open>Storing into the slot behind the last message leaves the queue and the slot of the first message
  alone; publishing appends the stored message.\<close>

lemma sr_store_keeps:
  fixes m :: tick_message
  assumes "spsc_shape k r" "sr_count r < 2 ^ k"
  defines "r' \<equiv> r\<lparr>sr_buf := (sr_buf r)[unat (sr_tail r AND sr_mask r) := m]\<rparr>"
  shows "spsc_shape k r'" "sr_count r' = sr_count r" "sr_items r' = sr_items r"
    "sr_buf r' ! unat (sr_tail r AND sr_mask r) = m"
    "sr_head r \<noteq> sr_tail r \<Longrightarrow> sr_buf r' ! unat (sr_head r AND sr_mask r) = sr_buf r ! unat (sr_head r AND sr_mask r)"
proof -
  have k: "k < 64" "length (sr_buf r) = 2 ^ k" using assms(1) by (simp_all add: spsc_shape_def)
  show shape: "spsc_shape k r'" and n: "sr_count r' = sr_count r"
    using assms(1) by (simp_all add: r'_def spsc_shape_def sr_count_def)
  have slot: "unat (sr_tail r AND sr_mask r) = ring_slot k (sr_head r + of_nat (sr_count r))"
    using assms(1) by (simp add: spsc_shape_def ring_slot_mask sr_count_def)
  show "sr_items r' = sr_items r"
    using ring_window_keep [of k "sr_buf r" "sr_count r" "sr_head r" m] assms(2) k n slot
    by (simp add: sr_items_window [OF shape] sr_items_window [OF assms(1)]) (simp add: r'_def)
  show "sr_buf r' ! unat (sr_tail r AND sr_mask r) = m" using k slot by (simp add: r'_def)
  assume "sr_head r \<noteq> sr_tail r"
  then have "0 < sr_count r" using sr_count_0_iff [of r] by simp
  then have "ring_slot k (sr_head r) \<noteq> ring_slot k (sr_head r + of_nat (sr_count r))"
    using ring_slot_distinct [of k 0 "sr_count r" "sr_head r"] assms(2) k by simp
  then show "sr_buf r' ! unat (sr_head r AND sr_mask r) = sr_buf r ! unat (sr_head r AND sr_mask r)"
    using assms(1) slot by (simp add: r'_def spsc_shape_def ring_slot_mask)
qed

lemma sr_publish_appends:
  assumes "spsc_shape k r" "sr_count r < 2 ^ k" "sr_buf r ! unat (sr_tail r AND sr_mask r) = m"
  shows "spsc_shape k (r\<lparr>sr_tail := sr_tail r + 1\<rparr>)" "sr_count (r\<lparr>sr_tail := sr_tail r + 1\<rparr>) = Suc (sr_count r)"
    "sr_items (r\<lparr>sr_tail := sr_tail r + 1\<rparr>) = sr_items r @ [m]"
proof -
  have "(sr_buf r)[unat (sr_tail r AND sr_mask r) := m] = sr_buf r" using assms(3) by (metis list_update_id)
  then show "spsc_shape k (r\<lparr>sr_tail := sr_tail r + 1\<rparr>)" "sr_count (r\<lparr>sr_tail := sr_tail r + 1\<rparr>) = Suc (sr_count r)"
    "sr_items (r\<lparr>sr_tail := sr_tail r + 1\<rparr>) = sr_items r @ [m]"
    using sr_push_law [OF assms(1,2), of m] by simp_all
qed

lemma sr_publish_nonempty:
  assumes "spsc_shape k r" "sr_count r < 2 ^ k"
  shows "sr_head r \<noteq> sr_tail r + 1"
  using sr_store_count [OF assms, of "sr_buf r"] sr_count_0_iff [of "r\<lparr>sr_tail := sr_tail r + 1\<rparr>"] by auto

text \<open>What each thread knows survives the steps of the other.\<close>

lemma pop_at_store:
  "pop_at r pc \<Longrightarrow> (sr_head r \<noteq> sr_tail r \<Longrightarrow> b ! unat (sr_head r AND sr_mask r) = sr_buf r ! unat (sr_head r AND sr_mask r)) \<Longrightarrow>
     pop_at (r\<lparr>sr_buf := b\<rparr>) pc"
  by (cases "(r, pc)" rule: pop_at.cases) auto

lemma pop_at_publish:
  "pop_at r pc \<Longrightarrow> \<not> sr_closed r \<Longrightarrow> sr_head r \<noteq> sr_tail r + 1 \<Longrightarrow> pop_at (r\<lparr>sr_tail := sr_tail r + 1\<rparr>) pc"
  by (cases "(r, pc)" rule: pop_at.cases) auto

lemma pop_at_close: "pop_at r pc \<Longrightarrow> pop_at (sr_close r) pc"
  by (cases "(r, pc)" rule: pop_at.cases) (auto simp: sr_close_def)

lemma push_at_take:
  "push_at k r pc \<Longrightarrow> sr_count (r\<lparr>sr_head := h\<rparr>) \<le> sr_count r \<Longrightarrow> push_at k (r\<lparr>sr_head := h\<rparr>) pc"
  by (cases "(k, r, pc)" rule: push_at.cases) auto

lemma push_at_returned: "push_returned pc \<Longrightarrow> push_at k r pc"
  by (cases pc) auto

lemma spsc_inv_StepPush:
  assumes "spsc_inv k s"
  shows "spsc_inv k (spsc_do StepPush s)"
proof (cases "ss_push s")
  case (PushStore msg tail)
  then show ?thesis
    using assms sr_store_keeps [of k "ss_ring s" msg]
    by (auto simp: spsc_inv_def intro!: pop_at_store)
next
  case (PushPublish msg tail)
  then show ?thesis
    using assms sr_publish_appends [of k "ss_ring s" msg] sr_publish_nonempty [of k "ss_ring s"]
    by (auto simp: spsc_inv_def intro!: pop_at_publish)
qed (use assms in \<open>auto simp: spsc_inv_def sr_full_iff\<close>)

lemma spsc_inv_StepPop:
  assumes "spsc_inv k s"
  shows "spsc_inv k (spsc_do StepPop s)"
proof (cases "ss_pop s")
  case (PopPublish head msg)
  then show ?thesis
    using assms sr_pop_step [of k "ss_ring s"]
    by (auto simp: spsc_inv_def spsc_shape_def intro!: push_at_take)
qed (use assms in \<open>auto simp: spsc_inv_def\<close>)

lemma spsc_inv_do: "spsc_inv k s \<Longrightarrow> spsc_inv k (spsc_do mv s)"
proof (cases mv)
  case CallClose
  assume "spsc_inv k s"
  then show ?thesis using CallClose
    by (auto simp: spsc_inv_def push_at_returned pop_at_close) (auto simp: sr_close_def spsc_shape_def sr_count_def sr_items_def)
qed (auto simp: spsc_inv_StepPush spsc_inv_StepPop simp del: spsc_do.simps(4,5), auto simp: spsc_inv_def)

lemma spsc_inv_run: "spsc_inv k s \<Longrightarrow> spsc_inv k (spsc_run ms s)"
  by (induction ms arbitrary: s) (auto simp: spsc_run_def spsc_inv_do)

lemma spsc_inv_start:
  assumes "SpscRing capacity = Some r" "unat capacity \<le> 2 ^ 63"
  obtains k where "spsc_inv k (spsc_start r)" "unat capacity \<le> 2 ^ k" "\<And>i. i < k \<Longrightarrow> 2 ^ i < unat capacity"
proof -
  obtain k r' where "SpscRing capacity = Some r'" "spsc_shape k r'" "unat capacity \<le> 2 ^ k"
    "\<And>i. i < k \<Longrightarrow> 2 ^ i < unat capacity" "sr_head r' = 0" "sr_tail r' = 0" "\<not> sr_closed r'"
    using SpscRing_new [OF assms(2)] by metis
  then show ?thesis
    using assms(1) by (intro that [of k]) (simp_all add: spsc_inv_def spsc_start_def sr_count_def sr_items_def)
qed

section \<open>What the interleaved ring guarantees\<close>

text \<open>The consumer never copies a slot while the producer writes it.\<close>

lemma spsc_no_race:
  assumes "spsc_inv k s" "ss_push s = PushStore m t" "ss_pop s = PopCopy h"
  shows "unat (t AND sr_mask (ss_ring s)) \<noteq> unat (h AND sr_mask (ss_ring s))"
proof -
  let ?r = "ss_ring s"
  have k: "k < 64" "sr_mask ?r = 2 ^ k - 1" and n: "sr_count ?r < 2 ^ k" "0 < sr_count ?r"
    and th: "t = sr_tail ?r" "h = sr_head ?r"
    using assms sr_count_0_iff [of ?r] by (auto simp: spsc_inv_def spsc_shape_def)
  have "t = h + of_nat (sr_count ?r)" using th by (simp add: sr_count_def)
  then show ?thesis
    using ring_slot_distinct [of k 0 "sr_count ?r" h] k n by (simp add: ring_slot_mask)
qed

text \<open>Once there is something to deliver, or the ring is closed, the consumer returns after at most eight
  of its own steps, whatever the producer does in between.\<close>

definition pop_ready :: "spsc_sys \<Rightarrow> bool" where
  "pop_ready s \<longleftrightarrow> sr_head (ss_ring s) \<noteq> sr_tail (ss_ring s) \<or> sr_closed (ss_ring s)"

fun pop_rank :: "bool \<Rightarrow> pop_pc \<Rightarrow> nat" where
  "pop_rank ne PopHead = 5"
| "pop_rank ne (PopTail h) = 4"
| "pop_rank ne (PopCopy h) = 3"
| "pop_rank ne (PopPublish h m) = 2"
| "pop_rank ne PopFlag = (if ne then 8 else 3)"
| "pop_rank ne PopHead2 = (if ne then 7 else 2)"
| "pop_rank ne (PopTail2 h) = (if ne then 6 else 1)"
| "pop_rank ne _ = 0"

definition pop_left :: "spsc_sys \<Rightarrow> nat" where
  "pop_left s = pop_rank (sr_head (ss_ring s) \<noteq> sr_tail (ss_ring s)) (ss_pop s)"

lemma pop_left_0: "pop_left s = 0 \<longleftrightarrow> pop_returned (ss_pop s)"
  by (cases "ss_pop s") (auto simp: pop_left_def)

lemma pop_left_bound: "pop_left s \<le> 8"
  by (cases "ss_pop s") (auto simp: pop_left_def)

lemma pop_ready_producer:
  assumes "spsc_inv k s" "pop_ready s" "mv \<noteq> StepPop" "\<not> pop_returned (ss_pop s)"
  shows "pop_ready (spsc_do mv s) \<and> ss_pop (spsc_do mv s) = ss_pop s \<and>
    pop_left (spsc_do mv s) = pop_left s"
proof (cases mv)
  case StepPush
  then show ?thesis
    using assms sr_publish_nonempty [of k "ss_ring s"]
    by (cases "ss_push s") (auto simp: pop_ready_def pop_left_def spsc_inv_def)
qed (use assms in \<open>auto simp: pop_ready_def pop_left_def sr_close_def\<close>)

lemma pop_ready_consumer:
  assumes "spsc_inv k s" "pop_ready s" "\<not> pop_returned (ss_pop s)"
  shows "(pop_returned (ss_pop (spsc_do StepPop s)) \<or> pop_ready (spsc_do StepPop s)) \<and>
    pop_left (spsc_do StepPop s) < pop_left s"
  using assms by (cases "ss_pop s") (auto simp: pop_ready_def pop_left_def spsc_inv_def)

lemma pop_returns_run:
  assumes "spsc_inv k s" "pop_ready s" "pop_left s \<le> length (filter (\<lambda>mv. mv = StepPop) ms)"
  shows "\<exists>i\<le>length ms. pop_returned (ss_pop (spsc_run (take i ms) s))"
  using assms
proof (induction ms arbitrary: s)
  case Nil
  then show ?case by (simp add: spsc_run_def pop_left_0)
next
  case (Cons mv ms)
  show ?case
  proof (cases "pop_returned (ss_pop s) \<or> pop_returned (ss_pop (spsc_do mv s))")
    case True
    then show ?thesis by (auto intro: exI [of _ "0::nat"] exI [of _ "1::nat"] simp: spsc_run_def)
  next
    case False
    have "pop_ready (spsc_do mv s) \<and> pop_left (spsc_do mv s) \<le> length (filter (\<lambda>mv. mv = StepPop) ms)"
      using pop_ready_producer [OF Cons.prems(1,2), of mv] pop_ready_consumer [OF Cons.prems(1,2)] False Cons.prems(3)
      by (cases "mv = StepPop") auto
    then obtain i where "i \<le> length ms" "pop_returned (ss_pop (spsc_run (take i ms) (spsc_do mv s)))"
      using Cons.IH spsc_inv_do [OF Cons.prems(1)] by blast
    then show ?thesis by (intro exI [of _ "Suc i"]) (simp add: spsc_run_def)
  qed
qed

lemma spsc_pop_returns:
  assumes "spsc_inv k s" "pop_ready s" "8 \<le> length (filter (\<lambda>mv. mv = StepPop) ms)"
  shows "\<exists>i\<le>length ms. pop_returned (ss_pop (spsc_run (take i ms) s))"
  using pop_returns_run [OF assms(1,2)] pop_left_bound [of s] assms(3) by (meson order_trans)

end
