(* ===== verification/Fanout_Steps.thy ===== *)
theory Fanout_Steps
  imports Queue_Steps
begin

text \<open>
  The broadcast ring \<open>MpmcFanout\<close> with its writer and its readers interleaved, access by access, in the
  manner of \<open>Queue_Steps\<close>. The writer scans the read cursors one after the other while the readers
  move on. Shown, as long as fewer than \<open>2 ^ 64\<close> messages were written: every reader is delivered
  exactly the accepted messages, in order, without gaps; no slot is overwritten before the slowest
  reader has copied it; and a reader that is told \<open>Closed\<close> has seen everything.
\<close>

datatype fan_pc = FanIdle | FanCall tick_message | FanWrite tick_message | FanMin tick_message u64
  | FanScan tick_message u64 nat u64 | FanStore tick_message u64 | FanPublish tick_message u64 | FanRet q_status

text \<open>\<open>MpmcFanout::try_push\<close> with the loop of \<open>min_read_seq\<close>.\<close>

fun mf_push_step :: "fan_pc \<Rightarrow> mpmc_fanout \<Rightarrow> fan_pc \<times> mpmc_fanout" where
  "mf_push_step (FanCall msg) f = (if mf_closed f then FanRet StClosed else FanWrite msg, f)"
| "mf_push_step (FanWrite msg) f = (FanMin msg (mf_write_seq f), f)"
| "mf_push_step (FanMin msg write) f = (FanScan msg write 0 (mf_write_seq f), f)"
| "mf_push_step (FanScan msg write i m) f =
     (if i < length (mf_read_seq f)
      then let v = mf_read_seq f ! i in FanScan msg write (i + 1) (if v < m then v else m)
      else if mf_size f \<le> write - m then FanRet StFull else FanStore msg write, f)"
| "mf_push_step (FanStore msg write) f =
     (FanPublish msg write, f\<lparr>mf_buf := (mf_buf f)[unat (write AND mf_mask f) := msg]\<rparr>)"
| "mf_push_step (FanPublish msg write) f = (FanRet StOk, f\<lparr>mf_write_seq := write + 1\<rparr>)"
| "mf_push_step pc f = (pc, f)"

text \<open>\<open>DisruptorConsumer::pop\<close> for one reader.\<close>

fun mf_pop_pc_step :: "nat \<Rightarrow> pop_pc \<Rightarrow> mpmc_fanout \<Rightarrow> pop_pc \<times> mpmc_fanout" where
  "mf_pop_pc_step i PopHead f = (PopTail (mf_read_seq f ! i), f)"
| "mf_pop_pc_step i (PopTail read) f = (if read = mf_write_seq f then PopFlag else PopCopy read, f)"
| "mf_pop_pc_step i (PopCopy read) f = (PopPublish read (mf_buf f ! unat (read AND mf_mask f)), f)"
| "mf_pop_pc_step i (PopPublish read msg) f =
     (PopRet (Some msg), f\<lparr>mf_read_seq := (mf_read_seq f)[i := read + 1]\<rparr>)"
| "mf_pop_pc_step i PopFlag f = (if \<not> mf_closed f then PopHead else PopHead2, f)"
| "mf_pop_pc_step i PopHead2 f = (PopTail2 (mf_read_seq f ! i), f)"
| "mf_pop_pc_step i (PopTail2 read) f = (if read = mf_write_seq f then PopRet None else PopHead, f)"
| "mf_pop_pc_step i pc f = (pc, f)"

fun fan_returned :: "fan_pc \<Rightarrow> bool" where
  "fan_returned FanIdle = True"
| "fan_returned (FanRet st) = True"
| "fan_returned _ = False"

fun fan_log :: "fan_pc \<Rightarrow> tick_message list" where
  "fan_log (FanPublish msg write) = [msg]"
| "fan_log _ = []"

record fan_sys =
  fs_fan :: mpmc_fanout
  fs_push :: fan_pc
  fs_pops :: "pop_pc list"
  fs_pushed :: "tick_message list"
  fs_popped :: "tick_message list list"

datatype fan_move = FanCallPush tick_message | FanCallClose | FanCallPop nat | FanStepPush | FanStepPop nat

fun fan_do :: "fan_move \<Rightarrow> fan_sys \<Rightarrow> fan_sys" where
  "fan_do (FanCallPush msg) s = (if fan_returned (fs_push s) then s\<lparr>fs_push := FanCall msg\<rparr> else s)"
| "fan_do FanCallClose s = (if fan_returned (fs_push s) then s\<lparr>fs_fan := mf_close (fs_fan s)\<rparr> else s)"
| "fan_do (FanCallPop i) s = (if i < length (fs_pops s) \<and> pop_returned (fs_pops s ! i)
     then s\<lparr>fs_pops := (fs_pops s)[i := PopHead]\<rparr> else s)"
| "fan_do FanStepPush s = (case mf_push_step (fs_push s) (fs_fan s) of (pc, f) \<Rightarrow>
     s\<lparr>fs_push := pc, fs_fan := f, fs_pushed := fs_pushed s @ fan_log (fs_push s)\<rparr>)"
| "fan_do (FanStepPop i) s = (if i < length (fs_pops s)
     then case mf_pop_pc_step i (fs_pops s ! i) (fs_fan s) of (pc, f) \<Rightarrow>
       s\<lparr>fs_pops := (fs_pops s)[i := pc], fs_fan := f,
         fs_popped := (fs_popped s)[i := fs_popped s ! i @ pop_log (fs_pops s ! i)]\<rparr>
     else s)"

definition fan_run :: "fan_move list \<Rightarrow> fan_sys \<Rightarrow> fan_sys" where
  "fan_run ms s = fold fan_do ms s"

definition fan_start :: "mpmc_fanout \<Rightarrow> fan_sys" where
  "fan_start f = \<lparr>fs_fan = f, fs_push = FanIdle, fs_pops = replicate (mf_num_readers f) PopIdle,
     fs_pushed = [], fs_popped = replicate (mf_num_readers f) []\<rparr>"

section \<open>The invariant\<close>

fun fan_at :: "nat \<Rightarrow> mpmc_fanout \<Rightarrow> fan_pc \<Rightarrow> bool" where
  "fan_at k f (FanWrite msg) \<longleftrightarrow> \<not> mf_closed f"
| "fan_at k f (FanMin msg write) \<longleftrightarrow> \<not> mf_closed f \<and> write = mf_write_seq f"
| "fan_at k f (FanScan msg write i m) \<longleftrightarrow> \<not> mf_closed f \<and> write = mf_write_seq f \<and> m \<le> mf_write_seq f \<and>
     (\<forall>j<i. j < mf_num_readers f \<longrightarrow> m \<le> mf_read_seq f ! j)"
| "fan_at k f (FanStore msg write) \<longleftrightarrow> \<not> mf_closed f \<and> write = mf_write_seq f \<and>
     (\<forall>j<mf_num_readers f. mf_count j f < 2 ^ k)"
| "fan_at k f (FanPublish msg write) \<longleftrightarrow> \<not> mf_closed f \<and> write = mf_write_seq f \<and>
     (\<forall>j<mf_num_readers f. mf_count j f < 2 ^ k) \<and> mf_buf f ! unat (write AND mf_mask f) = msg"
| "fan_at k f _ \<longleftrightarrow> True"

fun read_at :: "mpmc_fanout \<Rightarrow> nat \<Rightarrow> pop_pc \<Rightarrow> bool" where
  "read_at f i (PopTail read) \<longleftrightarrow> read = mf_read_seq f ! i"
| "read_at f i (PopCopy read) \<longleftrightarrow> read = mf_read_seq f ! i \<and> read \<noteq> mf_write_seq f"
| "read_at f i (PopPublish read msg) \<longleftrightarrow> read = mf_read_seq f ! i \<and> read \<noteq> mf_write_seq f \<and>
     msg = mf_buf f ! unat (read AND mf_mask f)"
| "read_at f i PopHead2 \<longleftrightarrow> mf_closed f"
| "read_at f i (PopTail2 read) \<longleftrightarrow> mf_closed f \<and> read = mf_read_seq f ! i"
| "read_at f i (PopRet None) \<longleftrightarrow> mf_closed f \<and> mf_read_seq f ! i = mf_write_seq f"
| "read_at f i _ \<longleftrightarrow> True"

definition fan_inv :: "nat \<Rightarrow> nat \<Rightarrow> fan_sys \<Rightarrow> bool" where
  "fan_inv k n s \<longleftrightarrow> mf_ok k (fs_fan s) \<and> mf_num_readers (fs_fan s) = n \<and> length (fs_pops s) = n \<and>
     length (fs_popped s) = n \<and> unat (mf_write_seq (fs_fan s)) = length (fs_pushed s) \<and>
     fan_at k (fs_fan s) (fs_push s) \<and>
     (\<forall>i<n. fs_pushed s = fs_popped s ! i @ mf_backlog i (fs_fan s) \<and> read_at (fs_fan s) i (fs_pops s ! i))"

lemma mf_store_keeps:
  fixes m :: tick_message
  assumes "mf_ok k f" "\<forall>j<mf_num_readers f. mf_count j f < 2 ^ k"
  defines "f' \<equiv> f\<lparr>mf_buf := (mf_buf f)[unat (mf_write_seq f AND mf_mask f) := m]\<rparr>"
  shows "mf_ok k f'" "mf_buf f' ! unat (mf_write_seq f AND mf_mask f) = m"
    "\<And>i. i < mf_num_readers f \<Longrightarrow> mf_backlog i f' = mf_backlog i f"
    "\<And>i. i < mf_num_readers f \<Longrightarrow> mf_read_seq f ! i \<noteq> mf_write_seq f \<Longrightarrow>
       mf_buf f' ! unat (mf_read_seq f ! i AND mf_mask f) = mf_buf f ! unat (mf_read_seq f ! i AND mf_mask f)"
proof -
  have shape: "mf_shape k f" "mf_shape k f'" using assms(1) by (simp_all add: mf_ok_def mf_shape_def f'_def)
  then have k: "k < 64" "length (mf_buf f) = 2 ^ k" by (simp_all add: mf_shape_def)
  show "mf_ok k f'" using assms(1) shape by (simp add: mf_ok_def f'_def mf_num_readers_def mf_count_def)
  have slot: "unat (mf_write_seq f AND mf_mask f) = ring_slot k (mf_read_seq f ! i + of_nat (mf_count i f))"
    if "i < mf_num_readers f" for i
  proof -
    have "unat (mf_read_seq f ! i) \<le> unat (mf_write_seq f)"
      using assms(1) that by (simp add: mf_ok_def word_le_nat_alt)
    then show ?thesis using shape(1) by (simp add: mf_shape_def ring_slot_mask mf_count_def of_nat_diff)
  qed
  have "unat (mf_write_seq f AND mf_mask f) < 2 ^ k" using shape(1) by (simp add: mf_shape_def ring_slot_mask)
  then show "mf_buf f' ! unat (mf_write_seq f AND mf_mask f) = m" using k by (simp add: f'_def)
  show "mf_backlog i f' = mf_backlog i f" if i: "i < mf_num_readers f" for i
    using ring_window_keep [of k "mf_buf f" "mf_count i f" "mf_read_seq f ! i" m] assms(2) i k slot [OF i]
    by (simp add: mf_backlog_window [OF shape(1)] mf_backlog_window [OF shape(2)]) (simp add: f'_def mf_count_def)
  show "mf_buf f' ! unat (mf_read_seq f ! i AND mf_mask f) = mf_buf f ! unat (mf_read_seq f ! i AND mf_mask f)"
    if i: "i < mf_num_readers f" "mf_read_seq f ! i \<noteq> mf_write_seq f" for i
  proof -
    have "0 < mf_count i f"
      using mf_pop_empty [OF assms(1) i(1)] i(2) length_mf_backlog [of i f] by (metis length_greater_0_conv)
    then have "ring_slot k (mf_read_seq f ! i) \<noteq> ring_slot k (mf_read_seq f ! i + of_nat (mf_count i f))"
      using ring_slot_distinct [of k 0 "mf_count i f" "mf_read_seq f ! i"] assms(2) i(1) k by simp
    then show ?thesis using shape(1) slot [OF i(1)] by (simp add: f'_def mf_shape_def ring_slot_mask)
  qed
qed

lemma mf_publish_put: "mf_buf f ! unat (mf_write_seq f AND mf_mask f) = m \<Longrightarrow> f\<lparr>mf_write_seq := mf_write_seq f + 1\<rparr> = mf_put m f"
  by (metis mf_put_def list_update_id mpmc_fanout.surjective mpmc_fanout.update_convs(1,4))

lemma read_at_store:
  "read_at f i pc \<Longrightarrow> (mf_read_seq f ! i \<noteq> mf_write_seq f \<Longrightarrow>
     b ! unat (mf_read_seq f ! i AND mf_mask f) = mf_buf f ! unat (mf_read_seq f ! i AND mf_mask f)) \<Longrightarrow>
   read_at (f\<lparr>mf_buf := b\<rparr>) i pc"
  by (cases "(f, i, pc)" rule: read_at.cases) auto

lemma read_at_publish:
  "read_at f i pc \<Longrightarrow> \<not> mf_closed f \<Longrightarrow> mf_read_seq f ! i \<noteq> mf_write_seq f + 1 \<Longrightarrow>
     read_at (f\<lparr>mf_write_seq := mf_write_seq f + 1\<rparr>) i pc"
  by (cases "(f, i, pc)" rule: read_at.cases) auto

lemma read_at_close: "read_at f i pc \<Longrightarrow> read_at (mf_close f) i pc"
  by (cases "(f, i, pc)" rule: read_at.cases) (auto simp: mf_close_def)

lemma read_at_other: "read_at f i pc \<Longrightarrow> i \<noteq> j \<Longrightarrow> read_at (f\<lparr>mf_read_seq := (mf_read_seq f)[j := v]\<rparr>) i pc"
  by (cases "(f, i, pc)" rule: read_at.cases) auto

text \<open>A reader that advances only makes room for the writer.\<close>

lemma fan_at_take:
  assumes "fan_at k f pc" "mf_read_seq f ! i \<le> v"
  shows "fan_at k (f\<lparr>mf_read_seq := (mf_read_seq f)[i := v]\<rparr>) pc"
proof -
  have le: "mf_read_seq f ! j \<le> (mf_read_seq f)[i := v] ! j" if "j < length (mf_read_seq f)" for j
    using assms(2) that by (cases "j = i") auto
  then have n: "mf_count j (f\<lparr>mf_read_seq := (mf_read_seq f)[i := v]\<rparr>) \<le> mf_count j f"
    if "j < length (mf_read_seq f)" for j
    using that by (simp add: mf_count_def word_le_nat_alt diff_le_mono2)
  show ?thesis
    using assms(1) le n by (cases "(k, f, pc)" rule: fan_at.cases) (auto simp: mf_num_readers_def intro: order_trans le_less_trans)
qed

lemma fan_at_returned: "fan_returned pc \<Longrightarrow> fan_at k f pc"
  by (cases pc) auto

text \<open>When the scan is over and the writer goes on, every reader has a free slot: the cursors it read
  are lower bounds of the present ones.\<close>

lemma fan_scan_room:
  assumes "mf_ok k f" "fan_at k f (FanScan msg write i m)" "mf_num_readers f \<le> i" "\<not> mf_size f \<le> write - m"
    "j < mf_num_readers f"
  shows "mf_count j f < 2 ^ k"
proof -
  have "m \<le> mf_write_seq f" "m \<le> mf_read_seq f ! j" "write = mf_write_seq f" using assms by auto
  moreover have "unat (mf_size f) = 2 ^ k"
    using assms(1) unat_pow2 [of k] by (simp add: mf_ok_def mf_shape_def mf_size_def)
  ultimately show ?thesis
    using assms(4) by (simp add: mf_count_def word_le_nat_alt unat_sub_if_le)
qed

lemma fan_inv_StepPush:
  assumes "fan_inv k n s" "length (fs_pushed (fan_do FanStepPush s)) < 2 ^ 64"
  shows "fan_inv k n (fan_do FanStepPush s)"
proof (cases "fs_push s")
  case (FanScan msg wr i m)
  then show ?thesis
    using assms(1) fan_scan_room [of k "fs_fan s" msg wr i m]
    by (auto simp: fan_inv_def mf_num_readers_def Let_def less_Suc_eq intro: order_trans order_less_imp_le)
next
  case (FanStore msg wr)
  let ?f = "fs_fan s" and ?b = "(mf_buf (fs_fan s))[unat (wr AND mf_mask (fs_fan s)) := msg]"
  have at: "mf_ok k ?f" "\<forall>j<mf_num_readers ?f. mf_count j ?f < 2 ^ k" "wr = mf_write_seq ?f" "\<not> mf_closed ?f"
    "mf_num_readers ?f = n"
    using assms(1) FanStore by (simp_all add: fan_inv_def)
  note keep = mf_store_keeps [OF at(1,2), where m = msg, folded at(3)]
  have "read_at (?f\<lparr>mf_buf := ?b\<rparr>) i (fs_pops s ! i)" if "i < n" for i
    using assms(1) that keep(4) at(3,5) by (intro read_at_store) (simp_all add: fan_inv_def)
  moreover have "mf_num_readers (?f\<lparr>mf_buf := ?b\<rparr>) = n" "mf_count j (?f\<lparr>mf_buf := ?b\<rparr>) = mf_count j ?f" for j
    using at(5) by (simp_all add: mf_num_readers_def mf_count_def)
  ultimately show ?thesis
    using assms(1) FanStore keep(1,2,3) at by (simp add: fan_inv_def)
next
  case (FanPublish msg wr)
  let ?f = "fs_fan s" and ?g = "(fs_fan s)\<lparr>mf_write_seq := mf_write_seq (fs_fan s) + 1\<rparr>"
  have at: "mf_ok k ?f" "\<forall>j<mf_num_readers ?f. mf_count j ?f < 2 ^ k" "wr = mf_write_seq ?f" "\<not> mf_closed ?f"
    "mf_num_readers ?f = n" "?g = mf_put msg ?f"
    using assms(1) FanPublish mf_publish_put [of ?f msg] by (auto simp: fan_inv_def)
  have w: "Suc (unat (mf_write_seq ?f)) < 2 ^ 64" using assms FanPublish by (simp add: fan_inv_def)
  note put = mf_put_law [OF at(1,2) w, where m = msg, folded at(6)]
  have nxt: "unat (mf_write_seq ?f + 1) = Suc (unat (mf_write_seq ?f))"
    using w unat_add_no_wrap [of "mf_write_seq ?f" 1] by simp
  then have "mf_read_seq ?f ! i \<noteq> mf_write_seq ?f + 1" if "i < n" for i
    using at(1,5) that by (auto simp: mf_ok_def word_le_nat_alt)
  then have "read_at ?g i (fs_pops s ! i)" if "i < n" for i
    using assms(1) that at(4) by (intro read_at_publish) (simp_all add: fan_inv_def)
  then show ?thesis
    using assms(1) FanPublish put at(3,5) nxt by (simp add: fan_inv_def)
qed (use assms(1) in \<open>auto simp: fan_inv_def\<close>)

lemma fan_inv_StepPop:
  assumes "fan_inv k n s"
  shows "fan_inv k n (fan_do (FanStepPop i) s)"
proof (cases "i < n")
  case True
  show ?thesis
  proof (cases "fs_pops s ! i")
    case (PopPublish read msg)
    let ?f = "fs_fan s" and ?v = "mf_read_seq (fs_fan s) ! i + 1"
    have ne: "mf_read_seq ?f ! i \<noteq> mf_write_seq ?f" and r: "read = mf_read_seq ?f ! i"
      and m: "msg = mf_buf ?f ! unat (read AND mf_mask ?f)" and ok: "mf_ok k ?f" "i < mf_num_readers ?f"
      using assms PopPublish True by (auto simp: fan_inv_def)
    note take = mf_take_law [OF ok ne]
    have "unat (mf_read_seq ?f ! i) < unat (mf_write_seq ?f)"
      using ok ne by (simp add: mf_ok_def word_le_nat_alt word_unat_eq_iff le_neq_implies_less)
    moreover have "unat (mf_write_seq ?f) < 2 ^ LENGTH(64)" by (rule unsigned_less)
    ultimately have "mf_read_seq ?f ! i \<le> ?v"
      using unat_add_no_wrap [of "mf_read_seq ?f ! i" 1] by (simp add: word_le_nat_alt)
    then show ?thesis
      using assms True PopPublish take r m read_at_other [of ?f] fan_at_take [of k ?f "fs_push s" i ?v]
      by (auto simp: fan_inv_def nth_list_update)
  qed (use assms True in \<open>auto simp: fan_inv_def nth_list_update\<close>)
qed (use assms in \<open>simp add: fan_inv_def\<close>)

lemma mf_close_keeps:
  "mf_ok k (mf_close f) = mf_ok k f" "mf_num_readers (mf_close f) = mf_num_readers f"
  "mf_write_seq (mf_close f) = mf_write_seq f" "mf_backlog i (mf_close f) = mf_backlog i f"
  by (simp_all add: mf_close_def mf_ok_def mf_shape_def mf_num_readers_def mf_count_def mf_backlog_def)

lemma fan_inv_do:
  assumes "fan_inv k n s" "length (fs_pushed (fan_do mv s)) < 2 ^ 64"
  shows "fan_inv k n (fan_do mv s)"
proof (cases mv)
  case FanCallClose
  then show ?thesis
    using assms(1) by (simp add: fan_inv_def fan_at_returned read_at_close mf_close_keeps)
next
  case (FanCallPop i)
  then show ?thesis using assms(1) by (auto simp: fan_inv_def nth_list_update)
next
  case FanStepPush
  then show ?thesis using fan_inv_StepPush assms by simp
next
  case (FanStepPop i)
  then show ?thesis using fan_inv_StepPop [OF assms(1)] by simp
qed (use assms(1) in \<open>auto simp: fan_inv_def\<close>)

lemma fan_pushed_mono: "length (fs_pushed s) \<le> length (fs_pushed (fan_run ms s))"
proof (induction ms arbitrary: s)
  case (Cons mv ms)
  have "length (fs_pushed s) \<le> length (fs_pushed (fan_do mv s))"
    by (cases mv) (auto split: prod.splits)
  then show ?case using Cons [of "fan_do mv s"] by (simp add: fan_run_def)
qed (simp add: fan_run_def)

lemma fan_inv_run:
  "fan_inv k n s \<Longrightarrow> length (fs_pushed (fan_run ms s)) < 2 ^ 64 \<Longrightarrow> fan_inv k n (fan_run ms s)"
proof (induction ms arbitrary: s)
  case (Cons mv ms)
  have "length (fs_pushed (fan_do mv s)) < 2 ^ 64"
    using Cons.prems(2) fan_pushed_mono [of "fan_do mv s" ms] by (simp add: fan_run_def)
  then show ?case using Cons.IH [of "fan_do mv s"] fan_inv_do [OF Cons.prems(1)] Cons.prems(2) by (simp add: fan_run_def)
qed (simp add: fan_run_def)

lemma fan_inv_start:
  assumes "MpmcFanout capacity n = Some f" "unat capacity \<le> 2 ^ 63"
  obtains k where "fan_inv k n (fan_start f)" "unat capacity \<le> 2 ^ k"
proof -
  obtain k f' where "MpmcFanout capacity n = Some f'" "mf_ok k f'" "unat capacity \<le> 2 ^ k"
    "mf_num_readers f' = n" "\<And>i. i < n \<Longrightarrow> mf_backlog i f' = []" "mf_write_seq f' = 0"
    using MpmcFanout_new [OF assms(2), of n] by metis
  then show ?thesis using assms(1) by (intro that [of k]) (simp_all add: fan_inv_def fan_start_def)
qed

text \<open>The writer never stores into a slot that a reader is copying.\<close>

lemma fan_no_race:
  assumes "fan_inv k n s" "fs_push s = FanStore m w" "i < n" "fs_pops s ! i = PopCopy h"
  shows "unat (w AND mf_mask (fs_fan s)) \<noteq> unat (h AND mf_mask (fs_fan s))"
proof
  let ?f = "fs_fan s"
  let ?other = "\<lambda>m. ?f\<lparr>mf_buf := (mf_buf ?f)[unat (mf_write_seq ?f AND mf_mask ?f) := m]\<rparr>"
  have at: "mf_ok k ?f" "\<forall>j<mf_num_readers ?f. mf_count j ?f < 2 ^ k" "i < mf_num_readers ?f"
    "w = mf_write_seq ?f" "h = mf_read_seq ?f ! i" "mf_read_seq ?f ! i \<noteq> mf_write_seq ?f"
    using assms by (auto simp: fan_inv_def)
  assume "unat (w AND mf_mask ?f) = unat (h AND mf_mask ?f)"
  then have "mf_buf (?other m) ! unat (mf_read_seq ?f ! i AND mf_mask ?f) = m" for m
    using mf_store_keeps(2) [OF at(1,2), of m] at(4,5) by simp
  moreover have "mf_buf (?other m) ! unat (mf_read_seq ?f ! i AND mf_mask ?f) =
      mf_buf ?f ! unat (mf_read_seq ?f ! i AND mf_mask ?f)" for m
    by (rule mf_store_keeps(4) [OF at(1,2,3,6)])
  ultimately have "tick_zero = tick_zero\<lparr>tm_quantity := 1\<rparr>" by metis
  then show False by (simp add: tick_zero_def)
qed

end
