(* ===== verification/Mem_Pool.thy ===== *)
theory Mem_Pool
  imports PF_Prelude
begin

text \<open>
  The fixed-capacity object pool (\<open>include/mem_pool.hpp\<close>): a free list threaded through the unused
  slots. A slot is a union: it holds either a link of the free list or what the client stored in the
  object. Pointers to slots are their indices. Shown: an object in use is never handed out again nor
  overwritten by the pool, exactly \<open>Capacity\<close> objects can be in use, and a released object becomes
  available again; the pool never follows a link that a client has overwritten.
\<close>

datatype 'a pool_slot = NextFree "nat option" | Storage 'a

record 'a mem_pool =
  mp_slots :: "'a pool_slot list"
  mp_free_head :: "nat option"
  mp_available :: nat

definition MemPool :: "nat \<Rightarrow> 'a mem_pool" where
  "MemPool capacity = \<lparr>mp_slots = map (\<lambda>i. NextFree (if i + 1 < capacity then Some (i + 1) else None)) [0..<capacity],
     mp_free_head = (if 0 < capacity then Some 0 else None), mp_available = capacity\<rparr>"

text \<open>The outer \<open>None\<close>: the link was read from a slot that holds an object.\<close>

definition mp_acquire :: "'a mem_pool \<Rightarrow> (nat option \<times> 'a mem_pool) option" where
  "mp_acquire p = (case mp_free_head p of None \<Rightarrow> Some (None, p)
     | Some slot \<Rightarrow> (case mp_slots p ! slot of
         NextFree nxt \<Rightarrow> Some (Some slot, p\<lparr>mp_free_head := nxt, mp_available := mp_available p - 1\<rparr>)
       | Storage x \<Rightarrow> None))"

definition mp_release :: "nat \<Rightarrow> 'a mem_pool \<Rightarrow> 'a mem_pool" where
  "mp_release slot p = p\<lparr>mp_slots := (mp_slots p)[slot := NextFree (mp_free_head p)],
     mp_free_head := Some slot, mp_available := mp_available p + 1\<rparr>"

definition mp_capacity :: "'a mem_pool \<Rightarrow> nat" where
  "mp_capacity p = length (mp_slots p)"

text \<open>The client writes an object through the pointer it acquired.\<close>

definition mp_write :: "nat \<Rightarrow> 'a \<Rightarrow> 'a mem_pool \<Rightarrow> 'a mem_pool" where
  "mp_write slot v p = p\<lparr>mp_slots := (mp_slots p)[slot := Storage v]\<rparr>"

section \<open>The free list\<close>

fun free_path :: "'a pool_slot list \<Rightarrow> nat option \<Rightarrow> nat list \<Rightarrow> bool" where
  "free_path slots h [] \<longleftrightarrow> h = None"
| "free_path slots h (i # rest) \<longleftrightarrow> h = Some i \<and> i < length slots \<and> (\<exists>nxt. slots ! i = NextFree nxt \<and> free_path slots nxt rest)"

definition pool_ok :: "nat set \<Rightarrow> 'a mem_pool \<Rightarrow> bool" where
  "pool_ok used p \<longleftrightarrow> (\<exists>fl. free_path (mp_slots p) (mp_free_head p) fl \<and> distinct fl \<and>
     set fl = {..<mp_capacity p} - used \<and> used \<subseteq> {..<mp_capacity p} \<and> mp_available p = length fl)"

lemma free_path_update: "i \<notin> set fl \<Longrightarrow> free_path (slots[i := v]) h fl = free_path slots h fl"
  by (induction slots h fl rule: free_path.induct) auto

lemma pool_ok_new: "pool_ok {} (MemPool capacity :: 'a mem_pool)"
proof -
  let ?s = "mp_slots (MemPool capacity :: 'a mem_pool)"
  have slots: "length ?s = capacity" "\<And>i. i < capacity \<Longrightarrow> ?s ! i = NextFree (if Suc i < capacity then Some (Suc i) else None)"
    by (simp_all add: MemPool_def)
  have path: "free_path ?s (if i < capacity then Some i else None) [i..<capacity]" if "i \<le> capacity" for i
    using that
  proof (induction "capacity - i" arbitrary: i)
    case (Suc d)
    then have "free_path ?s (if Suc i < capacity then Some (Suc i) else None) [Suc i..<capacity]" by (intro Suc.hyps) auto
    moreover have "i < capacity" using Suc by simp
    ultimately show ?case using slots by (simp add: upt_conv_Cons)
  qed simp
  show ?thesis
    using path [of 0] unfolding pool_ok_def
    by (intro exI [of _ "[0..<capacity]"]) (auto simp: MemPool_def mp_capacity_def)
qed

lemma pool_ok_available: "pool_ok used p \<Longrightarrow> mp_available p = mp_capacity p - card used"
proof -
  assume "pool_ok used p"
  then obtain fl where "distinct fl" "set fl = {..<mp_capacity p} - used" "used \<subseteq> {..<mp_capacity p}" "mp_available p = length fl"
    by (auto simp: pool_ok_def)
  then have "mp_available p = card ({..<mp_capacity p} - used)" by (metis distinct_card)
  then show ?thesis using \<open>used \<subseteq> {..<mp_capacity p}\<close> by (simp add: card_Diff_subset finite_subset)
qed

text \<open>The pool hands out an unused slot, or nothing when all are in use.\<close>

lemma mp_acquire_law:
  assumes "pool_ok used p"
  shows "(used = {..<mp_capacity p} \<and> mp_acquire p = Some (None, p)) \<or>
    (\<exists>i p'. mp_acquire p = Some (Some i, p') \<and> i < mp_capacity p \<and> i \<notin> used \<and> pool_ok (insert i used) p' \<and>
       mp_slots p' = mp_slots p)"
proof -
  obtain fl where fl: "free_path (mp_slots p) (mp_free_head p) fl" "distinct fl"
    "set fl = {..<mp_capacity p} - used" "used \<subseteq> {..<mp_capacity p}" "mp_available p = length fl"
    using assms by (auto simp: pool_ok_def)
  show ?thesis
  proof (cases fl)
    case Nil
    then show ?thesis using fl by (auto simp: mp_acquire_def)
  next
    case (Cons i rest)
    then obtain nxt where i: "mp_free_head p = Some i" "i < mp_capacity p" "mp_slots p ! i = NextFree nxt"
      "free_path (mp_slots p) nxt rest"
      using fl(1) by (auto simp: mp_capacity_def)
    let ?p = "p\<lparr>mp_free_head := nxt, mp_available := mp_available p - 1\<rparr>"
    have "set rest = {..<mp_capacity p} - insert i used" using fl(2,3) Cons by auto
    then have "pool_ok (insert i used) ?p"
      using fl i Cons unfolding pool_ok_def by (intro exI [of _ rest]) (auto simp: mp_capacity_def)
    moreover have "i \<notin> used" using fl(3) Cons by auto
    ultimately show ?thesis using i by (simp add: mp_acquire_def)
  qed
qed

lemma mp_release_law:
  assumes "pool_ok used p" "i \<in> used"
  shows "pool_ok (used - {i}) (mp_release i p)"
proof -
  obtain fl where fl: "free_path (mp_slots p) (mp_free_head p) fl" "distinct fl"
    "set fl = {..<mp_capacity p} - used" "used \<subseteq> {..<mp_capacity p}" "mp_available p = length fl"
    using assms by (auto simp: pool_ok_def)
  have "i \<notin> set fl" "i < mp_capacity p" using fl assms(2) by auto
  then show ?thesis
    using fl assms(2) unfolding pool_ok_def
    by (intro exI [of _ "i # fl"]) (auto simp: mp_release_def mp_capacity_def free_path_update)
qed

lemma mp_write_law:
  assumes "pool_ok used p" "i \<in> used"
  shows "pool_ok used (mp_write i v p)"
proof -
  obtain fl where fl: "free_path (mp_slots p) (mp_free_head p) fl" "distinct fl"
    "set fl = {..<mp_capacity p} - used" "used \<subseteq> {..<mp_capacity p}" "mp_available p = length fl"
    using assms by (auto simp: pool_ok_def)
  then have "i \<notin> set fl" using assms(2) by auto
  then show ?thesis
    using fl unfolding pool_ok_def
    by (intro exI [of _ fl]) (auto simp: mp_write_def mp_capacity_def free_path_update)
qed

section \<open>A client of the pool\<close>

text \<open>A client that keeps its objects in a finite map: it acquires and writes, updates, and releases what
  it holds. The pool agrees with the map on every object.\<close>

datatype 'a pool_call = PoolNew 'a | PoolSet nat 'a | PoolFree nat

fun pool_do :: "'a pool_call \<Rightarrow> (nat \<rightharpoonup> 'a) \<times> 'a mem_pool \<Rightarrow> ((nat \<rightharpoonup> 'a) \<times> 'a mem_pool) option" where
  "pool_do (PoolNew v) (m, p) = (case mp_acquire p of None \<Rightarrow> None
     | Some (None, p') \<Rightarrow> Some (m, p')
     | Some (Some i, p') \<Rightarrow> Some (m(i \<mapsto> v), mp_write i v p'))"
| "pool_do (PoolSet i v) (m, p) = (if i \<in> dom m then Some (m(i \<mapsto> v), mp_write i v p) else Some (m, p))"
| "pool_do (PoolFree i) (m, p) = (if i \<in> dom m then Some (m(i := None), mp_release i p) else Some (m, p))"

fun pool_run :: "'a pool_call list \<Rightarrow> (nat \<rightharpoonup> 'a) \<times> 'a mem_pool \<Rightarrow> ((nat \<rightharpoonup> 'a) \<times> 'a mem_pool) option" where
  "pool_run [] s = Some s"
| "pool_run (c # cs) s = (case pool_do c s of None \<Rightarrow> None | Some s' \<Rightarrow> pool_run cs s')"

definition pool_agrees :: "(nat \<rightharpoonup> 'a) \<times> 'a mem_pool \<Rightarrow> bool" where
  "pool_agrees s = (case s of (m, p) \<Rightarrow> pool_ok (dom m) p \<and> (\<forall>i v. m i = Some v \<longrightarrow> mp_slots p ! i = Storage v))"

lemma mp_write_slots [simp]: "mp_slots (mp_write i v p) = (mp_slots p)[i := Storage v]"
  "mp_slots (mp_release i p) = (mp_slots p)[i := NextFree (mp_free_head p)]"
  by (simp_all add: mp_write_def mp_release_def)

lemma pool_ok_used: "pool_ok used p \<Longrightarrow> i \<in> used \<Longrightarrow> i < length (mp_slots p)"
  by (auto simp: pool_ok_def mp_capacity_def)

lemma pool_do_agrees:
  assumes "pool_agrees s"
  shows "\<exists>s'. pool_do c s = Some s' \<and> pool_agrees s' \<and> mp_capacity (snd s') = mp_capacity (snd s)"
proof -
  obtain m p where s: "s = (m, p)" by fastforce
  have ok: "pool_ok (dom m) p" "\<And>i v. m i = Some v \<Longrightarrow> mp_slots p ! i = Storage v"
    using assms s by (auto simp: pool_agrees_def)
  show ?thesis
  proof (cases c)
    case (PoolNew v)
    show ?thesis
      using mp_acquire_law [OF ok(1)]
    proof (elim disjE exE conjE)
      fix i p'
      assume a: "mp_acquire p = Some (Some i, p')" "i < mp_capacity p" "i \<notin> dom m" "pool_ok (insert i (dom m)) p'"
        "mp_slots p' = mp_slots p"
      then show ?thesis
        using s PoolNew ok mp_write_law [OF a(4), of i v]
        by (auto simp: pool_agrees_def mp_capacity_def nth_list_update)
    qed (use s PoolNew assms in simp)
  next
    case (PoolSet i v)
    then show ?thesis
      using s assms ok mp_write_law [OF ok(1), of i v] pool_ok_used [OF ok(1), of i]
      by (auto simp: pool_agrees_def mp_capacity_def nth_list_update insert_absorb domIff)
  next
    case (PoolFree i)
    then show ?thesis
      using s assms ok mp_release_law [OF ok(1), of i]
      by (auto simp: pool_agrees_def mp_capacity_def nth_list_update)
  qed
qed

lemma pool_run_agrees:
  assumes "pool_agrees s"
  shows "\<exists>s'. pool_run cs s = Some s' \<and> pool_agrees s' \<and> mp_capacity (snd s') = mp_capacity (snd s)"
  using assms
proof (induction cs arbitrary: s)
  case (Cons c cs)
  obtain s1 where s1: "pool_do c s = Some s1" "pool_agrees s1" "mp_capacity (snd s1) = mp_capacity (snd s)"
    using pool_do_agrees [OF Cons.prems, of c] by blast
  then show ?case using Cons.IH [of s1] by auto
qed simp

end
