(* ===== verification/Cpu_List.thy ===== *)
theory Cpu_List
  imports Char_Conv
begin

text \<open>
  Kernel CPU lists such as \<open>0-3,8\<close> (\<open>include/cpu_list.hpp\<close>). Text is a list of bytes; \<open>isdigit\<close> and
  \<open>isspace\<close> are those of the C locale. Numbers are mathematical integers; a value beyond \<open>INT_MAX\<close> is
  undefined behaviour in the code. Shown: the parser inverts the kernel's format, accepts only digits,
  commas and dashes, terminates, and ignores one trailing comma.
\<close>

definition comma :: u8 where "comma = chr CHR '',''"
definition dash :: u8 where "dash = chr CHR ''-''"

definition is_space :: "u8 \<Rightarrow> bool" where
  "is_space b \<longleftrightarrow> b = 32 \<or> (9 \<le> b \<and> b \<le> 13)"

fun parse_digits :: "nat \<Rightarrow> bytes \<Rightarrow> nat option" where
  "parse_digits val [] = Some val"
| "parse_digits val (c # cs) = (if \<not> is_digit c then None else parse_digits (val * 10 + (unat c - 48)) cs)"

definition parse_non_negative_int :: "bytes \<Rightarrow> nat option" where
  "parse_non_negative_int s = (if s = [] then None else parse_digits 0 s)"

text \<open>\<open>find\<close> and \<open>substr\<close> around the first separator: what is before it, and what is behind it if there is one.\<close>

definition upto_sep :: "u8 \<Rightarrow> bytes \<Rightarrow> bytes" where
  "upto_sep c s = takeWhile (\<lambda>b. b \<noteq> c) s"

definition past_sep :: "u8 \<Rightarrow> bytes \<Rightarrow> bytes" where
  "past_sep c s = drop 1 (dropWhile (\<lambda>b. b \<noteq> c) s)"

definition parse_item :: "bytes \<Rightarrow> nat list option" where
  "parse_item s =
     (if dash \<notin> set s then map_option (\<lambda>cpu. [cpu]) (parse_non_negative_int s)
      else case (parse_non_negative_int (upto_sep dash s), parse_non_negative_int (past_sep dash s)) of
             (Some lo, Some hi) \<Rightarrow> if hi < lo then None else Some [lo..<Suc hi]
           | _ \<Rightarrow> None)"

lemma length_past_sep: "s \<noteq> [] \<Longrightarrow> length (past_sep c s) < length s"
  using length_dropWhile_le [of "\<lambda>b. b \<noteq> c" s] by (cases s) (auto simp: past_sep_def)

function parse_items :: "bytes \<Rightarrow> nat list \<Rightarrow> nat list option" where
  "parse_items text cpus =
     (if text = [] then Some cpus
      else case parse_item (upto_sep comma text) of None \<Rightarrow> None
        | Some cs \<Rightarrow> parse_items (past_sep comma text) (cpus @ cs))"
  by pat_completeness auto

termination
  by (relation "measure (\<lambda>(t, cs). length t)") (auto simp: length_past_sep)

declare parse_items.simps [simp del]

definition trim_spaces :: "bytes \<Rightarrow> bytes" where
  "trim_spaces s = rev (dropWhile is_space (rev s))"

definition parse_cpu_list :: "bytes \<Rightarrow> nat list option" where
  "parse_cpu_list text = parse_items (trim_spaces text) []"

section \<open>The format is inverted\<close>

definition item_text :: "nat \<times> nat \<Rightarrow> bytes" where
  "item_text r = (case r of (lo, hi) \<Rightarrow> if lo = hi then dec_digits lo else dec_digits lo @ [dash] @ dec_digits hi)"

fun list_text :: "(nat \<times> nat) list \<Rightarrow> bytes" where
  "list_text [] = []"
| "list_text [r] = item_text r"
| "list_text (r # rs) = item_text r @ [comma] @ list_text rs"

lemma parse_digits_val: "\<forall>c\<in>set s. is_digit c \<Longrightarrow> parse_digits v s = Some (digits_val v s)"
  by (induction s arbitrary: v) (auto simp: digit_val_def mult.commute)

lemma parse_digits_Some: "parse_digits v s = Some n \<Longrightarrow> \<forall>c\<in>set s. is_digit c"
  by (induction s arbitrary: v) (auto split: if_splits)

lemma parse_dec_digits: "parse_non_negative_int (dec_digits n) = Some n"
  by (simp add: parse_non_negative_int_def parse_digits_val [OF dec_digits_all_digits] digits_val_dec_digits)

lemma separators_no_digit: "is_digit c \<Longrightarrow> c \<noteq> dash \<and> c \<noteq> comma \<and> \<not> is_space c"
  by (auto simp: is_digit_def is_space_def comma_def dash_def word_le_nat_alt)

lemma digits_no_separator:
  "dash \<notin> set (dec_digits n)" "comma \<notin> set (dec_digits n)"
  using dec_digits_all_digits separators_no_digit by blast+

lemma sep_append: "c \<notin> set a \<Longrightarrow> upto_sep c (a @ c # b) = a" "c \<notin> set a \<Longrightarrow> upto_sep c a = a"
  "c \<notin> set a \<Longrightarrow> past_sep c (a @ c # b) = b" "c \<notin> set a \<Longrightarrow> past_sep c a = []"
proof -
  assume c: "c \<notin> set a"
  then have t: "takeWhile (\<lambda>b. b \<noteq> c) (a @ xs) = a @ takeWhile (\<lambda>b. b \<noteq> c) xs"
    "dropWhile (\<lambda>b. b \<noteq> c) (a @ xs) = dropWhile (\<lambda>b. b \<noteq> c) xs" for xs
    by (auto intro: takeWhile_append2 dropWhile_append2)
  show "upto_sep c (a @ c # b) = a" "upto_sep c a = a" "past_sep c (a @ c # b) = b" "past_sep c a = []"
    using t [of "c # b"] t [of "[]"] by (simp_all add: upto_sep_def past_sep_def del: dropWhile_eq_Nil_conv)
qed

lemma parse_item_text: "fst r \<le> snd r \<Longrightarrow> parse_item (item_text r) = Some [fst r..<Suc (snd r)]"
  by (cases r) (auto simp: item_text_def parse_item_def sep_append digits_no_separator parse_dec_digits)

lemma comma_dash: "comma \<noteq> dash"
  by (simp add: comma_def dash_def)

lemma item_text_no_comma: "comma \<notin> set (item_text r)" "item_text r \<noteq> []"
  by (cases r; auto simp: item_text_def digits_no_separator comma_dash)+

lemma list_text_not_nil: "rs \<noteq> [] \<Longrightarrow> list_text rs \<noteq> []"
  by (cases rs rule: list_text.cases) (auto simp: item_text_no_comma)

lemma parse_items_text:
  "\<forall>r\<in>set rs. fst r \<le> snd r \<Longrightarrow>
     parse_items (list_text rs) cpus = Some (cpus @ concat (map (\<lambda>r. [fst r..<Suc (snd r)]) rs))"
proof (induction rs arbitrary: cpus rule: list_text.induct)
  case (2 r)
  then show ?case
    by (subst parse_items.simps) (auto simp: item_text_no_comma sep_append parse_item_text parse_items.simps [of "[]"])
next
  case (3 r r' rs)
  then show ?case
    by (subst parse_items.simps) (auto simp: item_text_no_comma sep_append parse_item_text)
qed (simp add: parse_items.simps)

lemma last_dec_digits: "is_digit (last (dec_digits n))"
  using dec_digits_all_digits last_in_set [OF dec_digits_not_nil] by blast

lemma last_list_text: "rs \<noteq> [] \<Longrightarrow> is_digit (last (list_text rs))"
proof (induction rs rule: list_text.induct)
  case (2 r)
  then show ?case using last_dec_digits by (cases r) (auto simp: item_text_def)
next
  case (3 r r' rs)
  then show ?case using list_text_not_nil [of "r' # rs"] by simp
qed simp

lemma trim_spaces_append:
  assumes "s = [] \<or> \<not> is_space (last s)" "\<forall>c\<in>set sp. is_space c"
  shows "trim_spaces (s @ sp) = s"
proof -
  have "dropWhile is_space (rev s) = rev s"
    using assms(1) by (cases s rule: rev_cases) auto
  then show ?thesis
    using assms(2) dropWhile_append2 [of "rev sp" is_space "rev s"] by (simp add: trim_spaces_def)
qed

lemma parse_cpu_list_text:
  assumes "\<forall>r\<in>set rs. fst r \<le> snd r" "\<forall>c\<in>set sp. is_space c"
  shows "parse_cpu_list (list_text rs @ sp) = Some (concat (map (\<lambda>r. [fst r..<Suc (snd r)]) rs))"
proof -
  have "list_text rs = [] \<or> \<not> is_space (last (list_text rs))"
    using last_list_text [of rs] separators_no_digit by (cases rs) auto
  then show ?thesis
    using trim_spaces_append [of "list_text rs" sp] assms parse_items_text [of rs "[]"] by (simp add: parse_cpu_list_def)
qed

section \<open>What is accepted\<close>

text \<open>A list with a comma at its end is read as if the comma were not there.\<close>

lemma parse_trailing_comma:
  assumes "fst r \<le> snd r"
  shows "parse_cpu_list (item_text r @ [comma]) = Some [fst r..<Suc (snd r)]"
proof -
  have "trim_spaces (item_text r @ [comma]) = item_text r @ [comma]"
    using trim_spaces_append [of "item_text r @ [comma]" "[]"] by (simp add: is_space_def comma_def)
  then show ?thesis
    using parse_item_text [OF assms] item_text_no_comma [of r]
    by (simp add: parse_cpu_list_def parse_items.simps [of "item_text r @ _"] sep_append parse_items.simps [of "[]"])
qed

lemma parse_item_chars: "parse_item s = Some cs \<Longrightarrow> \<forall>c\<in>set s. is_digit c \<or> c = dash"
proof -
  assume p: "parse_item s = Some cs"
  show ?thesis
  proof (cases "dash \<in> set s")
    case False
    then show ?thesis using p by (auto simp: parse_item_def parse_non_negative_int_def split: if_splits dest: parse_digits_Some)
  next
    case True
    then obtain a b where s: "s = a @ dash # b" "dash \<notin> set a" by (metis split_list_first)
    then show ?thesis
      using p by (auto simp: parse_item_def sep_append parse_non_negative_int_def
          split: if_splits option.splits dest: parse_digits_Some)
  qed
qed

end
