(* ===== verification/Ws_Server.thy ===== *)
theory Ws_Server
  imports Tick_Recovery "HOL-Library.Multiset"
begin

text \<open>
  The WebSocket server of the telemetry bridge: SHA-1 (\<open>include/sha1.hpp\<close>), base64, the HTTP upgrade
  handshake, text frames and the broadcast to the connected clients (\<open>src/ws_server.cpp\<close>). A client's
  request is the list of bytes that arrive (its end: error or end of stream); what \<open>send\<close> accepts is
  a list of counts per call, as in \<open>Tick_Recovery\<close>, whose \<open>send_full\<close> this file repeats.
\<close>

section \<open>SHA-1\<close>

definition rotl :: "u32 \<Rightarrow> nat \<Rightarrow> u32" where
  "rotl v n = push_bit n v OR drop_bit (32 - n) v"

definition fill_left :: "nat \<Rightarrow> nat" where
  "fill_left n = (if n mod 64 \<le> 56 then 56 - n mod 64 else 120 - n mod 64)"

lemma fill_left_Suc: "n mod 64 \<noteq> 56 \<Longrightarrow> fill_left (Suc n) < fill_left n"
  using mod_less_divisor [of 64 n] by (auto simp: fill_left_def mod_Suc)

function sha1_fill :: "bytes \<Rightarrow> bytes" where
  "sha1_fill msg = (if length msg mod 64 \<noteq> 56 then sha1_fill (msg @ [0]) else msg)"
  by pat_completeness auto

termination
  by (relation "measure (\<lambda>msg. fill_left (length msg))") (auto simp: fill_left_Suc)

declare sha1_fill.simps [simp del]

definition sha1_pad :: "bytes \<Rightarrow> bytes" where
  "sha1_pad input = sha1_fill (input @ [0x80]) @
     map (\<lambda>i. ucast (drop_bit (i * 8) (of_nat (length input) * 8 :: u64) AND 0xff)) (rev [0..<8])"

definition sha1_word :: "bytes \<Rightarrow> nat \<Rightarrow> u32" where
  "sha1_word chunk i = push_bit 24 (ucast (chunk ! (i * 4))) OR push_bit 16 (ucast (chunk ! (i * 4 + 1))) OR
     push_bit 8 (ucast (chunk ! (i * 4 + 2))) OR ucast (chunk ! (i * 4 + 3))"

definition sha1_schedule :: "bytes \<Rightarrow> u32 list" where
  "sha1_schedule chunk = fold (\<lambda>i w. w @ [rotl (w ! (i - 3) XOR w ! (i - 8) XOR w ! (i - 14) XOR w ! (i - 16)) 1])
     [16..<80] (map (sha1_word chunk) [0..<16])"

type_synonym sha1_state = "u32 \<times> u32 \<times> u32 \<times> u32 \<times> u32"

definition sha1_round :: "u32 list \<Rightarrow> nat \<Rightarrow> sha1_state \<Rightarrow> sha1_state" where
  "sha1_round w i s = (case s of (a, b, c, d, e) \<Rightarrow>
     let (f, k) = (if i < 20 then ((b AND c) OR (NOT b AND d), 0x5A827999)
                   else if i < 40 then (b XOR c XOR d, 0x6ED9EBA1)
                   else if i < 60 then ((b AND c) OR (b AND d) OR (c AND d), 0x8F1BBCDC)
                   else (b XOR c XOR d, 0xCA62C1D6));
         temp = rotl a 5 + f + e + k + w ! i
     in (temp, a, rotl b 30, c, d))"

definition sha1_chunk :: "bytes \<Rightarrow> sha1_state \<Rightarrow> sha1_state" where
  "sha1_chunk chunk h = (case (h, fold (sha1_round (sha1_schedule chunk)) [0..<80] h) of
     ((h0, h1, h2, h3, h4), (a, b, c, d, e)) \<Rightarrow> (h0 + a, h1 + b, h2 + c, h3 + d, h4 + e))"

definition sha1_init :: sha1_state where
  "sha1_init = (0x67452301, 0xEFCDAB89, 0x98BADCFE, 0x10325476, 0xC3D2E1F0)"

function sha1_chunks :: "bytes \<Rightarrow> sha1_state \<Rightarrow> sha1_state" where
  "sha1_chunks msg h = (if msg = [] then h else sha1_chunks (drop 64 msg) (sha1_chunk (take 64 msg) h))"
  by pat_completeness auto

termination
  by (relation "measure (\<lambda>(msg, h). length msg)") auto

declare sha1_chunks.simps [simp del]

definition sha1 :: "bytes \<Rightarrow> bytes" where
  "sha1 input = (case sha1_chunks (sha1_pad input) sha1_init of (h0, h1, h2, h3, h4) \<Rightarrow>
     concat (map u32_be [h0, h1, h2, h3, h4]))"

section \<open>base64\<close>

definition kTable :: bytes where
  "kTable = str ''ABCDEFGHIJKLMNOPQRSTUVWXYZabcdefghijklmnopqrstuvwxyz0123456789+/''"

definition b64_char :: "u32 \<Rightarrow> nat \<Rightarrow> u8" where
  "b64_char n k = kTable ! unat (drop_bit k n AND 0x3f)"

fun base64_encode :: "bytes \<Rightarrow> bytes" where
  "base64_encode (x # y # z # rest) =
     (let n = push_bit 16 (ucast x) OR push_bit 8 (ucast y) OR ucast z
      in [b64_char n 18, b64_char n 12, b64_char n 6, b64_char n 0] @ base64_encode rest)"
| "base64_encode [x] = (let n = push_bit 16 (ucast x) in [b64_char n 18, b64_char n 12, 61, 61])"
| "base64_encode [x, y] = (let n = push_bit 16 (ucast x) OR push_bit 8 (ucast y)
     in [b64_char n 18, b64_char n 12, b64_char n 6, 61])"
| "base64_encode [] = []"

section \<open>The handshake\<close>

definition crlf2 :: bytes where
  "crlf2 = [13, 10, 13, 10]"

fun read_http_headers :: "bytes \<Rightarrow> bytes \<Rightarrow> bytes" where
  "read_http_headers req [] = []"
| "read_http_headers req (c # cs) =
     (if length req < 8192
      then let req' = req @ [c]
           in if 4 \<le> length req' \<and> drop (length req' - 4) req' = crlf2 then req' else read_http_headers req' cs
      else [])"

text \<open>\<open>std::string::find\<close>.\<close>

fun find_sub :: "bytes \<Rightarrow> bytes \<Rightarrow> nat option" where
  "find_sub pat s = (if take (length pat) s = pat then Some 0
     else case s of [] \<Rightarrow> None | c # cs \<Rightarrow> map_option Suc (find_sub pat cs))"

declare find_sub.simps [simp del]

definition is_blank :: "u8 \<Rightarrow> bool" where
  "is_blank b \<longleftrightarrow> b = 32 \<or> b = 9"

definition trim_blanks :: "bytes \<Rightarrow> bytes" where
  "trim_blanks v = rev (dropWhile is_blank (rev (dropWhile is_blank v)))"

definition extract_header :: "bytes \<Rightarrow> bytes \<Rightarrow> bytes" where
  "extract_header headers name = (case find_sub (name @ str '':'') headers of None \<Rightarrow> []
     | Some pos \<Rightarrow> let rest = drop (pos + length name + 1) headers
         in trim_blanks (case find_sub [13, 10] rest of None \<Rightarrow> rest | Some e \<Rightarrow> take e rest))"

definition kWsMagicGuid :: bytes where
  "kWsMagicGuid = str ''258EAFA5-E914-47DA-95CA-C5AB0DC85B11''"

definition ws_response :: "bytes \<Rightarrow> bytes" where
  "ws_response key = str ''HTTP/1.1 101 Switching Protocols'' @ [13, 10] @ str ''Upgrade: websocket'' @ [13, 10] @
     str ''Connection: Upgrade'' @ [13, 10] @ str ''Sec-WebSocket-Accept: '' @
     base64_encode (sha1 (key @ kWsMagicGuid)) @ crlf2"

definition perform_handshake :: "bytes \<Rightarrow> nat list \<Rightarrow> bool \<times> bytes" where
  "perform_handshake input sends =
     (let headers = read_http_headers [] input
      in if headers = [] then (False, [])
         else let key = extract_header headers (str ''Sec-WebSocket-Key'')
           in if key = [] then (False, [])
              else case send_full (ws_response key) sends of (ok, out, _) \<Rightarrow> (ok, out))"

section \<open>Frames and broadcast\<close>

definition build_text_frame :: "bytes \<Rightarrow> bytes" where
  "build_text_frame payload = [0x81] @
     (if length payload \<le> 125 then [of_nat (length payload)]
      else if length payload \<le> 0xffff then 126 # u16_be (of_nat (length payload))
      else 127 # u64_be (of_nat (length payload))) @ payload"

record ws_server =
  ws_clients :: "nat list"
  ws_closed :: "nat list"
  ws_stop :: bool

definition ws_accept :: "nat \<Rightarrow> bytes \<Rightarrow> nat list \<Rightarrow> ws_server \<Rightarrow> ws_server" where
  "ws_accept client_fd input sends ws =
     (if ws_stop ws then ws
      else if \<not> fst (perform_handshake input sends) then ws\<lparr>ws_closed := ws_closed ws @ [client_fd]\<rparr>
      else ws\<lparr>ws_clients := ws_clients ws @ [client_fd]\<rparr>)"

text \<open>The clients that took the whole frame, and the others, in order.\<close>

fun broadcast_loop :: "bytes \<Rightarrow> (nat \<Rightarrow> nat list) \<Rightarrow> nat list \<Rightarrow> nat list \<times> nat list" where
  "broadcast_loop frame sends [] = ([], [])"
| "broadcast_loop frame sends (fd # fds) = (case broadcast_loop frame sends fds of (alive, dead) \<Rightarrow>
     if fst (send_full frame (sends fd)) then (fd # alive, dead) else (alive, fd # dead))"

definition broadcast_text :: "bytes \<Rightarrow> (nat \<Rightarrow> nat list) \<Rightarrow> ws_server \<Rightarrow> ws_server" where
  "broadcast_text payload sends ws =
     (case broadcast_loop (build_text_frame payload) sends (ws_clients ws) of (alive, dead) \<Rightarrow>
        ws\<lparr>ws_clients := alive, ws_closed := ws_closed ws @ dead\<rparr>)"

definition ws_stop_server :: "ws_server \<Rightarrow> ws_server" where
  "ws_stop_server ws = (if ws_stop ws then ws
     else ws\<lparr>ws_stop := True, ws_closed := ws_closed ws @ ws_clients ws, ws_clients := []\<rparr>)"

definition client_count :: "ws_server \<Rightarrow> nat" where
  "client_count ws = length (ws_clients ws)"

section \<open>Padding\<close>

lemma sha1_fill_eq: "sha1_fill msg = msg @ replicate (fill_left (length msg)) 0"
proof (induction msg rule: sha1_fill.induct)
  case (1 msg)
  show ?case
  proof (cases "length msg mod 64 = 56")
    case True
    then show ?thesis by (simp add: sha1_fill.simps [of msg] fill_left_def)
  next
    case False
    have "fill_left (length msg) = Suc (fill_left (Suc (length msg)))"
      using False mod_less_divisor [of 64 "length msg"] by (auto simp: fill_left_def mod_Suc)
    then show ?thesis using 1 False by (simp add: sha1_fill.simps [of msg])
  qed
qed

lemma fill_left_mod: "(n + fill_left n) mod 64 = 56"
proof -
  have "(n + fill_left n) mod 64 = (n mod 64 + fill_left n) mod 64" by (simp add: mod_simps)
  also have "n mod 64 + fill_left n = 56 \<or> n mod 64 + fill_left n = 120"
    using mod_less_divisor [of 64 n] by (auto simp: fill_left_def)
  then have "(n mod 64 + fill_left n) mod 64 = 56" by auto
  finally show ?thesis .
qed

text \<open>The padded message is the input, a 1 bit, zeros, and the length in bits, in whole blocks.\<close>

lemma sha1_pad_layout:
  "sha1_pad input = input @ [0x80] @ replicate (fill_left (Suc (length input))) 0 @
     map (\<lambda>i. ucast (drop_bit (i * 8) (of_nat (length input) * 8 :: u64) AND 0xff)) (rev [0..<8])"
  by (simp add: sha1_pad_def sha1_fill_eq)

lemma sha1_pad_blocks: "length (sha1_pad input) mod 64 = 0"
proof -
  have "length (sha1_pad input) = Suc (length input) + fill_left (Suc (length input)) + 8"
    by (simp add: sha1_pad_layout)
  then have "length (sha1_pad input) mod 64 = ((Suc (length input) + fill_left (Suc (length input))) mod 64 + 8) mod 64"
    by (simp only: mod_add_left_eq)
  then show ?thesis by (simp only: fill_left_mod) simp
qed

lemma length_sha1: "length (sha1 input) = 20"
  by (simp add: sha1_def split: prod.splits)

section \<open>base64 is invertible\<close>

text \<open>A decoder for the alphabet.\<close>

definition b64_val :: "u8 \<Rightarrow> nat" where
  "b64_val c = length (takeWhile (\<lambda>x. x \<noteq> c) kTable)"

fun base64_decode :: "bytes \<Rightarrow> bytes" where
  "base64_decode (p # q # r # s # rest) =
     (let n = (of_nat (b64_val p * 262144 + b64_val q * 4096 +
                (if r = 61 then 0 else b64_val r * 64) + (if s = 61 then 0 else b64_val s)) :: u32);
          out = [ucast (drop_bit 16 n), ucast (drop_bit 8 n), ucast n]
      in take (if r = 61 then 1 else if s = 61 then 2 else 3) out @ base64_decode rest)"
| "base64_decode _ = []"

lemma kTable_facts: "length kTable = 64" "distinct kTable" "61 \<notin> set kTable"
  by (simp_all add: kTable_def str_def)

lemma b64_val_nth: "i < 64 \<Longrightarrow> b64_val (kTable ! i) = i"
proof -
  assume i: "i < 64"
  have "takeWhile (\<lambda>x. x \<noteq> kTable ! i) kTable = take i kTable"
    using i kTable_facts(1,2) by (intro takeWhile_eq_take_P_nth) (auto simp: nth_eq_iff_index_eq)
  then show ?thesis using i kTable_facts(1) by (simp add: b64_val_def)
qed

lemma b64_char_facts: "b64_val (b64_char n k) = unat (drop_bit k n AND 0x3f)" "b64_char n k \<noteq> 61"
proof -
  have "unat (drop_bit k n AND 0x3f) = unat (take_bit 6 (drop_bit k n))"
    by (simp add: take_bit_eq_mask mask_eq_exp_minus_1)
  then have "unat (drop_bit k n AND 0x3f) < 64"
    by (simp only: unsigned_take_bit_eq) (simp add: take_bit_eq_mod)
  then show "b64_val (b64_char n k) = unat (drop_bit k n AND 0x3f)" "b64_char n k \<noteq> 61"
    using b64_val_nth kTable_facts(1,3) by (auto simp: b64_char_def) (metis nth_mem)
qed

lemma sextet_bits: "drop_bit k (n :: u32) AND 0x3f = take_bit 6 (drop_bit k n)"
  by (simp add: take_bit_eq_mask mask_eq_exp_minus_1)

lemma unat_sextet: "unat (drop_bit k (n :: u32) AND 0x3f) = unat n div 2 ^ k mod 64"
proof -
  have "unat n < 2 ^ LENGTH(32)" by (rule unsigned_less)
  then show ?thesis
    by (simp only: sextet_bits unsigned_take_bit_eq unsigned_drop_bit_eq) (simp add: take_bit_eq_mod drop_bit_eq_div)
qed

lemma sextets_sum:
  assumes "N < (16777216 :: nat)"
  shows "N div 262144 mod 64 * 262144 + N div 4096 mod 64 * 4096 + N div 64 mod 64 * 64 + N mod 64 = N"
proof -
  define q1 q2 q3 where "q1 = N div 64" and "q2 = q1 div 64" and "q3 = q2 div 64"
  have d: "N div 4096 = q2" "N div 262144 = q3"
    by (simp_all add: q1_def q2_def q3_def div_mult2_eq [symmetric])
  have "q3 < 64" using assms by (simp add: q1_def q2_def q3_def less_mult_imp_div_less)
  then have "q3 mod 64 = q3" by simp
  moreover have "N = 64 * q1 + N mod 64" "q1 = 64 * q2 + q1 mod 64" "q2 = 64 * q3 + q2 mod 64"
    by (simp_all add: q1_def q2_def q3_def)
  ultimately show ?thesis unfolding d q1_def [symmetric] by linarith
qed

lemma b64_group:
  assumes "unat (n :: u32) < 16777216"
  shows "of_nat (b64_val (b64_char n 18) * 262144 + b64_val (b64_char n 12) * 4096 + b64_val (b64_char n 6) * 64 +
    b64_val (b64_char n 0)) = n"
proof -
  have pow: "(2::nat) ^ 18 = 262144" "(2::nat) ^ 12 = 4096" "(2::nat) ^ 6 = 64" by simp_all
  have "b64_val (b64_char n 18) * 262144 + b64_val (b64_char n 12) * 4096 + b64_val (b64_char n 6) * 64 +
      b64_val (b64_char n 0) = unat n"
    using sextets_sum [OF assms] pow by (simp only: b64_char_facts unat_sextet power_0 div_by_1)
  moreover have "of_nat (unat n) = n" by simp
  ultimately show ?thesis by (simp only:)
qed

definition octets :: "u8 \<Rightarrow> u8 \<Rightarrow> u8 \<Rightarrow> u32" where
  "octets x y z = push_bit 16 (ucast x) OR push_bit 8 (ucast y) OR ucast z"

lemma octets_parts:
  "ucast (drop_bit 16 (octets x y z)) = x" "ucast (drop_bit 8 (octets x y z)) = y" "ucast (octets x y z) = z"
  by (auto simp: octets_def bit_eq_iff bit_simps)

lemma octets_small: "unat (octets x y z) < 16777216"
proof -
  have "take_bit 24 (octets x y z) = octets x y z"
    by (auto simp: octets_def bit_eq_iff bit_simps)
  then have "unat (octets x y z) = take_bit 24 (unat (octets x y z))" by (metis unsigned_take_bit_eq)
  moreover have "take_bit 24 (unat (octets x y z)) < 2 ^ 24" by (rule take_bit_nat_less_exp)
  ultimately show ?thesis by simp
qed

lemma base64_octets:
  "base64_encode (x # y # z # rest) = (let n = octets x y z
     in [b64_char n 18, b64_char n 12, b64_char n 6, b64_char n 0] @ base64_encode rest)"
  "base64_encode [x] = (let n = octets x 0 0 in [b64_char n 18, b64_char n 12, 61, 61])"
  "base64_encode [x, y] = (let n = octets x y 0 in [b64_char n 18, b64_char n 12, b64_char n 6, 61])"
  by (simp_all add: octets_def)

text \<open>The sextets that the padding replaces are zero.\<close>

lemma octets_pad: "b64_val (b64_char (octets x y 0) 0) = 0" "b64_val (b64_char (octets x 0 0) 6) = 0"
  by (simp_all only: b64_char_facts unat_eq_0 sextet_bits) (auto simp: octets_def bit_eq_iff bit_simps)

lemma base64_roundtrip: "base64_decode (base64_encode bs) = bs"
proof (induction bs rule: base64_encode.induct)
  case (1 x y z rest)
  then show ?case
    using b64_group [OF octets_small, of x y z]
    by (simp add: base64_octets Let_def b64_char_facts(2) octets_parts del: base64_encode.simps)
next
  case (2 x)
  then show ?case
    using b64_group [OF octets_small, of x 0 0] octets_pad
    by (simp add: base64_octets Let_def b64_char_facts(2) octets_parts del: base64_encode.simps)
next
  case (3 x y)
  then show ?case
    using b64_group [OF octets_small, of x y 0] octets_pad
    by (simp add: base64_octets Let_def b64_char_facts(2) octets_parts del: base64_encode.simps)
qed simp

section \<open>Frames are recovered by the peer\<close>

text \<open>A reader of unmasked final text frames, as the browser has it.\<close>

definition frame_split :: "bytes \<Rightarrow> (bytes \<times> bytes) option" where
  "frame_split s =
     (if length s < 2 \<or> s ! 0 \<noteq> 0x81 then None
      else let (n, body) = (if unat (s ! 1) \<le> 125 then (unat (s ! 1), drop 2 s)
                            else if s ! 1 = 126 then (unat (get_u16 s 2), drop 4 s)
                            else (unat (get_u64 s 2), drop 10 s))
        in if length body < n then None else Some (take n body, drop n body))"

lemma frame_split_build:
  assumes "length payload < 2 ^ 64"
  shows "frame_split (build_text_frame payload @ rest) = Some (payload, rest)"
proof -
  consider "length payload \<le> 125" | "125 < length payload" "length payload \<le> 0xffff" | "0xffff < length payload" by linarith
  then show ?thesis
  proof cases
    case 1
    then have "unat (of_nat (length payload) :: u8) = length payload" by (intro unat_of_nat_id) simp
    then show ?thesis using 1 by (simp add: frame_split_def build_text_frame_def)
  next
    case 2
    let ?s = "[0x81, 126] @ u16_be (of_nat (length payload)) @ payload @ rest"
    have "get_u16 ?s 2 = of_nat (length payload)"
      using get_u16_at [of "[0x81, 126]" "of_nat (length payload)" "payload @ rest"] by (simp add: numeral_2_eq_2)
    moreover have "unat (of_nat (length payload) :: u16) = length payload" using 2 by (intro unat_of_nat_id) simp
    ultimately show ?thesis using 2 by (simp add: frame_split_def build_text_frame_def)
  next
    case 3
    let ?s = "[0x81, 127] @ u64_be (of_nat (length payload)) @ payload @ rest"
    have "get_u64 ?s 2 = of_nat (length payload)"
      using get_u64_at [of "[0x81, 127]" "of_nat (length payload)" "payload @ rest"] by (simp add: numeral_2_eq_2)
    moreover have "unat (of_nat (length payload) :: u64) = length payload" using assms by (intro unat_of_nat_id) simp
    ultimately show ?thesis using 3 by (simp add: frame_split_def build_text_frame_def)
  qed
qed

section \<open>Broadcast and handshake\<close>

lemma broadcast_loop_split:
  "broadcast_loop frame sends fds =
     (filter (\<lambda>fd. fst (send_full frame (sends fd))) fds, filter (\<lambda>fd. \<not> fst (send_full frame (sends fd))) fds)"
  by (induction fds) auto

lemma broadcast_text_clients:
  "ws_clients (broadcast_text payload sends ws) =
     filter (\<lambda>fd. fst (send_full (build_text_frame payload) (sends fd))) (ws_clients ws)"
  "mset (ws_clients (broadcast_text payload sends ws)) + mset (ws_closed (broadcast_text payload sends ws)) =
     mset (ws_clients ws) + mset (ws_closed ws)"
  by (simp_all add: broadcast_text_def broadcast_loop_split)

text \<open>The request is the shortest prefix of the input that ends with an empty line.\<close>

lemma read_http_headers_prefix:
  "read_http_headers req input = h \<Longrightarrow> h \<noteq> [] \<Longrightarrow> \<exists>k>0. h = req @ take k input \<and> k \<le> length input \<and>
     length h \<le> 8192 \<and> drop (length h - 4) h = crlf2"
proof (induction req input rule: read_http_headers.induct)
  case (2 req c cs)
  show ?case
  proof (cases "length req < 8192 \<and> \<not> (4 \<le> length (req @ [c]) \<and> drop (length (req @ [c]) - 4) (req @ [c]) = crlf2)")
    case True
    then have "read_http_headers (req @ [c]) cs = h" using 2(2) by (auto simp: Let_def)
    then obtain k where "k > 0" "h = (req @ [c]) @ take k cs" "k \<le> length cs" "length h \<le> 8192"
      "drop (length h - 4) h = crlf2"
      using 2(1) [OF _ refl] True 2(3) by blast
    then show ?thesis by (intro exI [of _ "Suc k"]) auto
  next
    case False
    then show ?thesis using 2(2,3) by (intro exI [of _ 1]) (auto simp: Let_def split: if_splits)
  qed
qed simp

end
