(* ===== verification/Telemetry.thy ===== *)
theory Telemetry
  imports Ws_Server Char_Conv
begin

text \<open>
  The telemetry bridge (\<open>src/telemetry_bridge.cpp\<close>): it polls the shared counters and the event ring,
  renders what is new as JSON and broadcasts it. Output of \<open>operator<<\<close> for integers is their decimal
  text. Here a poll is one step on a ring at rest. Shown: it reports exactly the events recorded since the
  previous one, except those that the ring has already overwritten; with no client nothing is consumed.
  The accesses of writers and bridge interleaved are in \<open>Event_Steps\<close>.
\<close>

fun event_type_name :: "u8 \<Rightarrow> bytes" where
  "event_type_name t = (if t = 0 then str ''received'' else if t = 1 then str ''invalid'' else if t = 2 then str ''gap''
     else if t = 3 then str ''recovered'' else if t = 4 then str ''processed'' else if t = 5 then str ''queue_full''
     else str ''unknown'')"

definition transport_name :: "int \<Rightarrow> bytes" where
  "transport_name t = (if t = 1 then str ''multicast'' else str ''unicast'')"

definition tb_queue_kind_name :: "int \<Rightarrow> bytes" where
  "tb_queue_kind_name k = (if k = 1 then str ''spsc'' else if k = 2 then str ''disruptor'' else str ''mutex'')"

text \<open>The characters of a C string up to its terminating zero, quotes and backslashes escaped.\<close>

fun json_escape :: "bytes \<Rightarrow> bytes" where
  "json_escape [] = []"
| "json_escape (c # cs) = (if c = 0 then []
     else (if c = 34 \<or> c = 92 then [92, c] else [c]) @ json_escape cs)"

definition dec_u64 :: "u64 \<Rightarrow> bytes" where
  "dec_u64 v = dec_digits (unat v)"

definition dec_int :: "int \<Rightarrow> bytes" where
  "dec_int i = (if i < 0 then chr CHR ''-'' # dec_digits (nat (- i)) else dec_digits (nat i))"

text \<open>A JSON json_member \<open>"name":value\<close>.\<close>

definition json_member :: "string \<Rightarrow> bytes \<Rightarrow> bytes" where
  "json_member name val = [34] @ str name @ [34, 58] @ val"

definition quoted :: "bytes \<Rightarrow> bytes" where
  "quoted s = [34] @ s @ [34]"

fun commas :: "bytes list \<Rightarrow> bytes" where
  "commas [] = []"
| "commas [x] = x"
| "commas (x # xs) = x @ [44] @ commas xs"

definition stats_json :: "shared_stats \<Rightarrow> bytes" where
  "stats_json s = str ''{'' @ json_member ''stats'' (str ''{'' @ commas
     [json_member ''received'' (dec_u64 (st_received s)), json_member ''invalid'' (dec_u64 (st_invalid s)),
      json_member ''gaps'' (dec_u64 (st_sequence_gaps s)), json_member ''reorders'' (dec_u64 (st_reorders s)),
      json_member ''queue_full'' (dec_u64 (st_queue_full s)), json_member ''recovered'' (dec_u64 (st_recovered s)),
      json_member ''processed'' (dec_u64 (st_processed s)), json_member ''queue_depth'' (dec_u64 (st_queue_depth s)),
      json_member ''avg_latency_ns'' (dec_u64 (if st_processed s \<noteq> 0 then st_latency_total_ns s div st_processed s else 0)),
      json_member ''max_latency_ns'' (dec_u64 (st_latency_max_ns s))] @ str ''}'') @ [44]"

definition bool_json :: "int \<Rightarrow> bytes" where
  "bool_json i = (if i \<noteq> 0 then str ''true'' else str ''false'')"

definition config_json :: "shared_config \<Rightarrow> bytes" where
  "config_json c = (if sc_ready c = 0 then [] else json_member ''config'' (str ''{'' @ commas
     [json_member ''transport'' (quoted (transport_name (sc_transport c))),
      json_member ''multicast_group'' (quoted (json_escape (sc_multicast_group c))),
      json_member ''queue_kind'' (quoted (tb_queue_kind_name (sc_queue_kind c))),
      json_member ''workers'' (dec_int (sc_workers c)), json_member ''batch'' (dec_int (sc_batch c)),
      json_member ''busy_poll_us'' (dec_int (sc_busy_poll_us c)), json_member ''bpf_filter'' (bool_json (sc_bpf_filter c)),
      json_member ''recovery_enabled'' (bool_json (sc_recovery_enabled c)), json_member ''port'' (dec_int (sc_port c))] @
      str ''}'') @ [44])"

definition event_json :: "ring_event \<Rightarrow> bytes" where
  "event_json e = str ''{'' @ commas
     [json_member ''type'' (quoted (event_type_name (ev_type e))), json_member ''seq'' (dec_u64 (ev_sequence e)),
      json_member ''ts_ns'' (dec_u64 (ev_ts_ns e)), json_member ''latency_ns'' (dec_u64 (ev_latency_ns e)),
      json_member ''worker_id'' (dec_digits (unat (ev_worker_id e)))] @ str ''}''"

lemma unat_gap_step: "idx \<noteq> (current :: u64) \<Longrightarrow> unat (current - (idx + 1)) < unat (current - idx)"
proof -
  assume "idx \<noteq> current"
  then have "current - idx \<noteq> 0" by simp
  then have "1 \<le> current - idx" by (simp add: word_le_nat_alt Suc_le_eq unat_gt_0)
  then have "unat (current - idx - 1) = unat (current - idx) - 1" by (simp add: unat_sub_if_le)
  moreover have "0 < unat (current - idx)" using \<open>current - idx \<noteq> 0\<close> by (simp add: unat_gt_0)
  ultimately show ?thesis by (simp add: diff_diff_eq)
qed

text \<open>The loop over the new events.\<close>

function read_events :: "event_ring \<Rightarrow> u64 \<Rightarrow> u64 \<Rightarrow> ring_event list" where
  "read_events ring idx current = (if idx = current then []
     else er_events ring ! unat (idx mod of_nat kEventRingCapacity) # read_events ring (idx + 1) current)"
  by pat_completeness auto

termination
  by (relation "measure (\<lambda>(ring, idx, current). unat (current - idx))") (auto simp: unat_gap_step)

declare read_events.simps [simp del]

definition first_unread :: "u64 \<Rightarrow> u64 \<Rightarrow> u64" where
  "first_unread last_seen current =
     (if of_nat kEventRingCapacity < current - last_seen then current - of_nat kEventRingCapacity else last_seen)"

definition new_events :: "event_ring \<Rightarrow> u64 \<Rightarrow> ring_event list" where
  "new_events ring last_seen = read_events ring (first_unread last_seen (er_write_index ring)) (er_write_index ring)"

definition build_snapshot_json :: "shared_stats \<Rightarrow> event_ring \<Rightarrow> u64 \<Rightarrow> bytes \<times> u64" where
  "build_snapshot_json s ring last_seen =
     (stats_json s @ config_json (er_config ring) @ json_member ''events'' (str ''['' @
        commas (map event_json (new_events ring last_seen)) @ str '']'') @ str ''}'',
      er_write_index ring)"

text \<open>One iteration of the bridge's loop.\<close>

definition bridge_poll :: "shared_stats \<Rightarrow> event_ring \<Rightarrow> (nat \<Rightarrow> nat list) \<Rightarrow> u64 \<times> ws_server \<Rightarrow> u64 \<times> ws_server" where
  "bridge_poll s ring sends st = (case st of (last_seen, ws) \<Rightarrow>
     if 0 < client_count ws
     then case build_snapshot_json s ring last_seen of (json, seen) \<Rightarrow> (seen, broadcast_text json sends ws)
     else (last_seen, ws))"

section \<open>A poll of a ring at rest\<close>

lemma read_events_window:
  "unat (current - idx) = n \<Longrightarrow>
     read_events ring idx current = map (\<lambda>i. er_events ring ! unat ((idx + of_nat i) mod of_nat kEventRingCapacity)) [0..<n]"
proof (induction n arbitrary: idx)
  case 0
  then have "current - idx = 0" by (simp only: unat_eq_0)
  then show ?case by (simp add: read_events.simps)
next
  case (Suc n)
  then have ne: "idx \<noteq> current" by auto
  have "1 \<le> current - idx" using Suc.prems by (simp add: word_le_nat_alt)
  then have "unat (current - (idx + 1)) = n"
    using unat_sub_if_le [of 1 "current - idx"] Suc.prems by (simp add: diff_diff_eq)
  then show ?case
    using Suc.IH [of "idx + 1"] ne
    by (subst read_events.simps)
      (simp add: upt_conv_Cons map_Suc_upt [symmetric] add.assoc comp_def del: upt_Suc)
qed

lemma max_behind: "l \<le> n \<Longrightarrow> max l (n - 16384) = (if 16384 < n - l then n - 16384 else (l :: nat))"
  by (auto simp: max_def)

lemma new_events_exact:
  assumes "er_holds ring log" "l \<le> length log" "length log - l < 2 ^ 64" "last_seen = of_nat l"
  shows "new_events ring last_seen = drop (max l (length log - kEventRingCapacity)) log"
proof -
  let ?N = "length log" and ?m = "max l (length log - kEventRingCapacity)"
  have w: "er_write_index ring = of_nat ?N" using assms(1) by (simp add: er_holds_def)
  have gap: "unat (er_write_index ring - last_seen) = ?N - l"
    using assms(2-4) unat_of_nat_id [of "?N - l", where 'a = 64] by (simp add: w of_nat_diff)
  have cap: "unat (of_nat kEventRingCapacity :: u64) = 16384" by (simp add: kEventRingCapacity_def)
  have first: "first_unread last_seen (er_write_index ring) = of_nat ?m"
    using gap assms(2,4) cap max_behind [OF assms(2)]
    by (simp add: first_unread_def word_less_nat_alt w of_nat_diff kEventRingCapacity_def)
  have m: "?m \<le> ?N" "?N \<le> ?m + 16384" "?N - ?m < 2 ^ 64"
    using assms(2) by (auto simp: kEventRingCapacity_def)
  then have "unat (of_nat ?N - of_nat ?m :: u64) = ?N - ?m"
    using unat_of_nat_id [of "?N - ?m", where 'a = 64] by (simp add: of_nat_diff)
  then have "new_events ring last_seen =
      map (\<lambda>i. er_events ring ! unat ((of_nat ?m + of_nat i :: u64) mod of_nat kEventRingCapacity)) [0..<?N - ?m]"
    unfolding new_events_def first [unfolded w] w by (rule read_events_window)
  also have "\<dots> = drop ?m log"
  proof (rule nth_equalityI)
    fix i
    assume "i < length (map (\<lambda>i. er_events ring ! unat ((of_nat ?m + of_nat i :: u64) mod of_nat kEventRingCapacity)) [0..<?N - ?m])"
    then have i: "i < ?N - ?m" by simp
    have "unat ((of_nat ?m + of_nat i :: u64) mod of_nat kEventRingCapacity) = (?m + i) mod 16384"
      using ring_slot_add [of 14 0 "?m + i"] by (simp add: ring_slot_def unat_mod kEventRingCapacity_def)
    moreover have "?m + i < ?N" "?N \<le> ?m + i + 16384" using i m by linarith+
    then have "er_events ring ! ((?m + i) mod 16384) = log ! (?m + i)"
      using assms(1) unfolding er_holds_def kEventRingCapacity_def by blast
    ultimately show "map (\<lambda>i. er_events ring ! unat ((of_nat ?m + of_nat i :: u64) mod of_nat kEventRingCapacity)) [0..<?N - ?m] ! i =
        drop ?m log ! i"
      using i m(1) by simp
  qed (use m in simp)
  finally show ?thesis .
qed

lemma bridge_idle: "client_count ws = 0 \<Longrightarrow> bridge_poll s ring sends (l, ws) = (l, ws)"
  by (simp add: bridge_poll_def)

end
