(* ===== verification/Event_Steps.thy ===== *)
theory Event_Steps
  imports Telemetry
begin

text \<open>
  The event ring between its writers and the telemetry bridge, access by access
  (\<open>include/shared_events.hpp\<close>, \<open>event_ring_record\<close>, and the loop of \<open>build_snapshot_json\<close> in
  \<open>src/telemetry_bridge.cpp\<close>). Any number of writers run: each claims an index with \<open>fetch_add\<close> and then
  stores the five fields of its slot one by one, so that the index is visible before the slot is written. The
  bridge loads the index, skips ahead when it fell behind, and loads the five fields of each new slot one by
  one. One action is one access; accesses interleave in any order, each seeing the latest store. The
  histories \<open>es_log\<close> (the events in the order of their indices), \<open>es_out\<close> (what was reported),
  \<open>es_lapped\<close> (an index was claimed while a writer was still storing to the same slot, a ring earlier) and
  \<open>es_skipped\<close> (a poll skipped ahead) are for the theorems to speak of; no access reads them. Shown: events
  are reported in order and at most once, all of them while the bridge keeps up, and exactly as they were
  recorded unless the writer was still storing when the bridge reached the slot.
\<close>

section \<open>Model\<close>

record event_writer =
  ew_index :: u64
  ew_event :: ring_event
  ew_field :: nat

record event_report =
  rp_index :: u64
  rp_event :: ring_event
  rp_settled :: bool

text \<open>The bridge between two polls, or in front of field \<open>f\<close> of slot \<open>idx\<close> with the fields loaded so far; the
  flag is a history: no writer was storing to the slot when its first field was loaded.\<close>

datatype event_reader = Waiting | AtSlot u64 u64 nat ring_event bool

record event_system =
  es_ring :: event_ring
  es_writers :: "event_writer list"
  es_reader :: event_reader
  es_last_seen :: u64
  es_log :: "ring_event list"
  es_out :: "event_report list"
  es_lapped :: bool
  es_skipped :: bool

datatype event_action = Claim event_type u64 u64 u64 u32 | Store nat | Poll | Load

definition event_slot :: "u64 \<Rightarrow> nat" where
  "event_slot idx = unat (idx mod of_nat kEventRingCapacity)"

text \<open>The stores of \<open>event_ring_record\<close> and the loads of the bridge, each in the order of the source.\<close>

definition store_field :: "nat \<Rightarrow> ring_event \<Rightarrow> ring_event \<Rightarrow> ring_event" where
  "store_field f e slot =
     (if f = 0 then slot\<lparr>ev_type := ev_type e\<rparr> else if f = 1 then slot\<lparr>ev_worker_id := ev_worker_id e\<rparr>
      else if f = 2 then slot\<lparr>ev_sequence := ev_sequence e\<rparr> else if f = 3 then slot\<lparr>ev_ts_ns := ev_ts_ns e\<rparr>
      else slot\<lparr>ev_latency_ns := ev_latency_ns e\<rparr>)"

definition load_field :: "nat \<Rightarrow> ring_event \<Rightarrow> ring_event \<Rightarrow> ring_event" where
  "load_field f slot part =
     (if f = 0 then part\<lparr>ev_type := ev_type slot\<rparr> else if f = 1 then part\<lparr>ev_sequence := ev_sequence slot\<rparr>
      else if f = 2 then part\<lparr>ev_ts_ns := ev_ts_ns slot\<rparr> else if f = 3 then part\<lparr>ev_latency_ns := ev_latency_ns slot\<rparr>
      else part\<lparr>ev_worker_id := ev_worker_id slot\<rparr>)"

definition no_event :: ring_event where
  "no_event = \<lparr>ev_type = 0, ev_worker_id = 0, ev_sequence = 0, ev_ts_ns = 0, ev_latency_ns = 0\<rparr>"

text \<open>The \<open>fetch_add\<close> of a new writer.\<close>

definition claim_step :: "ring_event \<Rightarrow> event_system \<Rightarrow> event_system" where
  "claim_step e s =
     (let idx = er_write_index (es_ring s)
      in s\<lparr>es_ring := (es_ring s)\<lparr>er_write_index := idx + 1\<rparr>,
           es_writers := es_writers s @ [\<lparr>ew_index = idx, ew_event = e, ew_field = 0\<rparr>],
           es_log := es_log s @ [e],
           es_lapped := es_lapped s \<or> (\<exists>w\<in>set (es_writers s). event_slot (ew_index w) = event_slot idx)\<rparr>)"

text \<open>Writer \<open>k\<close> stores its next field; after the fifth it returns.\<close>

definition store_step :: "nat \<Rightarrow> event_system \<Rightarrow> event_system" where
  "store_step k s =
     (if k < length (es_writers s)
      then let w = es_writers s ! k; i = event_slot (ew_index w);
               ev = er_events (es_ring s)
           in s\<lparr>es_ring := (es_ring s)\<lparr>er_events := ev[i := store_field (ew_field w) (ew_event w) (ev ! i)]\<rparr>,
                es_writers := (if ew_field w < 4 then (es_writers s)[k := w\<lparr>ew_field := ew_field w + 1\<rparr>]
                               else take k (es_writers s) @ drop (Suc k) (es_writers s))\<rparr>
      else s)"

text \<open>The bridge loads the index and positions itself on the first event it has not seen.\<close>

definition poll_step :: "event_system \<Rightarrow> event_system" where
  "poll_step s =
     (if es_reader s = Waiting
      then let current = er_write_index (es_ring s); first = first_unread (es_last_seen s) current
           in s\<lparr>es_reader := (if first = current then Waiting else AtSlot first current 0 no_event False),
                es_last_seen := first,
                es_skipped := es_skipped s \<or> first \<noteq> es_last_seen s\<rparr>
      else s)"

definition load_step :: "event_system \<Rightarrow> event_system" where
  "load_step s =
     (case es_reader s of Waiting \<Rightarrow> s
      | AtSlot idx current f part settled \<Rightarrow>
          let part = load_field f (er_events (es_ring s) ! event_slot idx) part;
              settled = (if f = 0 then \<forall>w\<in>set (es_writers s). event_slot (ew_index w) \<noteq> event_slot idx else settled)
          in if f < 4 then s\<lparr>es_reader := AtSlot idx current (f + 1) part settled\<rparr>
             else s\<lparr>es_out := es_out s @ [\<lparr>rp_index = idx, rp_event = part,
                      rp_settled = (settled \<and> er_write_index (es_ring s) - idx \<le> of_nat kEventRingCapacity)\<rparr>],
                    es_reader := (if idx + 1 = current then Waiting else AtSlot (idx + 1) current 0 no_event False),
                    es_last_seen := (if idx + 1 = current then current else es_last_seen s)\<rparr>)"

fun event_step :: "event_action \<Rightarrow> event_system \<Rightarrow> event_system" where
  "event_step (Claim type sequence ts_ns latency_ns worker_id) s =
     claim_step (ring_event_of type sequence ts_ns latency_ns worker_id) s"
| "event_step (Store k) s = store_step k s"
| "event_step Poll s = poll_step s"
| "event_step Load s = load_step s"

definition event_system_init :: "event_ring \<Rightarrow> event_system" where
  "event_system_init ring = \<lparr>es_ring = event_ring_reset ring, es_writers = [], es_reader = Waiting, es_last_seen = 0,
     es_log = [], es_out = [], es_lapped = False, es_skipped = False\<rparr>"

definition event_run :: "event_action list \<Rightarrow> event_system \<Rightarrow> event_system" where
  "event_run as s = fold event_step as s"

text \<open>The number of events the bridge is done with.\<close>

definition reader_pos :: "event_system \<Rightarrow> u64" where
  "reader_pos s = (case es_reader s of Waiting \<Rightarrow> es_last_seen s | AtSlot idx _ _ _ _ \<Rightarrow> idx)"

text \<open>A writer that is not interrupted does what \<open>event_ring_record\<close> does.\<close>

lemma all_fields_stored:
  "(e :: ring_event)\<lparr>ev_type := a, ev_worker_id := b, ev_sequence := c, ev_ts_ns := d, ev_latency_ns := l\<rparr> =
     \<lparr>ev_type = a, ev_worker_id = b, ev_sequence = c, ev_ts_ns = d, ev_latency_ns = l\<rparr>"
  by (cases e) simp

lemma record_steps:
  assumes "length (er_events (es_ring s)) = kEventRingCapacity"
  shows "es_ring (event_run (Claim t sq ts l w # replicate 5 (Store (length (es_writers s)))) s) =
    event_ring_record (es_ring s) t sq ts l w"
proof -
  have "unat (er_write_index (es_ring s) mod of_nat kEventRingCapacity) < length (er_events (es_ring s))"
    using assms by (simp add: kEventRingCapacity_def unat_mod)
  then show ?thesis
    by (simp add: event_run_def numeral_eq_Suc claim_step_def store_step_def Let_def event_ring_record_def event_slot_def
        store_field_def ring_event_of_def all_fields_stored)
qed

section \<open>Invariant\<close>

definition stored_upto :: "nat \<Rightarrow> ring_event \<Rightarrow> ring_event \<Rightarrow> bool" where
  "stored_upto f e slot \<longleftrightarrow> (0 < f \<longrightarrow> ev_type slot = ev_type e) \<and> (1 < f \<longrightarrow> ev_worker_id slot = ev_worker_id e) \<and>
     (2 < f \<longrightarrow> ev_sequence slot = ev_sequence e) \<and> (3 < f \<longrightarrow> ev_ts_ns slot = ev_ts_ns e) \<and>
     (4 < f \<longrightarrow> ev_latency_ns slot = ev_latency_ns e)"

definition loaded_upto :: "nat \<Rightarrow> ring_event \<Rightarrow> ring_event \<Rightarrow> bool" where
  "loaded_upto f e part \<longleftrightarrow> (0 < f \<longrightarrow> ev_type part = ev_type e) \<and> (1 < f \<longrightarrow> ev_sequence part = ev_sequence e) \<and>
     (2 < f \<longrightarrow> ev_ts_ns part = ev_ts_ns e) \<and> (3 < f \<longrightarrow> ev_latency_ns part = ev_latency_ns e) \<and>
     (4 < f \<longrightarrow> ev_worker_id part = ev_worker_id e)"

lemma stored_step: "stored_upto f e slot \<Longrightarrow> f < 5 \<Longrightarrow> stored_upto (Suc f) e (store_field f e slot)"
  by (auto simp: stored_upto_def store_field_def)

lemma loaded_step: "loaded_upto f e part \<Longrightarrow> f < 5 \<Longrightarrow> loaded_upto (Suc f) e (load_field f e part)"
  by (auto simp: loaded_upto_def load_field_def)

lemma stored_all: "stored_upto 5 e slot \<Longrightarrow> slot = e"
  by (auto simp: stored_upto_def)

lemma loaded_all: "loaded_upto 5 e part \<Longrightarrow> part = e"
  by (auto simp: loaded_upto_def)

lemma event_slot_of_nat: "event_slot (of_nat i) = i mod 16384"
  using ring_slot_add [of 14 0 i] by (simp add: event_slot_def ring_slot_def unat_mod kEventRingCapacity_def)

lemma of_nat_inj64:
  assumes "i < 2 ^ 64" "j < 2 ^ 64"
  shows "(of_nat i :: u64) = of_nat j \<longleftrightarrow> i = j"
proof
  assume eq: "(of_nat i :: u64) = of_nat j"
  have "i = unat (of_nat i :: u64)" by (rule unat_of_nat_id [symmetric]) (use assms in simp)
  also have "\<dots> = unat (of_nat j :: u64)" by (simp only: eq)
  also have "\<dots> = j" by (rule unat_of_nat_id) (use assms in simp)
  finally show "i = j" .
qed (rule arg_cong)

text \<open>Two indices of one ring's length share a slot only when they are equal.\<close>

lemma window_slot:
  assumes "i < n" "j < n" "n \<le> i + 16384" "n \<le> j + 16384" "i mod 16384 = j mod (16384 :: nat)"
  shows "i = j"
proof (rule ccontr)
  assume "i \<noteq> j"
  then consider "i < j" | "j < i" by linarith
  then show False
    using assms ring_slot_distinct [of 14 i j 0] ring_slot_distinct [of 14 j i 0] ring_slot_add [of 14 0]
    by cases simp_all
qed

text \<open>The writers hold the events of the log under their indices; and as long as no writer was lapped, the slot of
  each of the last 16384 indices holds its event, or as many fields of it as its writer has stored.\<close>

definition writers_ok :: "ring_event list \<Rightarrow> event_writer list \<Rightarrow> bool" where
  "writers_ok log ws \<longleftrightarrow> (\<forall>w\<in>set ws. \<exists>i<length log. ew_index w = of_nat i \<and> ew_event w = log ! i \<and> ew_field w < 5)"

definition slot_ok :: "ring_event list \<Rightarrow> event_writer list \<Rightarrow> ring_event list \<Rightarrow> nat \<Rightarrow> bool" where
  "slot_ok log ws evs i \<longleftrightarrow>
     (if of_nat i \<in> ew_index ` set ws
      then \<exists>w\<in>set ws. ew_index w = of_nat i \<and> stored_upto (ew_field w) (log ! i) (evs ! (i mod 16384))
      else evs ! (i mod 16384) = log ! i)"

definition slots_ok :: "ring_event list \<Rightarrow> event_writer list \<Rightarrow> ring_event list \<Rightarrow> bool" where
  "slots_ok log ws evs \<longleftrightarrow> distinct (map ew_index ws) \<and> (\<forall>w\<in>set ws. length log \<le> unat (ew_index w) + 16384) \<and>
     (\<forall>i<length log. length log \<le> i + 16384 \<longrightarrow> slot_ok log ws evs i)"

definition ring_part_ok :: "event_system \<Rightarrow> bool" where
  "ring_part_ok s \<longleftrightarrow> length (er_events (es_ring s)) = 16384 \<and> er_write_index (es_ring s) = of_nat (length (es_log s)) \<and>
     writers_ok (es_log s) (es_writers s) \<and>
     (\<not> es_lapped s \<longrightarrow> slots_ok (es_log s) (es_writers s) (er_events (es_ring s)))"

text \<open>The bridge is between its last complete poll and the index it loaded; a settled slot stays settled.\<close>

definition at_slot_ok :: "bool \<Rightarrow> ring_event list \<Rightarrow> event_writer list \<Rightarrow> nat \<Rightarrow> nat \<Rightarrow> ring_event \<Rightarrow> bool \<Rightarrow> bool" where
  "at_slot_ok lapped log ws i f part settled \<longleftrightarrow> f < 5 \<and>
     (\<not> lapped \<and> 0 < f \<and> settled \<and> length log \<le> i + 16384 \<longrightarrow> of_nat i \<notin> ew_index ` set ws \<and> loaded_upto f (log ! i) part)"

definition reader_ok :: "event_system \<Rightarrow> bool" where
  "reader_ok s \<longleftrightarrow> (\<exists>l\<le>length (es_log s). es_last_seen s = of_nat l \<and>
     (es_reader s = Waiting \<or> (\<exists>i c f part settled. es_reader s = AtSlot (of_nat i) (of_nat c) f part settled \<and> l \<le> i \<and> i < c \<and>
        c \<le> length (es_log s) \<and> at_slot_ok (es_lapped s) (es_log s) (es_writers s) i f part settled)))"

lemma reader_ok_waiting: "es_reader s = Waiting \<Longrightarrow> es_last_seen s = of_nat l \<Longrightarrow> l \<le> length (es_log s) \<Longrightarrow> reader_ok s"
  by (auto simp: reader_ok_def)

lemma reader_ok_slot:
  "es_reader s = AtSlot (of_nat i) (of_nat c) f part settled \<Longrightarrow> es_last_seen s = of_nat l \<Longrightarrow> l \<le> i \<Longrightarrow> i < c \<Longrightarrow>
     c \<le> length (es_log s) \<Longrightarrow> at_slot_ok (es_lapped s) (es_log s) (es_writers s) i f part settled \<Longrightarrow> reader_ok s"
  unfolding reader_ok_def by (rule exI [of _ l]) auto

lemma reader_ok_cases:
  assumes "reader_ok s"
  obtains (waiting) l where "es_reader s = Waiting" "es_last_seen s = of_nat l" "l \<le> length (es_log s)"
  | (slot) l i c f part settled where "es_reader s = AtSlot (of_nat i) (of_nat c) f part settled" "es_last_seen s = of_nat l"
      "l \<le> i" "i < c" "c \<le> length (es_log s)" "at_slot_ok (es_lapped s) (es_log s) (es_writers s) i f part settled"
  using assms unfolding reader_ok_def by blast

definition reports_ok :: "event_system \<Rightarrow> bool" where
  "reports_ok s \<longleftrightarrow> sorted_wrt (<) (map (\<lambda>r. unat (rp_index r)) (es_out s)) \<and>
     (\<forall>r\<in>set (es_out s). unat (rp_index r) < unat (reader_pos s) \<and>
        (\<not> es_lapped s \<and> rp_settled r \<longrightarrow> rp_event r = es_log s ! unat (rp_index r))) \<and>
     (\<not> es_skipped s \<longrightarrow> map (\<lambda>r. unat (rp_index r)) (es_out s) = [0..<unat (reader_pos s)])"

lemma writers_ok_claim:
  assumes "writers_ok log ws"
  shows "writers_ok (log @ [e]) (ws @ [\<lparr>ew_index = of_nat (length log), ew_event = e, ew_field = 0\<rparr>])"
  unfolding writers_ok_def
proof
  fix w assume "w \<in> set (ws @ [\<lparr>ew_index = of_nat (length log), ew_event = e, ew_field = 0\<rparr>])"
  then consider "w \<in> set ws" | "w = \<lparr>ew_index = of_nat (length log), ew_event = e, ew_field = 0\<rparr>" by auto
  then show "\<exists>i<length (log @ [e]). ew_index w = of_nat i \<and> ew_event w = (log @ [e]) ! i \<and> ew_field w < 5"
  proof cases
    case 1
    then obtain i where "i < length log" "ew_index w = of_nat i" "ew_event w = log ! i" "ew_field w < 5"
      using assms by (auto simp: writers_ok_def)
    then show ?thesis by (intro exI [of _ i]) (simp add: nth_append)
  next
    case 2
    then show ?thesis by (intro exI [of _ "length log"]) simp
  qed
qed

lemma ring_part_claim:
  assumes "ring_part_ok s" "length (es_log s) < 2 ^ 64 - 1"
  shows "ring_part_ok (claim_step e s)"
proof -
  let ?n = "length (es_log s)" and ?ws = "es_writers s" and ?log = "es_log s" and ?evs = "er_events (es_ring s)"
  let ?w = "\<lparr>ew_index = of_nat ?n, ew_event = e, ew_field = 0\<rparr>"
  have w: "writers_ok (?log @ [e]) (?ws @ [?w])"
    using assms(1) writers_ok_claim by (simp add: ring_part_ok_def)
  have s': "slots_ok (?log @ [e]) (?ws @ [?w]) ?evs"
    if nl: "\<not> es_lapped s" "\<forall>w\<in>set ?ws. event_slot (ew_index w) \<noteq> event_slot (of_nat ?n)"
  proof -
    have S: "slots_ok ?log ?ws ?evs" using assms(1) nl(1) by (simp add: ring_part_ok_def)
    have idx: "\<exists>i<?n. ew_index v = of_nat i \<and> unat (ew_index v) = i \<and> Suc ?n \<le> i + 16384" if v: "v \<in> set ?ws" for v
    proof -
      obtain i where i: "i < ?n" "ew_index v = of_nat i" using assms(1) v by (auto simp: ring_part_ok_def writers_ok_def)
      then have u: "unat (ew_index v) = i" using assms(2) by (simp add: unat_of_nat_id)
      have "?n \<le> i + 16384" using S v u by (auto simp: slots_ok_def)
      moreover have "?n \<noteq> i + 16384" using nl(2) v i(2) by (auto simp: event_slot_of_nat)
      ultimately show ?thesis using i u by auto
    qed
    have new: "of_nat ?n \<notin> ew_index ` set ?ws"
    proof
      assume "of_nat ?n \<in> ew_index ` set ?ws"
      then obtain v where "v \<in> set ?ws" "ew_index v = of_nat ?n" by auto
      with idx [of v] show False using assms(2) by (auto simp: unat_of_nat_id)
    qed
    have old: "slot_ok (?log @ [e]) (?ws @ [?w]) ?evs i" if i: "i < Suc ?n" "Suc ?n \<le> i + 16384" for i
    proof (cases "i = ?n")
      case True
      then show ?thesis by (auto simp: slot_ok_def stored_upto_def)
    next
      case False
      have ne: "(of_nat i :: u64) \<noteq> of_nat ?n"
        using False i assms(2) by (subst of_nat_inj64) simp_all
      have "slot_ok ?log ?ws ?evs i" using S i False by (auto simp: slots_ok_def)
      then show ?thesis using False i ne by (auto simp: slot_ok_def nth_append)
    qed
    have "distinct (map ew_index (?ws @ [?w]))" using S new by (auto simp: slots_ok_def)
    moreover have "\<forall>v\<in>set (?ws @ [?w]). Suc ?n \<le> unat (ew_index v) + 16384"
      using idx assms(2) by (fastforce simp: unat_of_nat_id)
    ultimately show ?thesis using old by (simp add: slots_ok_def)
  qed
  show ?thesis
    using assms(1) w s' by (auto simp: ring_part_ok_def claim_step_def Let_def)
qed

text \<open>A store: the slot gains one field, or its writer is done; the other slots in use are different ones.\<close>

lemma store_list:
  assumes k: "k < length ws" and dist: "distinct (map ew_index ws)" and w: "w = ws ! k" "ew_index w' = ew_index w"
    and ws': "ws' = (if b then ws[k := w'] else take k ws @ drop (Suc k) ws)"
  shows "distinct (map ew_index ws')" "b \<Longrightarrow> w' \<in> set ws'" "v \<in> set ws \<Longrightarrow> ew_index v \<noteq> ew_index w \<Longrightarrow> v \<in> set ws'"
    "ew_index ` set ws' = (if b then ew_index ` set ws else ew_index ` set ws - {ew_index w})"
proof -
  have split: "ws = take k ws @ w # drop (Suc k) ws" using k w(1) id_take_nth_drop by blast
  have ws'2: "ws' = take k ws @ (if b then [w'] else []) @ drop (Suc k) ws"
    unfolding ws' using k by (simp add: upd_conv_take_nth_drop)
  have d: "distinct (map ew_index (take k ws @ w # drop (Suc k) ws))" using dist split by simp
  then show "distinct (map ew_index ws')" unfolding ws'2 by (auto simp: w(2))
  show "b \<Longrightarrow> w' \<in> set ws'" unfolding ws'2 by simp
  show "v \<in> set ws'" if "v \<in> set ws" "ew_index v \<noteq> ew_index w"
    using that arg_cong [OF split, of set] unfolding ws'2 by auto
  have "ew_index ` set ws = insert (ew_index w) (ew_index ` (set (take k ws) \<union> set (drop (Suc k) ws)))"
    using arg_cong [OF split, of set] by (simp only: set_append list.set image_Un image_insert) auto
  moreover have "ew_index w \<notin> ew_index ` (set (take k ws) \<union> set (drop (Suc k) ws))" using d by (simp add: image_Un)
  ultimately show "ew_index ` set ws' = (if b then ew_index ` set ws else ew_index ` set ws - {ew_index w})"
    unfolding ws'2 by (auto simp: w(2))
qed

lemma slot_stored:
  assumes S: "slots_ok log ws evs" and w: "w \<in> set ws" "ew_index w = of_nat i" and i: "i < length log" "length log \<le> i + 16384"
  shows "stored_upto (ew_field w) (log ! i) (evs ! (i mod 16384))"
proof -
  have "of_nat i \<in> ew_index ` set ws" using w by (metis imageI)
  moreover have "slot_ok log ws evs i" using S i by (simp add: slots_ok_def)
  ultimately obtain v where v: "v \<in> set ws" "ew_index v = of_nat i" "stored_upto (ew_field v) (log ! i) (evs ! (i mod 16384))"
    by (auto simp: slot_ok_def)
  moreover have "inj_on ew_index (set ws)" using S by (simp add: slots_ok_def distinct_map)
  ultimately have "v = w" using w by (metis inj_on_eq_iff)
  with v(3) show ?thesis by simp
qed

lemma store_slots:
  assumes W: "writers_ok log ws" and S: "slots_ok log ws evs" and k: "k < length ws" and n: "length log < 2 ^ 64"
    and e: "length evs = 16384" and w: "w = ws ! k" "w' = w\<lparr>ew_field := ew_field w + 1\<rparr>"
    and ws': "ws' = (if ew_field w < 4 then ws[k := w'] else take k ws @ drop (Suc k) ws)"
    and evs': "evs' = evs[event_slot (ew_index w) := store_field (ew_field w) (ew_event w) (evs ! event_slot (ew_index w))]"
  shows "slots_ok log ws' evs'"
proof -
  have wk: "w \<in> set ws" using k w(1) by simp
  obtain i where i: "i < length log" "ew_index w = of_nat i" "ew_event w = log ! i" "ew_field w < 5"
    using W wk unfolding writers_ok_def by blast
  have "unat (ew_index w) = i" using i n by (simp add: unat_of_nat_id)
  then have win: "length log \<le> i + 16384" using S wk by (auto simp: slots_ok_def)
  have dist: "distinct (map ew_index ws)" using S by (simp add: slots_ok_def)
  have idx: "ew_index w' = ew_index w" by (simp add: w(2))
  note L = store_list [OF k dist w(1) idx ws']
  have stored: "stored_upto (Suc (ew_field w)) (log ! i) (evs' ! (i mod 16384))"
    using stored_step [OF slot_stored [OF S wk i(2,1) win] i(4)] e by (simp add: evs' i(2,3) event_slot_of_nat)
  have "slot_ok log ws' evs' j" if j: "j < length log" "length log \<le> j + 16384" for j
  proof (cases "j = i")
    case True
    show ?thesis
    proof (cases "ew_field w < 4")
      case lt: True
      have w': "w' \<in> set ws'" "ew_index w' = of_nat j" using L(2) [OF lt] idx i(2) True by simp_all
      then have "of_nat j \<in> ew_index ` set ws'" by (metis imageI)
      moreover have "stored_upto (ew_field w') (log ! j) (evs' ! (j mod 16384))" using stored True by (simp add: w(2))
      ultimately show ?thesis using w' by (auto simp: slot_ok_def)
    next
      case False
      then have "ew_field w = 4" using i(4) by simp
      then have "evs' ! (i mod 16384) = log ! i" using stored stored_all [of "log ! i" "evs' ! (i mod 16384)"] by simp
      then show ?thesis using L(4) False True i(2) by (simp add: slot_ok_def)
    qed
  next
    case False
    have "j mod 16384 \<noteq> i mod 16384" using window_slot [of j "length log" i] j i(1) win False by blast
    then have same: "evs' ! (j mod 16384) = evs ! (j mod 16384)" by (simp add: evs' i(2) event_slot_of_nat)
    have ne: "(of_nat j :: u64) \<noteq> of_nat i" using False j i n by (subst of_nat_inj64) simp_all
    have mem: "of_nat j \<in> ew_index ` set ws' \<longleftrightarrow> of_nat j \<in> ew_index ` set ws" using L(4) ne i(2) by auto
    have ok: "slot_ok log ws evs j" using S j by (simp add: slots_ok_def)
    have "v \<in> set ws'" if "v \<in> set ws" "ew_index v = of_nat j" for v using L(3) that i(2) ne by metis
    then show ?thesis using ok unfolding slot_ok_def mem same by (metis (no_types, lifting))
  qed
  moreover have "\<forall>v\<in>set ws'. length log \<le> unat (ew_index v) + 16384"
  proof
    fix v assume "v \<in> set ws'"
    then have "ew_index v \<in> ew_index ` set ws" using L(4) by (auto split: if_splits)
    then show "length log \<le> unat (ew_index v) + 16384" using S by (auto simp: slots_ok_def)
  qed
  ultimately show ?thesis using L(1) by (simp add: slots_ok_def)
qed

lemma store_writers:
  assumes "writers_ok log ws" "k < length ws"
    and ws': "ws' = (if ew_field (ws ! k) < 4 then ws[k := (ws ! k)\<lparr>ew_field := ew_field (ws ! k) + 1\<rparr>] else take k ws @ drop (Suc k) ws)"
  shows "writers_ok log ws'" "ew_index ` set ws' \<subseteq> ew_index ` set ws"
proof -
  let ?w = "(ws ! k)\<lparr>ew_field := ew_field (ws ! k) + 1\<rparr>"
  have sub: "set ws' \<subseteq> set ws \<union> (if ew_field (ws ! k) < 4 then {?w} else {})"
    unfolding ws' using set_update_subset_insert [of ws k ?w] set_take_subset [of k ws] set_drop_subset [of "Suc k" ws] by auto
  have mem: "ws ! k \<in> set ws" using assms(2) by simp
  then obtain i where i: "i < length log" "ew_index (ws ! k) = of_nat i" "ew_event (ws ! k) = log ! i"
    using assms(1) unfolding writers_ok_def by blast
  show "writers_ok log ws'"
    unfolding writers_ok_def
  proof
    fix v assume "v \<in> set ws'"
    then consider "v \<in> set ws" | "v = ?w" "ew_field (ws ! k) < 4" using sub by (auto split: if_splits)
    then show "\<exists>i<length log. ew_index v = of_nat i \<and> ew_event v = log ! i \<and> ew_field v < 5"
    proof cases
      case 1
      then show ?thesis using assms(1) unfolding writers_ok_def by blast
    next
      case 2
      then show ?thesis using i by (intro exI [of _ i]) simp
    qed
  qed
  show "ew_index ` set ws' \<subseteq> ew_index ` set ws"
  proof
    fix x assume "x \<in> ew_index ` set ws'"
    then obtain v where v: "v \<in> set ws'" "x = ew_index v" by blast
    then consider "v \<in> set ws" | "v = ?w" using sub by (auto split: if_splits)
    then show "x \<in> ew_index ` set ws" using v(2) mem by cases (auto intro: image_eqI [of _ _ "ws ! k"])
  qed
qed

lemma ring_part_store:
  assumes "ring_part_ok s" "length (es_log s) < 2 ^ 64"
  shows "ring_part_ok (store_step k s)"
proof (cases "k < length (es_writers s)")
  case True
  note R = assms(1) [unfolded ring_part_ok_def]
  show ?thesis
    using R store_writers(1) [OF _ True refl] store_slots [OF _ _ True assms(2) _ refl refl refl refl] True
    by (simp add: ring_part_ok_def store_step_def Let_def)
qed (use assms in \<open>simp add: store_step_def\<close>)

lemma ring_part_reader: "ring_part_ok s \<Longrightarrow> ring_part_ok (poll_step s) \<and> ring_part_ok (load_step s)"
  by (simp add: ring_part_ok_def poll_step_def load_step_def Let_def split: event_reader.split)

section \<open>The bridge\<close>

lemma reader_claim:
  assumes "reader_ok s" "ring_part_ok s" "length (es_log s) < 2 ^ 64 - 1"
  shows "reader_ok (claim_step e s)"
  using assms(1)
proof (cases rule: reader_ok_cases)
  case (waiting l)
  then show ?thesis by (intro reader_ok_waiting [of _ l]) (simp_all add: claim_step_def Let_def)
next
  case (slot l i c f part settled)
  have "(of_nat i :: u64) \<noteq> of_nat (length (es_log s))" using slot(4,5) assms(3) by (subst of_nat_inj64) simp_all
  moreover have "er_write_index (es_ring s) = of_nat (length (es_log s))" using assms(2) by (simp add: ring_part_ok_def)
  ultimately have "at_slot_ok (es_lapped (claim_step e s)) (es_log (claim_step e s)) (es_writers (claim_step e s)) i f part settled"
    using slot(4-6) by (auto simp: at_slot_ok_def claim_step_def Let_def nth_append)
  then show ?thesis using slot by (intro reader_ok_slot [of _ i c f part settled l]) (simp_all add: claim_step_def Let_def)
qed

lemma reader_store:
  assumes "reader_ok s" "ring_part_ok s"
  shows "reader_ok (store_step k s)"
proof (cases "k < length (es_writers s)")
  case True
  have "writers_ok (es_log s) (es_writers s)" using assms(2) by (simp add: ring_part_ok_def)
  from store_writers(2) [OF this True refl]
  have sub: "ew_index ` set (es_writers (store_step k s)) \<subseteq> ew_index ` set (es_writers s)"
    using True by (simp add: store_step_def Let_def split del: if_split)
  have same: "es_reader (store_step k s) = es_reader s" "es_log (store_step k s) = es_log s"
    "es_last_seen (store_step k s) = es_last_seen s" "es_lapped (store_step k s) = es_lapped s"
    by (simp_all add: store_step_def Let_def)
  show ?thesis
    using assms(1)
  proof (cases rule: reader_ok_cases)
    case (waiting l)
    then show ?thesis by (intro reader_ok_waiting [of _ l]) (simp_all add: same)
  next
    case (slot l i c f part settled)
    then have "at_slot_ok (es_lapped s) (es_log s) (es_writers (store_step k s)) i f part settled"
      using sub unfolding at_slot_ok_def by blast
    then show ?thesis using slot by (intro reader_ok_slot [of _ i c f part settled l]) (simp_all add: same)
  qed
qed (use assms in \<open>simp add: store_step_def\<close>)

text \<open>Where a poll starts.\<close>

lemma first_unread_of_nat:
  assumes "l \<le> n" "n < 2 ^ 64"
  shows "\<exists>m. l \<le> m \<and> m \<le> n \<and> first_unread (of_nat l) (of_nat n) = of_nat m"
proof -
  have "unat (of_nat n - of_nat l :: u64) = n - l"
    using assms unat_of_nat_id [of "n - l", where 'a = 64] by (simp add: of_nat_diff)
  then have "first_unread (of_nat l) (of_nat n) = of_nat (if 16384 < n - l then n - 16384 else l)"
    by (simp add: first_unread_def word_less_nat_alt kEventRingCapacity_def of_nat_diff)
  then show ?thesis using assms(1) by (intro exI [of _ "if 16384 < n - l then n - 16384 else l"]) auto
qed

lemma poll_shape:
  assumes "reader_ok s" "ring_part_ok s" "length (es_log s) < 2 ^ 64" "es_reader s = Waiting"
  obtains l m where "l \<le> m" "m \<le> length (es_log s)" "es_last_seen s = of_nat l" "es_last_seen (poll_step s) = of_nat m"
    "es_skipped (poll_step s) = (es_skipped s \<or> m \<noteq> l)"
    "es_reader (poll_step s) = (if m = length (es_log s) then Waiting else AtSlot (of_nat m) (of_nat (length (es_log s))) 0 no_event False)"
proof -
  let ?n = "length (es_log s)"
  obtain l where l: "l \<le> ?n" "es_last_seen s = of_nat l" using assms(1) by (auto simp: reader_ok_def)
  obtain m where m: "l \<le> m" "m \<le> ?n" "first_unread (of_nat l) (of_nat ?n) = of_nat m"
    using first_unread_of_nat [OF l(1) assms(3)] by blast
  have "(of_nat m :: u64) = of_nat ?n \<longleftrightarrow> m = ?n" "(of_nat m :: u64) = of_nat l \<longleftrightarrow> m = l"
    using m l(1) assms(3) by (intro of_nat_inj64; simp)+
  then show ?thesis
    using that [OF m(1,2) l(2)] assms(2,4) m(3) l(2) by (simp add: poll_step_def ring_part_ok_def Let_def)
qed

lemma reader_poll:
  assumes "reader_ok s" "ring_part_ok s" "length (es_log s) < 2 ^ 64"
  shows "reader_ok (poll_step s)"
proof (cases "es_reader s = Waiting")
  case True
  have same: "es_log (poll_step s) = es_log s" by (simp add: poll_step_def Let_def)
  show ?thesis
  proof (rule poll_shape [OF assms True])
    fix l m assume P: "m \<le> length (es_log s)" "es_last_seen (poll_step s) = of_nat m"
      "es_reader (poll_step s) = (if m = length (es_log s) then Waiting else AtSlot (of_nat m) (of_nat (length (es_log s))) 0 no_event False)"
    show ?thesis
    proof (cases "m = length (es_log s)")
      case True
      then show ?thesis using P by (intro reader_ok_waiting [of _ m]) (simp_all add: same)
    next
      case False
      then show ?thesis
        using P by (intro reader_ok_slot [of _ m "length (es_log s)" 0 no_event False m]) (simp_all add: same at_slot_ok_def)
    qed
  qed
qed (use assms(1) in \<open>simp add: poll_step_def\<close>)

text \<open>One load from a slot that is settled and not overwritten.\<close>

lemma load_settled:
  assumes R: "ring_part_ok s" and nl: "\<not> es_lapped s" and i: "i < length (es_log s)" "length (es_log s) \<le> i + 16384"
    and f: "f < 5" "0 < f \<longrightarrow> of_nat i \<notin> ew_index ` set (es_writers s) \<and> loaded_upto f (es_log s ! i) part"
    and fresh: "f = 0 \<longrightarrow> (\<forall>w\<in>set (es_writers s). event_slot (ew_index w) \<noteq> event_slot (of_nat i))"
  shows "of_nat i \<notin> ew_index ` set (es_writers s)"
    "loaded_upto (Suc f) (es_log s ! i) (load_field f (er_events (es_ring s) ! event_slot (of_nat i)) part)"
proof -
  show out: "of_nat i \<notin> ew_index ` set (es_writers s)" using f(2) fresh by (cases f) auto
  have "slot_ok (es_log s) (es_writers s) (er_events (es_ring s)) i" using R nl i by (simp add: ring_part_ok_def slots_ok_def)
  then have "er_events (es_ring s) ! event_slot (of_nat i) = es_log s ! i" using out by (simp add: slot_ok_def event_slot_of_nat)
  moreover have "loaded_upto f (es_log s ! i) part" using f(2) by (cases f) (simp_all add: loaded_upto_def)
  ultimately show "loaded_upto (Suc f) (es_log s ! i) (load_field f (er_events (es_ring s) ! event_slot (of_nat i)) part)"
    using loaded_step [OF _ f(1)] by simp
qed

text \<open>A load, as a step of the bridge: it stays at the slot until the fifth field, then reports and moves on.\<close>

lemma load_slot:
  assumes R: "ring_part_ok s" and n: "length (es_log s) < 2 ^ 64"
    and rd: "es_reader s = AtSlot (of_nat i) (of_nat c) f part settled" "i < c" "c \<le> length (es_log s)"
      "at_slot_ok (es_lapped s) (es_log s) (es_writers s) i f part settled"
  obtains (more) part' settled' where "f < 4" "load_step s = s\<lparr>es_reader := AtSlot (of_nat i) (of_nat c) (Suc f) part' settled'\<rparr>"
      "at_slot_ok (es_lapped s) (es_log s) (es_writers s) i (Suc f) part' settled'"
  | (last) ev settled' where "f = 4" "es_out (load_step s) = es_out s @ [\<lparr>rp_index = of_nat i, rp_event = ev, rp_settled = settled'\<rparr>]"
      "\<not> es_lapped s \<and> settled' \<longrightarrow> ev = es_log s ! i"
      "es_reader (load_step s) = (if Suc i = c then Waiting else AtSlot (of_nat (Suc i)) (of_nat c) 0 no_event False)"
      "es_last_seen (load_step s) = (if Suc i = c then of_nat c else es_last_seen s)"
proof -
  let ?part = "load_field f (er_events (es_ring s) ! event_slot (of_nat i)) part"
  let ?settled = "if f = 0 then \<forall>w\<in>set (es_writers s). event_slot (ew_index w) \<noteq> event_slot (of_nat i) else settled"
  have f: "f < 5" using rd(4) by (simp add: at_slot_ok_def)
  have L: "of_nat i \<notin> ew_index ` set (es_writers s) \<and> loaded_upto (Suc f) (es_log s ! i) ?part"
    if A: "\<not> es_lapped s" "?settled" "length (es_log s) \<le> i + 16384"
  proof -
    have "0 < f \<longrightarrow> of_nat i \<notin> ew_index ` set (es_writers s) \<and> loaded_upto f (es_log s ! i) part"
      using rd(4) A by (auto simp: at_slot_ok_def)
    with load_settled [OF R A(1) _ A(3) f, of part] rd(2,3) A(2) show ?thesis by auto
  qed
  show ?thesis
  proof (cases "f < 4")
    case True
    show ?thesis
    proof (rule more [OF True])
      show "load_step s = s\<lparr>es_reader := AtSlot (of_nat i) (of_nat c) (Suc f) ?part ?settled\<rparr>"
        using True rd(1) by (simp add: load_step_def Let_def)
      show "at_slot_ok (es_lapped s) (es_log s) (es_writers s) i (Suc f) ?part ?settled"
        using True L by (auto simp: at_slot_ok_def split del: if_split)
    qed
  next
    case False
    then have f4: "f = 4" using f by simp
    have idx: "er_write_index (es_ring s) = of_nat (length (es_log s))" using R by (simp add: ring_part_ok_def)
    have cap: "unat (of_nat kEventRingCapacity :: u64) = 16384" by (simp add: kEventRingCapacity_def)
    have "unat (of_nat (length (es_log s)) - of_nat i :: u64) = length (es_log s) - i"
      using rd(2,3) n unat_of_nat_id [of "length (es_log s) - i", where 'a = 64] by (simp add: of_nat_diff)
    then have kept: "er_write_index (es_ring s) - of_nat i \<le> of_nat kEventRingCapacity \<longleftrightarrow> length (es_log s) \<le> i + 16384"
      unfolding idx word_le_nat_alt cap by linarith
    have cc: "(of_nat i + 1 :: u64) = of_nat c \<longleftrightarrow> Suc i = c"
      using of_nat_inj64 [of "Suc i" c] rd(2,3) n by (simp add: add.commute)
    show ?thesis
    proof (rule last [OF f4])
      show "es_out (load_step s) = es_out s @ [\<lparr>rp_index = of_nat i, rp_event = ?part,
          rp_settled = (?settled \<and> length (es_log s) \<le> i + 16384)\<rparr>]"
        using f4 rd(1) kept by (simp add: load_step_def Let_def)
      show "\<not> es_lapped s \<and> ?settled \<and> length (es_log s) \<le> i + 16384 \<longrightarrow> ?part = es_log s ! i"
      proof (intro impI, elim conjE)
        assume "\<not> es_lapped s" "?settled" "length (es_log s) \<le> i + 16384"
        then have "loaded_upto (Suc f) (es_log s ! i) ?part" using L by blast
        moreover have "Suc f = 5" using f4 by simp
        ultimately show "?part = es_log s ! i" by (simp only: loaded_all)
      qed
      show "es_reader (load_step s) = (if Suc i = c then Waiting else AtSlot (of_nat (Suc i)) (of_nat c) 0 no_event False)"
        "es_last_seen (load_step s) = (if Suc i = c then of_nat c else es_last_seen s)"
        using f4 rd(1) cc by (simp_all add: load_step_def Let_def add.commute)
    qed
  qed
qed

lemma load_frame [simp]: "es_log (load_step s) = es_log s" "es_writers (load_step s) = es_writers s"
  "es_lapped (load_step s) = es_lapped s" "es_skipped (load_step s) = es_skipped s"
  by (simp_all add: load_step_def Let_def split: event_reader.split)

lemma reader_load:
  assumes "reader_ok s" "ring_part_ok s" "length (es_log s) < 2 ^ 64"
  shows "reader_ok (load_step s)"
  using assms(1)
proof (cases rule: reader_ok_cases)
  case (waiting l)
  then show ?thesis using assms(1) by (simp add: load_step_def)
next
  case (slot l i c f part settled)
  show ?thesis
    using assms(2,3) slot(1,4-6)
  proof (cases rule: load_slot)
    case (more part' settled')
    then show ?thesis using slot by (intro reader_ok_slot [of _ i c "Suc f" part' settled' l]) simp_all
  next
    case (last ev settled')
    show ?thesis
    proof (cases "Suc i = c")
      case True
      then show ?thesis using last slot by (intro reader_ok_waiting [of _ c]) simp_all
    next
      case False
      then show ?thesis
        using last slot by (intro reader_ok_slot [of _ "Suc i" c 0 no_event False l]) (simp_all add: at_slot_ok_def)
    qed
  qed
qed

section \<open>The reports\<close>

lemma reader_pos_le:
  assumes "reader_ok s" "length (es_log s) < 2 ^ 64"
  shows "unat (reader_pos s) \<le> length (es_log s)"
  using assms(1)
  by (cases rule: reader_ok_cases) (use assms(2) in \<open>auto simp: reader_pos_def unat_of_nat_id\<close>)

lemma reports_frame:
  assumes "reports_ok s" "es_out s' = es_out s" "reader_pos s' = reader_pos s" "es_skipped s' = es_skipped s"
    "es_lapped s \<longrightarrow> es_lapped s'" "\<And>i. i < unat (reader_pos s) \<Longrightarrow> es_log s' ! i = es_log s ! i"
  shows "reports_ok s'"
  using assms by (auto simp: reports_ok_def)

lemma reports_poll:
  assumes "reports_ok s" "reader_ok s" "ring_part_ok s" "length (es_log s) < 2 ^ 64"
  shows "reports_ok (poll_step s)"
proof (cases "es_reader s = Waiting")
  case True
  show ?thesis
  proof (rule poll_shape [OF assms(2-4) True])
    fix l m assume P: "l \<le> m" "m \<le> length (es_log s)" "es_last_seen s = of_nat l" "es_last_seen (poll_step s) = of_nat m"
      "es_skipped (poll_step s) = (es_skipped s \<or> m \<noteq> l)"
      "es_reader (poll_step s) = (if m = length (es_log s) then Waiting else AtSlot (of_nat m) (of_nat (length (es_log s))) 0 no_event False)"
    have u: "unat (of_nat l :: u64) = l" "unat (of_nat m :: u64) = m" using P(1,2) assms(4) by (intro unat_of_nat_id; simp)+
    have pos: "reader_pos s = of_nat l" "reader_pos (poll_step s) = of_nat m" using P True by (simp_all add: reader_pos_def)
    have same: "es_log (poll_step s) = es_log s" "es_out (poll_step s) = es_out s" "es_lapped (poll_step s) = es_lapped s"
      by (simp_all add: poll_step_def Let_def)
    show ?thesis using assms(1) P(1,5) unfolding reports_ok_def pos same u by auto
  qed
qed (use assms(1) in \<open>simp add: poll_step_def\<close>)

lemma reports_load:
  assumes "reports_ok s" "reader_ok s" "ring_part_ok s" "length (es_log s) < 2 ^ 64"
  shows "reports_ok (load_step s)"
  using assms(2)
proof (cases rule: reader_ok_cases)
  case (waiting l)
  then show ?thesis using assms(1) by (simp add: load_step_def)
next
  case (slot l i c f part settled)
  have u: "unat (of_nat i :: u64) = i" "unat (of_nat (Suc i) :: u64) = Suc i" using slot(4,5) assms(4) by (intro unat_of_nat_id; simp)+
  have pos: "reader_pos s = of_nat i" using slot(1) by (simp add: reader_pos_def)
  show ?thesis
    using assms(3,4) slot(1,4-6)
  proof (cases rule: load_slot)
    case (more part' settled')
    then show ?thesis using assms(1) slot(1) by (intro reports_frame [OF assms(1)]) (simp_all add: reader_pos_def)
  next
    case (last ev settled')
    have pos': "reader_pos (load_step s) = of_nat (Suc i)" using last(4,5) by (auto simp: reader_pos_def)
    show ?thesis
      using assms(1) last(3) unfolding reports_ok_def pos pos' u last(2) load_frame by (auto simp: sorted_wrt_append u(1))
  qed
qed

definition event_system_ok :: "event_system \<Rightarrow> bool" where
  "event_system_ok s \<longleftrightarrow> ring_part_ok s \<and> reader_ok s \<and> reports_ok s"

lemma event_system_step:
  assumes "event_system_ok s" "length (es_log (event_step a s)) < 2 ^ 64"
  shows "event_system_ok (event_step a s)"
proof -
  note I = assms(1) [unfolded event_system_ok_def]
  show ?thesis
  proof (cases a)
    case (Claim t sq ts lt w)
    let ?e = "ring_event_of t sq ts lt w"
    have n: "length (es_log s) < 2 ^ 64 - 1" using assms(2) by (simp add: Claim claim_step_def Let_def)
    have "unat (reader_pos s) \<le> length (es_log s)" using reader_pos_le I n by simp
    then have old: "\<And>i. i < unat (reader_pos s) \<Longrightarrow> es_log (claim_step ?e s) ! i = es_log s ! i"
      by (simp add: claim_step_def Let_def nth_append)
    have "es_out (claim_step ?e s) = es_out s" "reader_pos (claim_step ?e s) = reader_pos s"
      "es_skipped (claim_step ?e s) = es_skipped s" "es_lapped s \<longrightarrow> es_lapped (claim_step ?e s)"
      by (simp_all add: claim_step_def Let_def reader_pos_def split: event_reader.split)
    from reports_frame [OF _ this old] I have "reports_ok (claim_step ?e s)" by blast
    then show ?thesis using I ring_part_claim reader_claim n by (simp add: Claim event_system_ok_def)
  next
    case (Store k)
    have n: "length (es_log s) < 2 ^ 64" using assms(2) by (simp add: Store store_step_def Let_def split: if_splits)
    have "es_out (store_step k s) = es_out s" "reader_pos (store_step k s) = reader_pos s" "es_skipped (store_step k s) = es_skipped s"
      "es_lapped s \<longrightarrow> es_lapped (store_step k s)" "\<And>i. es_log (store_step k s) ! i = es_log s ! i"
      by (simp_all add: store_step_def Let_def reader_pos_def split: event_reader.split)
    from reports_frame [OF _ this] I have "reports_ok (store_step k s)" by blast
    then show ?thesis using I ring_part_store [OF _ n] reader_store by (simp add: Store event_system_ok_def)
  next
    case Poll
    have n: "length (es_log s) < 2 ^ 64" using assms(2) by (simp add: Poll poll_step_def Let_def split: if_splits)
    then show ?thesis using I ring_part_reader reader_poll reports_poll by (simp add: Poll event_system_ok_def)
  next
    case Load
    have n: "length (es_log s) < 2 ^ 64" using assms(2) by (simp add: Load)
    then show ?thesis using I ring_part_reader reader_load reports_load by (simp add: Load event_system_ok_def)
  qed
qed

lemma event_log_grows: "length (es_log s) \<le> length (es_log (event_run as s))"
proof (induction as arbitrary: s)
  case (Cons a as)
  have "length (es_log s) \<le> length (es_log (event_step a s))"
    by (cases a) (simp_all add: claim_step_def store_step_def poll_step_def Let_def)
  then show ?case using Cons [of "event_step a s"] by (simp add: event_run_def)
qed (simp add: event_run_def)

lemma event_system_run:
  "event_system_ok s \<Longrightarrow> length (es_log (event_run as s)) < 2 ^ 64 \<Longrightarrow> event_system_ok (event_run as s)"
proof (induction as arbitrary: s)
  case (Cons a as)
  have "length (es_log (event_step a s)) < 2 ^ 64"
    using Cons.prems(2) event_log_grows [of "event_step a s" as] by (simp add: event_run_def)
  then show ?case using Cons event_system_step by (simp add: event_run_def)
qed (simp add: event_run_def)

lemma event_system_start:
  "length (er_events ring) = kEventRingCapacity \<Longrightarrow> event_system_ok (event_system_init ring)"
  by (simp add: event_system_ok_def event_system_init_def ring_part_ok_def reader_ok_def reports_ok_def event_ring_reset_def
      writers_ok_def slots_ok_def kEventRingCapacity_def reader_pos_def)

section \<open>A poll with no writer in the way\<close>

lemma all_fields_loaded:
  "no_event\<lparr>ev_type := ev_type e, ev_sequence := ev_sequence e, ev_ts_ns := ev_ts_ns e, ev_latency_ns := ev_latency_ns e,
     ev_worker_id := ev_worker_id e\<rparr> = (e :: ring_event)"
  by (cases e) (simp add: no_event_def)

definition quiet_report :: "event_system \<Rightarrow> nat \<Rightarrow> event_report" where
  "quiet_report s i = \<lparr>rp_index = of_nat i, rp_event = es_log s ! i, rp_settled = True\<rparr>"

lemma load_five:
  assumes R: "ring_part_ok s" "\<not> es_lapped s" "es_writers s = []" and n: "length (es_log s) < 2 ^ 64"
    and rd: "es_reader s = AtSlot (of_nat i) (of_nat c) 0 no_event False" "i < c" "c \<le> length (es_log s)"
      "length (es_log s) \<le> i + 16384"
  shows "event_run (replicate 5 Load) s = s\<lparr>es_out := es_out s @ [quiet_report s i],
    es_reader := (if Suc i = c then Waiting else AtSlot (of_nat (Suc i)) (of_nat c) 0 no_event False),
    es_last_seen := (if Suc i = c then of_nat c else es_last_seen s)\<rparr>"
proof -
  have slot: "er_events (es_ring s) ! event_slot (of_nat i) = es_log s ! i"
    using R rd by (simp add: ring_part_ok_def slots_ok_def slot_ok_def event_slot_of_nat)
  have cap: "unat (of_nat kEventRingCapacity :: u64) = 16384" by (simp add: kEventRingCapacity_def)
  have "unat (of_nat (length (es_log s)) - of_nat i :: u64) = length (es_log s) - i"
    using rd(2,3) n unat_of_nat_id [of "length (es_log s) - i", where 'a = 64] by (simp add: of_nat_diff)
  then have kept: "er_write_index (es_ring s) - of_nat i \<le> of_nat kEventRingCapacity"
    using R(1) rd(4) unfolding ring_part_ok_def by (simp add: word_le_nat_alt cap)
  have cc: "(of_nat i + 1 :: u64) = of_nat c \<longleftrightarrow> Suc i = c"
    using of_nat_inj64 [of "Suc i" c] rd(2,3) n by (simp add: add.commute)
  show ?thesis
    using R(3) rd(1) slot kept cc
    by (simp add: event_run_def numeral_eq_Suc load_step_def Let_def load_field_def all_fields_loaded quiet_report_def add.commute)
qed

lemma drain:
  assumes "ring_part_ok s" "\<not> es_lapped s" "es_writers s = []" "length (es_log s) < 2 ^ 64"
    and "es_reader s = AtSlot (of_nat i) (of_nat c) 0 no_event False" "i < c" "c \<le> length (es_log s)" "length (es_log s) \<le> i + 16384"
  shows "event_run (replicate (5 * (c - i)) Load) s =
    s\<lparr>es_out := es_out s @ map (quiet_report s) [i..<c], es_reader := Waiting, es_last_seen := of_nat c\<rparr>"
  using assms
proof (induction "c - i" arbitrary: s i)
  case (Suc m)
  have app: "event_run (replicate (5 * (c - i)) Load) s = event_run (replicate (5 * m) Load) (event_run (replicate 5 Load) s)"
    using Suc.hyps(2) [symmetric] replicate_add [of 5 "5 * m" Load] by (simp add: event_run_def del: fold_replicate)
  let ?s = "event_run (replicate 5 Load) s"
  note five = load_five [OF Suc.prems]
  show ?case
  proof (cases "Suc i = c")
    case True
    then have "m = 0" using Suc.hyps(2) by simp
    then have "event_run (replicate (5 * (c - i)) Load) s = ?s" using app by (simp add: event_run_def)
    then show ?thesis using five True [symmetric] by simp
  next
    case False
    have m: "m = c - Suc i" using Suc.hyps(2) by simp
    have "ring_part_ok ?s" "es_log ?s = es_log s" "quiet_report ?s = quiet_report s"
      using Suc.prems(1) unfolding five by (simp_all add: ring_part_ok_def quiet_report_def fun_eq_iff)
    moreover have "[i..<c] = i # [Suc i..<c]" using Suc.prems(6) by (rule upt_conv_Cons)
    ultimately show ?thesis
      using Suc.hyps(1) [OF m, of ?s] Suc.prems False unfolding app m [symmetric] by (simp add: five)
  qed
qed simp

text \<open>All the new events, as they were recorded.\<close>

lemma quiet_poll:
  assumes ok: "event_system_ok s" and n: "length (es_log s) < 2 ^ 64"
    and q: "\<not> es_lapped s" "es_writers s = []" "es_reader s = Waiting" "length (es_log s) \<le> unat (es_last_seen s) + 16384"
  shows "es_out (event_run (Poll # replicate (5 * (length (es_log s) - unat (es_last_seen s))) Load) s) =
    es_out s @ map (quiet_report s) [unat (es_last_seen s)..<length (es_log s)]"
proof -
  have R: "ring_part_ok s" "reader_ok s" using ok by (simp_all add: event_system_ok_def)
  let ?n = "length (es_log s)" and ?s = "poll_step s"
  obtain l where l: "l \<le> ?n" "es_last_seen s = of_nat l" using R(2) by (auto simp: reader_ok_def)
  have u: "unat (es_last_seen s) = l" using l n by (simp add: unat_of_nat_id)
  have cap: "unat (of_nat kEventRingCapacity :: u64) = 16384" by (simp add: kEventRingCapacity_def)
  have "unat (of_nat ?n - of_nat l :: u64) = ?n - l"
    using l(1) n unat_of_nat_id [of "?n - l", where 'a = 64] by (simp add: of_nat_diff)
  then have "first_unread (of_nat l) (of_nat ?n) = of_nat l"
    using q(4) u unfolding first_unread_def word_less_nat_alt cap by auto
  then have p: "?s = s\<lparr>es_reader := (if l = ?n then Waiting else AtSlot (of_nat l) (of_nat ?n) 0 no_event False)\<rparr>"
    using q(3) l R(1) of_nat_inj64 [of l ?n] n by (simp add: poll_step_def ring_part_ok_def Let_def)
  have run: "event_run (Poll # as) s = event_run as ?s" for as by (simp add: event_run_def)
  show ?thesis
  proof (cases "l = ?n")
    case True
    then show ?thesis unfolding run p u by (simp add: event_run_def)
  next
    case False
    have "ring_part_ok ?s" using ring_part_reader R(1) by blast
    then have "es_out (event_run (replicate (5 * (?n - l)) Load) ?s) = es_out ?s @ map (quiet_report ?s) [l..<?n]"
      using drain [of ?s l ?n] q(1,2,4) n l(1) u False by (simp add: p)
    moreover have "quiet_report ?s = quiet_report s" by (simp add: p quiet_report_def fun_eq_iff)
    ultimately show ?thesis unfolding run u by (simp add: p)
  qed
qed

end
