(* ===== verification/Tick_Properties.thy ===== *)
theory Tick_Properties
  imports Tick_Run Fanout_Steps Mem_Pool Cpu_List Event_Steps
begin

text \<open>
  The guarantees of the tick pipeline that span its components: the receiver with its workers, the
  lock-free queues under every interleaving, gap detection and recovery together with the publisher,
  and the telemetry path. Each has a concrete instance.
\<close>

section \<open>Concrete instances used by the witnesses\<close>

definition demo_tick :: tick_message where
  "demo_tick = \<lparr>tm_sequence = 5, tm_send_timestamp_ns = 100, tm_symbol_id = 1, tm_price = 10000, tm_quantity = 100,
     tm_flags = 1\<rparr>"

definition demo_event_ring :: event_ring where
  "demo_event_ring = \<lparr>er_config = \<lparr>sc_ready = 0, sc_transport = 0, sc_queue_kind = 0, sc_workers = 1, sc_batch = 1,
     sc_busy_poll_us = 0, sc_bpf_filter = 0, sc_recovery_enabled = 0, sc_port = 9000, sc_multicast_group = []\<rparr>,
     er_write_index = 0, er_events = replicate kEventRingCapacity (ring_event_of EvReceived 0 0 0 0)\<rparr>"

abbreviation demo_rx_cfg :: rx_config where
  "demo_rx_cfg \<equiv> \<lparr>rc_snapshot_enabled = False, rc_telemetry = False\<rparr>"

abbreviation demo_clock :: "nat \<Rightarrow> u64" where
  "demo_clock \<equiv> \<lambda>k. 200"

definition demo_later :: tick_message where
  "demo_later = demo_tick\<lparr>tm_sequence := 8\<rparr>"

abbreviation demo_es :: "rx_input list" where
  "demo_es \<equiv> [RxBatch [(demo_tick, 40, []), (demo_later, 40, [])] (\<lambda>k r. None)]"

definition demo_pub_cfg :: pub_config where
  "demo_pub_cfg = \<lparr>pc_rate = 1000, pc_count = 20, pc_symbol_id = 1, pc_drop_every = 6, pc_burst = 1, pc_snapshot_port = 9100\<rparr>"

definition demo_pub_env :: pub_env where
  "demo_pub_env = \<lparr>pe_now_ns = (\<lambda>s. 100 + s), pe_sendto_full = (\<lambda>s. True)\<rparr>"



definition demo_stats :: shared_stats where
  "demo_stats = \<lparr>st_received = 0, st_invalid = 0, st_sequence_gaps = 0, st_reorders = 0, st_queue_full = 0, st_recovered = 0,
     st_processed = 0, st_latency_total_ns = 0, st_latency_max_ns = 0, st_queue_depth = 0\<rparr>"

lemma demo_valid: "accepted_input (demo_tick, 40, [])" "accepted_input (demo_later, 40, [])"
  by (simp_all add: accepted_input_def demo_tick_def demo_later_def message_is_valid_def kKnownFlags_def TICK_FLAG_TRADE_def TICK_FLAG_QUOTE_def TICK_FLAG_LAST_def TICK_MESSAGE_EXPECTED_SIZE_def)

lemma demo_process:
  assumes "rx_backend x = MutexBackend q n" "\<not> qm_closed q" "qm_count q \<noteq> qm_capacity q" "accepted_input d"
  shows "\<exists>x'. process_one cfg clock d x = Some x' \<and> rx_backend x' = MutexBackend (qm_put (fst d) q) n \<and>
    rx_accepted x' = rx_accepted x @ [fst d] \<and> rx_stop x' = rx_stop x"
proof -
  obtain msg sz rounds where d: "d = (msg, sz, rounds)" by (cases d)
  let ?y = "rx_track cfg clock (tm_sequence msg) (rx_count_received cfg clock msg x)"
  have "rx_backend ?y = rx_backend x" "intake ?y = intake x" by (simp_all add: kind.counts_good)
  then show ?thesis
    using assms d by (simp add: process_one_def accepted_input_def rx_enqueue.simps qm_try_push_def intake_def)
qed

lemma demo_received:
  obtains x0 x1 where "Receiver QueueKindMutex 1 demo_event_ring = Some x0"
    "rx_loop demo_rx_cfg demo_clock demo_es x0 = Some (RxListening, x1)" "\<not> rx_stop x1" "rx_accepted x1 = [demo_tick, demo_later]"
proof -
  obtain x0 where x0: "Receiver QueueKindMutex 1 demo_event_ring = Some x0" using Receiver_exists by blast
  obtain q where q: "rx_backend x0 = MutexBackend q 1" "qm_capacity q = 4096" "qm_count q = 0" "\<not> qm_closed q" "\<not> rx_stop x0" "rx_accepted x0 = []"
    using x0 by (auto simp: Receiver_def make_queue_backend_def QueueMutex_def kQueueCapacity_def)
  obtain y where y: "process_one demo_rx_cfg demo_clock (demo_tick, 40, []) x0 = Some y"
    "rx_backend y = MutexBackend (qm_put demo_tick q) 1" "rx_accepted y = [demo_tick]" "\<not> rx_stop y"
    using demo_process [OF q(1,4) _ demo_valid(1)] q by fastforce
  obtain z where z: "process_one demo_rx_cfg demo_clock (demo_later, 40, []) y = Some z"
    "rx_accepted z = [demo_tick, demo_later]" "\<not> rx_stop z"
    using demo_process [OF y(2) _ _ demo_valid(2)] y(3,4) q by (fastforce simp: qm_put_def)
  show ?thesis using that [OF x0] y(1) z by (simp add: rx_drain_def)
qed

lemma demo_inputs: "input_ticks (loop_inputs demo_es) = [demo_tick, demo_later]" "input_seqs (loop_inputs demo_es) = [5, 8]"
  using demo_valid by (simp_all add: input_seqs_def demo_tick_def demo_later_def)

lemma demo_spsc: obtains r where "SpscRing 4 = Some r" "length (sr_buf r) = 4" "sr_head r = 0" "sr_tail r = 0" "\<not> sr_closed r" "sr_mask r = 3"
proof (rule SpscRing_new [of 4])
  fix k r
  assume r: "SpscRing 4 = Some r" "spsc_shape k r" "unat (4 :: u64) \<le> 2 ^ k" "\<And>i. i < k \<Longrightarrow> 2 ^ i < unat (4 :: u64)"
    "sr_head r = 0" "sr_tail r = 0" "\<not> sr_closed r"
  have "k = 2"
  proof (rule antisym)
    show "k \<le> 2" using r(4) [of 2] by (rule_tac ccontr) simp
    show "2 \<le> k" using r(3) power_strict_increasing [of k 2 "2 :: nat"] by (rule_tac ccontr) simp
  qed
  then show ?thesis using that r by (simp add: spsc_shape_def)
qed simp

lemma demo_fanout:
  obtains f where "MpmcFanout 4 2 = Some f" "length (mf_buf f) = 4" "mf_read_seq f = [0, 0]" "mf_write_seq f = 0" "\<not> mf_closed f" "mf_mask f = 3"
proof -
  have "next_pow2 4 = Some 4"
    by (simp add: next_pow2_def next_pow2_loop.simps)
  moreover have "replicate 2 (0 :: u64) = [0, 0]" by (simp add: numeral_2_eq_2)
  ultimately show ?thesis using that by (simp add: MpmcFanout_def)
qed

lemma u64_le_nonempty [simp]: "u64_le v \<noteq> []"
  using length_le(1) [of v] by (metis list.size(3) zero_neq_numeral)



section \<open>The receiver and its workers\<close>

text \<open>C5: The receiver hands every valid tick to its workers: whatever arrives, whatever the recovery
  requests return and however the workers are scheduled, each valid tick received before a stop was
  requested is accepted by the queue, in the order of arrival; and when the receiver has shut down and
  the workers had enough turns, all workers have returned, and what they processed is exactly what was
  accepted, in order, by one of them (mutex queue, ring) or by each of them (broadcast ring). The
  shared counter of processed ticks agrees.\<close>

theorem tick_pipeline:
  assumes "Receiver kind n ring = Some x0" "0 < n" "rx_loop cfg clock es1 x0 = Some (RxListening, x1)" "\<not> rx_stop x1"
    "rx_loop cfg clock es2 x1 = Some (e, x2)" "x3 = rx_shutdown cfg clock ans ws x2"
    "length (rx_accepted x3) < 2 ^ 64" "\<forall>i<n. length (rx_accepted x3) < worker_runs i ws"
  shows "subseq (input_ticks (loop_inputs es1)) (rx_accepted x3) \<and> (\<forall>i<n. wk_done (rx_workers x3 ! i)) \<and>
    (if kind = QueueKindDisruptor then \<forall>i<n. given_to i (rx_delivered x3) = rx_accepted x3
     else all_given (rx_delivered x3) = rx_accepted x3) \<and>
    st_processed (rx_stats x3) = of_nat (length (rx_delivered x3))"
proof -
  define y where "y = rx_drain cfg clock ans x2"
  define z where "z = y\<lparr>rx_backend := be_close (rx_backend y)\<rparr>"
  have x3: "x3 = fold (worker_step cfg clock) ws z" using assms(6) by (simp add: rx_shutdown_def y_def z_def Let_def)
  have ok2: "rx_ok n x2" using rx_ok_loop [OF rx_ok_loop [OF rx_ok_init(1) [OF assms(1)] assms(3)] assms(5)] .
  have okz: "rx_ok n z" using rx_ok_close [OF rx_ok_rx_drain [OF ok2]] by (simp add: z_def y_def)
  have ok: "rx_ok n x3" using rx_ok_shutdown [OF ok2] assms(6) by simp
  have acc: "rx_accepted x3 = rx_accepted z"
    using intake_workers [of cfg clock ws z] by (simp add: x3 intake_def)
  have shut: "be_shut (rx_backend z)"
    by (cases "rx_backend y") (simp_all add: z_def qm_close_def sr_close_def mf_close_def)
  have fin: "\<forall>i<n. wk_done (rx_workers x3 ! i)"
    using workers_return [OF okz shut, where cfg = cfg and clock = clock and ws = ws, folded x3] assms(7,8) acc
    by (simp add: trans_less_add2)
  have "be_kind (rx_backend x3) = kind \<and> be_roomy (rx_backend x3)"
    using kind.shutdown_good [OF kind.loop_good [OF kind.loop_good [OF Receiver_kind [OF assms(1)] assms(3)] assms(5)]] assms(6)
    by simp
  then have gave: "if kind = QueueKindDisruptor then \<forall>i<n. given_to i (rx_delivered x3) = rx_accepted x3
      else all_given (rx_delivered x3) = rx_accepted x3"
    using drained_all [OF ok assms(2) fin assms(7)] be_broadcast_kind by metis
  have count: "st_processed (rx_stats x3) = of_nat (length (rx_delivered x3))" using ok by (simp add: rx_ok_defs)
  have "rx_accepted z = rx_accepted y" by (simp add: z_def)
  then have "prefix (rx_accepted x1) (rx_accepted x3)"
    using intake_loop [OF assms(5)] intake_drain [of x2 cfg clock ans] acc by (auto simp: y_def intro: prefix_order.trans)
  moreover have "subseq (input_ticks (loop_inputs es1)) (rx_accepted x1)"
    using intake_loop [OF assms(3)] assms(4) subseq_append_iff by (metis subseq_order.order_refl subseq_order.trans subseq_drop_many)
  ultimately have "subseq (input_ticks (loop_inputs es1)) (rx_accepted x3)"
    by (meson prefix_imp_subseq subseq_order.trans)
  then show ?thesis using fin gave count by blast
qed

theorem tick_pipeline_witness:
  "\<exists>x0 x1. Receiver QueueKindMutex 1 demo_event_ring = Some x0 \<and>
     rx_loop demo_rx_cfg demo_clock demo_es x0 = Some (RxListening, x1) \<and>
     all_given (rx_delivered (rx_shutdown demo_rx_cfg demo_clock (\<lambda>k r. None) (replicate 3 (0, [])) x1)) = [demo_tick, demo_later]"
proof -
  obtain x0 x1 where x: "Receiver QueueKindMutex 1 demo_event_ring = Some x0"
    "rx_loop demo_rx_cfg demo_clock demo_es x0 = Some (RxListening, x1)" "\<not> rx_stop x1" "rx_accepted x1 = [demo_tick, demo_later]"
    by (rule demo_received)
  let ?x3 = "rx_shutdown demo_rx_cfg demo_clock (\<lambda>k r. None) (replicate 3 (0, [])) x1"
  have acc: "rx_accepted ?x3 = [demo_tick, demo_later]"
    using x(4) intake_workers [of demo_rx_cfg demo_clock "replicate 3 (0, [])"]
    by (simp add: rx_shutdown_def rx_drain_def Let_def intake_def del: fold_replicate)
  have runs: "worker_runs 0 (replicate 3 (0 :: nat, [] :: bool list)) = 3"
    by (simp add: worker_runs_def numeral_3_eq_3)
  have "rx_loop demo_rx_cfg demo_clock [] x1 = Some (RxListening, x1)" by simp
  from tick_pipeline [OF x(1) _ x(2,3) this refl, of "\<lambda>k r. None" "replicate 3 (0, [])"]
  have "all_given (rx_delivered ?x3) = rx_accepted ?x3" by (simp add: acc runs)
  then show ?thesis using x acc by auto
qed

text \<open>C25: A receiver that waits on a full queue gets its tick in as soon as each worker has taken one
  turn: from any state that the receive loop reaches, the retry loop then returns.\<close>

theorem backpressure_ends:
  assumes "Receiver kind n ring = Some x0" "0 < n" "rx_loop cfg clock es x0 = Some (e, x)"
    "length (rx_accepted x) < 2 ^ 64 - 1" "\<forall>i<n. i \<in> fst ` set ws" "\<forall>w\<in>set ws. fst w < n"
  shows "\<exists>x'. rx_enqueue cfg clock ((stop, ws) # rounds) rep msg x = Some x' \<and>
    (rx_stop x' \<or> rx_accepted x' = rx_accepted x @ [msg])"
proof -
  have "rx_ok n x" using rx_ok_loop [OF rx_ok_init(1) [OF assms(1)] assms(3)] .
  moreover have "be_roomy (rx_backend x)" using kind.loop_good [OF Receiver_kind [OF assms(1)] assms(3)] by simp
  ultimately obtain x' where "rx_enqueue cfg clock ((stop, ws) # rounds) rep msg x = Some x'"
    using enqueue_returns [OF _ assms(4,2) _ assms(5,6)] by blast
  then show ?thesis using intake_enqueue [of cfg clock "(stop, ws) # rounds" rep msg x x'] by (auto simp: intake_def)
qed

theorem backpressure_ends_witness:
  "\<exists>x0 x1 x'. Receiver QueueKindMutex 1 demo_event_ring = Some x0 \<and>
     rx_loop demo_rx_cfg demo_clock demo_es x0 = Some (RxListening, x1) \<and>
     rx_enqueue demo_rx_cfg demo_clock [(False, [(0, [])])] False demo_tick x1 = Some x'"
proof -
  obtain x0 x1 where x: "Receiver QueueKindMutex 1 demo_event_ring = Some x0"
    "rx_loop demo_rx_cfg demo_clock demo_es x0 = Some (RxListening, x1)" "\<not> rx_stop x1" "rx_accepted x1 = [demo_tick, demo_later]"
    by (rule demo_received)
  from backpressure_ends [OF x(1) _ x(2), of "[(0, [])]" False "[]" False demo_tick] x(4)
  show ?thesis using x(1,2) by auto
qed

section \<open>The queues under concurrency\<close>

text \<open>C6: The lock-free ring is a first-in-first-out queue under every interleaving of the accesses of
  its producer and its consumer: what was accepted is what was delivered followed by what the ring
  holds, the ring never holds more than its capacity, the consumer is told that the ring is closed only
  when everything was delivered, and it never copies a slot that is being written.\<close>

theorem spsc_fifo:
  assumes "SpscRing capacity = Some r" "unat capacity \<le> 2 ^ 63" "s = spsc_run ms (spsc_start r)"
  shows "ss_pushed s = ss_popped s @ sr_items (ss_ring s) \<and> length (sr_items (ss_ring s)) \<le> length (sr_buf (ss_ring s)) \<and>
    (ss_pop s = PopRet None \<longrightarrow> sr_closed (ss_ring s) \<and> ss_popped s = ss_pushed s) \<and>
    (\<forall>m t h. ss_push s = PushStore m t \<longrightarrow> ss_pop s = PopCopy h \<longrightarrow>
      unat (t AND sr_mask (ss_ring s)) \<noteq> unat (h AND sr_mask (ss_ring s)))"
proof -
  obtain k where "spsc_inv k (spsc_start r)" using spsc_inv_start [OF assms(1,2)] by blast
  then have inv: "spsc_inv k s" using spsc_inv_run assms(3) by blast
  have p: "ss_pushed s = ss_popped s @ sr_items (ss_ring s)" using inv by (simp add: spsc_inv_def)
  moreover have "length (sr_items (ss_ring s)) \<le> length (sr_buf (ss_ring s))" using inv by (simp add: spsc_inv_def spsc_shape_def)
  moreover have "sr_closed (ss_ring s) \<and> ss_popped s = ss_pushed s" if "ss_pop s = PopRet None"
    using inv that p sr_count_0_iff [of "ss_ring s"] by (simp add: spsc_inv_def flip: length_0_conv)
  ultimately show ?thesis using spsc_no_race [OF inv] by blast
qed

theorem spsc_fifo_witness:
  "\<exists>r. SpscRing 4 = Some r \<and>
     (let s = spsc_run [CallPush demo_tick, StepPush, StepPush, CallPop, StepPush, StepPop, StepPush, StepPush, StepPop, StepPop, StepPop]
        (spsc_start r) in ss_pushed s = [demo_tick] \<and> ss_popped s = [demo_tick] \<and> sr_items (ss_ring s) = [])"
proof -
  obtain r where r: "SpscRing 4 = Some r" "length (sr_buf r) = 4" "sr_head r = 0" "sr_tail r = 0" "\<not> sr_closed r" "sr_mask r = 3"
    by (rule demo_spsc)
  let ?s = "spsc_run [CallPush demo_tick, StepPush, StepPush, CallPop, StepPush, StepPop, StepPush, StepPush, StepPop, StepPop, StepPop]
        (spsc_start r)"
  have "ss_pushed ?s = [demo_tick]" "ss_popped ?s = [demo_tick]"
    using r by (simp_all add: spsc_run_def spsc_start_def sr_size_def)
  then show ?thesis using spsc_fifo [OF r(1) _ refl, of "[CallPush demo_tick, StepPush, StepPush, CallPop, StepPush, StepPop, StepPush, StepPush, StepPop, StepPop, StepPop]"] r(1)
    by (simp add: Let_def)
qed

text \<open>C24: The consumer's \<open>pop\<close> does not spin for ever: once the ring holds a message or is closed, it
  returns after at most eight of its own accesses, whatever the producer does in between.\<close>

theorem spsc_pop_live:
  assumes "SpscRing capacity = Some r" "unat capacity \<le> 2 ^ 63" "s = spsc_run ms (spsc_start r)"
    "sr_head (ss_ring s) \<noteq> sr_tail (ss_ring s) \<or> sr_closed (ss_ring s)" "8 \<le> length (filter (\<lambda>mv. mv = StepPop) ms')"
  shows "\<exists>i\<le>length ms'. pop_returned (ss_pop (spsc_run (take i ms') s))"
proof -
  obtain k where "spsc_inv k (spsc_start r)" using spsc_inv_start [OF assms(1,2)] by blast
  then show ?thesis using spsc_pop_returns [OF spsc_inv_run] assms(3-5) by (simp add: pop_ready_def)
qed

theorem spsc_pop_live_witness:
  "\<exists>r. SpscRing 4 = Some r \<and> (let s = spsc_run [CallPop, StepPop, StepPop, CallClose] (spsc_start r) in
     ss_pop s = PopFlag \<and> (\<exists>i\<le>8. pop_returned (ss_pop (spsc_run (take i (replicate 8 StepPop)) s))))"
proof -
  obtain r where r: "SpscRing 4 = Some r" "length (sr_buf r) = 4" "sr_head r = 0" "sr_tail r = 0" "\<not> sr_closed r" "sr_mask r = 3"
    by (rule demo_spsc)
  let ?s = "spsc_run [CallPop, StepPop, StepPop, CallClose] (spsc_start r)"
  have "ss_pop ?s = PopFlag" "sr_closed (ss_ring ?s)"
    using r by (simp_all add: spsc_run_def spsc_start_def sr_close_def)
  then show ?thesis
    using spsc_pop_live [OF r(1) _ refl, of "[CallPop, StepPop, StepPop, CallClose]" "replicate 8 StepPop"] r(1)
    by (simp add: Let_def)
qed

text \<open>C7: The broadcast ring gives every reader the whole stream, under every interleaving of the
  accesses of the writer and the readers (fewer than \<open>2 ^ 64\<close> messages): what was accepted is what the
  reader was given followed by its backlog, which never exceeds the ring; a reader is told that the
  ring is closed only when it has seen everything, and the writer never stores into a slot that a
  reader is copying.\<close>

theorem fanout_broadcast:
  assumes "MpmcFanout capacity n = Some f" "unat capacity \<le> 2 ^ 63" "s = fan_run ms (fan_start f)"
    "length (fs_pushed s) < 2 ^ 64" "i < n"
  shows "fs_pushed s = fs_popped s ! i @ mf_backlog i (fs_fan s) \<and>
    length (mf_backlog i (fs_fan s)) \<le> length (mf_buf (fs_fan s)) \<and>
    (fs_pops s ! i = PopRet None \<longrightarrow> mf_closed (fs_fan s) \<and> fs_popped s ! i = fs_pushed s) \<and>
    (\<forall>m w h. fs_push s = FanStore m w \<longrightarrow> fs_pops s ! i = PopCopy h \<longrightarrow>
      unat (w AND mf_mask (fs_fan s)) \<noteq> unat (h AND mf_mask (fs_fan s)))"
proof -
  obtain k where "fan_inv k n (fan_start f)" using fan_inv_start [OF assms(1,2)] by blast
  then have inv: "fan_inv k n s" using fan_inv_run assms(3,4) by blast
  have p: "fs_pushed s = fs_popped s ! i @ mf_backlog i (fs_fan s)" using inv assms(5) by (simp add: fan_inv_def)
  moreover have "length (mf_backlog i (fs_fan s)) \<le> length (mf_buf (fs_fan s))"
    using inv assms(5) by (simp add: fan_inv_def mf_ok_def mf_shape_def)
  moreover have "mf_closed (fs_fan s) \<and> fs_popped s ! i = fs_pushed s" if "fs_pops s ! i = PopRet None"
  proof -
    have at: "read_at (fs_fan s) i (fs_pops s ! i)" "mf_ok k (fs_fan s)" "i < mf_num_readers (fs_fan s)"
      using inv assms(5) by (simp_all add: fan_inv_def)
    then have "mf_backlog i (fs_fan s) = []" using mf_pop_empty [OF at(2,3)] that by simp
    then show ?thesis using p at(1) that by simp
  qed
  ultimately show ?thesis using fan_no_race [OF inv _ assms(5)] by blast
qed

theorem fanout_broadcast_witness:
  "\<exists>f. MpmcFanout 4 2 = Some f \<and>
     (let s = fan_run ([FanCallPush demo_tick, FanStepPush, FanStepPush, FanStepPush, FanStepPush, FanStepPush, FanStepPush, FanStepPush, FanStepPush,
         FanCallPop 1, FanStepPop 1, FanStepPop 1, FanStepPop 1, FanStepPop 1])
        (fan_start f) in fs_popped s ! 1 = [demo_tick] \<and> fs_popped s ! 0 = [] \<and> mf_backlog 0 (fs_fan s) = [demo_tick])"
proof -
  obtain f where f: "MpmcFanout 4 2 = Some f" "length (mf_buf f) = 4" "mf_read_seq f = [0, 0]" "mf_write_seq f = 0" "\<not> mf_closed f" "mf_mask f = 3"
    by (rule demo_fanout)
  let ?ms = "[FanCallPush demo_tick, FanStepPush, FanStepPush, FanStepPush, FanStepPush, FanStepPush, FanStepPush, FanStepPush, FanStepPush,
         FanCallPop 1, FanStepPop 1, FanStepPop 1, FanStepPop 1, FanStepPop 1]"
  have s: "fs_pushed (fan_run ?ms (fan_start f)) = [demo_tick]" "fs_popped (fan_run ?ms (fan_start f)) = [[], [demo_tick]]"
    using f by (simp_all add: fan_run_def fan_start_def mf_size_def mf_num_readers_def Let_def)
  then have "mf_backlog 0 (fs_fan (fan_run ?ms (fan_start f))) = [demo_tick]"
    using fanout_broadcast [OF f(1) _ refl, of ?ms 0] by simp
  then show ?thesis using f(1) s by (simp add: Let_def)
qed

section \<open>Gaps and their recovery\<close>

text \<open>C23: For valid ticks that arrive in increasing order, the receiver's gap counter is the number of
  sequence numbers between the first and the last that did not arrive, no reordering is reported, and
  the shared counters say the same. Out of order the count is too high: after \<open>a, a + 2, a + 1, a + 3\<close>,
  from which nothing is missing, two ticks are counted as missing.\<close>

theorem gap_count_exact:
  assumes "Receiver kind n ring = Some x0" "rx_loop cfg clock es x0 = Some (RxListening, x)"
    "ss = input_seqs (loop_inputs es)"
  shows "(sorted_wrt (<) ss \<and> ss \<noteq> [] \<longrightarrow>
      rx_gaps x = of_nat (card ({unat (hd ss)..unat (last ss)} - unat ` set ss)) \<and> rx_reorders x = 0) \<and>
    (ss = [a, a + 2, a + 1, a + 3] \<and> unat a + 3 < 2 ^ 64 \<longrightarrow> rx_gaps x = 2 \<and> rx_reorders x = 1) \<and>
    st_sequence_gaps (rx_stats x) = rx_gaps x \<and> st_reorders (rx_stats x) = rx_reorders x"
proof -
  have "rx_gaps x = of_nat (card ({unat (hd ss)..unat (last ss)} - unat ` set ss)) \<and> rx_reorders x = 0"
    if "sorted_wrt (<) ss" "ss \<noteq> []"
  proof -
    have "tracking x = (True, last ss, of_nat (Suc (unat (last ss)) - unat (hd ss) - length ss), 0)"
      unfolding tracking_loop [OF assms(2)] Receiver_tracking [OF assms(1)] assms(3) [symmetric]
      by (rule seq_in_order [OF that])
    then show ?thesis by (simp add: tracking_def missing_count [OF that])
  qed
  moreover have "rx_gaps x = 2 \<and> rx_reorders x = 1" if "ss = [a, a + 2, a + 1, a + 3]" "unat a + 3 < 2 ^ 64"
    using reorder_counts_missing [OF assms(1,2) _ that(2)] that(1) assms(3) by simp
  moreover have "st_sequence_gaps (rx_stats x) = rx_gaps x" "st_reorders (rx_stats x) = rx_reorders x"
    using rx_ok_loop [OF rx_ok_init(1) [OF assms(1)] assms(2)] by (simp_all add: rx_ok_defs)
  ultimately show ?thesis by blast
qed

theorem gap_count_exact_witness:
  "\<exists>x0 x1. Receiver QueueKindMutex 1 demo_event_ring = Some x0 \<and>
     rx_loop demo_rx_cfg demo_clock demo_es x0 = Some (RxListening, x1) \<and> rx_gaps x1 = 2"
proof -
  obtain x0 x1 where x: "Receiver QueueKindMutex 1 demo_event_ring = Some x0"
    "rx_loop demo_rx_cfg demo_clock demo_es x0 = Some (RxListening, x1)" "\<not> rx_stop x1" "rx_accepted x1 = [demo_tick, demo_later]"
    by (rule demo_received)
  have "rx_gaps x1 = of_nat (card ({5..8} - {5, 8 :: nat}))"
    using gap_count_exact [OF x(1,2) demo_inputs(2) [symmetric]] by simp
  also have "{5..8} - {5, 8} = {6, 7 :: nat}" by auto
  finally show ?thesis using x(1,2) by auto
qed





section \<open>The publisher\<close>

text \<open>C26: The publisher returns, for every count below the largest 64-bit value, and has then sent exactly
  the ticks \<open>1, \<dots>, count\<close> in order, less those dropped on purpose and those whose \<open>sendto\<close> failed; every
  tick is accounted for in one counter, and every tick on the wire passes the receiver's validation.
  With the largest count it does not return.\<close>

theorem publisher_complete:
  "(unat (pc_count cfg) < 2 ^ 64 - 1 \<longrightarrow> (\<exists>p. publisher_main cfg env d = Some p \<and>
     pb_wire p = filter (\<lambda>m. \<not> pub_drops cfg (tm_sequence m) \<and> pe_sendto_full env (tm_sequence m))
       (map (\<lambda>i. pub_message cfg env (of_nat (Suc i))) [0..<unat (pc_count cfg)]) \<and>
     pb_sent p + pb_dropped p + pb_send_errors p = pc_count cfg \<and> (\<forall>m\<in>set (pb_wire p). message_is_valid m))) \<and>
   (pc_count cfg = - 1 \<longrightarrow> publisher_main cfg env d = None)"
  using publish_returns [of cfg env d] published_counts [of cfg env d "unat (pc_count cfg)"]
  by (auto simp: published_wire generated_def pub_message_valid publisher_main_def [of cfg] publish_loop_forever)

theorem publisher_complete_witness:
  "\<exists>p. publisher_main demo_pub_cfg demo_pub_env 0 = Some p \<and> length (pb_wire p) = 17 \<and> pb_sent p + pb_dropped p + pb_send_errors p = 20"
  using publisher_complete [of demo_pub_cfg demo_pub_env 0]
  by (auto simp: demo_pub_cfg_def demo_pub_env_def pub_drops_def upt_rec pub_message_def)

section \<open>The memory pool, CPU lists and telemetry\<close>

text \<open>C37: The memory pool is sound under every sequence of acquisitions, writes and releases of slots in
  use: no operation gets stuck, every object in use keeps the value last written to it, no slot is handed
  out twice, \<open>available\<close> is exact, and \<open>acquire\<close> fails only when all slots are in use.\<close>

theorem pool_sound:
  "\<exists>m p. pool_run cs (Map.empty, MemPool capacity) = Some (m, p) \<and> dom m \<subseteq> {..<capacity} \<and>
     (\<forall>i v. m i = Some v \<longrightarrow> mp_slots p ! i = Storage v) \<and> mp_available p = capacity - card (dom m) \<and>
     (mp_acquire p = Some (None, p) \<and> dom m = {..<capacity} \<or>
      (\<exists>i p'. mp_acquire p = Some (Some i, p') \<and> i < capacity \<and> i \<notin> dom m \<and> mp_available p' = mp_available p - 1))"
proof -
  have "pool_agrees (Map.empty, MemPool capacity :: 'a mem_pool)" by (simp add: pool_agrees_def pool_ok_new)
  from pool_run_agrees [OF this, of cs] obtain m p where run: "pool_run cs (Map.empty, MemPool capacity) = Some (m, p)"
    "pool_agrees (m, p)" "mp_capacity p = mp_capacity (MemPool capacity :: 'a mem_pool)" by auto
  have cap: "mp_capacity p = capacity" using run(3) by (simp add: mp_capacity_def MemPool_def)
  have ok: "pool_ok (dom m) p" and vals: "\<forall>i v. m i = Some v \<longrightarrow> mp_slots p ! i = Storage v"
    using run(2) by (simp_all add: pool_agrees_def)
  have used: "dom m \<subseteq> {..<capacity}" using pool_ok_used [OF ok] cap by (auto simp: mp_capacity_def)
  have avail: "mp_available p = capacity - card (dom m)" using pool_ok_available [OF ok] cap by simp
  have "mp_available p' = mp_available p - 1"
    if "mp_acquire p = Some (Some i, p')" "i \<notin> dom m" "pool_ok (insert i (dom m)) p'" "mp_slots p' = mp_slots p" for i p'
    using pool_ok_available [OF that(3)] that(2,4) avail cap finite_subset [OF used] by (simp add: mp_capacity_def)
  then show ?thesis using run(1) used vals avail mp_acquire_law [OF ok] unfolding cap by blast
qed

theorem pool_sound_witness:
  "\<exists>m p. pool_run [PoolNew 7, PoolNew 8, PoolFree 0, PoolNew (9 :: nat)] (Map.empty, MemPool 2) = Some (m, p) \<and>
     mp_available p = 2 - card (dom m) \<and> (\<forall>i v. m i = Some v \<longrightarrow> mp_slots p ! i = Storage v)"
  using pool_sound [of "[PoolNew 7, PoolNew 8, PoolFree 0, PoolNew (9 :: nat)]" 2] by blast

text \<open>C38: CPU lists in the kernel's format are read back: a list of ranges within the range of \<open>int\<close>, written
  as \<open>lo-hi\<close> or a single number with commas in between and white space at the end, gives the CPUs of the
  ranges in order.\<close>

theorem cpu_list_roundtrip:
  assumes "\<forall>r\<in>set rs. fst r \<le> snd r \<and> snd r < 2 ^ 31 - 1" "\<forall>c\<in>set sp. is_space c"
  shows "parse_cpu_list (list_text rs @ sp) = Some (concat (map (\<lambda>r. [fst r..<Suc (snd r)]) rs))"
  by (rule parse_cpu_list_text) (use assms in auto)

theorem cpu_list_roundtrip_witness: "parse_cpu_list (list_text [(0, 3), (8, 8)] @ [10]) = Some [0, 1, 2, 3, 8]"
  using cpu_list_roundtrip [of "[(0, 3), (8, 8)]" "[10]"] by (simp add: is_space_def upt_rec)

text \<open>C39: A broadcast reaches every client that stays connected as one well-formed text frame with the
  payload in it; the others are closed, and no client is lost or closed twice.\<close>

theorem broadcast_delivers:
  assumes "length payload < 2 ^ 64" "ws' = broadcast_text payload sends ws"
  shows "(\<forall>fd\<in>set (ws_clients ws'). frame_split (fst (snd (send_full (build_text_frame payload) (sends fd)))) = Some (payload, [])) \<and>
    (\<exists>dead. mset (ws_clients ws) = mset (ws_clients ws') + mset dead \<and> ws_closed ws' = ws_closed ws @ dead \<and>
      (\<forall>fd\<in>set dead. \<not> fst (send_full (build_text_frame payload) (sends fd))))"
proof -
  have "frame_split (fst (snd (send_full (build_text_frame payload) (sends fd)))) = Some (payload, [])"
    if "fd \<in> set (ws_clients ws')" for fd
  proof -
    have "fst (send_full (build_text_frame payload) (sends fd))" using that assms(2) by (simp add: broadcast_text_clients)
    then have "fst (snd (send_full (build_text_frame payload) (sends fd))) = build_text_frame payload"
      using send_full_all by (metis prod.collapse)
    then show ?thesis using frame_split_build [OF assms(1), of "[]"] by simp
  qed
  then show ?thesis
    using assms(2) by (auto simp: broadcast_text_def broadcast_loop_split intro!: exI)
qed

theorem broadcast_delivers_witness:
  "frame_split (fst (snd (send_full (build_text_frame [104, 105]) [4]))) = Some ([104, 105], [])"
proof -
  let ?ws = "\<lparr>ws_clients = [3], ws_closed = [], ws_stop = False\<rparr>"
  have "ws_clients (broadcast_text [104, 105] (\<lambda>fd. [4]) ?ws) = [3]"
    by (simp add: broadcast_text_clients build_text_frame_def)
  then show ?thesis using broadcast_delivers [of "[104, 105]" _ "\<lambda>fd. [4]" ?ws, OF _ refl] by simp
qed




end
