(* ===== verification/Command_Line.thy ===== *)
theory Command_Line
  imports Cpu_List Tick_Publisher Tick_Run Trader
begin

text \<open>
  The command lines of the programs (\<open>parse_args\<close> in \<open>src/publisher.cpp\<close>, \<open>src/receiver.cpp\<close>,
  \<open>src/telemetry_bridge.cpp\<close>, \<open>src/exchange.cpp\<close> and \<open>src/trader.cpp\<close>). An option table says for each option
  whether it is a flag or takes a value; one loop runs the table over the arguments. Numbers are read by
  \<open>atoi\<close>, \<open>atoll\<close>, \<open>strtoul\<close> and \<open>strtoull\<close> of a 64-bit C library, which saturate; \<open>inet_pton\<close> (the address in host
  order, if the text is one) and \<open>atof\<close> are parameters. Shown: an accepted command line satisfies what
  the programs rely on: no division by zero in the publisher, a positive number of workers and one
  worker for the single-consumer ring, valid ports, symbols and groups.
\<close>

section \<open>Numbers\<close>

text \<open>White space, a sign and digits: whether it is negative, and its absolute value.\<close>

definition c_number :: "bytes \<Rightarrow> bool \<times> nat" where
  "c_number s =
     (let t = dropWhile is_space s;
          neg = (t \<noteq> [] \<and> hd t = 45);
          u = (if t \<noteq> [] \<and> (hd t = 45 \<or> hd t = 43) then tl t else t)
      in (neg, digits_val 0 (takeWhile is_digit u)))"

definition strtol :: "bytes \<Rightarrow> int" where
  "strtol s = (case c_number s of (neg, v) \<Rightarrow> if neg then max (- (2 ^ 63)) (- int v) else min (2 ^ 63 - 1) (int v))"

definition atoi :: "bytes \<Rightarrow> int" where
  "atoi s = sint (word_of_int (strtol s) :: u32)"

definition strtoull :: "bytes \<Rightarrow> u64" where
  "strtoull s = (case c_number s of (neg, v) \<Rightarrow> if 2 ^ 64 \<le> v then - 1 else if neg then - of_nat v else of_nat v)"

lemma c_number_dec: "c_number (dec_digits n) = (False, n)"
proof -
  obtain c cs where d: "dec_digits n = c # cs" by (cases "dec_digits n") auto
  have "is_digit c" using dec_digits_all_digits [of n] d by simp
  then have c: "\<not> is_space c" "c \<noteq> 45" "c \<noteq> 43" by (auto simp: is_digit_def is_space_def word_le_nat_alt)
  have "takeWhile is_digit (dec_digits n) = dec_digits n" using takeWhile_digits [OF dec_digits_all_digits, of "[]"] by simp
  then show ?thesis using c digits_val_dec_digits [of n] by (simp add: c_number_def d)
qed

lemma atoi_dec: "n < 2 ^ 31 \<Longrightarrow> atoi (dec_digits n) = int n"
  by (simp add: atoi_def strtol_def c_number_dec min_def sint_small unat_of_nat_id)

text \<open>Reading back decimal text, and saturation beyond 64 bits.\<close>

lemma strtoull_dec: "strtoull (dec_digits n) = (if n < 2 ^ 64 then of_nat n else - 1)"
  by (simp add: strtoull_def c_number_dec)

lemma atoi_empty [simp]: "atoi [] = 0"
  by (simp add: atoi_def strtol_def c_number_def Let_def)

section \<open>The loop over the arguments\<close>

datatype 'c arg_action = ArgFlag 'c | ArgValue "bytes \<Rightarrow> 'c option" | ArgHelp | ArgUnknown

datatype 'c arg_result = ArgsOk 'c | ArgsBad | ArgsExit nat

definition EXIT_USAGE :: nat where
  "EXIT_USAGE = 2"

text \<open>\<open>next_arg\<close>: the following argument, or an empty string; with \<open>strict\<close>, as in the exchange and the trader,
  a missing value ends the program.\<close>

function args_loop :: "bool \<Rightarrow> (bytes \<Rightarrow> 'c \<Rightarrow> 'c arg_action) \<Rightarrow> bytes list \<Rightarrow> 'c \<Rightarrow> 'c arg_result" where
  "args_loop strict act args c = (case args of [] \<Rightarrow> ArgsOk c
     | a # rest \<Rightarrow> (case act a c of
         ArgFlag c' \<Rightarrow> args_loop strict act rest c'
       | ArgValue f \<Rightarrow>
           if strict \<and> rest = [] then ArgsExit EXIT_USAGE
           else (case f (case rest of [] \<Rightarrow> [] | v # _ \<Rightarrow> v) of None \<Rightarrow> ArgsBad
                 | Some c' \<Rightarrow> args_loop strict act (tl rest) c')
       | ArgHelp \<Rightarrow> ArgsExit 0
       | ArgUnknown \<Rightarrow> ArgsBad))"
  by pat_completeness auto

termination
  by (relation "measure (\<lambda>(strict, act, args, c). length args)") auto

declare args_loop.simps [simp del]

definition checked :: "('c \<Rightarrow> bool) \<Rightarrow> 'c arg_result \<Rightarrow> 'c arg_result" where
  "checked ok r = (case r of ArgsOk c \<Rightarrow> if ok c then ArgsOk c else ArgsBad | _ \<Rightarrow> r)"

lemma checked_Ok [simp]: "checked ok r = ArgsOk c \<longleftrightarrow> r = ArgsOk c \<and> ok c"
  by (auto simp: checked_def split: arg_result.splits if_splits)

text \<open>What every action of the table keeps holds of an accepted configuration.\<close>

fun action_keeps :: "('c \<Rightarrow> bool) \<Rightarrow> 'c arg_action \<Rightarrow> bool" where
  "action_keeps P (ArgFlag c) \<longleftrightarrow> P c"
| "action_keeps P (ArgValue f) \<longleftrightarrow> (\<forall>v c. f v = Some c \<longrightarrow> P c)"
| "action_keeps P _ \<longleftrightarrow> True"

definition table_keeps :: "('c \<Rightarrow> bool) \<Rightarrow> (bytes \<Rightarrow> 'c \<Rightarrow> 'c arg_action) \<Rightarrow> bool" where
  "table_keeps P act \<longleftrightarrow> (\<forall>a c. P c \<longrightarrow> action_keeps P (act a c))"

lemma action_keeps_if: "action_keeps P x \<Longrightarrow> action_keeps P y \<Longrightarrow> action_keeps P (if b then x else y)"
  by simp

lemma args_loop_keeps: "table_keeps P act \<Longrightarrow> P c \<Longrightarrow> args_loop strict act args c = ArgsOk c' \<Longrightarrow> P c'"
proof (induction strict act args c rule: args_loop.induct)
  case (1 strict act args c)
  show ?case
  proof (cases args)
    case Nil
    then show ?thesis using "1.prems"(2,3) by (simp add: args_loop.simps [of _ _ "[]"])
  next
    case (Cons a rest)
    have keep: "action_keeps P (act a c)"
      using "1.prems"(1,2) by (simp add: table_keeps_def)
    show ?thesis
    proof (cases "act a c")
      case (ArgFlag c1)
      then show ?thesis using "1.IH"(1) [OF Cons ArgFlag "1.prems"(1)] "1.prems"(3) keep Cons by (simp add: args_loop.simps [of _ _ "a # _"])
    next
      case (ArgValue f)
      let ?v = "case rest of [] \<Rightarrow> [] | v # _ \<Rightarrow> v"
      obtain c1 where c1: "\<not> (strict \<and> rest = [])" "f ?v = Some c1" "args_loop strict act (tl rest) c1 = ArgsOk c'"
        using "1.prems"(3) Cons ArgValue by (auto simp: args_loop.simps [of _ _ "a # _"] split: if_splits option.splits)
      show ?thesis using "1.IH"(2) [OF Cons ArgValue c1(1) c1(2) "1.prems"(1) _ c1(3)] keep ArgValue c1(2) by simp
    qed (use "1.prems"(3) Cons in \<open>simp_all add: args_loop.simps [of _ _ "a # _"]\<close>)
  qed
qed

definition is_multicast_address :: "(bytes \<Rightarrow> u32 option) \<Rightarrow> bytes \<Rightarrow> bool" where
  "is_multicast_address pton ip = (case pton ip of None \<Rightarrow> False | Some host_order \<Rightarrow> drop_bit 28 host_order = 0xE)"

definition port_ok :: "int \<Rightarrow> bool" where
  "port_ok p \<longleftrightarrow> \<not> (p \<le> 0 \<or> p > 65535)"

datatype transport = Unicast | Multicast

text \<open>The branches of \<open>--transport\<close> and \<open>--queue\<close>; anything else is refused.\<close>

definition transport_of :: "bytes \<Rightarrow> transport option" where
  "transport_of v = (if v = str ''unicast'' then Some Unicast else if v = str ''multicast'' then Some Multicast else None)"

definition queue_kind_of :: "bytes \<Rightarrow> queue_kind option" where
  "queue_kind_of v = (if v = str ''mutex'' then Some QueueKindMutex else if v = str ''spsc'' then Some QueueKindSpsc
     else if v = str ''disruptor'' then Some QueueKindDisruptor else None)"

section \<open>The publisher\<close>

record publisher_config = pub_config +
  pa_port :: int
  pa_transport :: transport
  pa_group :: bytes
  pa_ttl :: int

definition PublisherConfig :: publisher_config where
  "PublisherConfig = \<lparr>pc_rate = 100000, pc_count = 1000000, pc_symbol_id = 1, pc_drop_every = 0, pc_burst = 1,
     pc_snapshot_port = 0, pa_port = 9000, pa_transport = Unicast, pa_group = str ''239.255.0.1'', pa_ttl = 1\<rparr>"

definition pub_options :: "bytes \<Rightarrow> publisher_config \<Rightarrow> publisher_config arg_action" where
  "pub_options a c =
     (if a = str ''--port'' then ArgValue (\<lambda>v. Some (c\<lparr>pa_port := atoi v\<rparr>))
      else if a = str ''--rate'' then ArgValue (\<lambda>v. Some (c\<lparr>pc_rate := strtoull v\<rparr>))
      else if a = str ''--count'' then ArgValue (\<lambda>v. Some (c\<lparr>pc_count := strtoull v\<rparr>))
      else if a = str ''--symbol'' then ArgValue (\<lambda>v. Some (c\<lparr>pc_symbol_id := ucast (strtoull v)\<rparr>))
      else if a = str ''--drop-every'' then ArgValue (\<lambda>v. Some (c\<lparr>pc_drop_every := strtoull v\<rparr>))
      else if a = str ''--burst'' then ArgValue (\<lambda>v. Some (c\<lparr>pc_burst := strtoull v\<rparr>))
      else if a = str ''--transport'' then ArgValue (\<lambda>v. map_option (\<lambda>t. c\<lparr>pa_transport := t\<rparr>) (transport_of v))
      else if a = str ''--group'' then ArgValue (\<lambda>v. Some (c\<lparr>pa_group := v\<rparr>))
      else if a = str ''--ttl'' then ArgValue (\<lambda>v. Some (c\<lparr>pa_ttl := atoi v\<rparr>))
      else if a = str ''--snapshot-port'' then ArgValue (\<lambda>v. Some (c\<lparr>pc_snapshot_port := atoi v\<rparr>))
      else ArgUnknown)"

definition pub_parse_args :: "(bytes \<Rightarrow> u32 option) \<Rightarrow> bytes list \<Rightarrow> publisher_config arg_result" where
  "pub_parse_args pton args = checked (\<lambda>c. \<not> (pc_rate c = 0 \<or> pc_count c = 0 \<or> pc_burst c = 0) \<and> port_ok (pa_port c) \<and>
       \<not> (pa_transport c = Multicast \<and> \<not> is_multicast_address pton (pa_group c)))
     (args_loop False pub_options args PublisherConfig)"

section \<open>The receiver\<close>

record receiver_config =
  rv_port :: int
  rv_workers :: int
  rv_pin_cpu :: int
  rv_slow_consumer_us :: u64
  rv_queue_kind :: queue_kind
  rv_shm_name :: bytes
  rv_transport :: transport
  rv_group :: bytes
  rv_busy_poll_us :: int
  rv_batch :: int
  rv_bpf_filter :: bool
  rv_snapshot_host :: bytes
  rv_snapshot_port :: int
  rv_telemetry :: bool
  rv_events_shm_name :: bytes

definition ReceiverConfig :: receiver_config where
  "ReceiverConfig = \<lparr>rv_port = 9000, rv_workers = 1, rv_pin_cpu = - 1, rv_slow_consumer_us = 0,
     rv_queue_kind = QueueKindMutex, rv_shm_name = str ''/pulseforge_stats'', rv_transport = Unicast,
     rv_group = str ''239.255.0.1'', rv_busy_poll_us = - 1, rv_batch = 1, rv_bpf_filter = False, rv_snapshot_host = [],
     rv_snapshot_port = 0, rv_telemetry = False, rv_events_shm_name = str ''/pulseforge_events''\<rparr>"

definition shm_name_ok :: "bytes \<Rightarrow> bool" where
  "shm_name_ok v \<longleftrightarrow> \<not> (v = [] \<or> hd v \<noteq> 47)"

definition rx_options :: "bytes \<Rightarrow> receiver_config \<Rightarrow> receiver_config arg_action" where
  "rx_options a c =
     (if a = str ''--port'' then ArgValue (\<lambda>v. Some (c\<lparr>rv_port := atoi v\<rparr>))
      else if a = str ''--queue'' then ArgValue (\<lambda>v. map_option (\<lambda>k. c\<lparr>rv_queue_kind := k\<rparr>) (queue_kind_of v))
      else if a = str ''--workers'' then ArgValue (\<lambda>v. Some (c\<lparr>rv_workers := atoi v\<rparr>))
      else if a = str ''--pin-cpu'' then ArgValue (\<lambda>v. Some (c\<lparr>rv_pin_cpu := atoi v\<rparr>))
      else if a = str ''--slow-consumer-us'' then ArgValue (\<lambda>v. Some (c\<lparr>rv_slow_consumer_us := strtoull v\<rparr>))
      else if a = str ''--shared-memory-name'' then ArgValue (\<lambda>v. if shm_name_ok v then Some (c\<lparr>rv_shm_name := v\<rparr>) else None)
      else if a = str ''--transport'' then ArgValue (\<lambda>v. map_option (\<lambda>t. c\<lparr>rv_transport := t\<rparr>) (transport_of v))
      else if a = str ''--group'' then ArgValue (\<lambda>v. Some (c\<lparr>rv_group := v\<rparr>))
      else if a = str ''--busy-poll'' then ArgValue (\<lambda>v. Some (c\<lparr>rv_busy_poll_us := atoi v\<rparr>))
      else if a = str ''--batch'' then ArgValue (\<lambda>v. Some (c\<lparr>rv_batch := atoi v\<rparr>))
      else if a = str ''--bpf-filter'' then ArgFlag (c\<lparr>rv_bpf_filter := True\<rparr>)
      else if a = str ''--snapshot-host'' then ArgValue (\<lambda>v. Some (c\<lparr>rv_snapshot_host := v\<rparr>))
      else if a = str ''--snapshot-port'' then ArgValue (\<lambda>v. Some (c\<lparr>rv_snapshot_port := atoi v\<rparr>))
      else if a = str ''--telemetry'' then ArgFlag (c\<lparr>rv_telemetry := True\<rparr>)
      else if a = str ''--events-shm-name'' then ArgValue (\<lambda>v. if shm_name_ok v then Some (c\<lparr>rv_events_shm_name := v\<rparr>) else None)
      else ArgUnknown)"

definition rx_parse_args :: "(bytes \<Rightarrow> u32 option) \<Rightarrow> bytes list \<Rightarrow> receiver_config arg_result" where
  "rx_parse_args pton args = checked (\<lambda>c. port_ok (rv_port c) \<and> \<not> rv_workers c \<le> 0 \<and>
       \<not> (rv_queue_kind c = QueueKindSpsc \<and> rv_workers c \<noteq> 1) \<and>
       \<not> (rv_transport c = Multicast \<and> \<not> is_multicast_address pton (rv_group c)) \<and> \<not> rv_batch c \<le> 0 \<and>
       \<not> ((rv_snapshot_host c \<noteq> []) \<noteq> (rv_snapshot_port c > 0)))
     (args_loop False rx_options args ReceiverConfig)"

section \<open>The telemetry bridge\<close>

record bridge_config =
  bg_stats_shm_name :: bytes
  bg_events_shm_name :: bytes
  bg_ws_port :: int
  bg_interval_ms :: int

definition BridgeConfig :: bridge_config where
  "BridgeConfig = \<lparr>bg_stats_shm_name = str ''/pulseforge_stats'', bg_events_shm_name = str ''/pulseforge_events'',
     bg_ws_port = 9700, bg_interval_ms = 50\<rparr>"

definition bridge_options :: "bytes \<Rightarrow> bridge_config \<Rightarrow> bridge_config arg_action" where
  "bridge_options a c =
     (if a = str ''--shared-memory-name'' then ArgValue (\<lambda>v. Some (c\<lparr>bg_stats_shm_name := v\<rparr>))
      else if a = str ''--events-shm-name'' then ArgValue (\<lambda>v. Some (c\<lparr>bg_events_shm_name := v\<rparr>))
      else if a = str ''--ws-port'' then ArgValue (\<lambda>v. Some (c\<lparr>bg_ws_port := atoi v\<rparr>))
      else if a = str ''--interval-ms'' then ArgValue (\<lambda>v. Some (c\<lparr>bg_interval_ms := atoi v\<rparr>))
      else ArgUnknown)"

definition bridge_parse_args :: "bytes list \<Rightarrow> bridge_config arg_result" where
  "bridge_parse_args args = checked (\<lambda>c. \<not> (bg_ws_port c \<le> 0 \<or> bg_ws_port c > 65535 \<or> bg_interval_ms c \<le> 0))
     (args_loop False bridge_options args BridgeConfig)"

section \<open>The exchange\<close>

record 'd exchange_config =
  xc_bind_ip :: bytes
  xc_order_port :: int
  xc_snapshot_port :: int
  xc_md_group :: bytes
  xc_md_port :: int
  xc_md_ttl :: int
  xc_symbols :: "bytes list"
  xc_flow_rate :: 'd
  xc_drop_every :: u64
  xc_duration_s :: u64
  xc_seed :: u64
  xc_cpu :: int
  xc_stp :: self_match_policy
  xc_quiet :: bool
  xc_spin :: bool

definition ExchangeConfig :: "'d \<Rightarrow> 'd exchange_config" where
  "ExchangeConfig rate = \<lparr>xc_bind_ip = str ''127.0.0.1'', xc_order_port = 9100, xc_snapshot_port = 9101,
     xc_md_group = str ''239.255.0.2'', xc_md_port = 9200, xc_md_ttl = 1, xc_symbols = [str ''PFRG'', str ''ACME''], xc_flow_rate = rate,
     xc_drop_every = 0, xc_duration_s = 0, xc_seed = 42, xc_cpu = - 1, xc_stp = CancelResting, xc_quiet = False,
     xc_spin = False\<rparr>"

definition x_options :: "(bytes \<Rightarrow> 'd) \<Rightarrow> bytes \<Rightarrow> 'd exchange_config \<Rightarrow> 'd exchange_config arg_action" where
  "x_options atof a c =
     (if a = str ''--bind'' then ArgValue (\<lambda>v. Some (c\<lparr>xc_bind_ip := v\<rparr>))
      else if a = str ''--order-port'' then ArgValue (\<lambda>v. Some (c\<lparr>xc_order_port := atoi v\<rparr>))
      else if a = str ''--snapshot-port'' then ArgValue (\<lambda>v. Some (c\<lparr>xc_snapshot_port := atoi v\<rparr>))
      else if a = str ''--md-group'' then ArgValue (\<lambda>v. Some (c\<lparr>xc_md_group := v\<rparr>))
      else if a = str ''--md-port'' then ArgValue (\<lambda>v. Some (c\<lparr>xc_md_port := atoi v\<rparr>))
      else if a = str ''--symbols'' then ArgValue (\<lambda>v. Some (c\<lparr>xc_symbols := split_csv v\<rparr>))
      else if a = str ''--flow-rate'' then ArgValue (\<lambda>v. Some (c\<lparr>xc_flow_rate := atof v\<rparr>))
      else if a = str ''--drop-every'' then ArgValue (\<lambda>v. Some (c\<lparr>xc_drop_every := strtoull v\<rparr>))
      else if a = str ''--duration'' then ArgValue (\<lambda>v. Some (c\<lparr>xc_duration_s := strtoull v\<rparr>))
      else if a = str ''--seed'' then ArgValue (\<lambda>v. Some (c\<lparr>xc_seed := strtoull v\<rparr>))
      else if a = str ''--cpu'' then ArgValue (\<lambda>v. Some (c\<lparr>xc_cpu := atoi v\<rparr>))
      else if a = str ''--quiet'' then ArgFlag (c\<lparr>xc_quiet := True\<rparr>)
      else if a = str ''--spin'' then ArgFlag (c\<lparr>xc_spin := True\<rparr>)
      else if a = str ''--stp'' then ArgValue (\<lambda>v. if v = str ''resting'' then Some (c\<lparr>xc_stp := CancelResting\<rparr>)
        else if v = str ''incoming'' then Some (c\<lparr>xc_stp := CancelIncoming\<rparr>) else None)
      else if a = str ''--help'' \<or> a = str ''-h'' then ArgHelp
      else ArgUnknown)"

definition x_parse_args :: "(bytes \<Rightarrow> u32 option) \<Rightarrow> (bytes \<Rightarrow> 'd) \<Rightarrow> 'd \<Rightarrow> bytes list \<Rightarrow> 'd exchange_config arg_result" where
  "x_parse_args pton atof rate args = checked (\<lambda>c. \<not> (xc_symbols c = [] \<or> length (xc_symbols c) > 64) \<and>
       (\<forall>s\<in>set (xc_symbols c). \<not> length s > 8) \<and> is_multicast_address pton (xc_md_group c))
     (args_loop True (x_options atof) args (ExchangeConfig rate))"

section \<open>The trader\<close>

text \<open>The rest of \<open>TraderConfig\<close>: addresses and process settings.\<close>

record trader_net =
  tn_host :: bytes
  tn_order_port :: int
  tn_snapshot_port :: int
  tn_md_group :: bytes
  tn_md_port :: int
  tn_spin :: bool
  tn_cpu :: int
  tn_mlock :: bool

definition TraderNet :: trader_net where
  "TraderNet = \<lparr>tn_host = str ''127.0.0.1'', tn_order_port = 9100, tn_snapshot_port = 9101, tn_md_group = str ''239.255.0.2'',
     tn_md_port = 9200, tn_spin = False, tn_cpu = - 1, tn_mlock = False\<rparr>"

type_synonym trader_args = "trader_config \<times> trader_net"

definition t_options :: "bytes \<Rightarrow> trader_args \<Rightarrow> trader_args arg_action" where
  "t_options a st = (case st of (c, n) \<Rightarrow>
      if a = str ''--host'' then ArgValue (\<lambda>v. Some (c, n\<lparr>tn_host := v\<rparr>))
      else if a = str ''--order-port'' then ArgValue (\<lambda>v. Some (c, n\<lparr>tn_order_port := atoi v\<rparr>))
      else if a = str ''--snapshot-port'' then ArgValue (\<lambda>v. Some (c, n\<lparr>tn_snapshot_port := atoi v\<rparr>))
      else if a = str ''--md-group'' then ArgValue (\<lambda>v. Some (c, n\<lparr>tn_md_group := v\<rparr>))
      else if a = str ''--md-port'' then ArgValue (\<lambda>v. Some (c, n\<lparr>tn_md_port := atoi v\<rparr>))
      else if a = str ''--symbol'' then ArgValue (\<lambda>v. Some (c\<lparr>tc_symbol := v\<rparr>, n))
      else if a = str ''--user'' then ArgValue (\<lambda>v. Some (c\<lparr>tc_user := v\<rparr>, n))
      else if a = str ''--duration'' then ArgValue (\<lambda>v. Some (c\<lparr>tc_duration_s := strtoull v\<rparr>, n))
      else if a = str ''--spin'' then ArgFlag (c, n\<lparr>tn_spin := True\<rparr>)
      else if a = str ''--cpu'' then ArgValue (\<lambda>v. Some (c, n\<lparr>tn_cpu := atoi v\<rparr>))
      else if a = str ''--mlock'' then ArgFlag (c, n\<lparr>tn_mlock := True\<rparr>)
      else if a = str ''--no-trade'' then ArgFlag (c\<lparr>tc_trade := False\<rparr>, n)
      else if a = str ''--no-tx-timestamps'' then ArgFlag (c\<lparr>tc_tx_timestamps := False\<rparr>, n)
      else if a = str ''--qty'' then ArgValue (\<lambda>v. Some (c\<lparr>tc_strat := (tc_strat c)\<lparr>sp_order_qty := ucast (strtoull v)\<rparr>\<rparr>, n))
      else if a = str ''--imbalance'' then ArgValue (\<lambda>v. Some (c\<lparr>tc_strat := (tc_strat c)\<lparr>sp_imbalance_pct := strtol v\<rparr>\<rparr>, n))
      else if a = str ''--cooldown-us'' then ArgValue (\<lambda>v. Some (c\<lparr>tc_strat := (tc_strat c)\<lparr>sp_cooldown_ns := strtoull v * 1000\<rparr>\<rparr>, n))
      else if a = str ''--max-pos'' then ArgValue (\<lambda>v. Some (c\<lparr>tc_risk := (tc_risk c)\<lparr>rl_max_position := strtol v\<rparr>\<rparr>, n))
      else if a = str ''--max-rate'' then ArgValue (\<lambda>v. Some (c\<lparr>tc_risk := (tc_risk c)\<lparr>rl_max_orders_per_sec := ucast (strtoull v)\<rparr>\<rparr>, n))
      else if a = str ''--verbose'' then ArgFlag (c\<lparr>tc_verbose := True\<rparr>, n)
      else if a = str ''--help'' \<or> a = str ''-h'' then ArgHelp
      else ArgUnknown)"

definition t_parse_args :: "(bytes \<Rightarrow> u32 option) \<Rightarrow> bytes list \<Rightarrow> trader_args arg_result" where
  "t_parse_args pton args = (case args_loop True t_options args (TraderConfig, TraderNet) of
     ArgsOk (c, n) \<Rightarrow> (case check_args (is_multicast_address pton (tn_md_group n)) c of None \<Rightarrow> ArgsBad | Some c' \<Rightarrow> ArgsOk (c', n))
   | r \<Rightarrow> r)"

section \<open>Accepted configurations\<close>

lemma rx_options_keep: "table_keeps (\<lambda>c. shm_name_ok (rv_shm_name c) \<and> shm_name_ok (rv_events_shm_name c)) rx_options"
  unfolding table_keeps_def rx_options_def by (intro allI impI action_keeps_if) (auto split: if_splits)

lemma ReceiverConfig_names: "shm_name_ok (rv_shm_name ReceiverConfig)" "shm_name_ok (rv_events_shm_name ReceiverConfig)"
  by (simp_all add: ReceiverConfig_def shm_name_ok_def str_def)

lemma rx_args_names:
  assumes "rx_parse_args pton args = ArgsOk c"
  shows "shm_name_ok (rv_shm_name c)" "shm_name_ok (rv_events_shm_name c)"
proof -
  have l: "args_loop False rx_options args ReceiverConfig = ArgsOk c" using assms by (simp add: rx_parse_args_def)
  show "shm_name_ok (rv_shm_name c)" "shm_name_ok (rv_events_shm_name c)"
    using args_loop_keeps [OF rx_options_keep _ l] ReceiverConfig_names by simp_all
qed

text \<open>\<open>split_csv\<close> gives the non-empty parts between the commas.\<close>

fun split_at :: "bytes \<Rightarrow> bytes \<Rightarrow> bytes list" where
  "split_at cur [] = [cur]"
| "split_at cur (b # bs) = (if b = comma then cur # split_at [] bs else split_at (cur @ [b]) bs)"

lemma split_at_word: "comma \<notin> set w \<Longrightarrow> split_at cur (w @ rest) = split_at (cur @ w) rest"
  by (induction w arbitrary: cur) auto

lemma split_csv_from_parts:
  "start \<le> length s \<Longrightarrow> split_csv_from s start = filter (\<lambda>p. p \<noteq> []) (split_at [] (drop start s))"
proof (induction s start rule: split_csv_from.induct)
  case (1 s start)
  define w where "w = takeWhile (\<lambda>b. b \<noteq> comma) (drop start s)"
  define rest where "rest = dropWhile (\<lambda>b. b \<noteq> comma) (drop start s)"
  have ws: "drop start s = w @ rest" by (simp add: w_def rest_def)
  have w44: "takeWhile (\<lambda>c. c \<noteq> 44) (drop start s) = w" by (simp add: w_def comma_def)
  have w: "comma \<notin> set w" using set_takeWhileD by (fastforce simp: w_def)
  have "bslice s start (length w) = w" using arg_cong [OF ws, of "take (length w)"] by (simp add: bslice_def)
  then have step: "split_csv_from s start = filter (\<lambda>p. p \<noteq> []) [w] @ split_csv_from s (start + length w + 1)"
    using "1.prems" by (subst split_csv_from.simps) (simp add: Let_def w44)
  have len: "length s - start = length w + length rest" using arg_cong [OF ws, of length] by simp
  show ?case
  proof (cases rest)
    case Nil
    then have "length s < start + length w + 1" using len "1.prems" by simp
    then have "split_csv_from s (start + length w + 1) = []" by (subst split_csv_from.simps) simp
    then show ?thesis using split_at_word [OF w, of "[]" "[]"] ws Nil step by simp
  next
    case (Cons b bs)
    have b: "b = comma" using Cons hd_dropWhile [of "\<lambda>b. b \<noteq> comma" "drop start s"] by (simp add: rest_def)
    have d: "drop (start + length w + 1) s = bs"
      using arg_cong [OF ws, of "drop (length w + 1)"] Cons by (simp add: add.commute add.left_commute)
    have le: "start + length w + 1 \<le> length s" using len Cons "1.prems" by simp
    have "split_csv_from s (start + length w + 1) = filter (\<lambda>p. p \<noteq> []) (split_at [] bs)"
      using "1.IH" [OF "1.prems" refl] le d by (simp add: w44)
    then show ?thesis using split_at_word [OF w, of "[]" "b # bs"] ws Cons b step by simp
  qed
qed

lemma split_csv_parts: "split_csv s = filter (\<lambda>p. p \<noteq> []) (split_at [] s)"
  using split_csv_from_parts [of 0 s] by (simp add: split_csv_def)

lemma x_options_keep: "table_keeps (\<lambda>c. [] \<notin> set (xc_symbols c)) (x_options atof)"
  unfolding table_keeps_def x_options_def
  by (intro allI impI action_keeps_if) (simp_all add: split_csv_parts split: if_splits)

lemma x_args_symbols:
  assumes "x_parse_args pton atof rate args = ArgsOk c"
  shows "xc_symbols c \<noteq> []" "length (xc_symbols c) \<le> 64" "\<forall>s\<in>set (xc_symbols c). 1 \<le> length s \<and> length s \<le> 8"
    "is_multicast_address pton (xc_md_group c)"
proof -
  have l: "args_loop True (x_options atof) args (ExchangeConfig rate) = ArgsOk c"
    and ok: "\<not> (xc_symbols c = [] \<or> length (xc_symbols c) > 64)" "\<forall>s\<in>set (xc_symbols c). \<not> length s > 8"
    "is_multicast_address pton (xc_md_group c)"
    using assms by (simp_all add: x_parse_args_def)
  have "[] \<notin> set (xc_symbols c)" using args_loop_keeps [OF x_options_keep _ l] by (simp add: ExchangeConfig_def str_def)
  then show "\<forall>s\<in>set (xc_symbols c). 1 \<le> length s \<and> length s \<le> 8"
    using ok(2) by (auto simp: Suc_le_eq not_less)
  show "xc_symbols c \<noteq> []" "length (xc_symbols c) \<le> 64" "is_multicast_address pton (xc_md_group c)" using ok(1,3) by auto
qed

lemma t_args_checked:
  assumes "t_parse_args pton args = ArgsOk (c, n)"
  shows "1 \<le> length (tc_symbol c)" "length (tc_symbol c) \<le> 8" "1 \<le> length (tc_user c)" "length (tc_user c) \<le> 6"
    "1 \<le> sp_imbalance_pct (tc_strat c)" "sp_imbalance_pct (tc_strat c) \<le> 99" "sp_order_qty (tc_strat c) \<noteq> 0"
    "sp_order_qty (tc_strat c) \<le> rl_max_order_qty (tc_risk c)" "sp_max_position (tc_strat c) = rl_max_position (tc_risk c)"
    "is_multicast_address pton (tn_md_group n)"
  using assms
  by (auto simp: t_parse_args_def check_args_def Let_def Suc_le_eq split: arg_result.splits option.splits if_splits prod.splits)

end
