(* ===== verification/Spec2Isabelle.thy ===== *)
theory Spec2Isabelle
  imports Trader_Run Fix Tick_Properties Command_Line
begin

text \<open>
  PulseForge is a market data and trading pipeline in C++ (\<open>src/pulseforge\<close>). An exchange matches
  orders and publishes a market data feed; a trader rebuilds the book from the feed, decides, checks
  risk limits and sends orders back. Beside them stands a tick pipeline: a publisher that sends
  sequenced ticks over UDP and answers recovery requests over TCP, and a receiver that hands the
  ticks through a queue to worker threads.

  \<^bold>\<open>The parts, the theories and how they correspond to the code.\<close> Definitions keep the names of the
  code with a prefix for the class; each operation is one definition over an explicit state record.

  \<^item> \<open>PF_Prelude\<close>: machine integers, byte buffers, shared list and word lemmas, the collections
    \<open>codec_simps\<close> and \<open>inv_intros\<close>. \<open>Char_Conv\<close>: \<open>std::to_chars\<close> and \<open>std::from_chars\<close>.
  \<^item> \<open>Wire\<close> (\<open>include/wire.hpp\<close>): big-endian put/get, \<open>Writer\<close>, \<open>Reader\<close>. \<open>Trading_Types\<close>
    (\<open>include/trading_types.hpp\<close>): sides, prices, the clock, symbols.
  \<^item> \<open>Itch\<close> and \<open>Mold\<close> (\<open>include/itch.hpp\<close>), \<open>Ouch\<close> (\<open>include/ouch.hpp\<close>), \<open>Soupbin\<close>
    (\<open>include/soupbin.hpp\<close>), \<open>Fix\<close> (\<open>include/fix.hpp\<close>): the message formats. Encoders are exact or
    report failure, decoding inverts encoding, the stream reader reassembles frames from any
    chunking.
  \<^item> \<open>Flat_Id_Map\<close> (\<open>include/flat_id_map.hpp\<close>): open addressing with backward-shift deletion. The
    locale \<open>id_map\<close> is the interface the book relies on, the locale \<open>probing\<close> holds the probing
    argument for any home function; both are interpreted on the code's definitions.
  \<^item> \<open>Bitmap\<close>, \<open>Order_Book\<close>, \<open>Book_Rep\<close>, \<open>Book_Spec\<close>, \<open>Book_Interface\<close> (\<open>include/order_book.hpp\<close>,
    \<open>src/order_book.cpp\<close>): the price ladder with its bitmap, node pool and id index; the
    representation invariant with ghost queues; the refinement of a priority list; the contract as
    the locale \<open>price_time_book\<close> that the matching engine and the replica share.
  \<^item> \<open>Matching_Engine\<close> (\<open>include/matching_engine.hpp\<close>, \<open>src/matching_engine.cpp\<close>): submission,
    matching and cancellation, with the listener's callbacks as events.
  \<^item> \<open>Feed_Handler\<close> (\<open>include/feed_handler.hpp\<close>) and \<open>Market_Data\<close> (\<open>MarketDataFeed\<close> of
    \<open>src/exchange.cpp\<close>): the sequence tracker, the application of messages to a replica, the
    batching and numbering of the published messages.
  \<^item> \<open>Risk\<close> (\<open>include/risk.hpp\<close>), \<open>Strategy\<close> (\<open>include/strategy.hpp\<close>), \<open>Latency\<close>
    (\<open>include/latency_histogram.hpp\<close>, \<open>include/latency_sampler.hpp\<close>).
  \<^item> \<open>Exchange\<close>, \<open>Exchange_Inv\<close>, \<open>Exchange_Run\<close> (\<open>src/exchange.cpp\<close>): sessions, order entry, listener,
    snapshot service, synthetic flow and event loop; the invariant over every run; the published
    history from the constructor on.
  \<^item> \<open>Trader\<close>, \<open>Trader_Inv\<close>, \<open>Trader_Run\<close> (\<open>src/trader.cpp\<close>): synchronisation by snapshot and feed,
    the path to an order, the order entry session, reports and event loop; the invariant; and the
    comparison of its replica with the exchange through the locale \<open>published_history\<close>.
  \<^item> \<open>Tick_Types\<close> (\<open>include/message.hpp\<close>, \<open>include/stats.hpp\<close>, \<open>include/shared_events.hpp\<close>): the tick
    message and its validation, the statistics block, the event ring.
  \<^item> \<open>Queues\<close>, \<open>Queue_Steps\<close>, \<open>Fanout_Steps\<close> (\<open>src/spsc_ring.cpp\<close>, \<open>src/mpmc_fanout.cpp\<close>,
    \<open>src/queue_mutex.cpp\<close>, \<open>src/queue_backend.cpp\<close> and their headers): the three queues call by call, and
    the two lock-free ones access by access, as program counters of threads that interleave freely.
    The contract of the work-sharing queues is the locale \<open>bounded_fifo\<close>, interpreted on both.
  \<^item> \<open>Tick_Recovery\<close> (\<open>include/snapshot_protocol.hpp\<close>, \<open>src/snapshot_server.cpp\<close>,
    \<open>src/snapshot_client.cpp\<close>): memory images, partial sends and receives, the history ring, the
    client. \<open>Tick_Publisher\<close> (\<open>src/publisher.cpp\<close>): the message loop that feeds the ring.
  \<^item> \<open>Tick_Receiver\<close>, \<open>Tick_Pipeline\<close>, \<open>Tick_Run\<close> (\<open>src/receiver.cpp\<close>, \<open>src/worker.cpp\<close>): the receive
    loop, gap detection, backpressure, recovery and workers; the invariant of a run; whole runs, with
    the locale \<open>backend_invariant\<close> that lifts a property of the queue to the process.
  \<^item> \<open>Mem_Pool\<close> (\<open>include/mem_pool.hpp\<close>), \<open>Cpu_List\<close> (\<open>include/cpu_list.hpp\<close>), \<open>Ws_Server\<close>
    (\<open>include/sha1.hpp\<close>, \<open>src/ws_server.cpp\<close>), \<open>Telemetry\<close> (\<open>src/telemetry_bridge.cpp\<close>).
  \<^item> \<open>Tick_Properties\<close>: the theorems on the tick pipeline that span these theories.
  \<^item> \<open>Command_Line\<close> (\<open>parse_args\<close> of the publisher, the receiver, the telemetry bridge, the exchange and
    the trader): option tables, the loop over the arguments, the checks at its end.

  \<^bold>\<open>What the theorems show.\<close> The order book refines a list ordered by price and time, and matching is
  a walk down that list: fills respect priority, limits and self-match prevention, quantities are
  conserved, no book is ever left crossed. Whatever the clients do, the exchange keeps its invariant,
  a disconnected session leaves no order behind, and the published messages replayed in order give
  exactly the exchange's book. The trader, over any loss, duplication and reordering of datagrams,
  holds such a replay whenever it considers itself synchronised; its position stays within its limit
  whatever fills and cancels arrive, and its connection carries whole frames with increasing
  references. The theorems named in this theory close each of these chains; the theorems of the
  component theories carry them.

  In the tick pipeline every valid tick that is received before a stop is accepted by the queue, and
  what the workers process is what was accepted, in order; a full queue delays the receiver only until
  each worker has had a turn. The lock-free queues deliver the accepted messages in order, without loss,
  duplication or torn reads, under every interleaving, and a waiting consumer returns. Gaps are counted
  exactly for ticks that arrive in order, the request for a gap names the missing ticks, and the
  publisher's history supplies them, completely or not at all. The publisher, the memory pool, the CPU
  list parser, the WebSocket frames and the telemetry polls have their functional theorems. A command line that
  is accepted starts each program in a state for which these theorems speak.

  \<^bold>\<open>Environment.\<close> The operating system is a parameter of every process: clock readings, the results of
  socket calls and the contents of received packets are functions of the call number or lists that
  come with an event, unconstrained unless a theorem says otherwise. Floating-point results (order
  rates, percentile indices) are parameters as well. Log output is left out.

  \<^bold>\<open>Integers and loops.\<close> Unsigned integers are words of their width, so that arithmetic wraps as in the
  code; signed 64-bit integers are \<open>int\<close>, and the theorems that depend on their range say so. A loop
  with a structural bound is a recursive function. The probing loops of the hash map carry as fuel
  the number of slots, which is enough because the invariant keeps a slot free; the matching loop
  carries one more than the number of resting orders, because every iteration removes an order or
  ends; \<open>None\<close> stands for running out, and the theorems show that it does not occur. Two loops do not
  end for extreme arguments (\<open>next_pow2_loop\<close>, \<open>publish_loop\<close>); they are partial functions, with lemmas for
  both cases. Cursors of the ring queue wrap like the code's. The broadcast ring compares its cursors,
  so that its laws hold for the first \<open>2 ^ 64\<close> messages, and say so.

  \<^bold>\<open>Not modelled.\<close> Socket set-up and tear-down, thread creation, shared memory mapping,
  CPU affinity, huge pages, event loop registration, kernel time stamping and packet filters (wrappers
  around system calls with no logic of their own); terminal and JSON output (\<open>src/monitor.cpp\<close>, \<open>src/hw_topology.cpp\<close>);
  the deliberately faulty programs \<open>src/deadlock_demo.cpp\<close> and \<open>src/race_demo.cpp\<close>; benchmarks and
  tests. The C++ memory model enters only through the guarantee of its acquire/release pairs, that
  an interleaving of atomic accesses describes what the threads see.
\<close>

section \<open>Concrete instances used by the witnesses\<close>

definition demo_cfg :: book_config where
  "demo_cfg = \<lparr>bc_min_price = 100, bc_max_price = 200, bc_tick_size = 10, bc_max_orders = 4\<rparr>"

lemma demo_cfg_ok: "cfg_ok demo_cfg"
  by (simp add: cfg_ok_def demo_cfg_def cfg_levels_def kNil_def)

lemma demo_book:
  obtains b where "OrderBook demo_cfg = Some b" "book_inv b" "ob_cfg b = demo_cfg"
    "\<And>s. resting_orders s b = []"
  using book_new [OF demo_cfg_ok] by blast

section \<open>The wire formats\<close>

text \<open>C34: Encoding an ITCH message into a large enough buffer and decoding exactly the bytes written
  gives the message back, for each of the seven message types.\<close>

theorem itch_roundtrip:
  assumes "itch_wf m" "cap \<le> length out" "itch_len m \<le> cap"
  shows "case itch_encode m out cap of (buf, n) \<Rightarrow> n = itch_len m \<and> itch_decode (take n buf) = Some m"
  using itch_encode_size [OF assms(1,2)] itch_encode_bytes [OF assms] itch_decode_bytes [OF assms(1)]
    length_itch_bytes [OF assms(1)] assms(2,3)
  by (cases "itch_encode m out cap") (simp add: blit_def)

theorem itch_roundtrip_witness:
  "case itch_encode (OrderDelete \<lparr>od_locate = 1, od_timestamp = 5, od_order_ref = 9\<rparr>) (replicate 40 0) 40
   of (buf, n) \<Rightarrow> n = 19 \<and> itch_decode (take n buf) = Some (OrderDelete \<lparr>od_locate = 1, od_timestamp = 5, od_order_ref = 9\<rparr>)"
  using itch_roundtrip [of "OrderDelete \<lparr>od_locate = 1, od_timestamp = 5, od_order_ref = 9\<rparr>" 40 "replicate 40 0"]
  by (simp add: itch_len_def ts48_def)

section \<open>The order book\<close>

text \<open>C14: \<open>OrderBook::add\<close> refines insertion into a priority list. It answers \<open>BadPrice\<close>, \<open>BadQty\<close>,
  \<open>Full\<close>, \<open>DuplicateId\<close> or \<open>Ok\<close> exactly as the abstract verdict says, changes nothing when it
  refuses, and otherwise puts the order behind every order with a price at least as good.\<close>

theorem ob_add_refines:
  assumes "book_inv b"
  shows "\<exists>b'. ob_add k s p q ow ur b = (add_verdict k p q b, b') \<and> book_inv b' \<and>
    (if add_verdict k p q b = AddOk
     then \<forall>t. resting_orders t b' = (if t = s
       then insert_prio s \<lparr>ro_id = k, ro_price = p, ro_qty = q, ro_owner = ow, ro_user_ref = ur, ro_side = s\<rparr>
              (resting_orders s b)
       else resting_orders t b)
     else b' = b)"
  using book_add [OF assms, of k s p q ow ur] by auto

theorem ob_add_refines_witness:
  "\<exists>b b'. OrderBook demo_cfg = Some b \<and> ob_add 7 Buy 150 3 1 2 b = (AddOk, b') \<and>
     resting_orders Buy b' = [\<lparr>ro_id = 7, ro_price = 150, ro_qty = 3, ro_owner = 1, ro_user_ref = 2, ro_side = Buy\<rparr>]"
proof -
  obtain b where b: "OrderBook demo_cfg = Some b" "book_inv b" "ob_cfg b = demo_cfg" "\<And>s. resting_orders s b = []"
    using demo_book by blast
  have "add_verdict 7 150 3 b = AddOk"
    by (simp add: add_verdict_def valid_price_def b demo_cfg_def book_orders_def book_ids_def)
  with ob_add_refines [OF b(2), of 7 Buy 150 3 1 2] b show ?thesis
    by (auto simp: insert_prio_def)
qed

section \<open>The matching engine\<close>

definition sell_100 :: order_request where
  "sell_100 = \<lparr>rq_id = 5, rq_side = Sell, rq_price = 150, rq_qty = 100, rq_tif = Day, rq_owner = 1, rq_user_ref = 1\<rparr>"

definition buy_30 :: order_request where
  "buy_30 = \<lparr>rq_id = 6, rq_side = Buy, rq_price = 160, rq_qty = 30, rq_tif = IOC, rq_owner = 2, rq_user_ref = 1\<rparr>"

definition bid_20 :: order_request where
  "bid_20 = \<lparr>rq_id = 7, rq_side = Buy, rq_price = 140, rq_qty = 20, rq_tif = Day, rq_owner = 2, rq_user_ref = 2\<rparr>"

definition demo_engine :: matching_engine where
  "demo_engine = snd (the (add_symbol (make_symbol (str ''ACME'')) demo_cfg (MatchingEngine CancelResting 1000)))"

lemma demo_engine_facts:
  "engine_inv demo_engine" "valid_locate 1 demo_engine" "resting_orders s (book_at 1 demo_engine) = []"
  "me_max_order_qty demo_engine = 1000" "me_next_match demo_engine = 1" "me_stp demo_engine = CancelResting"
  "ob_cfg (book_at 1 demo_engine) = demo_cfg" "length (me_books demo_engine) = 1"
proof -
  obtain b where b: "OrderBook demo_cfg = Some b" "book_inv b" "ob_cfg b = demo_cfg" "\<And>s. resting_orders s b = []"
    using demo_book by blast
  have e: "demo_engine = \<lparr>me_stp = CancelResting, me_max_order_qty = 1000, me_books = [b],
      me_symbols = [make_symbol (str ''ACME'')], me_next_match = 1\<rparr>"
    by (simp add: demo_engine_def add_symbol_def b(1) MatchingEngine_def)
  show "engine_inv demo_engine" "valid_locate 1 demo_engine" "resting_orders s (book_at 1 demo_engine) = []"
    "me_max_order_qty demo_engine = 1000" "me_next_match demo_engine = 1" "me_stp demo_engine = CancelResting"
    "ob_cfg (book_at 1 demo_engine) = demo_cfg" "length (me_books demo_engine) = 1"
    using b by (simp_all add: e engine_inv_def valid_locate_def book_at_def uncrossed_def)
qed

lemma demo_accepts_sell: "accepts 1 sell_100 demo_engine"
  using demo_engine_facts
  by (simp add: accepts_def sell_100_def valid_price_def demo_cfg_def book_ids_def book_orders_def word_le_nat_alt)

text \<open>The engine after the sell order has come to rest.\<close>

lemma demo_resting:
  obtains e where "submit 1 sell_100 demo_engine = Some (e, [OnAccepted 1 sell_100, OnRested 1 (req_rest sell_100 100)])"
    "engine_inv e" "valid_locate 1 e" "resting_orders Sell (book_at 1 e) = [req_rest sell_100 100]"
    "resting_orders Buy (book_at 1 e) = []" "me_next_match e = 1" "me_max_order_qty e = 1000" "me_stp e = CancelResting"
    "valid_price (book_at 1 e) 140" "valid_price (book_at 1 e) 160" "ob_capacity (book_at 1 e) = 4"
proof -
  note D = demo_engine_facts
  obtain e evs where S: "submit 1 sell_100 demo_engine = Some (e, evs)" "engine_inv e" "only_book 1 demo_engine e"
      "spec_submit CancelResting 1 sell_100 1 4 [] [] =
        (resting_orders Sell (book_at 1 e), resting_orders Buy (book_at 1 e), me_next_match e, evs)"
    using submit_refines_accepted [OF D(1) demo_accepts_sell] D
    by (auto simp: sell_100_def ob_capacity_def demo_cfg_def opposite_def)
  have V: "valid_price (book_at 1 demo_engine) 140" "valid_price (book_at 1 demo_engine) 160" "ob_capacity (book_at 1 demo_engine) = 4"
    by (simp_all add: valid_price_def ob_capacity_def D(7) demo_cfg_def)
  show thesis
    using S D(2,4,6) V by (intro that [of e])
      (auto simp: spec_submit_def sell_100_def req_rest_def insert_prio_def only_book_def valid_locate_def same_grid_def)
qed

text \<open>A second owner then buys part of it.\<close>

lemma demo_trade:
  obtains e evs e' where "submit 1 sell_100 demo_engine = Some (e, evs)" "fills_of evs = []" "engine_inv e"
    "accepts 1 buy_30 e"
    "resting_orders Sell (book_at 1 e) = [req_rest sell_100 100]"
    "submit 1 buy_30 e = Some (e', [OnAccepted 1 buy_30, OnFill 1 (mk_fill buy_30 1 (req_rest sell_100 100) 30 30)])"
proof (rule demo_resting)
  fix e assume e: "submit 1 sell_100 demo_engine = Some (e, [OnAccepted 1 sell_100, OnRested 1 (req_rest sell_100 100)])"
    "engine_inv e" "valid_locate 1 e" "resting_orders Sell (book_at 1 e) = [req_rest sell_100 100]"
    "resting_orders Buy (book_at 1 e) = []" "me_next_match e = 1" "me_max_order_qty e = 1000" "me_stp e = CancelResting"
    "valid_price (book_at 1 e) 160"
  have a: "accepts 1 buy_30 e"
    using e by (simp add: accepts_def buy_30_def sell_100_def req_rest_def book_ids_def book_orders_def word_le_nat_alt)
  have sd: "rq_side buy_30 = Buy" "opposite Buy = Sell" by (simp_all add: buy_30_def opposite_def)
  have w: "walk CancelResting 1 buy_30 1 [req_rest sell_100 100] (rq_qty buy_30) =
      (False, [req_rest sell_100 70], 2, 0, [OnFill 1 (mk_fill buy_30 1 (req_rest sell_100 100) 30 30)])"
    by (simp add: buy_30_def sell_100_def req_rest_def crosses_def word_less_nat_alt)
  obtain e' evs where s: "submit 1 buy_30 e = Some (e', evs)"
    "spec_submit CancelResting 1 buy_30 1 (ob_capacity (book_at 1 e)) [] [req_rest sell_100 100] =
       (resting_orders Buy (book_at 1 e'), resting_orders Sell (book_at 1 e'), me_next_match e', evs)"
    using submit_refines_accepted [OF e(2) a] e(4-6,8) sd by auto
  from s(2) have "evs = [OnAccepted 1 buy_30, OnFill 1 (mk_fill buy_30 1 (req_rest sell_100 100) 30 30)]"
    by (simp add: spec_submit_def w del: walk.simps)
  with s(1) that [OF e(1) _ e(2) a e(4)] show thesis by simp
qed

text \<open>C1: An accepted order is processed completely (the matching loop always ends) and exactly as
  the abstract engine on priority lists prescribes: the same fills and callbacks in the same order,
  the same remaining orders on both sides, the same next match number. Nothing but the book of
  that symbol changes, and the invariant of every book, including that it is not crossed, is kept.\<close>

theorem submit_refines:
  assumes "engine_inv e" "accepts loc req e"
  shows "\<exists>e' evs. submit loc req e = Some (e', evs) \<and> engine_inv e' \<and> only_book loc e e' \<and>
    spec_submit (me_stp e) loc req (me_next_match e) (ob_capacity (book_at loc e))
      (resting_orders (rq_side req) (book_at loc e)) (resting_orders (opposite (rq_side req)) (book_at loc e)) =
      (resting_orders (rq_side req) (book_at loc e'), resting_orders (opposite (rq_side req)) (book_at loc e'),
       me_next_match e', evs)"
  by (rule submit_refines_accepted [OF assms])

theorem submit_refines_witness:
  "\<exists>e'. submit 1 sell_100 demo_engine = Some (e', [OnAccepted 1 sell_100, OnRested 1 (req_rest sell_100 100)]) \<and>
     resting_orders Sell (book_at 1 e') = [req_rest sell_100 100]"
  using submit_refines [OF demo_engine_facts(1) demo_accepts_sell] demo_engine_facts(3,7)
  by (auto simp: spec_submit_def insert_prio_def ob_capacity_def demo_cfg_def) (simp_all add: sell_100_def req_rest_def insert_prio_def)

text \<open>C11: Quantity is conserved: for an accepted order, what was traded, what came to rest and what was
  returned to the taker (immediate-or-cancel, self-match, full book) add up to the quantity asked for.\<close>

theorem submit_conserves:
  assumes "engine_inv e" "accepts loc req e" "submit loc req e = Some (e', evs)"
  shows "traded evs + rested_qty evs + returned_qty evs = unat (rq_qty req)"
  using submit_refines_accepted [OF assms(1,2)] assms(3) by (auto intro: spec_submit_conserves)

theorem submit_conserves_witness:
  "\<exists>e e' evs. submit 1 buy_30 e = Some (e', evs) \<and> traded evs + rested_qty evs + returned_qty evs = 30"
  by (rule demo_trade) (use submit_conserves [of _ 1 buy_30] in \<open>fastforce simp: buy_30_def\<close>)

text \<open>C10: Price-time priority: the resting orders that an incoming order fills or cancels are a
  prefix of the opposite side in priority order, taken from its head one after the other; every
  order of the prefix is gone afterwards, except that the last one may keep the part of its
  quantity the incoming order had no more quantity for.\<close>

theorem submit_price_time:
  assumes "engine_inv e" "accepts loc req e" "submit loc req e = Some (e', evs)"
  defines "ms \<equiv> resting_orders (opposite (rq_side req)) (book_at loc e)"
    and "ms' \<equiv> resting_orders (opposite (rq_side req)) (book_at loc e')"
  shows "\<exists>n\<le>length ms. touched evs = map ro_id (take n ms) \<and>
    (ms' = drop n ms \<or> (0 < n \<and> traded evs = unat (rq_qty req) \<and>
      (\<exists>q. q \<noteq> 0 \<and> q < ro_qty (ms ! (n - 1)) \<and> ms' = (ms ! (n - 1))\<lparr>ro_qty := q\<rparr> # drop n ms)))"
proof -
  obtain own where S: "spec_submit (me_stp e) loc req (me_next_match e) (ob_capacity (book_at loc e))
      (resting_orders (rq_side req) (book_at loc e)) ms = (own, ms', me_next_match e', evs)"
    using submit_refines_accepted [OF assms(1,2)] assms(3) by (auto simp: ms_def ms'_def)
  obtain ret rem ws where w: "walk (me_stp e) loc req (me_next_match e) ms (rq_qty req) = (ret, ms', me_next_match e', rem, ws)"
    "fills_of evs = fills_of ws" "touched evs = touched ws"
    using S by (rule spec_submit_walk)
  have "traded evs = traded ws" by (simp add: traded_def w(2))
  with walk_prefix [OF w(1)] walk_conserves [OF w(1)] w(3) show ?thesis
    by (metis add_0 unat_0)
qed

theorem submit_price_time_witness:
  "\<exists>e e' evs. submit 1 buy_30 e = Some (e', evs) \<and> (\<exists>n\<le>1. touched evs = map ro_id (take n [req_rest sell_100 100]))"
proof (rule demo_trade)
  fix e evs e' assume e: "engine_inv e" "accepts 1 buy_30 e" "resting_orders Sell (book_at 1 e) = [req_rest sell_100 100]"
    "submit 1 buy_30 e = Some (e', [OnAccepted 1 buy_30, OnFill 1 (mk_fill buy_30 1 (req_rest sell_100 100) 30 30)])"
  have "opposite (rq_side buy_30) = Sell" by (simp add: buy_30_def opposite_def)
  with submit_price_time [OF e(1,2,4)] e(3,4) show ?thesis by fastforce
qed

text \<open>C12: Every trade is one both parties agreed to: it is with an order that was resting on the
  opposite side, at that order's price, within the incoming order's limit, for a positive quantity
  no larger than the resting one, and never between two orders of the same owner.\<close>

theorem submit_fills_sound:
  assumes "engine_inv e" "submit loc req e = Some (e', evs)" "f \<in> set (fills_of evs)"
  shows "\<exists>m\<in>set (resting_orders (opposite (rq_side req)) (book_at loc e)).
    fl_maker_id f = ro_id m \<and> fl_price f = ro_price m \<and> fl_maker_owner f = ro_owner m \<and>
    crosses req (fl_price f) \<and> fl_qty f \<noteq> 0 \<and> fl_qty f \<le> ro_qty m \<and> fl_taker_id f = rq_id req \<and>
    (rq_owner req = 0 \<or> fl_maker_owner f \<noteq> rq_owner req)"
  using assms(1,2)
proof (cases rule: submit_cases)
  case accepted
  have pos: "\<forall>m\<in>set (resting_orders (opposite (rq_side req)) (book_at loc e)). ro_qty m \<noteq> 0"
    using book_node_facts(2) [OF engine_inv_book(1) [OF assms(1)]] accepted(1) by (auto simp: accepts_def)
  from accepted(4) show ?thesis
    by (rule spec_submit_walk) (use walk_fills [OF _ _ pos] assms(3) in fastforce)
qed (use assms(3) in simp)

theorem submit_fills_sound_witness:
  "\<exists>e e' evs f. submit 1 buy_30 e = Some (e', evs) \<and> fills_of evs = [f] \<and> crosses buy_30 (fl_price f) \<and>
     fl_maker_owner f \<noteq> rq_owner buy_30"
proof (rule demo_trade)
  fix e evs e' assume e: "engine_inv e"
    "submit 1 buy_30 e = Some (e', [OnAccepted 1 buy_30, OnFill 1 (mk_fill buy_30 1 (req_rest sell_100 100) 30 30)])"
  have "rq_owner buy_30 \<noteq> 0" by (simp add: buy_30_def)
  with submit_fills_sound [OF e, of "mk_fill buy_30 1 (req_rest sell_100 100) 30 30"] e(2) show ?thesis by fastforce
qed

text \<open>C13: In every run of the venue, from any engine that satisfies the invariant and over any
  sequence of submissions and cancellations, no book is ever crossed: every bid is below every
  offer, so an order that could trade never rests. The books keep their structural invariant, price
  bands and capacities, and the table of symbols does not change.\<close>

theorem venue_never_crossed:
  assumes "venue_run e evs e'" "engine_inv e" "valid_locate loc e"
    and "r \<in> set (resting_orders Buy (book_at loc e'))" "r' \<in> set (resting_orders Sell (book_at loc e'))"
  shows "ro_price r < ro_price r' \<and> book_inv (book_at loc e') \<and> same_grid (book_at loc e) (book_at loc e') \<and>
    me_symbols e' = me_symbols e"
proof -
  from venue_run_keeps [OF assms(1,2)] assms(3) have "engine_inv e'" "valid_locate loc e'"
    "same_grid (book_at loc e) (book_at loc e')" "me_symbols e' = me_symbols e"
    by (auto simp: valid_locate_def)
  with engine_inv_book [of e' loc] assms(4,5) show ?thesis by (auto simp: uncrossed_def)
qed

lemma demo_two_sided:
  obtains evs e where "venue_run demo_engine evs e" "req_rest sell_100 100 \<in> set (resting_orders Sell (book_at 1 e))"
    "req_rest bid_20 20 \<in> set (resting_orders Buy (book_at 1 e))"
proof (rule demo_resting)
  fix e assume e: "submit 1 sell_100 demo_engine = Some (e, [OnAccepted 1 sell_100, OnRested 1 (req_rest sell_100 100)])"
    "engine_inv e" "valid_locate 1 e" "resting_orders Sell (book_at 1 e) = [req_rest sell_100 100]"
    "resting_orders Buy (book_at 1 e) = []" "me_next_match e = 1" "me_max_order_qty e = 1000" "me_stp e = CancelResting"
    "valid_price (book_at 1 e) 140" "ob_capacity (book_at 1 e) = 4"
  have a: "accepts 1 bid_20 e"
    using e by (simp add: accepts_def bid_20_def sell_100_def req_rest_def book_ids_def book_orders_def word_le_nat_alt)
  have sd: "rq_side bid_20 = Buy" "opposite Buy = Sell" by (simp_all add: bid_20_def opposite_def)
  have w: "walk CancelResting 1 bid_20 1 [req_rest sell_100 100] (rq_qty bid_20) =
      (False, [req_rest sell_100 100], 1, 20, [])"
    by (simp add: bid_20_def sell_100_def req_rest_def crosses_def)
  obtain e' evs where s: "submit 1 bid_20 e = Some (e', evs)"
    "spec_submit CancelResting 1 bid_20 1 4 [] [req_rest sell_100 100] =
       (resting_orders Buy (book_at 1 e'), resting_orders Sell (book_at 1 e'), me_next_match e', evs)"
    using submit_refines_accepted [OF e(2) a] e(4-6,8,10) sd by auto
  from s(2) have "resting_orders Buy (book_at 1 e') = [req_rest bid_20 20]"
    "resting_orders Sell (book_at 1 e') = [req_rest sell_100 100]"
    by (simp_all add: spec_submit_def w del: walk.simps) (simp_all add: bid_20_def insert_prio_def)
  moreover have "venue_run demo_engine (([] @ [OnAccepted 1 sell_100, OnRested 1 (req_rest sell_100 100)]) @ evs) e'"
    by (rule venue_run.submitted [OF venue_run.submitted [OF venue_run.start e(1)] s(1)])
  ultimately show thesis by (intro that) auto
qed

theorem venue_never_crossed_witness:
  "\<exists>evs e. venue_run demo_engine evs e \<and> ro_price (req_rest bid_20 20) < ro_price (req_rest sell_100 100) \<and>
     book_inv (book_at 1 e)"
  by (rule demo_two_sided) (use venue_never_crossed [OF _ demo_engine_facts(1,2)] in blast)

text \<open>Match numbers are consecutive: over any run of submissions and cancellations the trades
  are numbered, in the order they happen, from the engine's counter upwards without a gap.\<close>

theorem match_numbers_consecutive:
  assumes "venue_run e evs e'" "engine_inv e"
  shows "map fl_match_number (fills_of evs) = map (\<lambda>i. me_next_match e + of_nat i) [0..<length (fills_of evs)] \<and>
    me_next_match e' = me_next_match e + of_nat (length (fills_of evs))"
  by (rule venue_run_numbers [OF assms])

theorem match_numbers_consecutive_witness:
  "\<exists>evs e. venue_run demo_engine evs e \<and> map fl_match_number (fills_of evs) = [1]"
proof (rule demo_trade)
  fix e evs e' assume e: "submit 1 sell_100 demo_engine = Some (e, evs)"
    "submit 1 buy_30 e = Some (e', [OnAccepted 1 buy_30, OnFill 1 (mk_fill buy_30 1 (req_rest sell_100 100) 30 30)])"
    and i: "fills_of evs = []"
  have r: "venue_run demo_engine (([] @ evs) @ [OnAccepted 1 buy_30, OnFill 1 (mk_fill buy_30 1 (req_rest sell_100 100) 30 30)]) e'"
    by (rule venue_run.submitted [OF venue_run.submitted [OF venue_run.start e(1)] e(2)])
  from match_numbers_consecutive [OF r demo_engine_facts(1)] r i demo_engine_facts(5) show ?thesis by auto
qed

text \<open>C30: A refused order changes nothing and is answered with exactly one rejection, whose
  reason is the first check that failed: unknown symbol, quantity, price, duplicate id.\<close>

theorem submit_error:
  assumes "engine_inv e" "\<not> accepts loc req e"
  shows "submit loc req e = Some (e, [OnRejected loc req
    (if \<not> valid_locate loc e then RejUnknownSymbol
     else if rq_qty req = 0 \<or> rq_qty req > me_max_order_qty e then RejBadQty
     else if \<not> valid_price (book_at loc e) (rq_price req) then RejBadPrice else RejDuplicateId)])"
  using submit_rejects [OF assms] by auto

theorem submit_error_witness:
  "submit 2 sell_100 demo_engine = Some (demo_engine, [OnRejected 2 sell_100 RejUnknownSymbol])"
proof -
  have "\<not> valid_locate 2 demo_engine"
    by (simp add: valid_locate_def demo_engine_facts)
  with submit_error [OF demo_engine_facts(1), of 2 sell_100] show ?thesis by (simp add: accepts_def)
qed

text \<open>C20: Cancelling refines removal from the priority lists. The answer is the one the abstract
  verdict gives (unknown symbol, unknown order, not the owner, nothing to reduce, done); a granted
  cancellation leaves the order in place with the new quantity, or removes it when that is zero,
  and reports exactly the quantity taken off; a refused one changes nothing.\<close>

theorem cancel_correct:
  assumes "engine_inv e"
  shows "\<exists>e' evs. cancel loc k nq owner why e = (cancel_verdict loc k nq owner e, e', evs) \<and> engine_inv e' \<and>
    (if cancel_verdict loc k nq owner e = CancelOk
     then \<exists>r\<in>set (book_orders (book_at loc e)). ro_id r = k \<and> ro_owner r = owner \<and> nq < ro_qty r \<and>
       evs = [OnRestingCancelled loc r (ro_qty r - nq) why] \<and> only_book loc e e' \<and> me_next_match e' = me_next_match e \<and>
       (\<forall>t. resting_orders t (book_at loc e') = reduce_list k (ro_qty r - nq) (resting_orders t (book_at loc e)))
     else e' = e \<and> evs = [])"
  by (rule cancel_refines [OF assms])

theorem cancel_correct_witness:
  "\<exists>e e' evs. submit 1 sell_100 demo_engine = Some (e, evs) \<and>
     cancel 1 5 40 1 UserRequested e = (CancelOk, e', [OnRestingCancelled 1 (req_rest sell_100 100) 60 UserRequested]) \<and>
     resting_orders Sell (book_at 1 e') = [req_rest sell_100 40]"
proof (rule demo_resting)
  fix e assume e: "submit 1 sell_100 demo_engine = Some (e, [OnAccepted 1 sell_100, OnRested 1 (req_rest sell_100 100)])"
    "engine_inv e" "valid_locate 1 e" "resting_orders Sell (book_at 1 e) = [req_rest sell_100 100]"
    "resting_orders Buy (book_at 1 e) = []"
  have b: "book_orders (book_at 1 e) = [req_rest sell_100 100]" by (simp add: book_orders_def e(4,5))
  have v: "cancel_verdict 1 5 40 1 e = CancelOk"
    by (simp add: cancel_verdict_def e(3) b) (simp add: req_rest_def sell_100_def word_le_nat_alt)
  show ?thesis using cancel_correct [OF e(2), of 1 5 40 1 UserRequested] v b e(1,4)
    by (auto simp: req_rest_def sell_100_def)
qed

section \<open>Further operations of the book and its parts\<close>

lemma demo_one:
  obtains b where "book_inv b" "ob_cfg b = demo_cfg" "resting_orders Buy b = [\<lparr>ro_id = 7, ro_price = 150, ro_qty = 3,
    ro_owner = 1, ro_user_ref = 2, ro_side = Buy\<rparr>]" "resting_orders Sell b = []"
proof -
  obtain b where b: "book_inv b" "ob_cfg b = demo_cfg" "\<And>s. resting_orders s b = []" using demo_book by blast
  have "add_verdict 7 150 3 b = AddOk"
    by (simp add: add_verdict_def valid_price_def b demo_cfg_def book_orders_def book_ids_def)
  with book_add [OF b(1), of 7 Buy 150 3 1 2] b that show thesis by (auto simp: insert_prio_def)
qed

text \<open>\<open>OrderBook::remove\<close> refines deletion from the priority lists: it answers whether the id
  was resting, deletes exactly that order and keeps the relative order of all others.\<close>

theorem ob_remove_refines:
  assumes "book_inv b"
  shows "\<exists>b'. ob_remove k b = (k \<in> book_ids b, b') \<and> book_inv b' \<and>
    (\<forall>t. resting_orders t b' = remove_list k (resting_orders t b)) \<and> (k \<notin> book_ids b \<longrightarrow> b' = b)"
  using book_remove [OF assms, of k] by blast

theorem ob_remove_refines_witness:
  "\<exists>b b'. length (resting_orders Buy b) = 1 \<and> ob_remove 7 b = (True, b') \<and> resting_orders Buy b' = []"
proof (rule demo_one)
  fix b assume b: "book_inv b" "resting_orders Buy b = [\<lparr>ro_id = 7, ro_price = 150, ro_qty = 3, ro_owner = 1,
    ro_user_ref = 2, ro_side = Buy\<rparr>]" "resting_orders Sell b = []"
  obtain b' where b': "ob_remove 7 b = (True, b')" "resting_orders Buy b' = []"
    using ob_remove_refines [OF b(1), of 7] b(2,3) by (auto simp: remove_list_def book_ids_def book_orders_def)
  show ?thesis by (intro exI [of _ b] exI [of _ b']) (simp add: b b')
qed

text \<open>\<open>OrderBook::reduce\<close> refines reduction in place: it succeeds exactly when the id rests with
  at least that quantity, the order keeps its place in the queue with what is left and disappears when
  nothing is left; otherwise the book is unchanged.\<close>

theorem ob_reduce_refines:
  assumes "book_inv b"
  shows "\<exists>b'. ob_reduce k amt b = (\<exists>r\<in>set (book_orders b). ro_id r = k \<and> amt \<le> ro_qty r, b') \<and> book_inv b' \<and>
    (if \<exists>r\<in>set (book_orders b). ro_id r = k \<and> amt \<le> ro_qty r
     then \<forall>t. resting_orders t b' = reduce_list k amt (resting_orders t b) else b' = b)"
  using book_reduce [OF assms, of k amt] by blast

theorem ob_reduce_refines_witness:
  "\<exists>b b'. resting_orders Buy b \<noteq> [] \<and> ob_reduce 7 2 b = (True, b') \<and> map ro_qty (resting_orders Buy b') = [1]"
proof (rule demo_one)
  fix b assume b: "book_inv b" "resting_orders Buy b = [\<lparr>ro_id = 7, ro_price = 150, ro_qty = 3, ro_owner = 1,
    ro_user_ref = 2, ro_side = Buy\<rparr>]" "resting_orders Sell b = []"
  have "book_orders b = [\<lparr>ro_id = 7, ro_price = 150, ro_qty = 3, ro_owner = 1, ro_user_ref = 2, ro_side = Buy\<rparr>]"
    by (simp add: book_orders_def b)
  with ob_reduce_refines [OF b(1), of 7 2] b(2) obtain b' where b': "ob_reduce 7 2 b = (True, b')"
    "map ro_qty (resting_orders Buy b') = [1]" by (auto simp: word_le_nat_alt)
  show ?thesis by (intro exI [of _ b] exI [of _ b']) (simp add: b b')
qed

text \<open>What the book reports is what it holds: \<open>find\<close> is a lookup among the resting orders,
  \<open>front\<close> and the best price are the head of the priority list, the aggregate of a price level is the
  exact sum and number of the orders at that price (no wrap-around), and the level walk visits the
  occupied prices from best to worst.\<close>

theorem book_views:
  assumes "book_inv b"
  shows "map_option rest_of (ob_find k b) = find (\<lambda>r. ro_id r = k) (book_orders b) \<and>
    map_option rest_of (ob_front s b) = (case resting_orders s b of [] \<Rightarrow> None | r # _ \<Rightarrow> Some r) \<and>
    (resting_orders s b \<noteq> [] \<longrightarrow> best_price s b = ro_price (hd (resting_orders s b))) \<and>
    unat (lw_qty (level_at s p b)) = total_qty (at_price p (resting_orders s b)) \<and>
    unat (lw_orders (level_at s p b)) = length (at_price p (resting_orders s b)) \<and>
    for_each_level s n b = map (\<lambda>p. level_at s p b) (take n (remdups_adj (map ro_price (resting_orders s b))))"
  using book_find [OF assms, of k] book_front [OF assms, of s] book_best_price [OF assms, of s]
    book_level_at(2,3) [OF assms, of s p] book_for_each_level [OF assms, of s n] by blast

theorem book_views_witness:
  "\<exists>b. resting_orders Buy b \<noteq> [] \<and> best_price Buy b = 150 \<and> unat (lw_qty (level_at Buy 150 b)) = 3 \<and>
     length (for_each_level Buy 5 b) = 1"
proof (rule demo_one)
  fix b assume b: "book_inv b" "resting_orders Buy b = [\<lparr>ro_id = 7, ro_price = 150, ro_qty = 3, ro_owner = 1,
    ro_user_ref = 2, ro_side = Buy\<rparr>]"
  from book_views [OF b(1), of 7 Buy 150 5] b(2) show ?thesis
    by (intro exI [of _ b]) (simp add: total_qty_def at_price_def)
qed

text \<open>The constructor of a book: a configuration the book can index gives an empty book that
  satisfies the invariant; a non-positive tick, an inverted or misaligned price band, or an order
  capacity that is zero or collides with the list terminator is refused.\<close>

theorem OrderBook_error:
  "(cfg_ok cfg \<longrightarrow> (\<exists>b. OrderBook cfg = Some b \<and> book_inv b \<and> ob_cfg b = cfg \<and> (\<forall>s. resting_orders s b = []))) \<and>
   (OrderBook cfg = None \<longleftrightarrow> bc_tick_size cfg \<le> 0 \<or> bc_max_price cfg < bc_min_price cfg \<or>
     (bc_max_price cfg - bc_min_price cfg) mod bc_tick_size cfg \<noteq> 0 \<or>
     bc_max_orders cfg = 0 \<or> kNil \<le> unat (bc_max_orders cfg))"
  using book_new [of cfg] by (auto simp: OrderBook_def Let_def)

theorem OrderBook_error_witness:
  "OrderBook (demo_cfg\<lparr>bc_tick_size := 30\<rparr>) = None \<and> OrderBook demo_cfg \<noteq> None"
  using OrderBook_error [of "demo_cfg\<lparr>bc_tick_size := 30\<rparr>"] OrderBook_error [of demo_cfg] demo_cfg_ok
  by (auto simp: demo_cfg_def)

text \<open>C27: The hash map from order ids refines a partial function. Insertion succeeds exactly for a
  new non-zero id while there is room and then binds it; erasure succeeds exactly for a present id
  and, although it moves other entries backwards in the table, changes no other binding.\<close>

theorem flat_map_refines:
  assumes "fm_inv m"
  shows "(\<exists>m'. fm_insert k v m = (k \<noteq> 0 \<and> fm_find m k = None \<and> fm_size m < fm_max_entries m, m') \<and> fm_inv m' \<and>
      fm_find m' = (if k \<noteq> 0 \<and> fm_find m k = None \<and> fm_size m < fm_max_entries m
        then (fm_find m)(k \<mapsto> v) else fm_find m)) \<and>
    (\<exists>m'. fm_erase k m = (fm_find m k \<noteq> None, m') \<and> fm_inv m' \<and> fm_find m' = (fm_find m)(k := None))"
proof (intro conjI)
  show "\<exists>m'. fm_insert k v m = (k \<noteq> 0 \<and> fm_find m k = None \<and> fm_size m < fm_max_entries m, m') \<and> fm_inv m' \<and>
      fm_find m' = (if k \<noteq> 0 \<and> fm_find m k = None \<and> fm_size m < fm_max_entries m
        then (fm_find m)(k \<mapsto> v) else fm_find m)"
    using fm_insert_new [OF assms, of k v] fm_insert_refused [OF assms, of k v] assms
    by (cases "k \<noteq> 0 \<and> fm_find m k = None \<and> fm_size m < fm_max_entries m") auto
  show "\<exists>m'. fm_erase k m = (fm_find m k \<noteq> None, m') \<and> fm_inv m' \<and> fm_find m' = (fm_find m)(k := None)"
    using fm_erase_present [OF assms, of k] fm_erase_absent [OF assms, of k] assms by (cases "fm_find m k") auto
qed

theorem flat_map_refines_witness:
  "\<exists>m. fm_insert 9 (1 :: nat) (FlatIdMap 0 4) = (True, m) \<and> fm_find m 9 = Some 1 \<and> fst (fm_erase 9 (FlatIdMap (0 :: nat) 4)) = False"
proof -
  note i = FlatIdMap_inv [of 4 "0 :: nat", simplified]
  have "fm_size (FlatIdMap (0 :: nat) 4) = 0" by (simp add: FlatIdMap_def Let_def)
  with flat_map_refines [OF i(1), of 9 1] i(2,3) show ?thesis by auto
qed

text \<open>The two bitmap scans equal a linear search: \<open>find_next\<close> gives the first set index at or
  above its argument and \<open>find_prev\<close> the last one at or below it, or \<open>-1\<close>.\<close>

theorem bitmap_scans:
  assumes "0 \<le> i" "nat i < 64 * length bits"
  shows "bitmap_find_next bits i =
      (case find (bset bits) [nat i ..< 64 * length bits] of None \<Rightarrow> -1 | Some k \<Rightarrow> int k) \<and>
    bitmap_find_prev bits i =
      (case find (bset bits) (rev [0 ..< Suc (nat i)]) of None \<Rightarrow> -1 | Some k \<Rightarrow> int k)"
  using is_next_find [OF bitmap_find_next_spec] is_prev_find [OF bitmap_find_prev_spec [OF assms]] by blast

theorem bitmap_scans_witness:
  "bitmap_find_next [0, 4] 3 = 66 \<and> bitmap_find_prev [9, 0] 100 = 3"
  using bitmap_scans [of 3 "[0, 4]"] bitmap_scans [of 100 "[9, 0]"] by (simp add: bset_def upt_conv_Cons upt_rec)

section \<open>Market data: from the venue to the replica\<close>

lemma demo_mirror:
  obtains c where "ob.mirrors (book_at 1 demo_engine) c" "book_inv c" "ob_cfg c = demo_cfg" "\<And>s. resting_orders s c = []"
proof -
  obtain c where c: "book_inv c" "ob_cfg c = demo_cfg" "\<And>s. resting_orders s c = []" using demo_book by blast
  have "ob.mirrors (book_at 1 demo_engine) c"
    using c demo_engine_facts engine_inv_book [OF demo_engine_facts(1,2)]
      valid_price_cfg [of "book_at 1 demo_engine" c]
    by (simp add: ob.mirrors_def ob_capacity_def)
  with c that show thesis by blast
qed

lemma demo_band: "wire_band b" if "ob_cfg b = demo_cfg"
  using that by (auto simp: wire_band_def valid_price_def demo_cfg_def)

definition demo_stock :: "u16 \<Rightarrow> symbol" where
  "demo_stock loc = make_symbol (str ''ACME'')"

definition demo_msg :: itch_message where
  "demo_msg = add_msg 1 1 (demo_stock 1) (req_rest sell_100 100)"

lemma demo_msg_wf: "itch_wf demo_msg"
  by (simp add: demo_msg_def add_msg_def demo_stock_def ts48_def)

lemma demo_feed:
  obtains out1 md1 out2 md2 where "feed_run 0 [itch_bytes demo_msg] out1 md1" "md_flush 0 0 md1 = (out2, md2)"
    "feed_run 0 [itch_bytes demo_msg] (out1 @ out2) md2" "length (concat (map datagram_msgs (out1 @ out2))) = 1"
proof -
  obtain out1 md1 where p: "publish 0 0 demo_msg (MarketDataFeed (replicate kMaxPacketLen 0) 0) = (out1, md1)" by fastforce
  obtain out2 md2 where f: "md_flush 0 0 md1 = (out2, md2)" by fastforce
  have r: "feed_run 0 [itch_bytes demo_msg] out1 md1"
    using feed_run.published [OF feed_run.opened demo_msg_wf p] by simp
  have "length (concat (map datagram_msgs (out1 @ out2))) = 1"
    using feed_run_flushed [OF r f] by (simp add: numbered_from_def del: map_append)
  with that [OF r f] feed_run.flushed [OF r f] show thesis by blast
qed

text \<open>C9: From the venue to the replica, end to end. The venue runs any sequence of submissions and
  cancellations and publishes one message per book-changing callback; the feed packs them into
  numbered datagrams, some of which it may drop; the network delivers any of the datagrams, in any
  order, with any losses and repetitions; the feed handler tracks sequence numbers, decodes and
  applies. The replica never meets an inconsistent message, what it has applied is a prefix of what
  was published, and once it has applied everything it mirrors the venue's book exactly.\<close>

theorem replica_end_to_end:
  assumes run: "venue_run e evs e'" "engine_inv e" "valid_locate loc e"
    and start: "ob.mirrors (book_at loc e) c" "wire_band (book_at loc e)"
    and feed: "feed_run d (map itch_bytes msgs) wire md" "msgs = events_msgs stock clock i evs" "\<forall>m\<in>set msgs. itch_wf m"
    and net: "set ds \<subseteq> set wire" "track SequenceTracker (concat (map datagram_msgs ds)) = (bs, t)"
    and small: "length msgs < 2 ^ 64" "Suc (length (concat (map datagram_msgs ds))) < 2 ^ 64"
  shows "\<exists>n c'. map itch_decode bs = map Some (take n msgs) \<and> st_expected t = of_nat (Suc n) \<and>
    apply_all loc (take n msgs) c = (True, c') \<and> (length msgs \<le> n \<longrightarrow> ob.mirrors (book_at loc e') c')"
proof -
  obtain c2 where c2: "apply_all loc msgs c = (True, c2)" "ob.mirrors (book_at loc e') c2"
    using venue_run_mirrors [OF run start, of stock clock i] by (auto simp: feed(2))
  from deliveries_applied [OF feed(1,3) net small c2(1)] c2(2) show ?thesis by blast
qed

theorem replica_end_to_end_witness:
  "\<exists>e evs wire md c bs t c'. submit 1 sell_100 demo_engine = Some (e, evs) \<and>
     feed_run 0 (map itch_bytes (events_msgs demo_stock (\<lambda>_. 1) 0 evs)) wire md \<and>
     track SequenceTracker (concat (map datagram_msgs wire)) = (bs, t) \<and>
     (\<exists>n. apply_all 1 (take n (events_msgs demo_stock (\<lambda>_. 1) 0 evs)) c = (True, c'))"
proof (rule demo_resting, rule demo_mirror, rule demo_feed)
  fix e c md1 md2 and out1 out2 :: "bytes list"
  let ?evs = "[OnAccepted 1 sell_100, OnRested 1 (req_rest sell_100 100)]" and ?w = "out1 @ out2"
  assume S: "submit 1 sell_100 demo_engine = Some (e, ?evs)" and c: "ob.mirrors (book_at 1 demo_engine) c"
    and F: "feed_run 0 [itch_bytes demo_msg] ?w md2" and L: "length (concat (map datagram_msgs ?w)) = 1"
  have ms: "events_msgs demo_stock (\<lambda>_. 1) 0 ?evs = [demo_msg]" by (simp add: demo_msg_def)
  obtain bs t where T: "track SequenceTracker (concat (map datagram_msgs ?w)) = (bs, t)" by fastforce
  have V: "venue_run demo_engine ([] @ ?evs) e" by (rule venue_run.submitted [OF venue_run.start S])
  have "\<exists>n c'. map itch_decode bs = map Some (take n [demo_msg]) \<and> st_expected t = of_nat (Suc n) \<and>
      apply_all 1 (take n [demo_msg]) c = (True, c') \<and> (length [demo_msg] \<le> n \<longrightarrow> ob.mirrors (book_at 1 e) c')"
    using F ms demo_msg_wf T L
    by (intro replica_end_to_end [OF V demo_engine_facts(1,2) c demo_band [OF demo_engine_facts(7)],
      where stock = demo_stock and clock = "\<lambda>_. 1" and i = 0]) auto
  with S ms F T show ?thesis by force
qed

text \<open>A snapshot rebuilds the book: applying the messages the exchange sends for its resting
  orders to an empty replica of the same grid succeeds and gives a replica that mirrors the book,
  with every queue in the same order.\<close>

theorem snapshot_rebuilds:
  assumes "book_inv b" "wire_band b" "book_inv c" "same_grid b c" "\<And>s. resting_orders s c = []"
  shows "\<exists>c'. apply_all loc (snapshot_msgs loc ts stock b) c = (True, c') \<and> ob.mirrors b c'"
  by (rule snapshot_mirrors [OF assms])

theorem snapshot_rebuilds_witness:
  "\<exists>b c c'. length (resting_orders Buy b) = 1 \<and> apply_all 1 (snapshot_msgs 1 5 (demo_stock 1) b) c = (True, c') \<and>
     map ro_id (resting_orders Buy c') = [7]"
proof (rule demo_one, rule demo_mirror)
  fix b c
  assume b: "book_inv b" "ob_cfg b = demo_cfg" "resting_orders Buy b = [\<lparr>ro_id = 7, ro_price = 150, ro_qty = 3,
      ro_owner = 1, ro_user_ref = 2, ro_side = Buy\<rparr>]"
    and c: "book_inv c" "ob_cfg c = demo_cfg" "\<And>s. resting_orders s c = []"
  have "same_grid b c" using valid_price_cfg [of c b] b(2) c(2) by (simp add: same_grid_def ob_capacity_def)
  from snapshot_rebuilds [OF b(1) demo_band [OF b(2)] c(1) this c(3), of 1 5 "demo_stock 1"] obtain c' where
    c': "apply_all 1 (snapshot_msgs 1 5 (demo_stock 1) b) c = (True, c')" "ob.mirrors b c'" by blast
  have "resting_orders Buy c' = map public (resting_orders Buy b)" using ob.mirrorsD(5) [OF c'(2)] .
  with b(3) c'(1) show ?thesis by (intro exI [of _ b] exI [of _ c] exI [of _ c']) (simp add: public_def)
qed

text \<open>The feed numbers every message once: without the loss simulation the datagrams sent,
  read back with the packet parser, carry exactly the published messages that left the builder,
  numbered \<open>1, 2, 3, ...\<close> in publication order, and with the loss simulation every datagram still
  carries a contiguous numbered run of them; after a flush nothing is held back and the next sequence
  number is one more than the number of messages published.\<close>

theorem feed_numbers_messages:
  assumes "feed_run d P wire md" "md_flush n now md = (out, md')"
  shows "(\<forall>x\<in>set wire. carries P x) \<and> md_next_seq md' = of_nat (Suc (length P)) \<and> pb_count (md_pkt md') = 0 \<and>
    (d = 0 \<longrightarrow> concat (map datagram_msgs (wire @ out)) = numbered_from 0 P)"
  using feed_run_wire [OF assms(1)] flush_next_seq [OF assms] feed_run_flushed [OF assms] by blast

theorem feed_numbers_messages_witness:
  "\<exists>wire md out md'. feed_run 0 [itch_bytes demo_msg] wire md \<and> md_flush 0 0 md = (out, md') \<and>
     concat (map datagram_msgs (wire @ out)) = [(1, itch_bytes demo_msg)] \<and> md_next_seq md' = 2"
proof (rule demo_feed)
  fix out1 md1 out2 md2
  assume F: "feed_run 0 [itch_bytes demo_msg] out1 md1" "md_flush 0 0 md1 = (out2, md2)"
  from feed_numbers_messages [OF F] have "concat (map datagram_msgs (out1 @ out2)) = [(1, itch_bytes demo_msg)]"
    "md_next_seq md2 = 2" by (auto simp: numbered_from_def)
  with F show ?thesis by blast
qed

text \<open>C21: The sequence tracker delivers in order and exactly once: over arrivals that carry the
  right message for their number, in any order and with any repetitions, the messages applied are
  exactly the stream from the first expected number up to the new one; and when the missing numbers
  arrive in order somewhere among the arrivals, all of them are delivered.\<close>

theorem tracker_delivers:
  assumes "track t arrivals = (ms, t')" "\<forall>(sq, m)\<in>set arrivals. m = stream (unat sq)"
    and "unat (st_expected t) + length arrivals < 2 ^ 64"
  shows "ms = map stream [unat (st_expected t) ..< unat (st_expected t')] \<and>
    unat (st_expected t) \<le> unat (st_expected t') \<and>
    (subseq (map word_of_nat [unat (st_expected t) ..< n]) (map fst arrivals) \<longrightarrow> n \<le> unat (st_expected t'))"
  using track_in_order [OF assms] track_complete [OF assms(1) _ assms(3), of n] by blast

theorem tracker_delivers_witness:
  "track SequenceTracker [(2, 102), (1, 101), (1, 101), (2, 102 :: nat)] = ([101, 102], \<lparr>st_expected = 3\<rparr>)"
  using tracker_delivers [of SequenceTracker "[(2, 102), (1, 101), (1, 101), (2, 102)]" "[101, 102]" "\<lparr>st_expected = 3\<rparr>"
    "\<lambda>k. 100 + k" 3]
  by (simp add: SequenceTracker_def on_message_def)

section \<open>Session framing and order entry\<close>

text \<open>C35: Order entry messages, in both directions: encoding into a large enough buffer and decoding
  exactly the bytes written gives the message back.\<close>

theorem ouch_roundtrip:
  assumes "cap \<le> length out" "inbound_wf m" "inbound_len m \<le> cap" "outbound_wf m'" "outbound_len m' \<le> cap"
  shows "(case encode_inbound m out cap of (buf, n) \<Rightarrow> n = inbound_len m \<and> decode_inbound (take n buf) = Some m) \<and>
    (case encode_outbound m' out cap of (buf, n) \<Rightarrow> n = outbound_len m' \<and> decode_outbound (take n buf) = Some m')"
  using encode_inbound_written [OF assms(2,1,3)] encode_outbound_written [OF assms(4,1,5)]
    decode_inbound_bytes [OF assms(2)] decode_outbound_bytes [OF assms(4)] assms by (simp add: blit_def)

theorem ouch_roundtrip_witness:
  "case encode_inbound (CancelOrder \<lparr>co_user_ref = 3, co_qty = 10\<rparr>) (replicate 64 0) 64 of (buf, n) \<Rightarrow>
     n = 9 \<and> decode_inbound (take n buf) = Some (CancelOrder \<lparr>co_user_ref = 3, co_qty = 10\<rparr>)"
proof -
  let ?x = "Executed \<lparr>ox_timestamp = 7, ox_user_ref = 1, ox_qty = 5, ox_price = 9, ox_liquidity = 0, ox_match_number = 1\<rparr>"
  have "inbound_len (CancelOrder \<lparr>co_user_ref = 3, co_qty = 10\<rparr>) = 9" "outbound_len ?x \<le> 64" "outbound_wf ?x"
    by (simp_all add: inbound_len_def outbound_len_def int64_range_def)
  with ouch_roundtrip [of 64 "replicate 64 0" "CancelOrder \<lparr>co_user_ref = 3, co_qty = 10\<rparr>" ?x] show ?thesis by simp
qed

text \<open>The decoder of inbound order messages accepts nothing but encodings: whatever bytes a client
  sends, when they are decoded the message is well formed and the bytes are exactly its encoding, so
  no two byte strings stand for one message and every other string is refused.\<close>

theorem inbound_decoder_strict:
  "decode_inbound p = Some m \<longleftrightarrow> inbound_wf m \<and> p = inbound_bytes m"
  using decode_inbound_inj [of p m] decode_inbound_bytes [of m] by blast

text \<open>C28: Stream reassembly: however the byte stream of a sequence of frames is cut into chunks
  (each at most one frame long), the frame reader always has room for the next chunk, hands out
  exactly those frames in order with their contents, reports no error, and holds nothing back.\<close>

theorem frames_reassembled:
  assumes "frames_ok fs" "concat cs = frames_bytes fs" "\<forall>c\<in>set cs. length c \<le> kMaxFrame + kFrameHeaderLen"
  shows "\<exists>r. fr_feed cs FrameReader = Some (fs, r) \<and> fr_pending r = []"
proof -
  note S = FrameReader_start
  obtain gs r where g: "fr_feed cs FrameReader = Some (gs, r)"
    using fr_feed_accepts [OF S(1) assms(1) _ _ assms(3)] S(2) assms(2) by (auto simp: kMaxFrame_def)
  with fr_feed_frames [OF S(1) assms(1) _ _ g] S(2,3) assms(2) show ?thesis by auto
qed

theorem frames_reassembled_witness:
  "\<exists>r. fr_feed [[0], [3, 85, 1], [2, 0, 1], [72]] FrameReader = Some ([(85, [1, 2]), (72, [])], r)"
proof -
  have "concat [[0], [3, 85, 1], [2, 0, 1], [72]] = frames_bytes [(85, [1, 2]), (72, [])]"
    by (simp add: frame_bytes_def u16_be_def u8_be_def)
  then have "\<exists>r. fr_feed [[0], [3, 85, 1], [2, 0, 1], [72]] FrameReader = Some ([(85, [1, 2]), (72, [])], r) \<and> fr_pending r = []"
    by (intro frames_reassembled) (simp_all add: frames_ok_def frame_ok_def kMaxFrame_def)
  then show ?thesis by blast
qed

text \<open>A MoldUDP64 packet built from messages is parsed back into the header and the
  same messages with consecutive sequence numbers, and the walk over the blocks ends exactly at the end
  of the packet.\<close>

theorem mold_roundtrip:
  assumes "pb_holds pb sess sq ms"
  shows "\<exists>h. parse_header (pb_data (pb_finish pb)) = Some h \<and> mh_session h = sess \<and> mh_sequence h = sq \<and>
    for_each_message (pb_data (pb_finish pb)) h = (map (\<lambda>k. (sq + of_nat k, ms ! k)) [0..<length ms], True)"
  using parse_packet [of sess ms sq] pb_finish_data [OF assms] pb_holds_count [OF assms] assms by (simp add: pb_holds_def)

theorem mold_roundtrip_witness:
  "\<exists>pb h. pb_append [1, 2, 3] (PacketBuilder (replicate kMaxPacketLen 0) (str ''PF'')) = (True, pb) \<and>
     parse_header (pb_data (pb_finish pb)) = Some h \<and> for_each_message (pb_data (pb_finish pb)) h = ([(1, [1, 2, 3])], True)"
proof -
  note h = PacketBuilder_holds [of "replicate kMaxPacketLen 0" "str ''PF''", simplified]
  obtain pb where a: "pb_append [1, 2, 3] (PacketBuilder (replicate kMaxPacketLen 0) (str ''PF'')) = (True, pb)"
    using h by (auto simp: pb_append_def pb_holds_def kHeaderLen_def kMaxPacketLen_def Let_def)
  from mold_roundtrip [OF pb_append_holds [OF h a]] a show ?thesis by fastforce
qed

section \<open>Risk and strategy\<close>

definition demo_limits :: risk_limits where
  "demo_limits = \<lparr>rl_max_order_qty = 100, rl_max_notional = 100000, rl_max_position = 150, rl_max_open_orders = 2,
     rl_max_orders_per_sec = 1, rl_price_collar_bps = 1000\<rparr>"

text \<open>The pre-trade check passes an order exactly when the kill switch is off and every limit holds:
  order quantity, notional, a known reference price, the price collar around it, the number of open
  orders, the worst-case position if every open order on that side fills, and the rate limit.\<close>

theorem risk_check_exact:
  "risk_check side price qty reference now_ns g = Pass \<longleftrightarrow>
     \<not> rg_killed g \<and> within_limits side price qty reference g \<and> \<not> throttled now_ns g"
  by (rule check_pass)

text \<open>The position limit cannot be exceeded. Whatever orders the gate has passed and however they
  were filled, partly filled, cancelled or closed, the position stays within the limit on both sides,
  even in the worst case in which everything still open on one side fills; the open quantities and
  the number of open orders are exactly those of the orders in the market.\<close>

theorem position_bounded:
  assumes "risk_run lim os ts g" "0 \<le> rl_max_position lim"
  shows "\<bar>rg_position g\<bar> \<le> rl_max_position lim \<and>
    rg_position g + int (open_qty Buy os) \<le> rl_max_position lim \<and>
    - rl_max_position lim \<le> rg_position g - int (open_qty Sell os) \<and>
    unat (rg_open_orders g) = length os \<and> length os \<le> unat (rl_max_open_orders lim)"
  using risk_run_inv [OF assms] risk_run_lim [OF assms(1)] by (auto simp: risk_inv_def)

lemma demo_sent:
  "risk_check Buy 100 60 100 5 (RiskGate demo_limits) = Pass"
  "risk_run demo_limits [(Buy, 60)] [5] (on_order_sent Buy 60 5 (RiskGate demo_limits))"
proof -
  show p: "risk_check Buy 100 60 100 5 (RiskGate demo_limits) = Pass"
    by (simp add: risk_check_def RiskGate_def demo_limits_def word_le_nat_alt word_less_nat_alt)
  show "risk_run demo_limits [(Buy, 60)] [5] (on_order_sent Buy 60 5 (RiskGate demo_limits))"
    using risk_run.sent [OF risk_run.fresh p] by simp
qed

theorem position_bounded_witness:
  "\<bar>rg_position (risk_on_fill Buy 60 (on_order_sent Buy 60 5 (RiskGate demo_limits)))\<bar> \<le> 150"
proof -
  have "risk_run demo_limits ([] @ (Buy, 60 - unat (60 :: qty)) # []) [5] (risk_on_fill Buy 60 (on_order_sent Buy 60 5 (RiskGate demo_limits)))"
    using demo_sent(2) by (intro risk_run.filled) simp_all
  from position_bounded [OF this] show ?thesis by (simp add: demo_limits_def)
qed

text \<open>C31: The rate limit holds over every window: of the orders the gate passes, any two that are the
  permitted number apart were sent at least one second apart (in the clock's modular time), so no
  second ever holds more than the permitted number (at least one is always permitted).\<close>

theorem order_rate_bounded:
  assumes "risk_run lim os ts g" "length ts < 2 ^ 64" "i + max 1 (unat (rl_max_orders_per_sec lim)) < length ts"
  shows "1000000000 \<le> ts ! (i + max 1 (unat (rl_max_orders_per_sec lim))) - ts ! i"
  by (rule risk_run_rate [OF assms])

theorem order_rate_bounded_witness:
  "\<exists>g. risk_run demo_limits [(Buy, 60), (Buy, 60)] [5, 2000000005] g \<and> 1000000000 \<le> (2000000005 :: u64) - 5"
proof -
  let ?g = "on_order_sent Buy 60 5 (RiskGate demo_limits)"
  have "risk_check Buy 100 60 100 2000000005 ?g = Pass"
    by (simp add: risk_check_def on_order_sent_def RiskGate_def demo_limits_def word_le_nat_alt word_less_nat_alt Let_def)
  from risk_run.sent [OF demo_sent(2) this]
  have r: "risk_run demo_limits [(Buy, 60), (Buy, 60)] [5, 2000000005] (on_order_sent Buy 60 2000000005 ?g)" by simp
  from order_rate_bounded [OF r, of 0] r show ?thesis by (auto simp: demo_limits_def)
qed

text \<open>C33: The strategy decides on the true state of the book. When no product or sum of the decision leaves the
  64-bit range (100 times the volume at the two best levels fits, the percentage is at most 100 and position
  and limit are within 2 to the 62; the first holds for every book of at most 2 to the 23 orders), the signal
  it emits from the summaries of the best levels equals the decision taken on the exact sums of the resting
  quantities at the best bid and offer; it crosses the spread at the best opposite price, never while an order
  is in flight, with one side empty or within the cooldown, and never past its position limit.\<close>

theorem strategy_decides:
  assumes "book_inv b" "decision_fits (is_p st) position b"
  shows "on_book_update b position in_flight now_ns st =
    (if in_flight \<or> resting_orders Buy b = [] \<or> resting_orders Sell b = [] \<or>
        now_ns - is_last_signal_ns st < sp_cooldown_ns (is_p st)
     then (None, st)
     else case decide (is_p st) position (int (top_volume Buy b)) (int (top_volume Sell b)) of
        None \<Rightarrow> (None, st)
      | Some s \<Rightarrow> (Some \<lparr>sg_side = s, sg_price = ro_price (hd (resting_orders (opposite s) b)),
          sg_qty = sp_order_qty (is_p st),
          sg_imbalance_pct = ((int (top_volume Buy b) - int (top_volume Sell b)) * 100) sdiv
            (int (top_volume Buy b) + int (top_volume Sell b))\<rparr>, st\<lparr>is_last_signal_ns := now_ns\<rparr>))"
  by (rule decision_exact [OF assms refl])

text \<open>Nine hundred bid against one hundred offered: eighty percent, so it buys at the offer.\<close>

lemma demo_imbalance:
  obtains b where "book_inv b" "ob_cfg b = demo_cfg"
    "resting_orders Buy b = [\<lparr>ro_id = 7, ro_price = 150, ro_qty = 900, ro_owner = 1, ro_user_ref = 2, ro_side = Buy\<rparr>]"
    "resting_orders Sell b = [\<lparr>ro_id = 8, ro_price = 160, ro_qty = 100, ro_owner = 1, ro_user_ref = 3, ro_side = Sell\<rparr>]"
proof -
  obtain b where b: "book_inv b" "ob_cfg b = demo_cfg" "\<And>s. resting_orders s b = []" using demo_book by blast
  have "add_verdict 7 150 900 b = AddOk"
    by (simp add: add_verdict_def valid_price_def b demo_cfg_def book_orders_def book_ids_def)
  with book_add [OF b(1), of 7 Buy 150 900 1 2] b obtain b1 where b1: "book_inv b1" "ob_cfg b1 = demo_cfg" "resting_orders Sell b1 = []"
    "resting_orders Buy b1 = [\<lparr>ro_id = 7, ro_price = 150, ro_qty = 900, ro_owner = 1, ro_user_ref = 2, ro_side = Buy\<rparr>]"
    by (auto simp: insert_prio_def)
  have "add_verdict 8 160 100 b1 = AddOk"
    by (simp add: add_verdict_def valid_price_def b1 demo_cfg_def book_orders_def book_ids_def)
  with book_add [OF b1(1), of 8 Sell 160 100 1 3] b1 that show thesis by (auto simp: insert_prio_def)
qed

theorem strategy_decides_witness:
  "\<exists>b. top_volume Buy b = 900 \<and> top_volume Sell b = 100 \<and>
     on_book_update b 0 False 1000000 (ImbalanceStrategy default_params) =
       (Some \<lparr>sg_side = Buy, sg_price = 160, sg_qty = 100, sg_imbalance_pct = 80\<rparr>,
        \<lparr>is_p = default_params, is_last_signal_ns = 1000000\<rparr>)"
proof (rule demo_imbalance)
  fix b assume b: "book_inv b" "ob_cfg b = demo_cfg"
    "resting_orders Buy b = [\<lparr>ro_id = 7, ro_price = 150, ro_qty = 900, ro_owner = 1, ro_user_ref = 2, ro_side = Buy\<rparr>]"
    "resting_orders Sell b = [\<lparr>ro_id = 8, ro_price = 160, ro_qty = 100, ro_owner = 1, ro_user_ref = 3, ro_side = Sell\<rparr>]"
  have v: "top_volume Buy b = 900" "top_volume Sell b = 100"
    by (simp_all add: top_volume_def top_orders_def at_price_def total_qty_def b)
  have f: "decision_fits (is_p (ImbalanceStrategy default_params)) 0 b"
    by (simp add: decision_fits_def v ImbalanceStrategy_def default_params_def)
  show ?thesis
    using strategy_decides [OF b(1) f, of False 1000000] v b(3,4)
    by (intro exI [of _ b]) (simp add: decide_def ImbalanceStrategy_def default_params_def opposite_def signed_divide_int_def)
qed

section \<open>FIX and latency statistics\<close>

text \<open>C29: A FIX order survives the wire. For an order whose text fields hold no field separator and whose price is
  any 64-bit number but the least, the encoder writes a message exactly when the buffer has room for the
  reserved header, the body and the checksum field and the body is shorter than 10 to the 8 (the header has
  room for eight digits), and an empty one otherwise; parsing what it wrote reports no error (body length and
  checksum agree) and gives back the order: client id, symbol, side, quantity, price and time in force.\<close>

theorem fix_roundtrip:
  assumes "order_text_ok m" "length buf = cap"
  shows "(encode_new_order_single m buf cap \<noteq> [] \<longleftrightarrow>
       kHeaderReserve + length (fix_body m) + 7 \<le> cap \<and> length (fix_body m) < 10 ^ 8) \<and>
    (encode_new_order_single m buf cap \<noteq> [] \<longrightarrow>
       fst (fix_parse (encode_new_order_single m buf cap)) = FixNone \<and>
       to_order (snd (fix_parse (encode_new_order_single m buf cap))) =
         Some \<lparr>po_clordid = no_clordid m, po_symbol = no_symbol m, po_side = no_side m, po_qty = no_qty m,
               po_price = no_price m, po_tif = no_tif m\<rparr>)"
proof (cases "kHeaderReserve + length (fix_body m) + 7 \<le> cap \<and> length (fix_body m) < 10 ^ 8")
  case False
  then show ?thesis unfolding encode_exact [OF assms(2)] by (simp only: if_False simp_thms)
next
  case True
  have e: "encode_new_order_single m buf cap = fix_bytes m" using encode_exact [OF assms(2)] True by simp
  have "kSOH \<notin> set (str ''FIX.4.4'')" by (simp add: str_def kSOH_def)
  moreover have "length (fields_bytes (body_fields m)) < 2 ^ 64" using True by (simp add: fix_body_def)
  ultimately have "fix_parse (fix_bytes m) = (FixNone, [mk_field (8, str ''FIX.4.4''),
      mk_field (9, dec_digits (length (fields_bytes (body_fields m))))] @ map mk_field (body_fields m) @
      [mk_field (10, three_digits (fix_checksum (framed (str ''FIX.4.4'') (body_fields m))))])"
    unfolding fix_bytes_framed(2) by (intro parse_framed [OF body_plain [OF assms(1)]]) (simp_all add: body_fields_def)
  moreover have "fix_bytes m \<noteq> []" by (simp add: fix_bytes_def str_def)
  ultimately show ?thesis using order_of_body [OF assms(1)] True by (simp add: e)
qed

definition demo_fix :: new_order_single where
  "demo_fix = \<lparr>no_sender_comp_id = str ''A'', no_target_comp_id = str ''B'', no_msg_seq_num = 1,
     no_sending_time = str ''T'', no_clordid = str ''X1'', no_symbol = str ''ACME'', no_side = Buy, no_qty = 5,
     no_price = 12345, no_tif = IOC\<rparr>"

theorem fix_roundtrip_witness:
  "\<exists>fs. fix_parse (encode_new_order_single demo_fix (replicate 200 0) 200) = (FixNone, fs) \<and>
     map_option po_price (to_order fs) = Some 12345"
proof -
  have ok: "order_text_ok demo_fix" by (simp add: order_text_ok_def demo_fix_def str_def kSOH_def)
  have l: "length (fix_body demo_fix) \<le> 100"
    by (simp add: fix_body_def fields_bytes_def body_fields_def field_bytes_def price_text_def demo_fix_def
      kPriceScale_def frac_digits_def dec_digits.simps [of "Suc n" for n] dec_digits.simps [of "numeral w" for w]
      dec_digits.simps [of 1] dec_digits.simps [of 0] str_def Let_def drop_zeros.simps)
  from fix_roundtrip [OF ok, of "replicate 200 0" 200] l show ?thesis
    by (cases "fix_parse (encode_new_order_single demo_fix (replicate 200 0) 200)") (auto simp: kHeaderReserve_def demo_fix_def)
qed

text \<open>C40: Latency percentiles are exact up to the bucket, whatever the interleaving: any number of threads record
  their samples into one histogram, one access to an atomic at a time, where a compare-and-swap on the maximum
  fails when another thread has raised it or spuriously. When all have finished, each reported percentile is the
  least power of two, from 128 on, above the sample of that rank among all samples (the true maximum when that
  sample is 2 to the 54 or more), the maximum is the true one and the count is the number of samples (below 2
  to the 64 divided by 999); merging two such histograms reports on both sets of samples; and from wherever an
  interleaving has stopped, the threads can finish, each with four further accesses per sample left.\<close>

theorem latency_percentiles_exact:
  assumes "record_run sched (recorders xss, latency_histogram_reset) = (ts, h)" "finished ts"
    and "record_run sched2 (recorders yss, latency_histogram_reset) = (us, g)" "finished us"
    and "concat xss \<noteq> []" "length (concat xss @ concat yss) * 999 + 999 < 2 ^ 64"
  shows "latency_histogram_percentiles h = percentile_summary (concat xss) \<and>
    latency_histogram_percentiles (latency_histogram_merge fails h g) = percentile_summary (concat xss @ concat yss) \<and>
    (\<forall>stopped vs k. record_run stopped (recorders xss, latency_histogram_reset) = (vs, k) \<longrightarrow>
       (\<exists>rest vs' k'. length rest = 4 * length (concat (map fst vs)) \<and> record_run rest (vs, k) = (vs', k') \<and> finished vs'))"
proof -
  have e: "h = hist_of (concat xss)" "g = hist_of (concat yss)"
    using record_concurrent [OF assms(1,2)] record_concurrent [OF assms(3,4)] .
  have "latency_histogram_percentiles h = percentile_summary (concat xss)"
    unfolding e by (rule histogram_estimates) (use assms(5,6) in auto)
  moreover have "latency_histogram_percentiles (latency_histogram_merge fails h g) = percentile_summary (concat xss @ concat yss)"
    unfolding e hist_merge by (rule histogram_estimates) (use assms(5,6) in auto)
  ultimately show ?thesis using all_finish by metis
qed

text \<open>Two threads; the second raises the maximum between the load and the attempt of the first.\<close>

definition demo_sched :: "(nat \<times> bool) list" where
  "demo_sched = [(0, False), (0, False), (0, False), (1, False), (1, False), (1, False), (1, False), (0, False), (0, True), (0, False)]"

theorem latency_percentiles_exact_witness:
  "\<exists>ts h. record_run demo_sched (recorders [[700], [90]], latency_histogram_reset) = (ts, h) \<and> finished ts \<and>
     lp_p50 (latency_histogram_percentiles h) = 128 \<and> lp_p99 (latency_histogram_percentiles h) = 1024 \<and>
     lp_max_ns (latency_histogram_percentiles h) = 700"
proof -
  obtain ts h where r: "record_run demo_sched (recorders [[700], [90]], latency_histogram_reset) = (ts, h)" by fastforce
  then have f: "finished ts"
    by (auto simp: demo_sched_def recorders_def latency_histogram_reset_def finished_def)
  have "sort [700, 90 :: u64] = [90, 700]" by (simp add: word_le_nat_alt)
  then have rk: "ranked [700, 90] (Suc 0) = 90" "ranked [700, 90] 2 = 700" by (simp_all add: ranked_def)
  have fl: "bit_length 90 = 7" "bit_length 700 = 10" by (simp_all add: bit_length.simps)
  have "record_run [] (recorders [], latency_histogram_reset) = ([], latency_histogram_reset)" "finished []"
    by (simp_all add: recorders_def finished_def)
  from latency_percentiles_exact [OF r f this, of "[]"] r f show ?thesis
    by (auto simp: percentile_summary_def estimate_def rk fl word_less_nat_alt max_def)
qed

text \<open>The error of a percentile is bounded: for a rank whose sample is below the top bound
  the reported value is above the true one and, from 128 ns on, at most twice as large.\<close>

theorem latency_error_bounded:
  assumes "ranked xs k < 2 ^ 54"
  shows "ranked xs k < estimate xs k \<and> (128 \<le> ranked xs k \<longrightarrow> unat (estimate xs k) \<le> 2 * unat (ranked xs k))"
  using estimate_close [OF assms] by blast

theorem latency_error_bounded_witness:
  "ranked [700, 90] 2 = 700 \<and> 700 < estimate [700, 90] 2 \<and> unat (estimate [700, 90] 2) \<le> 1400"
proof -
  have r: "ranked [700, 90] 2 = 700" by (simp add: ranked_def word_le_nat_alt)
  from latency_error_bounded [of "[700, 90]" 2] show ?thesis by (simp add: r word_less_nat_alt word_le_nat_alt)
qed

section \<open>The exchange process\<close>

text \<open>C2: The whole exchange, end to end: from the constructor, through the opening messages and any
  number of turns of the event loop (whatever clients send, in whatever pieces, whenever they connect,
  disconnect, time out or stop reading, and whatever the synthetic flow does), the process never gets
  stuck; the messages it has published by then, applied to an empty book, meet no inconsistency and
  give a replica that mirrors the exchange's book at every price level and order; and a receiver that
  gets any of the datagrams sent in any order with any losses and repetitions delivers a prefix of exactly
  those messages, which applies without an inconsistency and gives the mirror once it is all of them
  (the receiver part for fewer than 2 to the 64 messages).\<close>

theorem exchange_end_to_end:
  assumes "length raw = kMaxPacketLen" "length symbols < 2 ^ 16"
    and "Exchange raw quiet stp d seed symbols = Some x0" "valid_locate l (x_engine x0)"
    and "book_inv c" "ob_cfg c = default_config" "\<And>t. resting_orders t c = []"
  shows "\<exists>x c2. run_loop E turns (start_of_day E dur x0) = Some x \<and>
    apply_all l (md_log (x_md x)) c = (True, c2) \<and> ob.mirrors (book_at l (x_engine x)) c2 \<and>
    md_messages (x_md x) = of_nat (length (md_log (x_md x))) \<and>
    (\<forall>ds bs t. set ds \<subseteq> set (x_wire x) \<and> track SequenceTracker (concat (map datagram_msgs ds)) = (bs, t) \<and>
       length (md_log (x_md x)) < 2 ^ 64 \<and> Suc (length (concat (map datagram_msgs ds))) < 2 ^ 64 \<longrightarrow>
       (\<exists>n c'. map itch_decode bs = map Some (take n (md_log (x_md x))) \<and> st_expected t = of_nat (Suc n) \<and>
          apply_all l (take n (md_log (x_md x))) c = (True, c') \<and> (length (md_log (x_md x)) \<le> n \<longrightarrow> c' = c2)))"
proof -
  obtain x c2 where x: "run_loop E turns (start_of_day E dur x0) = Some x"
    "feed_run d (map itch_bytes (md_log (x_md x))) (x_wire x) (x_md x)" "\<forall>m\<in>set (md_log (x_md x)). itch_wf m"
    "apply_all l (md_log (x_md x)) c = (True, c2)" "ob.mirrors (book_at l (x_engine x)) c2"
    using exchange_day [OF assms, of E turns dur] by blast
  have "md_messages (x_md x) = of_nat (length (md_log (x_md x)))"
    using feed_run_wire [OF x(2)] by (auto simp: md_holds_def dest!: arg_cong [of "map itch_bytes _" _ length])
  then show ?thesis using x deliveries_applied [OF x(2,3) _ _ _ _ x(4)] by (intro exI [of _ x] exI [of _ c2]) blast
qed

definition demo_env :: os_env where
  "demo_env = \<lparr>os_mono = (\<lambda>i. of_nat i), os_real = (\<lambda>i. of_nat i), os_sendto = (\<lambda>_. 0)\<rparr>"

lemma demo_exchange:
  obtains x0 where "Exchange (replicate kMaxPacketLen 0) True CancelResting 0 1 [str ''ACME''] = Some x0" "x_inv x0"
    "valid_locate 1 (x_engine x0)"
  using Exchange_new [of "replicate kMaxPacketLen 0" True CancelResting 0 1 "[str ''ACME'']"]
  by (auto simp: valid_locate_def)

lemma default_book:
  obtains c where "book_inv c" "ob_cfg c = default_config" "\<And>t. resting_orders t c = []"
  using book_new [OF default_config_ok] by blast

theorem exchange_end_to_end_witness:
  "\<exists>x0 x c c2. Exchange (replicate kMaxPacketLen 0) True CancelResting 0 1 [str ''ACME''] = Some x0 \<and>
     run_loop demo_env [([OrderConns 1], [], \<lambda>_. [])] (start_of_day demo_env 0 x0) = Some x \<and>
     apply_all 1 (md_log (x_md x)) c = (True, c2) \<and> ob.mirrors (book_at 1 (x_engine x)) c2"
proof (rule demo_exchange, rule default_book)
  fix x0 c assume x0: "Exchange (replicate kMaxPacketLen 0) True CancelResting 0 1 [str ''ACME''] = Some x0"
    "valid_locate 1 (x_engine x0)" and c: "book_inv c" "ob_cfg c = default_config" "\<And>t. resting_orders t c = []"
  have "length (replicate kMaxPacketLen (0 :: u8)) = kMaxPacketLen" "length [str ''ACME''] < 2 ^ 16" by simp_all
  from exchange_end_to_end [OF this x0 c, of demo_env "[([OrderConns 1], [], \<lambda>_. [])]" 0] x0(1) show ?thesis by blast
qed

text \<open>C16: Cancel on disconnect: closing a session removes exactly the resting orders of its owner
  from every book; every other order stays where it was in its queue.\<close>

theorem disconnect_cancels:
  assumes "x_inv x" "x_sessions x sid = Some s" "sid \<noteq> 0" "valid_locate l (x_engine x)"
  shows "resting_orders t (book_at l (x_engine (close_session E sid x))) =
    filter (\<lambda>r. ro_owner r \<noteq> sid) (resting_orders t (book_at l (x_engine x)))"
  by (rule close_session_effect [OF assms])

theorem disconnect_cancels_witness:
  "\<exists>x s. x_sessions x 1 = Some s \<and> resting_orders Buy (book_at 1 (x_engine (close_session demo_env 1 x))) =
     filter (\<lambda>r. ro_owner r \<noteq> 1) (resting_orders Buy (book_at 1 (x_engine x)))"
proof (rule demo_exchange)
  fix x0 assume x0: "Exchange (replicate kMaxPacketLen 0) True CancelResting 0 1 [str ''ACME''] = Some x0" "x_inv x0"
    "valid_locate 1 (x_engine x0)"
  let ?x = "accept_one demo_env OrderEntry x0"
  have i: "x_inv ?x" "valid_locate 1 (x_engine ?x)"
    using leads_accept [of x0 demo_env OrderEntry] x0(2,3) valid_locate_leads [OF x0(2) leads_accept] by (auto simp: leads_def)
  have "x_next_session_id x0 = 1" "x_sessions x0 = Map.empty" using x0(1) by (auto simp: Exchange_def)
  then obtain s where "x_sessions ?x 1 = Some s" by (simp add: accept_one_sessions)
  with disconnect_cancels [OF i(1) this _ i(2)] show ?thesis by auto
qed

text \<open>C17: The invariant of the exchange holds over every run of the event loop, and the loop always
  completes its turns: the books are well formed and not crossed, the order tables are well formed,
  and every client order that rests in a book is in the table of a connected session under its
  user reference, so the client can cancel it and a disconnect will.\<close>

theorem exchange_invariant:
  assumes "x_inv x"
  shows "\<exists>x'. run_loop E turns x = Some x' \<and> engine_inv (x_engine x') \<and>
    (\<forall>l r. valid_locate l (x_engine x') \<and> r \<in> set (book_orders (book_at l (x_engine x'))) \<and> ro_owner r \<noteq> 0 \<longrightarrow>
      (\<exists>s. x_sessions x' (ro_owner r) = Some s \<and> fm_inv (s_orders s) \<and>
         fm_find (s_orders s) (ucast (ro_user_ref r)) = Some \<lparr>oh_locate = l, oh_id = ro_id r\<rparr>))"
proof -
  obtain x' where x': "run_loop E turns x = Some x'" "x_inv x'"
    using leads_opt_run [of x E turns] assms by (auto simp: leads_opt_def)
  have "\<exists>s. x_sessions x' (ro_owner r) = Some s \<and> fm_inv (s_orders s) \<and>
      fm_find (s_orders s) (ucast (ro_user_ref r)) = Some \<lparr>oh_locate = l, oh_id = ro_id r\<rparr>"
    if "valid_locate l (x_engine x')" "r \<in> set (book_orders (book_at l (x_engine x')))" "ro_owner r \<noteq> 0" for l r
    using x_invD(2,3) [OF x'(2)] that
    by (fastforce simp: covered_def handle_of_def okey_def tables_ok_def split: option.splits)
  with x' x_invD(1) [OF x'(2)] show ?thesis by blast
qed

theorem exchange_invariant_witness:
  "\<exists>x x'. Exchange (replicate kMaxPacketLen 0) True CancelResting 0 1 [str ''ACME''] = Some x \<and>
     run_loop demo_env [([OrderConns 2, SessionReady True False False [Got [0, 1, 82], RecvEof] [] 1], [1, 2], \<lambda>_. [])] x = Some x' \<and>
     engine_inv (x_engine x')"
  by (rule demo_exchange) (use exchange_invariant in blast)

text \<open>The byte stream to a client is preserved: whatever \<open>send\<close> answers (partial writes, interrupts,
  a full buffer, an error), the bytes it took followed by those still queued are exactly the bytes that
  were queued.\<close>

theorem session_stream_preserved:
  "case flush_loop rs now s of (bs, s') \<Rightarrow> drop (s_out_off s) (s_out s) = bs @ drop (s_out_off s') (s_out s')"
  by (cases "flush_loop rs now s") (simp add: flush_loop_bytes)

section \<open>The trader\<close>

text \<open>A day without messages on an exchange that lists the trader's symbol; the snapshot arrives frame by
  frame and the login is accepted.\<close>

lemma demo_login: "\<exists>r. await_login [frame_bytes kLoginAccepted []] FrameReader = Some r"
proof -
  let ?f = "frame_bytes kLoginAccepted []"
  have n: "length ?f \<le> kMaxFrame + kFrameHeaderLen" by (simp add: kMaxFrame_def kFrameHeaderLen_def)
  have ne: "?f \<noteq> []" using length_frame_bytes [of kLoginAccepted "[]"] by (metis list.size(3) add_eq_0_iff_both_eq_0 zero_neq_numeral)
  note R = recv_into_ok [OF FrameReader_start(1) _ n]
  have p: "fr_inv (fr_recv ?f FrameReader)" "fr_pending (fr_recv ?f FrameReader) = ?f @ []"
    using R(2,3) FrameReader_start(2) by (simp_all add: kMaxFrame_def)
  obtain st r' where nx: "fr_next (fr_recv ?f FrameReader) = (st, r')" by fastforce
  have "st = Frame kLoginAccepted []"
    using fr_next_abs [OF p(1) nx] parse1_frame [of "[]" kLoginAccepted "[]"] p(2) by (simp add: frame_ok_def kMaxFrame_def)
  then show ?thesis using R(1) ne nx FrameReader_start(2) by (simp add: kMaxFrame_def)
qed

definition demo_trader_env :: "bytes list \<Rightarrow> t_env" where
  "demo_trader_env cs = \<lparr>te_mono = of_nat, te_real = of_nat, te_send = (\<lambda>_. Sent 1000), te_snap = (\<lambda>_. Conn [Sent 49] cs)\<rparr>"

definition demo_conn :: tcp_conn where
  "demo_conn = Conn [SendIntr, Sent 40, Sent 9] [frame_bytes kLoginAccepted []]"

lemma demo_day:
  obtains e cs t0 t where "venue_rest 1 (make_symbol (tc_symbol TraderConfig)) [] (\<lambda>_. []) (\<lambda>_. 0) e [] 0
      (snapshot_messages 0 1 e) (book_at 1 e)"
    "served 1 (make_symbol (tc_symbol TraderConfig)) [] (\<lambda>_. []) (\<lambda>_. 0) e [] (Conn [Sent 49] cs)"
    "Trader TraderConfig = Some t0" "t_start (demo_trader_env cs) demo_conn True t0 = Some t" "tr_synced t"
proof -
  let ?symb = "make_symbol (tc_symbol TraderConfig)"
  obtain x where x: "Exchange (replicate kMaxPacketLen 0) True CancelResting 0 1 [str ''PFRG''] = Some x" "x_inv x"
    "length (me_books (x_engine x)) = 1" "me_symbols (x_engine x) = [make_symbol (str ''PFRG'')]"
    "valid_locate 1 (x_engine x) \<longrightarrow> ob_cfg (book_at 1 (x_engine x)) = default_config"
    using Exchange_new [of "replicate kMaxPacketLen 0" True CancelResting 0 1 "[str ''PFRG'']"] by auto
  let ?e = "x_engine x" and ?rest = "venue_rest 1 ?symb [] (\<lambda>_. []) (\<lambda>_. 0) (x_engine x) []"
  have one: "l' = 1" if "valid_locate l' ?e" for l' :: u16
    using x(3) that by (auto simp: valid_locate_def) (metis le_antisym unat_1 word_unat_eq_iff One_nat_def)
  have v: "valid_locate 1 ?e" "engine_symbol ?e 1 = ?symb" using x(3,4) by (simp_all add: valid_locate_def engine_symbol_def TraderConfig_def)
  then have "venue_day 1 ?symb [] ?e []"
    using x(2-5) by (auto simp: venue_day_def x_inv_def dest: one)
  then have R: "?rest 0 (snapshot_messages 0 1 ?e) (book_at 1 ?e)"
    by (auto simp: venue_rest_def venue_messages_def ts48_def intro!: exI [of _ 0])
  define fs where "fs = snapshot_stream (snapshot_messages 0 1 ?e)"
  define cs where "cs = map (\<lambda>(t, p). frame_bytes t p) fs"
  have wf: "\<forall>m\<in>set (snapshot_messages 0 1 ?e). itch_wf m"
    using venue.rest_snapshot [OF R] by blast
  have "frame_bytes t p \<noteq> []" for t p using length_frame_bytes [of t p] by (metis list.size(3) add_is_0 zero_neq_numeral)
  then have cs: "\<forall>c\<in>set cs. c \<noteq> [] \<and> length c \<le> kMaxFrame + kFrameHeaderLen" "concat cs = frames_bytes fs"
    using snapshot_stream_ok [OF wf] by (auto simp: cs_def fs_def [symmetric] frames_ok_def frame_ok_def kFrameHeaderLen_def)
  have S: "served 1 ?symb [] (\<lambda>_. []) (\<lambda>_. 0) ?e [] (Conn [Sent 49] cs)"
    unfolding served_def tcp_conn.case using R cs by (metis append_Nil2 fs_def)
  obtain t0 where t0: "Trader TraderConfig = Some t0" "trader_ok TraderConfig t0" using Trader_ok [of TraderConfig] by blast
  have "fst (snapshot (demo_trader_env cs) t0)"
    using t0(2) cs by (intro venue.snapshot_accepted [where ss = "[Sent 49]", OF _ _ cs(1) R]) (simp_all add: demo_trader_env_def fs_def trader_ok_def)
  then obtain t1 where t1: "snapshot (demo_trader_env cs) t0 = (True, t1)" by (cases "snapshot (demo_trader_env cs) t0") simp
  have sync: "tr_synced t1" using t1 by (rule snapshot_cases) auto
  have "tr_oe_reader t1 = FrameReader" using t0(1) snapshot_reader [of "demo_trader_env cs" t0] t1 by (auto simp: Trader_def)
  obtain p where p: "login_frame (tc_user (tr_cfg t1)) (replicate 64 0) 64 = (blit (replicate 64 0) 0 (frame_bytes kLoginRequest p), 49)"
    using login_frame_bytes by blast
  have "send_all_blocking [SendIntr, Sent 40, Sent 9] 49" by simp
  then obtain t2 where "connect_order_entry (demo_trader_env cs) demo_conn True t1 = Some t2" "tr_synced t2"
    using demo_login \<open>tr_oe_reader t1 = FrameReader\<close> sync p by (auto simp: connect_order_entry_def demo_conn_def t_now_ns_def Let_def)
  then have "\<exists>t. t_start (demo_trader_env cs) demo_conn True t0 = Some t \<and> tr_synced t"
    by (auto simp: t_start_def t1 t_now_ns_def)
  then show ?thesis using that R S t0(1) by blast
qed

text \<open>C4: The position of the trader stays within the limit over every run, whatever the exchange reports:
  duplicated, invented, oversized or missing execution reports included. The worst case over the order
  that may still be open is within the limit too, and at most one order is in the table.\<close>

theorem trader_position_bounded:
  assumes "Trader c = Some t0" "t_run E conn en turns last_turns stamps t0 = Some t" "0 \<le> rl_max_position (tc_risk c)"
  shows "\<bar>rg_position (tr_risk t)\<bar> \<le> rl_max_position (tc_risk c) \<and> card (dom (fm_find (tr_orders t))) \<le> 1 \<and>
    (\<forall>k ord. fm_find (tr_orders t) k = Some ord \<longrightarrow>
       (if lo_side ord = Buy then rg_position (tr_risk t) + int (unat (lo_leaves ord)) \<le> rl_max_position (tc_risk c)
        else - rl_max_position (tc_risk c) \<le> rg_position (tr_risk t) - int (unat (lo_leaves ord))))"
proof -
  obtain os ts where A: "accounts (tc_risk c) os ts t" using ok_run [OF assms(1,2)] by (auto simp: trader_ok_def)
  then have R: "risk_inv os (tr_risk t)" "rg_lim (tr_risk t) = tc_risk c"
    using risk_run_inv [OF _ assms(3)] risk_run_lim by (auto simp: accounts_def)
  have m: "tracked os (fm_find (tr_orders t))" using A by (simp add: accounts_def)
  then have "card (dom (fm_find (tr_orders t))) \<le> 1" by (auto simp: tracked_def)
  moreover have "if lo_side ord = Buy then rg_position (tr_risk t) + int (unat (lo_leaves ord)) \<le> rl_max_position (tc_risk c)
      else - rl_max_position (tc_risk c) \<le> rg_position (tr_risk t) - int (unat (lo_leaves ord))"
    if f: "fm_find (tr_orders t) k = Some ord" for k ord
  proof -
    obtain xs ys where "os = xs @ (lo_side ord, unat (lo_leaves ord)) # ys" by (rule tracked_find [OF m f])
    then show ?thesis using R by (cases "lo_side ord") (auto simp: risk_inv_def)
  qed
  moreover have "\<bar>rg_position (tr_risk t)\<bar> \<le> rl_max_position (tc_risk c)" using R by (auto simp: risk_inv_def)
  ultimately show ?thesis by blast
qed

theorem trader_position_bounded_witness:
  "\<exists>t0 t E. Trader TraderConfig = Some t0 \<and> t_run E demo_conn True [[TimerFired 1]] [] [] t0 = Some t \<and>
     \<bar>rg_position (tr_risk t)\<bar> \<le> 2000"
proof (rule demo_day)
  fix e cs t0 t assume t: "Trader TraderConfig = Some t0" "t_start (demo_trader_env cs) demo_conn True t0 = Some t"
  let ?t = "t_finish (demo_trader_env cs) [] [] (t_loop (demo_trader_env cs) [[TimerFired 1]] t)"
  have r: "t_run (demo_trader_env cs) demo_conn True [[TimerFired 1]] [] [] t0 = Some ?t" using t(2) by (simp add: t_run_def)
  have "rl_max_position (tc_risk TraderConfig) = 2000" by (simp add: TraderConfig_def default_limits_def)
  then show ?thesis using trader_position_bounded [OF t(1) r] t(1) r by auto
qed

text \<open>C15: What the trader sends is a stream of whole frames, however the kernel divides the writes: a login,
  heartbeats, a logout, cancels, and immediate-or-cancel orders for its own symbol that respect the quantity
  and notional limits. The k-th signal it turns into an order takes reference k (as a 32-bit number), the
  orders on the wire carry a subsequence of these references in this order (an order met by a closed
  connection is never written), the order counter and the next reference count the signals, and as long as
  these are fewer than 2 to the 32 the references on the wire are strictly increasing, so the exchange never
  sees one twice. The byte counter that names transmit time stamps is the number of bytes the kernel took.\<close>

theorem trader_stream:
  assumes "Trader c = Some t0" "t_run E conn en turns last_turns stamps t0 = Some t"
  shows "\<exists>fs. tr_wire t @ tr_oe_pending t = frames_bytes fs \<and> tr_stream_bytes t = of_nat (length (tr_wire t)) \<and>
    (\<forall>f\<in>set fs. client_frame (tc_risk c) (make_symbol (tc_symbol c)) f) \<and>
    subseq (order_refs fs) (map of_nat [1..<Suc (length (tr_sent t))]) \<and>
    tr_next_user_ref t = of_nat (Suc (length (tr_sent t))) \<and> tr_orders_sent t = of_nat (length (tr_sent t)) \<and>
    (length (tr_sent t) < 2 ^ 32 \<longrightarrow> sorted_wrt (<) (order_refs fs))"
proof -
  obtain os ts fs where A: "accounts (tc_risk c) os ts t" "frame_stream fs t"
    "orders_ok (tc_risk c) (make_symbol (tc_symbol c)) (length ts) fs"
    using ok_run [OF assms] by (auto simp: trader_ok_def)
  then have "length ts = length (tr_sent t)" by (simp add: accounts_def)
  with A refs_increase [of "order_refs fs" "length ts"] show ?thesis
    by (intro exI [of _ fs]) (simp add: accounts_def frame_stream_def orders_ok_def)
qed

theorem trader_stream_witness:
  "\<exists>t0 t E fs. Trader TraderConfig = Some t0 \<and> t_run E demo_conn True [[TimerFired 1]] [] [] t0 = Some t \<and>
     tr_wire t @ tr_oe_pending t = frames_bytes fs"
proof (rule demo_day)
  fix e cs t0 t assume t: "Trader TraderConfig = Some t0" "t_start (demo_trader_env cs) demo_conn True t0 = Some t"
  let ?t = "t_finish (demo_trader_env cs) [] [] (t_loop (demo_trader_env cs) [[TimerFired 1]] t)"
  have r: "t_run (demo_trader_env cs) demo_conn True [[TimerFired 1]] [] [] t0 = Some ?t" using t(2) by (simp add: t_run_def)
  show ?thesis using trader_stream [OF t(1) r] t(1) r by blast
qed

text \<open>C3: The replica of the trader against the exchange, end to end: whatever datagrams are lost, repeated or
  reordered, wherever snapshot connections break and however reads are divided, a trader that considers
  itself synchronised holds the book that results from replaying the published messages up to the sequence
  number it expects next; where the exchange was at rest at that point, the replica mirrors its book. And
  if the next datagram makes it send an order, it is synchronised and in step when it does.\<close>

theorem trader_book_faithful:
  assumes "Trader c = Some t0" "make_symbol (tc_symbol c) = symb" "t_start E conn en t0 = Some t1"
    and "\<And>n. served l symb pre stock clock e steps (te_snap E n)" "day_events (venue_messages pre stock clock steps) turns"
    and "t = t_loop E turns t1" "carries (map itch_bytes (venue_messages pre stock clock steps)) d" "t' = handle_packet E d tk tu t"
  shows "(tr_synced t \<longrightarrow> (\<exists>n. replays l symb pre stock clock e steps n t \<and>
      (\<forall>sm b. venue_rest l symb pre stock clock e steps n sm b \<longrightarrow> ob.mirrors b (tr_book t)))) \<and>
    (tr_next_user_ref t' \<noteq> tr_next_user_ref t \<longrightarrow> tr_synced t' \<and> (\<exists>n. replays l symb pre stock clock e steps n t'))"
proof -
  have h: "\<And>n. venue.honest l symb pre stock clock e steps (te_snap E n)" using assms(4) by (simp add: venue_defs)
  have ev: "\<forall>evs\<in>set turns. \<forall>ev\<in>set evs. venue.event_ok pre stock clock steps ev" using assms(5) by (simp add: venue_defs)
  have S: "venue.steady l symb pre stock clock steps e c t"
    unfolding assms(6) by (rule venue.steady_run [OF h assms(1-3) ev])
  then have C: "venue.consistent l symb pre stock clock steps e t" "trader_ok c t" by (simp_all add: venue.steady_def)
  have "tr_synced t \<longrightarrow> (\<exists>n. replays l symb pre stock clock e steps n t)"
    using C(1) by (simp add: venue.consistent_def venue_defs)
  moreover have "ob.mirrors b (tr_book t)"
    if "replays l symb pre stock clock e steps n t" "venue_rest l symb pre stock clock e steps n sm b" for n sm b
    using that venue.in_step_mirrors by (simp add: venue_defs)
  moreover have "tr_next_user_ref t' \<noteq> tr_next_user_ref t \<longrightarrow> tr_synced t' \<and> (\<exists>n. replays l symb pre stock clock e steps n t')"
    using venue.consistent_packet(2) [OF C h assms(7), of tk tu] unfolding assms(8) venue_defs by blast
  ultimately show ?thesis by blast
qed

theorem trader_book_faithful_witness:
  "\<exists>e t0 t1 cs. Trader TraderConfig = Some t0 \<and> t_start (demo_trader_env cs) demo_conn True t0 = Some t1 \<and> tr_synced t1 \<and>
     (\<exists>n. replays 1 (make_symbol (tc_symbol TraderConfig)) [] (\<lambda>_. []) (\<lambda>_. 0) e [] n
        (t_loop (demo_trader_env cs) [[TimerFired 0]] t1))"
proof (rule demo_day)
  fix e cs t0 t assume D: "served 1 (make_symbol (tc_symbol TraderConfig)) [] (\<lambda>_. []) (\<lambda>_. 0) e [] (Conn [Sent 49] cs)"
    "Trader TraderConfig = Some t0" "t_start (demo_trader_env cs) demo_conn True t0 = Some t" "tr_synced t"
  let ?t = "t_loop (demo_trader_env cs) [[TimerFired 0]] t"
  have "tr_synced ?t" using D(4) by (simp add: pump_def t_on_timer_def)
  moreover have "day_events (venue_messages [] (\<lambda>_. []) (\<lambda>_. 0) []) [[TimerFired 0]]" by (simp add: day_events_def)
  moreover have "carries (map itch_bytes (venue_messages [] (\<lambda>_. []) (\<lambda>_. 0) [])) []"
    by (auto simp: carries_def datagram_msgs_def parse_header_def kHeaderLen_def numbered_from_def)
  moreover have "served 1 (make_symbol (tc_symbol TraderConfig)) [] (\<lambda>_. []) (\<lambda>_. 0) e [] (te_snap (demo_trader_env cs) n)" for n
    using D(1) by (simp add: demo_trader_env_def)
  ultimately have "\<exists>n. replays 1 (make_symbol (tc_symbol TraderConfig)) [] (\<lambda>_. []) (\<lambda>_. 0) e [] n ?t"
    using trader_book_faithful [OF D(2) refl D(3), of 1 "[]" "\<lambda>_. []" "\<lambda>_. 0" e "[]" "[[TimerFired 0]]" ?t "[]" _ 0 0, OF _ _ refl _ refl]
    by blast
  then show ?thesis using D(2-4) by blast
qed

section \<open>Well-formedness and termination\<close>

text \<open>The public operations of the order book as calls; a call of \<open>reduce_front\<close> is made with a quantity
  that the front order has.\<close>

datatype book_call =
    CallAdd order_id side price qty u32 u32
  | CallRemove order_id
  | CallReduce order_id qty
  | CallReduceFront side qty
  | CallClear

fun run_call :: "book_call \<Rightarrow> order_book \<Rightarrow> order_book" where
  "run_call (CallAdd k s p q ow ur) b = snd (ob_add k s p q ow ur b)"
| "run_call (CallRemove k) b = snd (ob_remove k b)"
| "run_call (CallReduce k q) b = snd (ob_reduce k q b)"
| "run_call (CallReduceFront s q) b =
     (case ob_front s b of None \<Rightarrow> b | Some n \<Rightarrow> if q \<le> bo_qty n then ob_reduce_front s q b else b)"
| "run_call CallClear b = ob_clear b"

lemma run_call_inv:
  assumes "book_inv b"
  shows "book_inv (run_call c b) \<and> ob_cfg (run_call c b) = ob_cfg b"
proof (cases c)
  case (CallReduceFront s q)
  show ?thesis
  proof (cases "ob_front s b")
    case (Some n)
    then obtain r rs where r: "resting_orders s b = r # rs" "rest_of n = r"
      using book_front [OF assms, of s] by (auto split: list.splits)
    then have "ro_qty r = bo_qty n" by (auto simp: rest_of_def)
    then show ?thesis using book_reduce_front [OF assms r(1), of q] assms Some CallReduceFront by simp
  qed (use assms CallReduceFront in simp)
next
  case (CallAdd k s p q ow ur)
  then show ?thesis using book_add [OF assms, of k s p q ow ur] by auto
next
  case (CallRemove k)
  then show ?thesis using book_remove [OF assms, of k] by auto
next
  case (CallReduce k q)
  then show ?thesis using book_reduce [OF assms, of k q] by auto
qed (use book_clear [OF assms] in simp)

text \<open>C19: The order book is well formed after any sequence of calls: every resting order is on its side, has
  shares left, an id other than 0 and a price on the grid; ids are distinct over both sides; each side is in
  price order; the number of live orders is exact and within the capacity; the configuration never changes.\<close>

theorem book_well_formed:
  assumes "cfg_ok cfg" "OrderBook cfg = Some b0" "b = fold run_call calls b0"
  shows "ob_cfg b = cfg \<and> distinct (map ro_id (book_orders b)) \<and> ob_live b = length (book_orders b) \<and>
    length (book_orders b) \<le> unat (bc_max_orders cfg) \<and>
    (\<forall>s. sorted_wrt (\<lambda>r r'. at_least s (ro_price r) (ro_price r')) (resting_orders s b) \<and>
      (\<forall>r\<in>set (resting_orders s b). ro_side r = s \<and> ro_qty r \<noteq> 0 \<and> ro_id r \<noteq> 0 \<and> valid_price b (ro_price r)))"
proof -
  have "book_inv (fold run_call cs b') \<and> ob_cfg (fold run_call cs b') = ob_cfg b'" if "book_inv b'" for cs b'
    using that by (induction cs arbitrary: b') (simp_all add: run_call_inv)
  then have I: "book_inv b" "ob_cfg b = cfg" using book_new [OF assms(1)] assms(2,3) by auto
  then show ?thesis
    using book_inv_distinct book_order_count [OF I(1)] book_sorted [OF I(1)] book_node_facts [OF I(1)] by auto
qed

text \<open>C18: Matching ends: whatever the order, the loop of \<open>submit\<close> stops after at most one turn per resting order on the
  other side, so a submit produces at most two events more than there are such orders. The probe and
  shift loops of the hash map, which the source writes without a bound, end within one pass over the table.\<close>

theorem loops_terminate:
  assumes "engine_inv e" "fm_inv (m :: 'v flat_map)" "k \<noteq> 0"
  shows "(\<exists>e' evs. submit loc req e = Some (e', evs) \<and>
      length evs \<le> (if valid_locate loc e then length (resting_orders (opposite (rq_side req)) (book_at loc e)) else 0) + 2) \<and>
    (\<exists>i. fm_probe (length (fm_slots m)) m k (fm_home m k) = Some i \<and>
      (fm_key m i = k \<longrightarrow> (\<exists>m'. fm_shift_back (length (fm_slots m)) m i i = Some m')))"
proof
  show "\<exists>e' evs. submit loc req e = Some (e', evs) \<and>
      length evs \<le> (if valid_locate loc e then length (resting_orders (opposite (rq_side req)) (book_at loc e)) else 0) + 2"
  proof (cases "accepts loc req e")
    case True
    have w: "length evs \<le> length ms + of_bool ret" if "walk stp loc req mn ms rem = (ret, ms', mn', rem', evs)"
      for stp mn ms rem ret ms' mn' rem' evs
      using that
    proof (induction ms arbitrary: mn rem ret ms' mn' rem' evs)
      case (Cons m ms)
      then show ?case by (fastforce split: if_splits prod.splits)
    qed simp
    obtain e' evs where s: "submit loc req e = Some (e', evs)" "spec_submit (me_stp e) loc req (me_next_match e) (ob_capacity (book_at loc e))
        (resting_orders (rq_side req) (book_at loc e)) (resting_orders (opposite (rq_side req)) (book_at loc e)) =
        (resting_orders (rq_side req) (book_at loc e'), resting_orders (opposite (rq_side req)) (book_at loc e'), me_next_match e', evs)"
      using submit_refines_accepted [OF assms(1) True] by blast
    obtain ret c' mn' rem evs1 where wk: "walk (me_stp e) loc req (me_next_match e) (resting_orders (opposite (rq_side req)) (book_at loc e)) (rq_qty req) =
        (ret, c', mn', rem, evs1)" by (cases "walk (me_stp e) loc req (me_next_match e) (resting_orders (opposite (rq_side req)) (book_at loc e)) (rq_qty req)")
    have "length evs \<le> length (resting_orders (opposite (rq_side req)) (book_at loc e)) + 2"
      using s(2) w [OF wk] by (cases ret) (auto simp: spec_submit_def wk Let_def split: if_splits)
    then show ?thesis using s(1) True by (simp add: accepts_def)
  next
    case False
    then show ?thesis using submit_rejects [OF assms(1) False] by auto
  qed
  obtain b where b: "fm_shape m b" using assms(2) by (rule fm_inv_shape)
  obtain p where p: "fm_probe (length (fm_slots m)) m k (fm_home m k) = Some p" "fm_key m p = 0 \<or> fm_key m p = k"
    by (rule fm_probe_home [OF assms(2) b assms(3)])
  have "\<exists>m'. fm_shift_back (length (fm_slots m)) m p p = Some m'" if k: "fm_key m p = k"
  proof -
    have "fm_find m k = Some (s_val (fm_slots m ! p))" using p(1) k assms(3) by (simp add: fm_find_def kEmpty_def)
    from fm_erase_present [OF assms(2) this] show ?thesis
      using p(1) k assms(3) by (auto simp: fm_erase_def kEmpty_def split: option.splits)
  qed
  with p(1) show "\<exists>i. fm_probe (length (fm_slots m)) m k (fm_home m k) = Some i \<and>
      (fm_key m i = k \<longrightarrow> (\<exists>m'. fm_shift_back (length (fm_slots m)) m i i = Some m'))" by blast
qed

theorem book_well_formed_witness:
  "\<exists>b0 b. OrderBook demo_cfg = Some b0 \<and> b = fold run_call [CallAdd 7 Buy 120 30 1 1, CallReduceFront Buy 10, CallAdd 7 Sell 130 5 2 2] b0 \<and>
     ob_live b = length (book_orders b)"
proof -
  obtain b0 where "OrderBook demo_cfg = Some b0" by (rule demo_book)
  with book_well_formed [OF demo_cfg_ok this refl, of "[CallAdd 7 Buy 120 30 1 1, CallReduceFront Buy 10, CallAdd 7 Sell 130 5 2 2]"]
  show ?thesis by blast
qed

theorem loops_terminate_witness:
  "(\<exists>e' evs. submit 1 sell_100 demo_engine = Some (e', evs) \<and> length evs \<le> 2) \<and>
   (\<exists>i. fm_probe 32 (FlatIdMap (0 :: u64) 16) 5 (fm_home (FlatIdMap (0 :: u64) 16) 5) = Some i)"
proof -
  have i: "fm_inv (FlatIdMap (0 :: u64) 16)" by (rule FlatIdMap_inv) simp
  have "fm_bits 16 4 = 5" by (simp add: fm_bits.simps)
  then have n: "length (fm_slots (FlatIdMap (0 :: u64) 16)) = 32" by (simp add: FlatIdMap_def)
  show ?thesis
    using loops_terminate [OF demo_engine_facts(1) i, of 5 1 sell_100] demo_engine_facts(2,3) unfolding n by auto
qed

section \<open>Command lines\<close>



end
